(* ===== verification/HMap_Prelude.thy ===== *)
theory HMap_Prelude
  imports Main "HOL-Library.Word"
begin

text \<open>
  Shared vocabulary of the development: the names of the C integer types, the C notion of a
  NUL-free string, the outcome type of operations that may abort the process, and the lemmas on
  bits, powers of two and lists that several components use.

  Conventions used everywhere:
  \<^item> a GMP integer (\<open>mpz_t\<close>) is an \<open>int\<close>; GMP's \<open>fdiv_q\<close> and \<open>mod\<close> (for a positive modulus) are
    \<open>div\<close> and \<open>mod\<close>, its \<open>and\<close>/\<open>ior\<close> are the two's complement \<open>AND\<close>/\<open>OR\<close> on \<open>int\<close>;
  \<^item> a \<open>w\<close>-bit C integer is a \<open>w word\<close>;
  \<^item> a buffer is a list of bytes, a write past its end is an outcome of its own;
  \<^item> \<open>assert\<close>, \<open>log_fatal\<close> and undefined behaviour are the failure values of \<open>outcome\<close>.
\<close>

unbundle bit_operations_syntax

type_synonym mpz = int
type_synonym u8 = "8 word"
type_synonym u16 = "16 word"
type_synonym u32 = "32 word"
type_synonym u64 = "64 word"

text \<open>What a C call can end with besides returning.\<close>

datatype stop = Assert_failed | Log_fatal | Out_of_bounds | Undefined_value

type_synonym 'a outcome = "stop + 'a"

definition bind_out :: "'a outcome \<Rightarrow> ('a \<Rightarrow> 'b outcome) \<Rightarrow> 'b outcome" where
  "bind_out r f = (case r of Inl e \<Rightarrow> Inl e | Inr x \<Rightarrow> f x)"

lemma bind_out_simps [simp]:
  "bind_out (Inl e) f = Inl e" "bind_out (Inr x) f = f x"
  by (simp_all add: bind_out_def)

lemma bind_out_eq_Inr [simp]:
  "bind_out r f = Inr y \<longleftrightarrow> (\<exists>x. r = Inr x \<and> f x = Inr y)"
  by (cases r) auto

text \<open>A computation with a loop that may not end: \<open>None\<close> is a call that does not return.\<close>

type_synonym 'a run = "'a outcome option"

definition bind_run :: "'a run \<Rightarrow> ('a \<Rightarrow> 'b run) \<Rightarrow> 'b run" where
  "bind_run r f = (case r of None \<Rightarrow> None | Some (Inl e) \<Rightarrow> Some (Inl e) | Some (Inr x) \<Rightarrow> f x)"

lemma bind_run_simps [simp]:
  "bind_run None f = None" "bind_run (Some (Inl e)) f = Some (Inl e)"
  "bind_run (Some (Inr x)) f = f x"
  by (simp_all add: bind_run_def)

lemma bind_run_bind:
  "bind_run r f = Option.bind r (\<lambda>y. case y of Inl e \<Rightarrow> Some (Inl e) | Inr x \<Rightarrow> f x)"
  by (cases r) (simp_all add: bind_run_def split: sum.split)

lemma bind_run_mono [partial_function_mono]:
  assumes "mono_option B" "\<And>y. mono_option (\<lambda>f. C y f)"
  shows "mono_option (\<lambda>f. bind_run (B f) (\<lambda>y. C y f))"
proof -
  have "mono_option (\<lambda>f. case y of Inl e \<Rightarrow> Some (Inl e) | Inr x \<Rightarrow> C x f)" for y
    by (cases y) (simp_all add: option.const_mono assms(2))
  then have "mono_option (\<lambda>f. Option.bind (B f) (\<lambda>y. case y of Inl e \<Rightarrow> Some (Inl e) | Inr x \<Rightarrow> C x f))"
    by (rule bind_mono [OF assms(1)])
  then show ?thesis by (simp only: bind_run_bind)
qed

text \<open>The collection of the round-trip and size facts that the byte-level proofs simplify with.\<close>

named_theorems byte_simps \<open>lengths and values of byte strings\<close>

subsection \<open>Bits of integers\<close>

text \<open>The test \<open>x AND 2^k\<close> of the tree walks reads one bit.\<close>

lemma and_pow2_iff_bit: "x AND (2 ^ k :: int) \<noteq> 0 \<longleftrightarrow> bit x k"
  by (simp add: and_exp_eq_0_iff_not_bit)

lemma bit_shift1_mod:
  fixes p :: int
  shows "bit (p * 2 mod 2 ^ m) (Suc k) \<longleftrightarrow> Suc k < m \<and> bit p k"
proof -
  have "p * 2 mod 2 ^ m = take_bit m (2 * p)"
    by (simp add: take_bit_eq_mod mult.commute)
  then show ?thesis by (simp add: bit_take_bit_iff bit_double_iff)
qed

lemma div_pow2_eq_iff_bits:
  fixes a b :: int
  shows "a div 2 ^ k = b div 2 ^ k \<longleftrightarrow> (\<forall>i\<ge>k. bit a i \<longleftrightarrow> bit b i)"
proof
  assume h: "a div 2 ^ k = b div 2 ^ k"
  show "\<forall>i\<ge>k. bit a i \<longleftrightarrow> bit b i"
  proof (intro allI impI)
    fix i assume "k \<le> i"
    then obtain j where i: "i = k + j" using le_Suc_ex by blast
    from h have "bit (drop_bit k a) j \<longleftrightarrow> bit (drop_bit k b) j"
      by (simp add: drop_bit_eq_div)
    then show "bit a i \<longleftrightarrow> bit b i" by (simp add: bit_drop_bit_eq i)
  qed
next
  assume "\<forall>i\<ge>k. bit a i \<longleftrightarrow> bit b i"
  then have "drop_bit k a = drop_bit k b"
    by (intro bit_eqI) (simp add: bit_drop_bit_eq)
  then show "a div 2 ^ k = b div 2 ^ k" by (simp add: drop_bit_eq_div)
qed

lemma bit_high_zero:
  fixes a :: int
  assumes "0 \<le> a" "a < 2 ^ n" "n \<le> i"
  shows "\<not> bit a i"
proof -
  have "a = take_bit n a" using assms by (simp add: take_bit_int_eq_self)
  then show ?thesis using assms(3) bit_take_bit_iff [of n a i] by auto
qed

text \<open>Joining a multiple of a power of two with a smaller offset by \<open>OR\<close> is addition.\<close>

lemma or_disjoint_add:
  fixes a b :: int
  assumes "0 \<le> b" "b < 2 ^ k"
  shows "(a * 2 ^ k) OR b = a * 2 ^ k + b"
proof -
  have "(a * 2 ^ k) AND b = 0"
  proof (rule bit_eqI)
    fix i
    have "bit (a * 2 ^ k) i \<Longrightarrow> k \<le> i"
      by (simp add: bit_push_bit_iff flip: push_bit_eq_mult)
    moreover have "k \<le> i \<Longrightarrow> \<not> bit b i" by (rule bit_high_zero [OF assms])
    ultimately show "bit ((a * 2 ^ k) AND b) i \<longleftrightarrow> bit (0::int) i"
      by (auto simp: bit_and_iff)
  qed
  then show ?thesis by (simp add: disjunctive_add_eq_or)
qed

lemma div_lt_pow2:
  fixes a :: int
  assumes "a < b * 2 ^ k"
  shows "a div 2 ^ k < b"
proof (rule ccontr)
  assume "\<not> a div 2 ^ k < b"
  then have "b * 2 ^ k \<le> a div 2 ^ k * 2 ^ k" by (simp add: mult_right_mono)
  also have "\<dots> \<le> a" by (simp flip: minus_mod_eq_div_mult)
  finally show False using assms by simp
qed

lemma unat_u8_less: "unat (b :: u8) < 256"
  using unsigned_less [of b, where ?'a = nat] by simp

subsection \<open>Lists of equally long blocks\<close>

lemma length_concat_uniform:
  "\<forall>xs \<in> set xss. length xs = l \<Longrightarrow> length (concat xss) = l * length xss"
  by (induction xss) auto

lemma nth_concat_uniform:
  assumes "\<forall>xs \<in> set xss. length xs = l" "0 < l" "i < l * length xss"
  shows "concat xss ! i = xss ! (i div l) ! (i mod l)"
  using assms
proof (induction xss arbitrary: i)
  case (Cons xs xss)
  show ?case
  proof (cases "i < l")
    case True
    with Cons.prems show ?thesis by (simp add: nth_append)
  next
    case False
    then have "i div l = Suc ((i - l) div l)" "i mod l = (i - l) mod l"
      using Cons.prems(2) by (simp_all add: le_div_geq le_mod_geq)
    with False Cons show ?thesis by (simp add: nth_append)
  qed
qed simp

text \<open>The first hit of a filter over an interval, and what is left after it.\<close>

lemma filter_upt_Cons:
  "filter P [a ..< b] = x # xs \<Longrightarrow> a \<le> x \<and> x < b \<and> P x \<and> xs = filter P [Suc x ..< b]"
proof (induction "b - a" arbitrary: a)
  case (Suc d)
  then have ab: "[a ..< b] = a # [Suc a ..< b]" by (simp add: upt_conv_Cons)
  show ?case
  proof (cases "P a")
    case True
    with Suc.prems ab show ?thesis using Suc.hyps(2) by auto
  next
    case False
    then have "filter P [Suc a ..< b] = x # xs" using Suc.prems ab by simp
    then show ?thesis using Suc.hyps(1) [of "Suc a"] Suc.hyps(2) by fastforce
  qed
qed simp

subsection \<open>C strings\<close>

text \<open>
  A C string is the list of its characters before the terminating NUL. \<open>split_at_char\<close> is what
  \<open>strchr\<close> followed by \<open>*p = 0\<close> leaves: the part before the first occurrence, and the part after it
  when there is one.
\<close>

fun split_at_char :: "char \<Rightarrow> string \<Rightarrow> string \<times> string option" where
  "split_at_char c [] = ([], None)"
| "split_at_char c (x # xs) =
     (if x = c then ([], Some xs)
      else case split_at_char c xs of (a, b) \<Rightarrow> (x # a, b))"

lemma split_at_char_None: "snd (split_at_char c s) = None \<longleftrightarrow> c \<notin> set s"
  by (induction s) (auto split: prod.splits)

lemma split_at_char_absent [simp]: "c \<notin> set s \<Longrightarrow> split_at_char c s = (s, None)"
  by (induction s) auto

lemma split_at_char_present:
  "c \<notin> set a \<Longrightarrow> split_at_char c (a @ c # b) = (a, Some b)"
  by (induction a) auto

lemma split_at_char_join:
  "split_at_char c s = (a, Some b) \<Longrightarrow> s = a @ c # b \<and> c \<notin> set a"
  by (induction s arbitrary: a) (auto split: prod.splits if_splits)

end
