(* ===== verification/Gmp_Ext.thy ===== *)
theory Gmp_Ext
  imports HMap_Prelude
begin

text \<open>
  The GMP extensions of \<open>lib/gmp-ext.c\<close>: the comparison predicates over \<open>mpz_cmp\<close>, and the
  conversions between a number and the big-endian bytes of an address, by bytes and by bits.
  An \<open>mpz_t\<close> is an \<open>int\<close>. GMP itself is not under \<open>src/\<close>: \<open>mpz_cmp\<close>, \<open>mpz_export\<close> and
  \<open>mpz_import\<close> are written from the manual for the one parameter choice the file uses (most
  significant byte first, one byte per word, no nails).
\<close>

section \<open>Comparisons\<close>

text \<open>\<open>mpz_cmp\<close> returns a positive, zero or negative value.\<close>

definition mpz_cmp :: "mpz \<Rightarrow> mpz \<Rightarrow> int" where
  "mpz_cmp a b = (if a < b then -1 else if a = b then 0 else 1)"

definition mpz_eq :: "mpz \<Rightarrow> mpz \<Rightarrow> bool" where "mpz_eq a b \<longleftrightarrow> mpz_cmp a b = 0"
definition mpz_ne :: "mpz \<Rightarrow> mpz \<Rightarrow> bool" where "mpz_ne a b \<longleftrightarrow> mpz_cmp a b \<noteq> 0"
definition mpz_ge :: "mpz \<Rightarrow> mpz \<Rightarrow> bool" where "mpz_ge a b \<longleftrightarrow> mpz_cmp a b \<ge> 0"
definition mpz_le :: "mpz \<Rightarrow> mpz \<Rightarrow> bool" where "mpz_le a b \<longleftrightarrow> mpz_cmp a b \<le> 0"
definition mpz_gt :: "mpz \<Rightarrow> mpz \<Rightarrow> bool" where "mpz_gt a b \<longleftrightarrow> mpz_cmp a b > 0"
definition mpz_lt :: "mpz \<Rightarrow> mpz \<Rightarrow> bool" where "mpz_lt a b \<longleftrightarrow> mpz_cmp a b < 0"

text \<open>The \<open>_ui\<close> variants compare with an unsigned long, here the \<open>int\<close> it stands for.\<close>

definition mpz_eq_ui :: "mpz \<Rightarrow> int \<Rightarrow> bool" where "mpz_eq_ui a b \<longleftrightarrow> mpz_cmp a b = 0"
definition mpz_ne_ui :: "mpz \<Rightarrow> int \<Rightarrow> bool" where "mpz_ne_ui a b \<longleftrightarrow> mpz_cmp a b \<noteq> 0"
definition mpz_ge_ui :: "mpz \<Rightarrow> int \<Rightarrow> bool" where "mpz_ge_ui a b \<longleftrightarrow> mpz_cmp a b \<ge> 0"
definition mpz_le_ui :: "mpz \<Rightarrow> int \<Rightarrow> bool" where "mpz_le_ui a b \<longleftrightarrow> mpz_cmp a b \<le> 0"
definition mpz_gt_ui :: "mpz \<Rightarrow> int \<Rightarrow> bool" where "mpz_gt_ui a b \<longleftrightarrow> mpz_cmp a b > 0"
definition mpz_lt_ui :: "mpz \<Rightarrow> int \<Rightarrow> bool" where "mpz_lt_ui a b \<longleftrightarrow> mpz_cmp a b < 0"
definition mpz_not_zero :: "mpz \<Rightarrow> bool" where "mpz_not_zero a \<longleftrightarrow> mpz_ne_ui a 0"
definition mpz_zero :: "mpz \<Rightarrow> bool" where "mpz_zero a \<longleftrightarrow> mpz_eq_ui a 0"

lemma mpz_pred_simps [simp]:
  "mpz_eq a b \<longleftrightarrow> a = b" "mpz_ne a b \<longleftrightarrow> a \<noteq> b" "mpz_ge a b \<longleftrightarrow> a \<ge> b"
  "mpz_le a b \<longleftrightarrow> a \<le> b" "mpz_gt a b \<longleftrightarrow> a > b" "mpz_lt a b \<longleftrightarrow> a < b"
  "mpz_eq_ui a b \<longleftrightarrow> a = b" "mpz_ne_ui a b \<longleftrightarrow> a \<noteq> b" "mpz_ge_ui a b \<longleftrightarrow> a \<ge> b"
  "mpz_le_ui a b \<longleftrightarrow> a \<le> b" "mpz_gt_ui a b \<longleftrightarrow> a > b" "mpz_lt_ui a b \<longleftrightarrow> a < b"
  "mpz_not_zero a \<longleftrightarrow> a \<noteq> 0" "mpz_zero a \<longleftrightarrow> a = 0"
  by (simp_all add: mpz_eq_def mpz_ne_def mpz_ge_def mpz_le_def mpz_gt_def mpz_lt_def
      mpz_eq_ui_def mpz_ne_ui_def mpz_ge_ui_def mpz_le_ui_def mpz_gt_ui_def mpz_lt_ui_def
      mpz_not_zero_def mpz_zero_def mpz_cmp_def)

text \<open>\<open>mpz_get_ui\<close>: the low 64 bits of the absolute value.\<close>

definition mpz_get_ui :: "mpz \<Rightarrow> int" where
  "mpz_get_ui a = \<bar>a\<bar> mod 2 ^ 64"

lemma mpz_get_ui_small [simp]: "0 \<le> a \<Longrightarrow> a < 2 ^ 64 \<Longrightarrow> mpz_get_ui a = a"
  by (simp add: mpz_get_ui_def)

section \<open>Numbers and bytes\<close>

fun be_digits :: "nat \<Rightarrow> u8 list" where
  "be_digits n = (if n = 0 then [] else be_digits (n div 256) @ [of_nat (n mod 256)])"

declare be_digits.simps [simp del]

definition be_value :: "u8 list \<Rightarrow> nat" where
  "be_value bs = foldl (\<lambda>a b. a * 256 + unat b) 0 bs"

definition mpz_export :: "mpz \<Rightarrow> u8 list" where
  "mpz_export op = be_digits (nat \<bar>op\<bar>)"

definition mpz_import :: "u8 list \<Rightarrow> mpz" where
  "mpz_import bs = int (be_value bs)"

text \<open>
  \<open>mpz_to_uint8s\<close> exports into a stack buffer of \<open>bytes_len\<close> bytes and copies the exported bytes to
  the right end of \<open>str\<close>; the bytes on their left keep what \<open>str\<close> held. An export that needs more
  bytes than the stack buffer has writes past it, as does a copy into a shorter \<open>str\<close>.
\<close>

definition mpz_to_uint8s :: "mpz \<Rightarrow> u8 list \<Rightarrow> nat \<Rightarrow> u8 list outcome" where
  "mpz_to_uint8s op str bytes_len =
     (let str_t = mpz_export op; count = length str_t
      in if count > bytes_len \<or> bytes_len > length str then Inl Out_of_bounds
         else Inr (take (bytes_len - count) str @ str_t @ drop bytes_len str))"

definition mpz_from_uint8s :: "u8 list \<Rightarrow> nat \<Rightarrow> mpz outcome" where
  "mpz_from_uint8s str bytes_len =
     (if bytes_len > length str then Inl Out_of_bounds
      else Inr (mpz_import (take bytes_len str)))"

text \<open>\<open>(int) ceil(bits_len / (double) 8)\<close> and the left-over shift of the bit-wise variants.\<close>

definition bytes_of_bits :: "nat \<Rightarrow> nat" where
  "bytes_of_bits bits_len = (bits_len + 7) div 8"

definition shift_of_bits :: "nat \<Rightarrow> nat" where
  "shift_of_bits bits_len = (if bits_len mod 8 \<noteq> 0 then 8 - bits_len mod 8 else 0)"

definition mpz_to_uint8s_bits :: "mpz \<Rightarrow> u8 list \<Rightarrow> nat \<Rightarrow> u8 list outcome" where
  "mpz_to_uint8s_bits op str bits_len =
     (let shift_len = bits_len mod 8;
          op1 = (if shift_len \<noteq> 0 then op * 2 ^ (8 - shift_len) else op)
      in mpz_to_uint8s op1 str (bytes_of_bits bits_len))"

definition mpz_from_uint8s_bits :: "u8 list \<Rightarrow> nat \<Rightarrow> mpz outcome" where
  "mpz_from_uint8s_bits str bits_len =
     bind_out (mpz_from_uint8s str (bytes_of_bits bits_len)) (\<lambda>op.
       let shift_len = bits_len mod 8
       in Inr (if shift_len \<noteq> 0 then op div 2 ^ (8 - shift_len) else op))"

subsection \<open>Values and lengths of byte strings\<close>

lemma be_value_Nil [byte_simps]: "be_value [] = 0"
  by (simp add: be_value_def)

lemma be_value_snoc [byte_simps]: "be_value (bs @ [b]) = be_value bs * 256 + unat b"
  by (simp add: be_value_def)

lemma be_value_append: "be_value (as @ bs) = be_value as * 256 ^ length bs + be_value bs"
proof (induction bs rule: rev_induct)
  case Nil
  show ?case by (simp add: byte_simps)
next
  case (snoc b bs)
  have "be_value (as @ bs @ [b]) = be_value (as @ bs) * 256 + unat b"
    using be_value_snoc [of "as @ bs" b] by simp
  then show ?case by (simp add: snoc be_value_snoc algebra_simps)
qed

lemma be_value_Cons: "be_value (b # bs) = unat b * 256 ^ length bs + be_value bs"
  using be_value_append [of "[b]" bs] be_value_snoc [of "[]" b] by (simp add: byte_simps)

lemma be_value_less: "be_value bs < 256 ^ length bs"
proof (induction bs rule: rev_induct)
  case Nil
  show ?case by (simp add: byte_simps)
next
  case (snoc b bs)
  have "unat b < 256" by (rule unat_u8_less)
  moreover have "(be_value bs + 1) * 256 \<le> 256 ^ length bs * 256"
    using snoc by (intro mult_le_mono1) simp
  ultimately show ?case by (simp add: be_value_snoc)
qed

lemma be_value_zeros [byte_simps]: "be_value (replicate n 0) = 0"
  by (induction n) (simp_all add: be_value_Nil be_value_Cons)

lemma be_value_digits [byte_simps]: "be_value (be_digits n) = n"
proof (induction n rule: be_digits.induct)
  case (1 n)
  show ?case
  proof (cases "n = 0")
    case True
    then show ?thesis by (simp add: be_digits.simps be_value_Nil)
  next
    case False
    have "unat (of_nat (n mod 256) :: u8) = n mod 256"
      by (simp add: unat_of_nat)
    with False 1 show ?thesis
      by (subst be_digits.simps) (simp add: be_value_snoc)
  qed
qed

lemma length_be_digits: "n < 256 ^ k \<longleftrightarrow> length (be_digits n) \<le> k"
proof (induction n arbitrary: k rule: be_digits.induct)
  case (1 n)
  show ?case
  proof (cases "n = 0")
    case True
    then show ?thesis by (simp add: be_digits.simps)
  next
    case nz: False
    show ?thesis
    proof (cases k)
      case 0
      with nz show ?thesis by (subst be_digits.simps) simp
    next
      case (Suc j)
      have "n < 256 ^ k \<longleftrightarrow> n div 256 < 256 ^ j"
        by (simp add: Suc div_less_iff_less_mult mult.commute)
      with 1 [OF nz, of j] nz Suc show ?thesis
        by (subst be_digits.simps) simp
    qed
  qed
qed

lemma be_value_inj:
  assumes "length as = length bs" "be_value as = be_value bs"
  shows "as = bs"
  using assms
proof (induction as bs rule: list_induct2)
  case Nil
  show ?case by simp
next
  case (Cons a as b bs)
  let ?N = "256 ^ length bs :: nat"
  have lt: "be_value as < ?N" "be_value bs < ?N"
    using be_value_less [of as] be_value_less [of bs] Cons.hyps by simp_all
  have eq: "unat a * ?N + be_value as = unat b * ?N + be_value bs"
    using Cons.prems Cons.hyps by (simp add: be_value_Cons)
  have "unat a = unat b"
    using arg_cong [OF eq, of "\<lambda>x. x div ?N"] lt by simp
  with eq Cons.IH show ?case by (simp add: word_unat_eq_iff)
qed

subsection \<open>The conversions\<close>

lemma mpz_to_uint8s_fits:
  assumes "0 \<le> op" "op < 256 ^ n" "length str = n"
  shows "\<exists>bs. mpz_to_uint8s op str n = Inr (take (n - length bs) str @ bs)
              \<and> bs = mpz_export op \<and> length bs \<le> n"
proof -
  have "nat op < 256 ^ n"
    using assms(1,2) by (simp add: nat_less_iff)
  then have "length (mpz_export op) \<le> n"
    using assms(1) by (simp add: mpz_export_def length_be_digits)
  then show ?thesis using assms(3) by (simp add: mpz_to_uint8s_def Let_def)
qed

lemma mpz_to_from_uint8s:
  assumes "0 \<le> op" "op < 256 ^ n"
  obtains bs where "mpz_to_uint8s op (replicate n 0) n = Inr bs" "length bs = n"
    "mpz_from_uint8s bs n = Inr op"
proof -
  obtain ex where ex: "mpz_to_uint8s op (replicate n 0) n
      = Inr (take (n - length ex) (replicate n 0) @ ex)"
    "ex = mpz_export op" "length ex \<le> n"
    using mpz_to_uint8s_fits [OF assms, of "replicate n 0"] by auto
  let ?bs = "replicate (n - length ex) 0 @ ex"
  have "be_value ?bs = nat op"
    using assms(1) ex(2)
    by (simp add: be_value_append be_value_zeros mpz_export_def be_value_digits)
  then have "mpz_from_uint8s ?bs n = Inr op"
    using assms(1) ex(3) by (simp add: mpz_from_uint8s_def mpz_import_def)
  with ex show ?thesis by (intro that [of ?bs]) (simp_all add: min_def)
qed

lemma bits_split: "bits_len + shift_of_bits bits_len = 8 * bytes_of_bits bits_len"
proof -
  define q r where "q = bits_len div 8" and "r = bits_len mod 8"
  have b: "bits_len = r + q * 8" and r: "r < 8" by (simp_all add: q_def r_def)
  have "(bits_len + 7) div 8 = ((r + 7) + q * 8) div 8" unfolding b by (simp add: ac_simps)
  also have "\<dots> = q + (r + 7) div 8" by (subst div_mult_self1) simp_all
  also have "(r + 7) div 8 = (if r = 0 then 0 else 1)" using r by presburger
  finally show ?thesis
    unfolding shift_of_bits_def bytes_of_bits_def r_def [symmetric] using b r by simp
qed

lemma mpz_to_uint8s_bits_alt:
  "mpz_to_uint8s_bits op str b = mpz_to_uint8s (op * 2 ^ shift_of_bits b) str (bytes_of_bits b)"
  by (simp add: mpz_to_uint8s_bits_def shift_of_bits_def Let_def)

lemma mpz_from_uint8s_bits_alt:
  "mpz_from_uint8s_bits str b
     = bind_out (mpz_from_uint8s str (bytes_of_bits b)) (\<lambda>op. Inr (op div 2 ^ shift_of_bits b))"
  by (simp add: mpz_from_uint8s_bits_def shift_of_bits_def Let_def)

lemma pow256: "(256 :: 'a :: comm_semiring_1) ^ n = 2 ^ (8 * n)"
proof -
  have "(2 :: 'a) ^ (8 * n) = (2 ^ 8) ^ n" by (rule power_mult)
  then show ?thesis by simp
qed

text \<open>An address of \<open>b\<close> bits survives the way through its zeroed byte buffer and back.\<close>

lemma mpz_bits_roundtrip:
  assumes "0 \<le> op" "op < 2 ^ b"
  obtains bs where "mpz_to_uint8s_bits op (replicate (bytes_of_bits b) 0) b = Inr bs"
    "length bs = bytes_of_bits b" "mpz_from_uint8s_bits bs b = Inr op"
proof -
  let ?s = "shift_of_bits b" and ?n = "bytes_of_bits b"
  have "op * 2 ^ ?s < 2 ^ b * 2 ^ ?s" using assms by simp
  also have "\<dots> = 256 ^ ?n" using bits_split [of b] by (simp add: pow256 flip: power_add)
  finally have "op * 2 ^ ?s < 256 ^ ?n" .
  then obtain bs where "mpz_to_uint8s (op * 2 ^ ?s) (replicate ?n 0) ?n = Inr bs"
    "length bs = ?n" "mpz_from_uint8s bs ?n = Inr (op * 2 ^ ?s)"
    using assms(1) mpz_to_from_uint8s [of "op * 2 ^ ?s" ?n] by auto
  then show ?thesis
    by (intro that [of bs]) (simp_all add: mpz_to_uint8s_bits_alt mpz_from_uint8s_bits_alt)
qed

lemma mpz_from_uint8s_bits_bounds:
  assumes "mpz_from_uint8s_bits bs b = Inr op"
  shows "0 \<le> op \<and> op < 2 ^ b"
proof -
  let ?s = "shift_of_bits b" and ?n = "bytes_of_bits b"
  from assms have len: "?n \<le> length bs" and op: "op = int (be_value (take ?n bs)) div 2 ^ ?s"
    by (auto simp: mpz_from_uint8s_bits_alt mpz_from_uint8s_def mpz_import_def split: if_splits)
  have "be_value (take ?n bs) < 256 ^ ?n" using be_value_less [of "take ?n bs"] len by simp
  then have "int (be_value (take ?n bs)) < 256 ^ ?n"
    by (metis of_nat_less_iff of_nat_numeral of_nat_power)
  also have "(256::int) ^ ?n = 2 ^ b * 2 ^ ?s" using bits_split [of b] by (simp add: pow256 flip: power_add)
  finally show ?thesis
    unfolding op by (simp add: pos_imp_zdiv_nonneg_iff div_lt_pow2)
qed

section \<open>Properties\<close>

text \<open>
  C9: A number of at most \<open>b\<close> bits that is written into a zeroed buffer of
  the bytes of \<open>b\<close> bits is read back unchanged, for every number of bits, whole bytes or not.
\<close>

theorem mpz_uint8s_bits_roundtrip:
  assumes "0 \<le> x" "x < 2 ^ b"
  shows "bind_out (mpz_to_uint8s_bits x (replicate (bytes_of_bits b) 0) b)
    (\<lambda>bytes. mpz_from_uint8s_bits bytes b) = Inr x"
proof -
  obtain bs where "mpz_to_uint8s_bits x (replicate (bytes_of_bits b) 0) b = Inr bs"
    "mpz_from_uint8s_bits bs b = Inr x"
    by (rule mpz_bits_roundtrip [OF assms]) (rule that)
  then show ?thesis by simp
qed

theorem mpz_uint8s_bits_roundtrip_witness:
  "bind_out (mpz_to_uint8s_bits 1234 (replicate (bytes_of_bits 11) 0) 11)
    (\<lambda>bytes. mpz_from_uint8s_bits bytes 11) = Inr 1234"
  by (rule mpz_uint8s_bits_roundtrip) simp_all

end
