(* ===== verification/Interfaces.thy ===== *)
theory Interfaces
  imports HMap_Prelude
begin

text \<open>
  The interfaces between the components, as locales over the operations that the client calls: each
  states the laws that the provider promises, proves what the client needs from them once, and is
  interpreted in the provider's theory on the model of the code.
\<close>

section \<open>A painted address space\<close>

text \<open>
  What the blocklist relies on in the constraint module: the space of the \<open>bits\<close>-bit addresses,
  each with a colour; painting a prefix; counting a colour; picking the \<open>i\<close>-th address of a colour.
  \<open>paint_all\<close> paints a list of (prefix, length, colour) entries in order and stops at the first
  failure; \<open>last_match\<close> is the colour that the last entry covering an address gives it.
\<close>

fun paint_all ::
    "('c \<Rightarrow> int \<Rightarrow> int \<Rightarrow> int \<Rightarrow> 'c outcome) \<Rightarrow> (int \<times> nat \<times> int) list \<Rightarrow> 'c \<Rightarrow> 'c outcome" where
  "paint_all f [] c = Inr c"
| "paint_all f ((p, len, v) # es) c = bind_out (f c p (int len) v) (paint_all f es)"

definition covers :: "nat \<Rightarrow> int \<Rightarrow> nat \<Rightarrow> int \<Rightarrow> bool" where
  "covers bits p len a \<longleftrightarrow> a div 2 ^ (bits - len) = p div 2 ^ (bits - len)"

fun last_match :: "nat \<Rightarrow> (int \<times> nat \<times> int) list \<Rightarrow> int \<Rightarrow> int \<Rightarrow> int" where
  "last_match bits [] d a = d"
| "last_match bits ((p, len, v) # es) d a =
     last_match bits es (if covers bits p len a then v else d) a"

definition entry_ok :: "nat \<Rightarrow> int \<times> nat \<times> int \<Rightarrow> bool" where
  "entry_ok bits e = (case e of (p, len, v) \<Rightarrow> len \<le> bits \<and> 0 \<le> p \<and> p < 2 ^ bits)"

lemma last_match_append:
  "last_match bits (xs @ ys) d a = last_match bits ys (last_match bits xs d a) a"
  by (induction bits xs d a rule: last_match.induct) auto

locale painted_space =
  fixes bits :: nat
    and inv :: "'c \<Rightarrow> bool"
    and colour :: "'c \<Rightarrow> int \<Rightarrow> int"
    and paint :: "'c \<Rightarrow> int \<Rightarrow> int \<Rightarrow> int \<Rightarrow> 'c outcome"
    and count :: "'c \<Rightarrow> int \<Rightarrow> int"
    and pick :: "'c \<Rightarrow> int \<Rightarrow> int \<Rightarrow> (int \<times> 'c) outcome"
  assumes paint_step:
      "inv c \<Longrightarrow> entry_ok bits (p, len, v) \<Longrightarrow>
       \<exists>c'. paint c p (int len) v = Inr c' \<and> inv c'
         \<and> (\<forall>a. 0 \<le> a \<and> a < 2 ^ bits \<longrightarrow>
              colour c' a = (if covers bits p len a then v else colour c a))"
    and count_card:
      "inv c \<Longrightarrow> count c v = int (card {a. 0 \<le> a \<and> a < 2 ^ bits \<and> colour c a = v})"
    and pick_total:
      "inv c \<Longrightarrow> 0 \<le> i \<Longrightarrow> i < count c v \<Longrightarrow>
       \<exists>a c'. pick c i v = Inr (a, c') \<and> 0 \<le> a \<and> a < 2 ^ bits \<and> colour c a = v"
    and pick_inj:
      "inv c \<Longrightarrow> 0 \<le> i \<Longrightarrow> i < count c v \<Longrightarrow> 0 \<le> j \<Longrightarrow> j < count c v \<Longrightarrow>
       pick c i v = Inr (a, c') \<Longrightarrow> pick c j v = Inr (a, c'') \<Longrightarrow> i = j"
    and pick_state:
      "inv c \<Longrightarrow> pick c i v = Inr (a, c') \<Longrightarrow>
       inv c' \<and> (\<forall>x. colour c' x = colour c x) \<and> (\<forall>j. pick c' j v = pick c j v)"
begin

lemma paint_all_last_match:
  "inv c \<Longrightarrow> \<forall>e \<in> set es. entry_ok bits e \<Longrightarrow>
   \<exists>c'. paint_all paint es c = Inr c' \<and> inv c'
     \<and> (\<forall>a. 0 \<le> a \<and> a < 2 ^ bits \<longrightarrow> colour c' a = last_match bits es (colour c a) a)"
proof (induction es arbitrary: c)
  case (Cons e es)
  obtain p len v where e: "e = (p, len, v)" by (cases e) auto
  obtain c1 where c1: "paint c p (int len) v = Inr c1" "inv c1"
    "\<forall>a. 0 \<le> a \<and> a < 2 ^ bits \<longrightarrow>
       colour c1 a = (if covers bits p len a then v else colour c a)"
    using paint_step [of c p len v] Cons.prems e by auto
  obtain c2 where c2: "paint_all paint es c1 = Inr c2" "inv c2"
    "\<forall>a. 0 \<le> a \<and> a < 2 ^ bits \<longrightarrow> colour c2 a = last_match bits es (colour c1 a) a"
    using Cons.IH [OF c1(2)] Cons.prems by auto
  show ?case
  proof (intro exI [of _ c2] conjI)
    show "paint_all paint (e # es) c = Inr c2" using c1(1) c2(1) by (simp add: e)
    show "inv c2" by (rule c2(2))
    show "\<forall>a. 0 \<le> a \<and> a < 2 ^ bits \<longrightarrow> colour c2 a = last_match bits (e # es) (colour c a) a"
      using c1(3) c2(3) by (simp add: e)
  qed
qed simp

lemma finite_colour: "finite {a. 0 \<le> a \<and> a < 2 ^ bits \<and> colour c a = v}"
  by (rule finite_subset [of _ "{0 ..< 2 ^ bits}"]) auto

text \<open>Picking is a bijection between the indices below the count and the addresses of the colour.\<close>

lemma pick_bij:
  assumes "inv c"
  shows "bij_betw (\<lambda>i. case pick c i v of Inr (a, _) \<Rightarrow> a | Inl _ \<Rightarrow> -1)
    {0 ..< count c v} {a. 0 \<le> a \<and> a < 2 ^ bits \<and> colour c a = v}"
    (is "bij_betw ?f ?I ?A")
proof -
  have mem: "\<exists>a c'. pick c i v = Inr (a, c') \<and> ?f i = a \<and> a \<in> ?A" if "i \<in> ?I" for i
    using pick_total [OF assms, of i v] that by auto
  have inj: "inj_on ?f ?I"
  proof (rule inj_onI)
    fix i j assume ij: "i \<in> ?I" "j \<in> ?I" and eq: "?f i = ?f j"
    obtain a c' where i: "pick c i v = Inr (a, c')" "?f i = a" using mem [OF ij(1)] by auto
    obtain b c'' where j: "pick c j v = Inr (b, c'')" "?f j = b" using mem [OF ij(2)] by auto
    show "i = j" using pick_inj [OF assms, of i v j a c' c''] ij i j eq by auto
  qed
  have "?f ` ?I \<subseteq> ?A" using mem by fastforce
  moreover have "card ?I = card ?A" using count_card [OF assms, of v] by simp
  then have "card (?f ` ?I) = card ?A" using card_image [OF inj] by simp
  ultimately have "?f ` ?I = ?A" by (intro card_subset_eq finite_colour) auto
  with inj show ?thesis by (simp add: bij_betw_def)
qed

end

section \<open>A walk around a cyclic group\<close>

text \<open>
  What the shards rely on in the groups: the elements \<open>elem g 0, elem g 1, ...\<close> come round after
  \<open>period g\<close> steps and are the \<open>units g\<close> without repetition. The walk is cut into \<open>s\<close> blocks, all of
  length \<open>n div s\<close> but the last, which takes the rest.
\<close>

definition block_begin :: "nat \<Rightarrow> nat \<Rightarrow> nat \<Rightarrow> nat" where
  "block_begin n s i = n div s * i"

definition block_len :: "nat \<Rightarrow> nat \<Rightarrow> nat \<Rightarrow> nat" where
  "block_len n s i = (if i + 1 < s then n div s else n - n div s * i)"

lemma block_fits: "i < s \<Longrightarrow> block_begin n s i + block_len n s i \<le> n"
proof -
  assume i: "i < s"
  have "n div s * (i + 1) \<le> n div s * s" using i by (intro mult_le_mono2) simp
  also have "\<dots> \<le> n" by simp
  finally show ?thesis by (simp add: block_begin_def block_len_def)
qed

lemma block_pos:
  assumes "i < s" "s \<le> n"
  shows "0 < block_len n s i"
proof -
  have q: "0 < n div s" using assms by (simp add: div_greater_zero_iff)
  have "n div s * i < n div s * s" using assms(1) q by simp
  also have "\<dots> \<le> n" by simp
  finally show ?thesis using q by (simp add: block_len_def)
qed

lemma upt_split: "a \<le> b \<Longrightarrow> b \<le> c \<Longrightarrow> [a ..< b] @ [b ..< c] = [a ..< c]"
  using upt_add_eq_append [of a b "c - b"] by simp

lemma blocks_prefix:
  "m + 1 \<le> s \<Longrightarrow> concat (map (\<lambda>i. [block_begin n s i ..< block_begin n s i + block_len n s i]) [0 ..< m])
     = [0 ..< n div s * m]"
proof (induction m)
  case (Suc m)
  have e: "block_begin n s m = n div s * m" "n div s * m + block_len n s m = n div s * Suc m"
    using Suc.prems by (simp_all add: block_begin_def block_len_def)
  have u: "[0 ..< n div s * m] @ [n div s * m ..< n div s * Suc m] = [0 ..< n div s * Suc m]"
    by (rule upt_split) simp_all
  have "concat (map (\<lambda>i. [block_begin n s i ..< block_begin n s i + block_len n s i]) [0 ..< Suc m])
      = [0 ..< n div s * m] @ [n div s * m ..< n div s * m + block_len n s m]"
    using Suc e(1) by simp
  then show ?case unfolding e(2) u .
qed simp

lemma blocks_concat:
  assumes "0 < s"
  shows "concat (map (\<lambda>i. [block_begin n s i ..< block_begin n s i + block_len n s i]) [0 ..< s]) = [0 ..< n]"
proof -
  obtain m where s: "s = m + 1" using assms by (cases s) auto
  have le: "n div s * m \<le> n" using block_fits [of m s n] by (simp add: s block_begin_def)
  have e: "block_begin n s m = n div s * m" "block_begin n s m + block_len n s m = n"
    using le by (simp_all add: s block_begin_def block_len_def)
  have "[0 ..< n div s * m] @ [n div s * m ..< n] = [0 ..< n]" using le by (intro upt_split) simp_all
  then show ?thesis using blocks_prefix [of m s n] e by (simp add: s)
qed

locale cyclic_walk =
  fixes ok :: "'g \<Rightarrow> bool"
    and period :: "'g \<Rightarrow> nat"
    and elem :: "'g \<Rightarrow> nat \<Rightarrow> int"
    and units :: "'g \<Rightarrow> int set"
  assumes period_pos: "ok g \<Longrightarrow> 0 < period g"
    and elem_mod: "ok g \<Longrightarrow> elem g (i mod period g) = elem g i"
    and elem_bij: "ok g \<Longrightarrow> bij_betw (elem g) {0 ..< period g} (units g)"
begin

lemma elem_eq_iff:
  assumes "ok g"
  shows "elem g i = elem g j \<longleftrightarrow> i mod period g = j mod period g"
proof
  assume "elem g i = elem g j"
  then have "elem g (i mod period g) = elem g (j mod period g)" by (simp add: elem_mod [OF assms])
  then show "i mod period g = j mod period g"
    using elem_bij [OF assms] period_pos [OF assms]
    by (auto simp: bij_betw_def inj_on_def)
qed (metis elem_mod [OF assms])

lemma elem_eq_shift:
  assumes "ok g" "i < period g" "j < period g" "elem g (b + i) = elem g (b + j)"
  shows "i = j"
proof -
  have less: "y \<le> x" if "x < period g" "y < period g" "(b + x) mod period g = (b + y) mod period g" for x y
  proof (rule ccontr)
    assume "\<not> y \<le> x"
    then have "period g dvd (b + y) - (b + x)" using that(3) mod_eq_dvd_iff_nat [of "b + x" "b + y" "period g"] by simp
    then show False using \<open>\<not> y \<le> x\<close> that(2) by (auto dest: dvd_imp_le)
  qed
  have "(b + i) mod period g = (b + j) mod period g" using assms(1,4) elem_eq_iff by blast
  then show ?thesis using less [of i j] less [of j i] assms(2,3) by simp
qed

text \<open>A whole turn from any offset meets every unit once.\<close>

lemma turn_units:
  assumes "ok g"
  shows "distinct (map (\<lambda>j. elem g (b + j)) [0 ..< period g])
    \<and> set (map (\<lambda>j. elem g (b + j)) [0 ..< period g]) = units g"
proof -
  let ?f = "\<lambda>j. elem g (b + j)" and ?I = "{0 ..< period g}"
  have inj: "inj_on ?f ?I" using elem_eq_shift [OF assms] by (auto simp: inj_on_def)
  have b: "elem g ` ?I = units g" "inj_on (elem g) ?I" using elem_bij [OF assms] by (auto simp: bij_betw_def)
  have "elem g (b + j) \<in> units g" for j
    using b(1) elem_mod [OF assms, of "b + j"] period_pos [OF assms]
    by (metis atLeastLessThan_iff imageI mod_less_divisor zero_le)
  then have "?f ` ?I \<subseteq> units g" by blast
  moreover have "card (?f ` ?I) = card (units g)" using card_image [OF inj] card_image [OF b(2)] b(1) by simp
  moreover have "finite (units g)" using b(1) by (metis finite_atLeastLessThan finite_imageI)
  ultimately have "?f ` ?I = units g" by (intro card_subset_eq)
  then show ?thesis using inj by (simp add: distinct_map)
qed

text \<open>The blocks of all the shards together are one turn.\<close>

lemma blocks_units:
  assumes "ok g" "0 < s"
  shows "distinct (concat (map (\<lambda>i. map (\<lambda>k. elem g (b + (block_begin (period g) s i + k)))
        [0 ..< block_len (period g) s i]) [0 ..< s]))
    \<and> set (concat (map (\<lambda>i. map (\<lambda>k. elem g (b + (block_begin (period g) s i + k)))
        [0 ..< block_len (period g) s i]) [0 ..< s])) = units g"
proof -
  have "map (\<lambda>k. elem g (b + (x + k))) [0 ..< l] = map (\<lambda>j. elem g (b + j)) [x ..< x + l]" for x l
    by (rule nth_equalityI) simp_all
  then have "concat (map (\<lambda>i. map (\<lambda>k. elem g (b + (block_begin (period g) s i + k)))
        [0 ..< block_len (period g) s i]) [0 ..< s])
      = map (\<lambda>j. elem g (b + j)) (concat (map (\<lambda>i. [block_begin (period g) s i ..<
          block_begin (period g) s i + block_len (period g) s i]) [0 ..< s]))"
    by (simp add: map_concat comp_def)
  then show ?thesis using turn_units [OF assms(1)] blocks_concat [OF assms(2)] by metis
qed

text \<open>
  The stop element of a block is the first element of the next one, the first block coming after the
  last: it is met after the length of the block, and not before.
\<close>

lemma block_stop:
  assumes "ok g" "i < s" "s \<le> period g"
  shows "elem g (b + (block_begin (period g) s i + block_len (period g) s i))
     = elem g (b + block_begin (period g) s ((i + 1) mod s))"
proof (cases "i + 1 < s")
  case True
  then show ?thesis by (simp add: block_begin_def block_len_def add.commute)
next
  case False
  then have i: "i + 1 = s" using assms(2) by simp
  have "block_begin (period g) s i + block_len (period g) s i = period g"
    using block_fits [OF assms(2), of "period g"] i by (simp add: block_begin_def block_len_def)
  moreover have "elem g (b + period g) = elem g b" using elem_eq_iff [OF assms(1)] by simp
  ultimately show ?thesis using i by (simp add: block_begin_def)
qed

lemma block_before_stop:
  assumes "ok g" "i < s" "s \<le> period g" "0 < k" "k < block_len (period g) s i"
  shows "elem g (b + (block_begin (period g) s i + k))
     \<noteq> elem g (b + block_begin (period g) s ((i + 1) mod s))"
proof
  let ?n = "period g"
  assume "elem g (b + (block_begin ?n s i + k)) = elem g (b + block_begin ?n s ((i + 1) mod s))"
  then have eq: "elem g (b + block_begin ?n s i + k) = elem g (b + block_begin ?n s i + block_len ?n s i)"
    using block_stop [OF assms(1-3)] by (simp add: add.assoc)
  have le: "block_len ?n s i \<le> ?n" using block_fits [OF assms(2), of ?n] by simp
  show False
  proof (cases "block_len ?n s i = ?n")
    case True
    have "elem g (b + block_begin ?n s i + ?n) = elem g (b + block_begin ?n s i + 0)"
      using elem_eq_iff [OF assms(1)] by simp
    then have "elem g (b + block_begin ?n s i + k) = elem g (b + block_begin ?n s i + 0)"
      using eq True by simp
    then have "k = 0" using assms(4,5) True by (intro elem_eq_shift [OF assms(1)]) auto
    then show False using assms(4) by simp
  next
    case False
    then have "k = block_len ?n s i" using assms(5) le eq by (intro elem_eq_shift [OF assms(1)]) auto
    then show False using assms(5) by simp
  qed
qed

end

section \<open>Recognising repetitions\<close>

text \<open>
  A filter that remembers keys. The client asks for each key whether it was seen and adds it if not;
  the keys it takes for new are reported.
\<close>

fun report_new :: "('f \<Rightarrow> 'k \<Rightarrow> bool) \<Rightarrow> ('f \<Rightarrow> 'k \<Rightarrow> 'f) \<Rightarrow> 'f \<Rightarrow> 'k list \<Rightarrow> 'k list \<times> 'f" where
  "report_new seen add f [] = ([], f)"
| "report_new seen add f (k # ks) =
     (if seen f k then report_new seen add f ks
      else case report_new seen add (add f k) ks of (r, f') \<Rightarrow> (k # r, f'))"

lemma report_new_fst_snd:
  "fst (report_new seen add f (k # ks)) =
     (if seen f k then fst (report_new seen add f ks) else k # fst (report_new seen add (add f k) ks))"
  "snd (report_new seen add f (k # ks)) =
     (if seen f k then snd (report_new seen add f ks) else snd (report_new seen add (add f k) ks))"
  by (simp_all add: split_beta)

lemma report_new_subset: "set (fst (report_new seen add f ks)) \<subseteq> set ks"
proof (induction ks arbitrary: f)
  case (Cons k ks)
  then show ?case using Cons [of f] Cons [of "add f k"] by (auto simp: report_new_fst_snd simp del: report_new.simps)
qed simp

declare report_new.simps(2) [simp del] report_new_fst_snd [simp]

text \<open>The provider promises that a key that was added is seen from then on; others may be seen too.\<close>

locale seen_filter =
  fixes inv :: "'f \<Rightarrow> bool"
    and ok :: "'k \<Rightarrow> bool"
    and seen :: "'f \<Rightarrow> 'k \<Rightarrow> bool"
    and add :: "'f \<Rightarrow> 'k \<Rightarrow> 'f"
  assumes add_inv: "\<lbrakk>inv f; ok k\<rbrakk> \<Longrightarrow> inv (add f k)"
    and add_seen: "\<lbrakk>inv f; ok k\<rbrakk> \<Longrightarrow> seen (add f k) k"
    and add_keeps: "\<lbrakk>inv f; ok k; ok j; seen f j\<rbrakk> \<Longrightarrow> seen (add f k) j"
begin

lemma report_new_keeps:
  "\<lbrakk>inv f; \<forall>k \<in> set ks. ok k; ok j; seen f j\<rbrakk> \<Longrightarrow> seen (snd (report_new seen add f ks)) j"
  by (induction ks arbitrary: f) (simp_all add: add_inv add_keeps)

lemma report_new_fresh:
  "\<lbrakk>inv f; \<forall>k \<in> set ks. ok k; k \<in> set (fst (report_new seen add f ks))\<rbrakk> \<Longrightarrow> \<not> seen f k"
proof (induction ks arbitrary: f)
  case (Cons a ks)
  show ?case
  proof (cases "seen f a")
    case False
    have k: "k = a \<or> k \<in> set (fst (report_new seen add (add f a) ks))" using Cons.prems(3) False by simp
    have "inv (add f a)" using Cons.prems(1,2) add_inv by simp
    from Cons.IH [OF this] have "\<not> seen (add f a) k" if "k \<in> set (fst (report_new seen add (add f a) ks))"
      using that Cons.prems(2) by simp
    moreover have "ok k" using k Cons.prems(2) report_new_subset [of seen add "add f a" ks] by auto
    ultimately show ?thesis using k False add_keeps [OF Cons.prems(1), of a k] Cons.prems(2) by auto
  qed (use Cons in auto)
qed simp

theorem report_new_spec:
  assumes "inv f" "\<forall>k \<in> set ks. ok k"
  shows "distinct (fst (report_new seen add f ks))"
    and "set (fst (report_new seen add f ks)) \<subseteq> {k \<in> set ks. \<not> seen f k}"
    and "k \<in> set ks \<Longrightarrow> seen (snd (report_new seen add f ks)) k"
proof -
  show "distinct (fst (report_new seen add f ks))" using assms
  proof (induction ks arbitrary: f)
    case (Cons a ks)
    have i: "inv (add f a)" using Cons.prems add_inv by simp
    have "a \<notin> set (fst (report_new seen add (add f a) ks))"
      using report_new_fresh [OF i, of ks a] add_seen [OF Cons.prems(1), of a] Cons.prems(2) by auto
    then show ?case using Cons.IH [OF i] Cons.IH [OF Cons.prems(1)] Cons.prems(2) by simp
  qed simp
  show "set (fst (report_new seen add f ks)) \<subseteq> {k \<in> set ks. \<not> seen f k}"
    using report_new_fresh [OF assms] report_new_subset [of seen add f ks] by blast
  show "k \<in> set ks \<Longrightarrow> seen (snd (report_new seen add f ks)) k" using assms
  proof (induction ks arbitrary: f)
    case (Cons a ks)
    have i: "inv (add f a)" using Cons.prems(2,3) add_inv by simp
    have "seen (snd (report_new seen add (add f a) ks)) a"
      using report_new_keeps [OF i, of ks a] add_seen [OF Cons.prems(2), of a] Cons.prems(3) by simp
    moreover have "seen f a \<Longrightarrow> seen (snd (report_new seen add f ks)) a"
      using report_new_keeps [OF Cons.prems(2), of ks a] Cons.prems(3) by simp
    ultimately show ?case using Cons.IH [OF _ i] Cons.IH [OF _ Cons.prems(2)] Cons.prems(1,3) by auto
  qed simp
qed

end

section \<open>A set of keys\<close>

text \<open>
  What the target generation relies on in the hash set: adding a key cannot fail while fewer than
  \<open>bound\<close> keys are held, and the keys that are listed are those that were added, each once.
\<close>

fun put_all :: "('s \<Rightarrow> 'k \<Rightarrow> 's outcome) \<Rightarrow> 's \<Rightarrow> 'k list \<Rightarrow> 's outcome" where
  "put_all put s [] = Inr s"
| "put_all put s (k # ks) = bind_out (put s k) (\<lambda>s. put_all put s ks)"

locale key_set =
  fixes inv :: "'s \<Rightarrow> bool"
    and elems :: "'s \<Rightarrow> 'k list"
    and has :: "'s \<Rightarrow> 'k \<Rightarrow> bool outcome"
    and put :: "'s \<Rightarrow> 'k \<Rightarrow> 's outcome"
    and bound :: nat
  assumes elems_distinct: "inv s \<Longrightarrow> distinct (elems s)"
    and has_elems: "inv s \<Longrightarrow> has s k = Inr (k \<in> set (elems s))"
    and put_elems: "\<lbrakk>inv s; length (elems s) < bound\<rbrakk> \<Longrightarrow>
      \<exists>s'. put s k = Inr s' \<and> inv s' \<and> set (elems s') = insert k (set (elems s))"
begin

lemma put_length:
  assumes "inv s" "inv s'" "set (elems s') = insert k (set (elems s))"
  shows "length (elems s') \<le> Suc (length (elems s))"
  using assms elems_distinct by (metis card_insert_le_m1 card_length distinct_card le_SucI
      card_insert_if finite_set order_refl)

lemma put_all_elems:
  "\<lbrakk>inv s; length (elems s) + length ks \<le> bound\<rbrakk> \<Longrightarrow>
   \<exists>s'. put_all put s ks = Inr s' \<and> inv s' \<and> set (elems s') = set (elems s) \<union> set ks"
proof (induction ks arbitrary: s)
  case (Cons k ks)
  then obtain s1 where s1: "put s k = Inr s1" "inv s1" "set (elems s1) = insert k (set (elems s))"
    using put_elems [of s k] by auto
  have "length (elems s1) + length ks \<le> bound"
    using put_length [OF Cons.prems(1) s1(2,3)] Cons.prems(2) by simp
  from Cons.IH [OF s1(2) this] show ?case using s1 by auto
qed simp

lemma has_put_all:
  assumes "inv s" "elems s = []" "length ks \<le> bound"
  shows "\<exists>s'. put_all put s ks = Inr s' \<and> inv s' \<and> distinct (elems s') \<and> set (elems s') = set ks
    \<and> (\<forall>k. has s' k = Inr (k \<in> set ks))"
  using put_all_elems [OF assms(1), of ks] assms(2,3) elems_distinct has_elems by fastforce

end

end
