(* ===== verification/Constraint.thy ===== *)
theory Constraint imports Gmp_Ext Interfaces
begin

text \<open>
  The address-space constraint of \<open>lib/constraint.c\<close>: a binary tree over the bits of an address
  whose leaves carry the value ("colour") of all the addresses below them, plus the cached array of
  the prefixes of length \<open>RADIX_LENGTH\<close> that carry the painted value.

  The section on the code has one definition per C function, in the order of the file. The
  specification is the map from addresses to values (\<open>value_at\<close>): setting a prefix overwrites that map
  on the prefix and nowhere else, counting is the cardinality of a preimage, and looking an index up
  enumerates that preimage without repetition.
\<close>

section \<open>State\<close>

text \<open>The file's static masks. \<open>mask_flag\<close> is \<open>IPVX_MASK_FLAG\<close>: they are computed once.\<close>

record ipvx_mask =
  max_prefix_len :: nat
  radix_length :: nat
  mask_flag :: bool
  half_index :: mpz
  max_index :: mpz
  radix_size :: mpz

definition initial_mask :: ipvx_mask where
  "initial_mask = \<lparr>max_prefix_len = 0, radix_length = 20, mask_flag = False,
     half_index = 0, max_index = 0, radix_size = 0\<rparr>"

text \<open>
  \<open>node_t\<close>: a leaf is a node whose \<open>l\<close> is NULL; every other node has both children. Inner nodes keep
  a (stale) value, and both kinds keep the count of the last painting.
\<close>

datatype node =
    Leaf (nvalue: mpz) (ncount: mpz)
  | Inner (lchild: node) (rchild: node) (nvalue: mpz) (ncount: mpz)

definition is_leaf :: "node \<Rightarrow> bool" where
  "is_leaf t = (case t of Leaf _ _ \<Rightarrow> True | Inner _ _ _ _ \<Rightarrow> False)"

record constraint_t =
  root :: node
  radix :: "mpz list"
  radix_len :: nat
  painted :: bool
  paint_value :: mpz

section \<open>Operations\<close>

text \<open>A new leaf: \<open>xmalloc\<close> zeroes the node, so its count is the number 0.\<close>

definition create_leaf :: "mpz \<Rightarrow> node" where
  "create_leaf value = Leaf value 0"

definition cal_ipvx_mask :: "nat \<Rightarrow> ipvx_mask \<Rightarrow> ipvx_mask outcome" where
  "cal_ipvx_mask ip_max_len g =
     (if \<not> 0 < ip_max_len then Inl Assert_failed
      else if mask_flag g then Inr g
      else let rl = (if ip_max_len < radix_length g then ip_max_len else radix_length g)
           in Inr \<lparr>max_prefix_len = ip_max_len, radix_length = rl, mask_flag = True,
                   half_index = 2 ^ (ip_max_len - 1), max_index = 2 ^ ip_max_len,
                   radix_size = 2 ^ (ip_max_len - rl)\<rparr>)"

definition constraint_init :: "mpz \<Rightarrow> nat \<Rightarrow> ipvx_mask \<Rightarrow> (ipvx_mask \<times> constraint_t) outcome" where
  "constraint_init value ipvx_max_len g =
     bind_out (cal_ipvx_mask ipvx_max_len g) (\<lambda>g'.
       Inr (g', \<lparr>root = create_leaf value, radix = replicate (2 ^ radix_length g') 0,
                 radix_len = 0, painted = False, paint_value = 0\<rparr>))"

text \<open>\<open>_convert_to_leaf\<close> drops the children of an inner node and keeps its other fields.\<close>

definition convert_to_leaf :: "node \<Rightarrow> node" where
  "convert_to_leaf t = Leaf (nvalue t) (ncount t)"

definition with_value :: "mpz \<Rightarrow> node \<Rightarrow> node" where
  "with_value v t = (case t of Leaf _ c \<Rightarrow> Leaf v c | Inner l r _ c \<Rightarrow> Inner l r v c)"

text \<open>
  \<open>_set_recurse\<close> on a node, returning the node as it is left. The prefix is shifted left at every
  level, so the bit tested is always the top one.
\<close>

fun set_recurse :: "ipvx_mask \<Rightarrow> node \<Rightarrow> mpz \<Rightarrow> nat \<Rightarrow> mpz \<Rightarrow> node" where
  "set_recurse g t prefix 0 value =
     with_value value (if is_leaf t then t else convert_to_leaf t)"
| "set_recurse g t prefix (Suc n) value =
     (if is_leaf t \<and> mpz_eq (nvalue t) value then t
      else let l = (case t of Leaf w _ \<Rightarrow> create_leaf w | Inner l _ _ _ \<Rightarrow> l);
               r = (case t of Leaf w _ \<Rightarrow> create_leaf w | Inner _ r _ _ \<Rightarrow> r);
               flag = prefix AND half_index g;
               prefix_1 = prefix * 2 mod max_index g;
               l' = (if mpz_not_zero flag then l else set_recurse g l prefix_1 n value);
               r' = (if mpz_not_zero flag then set_recurse g r prefix_1 n value else r);
               t' = Inner l' r' (nvalue t) (ncount t)
           in if is_leaf r' \<and> is_leaf l' \<and> mpz_eq (nvalue r') (nvalue l')
              then convert_to_leaf (with_value (nvalue l') t') else t')"

definition constraint_set ::
    "ipvx_mask \<Rightarrow> constraint_t \<Rightarrow> mpz \<Rightarrow> int \<Rightarrow> mpz \<Rightarrow> constraint_t outcome" where
  "constraint_set g con prefix len value =
     (if \<not> (0 \<le> len \<and> len \<le> int (max_prefix_len g)) then Inl Assert_failed
      else Inr (con\<lparr>root := set_recurse g (root con) prefix (nat len) value, painted := False\<rparr>))"

text \<open>\<open>_lookup_ipvx\<close>: the loop walks down, halving the mask, until it is at a leaf.\<close>

fun lookup_ipvx :: "node \<Rightarrow> mpz \<Rightarrow> mpz \<Rightarrow> mpz" where
  "lookup_ipvx (Leaf v c) address msk = v"
| "lookup_ipvx (Inner l r v c) address msk =
     (if mpz_not_zero (address AND msk) then lookup_ipvx r address (msk div 2)
      else lookup_ipvx l address (msk div 2))"

definition constraint_lookup_ipvx_for_value :: "ipvx_mask \<Rightarrow> constraint_t \<Rightarrow> mpz \<Rightarrow> mpz" where
  "constraint_lookup_ipvx_for_value g con ipvx = lookup_ipvx (root con) ipvx (half_index g)"

text \<open>\<open>_count_ipvx_recurse\<close> returns the count and the node with, when painting, its counts set.\<close>

fun count_ipvx_recurse ::
    "ipvx_mask \<Rightarrow> node \<Rightarrow> mpz \<Rightarrow> mpz \<Rightarrow> bool \<Rightarrow> bool \<Rightarrow> mpz \<times> node" where
  "count_ipvx_recurse g (Leaf w c) value sz paint exclude_radix =
     (let count = (if mpz_eq w value
                   then if exclude_radix \<and> mpz_ge sz (radix_size g) then 0 else sz
                   else 0)
      in (count, Leaf w (if paint then count else c)))"
| "count_ipvx_recurse g (Inner l r w c) value sz paint exclude_radix =
     (let sz_2 = sz div 2;
          (count_l, l') = count_ipvx_recurse g l value sz_2 paint exclude_radix;
          (count_r, r') = count_ipvx_recurse g r value sz_2 paint exclude_radix;
          count = count_l + count_r
      in (count, Inner l' r' w (if paint then count else c)))"

definition constraint_count_ipvx_of_value :: "ipvx_mask \<Rightarrow> constraint_t \<Rightarrow> mpz \<Rightarrow> mpz" where
  "constraint_count_ipvx_of_value g con value =
     (if painted con \<and> mpz_eq (paint_value con) value
      then ncount (root con) + radix_size g * int (radix_len con)
      else fst (count_ipvx_recurse g (root con) value (max_index g) False False))"

text \<open>\<open>_lookup_node\<close>: at most \<open>len\<close> steps down, fewer when a leaf is reached.\<close>

fun lookup_node :: "node \<Rightarrow> mpz \<Rightarrow> nat \<Rightarrow> mpz \<Rightarrow> node" where
  "lookup_node t prefix 0 msk = t"
| "lookup_node (Leaf v c) prefix (Suc n) msk = Leaf v c"
| "lookup_node (Inner l r v c) prefix (Suc n) msk =
     (if mpz_not_zero (prefix AND msk) then lookup_node r prefix n (msk div 2)
      else lookup_node l prefix n (msk div 2))"

text \<open>One round of the loop that fills the radix array.\<close>

definition radix_round ::
    "ipvx_mask \<Rightarrow> node \<Rightarrow> mpz \<Rightarrow> nat \<Rightarrow> mpz list \<times> nat \<Rightarrow> mpz list \<times> nat" where
  "radix_round g t value i st =
     (case st of (arr, n) \<Rightarrow>
        let prefix = radix_size g * int i;
            node = lookup_node t prefix (radix_length g) (half_index g)
        in if is_leaf node \<and> mpz_eq (nvalue node) value then (arr[n := prefix], Suc n)
           else (arr, n))"

text \<open>
  The assertion of \<open>_lookup_node\<close> compares \<open>RADIX_LENGTH\<close> with the address length, the same in every
  round, so it is tested once.
\<close>

definition constraint_paint_value :: "ipvx_mask \<Rightarrow> constraint_t \<Rightarrow> mpz \<Rightarrow> constraint_t outcome" where
  "constraint_paint_value g con value =
     (let root' = snd (count_ipvx_recurse g (root con) value (max_index g) True True)
      in if \<not> radix_length g \<le> max_prefix_len g then Inl Assert_failed
         else case fold (radix_round g root' value) [0 ..< 2 ^ radix_length g] (radix con, 0) of
                (arr, n) \<Rightarrow> Inr (con\<lparr>root := root', radix := arr, radix_len := n,
                                      painted := True, paint_value := value\<rparr>))"

text \<open>\<open>_lookup_index\<close>, with the loop's \<open>ip\<close>, \<open>n\<close> and \<open>mask\<close> as arguments.\<close>

fun lookup_index :: "node \<Rightarrow> mpz \<Rightarrow> mpz \<Rightarrow> mpz \<Rightarrow> mpz" where
  "lookup_index (Leaf v c) ip n msk = ip OR n"
| "lookup_index (Inner l r v c) ip n msk =
     (if mpz_lt n (ncount l) then lookup_index l ip n (msk div 2)
      else lookup_index r (ip OR msk) (n - ncount l) (msk div 2))"

definition constraint_lookup_index_for_ipvx ::
    "ipvx_mask \<Rightarrow> constraint_t \<Rightarrow> mpz \<Rightarrow> mpz \<Rightarrow> (mpz \<times> constraint_t) outcome" where
  "constraint_lookup_index_for_ipvx g con index value =
     bind_out (if \<not> painted con \<or> mpz_ne (paint_value con) value
               then constraint_paint_value g con value else Inr con) (\<lambda>con'.
       let radix_idx = index div radix_size g
       in if mpz_lt_ui radix_idx (int (radix_len con'))
          then let i = nat (mpz_get_ui radix_idx)
               in if i < length (radix con')
                  then Inr (radix con' ! i OR index mod radix_size g, con')
                  else Inl Out_of_bounds
          else let n = index - radix_size g * int (radix_len con')
               in if mpz_lt n (ncount (root con'))
                  then Inr (lookup_index (root con') 0 n (half_index g), con')
                  else Inl Assert_failed)"

text \<open>The \<open>_ui\<close> variants take 32-bit values, the \<open>_32\<close> variants 32-bit addresses as well.\<close>

definition constraint_init_ui :: "u32 \<Rightarrow> nat \<Rightarrow> ipvx_mask \<Rightarrow> (ipvx_mask \<times> constraint_t) outcome" where
  "constraint_init_ui value ipvx_max_len g = constraint_init (uint value) ipvx_max_len g"

definition constraint_set_ui ::
    "ipvx_mask \<Rightarrow> constraint_t \<Rightarrow> mpz \<Rightarrow> int \<Rightarrow> u32 \<Rightarrow> constraint_t outcome" where
  "constraint_set_ui g con prefix len value = constraint_set g con prefix len (uint value)"

definition constraint_paint_value_ui :: "ipvx_mask \<Rightarrow> constraint_t \<Rightarrow> u32 \<Rightarrow> constraint_t outcome" where
  "constraint_paint_value_ui g con value = constraint_paint_value g con (uint value)"

definition constraint_lookup_index_for_ipvx_ui ::
    "ipvx_mask \<Rightarrow> constraint_t \<Rightarrow> mpz \<Rightarrow> u32 \<Rightarrow> (mpz \<times> constraint_t) outcome" where
  "constraint_lookup_index_for_ipvx_ui g con index value =
     constraint_lookup_index_for_ipvx g con index (uint value)"

definition constraint_count_ipvx_of_value_ui :: "ipvx_mask \<Rightarrow> constraint_t \<Rightarrow> u32 \<Rightarrow> mpz" where
  "constraint_count_ipvx_of_value_ui g con value =
     constraint_count_ipvx_of_value g con (uint value)"

definition constraint_lookup_ipvx_for_value_ui :: "ipvx_mask \<Rightarrow> constraint_t \<Rightarrow> mpz \<Rightarrow> u32" where
  "constraint_lookup_ipvx_for_value_ui g con ipvx =
     word_of_int (mpz_get_ui (constraint_lookup_ipvx_for_value g con ipvx))"

definition constraint_set_32 ::
    "ipvx_mask \<Rightarrow> constraint_t \<Rightarrow> u32 \<Rightarrow> int \<Rightarrow> u32 \<Rightarrow> constraint_t outcome" where
  "constraint_set_32 g con prefix len value = constraint_set g con (uint prefix) len (uint value)"

definition constraint_lookup_ipvx_for_value_32 :: "ipvx_mask \<Rightarrow> constraint_t \<Rightarrow> u32 \<Rightarrow> u32" where
  "constraint_lookup_ipvx_for_value_32 g con ipvx =
     word_of_int (mpz_get_ui (constraint_lookup_ipvx_for_value g con (uint ipvx)))"

definition constraint_count_ipvx_of_value_32 :: "ipvx_mask \<Rightarrow> constraint_t \<Rightarrow> u32 \<Rightarrow> u64" where
  "constraint_count_ipvx_of_value_32 g con value =
     word_of_int (mpz_get_ui (constraint_count_ipvx_of_value g con (uint value)))"

definition constraint_lookup_index_for_ipvx_32 ::
    "ipvx_mask \<Rightarrow> constraint_t \<Rightarrow> u64 \<Rightarrow> u32 \<Rightarrow> (u32 \<times> constraint_t) outcome" where
  "constraint_lookup_index_for_ipvx_32 g con index value =
     bind_out (constraint_lookup_index_for_ipvx g con (uint index) (uint value)) (\<lambda>(ipvx, con').
       Inr (word_of_int (mpz_get_ui ipvx), con'))"

section \<open>Specification: the map from addresses to values\<close>

declare One_nat_def [simp del]

text \<open>
  \<open>leaf_at t n a\<close> is the leaf that covers address \<open>a\<close> in a tree over \<open>n\<close> address bits: its value and
  the number of address bits below it. \<open>fits t n\<close> bounds the depth of the tree, \<open>minimal\<close> says that no
  inner node could be collapsed.
\<close>

fun leaf_at :: "node \<Rightarrow> nat \<Rightarrow> mpz \<Rightarrow> mpz \<times> nat" where
  "leaf_at (Leaf v c) n a = (v, n)"
| "leaf_at (Inner l r v c) n a =
     (if bit a (n - 1) then leaf_at r (n - 1) a else leaf_at l (n - 1) a)"

fun fits :: "node \<Rightarrow> nat \<Rightarrow> bool" where
  "fits (Leaf v c) n = True"
| "fits (Inner l r v c) n = (0 < n \<and> fits l (n - 1) \<and> fits r (n - 1))"

fun minimal :: "node \<Rightarrow> bool" where
  "minimal (Leaf v c) = True"
| "minimal (Inner l r v c) =
     (minimal l \<and> minimal r \<and> \<not> (is_leaf l \<and> is_leaf r \<and> nvalue l = nvalue r))"

definition value_at :: "ipvx_mask \<Rightarrow> constraint_t \<Rightarrow> mpz \<Rightarrow> mpz" where
  "value_at g con a = fst (leaf_at (root con) (max_prefix_len g) a)"

definition addresses :: "ipvx_mask \<Rightarrow> mpz set" where
  "addresses g = {0 ..< 2 ^ max_prefix_len g}"

text \<open>What \<open>cal_ipvx_mask\<close> establishes.\<close>

definition mask_ok :: "ipvx_mask \<Rightarrow> bool" where
  "mask_ok g \<longleftrightarrow> mask_flag g \<and> 0 < max_prefix_len g \<and> radix_length g \<le> max_prefix_len g
     \<and> radix_length g < 64
     \<and> half_index g = 2 ^ (max_prefix_len g - 1) \<and> max_index g = 2 ^ max_prefix_len g
     \<and> radix_size g = 2 ^ (max_prefix_len g - radix_length g)"

lemma is_leaf_simps [simp]:
  "is_leaf (Leaf v c)" "\<not> is_leaf (Inner l r v c)"
  by (simp_all add: is_leaf_def)

lemma is_leaf_iff: "is_leaf t \<longleftrightarrow> (\<exists>v c. t = Leaf v c)"
  by (cases t) auto

lemma with_value_simps [simp]:
  "with_value v (Leaf w c) = Leaf v c" "with_value v (Inner l r w c) = Inner l r v c"
  by (simp_all add: with_value_def)

lemma convert_to_leaf_simps [simp]:
  "convert_to_leaf (Leaf w c) = Leaf w c" "convert_to_leaf (Inner l r w c) = Leaf w c"
  by (simp_all add: convert_to_leaf_def)

lemma create_leaf_simps [simp]:
  "fits (create_leaf v) n" "minimal (create_leaf v)" "leaf_at (create_leaf v) n a = (v, n)"
  "is_leaf (create_leaf v)" "nvalue (create_leaf v) = v"
  by (simp_all add: create_leaf_def)

lemma cal_ipvx_mask_ok:
  assumes "cal_ipvx_mask n initial_mask = Inr g"
  shows "mask_ok g \<and> max_prefix_len g = n \<and> radix_length g = min n 20"
  using assms by (auto simp: cal_ipvx_mask_def initial_mask_def mask_ok_def Let_def split: if_splits)

lemma leaf_at_cong:
  "(\<And>i. i < n \<Longrightarrow> bit a i \<longleftrightarrow> bit b i) \<Longrightarrow> fits t n \<Longrightarrow> leaf_at t n a = leaf_at t n b"
  by (induction t arbitrary: n) auto

subsection \<open>Lookup reads the map\<close>

lemma lookup_ipvx_leaf_at:
  assumes "fits t n" "n = 0 \<or> m = 2 ^ (n - 1)"
  shows "lookup_ipvx t a m = fst (leaf_at t n a)"
  using assms
proof (induction t arbitrary: n m)
  case (Inner l r v c)
  then have n: "0 < n" and m: "m = 2 ^ (n - 1)" by auto
  have half: "n - 1 = 0 \<or> m div 2 = 2 ^ (n - 1 - 1)"
    using m by (cases "n - 1") auto
  have IH: "lookup_ipvx l a (m div 2) = fst (leaf_at l (n - 1) a)"
    "lookup_ipvx r a (m div 2) = fst (leaf_at r (n - 1) a)"
    using Inner.prems Inner.IH half by auto
  have "a AND m \<noteq> 0 \<longleftrightarrow> bit a (n - 1)" by (simp add: m and_exp_eq_0_iff_not_bit)
  then show ?case by (simp add: IH)
qed simp

subsection \<open>Setting a prefix overwrites the map on the prefix\<close>

text \<open>
  The prefix handed down \<open>d\<close> levels is shifted left by \<open>d\<close> bits: its bit \<open>m - 1 - i\<close> is matched
  against bit \<open>n - 1 - i\<close> of the address, for the \<open>len\<close> bits that remain.
\<close>

definition prefix_match :: "nat \<Rightarrow> nat \<Rightarrow> mpz \<Rightarrow> nat \<Rightarrow> mpz \<Rightarrow> bool" where
  "prefix_match m n prefix len a \<longleftrightarrow>
     (\<forall>i<len. bit a (n - 1 - i) \<longleftrightarrow> bit prefix (m - 1 - i))"

lemma prefix_match_0 [simp]: "prefix_match m n p 0 a"
  by (simp add: prefix_match_def)

lemma prefix_match_Suc:
  assumes "Suc len \<le> m" "Suc len \<le> n"
  shows "prefix_match m n p (Suc len) a \<longleftrightarrow>
     (bit a (n - 1) \<longleftrightarrow> bit p (m - 1)) \<and> prefix_match m (n - 1) (p * 2 mod 2 ^ m) len a"
proof -
  have shifted: "bit (p * 2 mod 2 ^ m) (m - 1 - i) \<longleftrightarrow> bit p (m - 1 - Suc i)" if "i < len" for i
  proof -
    have "m - 1 - i = Suc (m - 1 - Suc i)" "Suc (m - 1 - Suc i) < m"
      using that assms by linarith+
    then show ?thesis using bit_shift1_mod [of p m "m - 1 - Suc i"] by simp
  qed
  have "prefix_match m n p (Suc len) a \<longleftrightarrow>
      (bit a (n - 1) \<longleftrightarrow> bit p (m - 1))
      \<and> (\<forall>i<len. bit a (n - 1 - Suc i) \<longleftrightarrow> bit p (m - 1 - Suc i))"
    unfolding prefix_match_def by (subst All_less_Suc2) simp
  also have "\<dots> \<longleftrightarrow> (bit a (n - 1) \<longleftrightarrow> bit p (m - 1))
      \<and> prefix_match m (n - 1) (p * 2 mod 2 ^ m) len a"
  proof -
    have "n - 1 - Suc i = n - 1 - 1 - i" for i by linarith
    then show ?thesis unfolding prefix_match_def using shifted by metis
  qed
  finally show ?thesis .
qed

definition children :: "node \<Rightarrow> node \<times> node" where
  "children t = (case t of Leaf w _ \<Rightarrow> (create_leaf w, create_leaf w) | Inner l r _ _ \<Rightarrow> (l, r))"

definition rejoin :: "node \<Rightarrow> node \<Rightarrow> node \<Rightarrow> node" where
  "rejoin t l r = (if is_leaf r \<and> is_leaf l \<and> nvalue r = nvalue l
     then Leaf (nvalue l) (ncount t) else Inner l r (nvalue t) (ncount t))"

lemma set_recurse_Suc:
  "set_recurse g t p (Suc n) v =
     (if is_leaf t \<and> nvalue t = v then t
      else case children t of (l, r) \<Rightarrow>
        if p AND half_index g \<noteq> 0
        then rejoin t l (set_recurse g r (p * 2 mod max_index g) n v)
        else rejoin t (set_recurse g l (p * 2 mod max_index g) n v) r)"
  by (cases t) (simp_all add: children_def rejoin_def Let_def convert_to_leaf_def)

declare set_recurse.simps(2) [simp del]

lemma fst_leaf_at_rejoin:
  "fst (leaf_at (rejoin t l r) n a)
     = fst (if bit a (n - 1) then leaf_at r (n - 1) a else leaf_at l (n - 1) a)"
  by (auto simp: rejoin_def is_leaf_iff)

lemma fst_leaf_at_children:
  "children t = (l, r) \<Longrightarrow>
   fst (leaf_at t n a) = fst (if bit a (n - 1) then leaf_at r (n - 1) a else leaf_at l (n - 1) a)"
  by (auto simp: children_def split: node.splits)

lemma fits_children:
  "children t = (l, r) \<Longrightarrow> fits t n \<Longrightarrow> fits l (n - 1) \<and> fits r (n - 1)"
  by (auto simp: children_def split: node.splits)

lemma minimal_children:
  "children t = (l, r) \<Longrightarrow> minimal t \<Longrightarrow> minimal l \<and> minimal r"
  by (auto simp: children_def split: node.splits)

lemma fits_rejoin: "0 < n \<Longrightarrow> fits l (n - 1) \<Longrightarrow> fits r (n - 1) \<Longrightarrow> fits (rejoin t l r) n"
  by (simp add: rejoin_def)

lemma minimal_rejoin: "minimal l \<Longrightarrow> minimal r \<Longrightarrow> minimal (rejoin t l r)"
  by (auto simp: rejoin_def)

lemma set_recurse_fits:
  "fits t n \<Longrightarrow> len \<le> n \<Longrightarrow> fits (set_recurse g t p len v) n"
proof (induction len arbitrary: t n p)
  case 0
  then show ?case by (cases t) auto
next
  case (Suc len)
  obtain l r where ch: "children t = (l, r)" by fastforce
  have "fits l (n - 1)" "fits r (n - 1)" using fits_children [OF ch Suc.prems(1)] by auto
  with Suc show ?case
    by (auto simp: set_recurse_Suc ch intro!: fits_rejoin)
qed

lemma set_recurse_minimal:
  "minimal t \<Longrightarrow> minimal (set_recurse g t p len v)"
proof (induction len arbitrary: t p)
  case 0
  then show ?case by (cases t) auto
next
  case (Suc len)
  obtain l r where ch: "children t = (l, r)" by fastforce
  have "minimal l" "minimal r" using minimal_children [OF ch Suc.prems(1)] by auto
  with Suc show ?case
    by (auto simp: set_recurse_Suc ch intro!: minimal_rejoin)
qed

lemma set_recurse_leaf_at:
  assumes "mask_ok g" "fits t n" "len \<le> n" "n \<le> max_prefix_len g"
  shows "fst (leaf_at (set_recurse g t p len v) n a) =
    (if prefix_match (max_prefix_len g) n p len a then v else fst (leaf_at t n a))"
  using assms(2-4)
proof (induction len arbitrary: t n p)
  case 0
  then show ?case by (cases t) auto
next
  case (Suc len)
  let ?m = "max_prefix_len g" and ?p = "p * 2 mod max_index g"
  obtain l r where ch: "children t = (l, r)" by fastforce
  have half: "p AND half_index g \<noteq> 0 \<longleftrightarrow> bit p (?m - 1)" and mx: "max_index g = 2 ^ ?m"
    using assms(1) by (simp_all add: mask_ok_def and_exp_eq_0_iff_not_bit)
  have pm: "prefix_match ?m n p (Suc len) a \<longleftrightarrow>
      (bit a (n - 1) \<longleftrightarrow> bit p (?m - 1)) \<and> prefix_match ?m (n - 1) ?p len a"
    using prefix_match_Suc [of len ?m n p a] Suc.prems mx by simp
  have fits: "fits l (n - 1)" "fits r (n - 1)" using fits_children [OF ch Suc.prems(1)] by auto
  have sub: "fst (leaf_at (set_recurse g u ?p len v) (n - 1) a)
      = (if prefix_match ?m (n - 1) ?p len a then v else fst (leaf_at u (n - 1) a))"
    if "fits u (n - 1)" for u
    using Suc.IH [OF that, of ?p] Suc.prems by simp
  show ?case
  proof (cases "is_leaf t \<and> nvalue t = v")
    case True
    then show ?thesis by (auto simp: set_recurse_Suc is_leaf_iff)
  next
    case False
    show ?thesis
      unfolding set_recurse_Suc if_not_P [OF False]
      by (simp add: ch half pm fst_leaf_at_rejoin fst_leaf_at_children [OF ch]
          sub [OF fits(1)] sub [OF fits(2)])
  qed
qed

text \<open>On addresses, matching the bits is having the same quotient by the size of the prefix.\<close>

lemma prefix_match_div:
  assumes "len \<le> m" "0 \<le> a" "a < 2 ^ m" "0 \<le> p" "p < 2 ^ m"
  shows "prefix_match m m p len a \<longleftrightarrow> a div 2 ^ (m - len) = p div 2 ^ (m - len)"
proof -
  have "prefix_match m m p len a \<longleftrightarrow> (\<forall>i\<ge>m - len. bit a i \<longleftrightarrow> bit p i)"
  proof
    assume h: "prefix_match m m p len a"
    show "\<forall>i\<ge>m - len. bit a i \<longleftrightarrow> bit p i"
    proof (intro allI impI)
      fix i assume i: "m - len \<le> i"
      show "bit a i \<longleftrightarrow> bit p i"
      proof (cases "i < m")
        case True
        with i assms(1) have "m - 1 - i < len" by linarith
        with h have "bit a (m - 1 - (m - 1 - i)) \<longleftrightarrow> bit p (m - 1 - (m - 1 - i))"
          unfolding prefix_match_def by blast
        with True show ?thesis by simp
      next
        case False
        then show ?thesis using bit_high_zero [of _ m i] assms by auto
      qed
    qed
  next
    assume h: "\<forall>i\<ge>m - len. bit a i \<longleftrightarrow> bit p i"
    show "prefix_match m m p len a"
      unfolding prefix_match_def
    proof (intro allI impI)
      fix i assume "i < len"
      with assms(1) have "m - len \<le> m - 1 - i" by linarith
      with h show "bit a (m - 1 - i) \<longleftrightarrow> bit p (m - 1 - i)" by blast
    qed
  qed
  then show ?thesis by (simp add: div_pow2_eq_iff_bits)
qed

section \<open>Counting and enumerating the addresses of a value\<close>

text \<open>
  \<open>elems P t n\<close> lists, in increasing order, the addresses below \<open>2 ^ n\<close> whose leaf satisfies \<open>P\<close>
  (its value and the number of address bits below it).
\<close>

fun elems :: "(mpz \<Rightarrow> nat \<Rightarrow> bool) \<Rightarrow> node \<Rightarrow> nat \<Rightarrow> mpz list" where
  "elems P (Leaf v c) n = (if P v n then [0..2 ^ n - 1] else [])"
| "elems P (Inner l r v c) n = elems P l (n - 1) @ map ((+) (2 ^ (n - 1))) (elems P r (n - 1))"

definition leaf_sel :: "(mpz \<Rightarrow> nat \<Rightarrow> bool) \<Rightarrow> node \<Rightarrow> nat \<Rightarrow> mpz \<Rightarrow> bool" where
  "leaf_sel P t n a = P (fst (leaf_at t n a)) (snd (leaf_at t n a))"

lemma pow2_halves:
  assumes "0 < n"
  shows "(2::int) ^ n = 2 ^ (n - 1) + 2 ^ (n - 1)"
  using assms by (cases n) (simp_all add: One_nat_def)

lemma bit_add_half:
  fixes b :: int
  assumes "0 \<le> b" "b < 2 ^ k"
  shows "bit (2 ^ k + b) k" "i < k \<Longrightarrow> bit (2 ^ k + b) i \<longleftrightarrow> bit b i"
proof -
  have eq: "2 ^ k + b = 2 ^ k OR b" using or_disjoint_add [OF assms, of 1] by simp
  show "bit (2 ^ k + b) k" by (simp add: eq bit_or_iff bit_exp_iff)
  show "i < k \<Longrightarrow> bit (2 ^ k + b) i \<longleftrightarrow> bit b i" by (simp add: eq bit_or_iff bit_exp_iff)
qed

lemma set_elems:
  "fits t n \<Longrightarrow> set (elems P t n) = {a. 0 \<le> a \<and> a < 2 ^ n \<and> leaf_sel P t n a}"
proof (induction t arbitrary: n)
  case (Leaf v c)
  then show ?case by (auto simp: leaf_sel_def)
next
  case (Inner l r v c)
  let ?k = "n - 1" and ?t = "Inner l r v c"
  from Inner.prems have n: "0 < n" and fits: "fits l ?k" "fits r ?k" by auto
  have lo: "leaf_sel P ?t n a \<longleftrightarrow> leaf_sel P l ?k a" if "0 \<le> a" "a < 2 ^ ?k" for a
    using bit_high_zero [OF that, of ?k] by (simp add: leaf_sel_def)
  have hi: "leaf_sel P ?t n (2 ^ ?k + b) \<longleftrightarrow> leaf_sel P r ?k b" if "0 \<le> b" "b < 2 ^ ?k" for b
  proof -
    have "leaf_at r ?k (2 ^ ?k + b) = leaf_at r ?k b"
      by (rule leaf_at_cong) (use bit_add_half [OF that] fits in auto)
    then show ?thesis using bit_add_half (1) [OF that] by (simp add: leaf_sel_def)
  qed
  have IH: "set (elems P l ?k) = {a. 0 \<le> a \<and> a < 2 ^ ?k \<and> leaf_sel P l ?k a}"
    "set (elems P r ?k) = {a. 0 \<le> a \<and> a < 2 ^ ?k \<and> leaf_sel P r ?k a}"
    using Inner.IH fits by auto
  show ?case
  proof (intro set_eqI iffI)
    fix a assume "a \<in> set (elems P ?t n)"
    then consider "a \<in> set (elems P l ?k)" | b where "b \<in> set (elems P r ?k)" "a = 2 ^ ?k + b"
      by auto
    then show "a \<in> {a. 0 \<le> a \<and> a < 2 ^ n \<and> leaf_sel P ?t n a}"
      using lo hi IH pow2_halves [OF n] by cases auto
  next
    fix a assume a: "a \<in> {a. 0 \<le> a \<and> a < 2 ^ n \<and> leaf_sel P ?t n a}"
    show "a \<in> set (elems P ?t n)"
    proof (cases "a < 2 ^ ?k")
      case True
      with a lo IH show ?thesis by auto
    next
      case False
      with a pow2_halves [OF n] have "0 \<le> a - 2 ^ ?k" "a - 2 ^ ?k < 2 ^ ?k" by auto
      with hi [of "a - 2 ^ ?k"] a IH have "a - 2 ^ ?k \<in> set (elems P r ?k)" by auto
      then show ?thesis by force
    qed
  qed
qed

lemma elems_bounds: "fits t n \<Longrightarrow> a \<in> set (elems P t n) \<Longrightarrow> 0 \<le> a \<and> a < 2 ^ n"
  using set_elems by blast

lemma distinct_elems: "fits t n \<Longrightarrow> distinct (elems P t n)"
proof (induction t arbitrary: n)
  case (Inner l r v c)
  then have fits: "fits l (n - 1)" "fits r (n - 1)" by auto
  have "inj_on ((+) (2 ^ (n - 1) :: int)) A" for A by simp
  with Inner fits show ?case
    by (auto simp: distinct_map dest!: elems_bounds [OF fits(1)] elems_bounds [OF fits(2)])
qed simp

text \<open>The selection counted for value \<open>v\<close>, with or without the leaves kept in the radix array.\<close>

definition sel :: "ipvx_mask \<Rightarrow> mpz \<Rightarrow> bool \<Rightarrow> mpz \<Rightarrow> nat \<Rightarrow> bool" where
  "sel g v exclude w k \<longleftrightarrow> w = v \<and> \<not> (exclude \<and> max_prefix_len g - radix_length g \<le> k)"

fun counted :: "(mpz \<Rightarrow> nat \<Rightarrow> bool) \<Rightarrow> node \<Rightarrow> nat \<Rightarrow> bool" where
  "counted P (Leaf v c) n \<longleftrightarrow> c = int (length (elems P (Leaf v c) n))"
| "counted P (Inner l r v c) n \<longleftrightarrow> counted P l (n - 1) \<and> counted P r (n - 1)
     \<and> c = int (length (elems P (Inner l r v c) n))"

lemma counted_ncount: "counted P t n \<Longrightarrow> ncount t = int (length (elems P t n))"
  by (cases t) auto

lemma count_ipvx_recurse_count:
  assumes "mask_ok g"
  shows "fits t n \<Longrightarrow> fst (count_ipvx_recurse g t v (2 ^ n) paint ex)
           = int (length (elems (sel g v ex) t n))"
proof (induction t arbitrary: n)
  case (Leaf w c)
  have "(2::int) ^ n \<ge> radix_size g \<longleftrightarrow> max_prefix_len g - radix_length g \<le> n"
    using assms by (simp add: mask_ok_def)
  then show ?case by (auto simp: sel_def Let_def)
next
  case (Inner l r w c)
  from Inner.prems have "(2::int) ^ n div 2 = 2 ^ (n - 1)" by (cases n) auto
  with Inner show ?case by (auto simp: Let_def split_beta)
qed

lemma count_ipvx_recurse_tree:
  "fits t n \<Longrightarrow> leaf_at (snd (count_ipvx_recurse g t v sz paint ex)) n a = leaf_at t n a"
  "fits t n \<Longrightarrow> fits (snd (count_ipvx_recurse g t v sz paint ex)) n"
  by (induction t arbitrary: n sz) (auto simp: Let_def split_beta)

lemma count_ipvx_recurse_leaf:
  "is_leaf (snd (count_ipvx_recurse g t v sz paint ex)) \<longleftrightarrow> is_leaf t"
  "nvalue (snd (count_ipvx_recurse g t v sz paint ex)) = nvalue t"
  by (cases t; simp add: Let_def split_beta)+

lemma count_ipvx_recurse_minimal:
  "minimal t \<Longrightarrow> minimal (snd (count_ipvx_recurse g t v sz paint ex))"
  by (induction t arbitrary: sz) (auto simp: Let_def split_beta count_ipvx_recurse_leaf)

lemma count_ipvx_recurse_elems:
  "elems P (snd (count_ipvx_recurse g t v sz paint ex)) n = elems P t n"
  by (induction t arbitrary: n sz) (auto simp: Let_def split_beta)

lemma count_ipvx_recurse_counted:
  assumes "mask_ok g"
  shows "fits t n \<Longrightarrow>
    counted (sel g v ex) (snd (count_ipvx_recurse g t v (2 ^ n) True ex)) n"
proof (induction t arbitrary: n)
  case (Leaf w c)
  then show ?case using count_ipvx_recurse_count [OF assms, of "Leaf w c" n v True ex]
    by (simp add: Let_def)
next
  case (Inner l r w c)
  from Inner.prems have half: "(2::int) ^ n div 2 = 2 ^ (n - 1)" by (cases n) auto
  from Inner.prems have fits: "fits l (n - 1)" "fits r (n - 1)" by auto
  show ?case
    using Inner.IH(1) [OF fits(1)] Inner.IH(2) [OF fits(2)] half
    by (simp add: Let_def split_beta count_ipvx_recurse_elems
        count_ipvx_recurse_count [OF assms fits(1)] count_ipvx_recurse_count [OF assms fits(2)])
qed

text \<open>On a counted tree the index walk returns the entry of the list.\<close>

lemma lookup_index_elems:
  assumes "counted P t n" "fits t n" "0 \<le> i" "i < ncount t" "n = 0 \<or> m = 2 ^ (n - 1)"
  shows "lookup_index t (q * 2 ^ n) i m = q * 2 ^ n + elems P t n ! nat i"
  using assms
proof (induction t arbitrary: n m i q)
  case (Leaf v c)
  then have "i < 2 ^ n" "P v n" by (auto split: if_splits)
  with Leaf.prems show ?case by (simp add: or_disjoint_add nth_upto)
next
  case (Inner l r v c)
  let ?k = "n - 1"
  from Inner.prems have n: "0 < n" and m: "m = 2 ^ ?k" and fits: "fits l ?k" "fits r ?k"
    and cnt: "counted P l ?k" "counted P r ?k" by auto
  have half: "?k = 0 \<or> m div 2 = 2 ^ (?k - 1)" using m by (cases ?k) (auto simp: One_nat_def)
  have len: "ncount l = int (length (elems P l ?k))" "ncount r = int (length (elems P r ?k))"
    using counted_ncount cnt by auto
  have ip: "q * 2 ^ n = 2 * q * 2 ^ ?k" using pow2_halves [OF n] by simp
  show ?case
  proof (cases "i < ncount l")
    case True
    with len Inner.prems(3) have "nat i < length (elems P l ?k)" by linarith
    with True Inner.IH(1) [OF cnt(1) fits(1) Inner.prems(3) True half, of "2 * q"]
    show ?thesis by (simp add: ip nth_append)
  next
    case False
    have "q * 2 ^ n OR m = q * 2 ^ n + 2 ^ ?k"
      unfolding m by (rule or_disjoint_add) (use pow2_halves [OF n] in auto)
    then have ip': "q * 2 ^ n OR m = (2 * q + 1) * 2 ^ ?k" by (simp add: ip algebra_simps)
    have i: "0 \<le> i - ncount l" "i - ncount l < ncount r"
      using False Inner.prems len by auto
    have nth: "elems P (Inner l r v c) n ! nat i = 2 ^ ?k + elems P r ?k ! nat (i - ncount l)"
    proof -
      have "\<not> nat i < length (elems P l ?k)" "nat i - length (elems P l ?k) = nat (i - ncount l)"
        "nat (i - ncount l) < length (elems P r ?k)"
        using False len i Inner.prems(3) by linarith+
      then show ?thesis by (simp add: nth_append)
    qed
    have "lookup_index (Inner l r v c) (q * 2 ^ n) i m
        = lookup_index r ((2 * q + 1) * 2 ^ ?k) (i - ncount l) (m div 2)"
      using False ip' by simp
    also have "\<dots> = (2 * q + 1) * 2 ^ ?k + elems P r ?k ! nat (i - ncount l)"
      by (rule Inner.IH(2) [OF cnt(2) fits(2) i half])
    finally show ?thesis using nth by (simp add: ip algebra_simps)
  qed
qed

subsection \<open>The radix array\<close>

text \<open>The node found for a prefix determines the leaves of the addresses that start with it.\<close>

lemma snd_leaf_at_le: "snd (leaf_at t n a) \<le> n"
proof (induction t arbitrary: n)
  case (Inner l r v c)
  from Inner [of "n - 1"] show ?case by (auto intro: le_trans)
qed simp

lemma lookup_node_leaf_at:
  assumes "fits t n" "len \<le> n" "n = 0 \<or> m = 2 ^ (n - 1)" "\<And>i. n - len \<le> i \<Longrightarrow> bit a i \<longleftrightarrow> bit p i"
  shows "if is_leaf (lookup_node t p len m)
    then fst (leaf_at t n a) = nvalue (lookup_node t p len m) \<and> n - len \<le> snd (leaf_at t n a)
    else snd (leaf_at t n a) < n - len"
  using assms
proof (induction t p len m arbitrary: n rule: lookup_node.induct)
  case (1 t prefix m)
  show ?case
  proof (cases t)
    case (Inner l r v c)
    with 1 have "snd (leaf_at t n a) \<le> n - 1" using snd_leaf_at_le by (auto intro: le_trans)
    with Inner 1 show ?thesis by auto
  qed simp
next
  case (2 v c prefix len m)
  then show ?case by simp
next
  case (3 l r v c prefix len m)
  let ?k = "n - 1"
  from 3 have n: "0 < n" and m: "m = 2 ^ ?k" and fits: "fits l ?k" "fits r ?k" by auto
  have half: "?k = 0 \<or> m div 2 = 2 ^ (?k - 1)" using m by (cases ?k) (auto simp: One_nat_def)
  have flag: "prefix AND m \<noteq> 0 \<longleftrightarrow> bit a ?k"
    using 3(6) [of ?k] 3(4) n by (simp add: m and_exp_eq_0_iff_not_bit)
  have sub: "?k - len = n - Suc len" "len \<le> ?k" using 3(4) by auto
  show ?case
  proof (cases "bit a ?k")
    case True
    with flag "3.IH"(1) [of ?k] fits half 3(6) show ?thesis by (auto simp: sub split: if_splits)
  next
    case False
    with flag "3.IH"(2) [of ?k] fits half 3(6) show ?thesis by (auto simp: sub split: if_splits)
  qed
qed

definition radix_hit :: "ipvx_mask \<Rightarrow> node \<Rightarrow> mpz \<Rightarrow> nat \<Rightarrow> bool" where
  "radix_hit g t v i \<longleftrightarrow>
     (let u = lookup_node t (radix_size g * int i) (radix_length g) (half_index g)
      in is_leaf u \<and> nvalue u = v)"

definition radix_hits :: "ipvx_mask \<Rightarrow> node \<Rightarrow> mpz \<Rightarrow> nat list \<Rightarrow> mpz list" where
  "radix_hits g t v is = map (\<lambda>i. radix_size g * int i) (filter (radix_hit g t v) is)"

lemma fold_radix_round:
  "n + length is \<le> length arr \<Longrightarrow>
   fold (radix_round g t v) is (arr, n)
     = (take n arr @ radix_hits g t v is @ drop (n + length (radix_hits g t v is)) arr,
        n + length (radix_hits g t v is))"
proof (induction "is" arbitrary: arr n)
  case Nil
  then show ?case by (simp add: radix_hits_def)
next
  case (Cons i "is")
  let ?x = "radix_size g * int i"
  show ?case
  proof (cases "radix_hit g t v i")
    case True
    then have "radix_round g t v i (arr, n) = (arr[n := ?x], Suc n)"
      by (simp add: radix_round_def radix_hit_def Let_def)
    moreover have "take (Suc n) (arr[n := ?x]) = take n arr @ [?x]"
      using Cons.prems by (simp add: take_Suc_conv_app_nth)
    moreover have "radix_hits g t v (i # is) = ?x # radix_hits g t v is"
      using True by (simp add: radix_hits_def)
    ultimately show ?thesis using Cons.IH [of "Suc n" "arr[n := ?x]"] Cons.prems by simp
  next
    case False
    then have "radix_round g t v i (arr, n) = (arr, n)"
      by (simp add: radix_round_def radix_hit_def Let_def)
    moreover have "radix_hits g t v (i # is) = radix_hits g t v is"
      using False by (simp add: radix_hits_def)
    ultimately show ?thesis using Cons.IH [of n arr] Cons.prems by simp
  qed
qed

definition hits :: "ipvx_mask \<Rightarrow> node \<Rightarrow> mpz \<Rightarrow> mpz list" where
  "hits g t v = radix_hits g t v [0 ..< 2 ^ radix_length g]"

lemma length_hits: "length (hits g t v) \<le> 2 ^ radix_length g"
  unfolding hits_def radix_hits_def by (simp add: le_trans [OF length_filter_le])

lemma radix_size_pos: "mask_ok g \<Longrightarrow> 0 < radix_size g"
  by (simp add: mask_ok_def)

lemma max_radix_split:
  assumes "mask_ok g"
  shows "(2::int) ^ max_prefix_len g = radix_size g * 2 ^ radix_length g"
  using assms by (simp add: mask_ok_def flip: power_add)

lemma radix_hit_iff:
  assumes "mask_ok g" "fits t (max_prefix_len g)" "0 \<le> a" "a div radix_size g = int i"
  shows "radix_hit g t v i \<longleftrightarrow> fst (leaf_at t (max_prefix_len g) a) = v
     \<and> max_prefix_len g - radix_length g \<le> snd (leaf_at t (max_prefix_len g) a)"
proof -
  let ?m = "max_prefix_len g" and ?r = "max_prefix_len g - radix_length g"
  let ?p = "radix_size g * int i"
  have rs: "radix_size g = 2 ^ ?r" and half: "half_index g = 2 ^ (?m - 1)"
    and le: "radix_length g \<le> ?m" using assms(1) by (simp_all add: mask_ok_def)
  have "a div 2 ^ ?r = ?p div 2 ^ ?r" using assms(4) by (simp add: rs)
  then have "bit a j \<longleftrightarrow> bit ?p j" if "?r \<le> j" for j
    using that by (simp add: div_pow2_eq_iff_bits)
  from lookup_node_leaf_at [OF assms(2) le, of "half_index g" a ?p] this half
  show ?thesis unfolding radix_hit_def Let_def by (auto split: if_splits)
qed

text \<open>
  The addresses of a painted value in the order in which \<open>constraint_lookup_index_for_ipvx\<close> serves
  them: first the blocks of the radix array, then the smaller blocks of the tree.
\<close>

definition enumeration :: "ipvx_mask \<Rightarrow> node \<Rightarrow> mpz \<Rightarrow> mpz list" where
  "enumeration g t v =
     concat (map (\<lambda>p. [p .. p + radix_size g - 1]) (hits g t v))
     @ elems (sel g v True) t (max_prefix_len g)"

lemma set_enumeration:
  assumes "mask_ok g" "fits t (max_prefix_len g)"
  shows "set (enumeration g t v)
    = {a. 0 \<le> a \<and> a < 2 ^ max_prefix_len g \<and> fst (leaf_at t (max_prefix_len g) a) = v}"
    (is "_ = ?S")
proof -
  let ?m = "max_prefix_len g" and ?r = "max_prefix_len g - radix_length g"
  let ?deep = "\<lambda>a. snd (leaf_at t ?m a) < ?r"
  have rs: "0 < radix_size g" using assms(1) by (rule radix_size_pos)
  have mem: "(\<exists>p \<in> set (hits g t v). a \<in> {p .. p + radix_size g - 1})
      \<longleftrightarrow> 0 \<le> a \<and> a < 2 ^ ?m \<and> fst (leaf_at t ?m a) = v \<and> \<not> ?deep a" for a
  proof
    assume "\<exists>p \<in> set (hits g t v). a \<in> {p .. p + radix_size g - 1}"
    then obtain i where i: "i < 2 ^ radix_length g" "radix_hit g t v i"
      and a: "radix_size g * int i \<le> a" "a < radix_size g * int i + radix_size g"
      by (auto simp: hits_def radix_hits_def)
    have "0 \<le> radix_size g * int i" using rs by simp
    with a have a0: "0 \<le> a" by linarith
    have d: "a div radix_size g = int i"
      using a by (intro int_div_pos_eq [of _ _ _ "a - radix_size g * int i"]) auto
    have "int i + 1 \<le> 2 ^ radix_length g" using i(1) by (metis of_nat_1 of_nat_add of_nat_le_iff
        of_nat_numeral of_nat_power Suc_eq_plus1 Suc_leI)
    then have "radix_size g * (int i + 1) \<le> radix_size g * 2 ^ radix_length g"
      using rs by (simp add: mult_left_mono)
    then have "a < 2 ^ ?m" using a(2) max_radix_split [OF assms(1)] by (simp add: algebra_simps)
    with i(2) radix_hit_iff [OF assms a0 d] a0
    show "0 \<le> a \<and> a < 2 ^ ?m \<and> fst (leaf_at t ?m a) = v \<and> \<not> ?deep a" by auto
  next
    assume h: "0 \<le> a \<and> a < 2 ^ ?m \<and> fst (leaf_at t ?m a) = v \<and> \<not> ?deep a"
    define i where "i = nat (a div radix_size g)"
    have d: "a div radix_size g = int i" using h rs by (simp add: i_def pos_imp_zdiv_nonneg_iff)
    have "a div radix_size g < 2 ^ radix_length g"
      using h max_radix_split [OF assms(1)] assms(1)
      by (simp add: mask_ok_def div_lt_pow2 mult.commute)
    then have i: "i < 2 ^ radix_length g" unfolding d
      by (metis of_nat_less_iff of_nat_numeral of_nat_power)
    have "radix_hit g t v i" using h radix_hit_iff [OF assms _ d, of v] by auto
    with i have "radix_size g * int i \<in> set (hits g t v)"
      by (auto simp: hits_def radix_hits_def)
    moreover have "radix_size g * int i \<le> a" "a < radix_size g * int i + radix_size g"
      using mult_div_mod_eq [of "radix_size g" a] pos_mod_bound [OF rs, of a]
        pos_mod_sign [OF rs, of a] unfolding d by linarith+
    ultimately show "\<exists>p \<in> set (hits g t v). a \<in> {p .. p + radix_size g - 1}" by force
  qed
  have "set (enumeration g t v) = {a. \<exists>p \<in> set (hits g t v). a \<in> {p .. p + radix_size g - 1}}
      \<union> set (elems (sel g v True) t ?m)"
    by (auto simp: enumeration_def)
  also have "\<dots> = ?S"
    using mem set_elems [OF assms(2)] by (auto simp: leaf_sel_def sel_def)
  finally show ?thesis .
qed

lemma distinct_hits: "mask_ok g \<Longrightarrow> distinct (hits g t v)"
  using radix_size_pos [of g]
  by (auto simp: hits_def radix_hits_def distinct_map inj_on_def)

lemma hits_multiple: "p \<in> set (hits g t v) \<Longrightarrow> \<exists>i. p = radix_size g * int i"
  by (auto simp: hits_def radix_hits_def)

lemma distinct_blocks:
  assumes "mask_ok g"
  shows "distinct (concat (map (\<lambda>p. [p .. p + radix_size g - 1]) (hits g t v)))"
proof (rule distinct_concat)
  have rs: "0 < radix_size g" using assms by (rule radix_size_pos)
  have ne: "[p .. p + radix_size g - 1] = [q .. q + radix_size g - 1] \<Longrightarrow> p = q" for p q
    using rs by (simp add: upto_rec1)
  show "distinct (map (\<lambda>p. [p .. p + radix_size g - 1]) (hits g t v))"
    using distinct_hits [OF assms] ne by (auto simp: distinct_map inj_on_def)
  fix ys zs
  assume "ys \<in> set (map (\<lambda>p. [p .. p + radix_size g - 1]) (hits g t v))"
    and "zs \<in> set (map (\<lambda>p. [p .. p + radix_size g - 1]) (hits g t v))" and "ys \<noteq> zs"
  then obtain p p' where pq: "p \<in> set (hits g t v)" "p' \<in> set (hits g t v)" "p \<noteq> p'"
    and yz: "ys = [p .. p + radix_size g - 1]" "zs = [p' .. p' + radix_size g - 1]"
    by auto
  obtain i j where ij: "p = radix_size g * int i" "p' = radix_size g * int j"
    using hits_multiple pq by blast
  then have "i \<noteq> j" using pq(3) by auto
  note y = yz(1) [unfolded ij(1)] and z = yz(2) [unfolded ij(2)]
  have q: "a div radix_size g = int k"
    if "a \<in> {radix_size g * int k .. radix_size g * int k + radix_size g - 1}" for a k
    using that by (intro int_div_pos_eq [of _ _ _ "a - radix_size g * int k"]) auto
  show "set ys \<inter> set zs = {}"
  proof (rule equals0I)
    fix a assume "a \<in> set ys \<inter> set zs"
    then have "a div radix_size g = int i" "a div radix_size g = int j"
      using q unfolding y z by auto
    with \<open>i \<noteq> j\<close> show False by simp
  qed
qed auto

lemma distinct_enumeration:
  assumes "mask_ok g" "fits t (max_prefix_len g)"
  shows "distinct (enumeration g t v)"
proof -
  have "set (concat (map (\<lambda>p. [p .. p + radix_size g - 1]) (hits g t v)))
      \<inter> set (elems (sel g v True) t (max_prefix_len g)) = {}"
  proof -
    { fix a p assume "p \<in> set (hits g t v)" "p \<le> a" "a \<le> p + radix_size g - 1"
        and el: "a \<in> set (elems (sel g v True) t (max_prefix_len g))"
      then obtain i where i: "radix_hit g t v i" and p: "p = radix_size g * int i"
        by (auto simp: hits_def radix_hits_def)
      then have d: "a div radix_size g = int i"
        using \<open>p \<le> a\<close> \<open>a \<le> p + radix_size g - 1\<close>
        by (intro int_div_pos_eq [of _ _ _ "a - radix_size g * int i"]) auto
      have "0 \<le> a" "sel g v True (fst (leaf_at t (max_prefix_len g) a))
          (snd (leaf_at t (max_prefix_len g) a))"
        using el set_elems [OF assms(2)] by (auto simp: leaf_sel_def)
      with radix_hit_iff [OF assms _ d, of v] i have False by (auto simp: sel_def) }
    then show ?thesis by auto
  qed
  then show ?thesis
    using distinct_blocks [OF assms(1)] distinct_elems [OF assms(2)]
    by (simp add: enumeration_def)
qed

section \<open>The operations against the specification\<close>

definition paint_ok :: "ipvx_mask \<Rightarrow> constraint_t \<Rightarrow> bool" where
  "paint_ok g con \<longleftrightarrow>
     counted (sel g (paint_value con) True) (root con) (max_prefix_len g)
     \<and> radix_len con = length (hits g (root con) (paint_value con))
     \<and> take (radix_len con) (radix con) = hits g (root con) (paint_value con)"

text \<open>The invariant of the component: what \<open>constraint_init\<close> establishes and every operation keeps.\<close>

definition con_inv :: "ipvx_mask \<Rightarrow> constraint_t \<Rightarrow> bool" where
  "con_inv g con \<longleftrightarrow> mask_ok g \<and> fits (root con) (max_prefix_len g) \<and> minimal (root con)
     \<and> length (radix con) = 2 ^ radix_length g \<and> radix_len con \<le> 2 ^ radix_length g
     \<and> (painted con \<longrightarrow> paint_ok g con)"

definition preimage :: "ipvx_mask \<Rightarrow> constraint_t \<Rightarrow> mpz \<Rightarrow> mpz set" where
  "preimage g con v = {a \<in> addresses g. value_at g con a = v}"

lemma con_invD:
  assumes "con_inv g con"
  shows "mask_ok g" "fits (root con) (max_prefix_len g)" "minimal (root con)"
    "length (radix con) = 2 ^ radix_length g" "radix_len con \<le> 2 ^ radix_length g"
    "painted con \<Longrightarrow> paint_ok g con"
  using assms by (simp_all add: con_inv_def)

lemma preimage_enumeration:
  assumes "con_inv g con"
  shows "preimage g con v = set (enumeration g (root con) v)"
  using set_enumeration [OF con_invD(1) [OF assms] con_invD(2) [OF assms], of v]
  by (auto simp: preimage_def value_at_def addresses_def)

lemma card_preimage:
  "con_inv g con \<Longrightarrow> card (preimage g con v) = length (enumeration g (root con) v)"
  by (simp add: preimage_enumeration distinct_card distinct_enumeration con_invD(1,2))

lemma length_block: "mask_ok g \<Longrightarrow> length [p .. p + radix_size g - 1] = nat (radix_size g)"
  using radix_size_pos [of g] by simp

lemma length_enumeration:
  assumes "mask_ok g"
  shows "int (length (enumeration g t v)) = radix_size g * int (length (hits g t v))
    + int (length (elems (sel g v True) t (max_prefix_len g)))"
proof -
  have "length (concat (map (\<lambda>p. [p .. p + radix_size g - 1]) (hits g t v)))
      = nat (radix_size g) * length (hits g t v)"
    using length_block [OF assms] by (subst length_concat_uniform) auto
  then show ?thesis using radix_size_pos [OF assms] by (simp add: enumeration_def)
qed

lemma constraint_init_inv:
  assumes "constraint_init v n initial_mask = Inr (g, con)"
  shows "con_inv g con \<and> max_prefix_len g = n \<and> (\<forall>a. value_at g con a = v) \<and> \<not> painted con"
proof -
  from assms have g: "cal_ipvx_mask n initial_mask = Inr g"
    and con: "con = \<lparr>root = create_leaf v, radix = replicate (2 ^ radix_length g) 0,
                     radix_len = 0, painted = False, paint_value = 0\<rparr>"
    by (auto simp: constraint_init_def)
  show ?thesis using cal_ipvx_mask_ok [OF g] by (simp add: con con_inv_def value_at_def)
qed

lemma constraint_set_ok:
  assumes inv: "con_inv g con" and len: "len \<le> max_prefix_len g"
    and p: "0 \<le> p" "p < 2 ^ max_prefix_len g"
  obtains con' where "constraint_set g con p (int len) v = Inr con'" "con_inv g con'"
    "\<And>a. a \<in> addresses g \<Longrightarrow> value_at g con' a =
      (if a div 2 ^ (max_prefix_len g - len) = p div 2 ^ (max_prefix_len g - len)
       then v else value_at g con a)"
proof -
  note I = con_invD [OF inv]
  let ?con' = "con\<lparr>root := set_recurse g (root con) p len v, painted := False\<rparr>"
  have "constraint_set g con p (int len) v = Inr ?con'"
    using len by (simp add: constraint_set_def)
  moreover have "con_inv g ?con'"
    using I len by (simp add: con_inv_def set_recurse_fits set_recurse_minimal)
  moreover have "value_at g ?con' a =
      (if a div 2 ^ (max_prefix_len g - len) = p div 2 ^ (max_prefix_len g - len)
       then v else value_at g con a)" if "a \<in> addresses g" for a
    using set_recurse_leaf_at [OF I(1,2) len order_refl, of p v a]
      prefix_match_div [OF len _ _ p, of a] that
    by (simp add: value_at_def addresses_def)
  ultimately show ?thesis by (rule that)
qed

lemma constraint_lookup_value_at:
  "con_inv g con \<Longrightarrow> constraint_lookup_ipvx_for_value g con a = value_at g con a"
  using lookup_ipvx_leaf_at [OF con_invD(2)] con_invD(1)
  by (simp add: constraint_lookup_ipvx_for_value_def value_at_def mask_ok_def)

lemma constraint_count_card:
  assumes "con_inv g con"
  shows "constraint_count_ipvx_of_value g con v = int (card (preimage g con v))"
proof (cases "painted con \<and> paint_value con = v")
  case True
  then have "paint_ok g con" using con_invD(6) [OF assms] by simp
  with True show ?thesis
    using length_enumeration [OF con_invD(1) [OF assms], of "root con" v]
      counted_ncount [of "sel g v True" "root con" "max_prefix_len g"]
    by (simp add: constraint_count_ipvx_of_value_def paint_ok_def card_preimage [OF assms])
next
  case False
  note I = con_invD [OF assms]
  have "set (elems (sel g v False) (root con) (max_prefix_len g)) = preimage g con v"
    by (auto simp: set_elems [OF I(2)] preimage_def addresses_def value_at_def leaf_sel_def sel_def)
  then have "card (preimage g con v) = length (elems (sel g v False) (root con) (max_prefix_len g))"
    using distinct_card [OF distinct_elems [OF I(2)]] by metis
  moreover have "max_index g = 2 ^ max_prefix_len g" using I(1) by (simp add: mask_ok_def)
  moreover have "\<not> (painted con \<and> mpz_eq (paint_value con) v)" using False by simp
  ultimately show ?thesis
    using count_ipvx_recurse_count [OF I(1,2), of v False False]
    unfolding constraint_count_ipvx_of_value_def by (subst if_not_P) simp_all
qed

lemma constraint_paint_ok:
  assumes "con_inv g con"
  obtains con' where "constraint_paint_value g con v = Inr con'" "con_inv g con'"
    "painted con'" "paint_value con' = v" "\<And>a. value_at g con' a = value_at g con a"
proof -
  note I = con_invD [OF assms]
  let ?t = "snd (count_ipvx_recurse g (root con) v (max_index g) True True)"
  let ?H = "hits g ?t v"
  let ?con' = "con\<lparr>root := ?t, radix := ?H @ drop (length ?H) (radix con),
    radix_len := length ?H, painted := True, paint_value := v\<rparr>"
  have mx: "max_index g = 2 ^ max_prefix_len g" and rl: "radix_length g \<le> max_prefix_len g"
    using I(1) by (simp_all add: mask_ok_def)
  have "constraint_paint_value g con v = Inr ?con'"
    using rl I(4) fold_radix_round [of 0 "[0 ..< 2 ^ radix_length g]" "radix con" g ?t v]
    by (simp add: constraint_paint_value_def hits_def Let_def)
  moreover have "paint_ok g ?con'"
    using count_ipvx_recurse_counted [OF I(1,2), of v True] by (simp add: paint_ok_def mx)
  then have "con_inv g ?con'"
    using I count_ipvx_recurse_tree(2) [OF I(2)] length_hits
    by (simp add: con_inv_def count_ipvx_recurse_minimal)
  moreover have "value_at g ?con' a = value_at g con a" for a
    by (simp add: value_at_def count_ipvx_recurse_tree(1) [OF I(2)])
  ultimately show ?thesis by (intro that [of ?con']) simp_all
qed

text \<open>The value of every index below the count, on a painted constraint.\<close>

lemma lookup_index_painted:
  assumes inv: "con_inv g con" and p: "painted con" "paint_value con = v"
    and i: "0 \<le> i" "i < int (length (enumeration g (root con) v))"
  shows "constraint_lookup_index_for_ipvx g con i v
           = Inr (enumeration g (root con) v ! nat i, con)"
proof -
  note I = con_invD [OF inv]
  let ?H = "hits g (root con) v" and ?E = "elems (sel g v True) (root con) (max_prefix_len g)"
  let ?rs = "radix_size g"
  let ?B = "map (\<lambda>p. [p .. p + ?rs - 1]) ?H"
  have ok: "paint_ok g con" using I(6) p by simp
  have len: "radix_len con = length ?H" and rad: "take (length ?H) (radix con) = ?H"
    using ok p by (auto simp: paint_ok_def)
  have rs: "0 < ?rs" using I(1) by (rule radix_size_pos)
  have L: "\<forall>b \<in> set ?B. length b = nat ?rs" using length_block [OF I(1)] by auto
  have cat: "length (concat ?B) = nat ?rs * length ?H"
    using length_concat_uniform [OF L] by simp
  show ?thesis
  proof (cases "i div ?rs < int (length ?H)")
    case True
    let ?j = "nat (i div ?rs)"
    have j: "?j < length ?H" "0 \<le> i div ?rs"
      using True i(1) rs by (auto simp: pos_imp_zdiv_nonneg_iff nat_less_iff)
    have ui: "nat (mpz_get_ui (i div ?rs)) = ?j"
    proof -
      have "int (length ?H) \<le> 2 ^ radix_length g"
        using length_hits [of g "root con" v] by (metis of_nat_le_iff of_nat_numeral of_nat_power)
      also have "(2::int) ^ radix_length g < 2 ^ 64"
        using I(1) by (intro power_strict_increasing) (simp_all add: mask_ok_def)
      finally have "i div ?rs < 2 ^ 64" using True by linarith
      with j(2) show ?thesis by simp
    qed
    have rj: "radix con ! ?j = ?H ! ?j"
      using j(1) rad by (metis nth_take)
    have jl: "?j < length (radix con)" unfolding I(4) using j(1) len I(5) by linarith
    obtain k where k: "?H ! ?j = ?rs * int k" using hits_multiple j(1) nth_mem by blast
    have m: "0 \<le> i mod ?rs" "i mod ?rs < ?rs" using rs by simp_all
    have blk: "?rs = 2 ^ (max_prefix_len g - radix_length g)" using I(1) by (simp add: mask_ok_def)
    have "?H ! ?j OR i mod ?rs = ?H ! ?j + i mod ?rs"
      using or_disjoint_add [of "i mod ?rs" "max_prefix_len g - radix_length g" "int k"] m
      unfolding k by (simp add: blk mult.commute)
    moreover have "enumeration g (root con) v ! nat i = ?H ! ?j + i mod ?rs"
    proof -
      have nm: "nat i div nat ?rs = ?j" "nat i mod nat ?rs = nat (i mod ?rs)"
        using i(1) rs by (simp_all add: nat_div_distrib nat_mod_distrib)
      have lt: "nat i < nat ?rs * length ?H"
      proof -
        have "nat i div nat ?rs < length ?H" using nm j(1) by simp
        then show ?thesis using rs by (simp add: div_less_iff_less_mult mult.commute)
      qed
      then have "enumeration g (root con) v ! nat i = concat ?B ! nat i"
        by (simp add: enumeration_def nth_append cat)
      also have "\<dots> = ?B ! ?j ! nat (i mod ?rs)"
        using nth_concat_uniform [OF L _ , of "nat i"] lt rs nm by simp
      also have "\<dots> = ?H ! ?j + i mod ?rs" using j(1) m by (simp add: nth_upto)
      finally show ?thesis .
    qed
    ultimately show ?thesis
      using p True jl by (simp add: constraint_lookup_index_for_ipvx_def len ui rj)
  next
    case False
    let ?n = "i - ?rs * int (length ?H)"
    have "?rs * int (length ?H) \<le> ?rs * (i div ?rs)" using False rs by (simp add: mult_left_mono)
    also have "\<dots> \<le> i" using mult_div_mod_eq [of ?rs i] pos_mod_sign [OF rs, of i] by linarith
    finally have n0: "0 \<le> ?n" by simp
    have cnt: "counted (sel g v True) (root con) (max_prefix_len g)" using ok p by (simp add: paint_ok_def)
    have n1: "?n < ncount (root con)"
      using i(2) length_enumeration [OF I(1), of "root con" v] counted_ncount [OF cnt] by simp
    have "lookup_index (root con) (0 * 2 ^ max_prefix_len g) ?n (half_index g)
        = 0 * 2 ^ max_prefix_len g + ?E ! nat ?n"
      by (rule lookup_index_elems [OF cnt I(2) n0 n1]) (use I(1) in \<open>simp add: mask_ok_def\<close>)
    moreover have "enumeration g (root con) v ! nat i = ?E ! nat ?n"
    proof -
      have eq: "int (nat ?rs * length ?H) = ?rs * int (length ?H)" using rs by simp
      then have "\<not> nat i < nat ?rs * length ?H" using n0 by linarith
      moreover have "nat i - nat ?rs * length ?H = nat ?n" using n0 eq i(1) by linarith
      ultimately show ?thesis by (simp add: enumeration_def nth_append cat)
    qed
    ultimately show ?thesis
      using p False n1 by (simp add: constraint_lookup_index_for_ipvx_def len)
  qed
qed

lemma lookup_index_out_of_range:
  assumes inv: "con_inv g con" and p: "painted con" "paint_value con = v"
    and i: "int (length (enumeration g (root con) v)) \<le> i"
  shows "constraint_lookup_index_for_ipvx g con i v = Inl Assert_failed"
proof -
  note I = con_invD [OF inv]
  let ?H = "hits g (root con) v"
  have ok: "paint_ok g con" using I(6) p by simp
  then have len: "radix_len con = length ?H"
    and cnt: "counted (sel g v True) (root con) (max_prefix_len g)"
    using p by (auto simp: paint_ok_def)
  have total: "int (length (enumeration g (root con) v)) =
      radix_size g * int (length ?H) + ncount (root con)"
    using length_enumeration [OF I(1)] counted_ncount [OF cnt] by simp
  have rs: "0 < radix_size g" using I(1) by (rule radix_size_pos)
  have "radix_size g * int (length ?H) \<le> i"
    using i total counted_ncount [OF cnt] by linarith
  then have "int (length ?H) \<le> i div radix_size g"
    using rs zdiv_mono1 [of "radix_size g * int (length ?H)" i "radix_size g"] by simp
  moreover have "ncount (root con) \<le> i - radix_size g * int (length ?H)" using i total by linarith
  ultimately show ?thesis using p by (simp add: constraint_lookup_index_for_ipvx_def len)
qed

text \<open>Any lookup by index first paints its value, when it is not the painted one.\<close>

definition repaint :: "ipvx_mask \<Rightarrow> constraint_t \<Rightarrow> mpz \<Rightarrow> constraint_t outcome" where
  "repaint g con v =
     (if \<not> painted con \<or> paint_value con \<noteq> v then constraint_paint_value g con v else Inr con)"

lemma repaint_ok:
  assumes "con_inv g con"
  obtains con' where "repaint g con v = Inr con'" "con_inv g con'" "painted con'"
    "paint_value con' = v" "\<And>a. value_at g con' a = value_at g con a"
    "\<And>i. constraint_lookup_index_for_ipvx g con i v = constraint_lookup_index_for_ipvx g con' i v"
proof (cases "painted con \<and> paint_value con = v")
  case True
  then show ?thesis using assms by (intro that [of con]) (auto simp: repaint_def)
next
  case False
  obtain con' where c: "constraint_paint_value g con v = Inr con'" "con_inv g con'"
    "painted con'" "paint_value con' = v" "\<And>a. value_at g con' a = value_at g con a"
    using constraint_paint_ok [OF assms] by blast
  have "(if \<not> painted con \<or> mpz_ne (paint_value con) v
      then constraint_paint_value g con v else Inr con) = Inr con'" using False c(1) by auto
  moreover have "(if \<not> painted con' \<or> mpz_ne (paint_value con') v
      then constraint_paint_value g con' v else Inr con') = Inr con'" using c(3,4) by simp
  ultimately have "constraint_lookup_index_for_ipvx g con i v
      = constraint_lookup_index_for_ipvx g con' i v" for i
    unfolding constraint_lookup_index_for_ipvx_def by (simp only:)
  then show ?thesis using False c by (intro that [of con']) (auto simp: repaint_def)
qed

lemma preimage_cong:
  "(\<And>a. value_at g con' a = value_at g con a) \<Longrightarrow> preimage g con' v = preimage g con v"
  by (simp add: preimage_def)

lemma painted_lookup_state:
  "painted con \<Longrightarrow> paint_value con = v \<Longrightarrow>
   constraint_lookup_index_for_ipvx g con i v = Inr (a, con') \<Longrightarrow> con' = con"
  by (auto simp: constraint_lookup_index_for_ipvx_def Let_def split: if_splits)

text \<open>The laws of the painted address space hold of the constraint module.\<close>

interpretation con: painted_space "max_prefix_len g" "con_inv g" "value_at g"
  "constraint_set g" "constraint_count_ipvx_of_value g" "constraint_lookup_index_for_ipvx g" for g
proof (unfold_locales, goal_cases)
  case (1 c p len v)
  then obtain c' where "constraint_set g c p (int len) v = Inr c'" "con_inv g c'"
    "\<And>a. a \<in> addresses g \<Longrightarrow> value_at g c' a =
      (if a div 2 ^ (max_prefix_len g - len) = p div 2 ^ (max_prefix_len g - len)
       then v else value_at g c a)"
    using constraint_set_ok [of g c len p v] by (auto simp: entry_ok_def)
  then show ?case by (intro exI [of _ c']) (simp add: covers_def addresses_def)
next
  case (2 c v)
  have "preimage g c v = {a. 0 \<le> a \<and> a < 2 ^ max_prefix_len g \<and> value_at g c a = v}"
    by (auto simp: preimage_def addresses_def)
  with 2 show ?case by (simp add: constraint_count_card)
next
  case (3 c i v)
  obtain c' where c: "con_inv g c'" "painted c'" "paint_value c' = v"
    "\<And>a. value_at g c' a = value_at g c a"
    "\<And>i. constraint_lookup_index_for_ipvx g c i v = constraint_lookup_index_for_ipvx g c' i v"
    using repaint_ok [OF 3(1)] by blast
  have len: "i < int (length (enumeration g (root c') v))"
    using 3 constraint_count_card card_preimage [OF c(1)] preimage_cong [OF c(4)] by simp
  have e: "constraint_lookup_index_for_ipvx g c i v = Inr (enumeration g (root c') v ! nat i, c')"
    using lookup_index_painted [OF c(1-3) 3(2) len] c(5) by simp
  have "enumeration g (root c') v ! nat i \<in> preimage g c v"
    using len 3(2) preimage_enumeration [OF c(1)] preimage_cong [OF c(4)] by (simp add: nat_less_iff)
  with e show ?case by (auto simp: preimage_def addresses_def)
next
  case (4 c i v j a c1 c2)
  obtain c' where c: "con_inv g c'" "painted c'" "paint_value c' = v"
    "\<And>a. value_at g c' a = value_at g c a"
    "\<And>i. constraint_lookup_index_for_ipvx g c i v = constraint_lookup_index_for_ipvx g c' i v"
    using repaint_ok [OF 4(1)] by blast
  let ?E = "enumeration g (root c') v"
  have len: "i < int (length ?E)" "j < int (length ?E)"
    using 4 constraint_count_card card_preimage [OF c(1)] preimage_cong [OF c(4)] by simp_all
  have "?E ! nat i = a"
    using lookup_index_painted [OF c(1-3) 4(2) len(1)] c(5) [of i] 4(6) by simp
  moreover have "?E ! nat j = a"
    using lookup_index_painted [OF c(1-3) 4(4) len(2)] c(5) [of j] 4(7) by simp
  ultimately show ?case
    using distinct_enumeration [OF con_invD(1,2) [OF c(1)], of v] len 4(2,4)
    by (auto simp: nth_eq_iff_index_eq nat_less_iff)
next
  case (5 c i v a c1)
  obtain c' where c: "con_inv g c'" "painted c'" "paint_value c' = v"
    "\<And>a. value_at g c' a = value_at g c a"
    "\<And>i. constraint_lookup_index_for_ipvx g c i v = constraint_lookup_index_for_ipvx g c' i v"
    using repaint_ok [OF 5(1)] by blast
  then have "c1 = c'" using painted_lookup_state [OF c(2,3)] 5(2) by auto
  with c show ?case by auto
qed

section \<open>Properties\<close>

text \<open>A small constraint over four address bits with two radix bits, for the witnesses.\<close>

definition ex_mask :: ipvx_mask where
  "ex_mask = \<lparr>max_prefix_len = 4, radix_length = 2, mask_flag = True,
     half_index = 8, max_index = 16, radix_size = 4\<rparr>"

definition ex_con :: constraint_t where
  "ex_con = \<lparr>root = Inner (Leaf 0 0)
       (Inner (Leaf 1 0) (Inner (Leaf 0 0) (Leaf 1 0) 0 0) 0 0) 0 0,
     radix = [0, 0, 0, 0], radix_len = 0, painted = False, paint_value = 0\<rparr>"

lemma ex_con_inv: "con_inv ex_mask ex_con"
  by (simp add: con_inv_def mask_ok_def ex_mask_def ex_con_def)

text \<open>
  C4: Setting a value for a network prefix always returns, keeps the tree
  within the address length and free of collapsible nodes, and afterwards the lookup of an address
  gives the new value exactly when the address has the prefix, and the old value otherwise.
\<close>

theorem constraint_set_overwrites:
  assumes "con_inv g con" "len \<le> max_prefix_len g" "p \<in> addresses g"
  shows "\<exists>con'. constraint_set g con p (int len) v = Inr con' \<and> con_inv g con'
    \<and> (\<forall>a \<in> addresses g. constraint_lookup_ipvx_for_value g con' a =
         (if a div 2 ^ (max_prefix_len g - len) = p div 2 ^ (max_prefix_len g - len)
          then v else constraint_lookup_ipvx_for_value g con a))"
proof -
  from assms(3) have p: "0 \<le> p" "p < 2 ^ max_prefix_len g" by (auto simp: addresses_def)
  obtain con' where c: "constraint_set g con p (int len) v = Inr con'" "con_inv g con'"
    "\<And>a. a \<in> addresses g \<Longrightarrow> value_at g con' a =
      (if a div 2 ^ (max_prefix_len g - len) = p div 2 ^ (max_prefix_len g - len)
       then v else value_at g con a)"
    using constraint_set_ok [OF assms(1,2) p] by metis
  then show ?thesis
    using assms(1) by (intro exI [of _ con']) (simp add: constraint_lookup_value_at)
qed

theorem constraint_set_overwrites_witness:
  "\<exists>con'. constraint_set ex_mask ex_con 4 2 7 = Inr con'
    \<and> constraint_lookup_ipvx_for_value ex_mask con' 5 = 7
    \<and> constraint_lookup_ipvx_for_value ex_mask con' 9 = 1"
proof -
  have "2 \<le> max_prefix_len ex_mask" "4 \<in> addresses ex_mask" "5 \<in> addresses ex_mask"
    "9 \<in> addresses ex_mask" by (simp_all add: ex_mask_def addresses_def)
  with constraint_set_overwrites [OF ex_con_inv, of 2 4 7] show ?thesis
    by (fastforce simp: ex_mask_def constraint_lookup_ipvx_for_value_def ex_con_def)
qed

text \<open>
  C5: Starting from \<open>constraint_init\<close> with a default value, setting any
  list of prefixes in order never fails, and the value of an address is the one of the last entry
  that covers it, or the default: only the top colour shows.
\<close>

theorem constraint_last_match_wins:
  assumes "0 < n" "\<forall>e \<in> set entries. entry_ok n e"
  shows "\<exists>g con con'. constraint_init d n initial_mask = Inr (g, con)
    \<and> paint_all (constraint_set g) entries con = Inr con'
    \<and> (\<forall>a. 0 \<le> a \<and> a < 2 ^ n \<longrightarrow>
         constraint_lookup_ipvx_for_value g con' a = last_match n entries d a)"
proof -
  obtain g con where i: "constraint_init d n initial_mask = Inr (g, con)"
    using assms(1) by (auto simp: constraint_init_def cal_ipvx_mask_def initial_mask_def Let_def)
  have I: "con_inv g con" "max_prefix_len g = n" "\<And>a. value_at g con a = d"
    using constraint_init_inv [OF i] by auto
  obtain con' where "paint_all (constraint_set g) entries con = Inr con'" "con_inv g con'"
    "\<And>a. 0 \<le> a \<Longrightarrow> a < 2 ^ n \<Longrightarrow> value_at g con' a = last_match n entries d a"
    using con.paint_all_last_match [of g con entries] I assms(2) by auto
  with i show ?thesis
    by (intro exI [of _ g] exI [of _ con] exI [of _ con']) (simp add: constraint_lookup_value_at)
qed

theorem constraint_last_match_wins_witness:
  "\<exists>g con con'. constraint_init 0 4 initial_mask = Inr (g, con)
    \<and> paint_all (constraint_set g) [(8, 1, 1), (12, 3, 0)] con = Inr con'
    \<and> constraint_lookup_ipvx_for_value g con' 9 = 1
    \<and> constraint_lookup_ipvx_for_value g con' 13 = 0
    \<and> constraint_lookup_ipvx_for_value g con' 3 = 0"
proof -
  obtain g con con' where
    "constraint_init 0 4 initial_mask = Inr (g, con)"
    "paint_all (constraint_set g) [(8, 1, 1), (12, 3, 0)] con = Inr con'"
    "\<And>a. 0 \<le> a \<and> a < 2 ^ 4 \<longrightarrow> constraint_lookup_ipvx_for_value g con' a
       = last_match 4 [(8, 1, 1), (12, 3, 0)] 0 a"
    using constraint_last_match_wins [of 4 "[(8, 1, 1), (12, 3, 0)]" 0]
    by (auto simp: entry_ok_def)
  then show ?thesis
    by (intro exI [of _ g] exI [of _ con] exI [of _ con']) (simp add: covers_def)
qed

text \<open>
  C6: The number reported for a value is the number of addresses whose
  lookup gives that value, whether it is computed from the tree or from the painted counts and the
  radix array.
\<close>

theorem constraint_count_is_card:
  assumes "con_inv g con"
  shows "constraint_count_ipvx_of_value g con v =
    int (card {a \<in> addresses g. constraint_lookup_ipvx_for_value g con a = v})"
  using constraint_count_card [OF assms] constraint_lookup_value_at [OF assms]
  by (simp add: preimage_def)

theorem constraint_count_is_card_witness:
  "int (card {a \<in> addresses ex_mask. constraint_lookup_ipvx_for_value ex_mask ex_con a = 1}) = 6"
  using constraint_count_is_card [OF ex_con_inv, of 1]
  by (simp add: constraint_count_ipvx_of_value_def ex_con_def ex_mask_def Let_def)

text \<open>
  C7: For any value, looking up the indices from 0 up to the count
  returns every address of that value exactly once, through the radix array and the painted tree
  alike.
\<close>

theorem constraint_index_enumerates:
  assumes "con_inv g con"
  shows "bij_betw
    (\<lambda>i. case constraint_lookup_index_for_ipvx g con i v of Inr (a, _) \<Rightarrow> a | Inl _ \<Rightarrow> -1)
    {0 ..< constraint_count_ipvx_of_value g con v}
    {a \<in> addresses g. constraint_lookup_ipvx_for_value g con a = v}"
proof -
  have "{a \<in> addresses g. constraint_lookup_ipvx_for_value g con a = v}
      = {a. 0 \<le> a \<and> a < 2 ^ max_prefix_len g \<and> value_at g con a = v}"
    using constraint_lookup_value_at [OF assms] by (auto simp: addresses_def)
  then show ?thesis using con.pick_bij [OF assms, of v] by simp
qed

theorem constraint_index_enumerates_witness:
  "bij_betw
    (\<lambda>i. case constraint_lookup_index_for_ipvx ex_mask ex_con i 1 of Inr (a, _) \<Rightarrow> a | Inl _ \<Rightarrow> -1)
    {0 ..< 6} {a \<in> addresses ex_mask. constraint_lookup_ipvx_for_value ex_mask ex_con a = 1}"
proof -
  have "constraint_count_ipvx_of_value ex_mask ex_con 1 = 6"
    by (simp add: constraint_count_ipvx_of_value_def ex_con_def ex_mask_def Let_def)
  then show ?thesis using constraint_index_enumerates [OF ex_con_inv, of 1] by simp
qed

text \<open>
  C8: An index at or past the count ends in the assertion of
  \<open>constraint_lookup_index_for_ipvx\<close>, never in an address, and no index in range fails.
\<close>

theorem constraint_index_bounds:
  assumes "con_inv g con" "0 \<le> i"
  shows "if i < constraint_count_ipvx_of_value g con v
    then \<exists>a con'. constraint_lookup_index_for_ipvx g con i v = Inr (a, con') \<and> a \<in> addresses g
    else constraint_lookup_index_for_ipvx g con i v = Inl Assert_failed"
proof -
  obtain c' where c: "con_inv g c'" "painted c'" "paint_value c' = v"
    "\<And>a. value_at g c' a = value_at g con a"
    "\<And>i. constraint_lookup_index_for_ipvx g con i v = constraint_lookup_index_for_ipvx g c' i v"
    using repaint_ok [OF assms(1)] by blast
  have n: "constraint_count_ipvx_of_value g con v = int (length (enumeration g (root c') v))"
    using constraint_count_card [OF assms(1)] card_preimage [OF c(1)] preimage_cong [OF c(4)] by simp
  then have "constraint_lookup_index_for_ipvx g con i v = Inl Assert_failed"
    if "\<not> i < constraint_count_ipvx_of_value g con v"
    using lookup_index_out_of_range [OF c(1-3), of i] that c(5) by simp
  then show ?thesis using con.pick_total [OF assms, of v] by (auto simp: addresses_def)
qed

theorem constraint_index_bounds_witness:
  "constraint_lookup_index_for_ipvx ex_mask ex_con 6 1 = Inl Assert_failed"
proof -
  have "constraint_count_ipvx_of_value ex_mask ex_con 1 = 6"
    by (simp add: constraint_count_ipvx_of_value_def ex_con_def ex_mask_def Let_def)
  then show ?thesis using constraint_index_bounds [OF ex_con_inv, of 6 1] by simp
qed

text \<open>
  The enumeration does not follow the numerical order of the addresses,
  against the comment of \<open>constraint_lookup_index_for_ipvx\<close>: a block of the radix size comes before
  smaller blocks with lower addresses. Here the addresses 1 and 4 to 7 are painted, and index 0 is
  address 4.
\<close>

definition ex_con_order :: constraint_t where
  "ex_con_order = \<lparr>root = Inner (Inner
       (Inner (Inner (Leaf 0 0) (Leaf 1 0) 0 0) (Leaf 0 0) 0 0) (Leaf 1 0) 0 0) (Leaf 0 0) 0 0,
     radix = [0, 0, 0, 0], radix_len = 0, painted = False, paint_value = 0\<rparr>"

lemma constraint_index_order:
  "con_inv ex_mask ex_con_order
   \<and> constraint_lookup_ipvx_for_value ex_mask ex_con_order 1 = 1
   \<and> map_sum id fst (constraint_lookup_index_for_ipvx ex_mask ex_con_order 0 1) = Inr 4
   \<and> map_sum id fst (constraint_lookup_index_for_ipvx ex_mask ex_con_order 4 1) = Inr 1"
proof -
  have "[0 ..< 2 ^ radix_length ex_mask] = [0, 1, 2, 3]" by (simp add: ex_mask_def upt_rec)
  then show ?thesis
    by (simp add: con_inv_def mask_ok_def ex_mask_def ex_con_order_def
        constraint_lookup_ipvx_for_value_def constraint_lookup_index_for_ipvx_def
        constraint_paint_value_def radix_round_def Let_def bind_out_def numeral_eq_Suc)
qed

end
