(* ===== verification/C_Lib.thy ===== *)
theory C_Lib
  imports HMap_Prelude
begin

text \<open>
  The functions of the C standard library that the modelled code calls on strings: \<open>isspace\<close>,
  \<open>strtol\<close> in base 10, \<open>fgets\<close> over the contents of a file, and \<open>sscanf\<close> with a bounded \<open>%s\<close>.
  \<open>long\<close> has 64 bits and \<open>int\<close> has 32, as on the platforms the project builds on.
\<close>

section \<open>Characters\<close>

definition c_isspace :: "char \<Rightarrow> bool" where
  "c_isspace c \<longleftrightarrow> of_char c \<in> {9 :: nat, 10, 11, 12, 13, 32}"

definition c_isdigit :: "char \<Rightarrow> bool" where
  "c_isdigit c \<longleftrightarrow> (48 :: nat) \<le> of_char c \<and> of_char c \<le> (57 :: nat)"

definition digit_value :: "char \<Rightarrow> int" where
  "digit_value c = int (of_char c) - 48"

lemma digit_value_chars [simp]:
  "digit_value (CHR ''0'') = 0" "digit_value (CHR ''1'') = 1" "digit_value (CHR ''2'') = 2"
  "digit_value (CHR ''3'') = 3" "digit_value (CHR ''4'') = 4" "digit_value (CHR ''5'') = 5"
  "digit_value (CHR ''6'') = 6" "digit_value (CHR ''7'') = 7" "digit_value (CHR ''8'') = 8"
  "digit_value (CHR ''9'') = 9"
  by (simp_all add: digit_value_def)

definition nul :: char where
  "nul = char_of (0 :: nat)"

definition newline :: char where
  "newline = char_of (10 :: nat)"

section \<open>Numbers\<close>

definition long_max :: int where "long_max = 2 ^ 63 - 1"
definition long_min :: int where "long_min = - (2 ^ 63)"

text \<open>The conversion of an integer to a 32-bit \<open>int\<close>.\<close>

definition to_int32 :: "int \<Rightarrow> int" where
  "to_int32 x = sint (word_of_int x :: 32 word)"

lemma to_int32_id: "- (2 ^ 31) \<le> x \<Longrightarrow> x < 2 ^ 31 \<Longrightarrow> to_int32 x = x"
  by (simp add: to_int32_def signed_of_int signed_take_bit_int_eq_self)

fun digits_value :: "int \<Rightarrow> string \<Rightarrow> int" where
  "digits_value acc [] = acc"
| "digits_value acc (c # cs) = digits_value (10 * acc + digit_value c) cs"

text \<open>
  \<open>strtol (s, &end, 10)\<close> as (value, whether \<open>end == s\<close>, whether \<open>errno\<close> is set, the rest at \<open>end\<close>).
\<close>

definition strtol10 :: "string \<Rightarrow> int \<times> bool \<times> bool \<times> string" where
  "strtol10 s =
     (let s1 = dropWhile c_isspace s;
          (neg, s2) = (case s1 of c # cs \<Rightarrow> if c = CHR ''-'' then (True, cs)
                                   else if c = CHR ''+'' then (False, cs) else (False, s1)
                       | [] \<Rightarrow> (False, s1));
          ds = takeWhile c_isdigit s2; rest = dropWhile c_isdigit s2
      in if ds = [] then (0, True, False, s)
         else let v = (if neg then - digits_value 0 ds else digits_value 0 ds)
              in if v > long_max then (long_max, False, True, rest)
                 else if v < long_min then (long_min, False, True, rest)
                 else (v, False, False, rest))"

section \<open>Reading lines and words\<close>

text \<open>
  The successive results of \<open>fgets (line, n + 1, fp)\<close>: at most \<open>n\<close> characters each, up to and with
  the first newline.
\<close>

definition fgets_one :: "nat \<Rightarrow> string \<Rightarrow> string \<times> string" where
  "fgets_one n s =
     (let l = takeWhile (\<lambda>c. c \<noteq> newline) (take n s); k = length l
      in if k < n \<and> k < length s then (take (Suc k) s, drop (Suc k) s)
         else (take k s, drop k s))"

lemma fgets_one_shorter: "s \<noteq> [] \<Longrightarrow> 0 < n \<Longrightarrow> length (snd (fgets_one n s)) < length s"
proof -
  assume s: "s \<noteq> []" and n: "0 < n"
  let ?l = "takeWhile (\<lambda>c. c \<noteq> newline) (take n s)"
  have "\<not> (length ?l < n \<and> length ?l < length s) \<Longrightarrow> 0 < length ?l"
    using s n by auto
  then show ?thesis using s by (auto simp: fgets_one_def Let_def)
qed

function fgets_lines :: "nat \<Rightarrow> string \<Rightarrow> string list" where
  "fgets_lines n s =
     (if s = [] \<or> n = 0 then []
      else case fgets_one n s of (l, rest) \<Rightarrow> l # fgets_lines n rest)"
  by pat_completeness auto
termination
  by (relation "measure (\<lambda>(n, s). length s)")
    (auto, metis fgets_one_shorter neq0_conv snd_conv)

declare fgets_lines.simps [simp del]

text \<open>\<open>sscanf (s, "%256s", buf)\<close>: the first word, cut at 256 characters; \<open>None\<close> is \<open>EOF\<close>.\<close>

definition sscanf_word :: "nat \<Rightarrow> string \<Rightarrow> string option" where
  "sscanf_word n s =
     (let w = takeWhile (\<lambda>c. \<not> c_isspace c) (dropWhile c_isspace s)
      in if w = [] then None else Some (take n w))"

section \<open>Decimal text\<close>

text \<open>The decimal digits that \<open>printf ("%d")\<close> writes for a number, and what \<open>strtol\<close> reads back.\<close>

fun show_dec :: "nat \<Rightarrow> string" where
  "show_dec n = (if n < 10 then [char_of (48 + n)] else show_dec (n div 10) @ [char_of (48 + n mod 10)])"

declare show_dec.simps [simp del]

lemma digits_value_snoc: "digits_value acc (xs @ [c]) = 10 * digits_value acc xs + digit_value c"
  by (induction acc xs rule: digits_value.induct) simp_all

lemma digit_char: "(n :: nat) < 10 \<Longrightarrow> of_char (char_of (48 + n) :: char) = 48 + n"
  by simp

lemma digit_char_props:
  "n < 10 \<Longrightarrow> digit_value (char_of (48 + n)) = int n \<and> c_isdigit (char_of (48 + n))"
  by (simp add: digit_value_def c_isdigit_def digit_char)

lemma show_dec_digits: "show_dec n \<noteq> [] \<and> list_all c_isdigit (show_dec n) \<and> digits_value 0 (show_dec n) = int n"
proof (induction n rule: show_dec.induct)
  case (1 n)
  show ?case
  proof (cases "n < 10")
    case True
    then show ?thesis using digit_char_props [of n] by (simp add: show_dec.simps [of n])
  next
    case False
    then have e: "show_dec n = show_dec (n div 10) @ [char_of (48 + n mod 10)]"
      by (subst show_dec.simps) simp
    have "int n = 10 * int (n div 10) + int (n mod 10)" by presburger
    then show ?thesis using 1 [OF False] digit_char_props [of "n mod 10"]
      by (simp add: e digits_value_snoc)
  qed
qed

lemma isdigit_not_space: "c_isdigit c \<Longrightarrow> \<not> c_isspace c"
  by (auto simp: c_isdigit_def c_isspace_def)

lemma isdigit_not_sign: "c_isdigit c \<Longrightarrow> c \<noteq> CHR ''-'' \<and> c \<noteq> CHR ''+'' \<and> c \<noteq> CHR ''/''"
  by (auto simp: c_isdigit_def)

lemma show_dec_no_sign:
  "CHR ''-'' \<notin> set (show_dec n) \<and> CHR ''/'' \<notin> set (show_dec n)"
  using show_dec_digits [of n] isdigit_not_sign by (auto simp: list_all_iff)

lemma strtol10_digits:
  assumes "ds \<noteq> []" "list_all c_isdigit ds" "digits_value 0 ds = v" "0 \<le> v" "v \<le> long_max"
  shows "strtol10 ds = (v, False, False, [])"
proof -
  obtain c cs where ds: "ds = c # cs" using assms(1) by (cases ds) auto
  have "\<not> c_isspace c" "c \<noteq> CHR ''-''" "c \<noteq> CHR ''+''"
    using assms(2) isdigit_not_space isdigit_not_sign by (auto simp: ds)
  moreover have "takeWhile c_isdigit ds = ds" "dropWhile c_isdigit ds = []"
    using assms(2) by (simp_all add: list_all_iff)
  moreover have "long_min \<le> v" using assms(4) by (simp add: long_min_def)
  ultimately show ?thesis using assms(3,5) by (simp add: strtol10_def ds Let_def)
qed

lemma strtol10_show_dec: "int n \<le> long_max \<Longrightarrow> strtol10 (show_dec n) = (int n, False, False, [])"
  using show_dec_digits [of n] by (intro strtol10_digits) auto

end
