(* ===== verification/Blocklist.thy ===== *)
theory Blocklist
  imports Constraint C_Lib
begin

text \<open>
  The scan's allow and block lists: \<open>lib/blocklist.c\<close>, and the address conversions of \<open>lib/util.c\<close> it
  calls. An address is followed by its port and index bits: the constraint tree is over
  IP + port + index bits, and a list entry paints the IP bits of its prefix.

  The resolver is outside the repository and a parameter of the model: \<open>inet_pton\<close>, \<open>inet_ntop\<close> and
  \<open>getaddrinfo\<close>. Files are the contents that \<open>fopen\<close> and \<open>fgets\<close> would read, \<open>None\<close> when the file
  cannot be opened.
\<close>

section \<open>State\<close>

definition ADDR_DISALLOWED :: u32 where "ADDR_DISALLOWED = 0"
definition ADDR_ALLOWED :: u32 where "ADDR_ALLOWED = 1"

datatype ip_family = Family4 | Family6

record resolver =
  inet_pton :: "ip_family \<Rightarrow> string \<Rightarrow> u8 list option"
  inet_ntop :: "ip_family \<Rightarrow> u8 list \<Rightarrow> string option"
  getaddrinfo :: "string \<Rightarrow> (ip_family \<times> u8 list) list option"

text \<open>\<open>bl_ll_t\<close>: the list of painted prefixes, with its length.\<close>

record bl_ll =
  ll_items :: "(mpz \<times> u16) list"
  ll_len :: mpz

record blocklist =
  IPVX_MAX_PREFIX_LEN :: nat
  PORT_MAX_BITS :: nat
  IPVX_PORT_MAX_BITS :: nat
  INDEX_MAX_BITS :: nat
  PORT_INDEX_MAX_BITS :: nat
  IPVX_PORT_INDEX_MAX_BITS :: nat
  IPV46_FLAG :: nat
  IP_MAX_PREFIX_LEN :: nat
  IP_MAX_PREFIX_BYTES :: nat
  bl_masks :: ipvx_mask
  bl_constraint :: "constraint_t option"
  blocklisted_cidrs :: bl_ll
  allowlisted_cidrs :: bl_ll

definition empty_ll :: bl_ll where
  "empty_ll = \<lparr>ll_items = [], ll_len = 0\<rparr>"

definition initial_blocklist :: blocklist where
  "initial_blocklist = \<lparr>IPVX_MAX_PREFIX_LEN = 128, PORT_MAX_BITS = 16, IPVX_PORT_MAX_BITS = 144,
     INDEX_MAX_BITS = 24, PORT_INDEX_MAX_BITS = 40, IPVX_PORT_INDEX_MAX_BITS = 168,
     IPV46_FLAG = 6, IP_MAX_PREFIX_LEN = 128, IP_MAX_PREFIX_BYTES = 16,
     bl_masks = initial_mask, bl_constraint = None,
     blocklisted_cidrs = empty_ll, allowlisted_cidrs = empty_ll\<rparr>"

section \<open>Address conversions (\<open>lib/util.c\<close>)\<close>

definition family_of_flag :: "nat \<Rightarrow> ip_family option" where
  "family_of_flag flag = (if flag = 6 then Some Family6 else if flag = 4 then Some Family4 else None)"

definition inet_str2in :: "resolver \<Rightarrow> string \<Rightarrow> nat \<Rightarrow> u8 list option" where
  "inet_str2in net str ipv46_flag =
     (case family_of_flag ipv46_flag of
        Some f \<Rightarrow> inet_pton net f str
      | None \<Rightarrow> None)"

definition inet_in2str :: "resolver \<Rightarrow> u8 list \<Rightarrow> nat \<Rightarrow> string option" where
  "inet_in2str net a ipv46_flag =
     (case family_of_flag ipv46_flag of
        Some f \<Rightarrow> inet_ntop net f a
      | None \<Rightarrow> None)"

section \<open>Queries\<close>

definition the_constraint :: "blocklist \<Rightarrow> constraint_t outcome" where
  "the_constraint st = (case bl_constraint st of Some c \<Rightarrow> Inr c | None \<Rightarrow> Inl Assert_failed)"

definition get_blocklisted_cidrs :: "blocklist \<Rightarrow> (mpz \<times> u16) list" where
  "get_blocklisted_cidrs st = ll_items (blocklisted_cidrs st)"

definition get_allowlisted_cidrs :: "blocklist \<Rightarrow> (mpz \<times> u16) list" where
  "get_allowlisted_cidrs st = ll_items (allowlisted_cidrs st)"

definition blocklist_lookup_index_for_ipvx_port_index ::
    "blocklist \<Rightarrow> mpz \<Rightarrow> (mpz \<times> blocklist) outcome" where
  "blocklist_lookup_index_for_ipvx_port_index st index =
     bind_out (the_constraint st) (\<lambda>c.
     bind_out (constraint_lookup_index_for_ipvx_ui (bl_masks st) c index ADDR_ALLOWED) (\<lambda>(ipvx, c').
       Inr (ipvx, st\<lparr>bl_constraint := Some c'\<rparr>)))"

definition blocklist_is_allowed_ipvx :: "blocklist \<Rightarrow> mpz \<Rightarrow> bool outcome" where
  "blocklist_is_allowed_ipvx st ipvx =
     bind_out (the_constraint st) (\<lambda>c.
       let ipvx_p = ipvx * 2 ^ PORT_INDEX_MAX_BITS st
       in Inr (constraint_lookup_ipvx_for_value_ui (bl_masks st) c ipvx_p = ADDR_ALLOWED))"

definition blocklist_is_allowed_ip :: "blocklist \<Rightarrow> u8 list \<Rightarrow> bool outcome" where
  "blocklist_is_allowed_ip st ip =
     bind_out (mpz_from_uint8s_bits ip (IPVX_MAX_PREFIX_LEN st)) (blocklist_is_allowed_ipvx st)"

definition blocklist_ipvx_for_value :: "blocklist \<Rightarrow> mpz \<Rightarrow> u32 outcome" where
  "blocklist_ipvx_for_value st ipvx =
     bind_out (the_constraint st) (\<lambda>c.
       Inr (constraint_lookup_ipvx_for_value_ui (bl_masks st) c ipvx))"

definition count_of :: "blocklist \<Rightarrow> u32 \<Rightarrow> mpz outcome" where
  "count_of st value =
     bind_out (the_constraint st) (\<lambda>c. Inr (constraint_count_ipvx_of_value_ui (bl_masks st) c value))"

definition blocklist_count_allowed_ip_port_index :: "blocklist \<Rightarrow> mpz outcome" where
  "blocklist_count_allowed_ip_port_index st = count_of st ADDR_ALLOWED"

definition blocklist_count_allowed_ip_port :: "blocklist \<Rightarrow> mpz outcome" where
  "blocklist_count_allowed_ip_port st =
     bind_out (count_of st ADDR_ALLOWED) (\<lambda>n. Inr (n div 2 ^ INDEX_MAX_BITS st))"

definition blocklist_count_allowed_ip :: "blocklist \<Rightarrow> mpz outcome" where
  "blocklist_count_allowed_ip st =
     bind_out (count_of st ADDR_ALLOWED) (\<lambda>n. Inr (n div 2 ^ PORT_INDEX_MAX_BITS st))"

definition blocklist_count_not_allowed_ip_port_index :: "blocklist \<Rightarrow> mpz outcome" where
  "blocklist_count_not_allowed_ip_port_index st = count_of st ADDR_DISALLOWED"

definition blocklist_count_not_allowed_ip_port :: "blocklist \<Rightarrow> mpz outcome" where
  "blocklist_count_not_allowed_ip_port st =
     bind_out (count_of st ADDR_DISALLOWED) (\<lambda>n. Inr (n div 2 ^ INDEX_MAX_BITS st))"

definition blocklist_count_not_allowed_ip :: "blocklist \<Rightarrow> mpz outcome" where
  "blocklist_count_not_allowed_ip st =
     bind_out (count_of st ADDR_DISALLOWED) (\<lambda>n. Inr (n div 2 ^ PORT_INDEX_MAX_BITS st))"

section \<open>Painting prefixes\<close>

definition bl_ll_add :: "bl_ll \<Rightarrow> mpz \<Rightarrow> u16 \<Rightarrow> bl_ll" where
  "bl_ll_add l addr p = \<lparr>ll_items = ll_items l @ [(addr, p)], ll_len = ll_len l + 1\<rparr>"

definition add_constraint :: "blocklist \<Rightarrow> mpz \<Rightarrow> int \<Rightarrow> u32 \<Rightarrow> blocklist outcome" where
  "add_constraint st prefix prefix_len value =
     bind_out (the_constraint st) (\<lambda>c.
     let ipvx_p = prefix * 2 ^ PORT_INDEX_MAX_BITS st
     in bind_out (constraint_set_ui (bl_masks st) c ipvx_p prefix_len value) (\<lambda>c'.
       let st' = st\<lparr>bl_constraint := Some c'\<rparr>
       in if value = ADDR_ALLOWED
          then Inr (st'\<lparr>allowlisted_cidrs :=
                 bl_ll_add (allowlisted_cidrs st') prefix (word_of_int prefix_len)\<rparr>)
          else if value = ADDR_DISALLOWED
          then Inr (st'\<lparr>blocklisted_cidrs :=
                 bl_ll_add (blocklisted_cidrs st') prefix (word_of_int prefix_len)\<rparr>)
          else Inl Log_fatal))"

definition blocklist_prefix :: "blocklist \<Rightarrow> mpz \<Rightarrow> int \<Rightarrow> blocklist outcome" where
  "blocklist_prefix st prefix prefix_len = add_constraint st prefix prefix_len ADDR_DISALLOWED"

definition allowlist_prefix :: "blocklist \<Rightarrow> mpz \<Rightarrow> int \<Rightarrow> blocklist outcome" where
  "allowlist_prefix st prefix prefix_len = add_constraint st prefix prefix_len ADDR_ALLOWED"

section \<open>Parsing an entry\<close>

text \<open>
  The prefix length after the slash: \<open>strtol\<close>'s result is converted to an \<open>int\<close>; trailing characters
  after the number are accepted. \<open>None\<close> is the early return of -1.
\<close>

definition parse_prefix_len :: "blocklist \<Rightarrow> string \<Rightarrow> int option" where
  "parse_prefix_len st len =
     (case strtol10 len of (v, no_digits, err, _) \<Rightarrow>
        let prefix_len = to_int32 v
        in if no_digits \<or> err \<or> prefix_len < 0 \<or> prefix_len > int (IP_MAX_PREFIX_LEN st)
           then None else Some prefix_len)"

text \<open>The loop over the addresses that \<open>getaddrinfo\<close> returned; the flag is \<open>ret == 0\<close>.\<close>

fun add_resolved ::
    "(ip_family \<times> u8 list) list \<Rightarrow> int \<Rightarrow> u32 \<Rightarrow> int \<Rightarrow> blocklist \<Rightarrow> (int \<times> blocklist) outcome" where
  "add_resolved [] prefix_len value ret st = Inr (ret, st)"
| "add_resolved ((fam, bytes) # res) prefix_len value ret st =
     (if fam \<noteq> (if IPV46_FLAG st = 6 then Family6 else Family4)
      then add_resolved res prefix_len value ret st
      else bind_out (mpz_from_uint8s_bits bytes (IPVX_MAX_PREFIX_LEN st)) (\<lambda>addr.
           bind_out (add_constraint st addr prefix_len value) (\<lambda>st'.
             add_resolved res prefix_len value 0 st')))"

text \<open>The branch of \<open>init_from_string\<close> for a string with no dash.\<close>

definition init_from_cidr ::
    "resolver \<Rightarrow> blocklist \<Rightarrow> string \<Rightarrow> u32 \<Rightarrow> (int \<times> blocklist) outcome" where
  "init_from_cidr net st s value =
     (case split_at_char (CHR ''/'') s of (ip, len) \<Rightarrow>
        case (case len of None \<Rightarrow> Some (int (IPVX_MAX_PREFIX_LEN st))
                        | Some l \<Rightarrow> parse_prefix_len st l) of
          None \<Rightarrow> Inr (-1, st)
        | Some prefix_len \<Rightarrow>
            if prefix_len > int (IPVX_MAX_PREFIX_LEN st) then Inr (0, st)
            else case inet_str2in net ip (if IPV46_FLAG st = 6 then 6 else IPV46_FLAG st) of
              Some bytes \<Rightarrow>
                bind_out (mpz_from_uint8s_bits bytes (IPVX_MAX_PREFIX_LEN st)) (\<lambda>addr.
                bind_out (add_constraint st addr prefix_len value) (\<lambda>st'. Inr (0, st')))
            | None \<Rightarrow>
                (case getaddrinfo net ip of
                   None \<Rightarrow> Inr (-1, st)
                 | Some res \<Rightarrow> add_resolved res prefix_len value (-1) st))"

text \<open>
  The loop over the addresses of a range. Each address is written back to text and parsed again. The
  recursive call takes the other branch because \<open>inet_ntop\<close> writes no dash; a string with a dash, or
  no string at all, has no defined meaning here. \<open>ip_start\<close> is the byte buffer that keeps its bytes
  between the rounds.
\<close>

function range_loop ::
    "resolver \<Rightarrow> u32 \<Rightarrow> bool \<Rightarrow> mpz \<Rightarrow> mpz \<Rightarrow> u8 list \<Rightarrow> blocklist \<Rightarrow> (int \<times> blocklist) outcome" where
  "range_loop net value ignore_invalid ip_start_m ip_end_m ip_start st =
     (if ip_start_m \<le> ip_end_m then
        bind_out (mpz_to_uint8s ip_start_m ip_start (IP_MAX_PREFIX_BYTES st)) (\<lambda>ip_start'.
        case inet_in2str net ip_start' (IPV46_FLAG st) of
          None \<Rightarrow> Inl Undefined_value
        | Some ip_str \<Rightarrow>
            if CHR ''-'' \<in> set ip_str then Inl Undefined_value
            else bind_out (init_from_cidr net st ip_str value) (\<lambda>(ret, st').
              if ret \<noteq> 0 \<and> \<not> ignore_invalid then Inr (-1, st')
              else range_loop net value ignore_invalid (ip_start_m + 1) ip_end_m ip_start' st'))
      else Inr (0, st))"
  by pat_completeness auto
termination
  by (relation "measure (\<lambda>(net, v, i, a, b, bs, st). nat (b + 1 - a))") auto

declare range_loop.simps [simp del]

text \<open>
  \<open>init_from_string\<close>. In a range, an end that does not parse leaves its buffer uninitialised.
\<close>

definition init_from_string ::
    "resolver \<Rightarrow> blocklist \<Rightarrow> string \<Rightarrow> u32 \<Rightarrow> bool \<Rightarrow> (int \<times> blocklist) outcome" where
  "init_from_string net st ip value ignore_invalid_hosts =
     (case split_at_char (CHR ''-'') ip of
        (_, None) \<Rightarrow> init_from_cidr net st ip value
      | (a, Some b) \<Rightarrow>
          (case (inet_str2in net a (IPV46_FLAG st), inet_str2in net b (IPV46_FLAG st)) of
             (Some ip_start, Some ip_end) \<Rightarrow>
               bind_out (mpz_from_uint8s ip_start (IP_MAX_PREFIX_BYTES st)) (\<lambda>ip_start_m.
               bind_out (mpz_from_uint8s ip_end (IP_MAX_PREFIX_BYTES st)) (\<lambda>ip_end_m.
                 range_loop net value ignore_invalid_hosts ip_start_m ip_end_m ip_start st))
           | _ \<Rightarrow> Inl Undefined_value))"

section \<open>Files and arrays of entries\<close>

text \<open>
  A line of the file: the part before a comment, its first word of at most 256 characters, which
  overruns the 256-byte buffer when it has that many.
\<close>

fun init_lines ::
    "resolver \<Rightarrow> u32 \<Rightarrow> bool \<Rightarrow> string list \<Rightarrow> blocklist \<Rightarrow> blocklist outcome" where
  "init_lines net value ignore_invalid_hosts [] st = Inr st"
| "init_lines net value ignore_invalid_hosts (line # rest) st =
     (let text = takeWhile (\<lambda>c. c \<noteq> CHR ''#'') (takeWhile (\<lambda>c. c \<noteq> nul) line)
      in case sscanf_word 256 text of
           None \<Rightarrow> init_lines net value ignore_invalid_hosts rest st
         | Some ip \<Rightarrow>
             if length ip \<ge> 256 then Inl Out_of_bounds
             else bind_out (init_from_string net st ip value ignore_invalid_hosts) (\<lambda>(ret, st').
               if ret \<noteq> 0 \<and> \<not> ignore_invalid_hosts then Inl Log_fatal
               else init_lines net value ignore_invalid_hosts rest st'))"

definition init_from_file ::
    "resolver \<Rightarrow> blocklist \<Rightarrow> string option \<Rightarrow> u32 \<Rightarrow> bool \<Rightarrow> blocklist outcome" where
  "init_from_file net st contents value ignore_invalid_hosts =
     (case contents of
        None \<Rightarrow> Inl Log_fatal
      | Some s \<Rightarrow> init_lines net value ignore_invalid_hosts (fgets_lines 999 s) st)"

fun init_from_array ::
    "resolver \<Rightarrow> u32 \<Rightarrow> bool \<Rightarrow> string list \<Rightarrow> blocklist \<Rightarrow> blocklist outcome" where
  "init_from_array net value ignore_invalid_hosts [] st = Inr st"
| "init_from_array net value ignore_invalid_hosts (cidr # cidrs) st =
     bind_out (init_from_string net st cidr value ignore_invalid_hosts) (\<lambda>(ret, st').
       if ret \<noteq> 0 \<and> \<not> ignore_invalid_hosts then Inl Log_fatal
       else init_from_array net value ignore_invalid_hosts cidrs st')"

section \<open>Initialisation\<close>

text \<open>
  The checks and the static lengths. A file argument is \<open>None\<close> for a NULL name, and otherwise the
  contents of the file (\<open>Some None\<close> when it cannot be opened).
\<close>

definition set_lengths ::
    "blocklist \<Rightarrow> nat \<Rightarrow> nat \<Rightarrow> nat \<Rightarrow> nat \<Rightarrow> blocklist outcome" where
  "set_lengths st ipvx_max_len port_max_len ipv46_flag index_max_len =
     (if port_max_len > PORT_MAX_BITS st \<or> index_max_len > INDEX_MAX_BITS st then Inl Log_fatal
      else if ipv46_flag \<noteq> 6 \<and> ipv46_flag \<noteq> 4 then Inl Log_fatal
      else let ip_len = (if ipv46_flag = 6 then 128 else 32);
               ip_bytes = (if ipv46_flag = 6 then 16 else 4)
           in if ipvx_max_len > ip_len then Inl Log_fatal
              else Inr (st\<lparr>IPVX_MAX_PREFIX_LEN := ipvx_max_len, PORT_MAX_BITS := port_max_len,
                     INDEX_MAX_BITS := index_max_len, IPV46_FLAG := ipv46_flag,
                     IP_MAX_PREFIX_LEN := ip_len, IP_MAX_PREFIX_BYTES := ip_bytes,
                     IPVX_PORT_MAX_BITS := ipvx_max_len + port_max_len,
                     PORT_INDEX_MAX_BITS := port_max_len + index_max_len,
                     IPVX_PORT_INDEX_MAX_BITS := ipvx_max_len + (port_max_len + index_max_len),
                     blocklisted_cidrs := empty_ll, allowlisted_cidrs := empty_ll\<rparr>))"

definition init_constraint :: "blocklist \<Rightarrow> u32 \<Rightarrow> blocklist outcome" where
  "init_constraint st value =
     bind_out (constraint_init_ui value (IPVX_PORT_INDEX_MAX_BITS st) (bl_masks st)) (\<lambda>(g, c).
       Inr (st\<lparr>bl_masks := g, bl_constraint := Some c\<rparr>))"

definition opt_file ::
    "resolver \<Rightarrow> string option option \<Rightarrow> u32 \<Rightarrow> bool \<Rightarrow> blocklist \<Rightarrow> blocklist outcome" where
  "opt_file net f value ignore_invalid_hosts st =
     (case f of None \<Rightarrow> Inr st | Some contents \<Rightarrow> init_from_file net st contents value ignore_invalid_hosts)"

definition opt_array ::
    "resolver \<Rightarrow> string list option \<Rightarrow> u32 \<Rightarrow> bool \<Rightarrow> blocklist \<Rightarrow> blocklist outcome" where
  "opt_array net es value ignore_invalid_hosts st =
     (case es of None \<Rightarrow> Inr st | Some cidrs \<Rightarrow> init_from_array net value ignore_invalid_hosts cidrs st)"

definition init_lists ::
    "resolver \<Rightarrow> blocklist \<Rightarrow> string option option \<Rightarrow> string option option \<Rightarrow>
     string list option \<Rightarrow> string list option \<Rightarrow> bool \<Rightarrow> blocklist outcome" where
  "init_lists net st allow_file block_file allow_entries block_entries ignore_invalid_hosts =
     bind_out
       (if allow_file \<noteq> None \<or> (\<exists>e es. allow_entries = Some (e # es))
        then bind_out (init_constraint st ADDR_DISALLOWED) (\<lambda>st.
             bind_out (opt_file net allow_file ADDR_ALLOWED ignore_invalid_hosts st) (\<lambda>st.
               opt_array net allow_entries ADDR_ALLOWED ignore_invalid_hosts st))
        else init_constraint st ADDR_ALLOWED) (\<lambda>st.
     bind_out (opt_file net block_file ADDR_DISALLOWED ignore_invalid_hosts st) (\<lambda>st.
       opt_array net block_entries ADDR_DISALLOWED ignore_invalid_hosts st))"

definition block_zero :: "resolver \<Rightarrow> blocklist \<Rightarrow> bool \<Rightarrow> blocklist outcome" where
  "block_zero net st ignore_invalid_hosts =
     bind_out (init_from_string net st (if IPV46_FLAG st = 6 then ''::'' else ''0.0.0.0'')
                 ADDR_DISALLOWED ignore_invalid_hosts) (\<lambda>(_, st'). Inr st')"

definition EXIT_SUCCESS :: int where "EXIT_SUCCESS = 0"
definition EXIT_FAILURE :: int where "EXIT_FAILURE = 1"

definition blocklist_init ::
    "resolver \<Rightarrow> blocklist \<Rightarrow> string option option \<Rightarrow> string option option \<Rightarrow>
     string list option \<Rightarrow> string list option \<Rightarrow> bool \<Rightarrow> nat \<Rightarrow> nat \<Rightarrow> nat \<Rightarrow> nat \<Rightarrow>
     (int \<times> blocklist) outcome" where
  "blocklist_init net st allow_file block_file allow_entries block_entries ignore_invalid_hosts
       ipvx_max_len port_max_len ipv46_flag index_max_len =
     (if bl_constraint st \<noteq> None then Inl Assert_failed
      else bind_out (set_lengths st ipvx_max_len port_max_len ipv46_flag index_max_len) (\<lambda>st.
        bind_out (init_lists net st allow_file block_file allow_entries block_entries
                    ignore_invalid_hosts) (\<lambda>st.
        bind_out (block_zero net st ignore_invalid_hosts) (\<lambda>st.
        bind_out (the_constraint st) (\<lambda>c.
        bind_out (constraint_paint_value_ui (bl_masks st) c ADDR_ALLOWED) (\<lambda>c'.
        let st = st\<lparr>bl_constraint := Some c'\<rparr>
        in bind_out (blocklist_count_allowed_ip st) (\<lambda>allowed.
             Inr (if allowed = 0 then EXIT_FAILURE else EXIT_SUCCESS, st))))))))"

section \<open>Specification: the colour of an IP\<close>

text \<open>
  The value of an IP is the value of all its port and index combinations: the entries only paint IP
  bits, so the tree never separates two targets of the same IP.
\<close>

definition ip_value :: "blocklist \<Rightarrow> constraint_t \<Rightarrow> mpz \<Rightarrow> mpz" where
  "ip_value st c x = value_at (bl_masks st) c (x * 2 ^ PORT_INDEX_MAX_BITS st)"

definition lengths_ok :: "blocklist \<Rightarrow> bool" where
  "lengths_ok st \<longleftrightarrow> PORT_INDEX_MAX_BITS st = PORT_MAX_BITS st + INDEX_MAX_BITS st
     \<and> IPVX_PORT_MAX_BITS st = IPVX_MAX_PREFIX_LEN st + PORT_MAX_BITS st
     \<and> IPVX_PORT_INDEX_MAX_BITS st = IPVX_MAX_PREFIX_LEN st + PORT_INDEX_MAX_BITS st
     \<and> IPVX_MAX_PREFIX_LEN st \<le> IP_MAX_PREFIX_LEN st
     \<and> IP_MAX_PREFIX_LEN st = 8 * IP_MAX_PREFIX_BYTES st
     \<and> IP_MAX_PREFIX_BYTES st = (if IPV46_FLAG st = 6 then 16 else 4)
     \<and> IPV46_FLAG st \<in> {4, 6}"

definition bl_inv :: "blocklist \<Rightarrow> bool" where
  "bl_inv st \<longleftrightarrow> lengths_ok st \<and> (\<exists>c. bl_constraint st = Some c \<and> con_inv (bl_masks st) c
     \<and> max_prefix_len (bl_masks st) = IPVX_PORT_INDEX_MAX_BITS st
     \<and> (\<forall>a \<in> addresses (bl_masks st).
          value_at (bl_masks st) c a = ip_value st c (a div 2 ^ PORT_INDEX_MAX_BITS st)
          \<and> value_at (bl_masks st) c a \<in> {0, 1}))"

definition ip_allowed :: "blocklist \<Rightarrow> mpz \<Rightarrow> bool" where
  "ip_allowed st x \<longleftrightarrow> (\<exists>c. bl_constraint st = Some c \<and> ip_value st c x = 1)"

definition ips :: "blocklist \<Rightarrow> mpz set" where
  "ips st = {0 ..< 2 ^ IPVX_MAX_PREFIX_LEN st}"

text \<open>The part of the state that the initialisation fixes and the lists do not change.\<close>

definition same_config :: "blocklist \<Rightarrow> blocklist \<Rightarrow> bool" where
  "same_config st st' \<longleftrightarrow>
     (\<exists>c b a. st' = st\<lparr>bl_constraint := c, blocklisted_cidrs := b, allowlisted_cidrs := a\<rparr>)"

lemma same_config_refl [simp]: "same_config st st"
  unfolding same_config_def
  by (intro exI [of _ "bl_constraint st"] exI [of _ "blocklisted_cidrs st"]
      exI [of _ "allowlisted_cidrs st"]) simp

lemma same_config_trans: "same_config st st' \<Longrightarrow> same_config st' st'' \<Longrightarrow> same_config st st''"
  unfolding same_config_def by (elim exE) (simp, blast)

lemma same_configD:
  assumes "same_config st st'"
  shows "IPVX_MAX_PREFIX_LEN st' = IPVX_MAX_PREFIX_LEN st" "PORT_MAX_BITS st' = PORT_MAX_BITS st"
    "INDEX_MAX_BITS st' = INDEX_MAX_BITS st" "PORT_INDEX_MAX_BITS st' = PORT_INDEX_MAX_BITS st"
    "IPVX_PORT_INDEX_MAX_BITS st' = IPVX_PORT_INDEX_MAX_BITS st" "IPV46_FLAG st' = IPV46_FLAG st"
    "IP_MAX_PREFIX_LEN st' = IP_MAX_PREFIX_LEN st" "IP_MAX_PREFIX_BYTES st' = IP_MAX_PREFIX_BYTES st"
    "bl_masks st' = bl_masks st" "ips st' = ips st"
  using assms by (auto simp: same_config_def ips_def)

lemma bl_invE:
  assumes "bl_inv st"
  obtains c where "bl_constraint st = Some c" "con_inv (bl_masks st) c" "lengths_ok st"
    "max_prefix_len (bl_masks st) = IPVX_MAX_PREFIX_LEN st + PORT_INDEX_MAX_BITS st"
    "\<And>a. a \<in> addresses (bl_masks st) \<Longrightarrow>
       value_at (bl_masks st) c a = ip_value st c (a div 2 ^ PORT_INDEX_MAX_BITS st)"
    "\<And>a. a \<in> addresses (bl_masks st) \<Longrightarrow> value_at (bl_masks st) c a \<in> {0, 1}"
    "\<And>x. ip_allowed st x \<longleftrightarrow> ip_value st c x = 1"
proof -
  from assms obtain c where c: "bl_constraint st = Some c" "con_inv (bl_masks st) c"
    "max_prefix_len (bl_masks st) = IPVX_PORT_INDEX_MAX_BITS st" "lengths_ok st"
    "\<forall>a \<in> addresses (bl_masks st).
          value_at (bl_masks st) c a = ip_value st c (a div 2 ^ PORT_INDEX_MAX_BITS st)
          \<and> value_at (bl_masks st) c a \<in> {0, 1}"
    unfolding bl_inv_def by blast
  show ?thesis
  proof (rule that [of c])
    show "max_prefix_len (bl_masks st) = IPVX_MAX_PREFIX_LEN st + PORT_INDEX_MAX_BITS st"
      using c(3,4) by (simp add: lengths_ok_def)
    show "ip_allowed st x \<longleftrightarrow> ip_value st c x = 1" for x
      using c(1) by (simp add: ip_allowed_def)
  qed (use c in blast)+
qed

lemma ip_address:
  assumes "max_prefix_len (bl_masks st) = IPVX_MAX_PREFIX_LEN st + PORT_INDEX_MAX_BITS st"
    "x \<in> ips st" "0 \<le> k" "k < 2 ^ PORT_INDEX_MAX_BITS st"
  shows "x * 2 ^ PORT_INDEX_MAX_BITS st + k \<in> addresses (bl_masks st)"
proof -
  let ?P = "2 ^ PORT_INDEX_MAX_BITS st :: int"
  have x: "0 \<le> x" "x + 1 \<le> 2 ^ IPVX_MAX_PREFIX_LEN st" using assms(2) by (auto simp: ips_def)
  have "(x + 1) * ?P \<le> 2 ^ IPVX_MAX_PREFIX_LEN st * ?P" using x(2) by (intro mult_right_mono) simp_all
  then have "x * ?P + k < 2 ^ IPVX_MAX_PREFIX_LEN st * ?P" using assms(4) by (simp add: algebra_simps)
  then show ?thesis using x(1) assms(1,3) by (simp add: addresses_def power_add)
qed

lemma address_ip:
  assumes "max_prefix_len (bl_masks st) = IPVX_MAX_PREFIX_LEN st + PORT_INDEX_MAX_BITS st"
    "a \<in> addresses (bl_masks st)"
  shows "a div 2 ^ PORT_INDEX_MAX_BITS st \<in> ips st"
proof -
  have "0 \<le> a" "a < 2 ^ IPVX_MAX_PREFIX_LEN st * 2 ^ PORT_INDEX_MAX_BITS st"
    using assms by (auto simp: addresses_def power_add)
  then show ?thesis by (simp add: ips_def pos_imp_zdiv_nonneg_iff div_lt_pow2)
qed

section \<open>Painting a prefix\<close>

definition ip_covers :: "blocklist \<Rightarrow> mpz \<Rightarrow> nat \<Rightarrow> mpz \<Rightarrow> bool" where
  "ip_covers st p len x \<longleftrightarrow> covers (IPVX_MAX_PREFIX_LEN st) p len x"

text \<open>Shifting the address and its prefix by the port and index bits changes no comparison.\<close>

lemma div_pow2_shift:
  fixes a :: int
  assumes "len \<le> I"
  shows "a div 2 ^ (I + P - len) = a div 2 ^ P div 2 ^ (I - len)"
proof -
  have "I + P - len = P + (I - len)" using assms by simp
  then show ?thesis by (simp add: power_add zdiv_zmult2_eq)
qed

lemma add_constraint_ok:
  assumes inv: "bl_inv st" and p: "p \<in> ips st" and len: "len \<le> IPVX_MAX_PREFIX_LEN st"
    and v: "v = ADDR_ALLOWED \<or> v = ADDR_DISALLOWED"
  obtains st' where "add_constraint st p (int len) v = Inr st'" "bl_inv st'" "same_config st st'"
    "\<And>x. x \<in> ips st \<Longrightarrow>
       ip_allowed st' x \<longleftrightarrow> (if ip_covers st p len x then v = ADDR_ALLOWED else ip_allowed st x)"
    "(get_allowlisted_cidrs st', get_blocklisted_cidrs st') =
       (if v = ADDR_ALLOWED
        then (get_allowlisted_cidrs st @ [(p, of_nat len)], get_blocklisted_cidrs st)
        else (get_allowlisted_cidrs st, get_blocklisted_cidrs st @ [(p, of_nat len)]))"
proof -
  obtain c where c: "bl_constraint st = Some c" "con_inv (bl_masks st) c" "lengths_ok st"
    "max_prefix_len (bl_masks st) = IPVX_MAX_PREFIX_LEN st + PORT_INDEX_MAX_BITS st"
    "\<And>a. a \<in> addresses (bl_masks st) \<Longrightarrow>
       value_at (bl_masks st) c a = ip_value st c (a div 2 ^ PORT_INDEX_MAX_BITS st)"
    "\<And>a. a \<in> addresses (bl_masks st) \<Longrightarrow> value_at (bl_masks st) c a \<in> {0, 1}"
    "\<And>x. ip_allowed st x \<longleftrightarrow> ip_value st c x = 1"
    by (rule bl_invE [OF inv]) (rule that)
  let ?g = "bl_masks st" and ?I = "IPVX_MAX_PREFIX_LEN st" and ?P = "PORT_INDEX_MAX_BITS st"
  have pp: "p * 2 ^ ?P \<in> addresses ?g" using ip_address [OF c(4) p, of 0] by simp
  have len': "len \<le> max_prefix_len ?g" using len c(4) by simp
  obtain c' where c': "constraint_set ?g c (p * 2 ^ ?P) (int len) (uint v) = Inr c'" "con_inv ?g c'"
    "\<And>a. a \<in> addresses ?g \<Longrightarrow> value_at ?g c' a =
      (if a div 2 ^ (max_prefix_len ?g - len) = (p * 2 ^ ?P) div 2 ^ (max_prefix_len ?g - len)
       then uint v else value_at ?g c a)"
    using constraint_set_ok [OF c(2) len', of "p * 2 ^ ?P" "uint v"] pp
    by (auto simp: addresses_def)
  have val: "value_at ?g c' a =
      (if ip_covers st p len (a div 2 ^ ?P) then uint v else value_at ?g c a)"
    if "a \<in> addresses ?g" for a
    using c'(3) [OF that] div_pow2_shift [OF len, of a ?P] div_pow2_shift [OF len, of "p * 2 ^ ?P" ?P]
    by (simp add: c(4) ip_covers_def covers_def)
  have uv: "uint v = (if v = ADDR_ALLOWED then 1 else 0)"
    using v by (auto simp: ADDR_ALLOWED_def ADDR_DISALLOWED_def)
  let ?st1 = "st\<lparr>bl_constraint := Some c'\<rparr>"
  let ?st' = "if v = ADDR_ALLOWED
    then ?st1\<lparr>allowlisted_cidrs := bl_ll_add (allowlisted_cidrs st) p (word_of_int (int len))\<rparr>
    else ?st1\<lparr>blocklisted_cidrs := bl_ll_add (blocklisted_cidrs st) p (word_of_int (int len))\<rparr>"
  have add: "add_constraint st p (int len) v = Inr ?st'"
    using v c(1) c'(1) by (auto simp: add_constraint_def the_constraint_def constraint_set_ui_def Let_def)
  have same: "same_config st ?st'" unfolding same_config_def
    by (intro exI [of _ "Some c'"] exI [of _ "blocklisted_cidrs ?st'"]
        exI [of _ "allowlisted_cidrs ?st'"]) simp
  note S = same_configD [OF same]
  have con': "bl_constraint ?st' = Some c'" by simp
  have ipv: "ip_value ?st' c' x = (if ip_covers st p len x then uint v else ip_value st c x)"
    if "x \<in> ips st" for x
    using val [OF ip_address [OF c(4) that order_refl]] S by (simp add: ip_value_def)
  have "bl_inv ?st'" unfolding bl_inv_def
  proof (intro conjI exI [of _ c'] ballI)
    show "lengths_ok ?st'" using c(3) by (simp add: lengths_ok_def)
    show "bl_constraint ?st' = Some c'" by (rule con')
    show "con_inv (bl_masks ?st') c'" using c'(2) S by simp
    show "max_prefix_len (bl_masks ?st') = IPVX_PORT_INDEX_MAX_BITS ?st'"
      using c(3,4) S by (simp add: lengths_ok_def)
    fix a assume "a \<in> addresses (bl_masks ?st')"
    then have a: "a \<in> addresses ?g" using S by simp
    show "value_at (bl_masks ?st') c' a = ip_value ?st' c' (a div 2 ^ PORT_INDEX_MAX_BITS ?st')"
      using val [OF a] ipv [OF address_ip [OF c(4) a]] c(5) [OF a] S by simp
    show "value_at (bl_masks ?st') c' a \<in> {0, 1}"
      using val [OF a] c(6) [OF a] uv S by simp
  qed
  moreover have "ip_allowed ?st' x \<longleftrightarrow>
      (if ip_covers st p len x then v = ADDR_ALLOWED else ip_allowed st x)" if "x \<in> ips st" for x
    using ipv [OF that] con' c(7) uv unfolding ip_allowed_def by simp
  moreover have "(get_allowlisted_cidrs ?st', get_blocklisted_cidrs ?st') =
       (if v = ADDR_ALLOWED
        then (get_allowlisted_cidrs st @ [(p, of_nat len)], get_blocklisted_cidrs st)
        else (get_allowlisted_cidrs st, get_blocklisted_cidrs st @ [(p, of_nat len)]))"
    by (simp add: get_allowlisted_cidrs_def get_blocklisted_cidrs_def bl_ll_add_def)
  ultimately show ?thesis using add same by (intro that [of ?st'])
qed

section \<open>Counting\<close>

lemma mult_add_div:
  fixes x :: int
  assumes "0 \<le> k" "k < P"
  shows "(x * P + k) div P = x"
  using assms by (metis add.commute add.right_neutral div_mult_self1 div_pos_pos_trivial less_irrefl order_le_less_trans)

lemma card_allowed:
  assumes "bl_inv st" "bl_constraint st = Some c" "v = 1 \<or> v = 0"
  shows "card (preimage (bl_masks st) c v) =
    2 ^ PORT_INDEX_MAX_BITS st * card {x \<in> ips st. ip_allowed st x = (v = 1)}"
proof -
  let ?P = "2 ^ PORT_INDEX_MAX_BITS st :: int" and ?A = "{x \<in> ips st. ip_allowed st x = (v = 1)}"
  let ?f = "\<lambda>(x, k). x * ?P + k"
  have P: "0 < ?P" by simp
  obtain c' where c: "bl_constraint st = Some c'"
    "max_prefix_len (bl_masks st) = IPVX_MAX_PREFIX_LEN st + PORT_INDEX_MAX_BITS st"
    "\<And>a. a \<in> addresses (bl_masks st) \<Longrightarrow>
       value_at (bl_masks st) c' a = ip_value st c' (a div ?P)"
    "\<And>a. a \<in> addresses (bl_masks st) \<Longrightarrow> value_at (bl_masks st) c' a \<in> {0, 1}"
    "\<And>x. ip_allowed st x \<longleftrightarrow> ip_value st c' x = 1"
    by (rule bl_invE [OF assms(1)]) (rule that)
  have eq: "c' = c" using c(1) assms(2) by simp
  have iv: "ip_value st c x = v \<longleftrightarrow> ip_allowed st x = (v = 1)" if "x \<in> ips st" for x
  proof -
    have "x * ?P + 0 \<in> addresses (bl_masks st)" by (rule ip_address [OF c(2) that order_refl P])
    then have "ip_value st c x \<in> {0, 1}" using c(4) [of "x * ?P"] by (simp add: ip_value_def eq)
    then show ?thesis using c(5) [of x] assms(3) unfolding eq by auto
  qed
  have "bij_betw ?f (?A \<times> {0 ..< ?P}) (preimage (bl_masks st) c v)"
    unfolding bij_betw_def
  proof (intro conjI)
    show "inj_on ?f (?A \<times> {0 ..< ?P})"
    proof (rule inj_onI, clarify)
      fix x k y j assume k: "k \<in> {0 ..< ?P}" "j \<in> {0 ..< ?P}" and e: "x * ?P + k = y * ?P + j"
      from k have "(x * ?P + k) div ?P = x" "(y * ?P + j) div ?P = y"
        using mult_add_div by simp_all
      then show "x = y \<and> k = j" using e by auto
    qed
    show "?f ` (?A \<times> {0 ..< ?P}) = preimage (bl_masks st) c v"
    proof (rule subset_antisym; rule subsetI)
      fix a assume "a \<in> ?f ` (?A \<times> {0 ..< ?P})"
      then obtain x k where a: "a = x * ?P + k" "x \<in> ips st" "ip_allowed st x = (v = 1)"
        "0 \<le> k" "k < ?P" by auto
      then have ad: "a \<in> addresses (bl_masks st)" using ip_address [OF c(2)] by simp
      moreover have "a div ?P = x" using mult_add_div [OF a(4,5)] a(1) by simp
      ultimately show "a \<in> preimage (bl_masks st) c v"
        using c(3) [OF ad] iv [OF a(2)] a(3) by (simp add: preimage_def eq)
    next
      fix a assume "a \<in> preimage (bl_masks st) c v"
      then have a: "a \<in> addresses (bl_masks st)" "value_at (bl_masks st) c a = v"
        by (auto simp: preimage_def)
      have x: "a div ?P \<in> ips st" by (rule address_ip [OF c(2) a(1)])
      have "ip_allowed st (a div ?P) = (v = 1)" using c(3) [OF a(1)] a(2) iv [OF x] by (simp add: eq)
      moreover have "a = ?f (a div ?P, a mod ?P)" by (simp only: prod.case div_mult_mod_eq)
      moreover have "a mod ?P \<in> {0 ..< ?P}" using P by simp
      ultimately show "a \<in> ?f ` (?A \<times> {0 ..< ?P})" using x by blast
    qed
  qed
  then have "card (preimage (bl_masks st) c v) = card (?A \<times> {0 ..< ?P})"
    by (rule bij_betw_same_card [symmetric])
  then show ?thesis by (simp only: card_cartesian_product card_atLeastLessThan_int diff_0_right nat_power_eq
        zero_le_numeral nat_numeral mult.commute)
qed

lemma count_of_card:
  assumes "bl_inv st" "v = 1 \<or> v = 0"
  shows "count_of st v = Inr (2 ^ PORT_INDEX_MAX_BITS st
     * int (card {x \<in> ips st. ip_allowed st x = (v = ADDR_ALLOWED)}))"
proof -
  obtain c where c: "bl_constraint st = Some c" "con_inv (bl_masks st) c"
    by (rule bl_invE [OF assms(1)]) (rule that)
  have "uint v = 1 \<or> uint v = 0" "(uint v = 1) = (v = ADDR_ALLOWED)"
    using assms(2) by (auto simp: ADDR_ALLOWED_def)
  with c show ?thesis
    using constraint_count_card [OF c(2), of "uint v"] card_allowed [OF assms(1) c(1), of "uint v"]
    by (simp add: count_of_def the_constraint_def constraint_count_ipvx_of_value_ui_def)
qed

section \<open>One entry\<close>

text \<open>
  What an entry may do to the state: keep the invariant and the configuration, and turn addresses
  only to the value it paints.
\<close>

definition paints_only :: "u32 \<Rightarrow> blocklist \<Rightarrow> blocklist \<Rightarrow> bool" where
  "paints_only v st st' \<longleftrightarrow> bl_inv st' \<and> same_config st st'
     \<and> (\<forall>x \<in> ips st. ip_allowed st' x \<noteq> ip_allowed st x \<longrightarrow> ip_allowed st' x = (v = ADDR_ALLOWED))"

definition colour_ok :: "u32 \<Rightarrow> bool" where
  "colour_ok v \<longleftrightarrow> v = ADDR_ALLOWED \<or> v = ADDR_DISALLOWED"

lemma paints_only_refl: "bl_inv st \<Longrightarrow> paints_only v st st"
  by (simp add: paints_only_def)

lemma paints_only_inv: "paints_only v st st' \<Longrightarrow> bl_inv st'"
  by (simp add: paints_only_def)

lemma paints_only_trans: "paints_only v st st' \<Longrightarrow> paints_only v st' st'' \<Longrightarrow> paints_only v st st''"
  unfolding paints_only_def using same_config_trans same_configD(10) by blast

lemma add_constraint_paints:
  assumes "bl_inv st" "p \<in> ips st" "0 \<le> l" "l \<le> int (IPVX_MAX_PREFIX_LEN st)" "colour_ok v"
    "add_constraint st p l v = Inr st'"
  shows "paints_only v st st'"
proof -
  have l: "int (nat l) = l" "nat l \<le> IPVX_MAX_PREFIX_LEN st" using assms(3,4) by linarith+
  show ?thesis
    using add_constraint_ok [OF assms(1,2) l(2), of v] assms(5,6) l(1)
    unfolding paints_only_def colour_ok_def by (metis Inr_inject)
qed

lemma from_bits_ips:
  "mpz_from_uint8s_bits bytes (IPVX_MAX_PREFIX_LEN st) = Inr a \<Longrightarrow> a \<in> ips st"
  using mpz_from_uint8s_bits_bounds by (auto simp: ips_def)

lemma parse_prefix_len_bounds: "parse_prefix_len st l = Some n \<Longrightarrow> 0 \<le> n \<and> n \<le> int (IP_MAX_PREFIX_LEN st)"
  by (auto simp: parse_prefix_len_def Let_def split: prod.splits if_splits)

lemma add_resolved_paints:
  "add_resolved res l v ret st = Inr (r, st') \<Longrightarrow> bl_inv st \<Longrightarrow> 0 \<le> l \<Longrightarrow>
   l \<le> int (IPVX_MAX_PREFIX_LEN st) \<Longrightarrow> colour_ok v \<Longrightarrow> paints_only v st st'"
proof (induction res l v ret st rule: add_resolved.induct)
  case (1 l v ret st)
  then show ?case by (simp add: paints_only_refl)
next
  case (2 fam bytes res l v ret st)
  show ?case
  proof (cases "fam \<noteq> (if IPV46_FLAG st = 6 then Family6 else Family4)")
    case True
    with 2 show ?thesis by simp
  next
    case False
    then obtain a st1 where s: "mpz_from_uint8s_bits bytes (IPVX_MAX_PREFIX_LEN st) = Inr a"
      "add_constraint st a l v = Inr st1" "add_resolved res l v 0 st1 = Inr (r, st')"
      using 2(3) by auto
    have p: "paints_only v st st1"
      by (rule add_constraint_paints [OF 2(4) from_bits_ips [OF s(1)] 2(5-7) s(2)])
    then have "paints_only v st1 st'"
      using 2(2) [OF False s(3)] 2(5-7) same_configD(1) [of st st1]
      by (simp add: paints_only_def)
    with p show ?thesis by (rule paints_only_trans)
  qed
qed

lemma init_from_cidr_paints:
  assumes "init_from_cidr net st s v = Inr (r, st')" "bl_inv st" "colour_ok v"
  shows "paints_only v st st'"
proof -
  obtain ip len where sp: "split_at_char (CHR ''/'') s = (ip, len)" by fastforce
  let ?l = "case len of None \<Rightarrow> Some (int (IPVX_MAX_PREFIX_LEN st)) | Some l \<Rightarrow> parse_prefix_len st l"
  have e: "init_from_cidr net st s v = (case ?l of
          None \<Rightarrow> Inr (-1, st)
        | Some prefix_len \<Rightarrow>
            if prefix_len > int (IPVX_MAX_PREFIX_LEN st) then Inr (0, st)
            else case inet_str2in net ip (if IPV46_FLAG st = 6 then 6 else IPV46_FLAG st) of
              Some bytes \<Rightarrow>
                bind_out (mpz_from_uint8s_bits bytes (IPVX_MAX_PREFIX_LEN st)) (\<lambda>addr.
                bind_out (add_constraint st addr prefix_len v) (\<lambda>st'. Inr (0, st')))
            | None \<Rightarrow>
                (case getaddrinfo net ip of
                   None \<Rightarrow> Inr (-1, st)
                 | Some res \<Rightarrow> add_resolved res prefix_len v (-1) st))"
    by (simp add: init_from_cidr_def sp)
  show ?thesis
  proof (cases "?l")
    case None
    then show ?thesis using assms by (simp add: e paints_only_refl)
  next
    case (Some n)
    have n: "0 \<le> n" using Some parse_prefix_len_bounds by (auto split: option.splits)
    show ?thesis
    proof (cases "n > int (IPVX_MAX_PREFIX_LEN st)")
      case True
      then show ?thesis using assms Some by (simp add: e paints_only_refl)
    next
      case False
      then have le: "n \<le> int (IPVX_MAX_PREFIX_LEN st)" by simp
      show ?thesis
      proof (cases "inet_str2in net ip (if IPV46_FLAG st = 6 then 6 else IPV46_FLAG st)")
        case N: None
        then show ?thesis
          using assms Some False add_resolved_paints [OF _ assms(2) n le assms(3)]
          by (auto simp: e paints_only_refl simp del: if_cancel split: option.splits)
      next
        case S: (Some bytes)
        then obtain a where "mpz_from_uint8s_bits bytes (IPVX_MAX_PREFIX_LEN st) = Inr a"
          "add_constraint st a n v = Inr st'"
          using assms(1) Some False by (auto simp: e simp del: if_cancel)
        then show ?thesis
          using add_constraint_paints [OF assms(2) from_bits_ips n le assms(3)] by simp
      qed
    qed
  qed
qed

lemma range_loop_paints:
  "range_loop net v ign a b bs st = Inr (r, st') \<Longrightarrow> bl_inv st \<Longrightarrow> colour_ok v \<Longrightarrow>
   paints_only v st st'"
proof (induction net v ign a b bs st arbitrary: st' rule: range_loop.induct)
  case (1 net v ign a b bs st)
  show ?case
  proof (cases "a \<le> b")
    case False
    then show ?thesis using "1.prems" by (simp add: range_loop.simps paints_only_refl)
  next
    case True
    then obtain bs' s q st1 where s: "mpz_to_uint8s a bs (IP_MAX_PREFIX_BYTES st) = Inr bs'"
      "inet_in2str net bs' (IPV46_FLAG st) = Some s" "CHR ''-'' \<notin> set s"
      "init_from_cidr net st s v = Inr (q, st1)"
      and n: "(if q \<noteq> 0 \<and> \<not> ign then Inr (-1, st1)
               else range_loop net v ign (a + 1) b bs' st1) = Inr (r, st')"
      using "1.prems"(1) by (subst (asm) range_loop.simps) (auto split: option.splits if_splits)
    have p: "paints_only v st st1" by (rule init_from_cidr_paints [OF s(4) "1.prems"(2,3)])
    show ?thesis
    proof (cases "q \<noteq> 0 \<and> \<not> ign")
      case stop: True
      with n p show ?thesis by simp
    next
      case go: False
      then have "range_loop net v ign (a + 1) b bs' st1 = Inr (r, st')" using n by auto
      then have "paints_only v st1 st'"
        using "1.IH" [OF True s(2,3) go] paints_only_inv [OF p] "1.prems"(3) by blast
      with p show ?thesis by (rule paints_only_trans)
    qed
  qed
qed

lemma init_from_string_paints:
  assumes "init_from_string net st s v ign = Inr (r, st')" "bl_inv st" "colour_ok v"
  shows "paints_only v st st'"
proof -
  obtain a b where "split_at_char (CHR ''-'') s = (a, b)" by fastforce
  with assms show ?thesis
    using init_from_cidr_paints [of net st s v r st']
      range_loop_paints [of net v ign _ _ _ st r st']
    by (cases b) (auto simp: init_from_string_def split: option.splits)
qed

lemma init_lines_paints:
  "init_lines net v ign ls st = Inr st' \<Longrightarrow> bl_inv st \<Longrightarrow> colour_ok v \<Longrightarrow> paints_only v st st'"
proof (induction net v ign ls st rule: init_lines.induct)
  case (2 net v ign line rest st)
  let ?t = "takeWhile (\<lambda>c. c \<noteq> CHR ''#'') (takeWhile (\<lambda>c. c \<noteq> nul) line)"
  show ?case
  proof (cases "sscanf_word 256 ?t")
    case None
    with 2 show ?thesis by simp
  next
    case (Some ip)
    then obtain q st1 where s: "\<not> 256 \<le> length ip" "init_from_string net st ip v ign = Inr (q, st1)"
      "\<not> (q \<noteq> 0 \<and> \<not> ign)" "init_lines net v ign rest st1 = Inr st'"
      using 2(3) by (auto split: if_splits)
    have p: "paints_only v st st1" by (rule init_from_string_paints [OF s(2) 2(4,5)])
    have "paints_only v st1 st'"
      using 2(2) [OF refl Some s(1,3,4) paints_only_inv [OF p] 2(5)] .
    with p show ?thesis by (rule paints_only_trans)
  qed
qed (simp add: paints_only_refl)

lemma init_from_array_paints:
  "init_from_array net v ign es st = Inr st' \<Longrightarrow> bl_inv st \<Longrightarrow> colour_ok v \<Longrightarrow> paints_only v st st'"
proof (induction net v ign es st rule: init_from_array.induct)
  case (2 net v ign cidr cidrs st)
  obtain q st1 where s: "init_from_string net st cidr v ign = Inr (q, st1)"
    "\<not> (q \<noteq> 0 \<and> \<not> ign)" "init_from_array net v ign cidrs st1 = Inr st'"
    using 2(2) by (auto split: if_splits)
  have p: "paints_only v st st1" by (rule init_from_string_paints [OF s(1) 2(3,4)])
  have "paints_only v st1 st'"
    using 2(1) [OF s(2,3) paints_only_inv [OF p] 2(4)] .
  with p show ?case by (rule paints_only_trans)
qed (simp add: paints_only_refl)

lemma opt_file_paints:
  "opt_file net f v ign st = Inr st' \<Longrightarrow> bl_inv st \<Longrightarrow> colour_ok v \<Longrightarrow> paints_only v st st'"
  by (auto simp: opt_file_def init_from_file_def paints_only_refl
      intro: init_lines_paints split: option.splits)

lemma opt_array_paints:
  "opt_array net es v ign st = Inr st' \<Longrightarrow> bl_inv st \<Longrightarrow> colour_ok v \<Longrightarrow> paints_only v st st'"
  by (auto simp: opt_array_def paints_only_refl intro: init_from_array_paints split: option.splits)

lemma colour_ok_simps [simp]: "colour_ok ADDR_ALLOWED" "colour_ok ADDR_DISALLOWED"
  by (simp_all add: colour_ok_def)

section \<open>Initialisation\<close>

definition fresh :: "blocklist \<Rightarrow> bool" where
  "fresh st \<longleftrightarrow> bl_constraint st = None \<and> bl_masks st = initial_mask"

lemma init_constraint_ok:
  assumes "init_constraint st v = Inr st'" "bl_masks st = initial_mask" "lengths_ok st" "colour_ok v"
  shows "bl_inv st' \<and> (\<forall>x. ip_allowed st' x = (v = ADDR_ALLOWED))
    \<and> IPV46_FLAG st' = IPV46_FLAG st \<and> IPVX_MAX_PREFIX_LEN st' = IPVX_MAX_PREFIX_LEN st
    \<and> PORT_MAX_BITS st' = PORT_MAX_BITS st \<and> INDEX_MAX_BITS st' = INDEX_MAX_BITS st"
proof -
  obtain g c where i: "constraint_init (uint v) (IPVX_PORT_INDEX_MAX_BITS st) initial_mask = Inr (g, c)"
    and st': "st' = st\<lparr>bl_masks := g, bl_constraint := Some c\<rparr>"
    using assms(1,2) by (auto simp: init_constraint_def constraint_init_ui_def)
  have c: "con_inv g c" "max_prefix_len g = IPVX_PORT_INDEX_MAX_BITS st" "\<And>a. value_at g c a = uint v"
    using constraint_init_inv [OF i] by auto
  have v: "uint v \<in> {0, 1}" "uint v = 1 \<longleftrightarrow> v = ADDR_ALLOWED"
    using assms(4) by (auto simp: colour_ok_def ADDR_ALLOWED_def ADDR_DISALLOWED_def)
  have "lengths_ok st'" using assms(3) by (simp add: st' lengths_ok_def)
  then show ?thesis using c v by (auto simp: bl_inv_def ip_allowed_def ip_value_def st')
qed

lemma set_lengths_ok:
  assumes "set_lengths st il pl flag xl = Inr st'"
  shows "lengths_ok st' \<and> bl_masks st' = bl_masks st \<and> bl_constraint st' = bl_constraint st
    \<and> IPV46_FLAG st' = flag \<and> IPVX_MAX_PREFIX_LEN st' = il
    \<and> PORT_MAX_BITS st' = pl \<and> INDEX_MAX_BITS st' = xl
    \<and> pl \<le> PORT_MAX_BITS st \<and> xl \<le> INDEX_MAX_BITS st \<and> (flag = 4 \<or> flag = 6)
    \<and> il \<le> (if flag = 6 then 128 else 32)
    \<and> get_allowlisted_cidrs st' = [] \<and> get_blocklisted_cidrs st' = []"
  using assms
  by (auto simp: set_lengths_def lengths_ok_def Let_def get_allowlisted_cidrs_def
      get_blocklisted_cidrs_def empty_ll_def split: if_splits)

text \<open>The documented meaning of the two all-zero addresses.\<close>

definition parses_zero :: "resolver \<Rightarrow> bool" where
  "parses_zero net \<longleftrightarrow> inet_pton net Family6 ''::'' = Some (replicate 16 0)
     \<and> inet_pton net Family4 ''0.0.0.0'' = Some (replicate 4 0)"

text \<open>A literal address: what the parser of entries does with it, with and without a length.\<close>

lemma mpz_from_uint8s_bits_value:
  assumes "b \<le> 8 * length bs"
  shows "mpz_from_uint8s_bits bs b = Inr (int (be_value bs) div 2 ^ (8 * length bs - b))"
proof -
  let ?n = "bytes_of_bits b" and ?s = "shift_of_bits b"
  have n: "?n \<le> length bs" using assms by (simp add: bytes_of_bits_def)
  have split: "b + ?s = 8 * ?n" by (rule bits_split)
  have "be_value bs = be_value (take ?n bs) * 256 ^ (length bs - ?n) + be_value (drop ?n bs)"
    using be_value_append [of "take ?n bs" "drop ?n bs"] by simp
  moreover have "be_value (drop ?n bs) < 256 ^ (length bs - ?n)"
    using be_value_less [of "drop ?n bs"] by simp
  ultimately have "be_value (take ?n bs) = be_value bs div 256 ^ (length bs - ?n)"
    by simp
  then have "int (be_value (take ?n bs)) = int (be_value bs) div 2 ^ (8 * (length bs - ?n))"
    by (simp add: zdiv_int pow256)
  moreover have "8 * length bs - b = 8 * (length bs - ?n) + ?s" using split n by simp
  ultimately show ?thesis using n
    by (simp add: mpz_from_uint8s_bits_alt mpz_from_uint8s_def mpz_import_def zdiv_zmult2_eq power_add)
qed

lemma be_value_ips:
  assumes "lengths_ok st" "length bs = IP_MAX_PREFIX_BYTES st"
  shows "int (be_value bs) div 2 ^ (IP_MAX_PREFIX_LEN st - IPVX_MAX_PREFIX_LEN st) \<in> ips st"
proof -
  have "IPVX_MAX_PREFIX_LEN st \<le> 8 * length bs" using assms by (simp add: lengths_ok_def)
  from mpz_from_uint8s_bits_value [OF this] show ?thesis
    using from_bits_ips [of bs st] assms by (simp add: lengths_ok_def)
qed

definition flag_family :: "nat \<Rightarrow> ip_family" where
  "flag_family flag = (if flag = 6 then Family6 else Family4)"

lemma inet_str2in_flag:
  "lengths_ok st \<Longrightarrow> inet_str2in net s (IPV46_FLAG st) = inet_pton net (flag_family (IPV46_FLAG st)) s"
  by (auto simp: inet_str2in_def family_of_flag_def flag_family_def lengths_ok_def)

lemma inet_in2str_flag:
  "lengths_ok st \<Longrightarrow> inet_in2str net s (IPV46_FLAG st) = inet_ntop net (flag_family (IPV46_FLAG st)) s"
  by (auto simp: inet_in2str_def family_of_flag_def flag_family_def lengths_ok_def)

definition top_bits :: "blocklist \<Rightarrow> mpz \<Rightarrow> mpz" where
  "top_bits st m = m div 2 ^ (IP_MAX_PREFIX_LEN st - IPVX_MAX_PREFIX_LEN st)"

lemma init_from_cidr_literal:
  assumes "split_at_char (CHR ''/'') s = (ip, l)"
    "(case l of None \<Rightarrow> Some (int (IPVX_MAX_PREFIX_LEN st)) | Some l \<Rightarrow> parse_prefix_len st l) = Some (int n)"
    "n \<le> IPVX_MAX_PREFIX_LEN st" "bl_inv st" "colour_ok v"
    "inet_pton net (flag_family (IPV46_FLAG st)) ip = Some bytes"
    "length bytes = IP_MAX_PREFIX_BYTES st"
  obtains st' where "init_from_cidr net st s v = Inr (0, st')" "bl_inv st'" "same_config st st'"
    "\<And>x. x \<in> ips st \<Longrightarrow> ip_allowed st' x \<longleftrightarrow>
       (if ip_covers st (top_bits st (int (be_value bytes))) n x then v = ADDR_ALLOWED
        else ip_allowed st x)"
proof -
  have L: "lengths_ok st" using assms(4) by (simp add: bl_inv_def)
  let ?p = "top_bits st (int (be_value bytes))"
  have p: "?p \<in> ips st" using be_value_ips [OF L assms(7)] by (simp add: top_bits_def)
  have fb: "mpz_from_uint8s_bits bytes (IPVX_MAX_PREFIX_LEN st) = Inr ?p"
    using mpz_from_uint8s_bits_value [of "IPVX_MAX_PREFIX_LEN st" bytes] L assms(7)
    by (simp add: lengths_ok_def top_bits_def)
  obtain st' where a: "add_constraint st ?p (int n) v = Inr st'" "bl_inv st'" "same_config st st'"
    "\<And>x. x \<in> ips st \<Longrightarrow>
       ip_allowed st' x \<longleftrightarrow> (if ip_covers st ?p n x then v = ADDR_ALLOWED else ip_allowed st x)"
    using add_constraint_ok [OF assms(4) p assms(3)] assms(5) unfolding colour_ok_def by metis
  have flag: "(if IPV46_FLAG st = 6 then 6 else IPV46_FLAG st) = IPV46_FLAG st" by simp
  have "init_from_cidr net st s v = Inr (0, st')"
    using a(1) fb assms(3,6) unfolding init_from_cidr_def flag
    by (simp add: assms(1,2) inet_str2in_flag [OF L])
  with a show ?thesis by (intro that)
qed

lemma ip_covers_full: "ip_covers st p (IPVX_MAX_PREFIX_LEN st) x \<longleftrightarrow> x = p"
  by (simp add: ip_covers_def covers_def)

lemma block_zero_ok:
  assumes "block_zero net st ign = Inr st'" "bl_inv st" "parses_zero net"
  shows "bl_inv st' \<and> same_config st st'
    \<and> (\<forall>x \<in> ips st. ip_allowed st' x \<longleftrightarrow> x \<noteq> 0 \<and> ip_allowed st x)"
proof -
  let ?z = "if IPV46_FLAG st = 6 then ''::'' else ''0.0.0.0''"
  let ?b = "replicate (IP_MAX_PREFIX_BYTES st) 0"
  have L: "lengths_ok st" using assms(2) by (simp add: bl_inv_def)
  have z: "inet_pton net (flag_family (IPV46_FLAG st)) ?z = Some ?b"
    using assms(3) L by (auto simp: parses_zero_def flag_family_def lengths_ok_def)
  have s: "split_at_char (CHR ''-'') ?z = (?z, None)" "split_at_char (CHR ''/'') ?z = (?z, None)"
    by simp_all
  obtain st1 where c: "init_from_cidr net st ?z ADDR_DISALLOWED = Inr (0, st1)" "bl_inv st1"
    "same_config st st1"
    "\<And>x. x \<in> ips st \<Longrightarrow> ip_allowed st1 x \<longleftrightarrow>
       (if ip_covers st (top_bits st (int (be_value ?b))) (IPVX_MAX_PREFIX_LEN st) x
        then ADDR_DISALLOWED = ADDR_ALLOWED else ip_allowed st x)"
    using init_from_cidr_literal [OF s(2) _ order_refl assms(2) _ z, of ADDR_DISALLOWED] by auto
  have "st1 = st'" using assms(1) c(1) s(1) by (simp add: block_zero_def init_from_string_def)
  moreover have "ADDR_DISALLOWED \<noteq> ADDR_ALLOWED" by (simp add: ADDR_ALLOWED_def ADDR_DISALLOWED_def)
  ultimately show ?thesis using c(2-4)
    by (auto simp: ip_covers_full be_value_zeros top_bits_def)
qed

lemma init_lists_ok:
  assumes "init_lists net st af bf ae be ign = Inr st'" "bl_masks st = initial_mask" "lengths_ok st"
  shows "bl_inv st' \<and> IPV46_FLAG st' = IPV46_FLAG st \<and> IPVX_MAX_PREFIX_LEN st' = IPVX_MAX_PREFIX_LEN st
    \<and> PORT_MAX_BITS st' = PORT_MAX_BITS st \<and> INDEX_MAX_BITS st' = INDEX_MAX_BITS st"
proof -
  let ?keep = "\<lambda>s. bl_inv s \<and> IPV46_FLAG s = IPV46_FLAG st
    \<and> IPVX_MAX_PREFIX_LEN s = IPVX_MAX_PREFIX_LEN st \<and> PORT_MAX_BITS s = PORT_MAX_BITS st
    \<and> INDEX_MAX_BITS s = INDEX_MAX_BITS st"
  have step: "?keep s'" if "paints_only v s s'" "?keep s" for s s' v
    using that same_configD [of s s'] by (simp add: paints_only_def)
  note init = init_constraint_ok [OF _ assms(2,3)]
  obtain s where s: "?keep s"
    and rest: "bind_out (opt_file net bf ADDR_DISALLOWED ign s) (opt_array net be ADDR_DISALLOWED ign) = Inr st'"
  proof (cases "af \<noteq> None \<or> (\<exists>e es. ae = Some (e # es))")
    case True
    then obtain s1 s2 s3 where i: "init_constraint st ADDR_DISALLOWED = Inr s1"
      and f: "opt_file net af ADDR_ALLOWED ign s1 = Inr s2" and a: "opt_array net ae ADDR_ALLOWED ign s2 = Inr s3"
      and rest: "bind_out (opt_file net bf ADDR_DISALLOWED ign s3) (opt_array net be ADDR_DISALLOWED ign) = Inr st'"
      using assms(1) unfolding init_lists_def by (subst (asm) if_P) auto
    have k1: "?keep s1" using init [OF i] by simp
    have k2: "?keep s2" using step [OF opt_file_paints [OF f] k1] k1 by simp
    have k3: "?keep s3" using step [OF opt_array_paints [OF a] k2] k2 by simp
    show ?thesis by (rule that [OF k3 rest])
  next
    case False
    then obtain s1 where i: "init_constraint st ADDR_ALLOWED = Inr s1"
      and rest: "bind_out (opt_file net bf ADDR_DISALLOWED ign s1) (opt_array net be ADDR_DISALLOWED ign) = Inr st'"
      using assms(1) unfolding init_lists_def by (subst (asm) if_not_P) auto
    have "?keep s1" using init [OF i] by simp
    then show ?thesis using rest by (rule that)
  qed
  from rest obtain s4 where f: "opt_file net bf ADDR_DISALLOWED ign s = Inr s4"
    and a: "opt_array net be ADDR_DISALLOWED ign s4 = Inr st'" by auto
  have k4: "?keep s4" using step [OF opt_file_paints [OF f] s] s by simp
  show ?thesis using step [OF opt_array_paints [OF a] k4] k4 by simp
qed

lemma paint_keeps:
  assumes "bl_inv st" "bl_constraint st = Some c"
    "constraint_paint_value_ui (bl_masks st) c v = Inr c'"
  shows "bl_inv (st\<lparr>bl_constraint := Some c'\<rparr>) \<and> same_config st (st\<lparr>bl_constraint := Some c'\<rparr>)
    \<and> (\<forall>x. ip_allowed (st\<lparr>bl_constraint := Some c'\<rparr>) x = ip_allowed st x)
    \<and> painted c' \<and> paint_value c' = uint v"
proof -
  have I: "con_inv (bl_masks st) c" using assms(1,2) by (auto simp: bl_inv_def)
  obtain c1 where c1: "constraint_paint_value (bl_masks st) c (uint v) = Inr c1"
    "con_inv (bl_masks st) c1" "painted c1" "paint_value c1 = uint v"
    "\<And>a. value_at (bl_masks st) c1 a = value_at (bl_masks st) c a"
    using constraint_paint_ok [OF I] by blast
  have eq: "c1 = c'" using c1(1) assms(3) by (simp add: constraint_paint_value_ui_def)
  let ?st = "st\<lparr>bl_constraint := Some c'\<rparr>"
  have iv: "ip_value ?st c' x = ip_value st c x" for x using c1(5) by (simp add: ip_value_def eq)
  have "same_config st ?st"
    unfolding same_config_def
    by (intro exI [of _ "Some c'"] exI [of _ "blocklisted_cidrs st"] exI [of _ "allowlisted_cidrs st"]) simp
  moreover have "bl_inv ?st"
    using assms(1,2) c1(2,5) iv by (auto simp: bl_inv_def eq lengths_ok_def)
  moreover have "ip_allowed ?st x = ip_allowed st x" for x
    using iv assms(2) by (simp add: ip_allowed_def)
  ultimately show ?thesis using c1(3,4) by (simp add: eq)
qed

text \<open>What a successful \<open>blocklist_init\<close> decomposes into.\<close>

lemma blocklist_init_steps:
  assumes "blocklist_init net st0 af bf ae be ign il pl flag xl = Inr (ret, st)"
  obtains st1 st2 st3 c c' n where "bl_constraint st0 = None"
    "set_lengths st0 il pl flag xl = Inr st1" "init_lists net st1 af bf ae be ign = Inr st2"
    "block_zero net st2 ign = Inr st3" "bl_constraint st3 = Some c"
    "constraint_paint_value_ui (bl_masks st3) c ADDR_ALLOWED = Inr c'"
    "st = st3\<lparr>bl_constraint := Some c'\<rparr>" "blocklist_count_allowed_ip st = Inr n"
    "ret = (if n = 0 then EXIT_FAILURE else EXIT_SUCCESS)"
  using assms
  by (auto simp: blocklist_init_def Let_def the_constraint_def split: if_splits option.splits)

lemma count_allowed_ip:
  assumes "bl_inv st"
  shows "blocklist_count_allowed_ip st = Inr (int (card {x \<in> ips st. ip_allowed st x}))"
  using count_of_card [OF assms, of ADDR_ALLOWED]
  by (simp add: blocklist_count_allowed_ip_def) (simp add: ADDR_ALLOWED_def)

lemma finite_ips [simp]: "finite (ips st)"
  by (simp add: ips_def)

lemma blocklist_init_inv:
  assumes "blocklist_init net st0 af bf ae be ign il pl flag xl = Inr (ret, st)" "fresh st0"
    "parses_zero net"
  shows "bl_inv st \<and> \<not> ip_allowed st 0 \<and> IPV46_FLAG st = flag \<and> IPVX_MAX_PREFIX_LEN st = il
    \<and> PORT_MAX_BITS st = pl \<and> INDEX_MAX_BITS st = xl
    \<and> ret = (if \<exists>x \<in> ips st. ip_allowed st x then EXIT_SUCCESS else EXIT_FAILURE)
    \<and> (\<exists>c. bl_constraint st = Some c \<and> painted c \<and> paint_value c = uint ADDR_ALLOWED)"
proof -
  obtain st1 st2 st3 c c' n where s: "bl_constraint st0 = None"
    "set_lengths st0 il pl flag xl = Inr st1" "init_lists net st1 af bf ae be ign = Inr st2"
    "block_zero net st2 ign = Inr st3" "bl_constraint st3 = Some c"
    "constraint_paint_value_ui (bl_masks st3) c ADDR_ALLOWED = Inr c'"
    "st = st3\<lparr>bl_constraint := Some c'\<rparr>" "blocklist_count_allowed_ip st = Inr n"
    "ret = (if n = 0 then EXIT_FAILURE else EXIT_SUCCESS)"
    by (rule blocklist_init_steps [OF assms(1)]) (rule that)
  have l: "lengths_ok st1" "bl_masks st1 = initial_mask" "IPV46_FLAG st1 = flag"
    "IPVX_MAX_PREFIX_LEN st1 = il" "PORT_MAX_BITS st1 = pl" "INDEX_MAX_BITS st1 = xl"
    using set_lengths_ok [OF s(2)] assms(2) by (auto simp: fresh_def)
  have i2: "bl_inv st2" "IPV46_FLAG st2 = flag" "IPVX_MAX_PREFIX_LEN st2 = il"
    "PORT_MAX_BITS st2 = pl" "INDEX_MAX_BITS st2 = xl"
    using init_lists_ok [OF s(3) l(2,1)] l by auto
  have b: "bl_inv st3" "same_config st2 st3"
    "\<forall>x \<in> ips st2. ip_allowed st3 x \<longleftrightarrow> x \<noteq> 0 \<and> ip_allowed st2 x"
    using block_zero_ok [OF s(4) i2(1) assms(3)] by auto
  note p = paint_keeps [OF b(1) s(5,6), folded s(7)]
  have inv: "bl_inv st" using p by blast
  have same: "same_config st2 st" using p b(2) same_config_trans by blast
  have "0 \<in> ips st2" by (simp add: ips_def)
  then have "\<not> ip_allowed st 0" using b(3) p by simp
  moreover have "n = int (card {x \<in> ips st. ip_allowed st x})" using count_allowed_ip [OF inv] s(8) by simp
  then have "n = 0 \<longleftrightarrow> \<not> (\<exists>x \<in> ips st. ip_allowed st x)" by auto
  ultimately show ?thesis
    using inv same_configD [OF same] i2 s(7,9) p by auto
qed

section \<open>Lists of literal entries\<close>

text \<open>
  A literal entry: the text of an address without dash or slash, the bytes it stands for and a prefix
  length. \<open>cidr_text\<close> is how a list writes it, \<open>in_cidr\<close> what it means for the top bits of an address.
\<close>

type_synonym cidr = "string \<times> u8 list \<times> nat"

definition cidr_text :: "cidr \<Rightarrow> string" where
  "cidr_text e = (case e of (ip, _, n) \<Rightarrow> ip @ CHR ''/'' # show_dec n)"

definition ip_bytes_of :: "nat \<Rightarrow> nat" where
  "ip_bytes_of flag = (if flag = 6 then 16 else 4)"

definition cidr_ok :: "resolver \<Rightarrow> nat \<Rightarrow> nat \<Rightarrow> cidr \<Rightarrow> bool" where
  "cidr_ok net flag il e = (case e of (ip, bytes, n) \<Rightarrow>
     CHR ''-'' \<notin> set ip \<and> CHR ''/'' \<notin> set ip \<and> inet_pton net (flag_family flag) ip = Some bytes
     \<and> length bytes = ip_bytes_of flag \<and> n \<le> il)"

definition in_cidr :: "nat \<Rightarrow> nat \<Rightarrow> cidr \<Rightarrow> mpz \<Rightarrow> bool" where
  "in_cidr flag il e x = (case e of (_, bytes, n) \<Rightarrow>
     covers il (int (be_value bytes) div 2 ^ (8 * ip_bytes_of flag - il)) n x)"

lemma lengths_okD:
  assumes "lengths_ok st"
  shows "IP_MAX_PREFIX_BYTES st = ip_bytes_of (IPV46_FLAG st)"
    "IP_MAX_PREFIX_LEN st = 8 * ip_bytes_of (IPV46_FLAG st)"
    "IPVX_MAX_PREFIX_LEN st \<le> IP_MAX_PREFIX_LEN st" "IP_MAX_PREFIX_LEN st \<le> 128"
  using assms by (auto simp: lengths_ok_def ip_bytes_of_def)

lemma parse_show_dec:
  assumes "lengths_ok st" "n \<le> IP_MAX_PREFIX_LEN st"
  shows "parse_prefix_len st (show_dec n) = Some (int n)"
proof -
  have n: "int n \<le> 128" using assms lengths_okD(4) [OF assms(1)] by linarith
  then have "strtol10 (show_dec n) = (int n, False, False, [])"
    by (intro strtol10_show_dec) (simp add: long_max_def)
  moreover have "to_int32 (int n) = int n" using n by (intro to_int32_id) simp_all
  ultimately show ?thesis using assms(2) by (simp add: parse_prefix_len_def)
qed

lemma init_from_string_cidr:
  assumes "bl_inv st" "colour_ok v" "cidr_ok net (IPV46_FLAG st) (IPVX_MAX_PREFIX_LEN st) e"
  obtains st' where "init_from_string net st (cidr_text e) v ign = Inr (0, st')" "bl_inv st'"
    "same_config st st'"
    "\<And>x. x \<in> ips st \<Longrightarrow> ip_allowed st' x \<longleftrightarrow>
       (if in_cidr (IPV46_FLAG st) (IPVX_MAX_PREFIX_LEN st) e x then v = ADDR_ALLOWED else ip_allowed st x)"
proof -
  obtain ip bytes n where e: "e = (ip, bytes, n)" by (cases e) auto
  have L: "lengths_ok st" using assms(1) by (simp add: bl_inv_def)
  note D = lengths_okD [OF L]
  have ok: "CHR ''-'' \<notin> set ip" "CHR ''/'' \<notin> set ip"
    "inet_pton net (flag_family (IPV46_FLAG st)) ip = Some bytes"
    "length bytes = IP_MAX_PREFIX_BYTES st" "n \<le> IPVX_MAX_PREFIX_LEN st"
    using assms(3) D(1) by (auto simp: cidr_ok_def e)
  have "split_at_char (CHR ''/'') (cidr_text e) = (ip, Some (show_dec n))"
    using split_at_char_present [OF ok(2)] by (simp add: cidr_text_def e)
  moreover have "parse_prefix_len st (show_dec n) = Some (int n)"
    using parse_show_dec [OF L] ok(5) D(3) by simp
  ultimately obtain st' where c: "init_from_cidr net st (cidr_text e) v = Inr (0, st')" "bl_inv st'"
    "same_config st st'"
    "\<And>x. x \<in> ips st \<Longrightarrow> ip_allowed st' x \<longleftrightarrow>
       (if ip_covers st (top_bits st (int (be_value bytes))) n x then v = ADDR_ALLOWED
        else ip_allowed st x)"
    using init_from_cidr_literal [of "cidr_text e" ip "Some (show_dec n)" st n v net bytes]
      ok assms(1,2) by auto
  have "CHR ''-'' \<notin> set (cidr_text e)" using ok(1) show_dec_no_sign [of n] by (simp add: cidr_text_def e)
  then have "init_from_string net st (cidr_text e) v ign = Inr (0, st')"
    using c(1) by (simp add: init_from_string_def)
  moreover have "in_cidr (IPV46_FLAG st) (IPVX_MAX_PREFIX_LEN st) e x
      = ip_covers st (top_bits st (int (be_value bytes))) n x" for x
    by (simp add: ip_covers_def in_cidr_def e top_bits_def D(2))
  ultimately show ?thesis using that [of st'] c(2-4) by metis
qed

lemma init_from_array_cidrs:
  assumes "bl_inv st" "colour_ok v"
    "\<forall>e \<in> set es. cidr_ok net (IPV46_FLAG st) (IPVX_MAX_PREFIX_LEN st) e"
  shows "\<exists>st'. init_from_array net v ign (map cidr_text es) st = Inr st' \<and> bl_inv st' \<and> same_config st st'
    \<and> (\<forall>x \<in> ips st. ip_allowed st' x \<longleftrightarrow>
       (if \<exists>e \<in> set es. in_cidr (IPV46_FLAG st) (IPVX_MAX_PREFIX_LEN st) e x
        then v = ADDR_ALLOWED else ip_allowed st x))"
  using assms
proof (induction es arbitrary: st)
  case (Cons e es)
  have "cidr_ok net (IPV46_FLAG st) (IPVX_MAX_PREFIX_LEN st) e" using Cons.prems(3) by simp
  then obtain s1 where s1: "init_from_string net st (cidr_text e) v ign = Inr (0, s1)" "bl_inv s1"
    "same_config st s1"
    "\<And>x. x \<in> ips st \<Longrightarrow> ip_allowed s1 x \<longleftrightarrow>
       (if in_cidr (IPV46_FLAG st) (IPVX_MAX_PREFIX_LEN st) e x then v = ADDR_ALLOWED else ip_allowed st x)"
    by (rule init_from_string_cidr [OF Cons.prems(1,2)]) (rule that)
  note S = same_configD [OF s1(3)]
  obtain s2 where s2: "init_from_array net v ign (map cidr_text es) s1 = Inr s2" "bl_inv s2"
    "same_config s1 s2"
    "\<forall>x \<in> ips st. ip_allowed s2 x \<longleftrightarrow>
       (if \<exists>e \<in> set es. in_cidr (IPV46_FLAG st) (IPVX_MAX_PREFIX_LEN st) e x
        then v = ADDR_ALLOWED else ip_allowed s1 x)"
    using Cons.IH [OF s1(2) Cons.prems(2)] Cons.prems(3) S by auto
  have "init_from_array net v ign (map cidr_text (e # es)) st = Inr s2" using s1(1) s2(1) by simp
  then show ?case
    using s2(2) same_config_trans [OF s1(3) s2(3)] s1(4) s2(4) by (intro exI [of _ s2]) auto
qed simp

section \<open>Ranges\<close>

text \<open>
  The documented behaviour of \<open>inet_ntop\<close> and \<open>inet_pton\<close> that the range loop relies on: the text
  written for an address has no dash and no slash and is read back as the same address.
\<close>

definition text_faithful :: "resolver \<Rightarrow> ip_family \<Rightarrow> nat \<Rightarrow> bool" where
  "text_faithful net fam k \<longleftrightarrow> (\<forall>bs. length bs = k \<longrightarrow> (\<exists>s. inet_ntop net fam bs = Some s
     \<and> CHR ''-'' \<notin> set s \<and> CHR ''/'' \<notin> set s \<and> inet_pton net fam s = Some bs))"

text \<open>
  Exporting a larger number over the bytes of a smaller one leaves no stale byte: the bytes on the
  left of the exported ones were zero already.
\<close>

lemma mpz_to_uint8s_over:
  assumes "0 \<le> m" "m < 256 ^ k" "length buf = k" "int (be_value buf) \<le> m"
  obtains buf' where "mpz_to_uint8s m buf k = Inr buf'" "length buf' = k" "int (be_value buf') = m"
proof -
  obtain ex where ex: "mpz_to_uint8s m buf k = Inr (take (k - length ex) buf @ ex)"
    "ex = mpz_export m" "length ex \<le> k"
    using mpz_to_uint8s_fits [OF assms(1-3)] by auto
  have v: "be_value ex = nat m" using assms(1) by (simp add: ex(2) mpz_export_def be_value_digits)
  have "be_value buf \<le> be_value ex" using assms(4) v by linarith
  then have "be_value buf < 256 ^ length ex" using be_value_less [of ex] by linarith
  moreover have "be_value buf = be_value (take (k - length ex) buf) * 256 ^ length ex
      + be_value (drop (k - length ex) buf)"
    using be_value_append [of "take (k - length ex) buf" "drop (k - length ex) buf"] ex(3) assms(3) by simp
  ultimately have "be_value (take (k - length ex) buf) * 256 ^ length ex < 1 * 256 ^ length ex" by linarith
  then have "be_value (take (k - length ex) buf) = 0" by (simp only: mult_less_cancel2) simp
  then have "int (be_value (take (k - length ex) buf @ ex)) = m"
    using v assms(1) by (simp add: be_value_append)
  then show ?thesis using ex(1,3) assms(3) by (intro that) simp_all
qed

lemma range_loop_ok:
  assumes "bl_inv st" "colour_ok v" "text_faithful net (flag_family (IPV46_FLAG st)) (IP_MAX_PREFIX_BYTES st)"
    "0 \<le> a" "b < 256 ^ IP_MAX_PREFIX_BYTES st" "length buf = IP_MAX_PREFIX_BYTES st"
    "int (be_value buf) \<le> a"
  shows "\<exists>st'. range_loop net v ign a b buf st = Inr (0, st') \<and> bl_inv st' \<and> same_config st st'
    \<and> (\<forall>x \<in> ips st. ip_allowed st' x \<longleftrightarrow>
       (if \<exists>m \<in> {a .. b}. top_bits st m = x then v = ADDR_ALLOWED else ip_allowed st x))"
  using assms
proof (induction "nat (b + 1 - a)" arbitrary: a buf st)
  case 0
  then have "\<not> a \<le> b" by simp
  then show ?case using 0 by (subst range_loop.simps) simp
next
  case (Suc d)
  let ?k = "IP_MAX_PREFIX_BYTES st"
  have ab: "a \<le> b" using Suc(2) by linarith
  have L: "lengths_ok st" using Suc.prems(1) by (simp add: bl_inv_def)
  have "a < 256 ^ ?k" using ab Suc.prems(5) by linarith
  then obtain buf' where buf': "mpz_to_uint8s a buf ?k = Inr buf'" "length buf' = ?k" "int (be_value buf') = a"
    using mpz_to_uint8s_over [OF Suc.prems(4) _ Suc.prems(6,7)] by metis
  obtain s where s: "inet_ntop net (flag_family (IPV46_FLAG st)) buf' = Some s"
    "CHR ''-'' \<notin> set s" "CHR ''/'' \<notin> set s" "inet_pton net (flag_family (IPV46_FLAG st)) s = Some buf'"
    using Suc.prems(3) buf'(2) by (auto simp: text_faithful_def)
  obtain s1 where s1: "init_from_cidr net st s v = Inr (0, s1)" "bl_inv s1" "same_config st s1"
    "\<And>x. x \<in> ips st \<Longrightarrow> ip_allowed s1 x \<longleftrightarrow>
       (if x = top_bits st a then v = ADDR_ALLOWED else ip_allowed st x)"
    using init_from_cidr_literal [OF split_at_char_absent [OF s(3)] _ order_refl Suc.prems(1,2) s(4) buf'(2)]
    by (auto simp: buf'(3) ip_covers_full)
  note S = same_configD [OF s1(3)]
  obtain s2 where s2: "range_loop net v ign (a + 1) b buf' s1 = Inr (0, s2)" "bl_inv s2" "same_config s1 s2"
    "\<forall>x \<in> ips st. ip_allowed s2 x \<longleftrightarrow>
       (if \<exists>m \<in> {a + 1 .. b}. top_bits st m = x then v = ADDR_ALLOWED else ip_allowed s1 x)"
  proof -
    have "d = nat (b + 1 - (a + 1))" using Suc.hyps(2) by linarith
    moreover have "top_bits s1 = top_bits st" by (simp add: top_bits_def fun_eq_iff S)
    ultimately have "\<exists>s2. range_loop net v ign (a + 1) b buf' s1 = Inr (0, s2) \<and> bl_inv s2
      \<and> same_config s1 s2 \<and> (\<forall>x \<in> ips st. ip_allowed s2 x \<longleftrightarrow>
       (if \<exists>m \<in> {a + 1 .. b}. top_bits st m = x then v = ADDR_ALLOWED else ip_allowed s1 x))"
      using Suc.hyps(1) [of "a + 1" s1 buf'] Suc.prems(2-5) buf'(2,3) s1(2) S by simp
    then show ?thesis using that by blast
  qed
  have "range_loop net v ign a b buf st = Inr (0, s2)"
    using ab buf'(1) s(1,2) s1(1) s2(1) by (subst range_loop.simps) (simp add: inet_in2str_flag [OF L])
  moreover have "{a .. b} = insert a {a + 1 .. b}" using ab by auto
  ultimately show ?case
    using s2(2) same_config_trans [OF s1(3) s2(3)] s1(4) s2(4) by (intro exI [of _ s2]) auto
qed

section \<open>Failing entries\<close>

lemma add_resolved_ret:
  "add_resolved res l v ret st = Inr (r, st') \<Longrightarrow> r = 0 \<or> (r = ret \<and> st' = st)"
proof (induction res l v ret st rule: add_resolved.induct)
  case (2 fam bytes res l v ret st)
  show ?case
  proof (cases "fam \<noteq> (if IPV46_FLAG st = 6 then Family6 else Family4)")
    case True
    with 2 show ?thesis by simp
  next
    case False
    then obtain s1 where "add_resolved res l v 0 s1 = Inr (r, st')" using 2(3) by auto
    from 2(2) [OF False this] show ?thesis by auto
  qed
qed simp

lemma init_from_cidr_ret:
  assumes "init_from_cidr net st s v = Inr (r, st')"
  shows "r = 0 \<or> (r = -1 \<and> st' = st)"
  using assms add_resolved_ret
  by (fastforce simp: init_from_cidr_def split: prod.splits option.splits if_splits)

section \<open>Properties\<close>

text \<open>
  A resolver for the witnesses: the dotted decimal text of IPv4 addresses, \<open>::\<close> as the only IPv6
  address, and no host names.
\<close>

definition ntop4 :: "u8 list \<Rightarrow> string" where
  "ntop4 bs = (case bs of [a, b, c, d] \<Rightarrow>
       show_dec (unat a) @ CHR ''.'' # show_dec (unat b) @ CHR ''.'' # show_dec (unat c)
         @ CHR ''.'' # show_dec (unat d)
     | _ \<Rightarrow> [])"

definition pton4 :: "string \<Rightarrow> u8 list option" where
  "pton4 s = (case split_at_char (CHR ''.'') s of
       (a, Some s1) \<Rightarrow> (case split_at_char (CHR ''.'') s1 of
         (b, Some s2) \<Rightarrow> (case split_at_char (CHR ''.'') s2 of
           (c, Some d) \<Rightarrow> Some (map (\<lambda>t. word_of_int (digits_value 0 t)) [a, b, c, d])
         | _ \<Rightarrow> None)
       | _ \<Rightarrow> None)
     | _ \<Rightarrow> None)"

definition ex_net :: resolver where
  "ex_net = \<lparr>inet_pton = (\<lambda>fam s. case fam of Family4 \<Rightarrow> pton4 s
       | Family6 \<Rightarrow> (if s = ''::'' then Some (replicate 16 0) else None)),
     inet_ntop = (\<lambda>fam bs. case fam of Family4 \<Rightarrow> Some (ntop4 bs) | Family6 \<Rightarrow> None),
     getaddrinfo = (\<lambda>_. None)\<rparr>"

lemma show_dec_no_dot: "CHR ''.'' \<notin> set (show_dec n)"
  using show_dec_digits [of n] by (auto simp: list_all_iff c_isdigit_def)

lemma pton4_ntop4:
  assumes "length bs = 4"
  shows "pton4 (ntop4 bs) = Some bs \<and> CHR ''-'' \<notin> set (ntop4 bs) \<and> CHR ''/'' \<notin> set (ntop4 bs)"
proof -
  obtain a b c d where bs: "bs = [a, b, c, d]"
    using assms by (auto simp: numeral_eq_Suc length_Suc_conv)
  have split: "split_at_char (CHR ''.'') (show_dec n @ CHR ''.'' # r) = (show_dec n, Some r)" for n r
    by (rule split_at_char_present [OF show_dec_no_dot])
  show ?thesis
    using show_dec_digits show_dec_no_sign by (simp add: bs ntop4_def pton4_def split)
qed

lemma ex_net_faithful: "text_faithful ex_net Family4 4"
  using pton4_ntop4 by (simp add: text_faithful_def ex_net_def)

lemma ex_net_zero: "parses_zero ex_net"
proof -
  have "pton4 ''0.0.0.0'' = Some [0, 0, 0, 0]"
    by (simp add: pton4_def digit_value_def)
  then show ?thesis by (simp add: parses_zero_def ex_net_def numeral_eq_Suc)
qed

lemma fresh_initial: "fresh initial_blocklist"
  by (simp add: fresh_def initial_blocklist_def)

lemma allowed_lookup:
  assumes "bl_inv st" "x \<in> ips st"
  shows "blocklist_is_allowed_ipvx st x = Inr (ip_allowed st x)"
proof -
  obtain c where c: "bl_constraint st = Some c" "con_inv (bl_masks st) c"
    "max_prefix_len (bl_masks st) = IPVX_MAX_PREFIX_LEN st + PORT_INDEX_MAX_BITS st"
    "\<And>a. a \<in> addresses (bl_masks st) \<Longrightarrow> value_at (bl_masks st) c a \<in> {0, 1}"
    "\<And>x. ip_allowed st x \<longleftrightarrow> ip_value st c x = 1"
    by (rule bl_invE [OF assms(1)]) (rule that)
  have "ip_value st c x = 0 \<or> ip_value st c x = 1"
    using c(4) [OF ip_address [OF c(3) assms(2), of 0]] by (simp add: ip_value_def)
  then show ?thesis using c(5) [of x] constraint_lookup_value_at [OF c(2)]
    by (auto simp: blocklist_is_allowed_ipvx_def the_constraint_def c(1)
        constraint_lookup_ipvx_for_value_ui_def ip_value_def ADDR_ALLOWED_def mpz_get_ui_def)
qed

lemma block_zero_total:
  assumes "bl_inv st" "parses_zero net"
  shows "\<exists>st'. block_zero net st ign = Inr st'"
proof -
  let ?z = "if IPV46_FLAG st = 6 then ''::'' else ''0.0.0.0''"
  have sp: "split_at_char (CHR ''/'') ?z = (?z, None)" "split_at_char (CHR ''-'') ?z = (?z, None)" by simp_all
  have z: "inet_pton net (flag_family (IPV46_FLAG st)) ?z = Some (replicate (IP_MAX_PREFIX_BYTES st) 0)"
    using assms by (auto simp: parses_zero_def flag_family_def lengths_ok_def bl_inv_def)
  obtain st' where "init_from_cidr net st ?z ADDR_DISALLOWED = Inr (0, st')"
    using init_from_cidr_literal [OF sp(1) _ order_refl assms(1) _ z, of ADDR_DISALLOWED] by auto
  then show ?thesis using sp(2) by (simp add: block_zero_def init_from_string_def)
qed

text \<open>The first stage of the initialisation: all allowed, or the allow entries only.\<close>

lemma allow_stage:
  assumes "lengths_ok s1" "bl_masks s1 = initial_mask" "0 < IPVX_PORT_INDEX_MAX_BITS s1"
    "\<forall>e \<in> set allow. cidr_ok net (IPV46_FLAG s1) (IPVX_MAX_PREFIX_LEN s1) e"
  shows "\<exists>s. (if allow \<noteq> []
        then bind_out (init_constraint s1 ADDR_DISALLOWED) (init_from_array net ADDR_ALLOWED ign (map cidr_text allow))
        else init_constraint s1 ADDR_ALLOWED) = Inr s
      \<and> bl_inv s \<and> IPV46_FLAG s = IPV46_FLAG s1 \<and> IPVX_MAX_PREFIX_LEN s = IPVX_MAX_PREFIX_LEN s1
      \<and> (\<forall>x \<in> ips s. ip_allowed s x \<longleftrightarrow> allow = []
           \<or> (\<exists>e \<in> set allow. in_cidr (IPV46_FLAG s1) (IPVX_MAX_PREFIX_LEN s1) e x))"
proof -
  have ne: "ADDR_DISALLOWED \<noteq> ADDR_ALLOWED" by (simp add: ADDR_ALLOWED_def ADDR_DISALLOWED_def)
  have init: "\<exists>s. init_constraint s1 v = Inr s" for v
    using assms(3) by (auto simp: init_constraint_def constraint_init_ui_def constraint_init_def
        cal_ipvx_mask_def assms(2) initial_mask_def Let_def)
  note init_ok = init_constraint_ok [OF _ assms(2,1)]
  show ?thesis
  proof (cases "allow = []")
    case True
    obtain s where i: "init_constraint s1 ADDR_ALLOWED = Inr s" using init by blast
    show ?thesis using init_ok [OF i] i True by (intro exI [of _ s]) simp
  next
    case False
    obtain s2 where i: "init_constraint s1 ADDR_DISALLOWED = Inr s2" using init by blast
    have k: "bl_inv s2" "IPV46_FLAG s2 = IPV46_FLAG s1" "IPVX_MAX_PREFIX_LEN s2 = IPVX_MAX_PREFIX_LEN s1"
      "\<And>x. \<not> ip_allowed s2 x" using init_ok [OF i] ne by simp_all
    obtain s where s: "init_from_array net ADDR_ALLOWED ign (map cidr_text allow) s2 = Inr s" "bl_inv s"
      "same_config s2 s" "\<forall>x \<in> ips s2. ip_allowed s x \<longleftrightarrow>
         (if \<exists>e \<in> set allow. in_cidr (IPV46_FLAG s2) (IPVX_MAX_PREFIX_LEN s2) e x
          then ADDR_ALLOWED = ADDR_ALLOWED else ip_allowed s2 x)"
      using init_from_array_cidrs [OF k(1), of ADDR_ALLOWED allow net ign] assms(4) k(2,3) by auto
    show ?thesis using s(1,2,4) k i False same_configD [OF s(3)] by (intro exI [of _ s]) simp
  qed
qed

text \<open>
  C10: The three counts agree with the list: there are as many allowed IPs as
  addresses that the lookup allows, each with all its ports, each of these with all its indices; and
  the counts of not allowed targets are the counts of the rest.
\<close>

theorem blocklist_counts:
  assumes "bl_inv st"
  shows "\<exists>n m. n = int (card {x \<in> ips st. blocklist_is_allowed_ipvx st x = Inr True})
    \<and> m = int (card {x \<in> ips st. blocklist_is_allowed_ipvx st x = Inr False})
    \<and> n + m = 2 ^ IPVX_MAX_PREFIX_LEN st
    \<and> blocklist_count_allowed_ip st = Inr n
    \<and> blocklist_count_allowed_ip_port st = Inr (n * 2 ^ PORT_MAX_BITS st)
    \<and> blocklist_count_allowed_ip_port_index st = Inr (n * 2 ^ PORT_MAX_BITS st * 2 ^ INDEX_MAX_BITS st)
    \<and> blocklist_count_not_allowed_ip st = Inr m
    \<and> blocklist_count_not_allowed_ip_port st = Inr (m * 2 ^ PORT_MAX_BITS st)
    \<and> blocklist_count_not_allowed_ip_port_index st
        = Inr (m * 2 ^ PORT_MAX_BITS st * 2 ^ INDEX_MAX_BITS st)"
proof -
  let ?A = "{x \<in> ips st. ip_allowed st x}" and ?B = "{x \<in> ips st. \<not> ip_allowed st x}"
  have A: "{x \<in> ips st. blocklist_is_allowed_ipvx st x = Inr True} = ?A"
    "{x \<in> ips st. blocklist_is_allowed_ipvx st x = Inr False} = ?B"
    using allowed_lookup [OF assms] by auto
  have "card (ips st) = card (?A \<union> ?B)" by (rule arg_cong [where f = card]) auto
  also have "\<dots> = card ?A + card ?B" by (rule card_Un_disjoint) auto
  finally have "int (card ?A) + int (card ?B) = int (card (ips st))" by simp
  moreover have "int (card (ips st)) = 2 ^ IPVX_MAX_PREFIX_LEN st" by (simp add: ips_def)
  ultimately have sum: "int (card ?A) + int (card ?B) = 2 ^ IPVX_MAX_PREFIX_LEN st" by simp
  have P: "2 ^ PORT_INDEX_MAX_BITS st = (2 ^ PORT_MAX_BITS st * 2 ^ INDEX_MAX_BITS st :: int)"
    using assms by (simp add: bl_inv_def lengths_ok_def power_add)
  have n: "count_of st ADDR_ALLOWED = Inr (int (card ?A) * 2 ^ PORT_MAX_BITS st * 2 ^ INDEX_MAX_BITS st)"
    using count_of_card [OF assms, of ADDR_ALLOWED] by (simp add: P) (simp add: ADDR_ALLOWED_def)
  have "ADDR_DISALLOWED \<noteq> ADDR_ALLOWED" by (simp add: ADDR_ALLOWED_def ADDR_DISALLOWED_def)
  then have m: "count_of st ADDR_DISALLOWED = Inr (int (card ?B) * 2 ^ PORT_MAX_BITS st * 2 ^ INDEX_MAX_BITS st)"
    using count_of_card [OF assms, of ADDR_DISALLOWED] by (simp add: P) (simp add: ADDR_DISALLOWED_def)
  have div: "y * 2 ^ PORT_MAX_BITS st * 2 ^ INDEX_MAX_BITS st div 2 ^ PORT_INDEX_MAX_BITS st = y" for y :: int
    by (simp add: P mult.assoc)
  show ?thesis unfolding A
    using sum n m div
    by (simp add: blocklist_count_allowed_ip_def blocklist_count_allowed_ip_port_def
        blocklist_count_allowed_ip_port_index_def blocklist_count_not_allowed_ip_def
        blocklist_count_not_allowed_ip_port_def blocklist_count_not_allowed_ip_port_index_def)
qed

text \<open>A one-bit port and index space over 8-bit prefixes of IPv4, all allowed.\<close>

definition ex_blocklist :: blocklist where
  "ex_blocklist = \<lparr>IPVX_MAX_PREFIX_LEN = 8, PORT_MAX_BITS = 1, IPVX_PORT_MAX_BITS = 9,
     INDEX_MAX_BITS = 1, PORT_INDEX_MAX_BITS = 2, IPVX_PORT_INDEX_MAX_BITS = 10,
     IPV46_FLAG = 4, IP_MAX_PREFIX_LEN = 32, IP_MAX_PREFIX_BYTES = 4,
     bl_masks = \<lparr>max_prefix_len = 10, radix_length = 10, mask_flag = True,
       half_index = 512, max_index = 1024, radix_size = 1\<rparr>,
     bl_constraint = Some \<lparr>root = Leaf 1 0, radix = replicate 1024 0, radix_len = 0,
       painted = False, paint_value = 0\<rparr>,
     blocklisted_cidrs = empty_ll, allowlisted_cidrs = empty_ll\<rparr>"

lemma ex_blocklist_inv: "bl_inv ex_blocklist"
  by (simp add: bl_inv_def ex_blocklist_def lengths_ok_def con_inv_def mask_ok_def ip_value_def value_at_def)

theorem blocklist_counts_witness:
  "blocklist_count_allowed_ip ex_blocklist = Inr 256
   \<and> blocklist_count_allowed_ip_port ex_blocklist = Inr 512
   \<and> blocklist_count_allowed_ip_port_index ex_blocklist = Inr 1024"
proof -
  have "{x \<in> ips ex_blocklist. blocklist_is_allowed_ipvx ex_blocklist x = Inr True} = {0 ..< 256}"
    using allowed_lookup [OF ex_blocklist_inv]
    by (auto simp: ex_blocklist_def ips_def ip_allowed_def ip_value_def value_at_def)
  with blocklist_counts [OF ex_blocklist_inv] show ?thesis
    by (auto simp: ex_blocklist_def)
qed

lemma blocklist_init_literal:
  assumes "fresh st0" "parses_zero net" "flag = 4 \<or> flag = 6" "0 < il" "il \<le> 8 * ip_bytes_of flag"
    "pl \<le> PORT_MAX_BITS st0" "xl \<le> INDEX_MAX_BITS st0"
    "\<forall>e \<in> set (allow @ block). cidr_ok net flag il e"
  shows "\<exists>ret st. blocklist_init net st0 None None (Some (map cidr_text allow))
      (Some (map cidr_text block)) ign il pl flag xl = Inr (ret, st)
    \<and> (\<forall>x \<in> {0 ..< 2 ^ il}. blocklist_is_allowed_ipvx st x = Inr (x \<noteq> 0
         \<and> (allow = [] \<or> (\<exists>e \<in> set allow. in_cidr flag il e x))
         \<and> \<not> (\<exists>e \<in> set block. in_cidr flag il e x)))"
proof -
  have ne: "ADDR_DISALLOWED \<noteq> ADDR_ALLOWED" by (simp add: ADDR_ALLOWED_def ADDR_DISALLOWED_def)
  obtain s1 where s1: "set_lengths st0 il pl flag xl = Inr s1"
    using assms(3,5-7) by (auto simp: set_lengths_def ip_bytes_of_def Let_def)
  note L = set_lengths_ok [OF s1]
  have l: "lengths_ok s1" "bl_masks s1 = initial_mask" using L assms(1) by (auto simp: fresh_def)
  have len: "IPV46_FLAG s1 = flag" "IPVX_MAX_PREFIX_LEN s1 = il" using L by blast+
  have "IPVX_PORT_INDEX_MAX_BITS s1 = IPVX_MAX_PREFIX_LEN s1 + PORT_INDEX_MAX_BITS s1"
    using l(1) unfolding lengths_ok_def by blast
  with len have pos: "0 < IPVX_PORT_INDEX_MAX_BITS s1" using assms(4) by simp
  have ok: "\<forall>e \<in> set allow. cidr_ok net (IPV46_FLAG s1) (IPVX_MAX_PREFIX_LEN s1) e"
    using assms(8) unfolding len set_append by blast
  obtain s where s: "(if allow \<noteq> []
        then bind_out (init_constraint s1 ADDR_DISALLOWED) (init_from_array net ADDR_ALLOWED ign (map cidr_text allow))
        else init_constraint s1 ADDR_ALLOWED) = Inr s"
    "bl_inv s" "IPV46_FLAG s = flag" "IPVX_MAX_PREFIX_LEN s = il"
    "\<forall>x \<in> ips s. ip_allowed s x \<longleftrightarrow> allow = [] \<or> (\<exists>e \<in> set allow. in_cidr flag il e x)"
    using allow_stage [OF l pos ok, of ign] unfolding len by blast
  have okb: "\<forall>e \<in> set block. cidr_ok net (IPV46_FLAG s) (IPVX_MAX_PREFIX_LEN s) e"
    using assms(8) unfolding s(3,4) set_append by blast
  obtain s3 where s3: "init_from_array net ADDR_DISALLOWED ign (map cidr_text block) s = Inr s3" "bl_inv s3"
    "same_config s s3"
    "\<forall>x \<in> ips s. ip_allowed s3 x \<longleftrightarrow> (if \<exists>e \<in> set block. in_cidr flag il e x
       then ADDR_DISALLOWED = ADDR_ALLOWED else ip_allowed s x)"
    using init_from_array_cidrs [OF s(2) colour_ok_simps(2) okb, of ign] unfolding s(3,4) by blast
  note S3 = same_configD [OF s3(3)]
  have lists: "init_lists net s1 None None (Some (map cidr_text allow)) (Some (map cidr_text block)) ign = Inr s3"
  proof -
    have "(\<exists>e es. Some (map cidr_text allow) = Some (e # es)) \<longleftrightarrow> allow \<noteq> []" by (cases allow) auto
    moreover have "opt_file net None v ign = Inr" "opt_array net (Some es) v ign = init_from_array net v ign es" for v es
      by (simp_all add: opt_file_def opt_array_def fun_eq_iff)
    ultimately show ?thesis
      using s(1) s3(1) by (simp add: init_lists_def split del: if_split cong: if_cong)
  qed
  obtain s4 where z: "block_zero net s3 ign = Inr s4"
    using block_zero_total [OF s3(2) assms(2)] by blast
  note Z = block_zero_ok [OF z s3(2) assms(2)]
  obtain c where c: "bl_constraint s4 = Some c" using Z by (auto simp: bl_inv_def)
  have "con_inv (bl_masks s4) c" using Z c by (auto simp: bl_inv_def)
  then obtain c' where c': "constraint_paint_value_ui (bl_masks s4) c ADDR_ALLOWED = Inr c'"
    using constraint_paint_ok by (metis constraint_paint_value_ui_def)
  note P = paint_keeps [OF conjunct1 [OF Z] c c']
  let ?s = "s4\<lparr>bl_constraint := Some c'\<rparr>"
  have PZ: "same_config s4 ?s" "same_config s3 s4" "bl_inv ?s" "\<And>x. ip_allowed ?s x = ip_allowed s4 x"
    "\<And>x. x \<in> ips s3 \<Longrightarrow> ip_allowed s4 x \<longleftrightarrow> x \<noteq> 0 \<and> ip_allowed s3 x"
    using P Z by auto
  have same: "same_config s ?s" by (rule same_config_trans [OF s3(3) same_config_trans [OF PZ(2,1)]])
  have "\<exists>ret. blocklist_init net st0 None None (Some (map cidr_text allow))
      (Some (map cidr_text block)) ign il pl flag xl = Inr (ret, ?s)"
    using assms(1) s1 lists z c c' count_allowed_ip [OF PZ(3)]
    by (simp add: blocklist_init_def fresh_def the_constraint_def Let_def)
  moreover have "blocklist_is_allowed_ipvx ?s x = Inr (x \<noteq> 0
         \<and> (allow = [] \<or> (\<exists>e \<in> set allow. in_cidr flag il e x))
         \<and> \<not> (\<exists>e \<in> set block. in_cidr flag il e x))" if "x \<in> {0 ..< 2 ^ il}" for x
  proof -
    have x: "x \<in> ips s" "x \<in> ips ?s" "x \<in> ips s3"
      using that s(4) same_configD(10) [OF same] S3(10) by (simp_all only: ips_def)
    have "ip_allowed ?s x \<longleftrightarrow> x \<noteq> 0 \<and> (\<not> (\<exists>e \<in> set block. in_cidr flag il e x) \<and> ip_allowed s x)"
      using PZ(4) PZ(5) [OF x(3)] bspec [OF s3(4) x(1)] ne by simp
    then show ?thesis using allowed_lookup [OF PZ(3) x(2)] bspec [OF s(5) x(1)] by auto
  qed
  ultimately show ?thesis by blast
qed

text \<open>
  C11: Whatever the files, arrays and resolver, an initialisation that returns
  leaves a consistent list in which the all-zero address (whose target number is the end marker of a
  scan) is not allowed, the allowed targets are painted, and the result is \<open>EXIT_SUCCESS\<close> exactly
  when some address is allowed.
\<close>

theorem blocklist_init_safe:
  assumes "fresh st0" "parses_zero net"
    "blocklist_init net st0 af bf ae be ign il pl flag xl = Inr (ret, st)"
  shows "bl_inv st \<and> blocklist_is_allowed_ipvx st 0 = Inr False
    \<and> IPVX_MAX_PREFIX_LEN st = il \<and> PORT_MAX_BITS st = pl \<and> INDEX_MAX_BITS st = xl \<and> IPV46_FLAG st = flag
    \<and> (\<exists>c. bl_constraint st = Some c \<and> painted c \<and> paint_value c = uint ADDR_ALLOWED)
    \<and> (ret = EXIT_SUCCESS \<longleftrightarrow> (\<exists>x \<in> ips st. blocklist_is_allowed_ipvx st x = Inr True))"
proof -
  note I = blocklist_init_inv [OF assms(3,1,2)]
  have inv: "bl_inv st" using I by simp
  have z: "0 \<in> ips st" by (simp add: ips_def)
  show ?thesis using I allowed_lookup [OF inv] z
    by (auto simp: EXIT_SUCCESS_def EXIT_FAILURE_def)
qed


text \<open>An example: 10.0.0.0/8 is allowed, 10.1.0.0/16 is blocked, 16 address bits are scanned.\<close>

definition ex_allow :: "cidr list" where "ex_allow = [(''10.0.0.0'', [10, 0, 0, 0], 8)]"
definition ex_block :: "cidr list" where "ex_block = [(''10.1.0.0'', [10, 1, 0, 0], 16)]"

lemma ex_cidrs_ok: "\<forall>e \<in> set (ex_allow @ ex_block). cidr_ok ex_net 4 16 e"
  by (simp add: ex_allow_def ex_block_def cidr_ok_def ex_net_def flag_family_def ip_bytes_of_def
      pton4_def digit_value_def)

lemma ex_cidrs_meaning:
  "\<exists>e \<in> set ex_allow. in_cidr 4 16 e 2562" "\<not> (\<exists>e \<in> set ex_block. in_cidr 4 16 e 2562)"
  "\<exists>e \<in> set ex_block. in_cidr 4 16 e 2561"
  by (simp_all add: ex_allow_def ex_block_def in_cidr_def ip_bytes_of_def covers_def be_value_def)

lemma ex_cidrs_next:
  "\<exists>e \<in> set ex_allow. in_cidr 4 16 e 2563" "\<not> (\<exists>e \<in> set ex_block. in_cidr 4 16 e 2563)"
  by (simp_all add: ex_allow_def ex_block_def in_cidr_def ip_bytes_of_def covers_def be_value_def)

lemma ex_policy_run:
  obtains ret st where "blocklist_init ex_net initial_blocklist None None (Some (map cidr_text ex_allow))
      (Some (map cidr_text ex_block)) False 16 0 4 0 = Inr (ret, st)"
    "\<And>x. x \<in> {0 ..< 2 ^ 16} \<Longrightarrow> blocklist_is_allowed_ipvx st x = Inr (x \<noteq> 0
         \<and> (ex_allow = [] \<or> (\<exists>e \<in> set ex_allow. in_cidr 4 16 e x))
         \<and> \<not> (\<exists>e \<in> set ex_block. in_cidr 4 16 e x))"
  using blocklist_init_literal [OF fresh_initial ex_net_zero _ _ _ _ _ ex_cidrs_ok, of 0 0 False]
  by (auto simp: ip_bytes_of_def)

theorem blocklist_init_safe_witness:
  "\<exists>ret st. blocklist_init ex_net initial_blocklist None None (Some (map cidr_text ex_allow))
      (Some (map cidr_text ex_block)) False 16 0 4 0 = Inr (ret, st)
    \<and> blocklist_is_allowed_ipvx st 0 = Inr False \<and> ret = EXIT_SUCCESS"
proof -
  obtain ret st where r: "blocklist_init ex_net initial_blocklist None None (Some (map cidr_text ex_allow))
      (Some (map cidr_text ex_block)) False 16 0 4 0 = Inr (ret, st)"
    "blocklist_is_allowed_ipvx st 2562 = Inr True"
    by (rule ex_policy_run) (use ex_cidrs_meaning in force)
  note safe = blocklist_init_safe [OF fresh_initial ex_net_zero r(1)]
  then have "2562 \<in> ips st" by (simp add: ips_def)
  with safe r show ?thesis by blast
qed

text \<open>
  C12: With lists of literal prefixes, an address may be scanned exactly when it is not
  the zero address, some allow entry covers it (or there are no allow entries) and no block entry
  covers it; whatever the order and overlap of the entries.
\<close>

theorem blocklist_policy:
  assumes "fresh st0" "parses_zero net" "flag = 4 \<or> flag = 6" "0 < il" "il \<le> 8 * ip_bytes_of flag"
    "pl \<le> PORT_MAX_BITS st0" "xl \<le> INDEX_MAX_BITS st0"
    "\<forall>e \<in> set (allow @ block). cidr_ok net flag il e"
  shows "\<exists>ret st. blocklist_init net st0 None None (Some (map cidr_text allow))
      (Some (map cidr_text block)) ign il pl flag xl = Inr (ret, st)
    \<and> (\<forall>x \<in> {0 ..< 2 ^ il}. blocklist_is_allowed_ipvx st x = Inr (x \<noteq> 0
         \<and> (allow = [] \<or> (\<exists>e \<in> set allow. in_cidr flag il e x))
         \<and> \<not> (\<exists>e \<in> set block. in_cidr flag il e x)))"
  using assms by (rule blocklist_init_literal)

theorem blocklist_policy_witness:
  "\<exists>ret st. blocklist_init ex_net initial_blocklist None None (Some (map cidr_text ex_allow))
      (Some (map cidr_text ex_block)) False 16 0 4 0 = Inr (ret, st)
    \<and> blocklist_is_allowed_ipvx st 2562 = Inr True \<and> blocklist_is_allowed_ipvx st 2561 = Inr False"
  using blocklist_policy [OF fresh_initial ex_net_zero _ _ _ _ _ ex_cidrs_ok, of 0 0 False] ex_cidrs_meaning
  by (force simp: ip_bytes_of_def)

text \<open>
  C13: A range of two addresses paints exactly the scanned prefixes of the addresses
  between them, through their text and back; it returns 0 and keeps the list consistent. A range
  whose end is before its start paints nothing.
\<close>

theorem blocklist_range:
  assumes "bl_inv st" "colour_ok v" "CHR ''-'' \<notin> set a"
    "text_faithful net (flag_family (IPV46_FLAG st)) (IP_MAX_PREFIX_BYTES st)"
    "inet_pton net (flag_family (IPV46_FLAG st)) a = Some xs" "length xs = IP_MAX_PREFIX_BYTES st"
    "inet_pton net (flag_family (IPV46_FLAG st)) b = Some ys" "length ys = IP_MAX_PREFIX_BYTES st"
  shows "\<exists>st'. init_from_string net st (a @ CHR ''-'' # b) v ign = Inr (0, st') \<and> bl_inv st'
    \<and> (\<forall>x \<in> ips st. blocklist_is_allowed_ipvx st' x =
         (if \<exists>m \<in> {int (be_value xs) .. int (be_value ys)}. top_bits st m = x
          then Inr (v = ADDR_ALLOWED) else blocklist_is_allowed_ipvx st x))"
proof -
  have L: "lengths_ok st" using assms(1) by (simp add: bl_inv_def)
  have "int (be_value ys) < 256 ^ IP_MAX_PREFIX_BYTES st"
    using be_value_less [of ys] assms(8) by (metis of_nat_less_iff of_nat_numeral of_nat_power)
  then obtain st' where r: "range_loop net v ign (int (be_value xs)) (int (be_value ys)) xs st = Inr (0, st')"
    "bl_inv st'" "same_config st st'" "\<forall>x \<in> ips st. ip_allowed st' x \<longleftrightarrow>
       (if \<exists>m \<in> {int (be_value xs) .. int (be_value ys)}. top_bits st m = x
        then v = ADDR_ALLOWED else ip_allowed st x)"
    using range_loop_ok [OF assms(1,2,4) _ _ assms(6), of "int (be_value xs)" "int (be_value ys)" ign] by auto
  have "init_from_string net st (a @ CHR ''-'' # b) v ign = Inr (0, st')"
    using r(1) assms(5-8)
    by (simp add: init_from_string_def split_at_char_present [OF assms(3)] inet_str2in_flag [OF L]
        mpz_from_uint8s_def mpz_import_def)
  moreover have "ips st' = ips st" by (rule same_configD(10) [OF r(3)])
  ultimately show ?thesis
    using r(2,4) allowed_lookup [OF r(2)] allowed_lookup [OF assms(1)]
    by (intro exI [of _ st']) simp
qed

theorem blocklist_range_witness:
  "\<exists>st'. init_from_string ex_net ex_blocklist ''9.255.255.255-11.0.0.1'' ADDR_DISALLOWED False = Inr (0, st')
    \<and> blocklist_is_allowed_ipvx st' 10 = Inr False \<and> blocklist_is_allowed_ipvx st' 12 = Inr True"
proof -
  have p: "inet_pton ex_net (flag_family (IPV46_FLAG ex_blocklist)) ''9.255.255.255'' = Some [9, 255, 255, 255]"
    "inet_pton ex_net (flag_family (IPV46_FLAG ex_blocklist)) ''11.0.0.1'' = Some [11, 0, 0, 1]"
    by (simp_all add: ex_net_def ex_blocklist_def flag_family_def pton4_def digit_value_def)
  have f: "text_faithful ex_net (flag_family (IPV46_FLAG ex_blocklist)) (IP_MAX_PREFIX_BYTES ex_blocklist)"
    using ex_net_faithful by (simp add: ex_blocklist_def flag_family_def)
  have ips: "10 \<in> ips ex_blocklist" "12 \<in> ips ex_blocklist" by (simp_all add: ips_def ex_blocklist_def)
  have hit: "\<exists>m \<in> {int (be_value [9, 255, 255, 255]) .. int (be_value [11, 0, 0, 1])}. top_bits ex_blocklist m = 10"
    by (rule bexI [of _ "10 * 2 ^ 24"]) (simp_all add: top_bits_def ex_blocklist_def be_value_def)
  have miss: "\<not> (\<exists>m \<in> {int (be_value [9, 255, 255, 255]) .. int (be_value [11, 0, 0, 1])}. top_bits ex_blocklist m = 12)"
    by (auto simp: top_bits_def ex_blocklist_def be_value_def)
  have old: "blocklist_is_allowed_ipvx ex_blocklist 12 = Inr True"
    using allowed_lookup [OF ex_blocklist_inv ips(2)]
    by (simp add: ip_allowed_def ex_blocklist_def ip_value_def value_at_def)
  have "\<exists>st'. init_from_string ex_net ex_blocklist (''9.255.255.255'' @ CHR ''-'' # ''11.0.0.1'') ADDR_DISALLOWED False
      = Inr (0, st') \<and> bl_inv st' \<and> (\<forall>x \<in> ips ex_blocklist. blocklist_is_allowed_ipvx st' x =
         (if \<exists>m \<in> {int (be_value [9, 255, 255, 255]) .. int (be_value [11, 0, 0, 1])}. top_bits ex_blocklist m = x
          then Inr (ADDR_DISALLOWED = ADDR_ALLOWED) else blocklist_is_allowed_ipvx ex_blocklist x))"
    by (rule blocklist_range [OF ex_blocklist_inv _ _ f p(1) _ p(2)]) (simp_all add: ex_blocklist_def)
  then show ?thesis using hit miss old ips by (auto simp: ADDR_ALLOWED_def ADDR_DISALLOWED_def)
qed

text \<open>
  An entry without a dash either succeeds with 0, or fails with -1 and
  leaves the whole state as it was: a bad entry paints nothing.
\<close>

lemma blocklist_failed_entry:
  assumes "CHR ''-'' \<notin> set s" "init_from_string net st s v ign = Inr (r, st')"
  shows "r = 0 \<or> r = -1 \<and> st' = st"
  using assms init_from_cidr_ret [of net st s v r st'] by (simp add: init_from_string_def)

lemma blocklist_failed_entry_example:
  "init_from_string ex_net ex_blocklist ''10.0.0.0/33'' ADDR_DISALLOWED False = Inr (-1, ex_blocklist)"
proof -
  have "strtol10 ''33'' = (33, False, False, [])"
    by (rule strtol10_digits) (simp_all add: c_isdigit_def digit_value_def long_max_def)
  then have "parse_prefix_len ex_blocklist ''33'' = None"
    by (simp add: parse_prefix_len_def to_int32_id ex_blocklist_def)
  then have "init_from_string ex_net ex_blocklist ''10.0.0.0/33'' ADDR_DISALLOWED False = Inr (-1, ex_blocklist)"
    by (simp add: init_from_string_def init_from_cidr_def)
  with blocklist_failed_entry [of "''10.0.0.0/33''" ex_net ex_blocklist ADDR_DISALLOWED False "-1" ex_blocklist]
  show ?thesis by simp
qed

end
