(* ===== verification/Primitive_Root.thy ===== *)
theory Primitive_Root
  imports HMap_Prelude
begin

text \<open>
  The number theory behind the scan order: primes, the order of a unit modulo \<open>p\<close>, primitive roots
  and their powers, and certificates that a number is prime with a given primitive root. A certificate
  is a chain of squarings and multiplications with the quotients written down, so that checking it
  takes multiplications only.
\<close>

section \<open>Primes\<close>

definition is_prime :: "int \<Rightarrow> bool" where
  "is_prime q \<longleftrightarrow> 1 < q \<and> (\<forall>d. 0 < d \<longrightarrow> d dvd q \<longrightarrow> d = 1 \<or> d = q)"

lemma is_prime_gt_1: "is_prime q \<Longrightarrow> 1 < q"
  by (simp add: is_prime_def)

lemma prime_coprime:
  assumes "is_prime q" "\<not> q dvd a"
  shows "coprime q a"
proof -
  have q: "1 < q" by (rule is_prime_gt_1 [OF assms(1)])
  have "gcd q a > 0" using q by (simp add: gcd_pos_int)
  then have "gcd q a = 1 \<or> gcd q a = q"
    using assms(1) unfolding is_prime_def by (metis gcd_dvd1)
  moreover have "gcd q a \<noteq> q" using assms(2) by (metis gcd_dvd2)
  ultimately show ?thesis by (simp add: coprime_iff_gcd_eq_1)
qed

lemma prime_dvd_mult: "is_prime q \<Longrightarrow> q dvd a * b \<Longrightarrow> q dvd a \<or> q dvd b"
  using prime_coprime coprime_dvd_mult_right_iff by blast

lemma prime_dvd_power: "is_prime q \<Longrightarrow> q dvd a ^ n \<Longrightarrow> q dvd a"
proof (induction n)
  case 0
  then show ?case using is_prime_gt_1 by fastforce
qed (use prime_dvd_mult in auto)

lemma prime_dvd_prime: "is_prime q \<Longrightarrow> is_prime r \<Longrightarrow> q dvd r \<Longrightarrow> q = r"
proof -
  assume q: "is_prime q" and r: "is_prime r" "q dvd r"
  have "1 < q" by (rule is_prime_gt_1 [OF q])
  moreover from this have "q = 1 \<or> q = r"
    using r unfolding is_prime_def by (meson less_trans zero_less_one)
  ultimately show ?thesis by simp
qed

text \<open>Every number above 1 has a prime divisor: the smallest divisor above 1.\<close>

lemma prime_divisor_exists:
  fixes n :: int
  assumes "1 < n"
  obtains q where "is_prime q" "q dvd n"
proof -
  define P where "P = (\<lambda>k. 1 < int k \<and> int k dvd n)"
  have "P (nat n)" using assms by (simp add: P_def)
  define k where "k = (LEAST k. P k)"
  have k: "P k" unfolding k_def by (rule LeastI) fact
  have "is_prime (int k)" unfolding is_prime_def
  proof (intro conjI allI impI)
    show "1 < int k" using k by (simp add: P_def)
    fix d assume d: "0 < d" "d dvd int k"
    have "P (nat d)" if "d \<noteq> 1"
      using d that k by (auto simp: P_def intro: dvd_trans)
    then have "k \<le> nat d" if "d \<noteq> 1" using that unfolding k_def by (intro Least_le) simp
    moreover have "d \<le> int k" using d k by (intro zdvd_imp_le) (auto simp: P_def)
    ultimately show "d = 1 \<or> d = int k" using d(1) by linarith
  qed
  then show ?thesis using k that by (auto simp: P_def)
qed

text \<open>Small primes by trial division.\<close>

lemma is_prime_trial:
  assumes "1 < q" "q < (s + 1) * (s + 1)" "0 \<le> s" "list_all (\<lambda>d. q mod d \<noteq> 0) [2 .. s]"
  shows "is_prime q"
proof -
  obtain r where r: "is_prime r" "r dvd q" by (rule prime_divisor_exists [OF assms(1)])
  then obtain t where t: "q = r * t" by blast
  have r1: "1 < r" using is_prime_gt_1 [OF r(1)] .
  have t0: "0 < t" using t assms(1) r1 by (metis less_trans zero_less_mult_pos zero_less_one)
  have not_small: "\<not> d dvd q" if "2 \<le> d" "d \<le> s" for d
    using assms(4) that by (auto simp: list_all_iff dvd_eq_mod_eq_0)
  show ?thesis unfolding is_prime_def
  proof (intro conjI allI impI)
    fix d assume d: "0 < d" "d dvd q"
    then obtain e where e: "q = d * e" by blast
    then have e0: "0 < e" using d assms(1) by (metis less_trans zero_less_mult_pos zero_less_one)
    show "d = 1 \<or> d = q"
    proof (rule ccontr)
      assume n: "\<not> (d = 1 \<or> d = q)"
      then have "2 \<le> d" "2 \<le> e" using d e e0 by auto
      then have "s + 1 \<le> d" "s + 1 \<le> e" using not_small [of d] not_small [of e] d e by force+
      then have "(s + 1) * (s + 1) \<le> d * e" using assms(3) by (intro mult_mono) auto
      then show False using assms(2) e by simp
    qed
  qed (fact assms(1))
qed

section \<open>Primitive roots\<close>

definition pm :: "int \<Rightarrow> int \<Rightarrow> nat \<Rightarrow> int" where
  "pm p g i = g ^ i mod p"

definition prim_root :: "int \<Rightarrow> int \<Rightarrow> bool" where
  "prim_root p g \<longleftrightarrow> 1 < p \<and> pm p g (nat (p - 1)) = 1
     \<and> (\<forall>k. 0 < k \<longrightarrow> k < nat (p - 1) \<longrightarrow> pm p g k \<noteq> 1)"

lemma pm_add: "pm p g (i + j) = pm p g i * pm p g j mod p"
  by (simp add: pm_def power_add mod_mult_eq)

lemma pm_mult: "pm p g (i * j) = pm p (pm p g i) j"
  by (simp add: pm_def power_mult power_mod)

lemma pm_mod_base: "pm p (g mod p) i = pm p g i"
  by (simp add: pm_def power_mod)

lemma pm_bounds: "0 < p \<Longrightarrow> 0 \<le> pm p g i \<and> pm p g i < p"
  by (simp add: pm_def)

lemma pm_0: "1 < p \<Longrightarrow> pm p g 0 = 1"
  by (simp add: pm_def)

text \<open>The exponents only count modulo a period.\<close>

lemma pm_period:
  assumes "1 < p" "pm p g n = 1"
  shows "pm p g (i mod n) = pm p g i"
proof -
  have one: "pm p g (n * (i div n)) = 1"
    using assms by (simp add: pm_mult) (simp add: pm_def)
  have "pm p g i = pm p g (n * (i div n) + i mod n)" by simp
  also have "\<dots> = pm p g (i mod n) mod p" by (simp only: pm_add one mult_1)
  also have "\<dots> = pm p g (i mod n)" by (simp add: pm_def)
  finally show ?thesis by simp
qed

lemma pm_unit:
  assumes "1 < p" "pm p g n = 1" "0 < n"
  shows "coprime g p"
proof (rule coprimeI)
  fix c assume c: "c dvd g" "c dvd p"
  have "g ^ n mod p = 1" using assms(2) by (simp add: pm_def)
  moreover have "c dvd g ^ n" using c(1) assms(3) by (simp add: dvd_power_iff dvd_trans [OF _ dvd_power])
  then have "c dvd g ^ n mod p" using c(2) by (simp add: dvd_mod)
  ultimately show "is_unit c" by simp
qed

lemma pm_cancel:
  assumes "1 < p" "coprime g p" "pm p g i = pm p g (i + k)"
  shows "pm p g k = 1"
proof -
  have "g ^ i mod p = g ^ i * g ^ k mod p" using assms(3) by (simp add: pm_def power_add)
  then have "p dvd g ^ i * g ^ k - g ^ i * 1" by (simp add: mod_eq_dvd_iff dvd_diff_commute)
  then have "p dvd g ^ i * (g ^ k - 1)" by (simp add: algebra_simps)
  moreover have "coprime p (g ^ i)" using assms(2) by (simp add: coprime_commute)
  ultimately have "p dvd g ^ k - 1" by (simp add: coprime_dvd_mult_right_iff)
  then have "g ^ k mod p = 1 mod p" by (simp add: mod_eq_dvd_iff)
  then show ?thesis using assms(1) by (simp add: pm_def)
qed

text \<open>The first exponent that gives 1 divides every exponent that gives 1.\<close>

lemma least_period_dvd:
  assumes "1 < p" "pm p g d = 1" "0 < d" "\<And>k. 0 < k \<Longrightarrow> k < d \<Longrightarrow> pm p g k \<noteq> 1" "pm p g n = 1"
  shows "d dvd n"
proof -
  have "pm p g (n mod d) = 1" using pm_period [OF assms(1,2)] assms(5) by simp
  then have "n mod d = 0" using assms(3) assms(4) [of "n mod d"] by force
  then show ?thesis by (simp add: dvd_eq_mod_eq_0)
qed

text \<open>The powers of a primitive root run through all the units, each once.\<close>

lemma prim_rootD:
  assumes "prim_root p g"
  shows "1 < p" "pm p g (nat (p - 1)) = 1" "coprime g p" "0 < nat (p - 1)"
  using assms pm_unit [of p g "nat (p - 1)"] by (auto simp: prim_root_def)

lemma prim_root_period: "prim_root p g \<Longrightarrow> pm p g (i mod nat (p - 1)) = pm p g i"
  using pm_period prim_rootD by blast

lemma unit_power_nonzero:
  assumes "1 < p" "coprime g p"
  shows "pm p g i \<in> {1 ..< p}"
proof -
  have "pm p g i \<noteq> 0"
  proof
    assume "pm p g i = 0"
    then have "p dvd g ^ i" by (simp add: pm_def dvd_eq_mod_eq_0)
    moreover have "coprime p (g ^ i)" using assms(2) by (simp add: coprime_commute)
    ultimately have "is_unit p" using coprime_common_divisor [of p "g ^ i" p] by simp
    then show False using assms(1) by simp
  qed
  moreover have "0 \<le> pm p g i \<and> pm p g i < p" using pm_bounds assms(1) by simp
  ultimately show ?thesis by simp
qed

lemma prim_root_bij:
  assumes "prim_root p g"
  shows "bij_betw (pm p g) {0 ..< nat (p - 1)} {1 ..< p}"
proof -
  let ?n = "nat (p - 1)"
  note P = prim_rootD [OF assms]
  have less: "pm p g i \<noteq> pm p g j" if "i < j" "j < ?n" for i j
  proof
    assume "pm p g i = pm p g j"
    then have "pm p g (j - i) = 1" using pm_cancel [OF P(1,3), of i "j - i"] that by simp
    moreover have "0 < j - i" "j - i < ?n" using that by simp_all
    ultimately show False using assms unfolding prim_root_def by blast
  qed
  then have inj: "inj_on (pm p g) {0 ..< ?n}"
    by (intro inj_onI) (metis atLeastLessThan_iff linorder_neqE_nat)
  have "pm p g ` {0 ..< ?n} \<subseteq> {1 ..< p}" using unit_power_nonzero [OF P(1,3)] by blast
  moreover have "card (pm p g ` {0 ..< ?n}) = card {1 ..< p}" using card_image [OF inj] by simp
  ultimately have "pm p g ` {0 ..< ?n} = {1 ..< p}" by (intro card_subset_eq) auto
  with inj show ?thesis by (simp add: bij_betw_def)
qed

lemma prim_root_dvd:
  assumes "prim_root p g" "pm p g k = 1"
  shows "nat (p - 1) dvd k"
  using least_period_dvd [of p g "nat (p - 1)" k] assms prim_rootD [OF assms(1)]
  by (simp add: prim_root_def)

text \<open>A power with an exponent coprime to the order is again a primitive root.\<close>

lemma prim_root_power:
  assumes "prim_root p g" "coprime c (nat (p - 1))"
  shows "prim_root p (pm p g c)"
proof -
  let ?n = "nat (p - 1)"
  note P = prim_rootD [OF assms(1)]
  have "pm p g (c * ?n) = 1" using P(1,2) by (simp add: mult.commute [of c] pm_mult) (simp add: pm_def)
  moreover have "pm p g (c * k) \<noteq> 1" if "0 < k" "k < ?n" for k
  proof
    assume "pm p g (c * k) = 1"
    then have "?n dvd c * k" by (rule prim_root_dvd [OF assms(1)])
    then have "?n dvd k" using assms(2) by (simp add: coprime_dvd_mult_right_iff coprime_commute)
    then show False using that by (auto dest: dvd_imp_le)
  qed
  ultimately show ?thesis using P(1) by (simp add: prim_root_def pm_mult)
qed

text \<open>The modulus of a primitive root is prime: every smaller number is a unit.\<close>

lemma prim_root_prime:
  assumes "prim_root p g"
  shows "is_prime p"
  unfolding is_prime_def
proof (intro conjI allI impI)
  note P = prim_rootD [OF assms]
  show "1 < p" by (rule P(1))
  fix d assume d: "0 < d" "d dvd p"
  show "d = 1 \<or> d = p"
  proof (rule ccontr)
    assume n: "\<not> (d = 1 \<or> d = p)"
    have "d \<le> p" using d P(1) by (intro zdvd_imp_le) auto
    then have "d \<in> pm p g ` {0 ..< nat (p - 1)}"
      using prim_root_bij [OF assms] d n by (auto simp: bij_betw_def)
    then obtain i where "d = g ^ i mod p" by (auto simp: pm_def)
    then have "d dvd g ^ i" using d(2) by (metis dvd_mod_iff dvd_refl)
    moreover have "coprime (g ^ i) p" using P(3) by simp
    ultimately have "is_unit d" using d(2) coprime_common_divisor [of "g ^ i" p d] by simp
    then show False using d n by simp
  qed
qed

section \<open>Certificates\<close>

text \<open>
  The converse of Fermat's theorem, after Lucas: \<open>g\<close> is a primitive root of \<open>p\<close> when its power
  \<open>p - 1\<close> is 1 and its power \<open>(p - 1) / q\<close> is not, for every prime \<open>q\<close> that divides \<open>p - 1\<close>.
\<close>

lemma lucas_prim_root:
  assumes "1 < p" "pm p g (nat (p - 1)) = 1"
    "\<And>q. is_prime q \<Longrightarrow> q dvd p - 1 \<Longrightarrow> pm p g (nat ((p - 1) div q)) \<noteq> 1"
  shows "prim_root p g"
proof -
  let ?P = "\<lambda>k. 0 < k \<and> pm p g k = 1" and ?n = "nat (p - 1)"
  define d where "d = (LEAST k. ?P k)"
  have n: "?P ?n" using assms(1,2) by simp
  have d: "?P d" unfolding d_def by (rule LeastI) (rule n)
  have least: "pm p g k \<noteq> 1" if "0 < k" "k < d" for k
    using not_less_Least [of k ?P] that by (auto simp: d_def)
  obtain e where e: "?n = d * e"
    using least_period_dvd [OF assms(1) _ _ least assms(2)] d by blast
  have "e = 1"
  proof (rule ccontr)
    assume "e \<noteq> 1"
    moreover have "e \<noteq> 0" using e n by (intro notI) simp
    ultimately have "1 < int e" by simp
    then obtain q where q: "is_prime q" "q dvd int e" by (rule prime_divisor_exists)
    then obtain f where f: "int e = q * f" by blast
    have q1: "1 < q" using is_prime_gt_1 [OF q(1)] .
    have "0 < q * f" using f \<open>1 < int e\<close> by simp
    then have f0: "0 < f" using q1 by (simp add: zero_less_mult_iff)
    have p1: "p - 1 = int d * (q * f)" using e f assms(1) by (metis int_nat_eq less_iff_diff_less_0 of_nat_mult diff_ge_0_iff_ge less_imp_le)
    then have "(p - 1) div q = int d * f" using q1 by (simp add: mult.left_commute)
    then have "nat ((p - 1) div q) = d * nat f" using f0 by (simp add: nat_mult_distrib)
    then have "pm p g (nat ((p - 1) div q)) = 1"
      using d assms(1) by (simp add: pm_mult) (simp add: pm_def)
    moreover have "q dvd p - 1" by (simp add: p1)
    ultimately show False using assms(3) q(1) by blast
  qed
  then have "d = ?n" using e by simp
  then show ?thesis using assms(1) n least by (simp add: prim_root_def)
qed

text \<open>
  A chain computes a power: each step squares, multiplies by \<open>g\<close> when its bit is set, and subtracts
  a multiple of \<open>p\<close>, so whatever the multiples are the result is the power modulo \<open>p\<close>.
\<close>

fun power_chain :: "int \<Rightarrow> int \<Rightarrow> (bool \<times> int) list \<Rightarrow> int \<Rightarrow> int \<Rightarrow> int \<times> int" where
  "power_chain p g [] x e = (x, e)"
| "power_chain p g ((b, q) # steps) x e =
     (if b then power_chain p g steps (x * x * g - q * p) (2 * e + 1)
      else power_chain p g steps (x * x - q * p) (2 * e))"

lemma power_chain_sound:
  "power_chain p g steps x e = (y, e') \<Longrightarrow> 0 \<le> e \<Longrightarrow> x mod p = pm p g (nat e) \<Longrightarrow>
   0 \<le> e' \<and> y mod p = pm p g (nat e')"
proof (induction p g steps x e rule: power_chain.induct)
  case (2 p g b q steps x e)
  have sq: "x * x mod p = pm p g (nat (2 * e))"
  proof -
    have "nat (2 * e) = nat e + nat e" using 2(4) by simp
    moreover have "x * x mod p = (x mod p) * (x mod p) mod p" by (simp add: mod_mult_eq)
    ultimately show ?thesis using 2(5) by (simp add: pm_add)
  qed
  have one: "nat (2 * e + 1) = nat (2 * e) + 1" using 2(4) by simp
  have "x * x * g mod p = (x * x mod p) * g mod p" by (simp add: mod_mult_left_eq)
  also have "\<dots> = pm p g (nat (2 * e + 1))"
    unfolding sq one by (simp add: pm_def power_add mod_mult_left_eq) (simp add: mult.commute)
  finally have odd: "x * x * g mod p = pm p g (nat (2 * e + 1))" .
  have sub: "(z - q * p) mod p = z mod p" for z :: int by (simp add: mod_eq_dvd_iff)
  show ?case using 2 sq odd sub by (cases b) simp_all
qed simp

fun prod_powers :: "(int \<times> nat) list \<Rightarrow> int" where
  "prod_powers [] = 1"
| "prod_powers ((q, k) # fs) = q ^ k * prod_powers fs"

lemma prime_dvd_prod_powers:
  "is_prime r \<Longrightarrow> r dvd prod_powers fs \<Longrightarrow> \<forall>(q, k) \<in> set fs. is_prime q \<Longrightarrow> r \<in> fst ` set fs"
proof (induction fs rule: prod_powers.induct)
  case 1
  then show ?case using is_prime_gt_1 [of r] by simp
next
  case (2 q k fs)
  have "r dvd q ^ k \<or> r dvd prod_powers fs" using 2(2,3) prime_dvd_mult by simp
  then show ?case
  proof
    assume "r dvd q ^ k"
    then have "r dvd q" by (rule prime_dvd_power [OF 2(2)])
    then have "r = q" using 2(2,4) by (intro prime_dvd_prime) auto
    then show ?thesis by simp
  next
    assume "r dvd prod_powers fs"
    then show ?thesis using 2 by auto
  qed
qed

text \<open>Rules that keep the simplifier out of the steps while it evaluates a chain.\<close>

lemma power_chain_cong: "x = x' \<Longrightarrow> e = e' \<Longrightarrow> power_chain p g steps x e = power_chain p g steps x' e'"
  by simp

definition chain_ok :: "int \<Rightarrow> int \<Rightarrow> int \<times> nat \<times> (bool \<times> int) list \<Rightarrow> bool" where
  "chain_ok p g c = (case c of (q, _, steps) \<Rightarrow> case power_chain p g steps 1 0 of (y, e) \<Rightarrow>
     q * e = p - 1 \<and> (if q = 2 then y = p - 1 else 0 \<le> y \<and> y < p \<and> y \<noteq> 1))"

lemma chain_ok_cong: "chain_ok p g c = chain_ok p g c"
  by simp

definition cert_factors :: "(int \<times> nat \<times> (bool \<times> int) list) list \<Rightarrow> int" where
  "cert_factors cs = prod_powers (map (\<lambda>(q, k, _). (q, k)) cs)"

lemma cert_factors_simps [simp]:
  "cert_factors [] = 1" "cert_factors ((q, k, s) # cs) = q ^ k * cert_factors cs"
  by (simp_all add: cert_factors_def)

text \<open>
  A certificate: the primes that divide \<open>p - 1\<close>, their multiplicities and their chains. The chain of
  the factor 2 gives -1, so the full power is 1.
\<close>

lemma certified_prim_root:
  assumes "2 < p" "cert_factors cs = p - 1" "list_all (\<lambda>(q, _, _). is_prime q) cs"
    "list_all (chain_ok p g) cs" "2 \<in> fst ` set cs"
  shows "prim_root p g"
proof (rule lucas_prim_root)
  show p: "1 < p" using assms(1) by simp
  have power: "pm p g (nat ((p - 1) div q)) = y mod p"
    if "power_chain p g steps 1 0 = (y, e)" "q * e = p - 1" "is_prime q" for q y e steps
  proof -
    have "(p - 1) div q = e" using that(2) is_prime_gt_1 [OF that(3)]
      by (metis less_irrefl nonzero_mult_div_cancel_left less_trans zero_less_one)
    moreover have "y mod p = pm p g (nat e)"
      using power_chain_sound [OF that(1)] p by (simp add: pm_def)
    ultimately show ?thesis by simp
  qed
  have chain: "\<exists>y e. power_chain p g steps 1 0 = (y, e) \<and> q * e = p - 1
      \<and> (if q = 2 then y = p - 1 else 0 \<le> y \<and> y < p \<and> y \<noteq> 1)" if "(q, k, steps) \<in> set cs" for q k steps
    using assms(4) that by (cases "power_chain p g steps 1 0") (auto simp: list_all_iff chain_ok_def)
  show "pm p g (nat (p - 1)) = 1"
  proof -
    obtain k steps where "(2, k, steps) \<in> set cs" using assms(5) by force
    then obtain e where e: "power_chain p g steps 1 0 = (p - 1, e)" "2 * e = p - 1" "is_prime 2"
      using chain [of 2 k steps] assms(3) by (auto simp: list_all_iff)
    have "pm p g (nat ((p - 1) div 2)) = (p - 1) mod p" by (rule power [OF e])
    moreover have "(p - 1) div 2 = e" using e(2) by linarith
    moreover have "(p - 1) mod p = p - 1" by (rule mod_pos_pos_trivial) (use p in simp_all)
    ultimately have m: "pm p g (nat e) = p - 1" by simp
    have "nat (p - 1) = nat e + nat e" using e(2) p by linarith
    then have "pm p g (nat (p - 1)) = (p - 1) * (p - 1) mod p" by (simp add: pm_add m)
    also have "(p - 1) * (p - 1) = 1 + (p - 2) * p" by (simp add: algebra_simps)
    also have "\<dots> mod p = 1 mod p" by (rule mod_mult_self1)
    finally show ?thesis using p by simp
  qed
  fix q assume q: "is_prime q" "q dvd p - 1"
  let ?fs = "map (\<lambda>(q, k, _). (q, k)) cs"
  have "\<forall>(q, k) \<in> set ?fs. is_prime q" using assms(3) by (auto simp: list_all_iff)
  moreover have "q dvd prod_powers ?fs" using q(2) assms(2) unfolding cert_factors_def by metis
  ultimately have "q \<in> fst ` set ?fs" using prime_dvd_prod_powers [OF q(1)] by metis
  then obtain k steps where "(q, k, steps) \<in> set cs" by force
  then obtain y e where c: "power_chain p g steps 1 0 = (y, e)" "q * e = p - 1"
    "if q = 2 then y = p - 1 else 0 \<le> y \<and> y < p \<and> y \<noteq> 1" using chain by blast
  then have "0 \<le> y \<and> y < p \<and> y \<noteq> 1" using assms(1) by (auto split: if_splits)
  then show "pm p g (nat ((p - 1) div q)) \<noteq> 1"
    using power [OF c(1,2) q(1)] by (simp add: mod_pos_pos_trivial)
qed

end
