(* ===== verification/Group_Certificates.thy ===== *)
theory Group_Certificates
  imports Primitive_Root
begin

text \<open>
  The certificates of the first 13 groups of the table of \<open>src/cyclic.c\<close>: for each prime, and for each
  prime factor of its order that is too large for trial division, the chains that show the known
  primitive root to be one.
\<close>

text \<open>The small primes by trial division up to the square root.\<close>

lemma small_primes:
  "is_prime 2" "is_prime 3" "is_prime 5" "is_prime 7" "is_prime 11" "is_prime 13"
  "is_prime 17" "is_prime 19" "is_prime 23" "is_prime 29" "is_prime 37" "is_prime 53"
  "is_prime 59" "is_prime 73" "is_prime 97" "is_prime 101" "is_prime 103" "is_prime 109"
  "is_prime 131" "is_prime 163" "is_prime 179" "is_prime 313" "is_prime 421" "is_prime 683"
  "is_prime 883" "is_prime 1039" "is_prime 1237" "is_prime 1361" "is_prime 1423" "is_prime 1613"
  subgoal by (rule is_prime_trial [of _ 1]) simp_all
  subgoal by (rule is_prime_trial [of _ 1]) simp_all
  subgoal by (rule is_prime_trial [of _ 2]) simp_all
  subgoal by (rule is_prime_trial [of _ 2]) simp_all
  subgoal by (rule is_prime_trial [of _ 3]) simp_all
  subgoal by (rule is_prime_trial [of _ 3]) simp_all
  subgoal by (rule is_prime_trial [of _ 4]) simp_all
  subgoal by (rule is_prime_trial [of _ 4]) simp_all
  subgoal by (rule is_prime_trial [of _ 4]) simp_all
  subgoal by (rule is_prime_trial [of _ 5]) simp_all
  subgoal by (rule is_prime_trial [of _ 6]) simp_all
  subgoal by (rule is_prime_trial [of _ 7]) simp_all
  subgoal by (rule is_prime_trial [of _ 7]) simp_all
  subgoal by (rule is_prime_trial [of _ 8]) simp_all
  subgoal by (rule is_prime_trial [of _ 9]) simp_all
  subgoal by (rule is_prime_trial [of _ 10]) simp_all
  subgoal by (rule is_prime_trial [of _ 10]) simp_all
  subgoal by (rule is_prime_trial [of _ 10]) simp_all
  subgoal by (rule is_prime_trial [of _ 11]) simp_all
  subgoal by (rule is_prime_trial [of _ 12]) simp_all
  subgoal by (rule is_prime_trial [of _ 13]) simp_all
  subgoal by (rule is_prime_trial [of _ 17]) simp_all
  subgoal by (rule is_prime_trial [of _ 20]) simp_all
  subgoal by (rule is_prime_trial [of _ 26]) simp_all
  subgoal by (rule is_prime_trial [of _ 29]) simp_all
  subgoal by (rule is_prime_trial [of _ 32]) simp_all
  subgoal by (rule is_prime_trial [of _ 35]) simp_all
  subgoal by (rule is_prime_trial [of _ 36]) simp_all
  subgoal by (rule is_prime_trial [of _ 37]) simp_all
  subgoal by (rule is_prime_trial [of _ 40]) simp_all
  done

lemma root_3541: "prim_root 3541 7"
  by (rule certified_prim_root [where cs = "[
        (2, 2, [(True, 0), (True, 0), (False, 33), (True, 1252), (True, 7750), (True, 4), (False, 3142),
      (True, 18680), (False, 57), (True, 12031), (False, 204)]),
        (3, 1, [(True, 0), (False, 0), (False, 0), (True, 11396), (False, 38), (False, 2684), (True,
      1411), (True, 6576), (True, 20445), (False, 2289), (False, 1)]),
        (5, 1, [(True, 0), (False, 0), (True, 4), (True, 13809), (False, 63), (False, 716), (False,
      1484), (True, 17850), (False, 3122), (False, 109)]),
        (59, 1, [(True, 0), (True, 0), (True, 232), (True, 8154), (False, 563), (False, 2517)])]"])
    (simp_all add: chain_ok_def small_primes cong: power_chain_cong chain_ok_cong)

lemma prime_3541: "is_prime 3541"
  by (rule prim_root_prime [OF root_3541])

lemma root_87211: "prim_root 87211 13"
  by (rule certified_prim_root [where cs = "[
        (2, 1, [(True, 0), (False, 0), (True, 4), (False, 5778), (True, 409965), (False, 10061), (True,
      162458), (False, 11420), (False, 4989), (True, 1093315), (False, 80267), (True, 359), (False,
      222), (True, 97438), (False, 46877), (True, 4798)]),
        (3, 3, [(True, 0), (True, 0), (True, 719), (False, 22005), (False, 45234), (False, 53187),
      (True, 772574), (True, 810063), (False, 43395), (False, 49972), (False, 198), (True, 753930),
      (True, 58332), (True, 644608), (False, 3)]),
        (5, 1, [(True, 0), (False, 0), (False, 0), (False, 9353), (True, 318691), (False, 6370), (False,
      38534), (False, 26602), (False, 60882), (True, 57188), (False, 13829), (False, 44822), (False,
      9671), (True, 60721), (False, 36249)]),
        (17, 1, [(True, 0), (False, 0), (True, 4), (False, 5778), (False, 31535), (False, 55169),
      (False, 4978), (False, 22412), (False, 17971), (True, 59864), (False, 5298), (True, 173719),
      (False, 11641)]),
        (19, 1, [(True, 0), (False, 0), (False, 0), (False, 9353), (True, 318691), (True, 82818), (True,
      466379), (True, 192714), (False, 41989), (True, 256935), (True, 220628), (True, 284457), (False,
      2478)])]"])
    (simp_all add: chain_ok_def small_primes cong: power_chain_cong chain_ok_cong)

lemma prime_87211: "is_prime 87211"
  by (rule prim_root_prime [OF root_87211])

lemma root_364289: "prim_root 364289 3"
  by (rule certified_prim_root [where cs = "[
        (2, 8, [(True, 0), (False, 0), (True, 0), (True, 0), (False, 86143), (False, 34607), (False,
      243938), (True, 627867), (True, 34708), (True, 48305), (True, 282115), (False, 111425), (False,
      11583), (False, 34553), (False, 127859), (False, 125138), (False, 41677), (False, 112977)]),
        (1423, 1, [(True, 0), (False, 0), (False, 0), (False, 0), (False, 118), (False, 10087), (False,
      17576), (False, 51417), (False, 401)])]"])
    (simp_all add: chain_ok_def small_primes cong: power_chain_cong chain_ok_cong)

lemma prime_364289: "is_prime 364289"
  by (rule prim_root_prime [OF root_364289])

lemma root_119363: "prim_root 119363 2"
  by (rule certified_prim_root [where cs = "[
        (2, 1, [(True, 0), (True, 0), (True, 0), (False, 0), (True, 4497), (False, 76409), (False,
      9421), (True, 1789), (False, 15), (False, 66653), (True, 9956), (False, 80838), (False, 37278),
      (False, 49057), (False, 5573), (True, 79426)]),
        (37, 1, [(True, 0), (True, 0), (False, 0), (False, 0), (True, 281), (False, 1510), (False,
      83628), (True, 237104), (True, 138588), (False, 41507), (True, 83286), (False, 52550)]),
        (1613, 1, [(True, 0), (False, 0), (False, 0), (True, 0), (False, 2), (True, 9188), (False,
      80795)])]"])
    (simp_all add: chain_ok_def small_primes cong: power_chain_cong chain_ok_cong)

lemma prime_119363: "is_prime 119363"
  by (rule prim_root_prime [OF root_119363])

lemma root_238727: "prim_root 238727 5"
  by (rule certified_prim_root [where cs = "[
        (2, 1, [(True, 0), (True, 0), (True, 0), (False, 25566), (True, 1024270), (False, 217669),
      (False, 900), (True, 301318), (False, 22625), (False, 120576), (True, 245060), (False, 210528),
      (False, 161526), (False, 116486), (False, 186067), (True, 406836), (True, 24422)]),
        (119363, 1, [(True, 0), (False, 0)])]"])
    (simp_all add: chain_ok_def small_primes prime_119363 cong: power_chain_cong chain_ok_cong)

lemma prime_238727: "is_prime 238727"
  by (rule prim_root_prime [OF root_238727])

lemma root_36650387593: "prim_root 36650387593 5"
  by (rule certified_prim_root [where cs = "[
        (2, 3, [(True, 0), (False, 0), (False, 0), (False, 0), (True, 20), (False, 24444673015), (False,
      30264423846), (False, 1824527646), (True, 76702735441), (False, 71929252), (False, 22593916939),
      (False, 9410359124), (True, 68212161306), (False, 1106985447), (False, 4485580033), (False,
      34765915959), (True, 168454382362), (False, 20674358210), (False, 6214690172), (False,
      15486566155), (True, 38527522887), (False, 12764432710), (False, 1075424262), (False, 1811282019),
      (True, 54648809293), (False, 32752757038), (False, 29779803868), (False, 14429294), (True,
      699396435), (False, 35304107055), (False, 12748281882), (False, 8828520298), (True, 3530530664),
      (False, 681385105), (False, 2925745848)]),
        (3, 2, [(True, 0), (False, 0), (True, 0), (True, 0), (False, 65052), (True, 3113575005), (True,
      4938402012), (False, 14521181938), (False, 245623526), (False, 35872267614), (False, 19077720519),
      (False, 62344781), (True, 41110239689), (False, 7954136276), (True, 53723833117), (True,
      1272047507), (False, 552262239), (True, 157324552403), (True, 65293726027), (False, 3872998566),
      (False, 354799964), (False, 84972969), (False, 17894013058), (False, 10353355177), (True,
      19420700962), (False, 6810249674), (True, 103630110338), (True, 94761111707), (False,
      28923065279), (True, 20298744367), (True, 127536474515), (False, 4072924478), (False,
      11618705982), (False, 5620548727)]),
        (7, 1, [(True, 0), (False, 0), (False, 0), (True, 0), (True, 520), (True, 31872035714), (False,
      19493045296), (False, 5618988839), (False, 32974047753), (False, 5146901174), (False, 279888067),
      (False, 14704975206), (True, 7339192605), (False, 4092370676), (False, 15588401754), (True,
      25970397546), (True, 68237839959), (True, 8699257), (False, 178020), (False, 619633715), (False,
      13356785125), (False, 5460314248), (False, 1925456961), (False, 31886580087), (True, 2008891),
      (False, 30685731781), (False, 34302376946), (True, 61996346998), (True, 59008190411), (True,
      45007676328), (False, 18632018945), (False, 2856835805), (False, 11156914684)]),
        (13, 1, [(True, 0), (False, 0), (True, 0), (False, 0), (True, 13010), (False, 6653341141),
      (False, 953715501), (False, 902260), (False, 18120028692), (False, 5047552179), (False,
      20209067680), (False, 18368933551), (True, 94636252292), (False, 33083106150), (True,
      50911067406), (False, 904874821), (True, 106870906255), (False, 8163206121), (False, 13197832091),
      (False, 2056307869), (False, 11694429616), (False, 31490270323), (False, 408464538), (False,
      27869702512), (True, 104866055540), (False, 27873300437), (True, 5251085), (False, 5571457191),
      (True, 47066648512), (False, 483834440), (False, 36555765350), (False, 22042738307)]),
        (19, 1, [(True, 0), (True, 0), (True, 0), (False, 0), (False, 1016439536), (True, 87808094036),
      (False, 14743875881), (True, 14136706186), (True, 73027305223), (True, 39128425338), (True,
      1468282901), (True, 99788581485), (False, 18258087998), (False, 14362847717), (True, 56236010461),
      (True, 18377907084), (False, 636748549), (True, 1944930926), (True, 83317262079), (False,
      27669344209), (True, 10858859877), (True, 2481231211), (False, 14107995361), (False, 16804341948),
      (True, 11833199430), (False, 2241946861), (True, 141866078663), (True, 4931909496), (False,
      12858935133), (False, 19000188187), (False, 4905814037)]),
        (37, 1, [(True, 0), (True, 0), (True, 0), (False, 0), (True, 5082197683), (True, 38960226050),
      (False, 26884661473), (False, 12847041465), (False, 4039572044), (False, 24912964404), (True,
      81610336979), (False, 25251944824), (True, 103301544577), (False, 11400753855), (True, 5742518),
      (False, 3569797459), (False, 26481971800), (True, 6191564497), (True, 11269673306), (False,
      4699756001), (True, 182947820475), (True, 946466759), (True, 112485682465), (True, 57796174645),
      (True, 64847803), (False, 12594520153), (True, 58815321906), (False, 28821341610), (False,
      14205589107), (False, 7830303793)]),
        (73, 1, [(True, 0), (True, 0), (True, 0), (False, 0), (True, 5082197683), (True, 38960226050),
      (True, 134423307367), (True, 168982293926), (False, 9128690215), (True, 16607543322), (True,
      77238333905), (False, 26457353663), (False, 17103566), (True, 11019018809), (True, 135626610387),
      (False, 300775223), (True, 66771843206), (False, 35225561226), (True, 163324019790), (False,
      15408775851), (False, 13396747859), (False, 13702400780), (True, 127141611745), (False, 43978230),
      (False, 29290144847), (True, 62004982916), (False, 4296413748), (False, 1651797213), (False,
      16060807201)]),
        (109, 1, [(True, 0), (False, 0), (True, 0), (False, 0), (False, 2602), (False, 266133645),
      (False, 15316229056), (False, 22804529550), (False, 24974295161), (True, 58978501), (False,
      15513298), (True, 70161771087), (False, 19641397526), (True, 114761713544), (False, 1707612),
      (True, 24819571577), (False, 19444387332), (False, 21100270546), (True, 6344331686), (False,
      3670361177), (True, 181129423122), (True, 98975298630), (False, 14484066246), (True, 37516803025),
      (False, 22548003530), (True, 15561353408), (False, 2439231888), (False, 21863832292), (False,
      10779985821)])]"])
    (simp_all add: chain_ok_def small_primes cong: power_chain_cong chain_ok_cong)

lemma prime_36650387593: "is_prime 36650387593"
  by (rule prim_root_prime [OF root_36650387593])

lemma root_155542661: "prim_root 155542661 2"
  by (rule certified_prim_root [where cs = "[
        (2, 2, [(True, 0), (False, 0), (False, 0), (True, 0), (False, 0), (True, 883), (False,
      57758883), (False, 52470899), (False, 128519411), (True, 68353580), (False, 14260846), (True,
      32069828), (False, 152391265), (True, 4144717), (True, 65078700), (False, 125093392), (False,
      12545912), (True, 82401181), (False, 17189532), (False, 5549546), (True, 193747491), (False,
      139200018), (False, 12447442), (False, 39307672), (False, 45213114), (True, 230850731), (False,
      11944689)]),
        (5, 1, [(True, 0), (True, 0), (True, 0), (False, 0), (True, 3), (True, 63443289), (False,
      155149693), (True, 82551417), (False, 31128178), (True, 309669760), (False, 44199), (True,
      282860815), (False, 77825737), (True, 16742158), (True, 187184442), (False, 136652659), (True,
      219340585), (True, 115780083), (False, 67553141), (True, 40563288), (True, 15033741), (False,
      30694196), (True, 307773320), (False, 61936209), (False, 42419937)]),
        (7, 2, [(True, 0), (False, 0), (True, 0), (False, 0), (True, 0), (False, 28275), (False,
      38885663), (True, 174985500), (True, 43746388), (False, 54835107), (False, 20447731), (False,
      503), (False, 104227016), (True, 241514534), (True, 190050742), (True, 68722581), (False,
      60501619), (False, 62378198), (True, 217149990), (False, 31658229), (True, 178630558), (True,
      74670631), (True, 9823847), (False, 1251756), (False, 102631234)]),
        (13, 1, [(True, 0), (False, 0), (True, 0), (True, 0), (False, 0), (True, 226203), (True,
      311085274), (False, 0), (True, 88), (False, 33014547), (False, 1120419), (True, 6489256), (False,
      39087909), (False, 191907), (False, 17498484), (True, 120340361), (True, 155053469), (False,
      140661530), (False, 133432433), (True, 171079909), (False, 68854256), (True, 3564715), (False,
      20435812), (False, 81720957)]),
        (29, 1, [(True, 0), (False, 0), (True, 0), (False, 0), (False, 0), (False, 7068), (True,
      238174698), (True, 36759105), (True, 208337594), (False, 27318992), (True, 183333803), (False,
      6748553), (True, 175759724), (True, 246949804), (True, 62082463), (False, 140028926), (True,
      27131296), (False, 1203155), (True, 96575142), (False, 54488478), (True, 117835722), (False,
      95545403), (False, 146489864)]),
        (421, 1, [(True, 0), (False, 0), (True, 0), (True, 0), (False, 0), (True, 226203), (False,
      155542637), (False, 0), (False, 2), (True, 181768109), (True, 258899494), (False, 163237), (False,
      7701916), (True, 186945959), (True, 60429711), (False, 5656329), (True, 7918706), (False,
      57221516), (False, 23557782)])]"])
    (simp_all add: chain_ok_def small_primes cong: power_chain_cong chain_ok_cong)

lemma prime_155542661: "is_prime 155542661"
  by (rule prim_root_prime [OF root_155542661])

lemma root_6994549: "prim_root 6994549 6"
  by (rule certified_prim_root [where cs = "[
        (2, 2, [(True, 0), (True, 0), (False, 0), (True, 1867), (False, 500498), (True, 38526522),
      (False, 5056740), (True, 93096), (False, 2213612), (True, 2632), (True, 6014560), (True, 1996683),
      (False, 6541841), (True, 2463267), (False, 2116422), (False, 30484), (True, 8985249), (True,
      11867876), (True, 40969863), (False, 6063883), (True, 1481097), (False, 569457)]),
        (3, 2, [(True, 0), (False, 0), (False, 0), (False, 0), (True, 2419978), (True, 19312118), (True,
      11888567), (False, 6185003), (False, 1156573), (True, 31232034), (False, 903838), (False,
      6391142), (True, 2599514), (True, 22562866), (False, 719901), (True, 298105), (True, 838447),
      (True, 5131383), (True, 14123008), (True, 3754257), (False, 435747), (False, 759343)]),
        (11, 1, [(True, 0), (False, 0), (False, 0), (True, 1), (True, 8154174), (False, 1239234), (True,
      39025177), (True, 34371), (False, 124123), (False, 4071889), (True, 1959997), (True, 13309425),
      (True, 5735815), (True, 7675333), (False, 900851), (True, 4755509), (True, 4820120), (True,
      10390426), (False, 3187082), (False, 692864)]),
        (17, 1, [(True, 0), (True, 0), (False, 0), (False, 311), (True, 1872852), (False, 744972),
      (False, 1776279), (False, 124637), (True, 7795293), (True, 20713215), (True, 4803331), (False,
      19219), (False, 455722), (True, 19301472), (True, 9661803), (False, 4278710), (True, 11172258),
      (False, 5030124), (False, 1036088)]),
        (1039, 1, [(True, 0), (True, 0), (False, 0), (True, 1867), (False, 500498), (False, 6421087),
      (True, 842790), (False, 431), (False, 47), (True, 8325060), (True, 987320), (False, 2741131),
      (False, 1817525)])]"])
    (simp_all add: chain_ok_def small_primes cong: power_chain_cong chain_ok_cong)

lemma prime_6994549: "is_prime 6994549"
  by (rule prim_root_prime [OF root_6994549])

lemma root_2462081249: "prim_root 2462081249 3"
  by (rule certified_prim_root [where cs = "[
        (2, 5, [(True, 0), (False, 0), (False, 0), (True, 0), (False, 0), (False, 60962502), (True,
      6063049761), (False, 230557210), (True, 55984830), (True, 2768949), (False, 23850522), (False,
      1161730970), (False, 199606118), (False, 19091742), (False, 2065913335), (False, 35384740),
      (False, 1585677975), (True, 2511817696), (True, 795403070), (False, 294241081), (False,
      1222780322), (False, 34294347), (False, 1533142586), (False, 742067647), (True, 58114006), (True,
      177400217), (True, 168692985), (False, 914713891), (False, 102805660), (False, 1554072135),
      (False, 1850005092)]),
        (11, 1, [(True, 0), (True, 0), (False, 0), (True, 0), (False, 1032), (True, 1213562069), (False,
      53625792), (True, 1098932464), (False, 755329), (True, 719084675), (True, 2952652961), (True,
      120373353), (False, 1368670184), (True, 3262872395), (False, 90270164), (False, 1541823503),
      (True, 6817379948), (True, 32164688), (True, 1320377793), (False, 2369515489), (True, 403259650),
      (False, 912877496), (True, 108007515), (False, 74585975), (False, 116286498), (False, 497662809),
      (False, 1054084736), (False, 604976933)]),
        (6994549, 1, [(True, 0), (False, 0), (True, 0), (True, 0), (False, 12), (False, 1369250806),
      (False, 287937361), (False, 1427598497), (False, 186267118)])]"])
    (simp_all add: chain_ok_def small_primes prime_6994549 cong: power_chain_cong chain_ok_cong)

lemma prime_2462081249: "is_prime 2462081249"
  by (rule prim_root_prime [OF root_2462081249])

lemma root_612229: "prim_root 612229 2"
  by (rule certified_prim_root [where cs = "[
        (2, 2, [(True, 0), (False, 0), (False, 0), (True, 0), (False, 0), (True, 224489), (False,
      125771), (True, 1182004), (False, 152994), (True, 700526), (True, 60167), (True, 1165661), (True,
      114519), (False, 475810), (False, 501379), (False, 330361), (False, 389346), (True, 1164795),
      (False, 1489)]),
        (3, 1, [(True, 0), (True, 0), (False, 0), (False, 0), (False, 27), (True, 199354), (True,
      306109), (True, 306139), (False, 153369), (True, 1012880), (False, 181829), (False, 1), (True,
      875668), (False, 8286), (True, 811762), (True, 340188), (False, 67015), (False, 270169)]),
        (163, 1, [(True, 0), (True, 0), (True, 0), (False, 0), (True, 876), (False, 509135), (True,
      1219343), (False, 75963), (True, 350375), (True, 67864), (False, 182782), (False, 454335)]),
        (313, 1, [(True, 0), (True, 0), (True, 0), (True, 0), (False, 1753), (True, 831081), (False,
      591920), (False, 45248), (True, 717605), (False, 44953), (False, 132086)])]"])
    (simp_all add: chain_ok_def small_primes cong: power_chain_cong chain_ok_cong)

lemma prime_612229: "is_prime 612229"
  by (rule prim_root_prime [OF root_612229])

lemma root_987127: "prim_root 987127 19"
  by (rule certified_prim_root [where cs = "[
        (2, 1, [(True, 0), (True, 0), (True, 905), (True, 5240773), (False, 120390), (False, 391625),
      (False, 418457), (False, 647369), (True, 403267), (True, 17075976), (True, 8602274), (True,
      201248), (True, 4999968), (True, 173488), (True, 567593), (True, 7174783), (False, 528022), (True,
      11921), (True, 2380054)]),
        (3, 1, [(True, 0), (False, 0), (True, 2), (False, 255132), (False, 522626), (False, 400315),
      (False, 10571), (False, 873955), (True, 477319), (False, 425945), (True, 17435029), (False,
      428169), (True, 346531), (False, 769521), (True, 347234), (False, 502944), (False, 180), (True,
      4550813), (False, 893091)]),
        (7, 1, [(True, 0), (False, 0), (False, 0), (False, 17205), (True, 35599), (False, 5050), (False,
      861115), (True, 8339573), (True, 2038717), (False, 736945), (True, 6313626), (True, 17330073),
      (False, 483959), (True, 12214306), (True, 1705484), (False, 288000), (True, 85069), (False,
      709867)]),
        (19, 1, [(True, 0), (True, 0), (False, 47), (False, 429211), (True, 8510491), (False, 87571),
      (True, 5482022), (False, 88150), (True, 15770507), (True, 6220425), (True, 13670269), (True,
      24745), (False, 903463), (False, 7731), (True, 1627267), (False, 16937)]),
        (1237, 1, [(True, 0), (True, 0), (False, 47), (False, 429211), (False, 447920), (True, 6631486),
      (True, 8170690), (True, 115252), (True, 793611), (False, 235234)])]"])
    (simp_all add: chain_ok_def small_primes cong: power_chain_cong chain_ok_cong)

lemma prime_987127: "is_prime 987127"
  by (rule prim_root_prime [OF root_987127])

lemma group_root_0: "prim_root 17 3"
  by (rule certified_prim_root [where cs = "[
        (2, 4, [(True, 0), (False, 0), (False, 4), (False, 9)])]"])
    (simp_all add: chain_ok_def small_primes cong: power_chain_cong chain_ok_cong)

lemma group_root_1: "prim_root 257 3"
  by (rule certified_prim_root [where cs = "[
        (2, 8, [(True, 0), (False, 0), (False, 0), (False, 25), (False, 71), (False, 241), (False, 15),
      (False, 225)])]"])
    (simp_all add: chain_ok_def small_primes cong: power_chain_cong chain_ok_cong)

lemma group_root_2: "prim_root 4099 2"
  by (rule certified_prim_root [where cs = "[
        (2, 1, [(True, 0), (False, 0), (False, 0), (False, 0), (False, 15), (False, 4003), (False,
      1295), (False, 10), (False, 3041), (False, 2054), (False, 1243), (True, 6000)]),
        (3, 1, [(True, 0), (False, 0), (True, 0), (False, 0), (True, 511), (False, 1602), (True, 2742),
      (False, 3567), (True, 1657), (True, 768), (False, 993)]),
        (683, 1, [(True, 0), (True, 0), (False, 0)])]"])
    (simp_all add: chain_ok_def small_primes cong: power_chain_cong chain_ok_cong)

lemma group_root_3: "prim_root 65537 3"
  by (rule certified_prim_root [where cs = "[
        (2, 16, [(True, 0), (False, 0), (False, 0), (False, 0), (False, 656), (False, 45236), (False,
      58406), (False, 5589), (False, 3446), (False, 1), (False, 2985), (False, 1031), (False, 65521),
      (False, 0), (False, 255), (False, 65025)])]"])
    (simp_all add: chain_ok_def small_primes cong: power_chain_cong chain_ok_cong)

lemma group_root_4: "prim_root 1048583 5"
  by (rule certified_prim_root [where cs = "[
        (2, 1, [(True, 0), (False, 0), (False, 0), (False, 0), (False, 145518), (False, 34293), (False,
      704253), (False, 859716), (False, 39608), (False, 845792), (False, 270204), (False, 63770),
      (False, 16872), (False, 52105), (False, 90357), (False, 31578), (False, 302269), (False, 49289),
      (True, 2882320), (True, 2173121)]),
        (29, 1, [(True, 0), (False, 0), (False, 0), (False, 0), (True, 727590), (True, 4286727), (False,
      203805), (True, 7009), (False, 394486), (False, 771829), (True, 140360), (True, 1186964), (True,
      1221411), (True, 5090528), (True, 2385446), (False, 1172)]),
        (101, 1, [(True, 0), (False, 0), (True, 0), (False, 9), (False, 102836), (False, 829), (True,
      2602040), (False, 553), (False, 46504), (False, 638815), (True, 4880), (True, 5963), (True,
      2442442), (False, 418436)]),
        (179, 1, [(True, 0), (False, 0), (True, 0), (True, 46), (False, 335703), (True, 2592826), (True,
      1361972), (True, 1555458), (False, 265531), (False, 12608), (False, 294627), (True, 1533423),
      (False, 628)])]"])
    (simp_all add: chain_ok_def small_primes cong: power_chain_cong chain_ok_cong)

lemma group_root_5: "prim_root 16777259 2"
  by (rule certified_prim_root [where cs = "[
        (2, 1, [(True, 0), (False, 0), (False, 0), (False, 0), (False, 0), (False, 255), (False,
      16755250), (False, 831607), (False, 11695481), (False, 6934724), (False, 5123875), (False,
      5750211), (False, 1382163), (False, 4221681), (False, 9333963), (False, 1030603), (False, 5880),
      (False, 7752), (False, 6433727), (True, 22857707), (False, 789613), (True, 18890168), (False,
      13904997), (True, 8561000)]),
        (23, 1, [(True, 0), (False, 0), (True, 0), (True, 0), (False, 0), (False, 1048573), (True,
      3276952), (False, 12211707), (False, 244590), (False, 903759), (False, 2412479), (True, 2419713),
      (False, 3179086), (True, 30043855), (True, 502422), (False, 44742), (False, 41839), (True,
      460003), (True, 16233830), (False, 1221211)]),
        (103, 1, [(True, 0), (False, 0), (False, 0), (True, 0), (True, 0), (True, 32767), (True,
      28155093), (True, 5193314), (False, 5285957), (False, 8873104), (False, 11067654), (True,
      14980928), (False, 3587287), (False, 11927021), (False, 773697), (True, 20664036), (True,
      33532421), (False, 6848979)]),
        (3541, 1, [(True, 0), (False, 0), (False, 0), (True, 0), (False, 0), (True, 8191), (False,
      16080142), (False, 16147231), (False, 4297848), (False, 2650459), (False, 12974354), (True,
      28254726), (False, 7197443)])]"])
    (simp_all add: chain_ok_def small_primes prime_3541 cong: power_chain_cong chain_ok_cong)

lemma group_root_6: "prim_root 268435459 2"
  by (rule certified_prim_root [where cs = "[
        (2, 1, [(True, 0), (False, 0), (False, 0), (False, 0), (False, 0), (False, 15), (False,
      268435363), (False, 0), (False, 104975), (False, 267805972), (False, 60048132), (False, 97897376),
      (False, 61978693), (False, 108101915), (False, 38950411), (False, 250573577), (False, 90380417),
      (False, 2939608), (False, 91570053), (False, 231581103), (False, 13023522), (False, 13986333),
      (False, 47840684), (False, 63795324), (False, 27838961), (False, 16033895), (False, 125415826),
      (True, 145602000)]),
        (3, 4, [(True, 0), (False, 0), (True, 0), (False, 0), (True, 0), (False, 16383), (True,
      536674327), (False, 268435351), (True, 0), (False, 1077383), (True, 15243898), (False, 7798232),
      (True, 1844552), (False, 2807334), (True, 180336044), (False, 18959835), (True, 12737759), (False,
      190412137), (True, 328805454), (False, 172537301), (True, 196819009), (False, 246756691), (True,
      108156267), (False, 242898186), (True, 163800691), (True, 469827360), (False, 67100673)]),
        (19, 1, [(True, 0), (True, 0), (False, 0), (True, 0), (False, 0), (True, 33554431), (True,
      209715205), (True, 13107201), (True, 284936232), (False, 74419005), (False, 86427141), (True,
      29114375), (False, 72757487), (True, 186228), (False, 55274523), (False, 6173496), (False,
      215988417), (False, 120050944), (True, 63490695), (True, 77471894), (False, 45813688), (True,
      517576942), (True, 139379099), (False, 4220325)]),
        (87211, 1, [(True, 0), (True, 0), (False, 0), (False, 0), (False, 0), (False, 1048575), (False,
      262180866), (False, 268214320), (False, 84934503), (True, 16601939), (True, 195143686), (False,
      7728036)])]"])
    (simp_all add: chain_ok_def small_primes prime_87211 cong: power_chain_cong chain_ok_cong)

lemma group_root_7: "prim_root 4294967311 3"
  by (rule certified_prim_root [where cs = "[
        (2, 1, [(True, 0), (False, 0), (False, 0), (False, 0), (False, 0), (False, 431439), (False,
      3339394636), (False, 2041095989), (False, 322282221), (False, 2024501), (False, 3950910500),
      (False, 30733151), (False, 305107469), (False, 2324304839), (False, 3696010342), (False, 4080431),
      (False, 3620929249), (False, 1318427187), (False, 802753054), (False, 54002012), (False,
      2027328792), (False, 2257116255), (False, 3465069214), (False, 1063619), (False, 1099740932),
      (False, 3392509969), (False, 568152329), (False, 91967321), (False, 1022863329), (True,
      4849472193), (True, 6122940993), (True, 12640906107)]),
        (3, 2, [(True, 0), (False, 0), (True, 0), (False, 0), (True, 2), (False, 814550010), (True,
      2865188350), (False, 3982075533), (True, 4396014785), (False, 3569840056), (True, 8579006655),
      (False, 4085526849), (True, 507445993), (False, 472031085), (True, 7980385086), (False,
      3936583106), (True, 7287153867), (False, 3996158107), (True, 246559178), (False, 47384793), (True,
      316988084), (False, 148549604), (True, 11267096359), (False, 466576182), (True, 12662249), (False,
      3765512879), (True, 4435147384), (True, 1116839565), (False, 1351415425), (True, 3160226528),
      (False, 1013325961)]),
        (5, 1, [(True, 0), (True, 0), (False, 0), (False, 0), (True, 197), (True, 972661226), (False,
      2078263613), (False, 2208881692), (True, 84823304), (True, 1077967873), (False, 119048496),
      (False, 2596815193), (True, 168333266), (True, 197090958), (False, 1077220530), (False,
      301797411), (True, 7952894559), (True, 424339438), (False, 838149839), (False, 218214464), (True,
      2960315155), (True, 10341233341), (False, 215350669), (False, 424112993), (True, 3537957381),
      (True, 2500293084), (False, 1262777), (True, 8442436758), (True, 6340691190), (False,
      3084901661)]),
        (131, 1, [(True, 0), (True, 0), (True, 0), (True, 0), (True, 143813), (False, 371043848), (True,
      3498041235), (False, 107618508), (False, 3574180277), (False, 885744000), (True, 1262128), (False,
      176810974), (False, 1157195083), (False, 3089668165), (True, 3668262333), (True, 810031136),
      (False, 1211140441), (False, 3170667153), (True, 50507699), (False, 618746248), (True,
      4773966126), (True, 3765168808), (False, 3789629836), (True, 11781592811), (False, 4157575)]),
        (364289, 1, [(True, 0), (False, 0), (True, 0), (True, 0), (True, 21), (False, 3630653273),
      (False, 165464283), (False, 2968838685), (False, 2878896055), (False, 106317853), (True,
      2404627932), (True, 8112389476), (True, 2790458584), (False, 1285303171)])]"])
    (simp_all add: chain_ok_def small_primes prime_364289 cong: power_chain_cong chain_ok_cong)

lemma group_root_8: "prim_root 68719476767 5"
  by (rule certified_prim_root [where cs = "[
        (2, 1, [(True, 0), (False, 0), (False, 0), (False, 0), (False, 2), (False, 3339523316), (False,
      53015215146), (False, 14627013171), (False, 1021034679), (False, 32249663108), (False, 236225986),
      (False, 27271821765), (False, 1580695087), (False, 37610685469), (False, 17813497794), (False,
      29391733908), (False, 8438955686), (False, 29062236422), (False, 28144158722), (False,
      14711507064), (False, 52319407630), (False, 33634347609), (False, 33851712682), (False,
      30075557559), (False, 63374608085), (False, 26493842787), (False, 11675966590), (False,
      9606409722), (False, 33679947565), (False, 58431579707), (False, 67965605578), (False,
      29706808053), (True, 152501727941), (True, 24358725691), (True, 263585324766), (True,
      24466315537)]),
        (163, 1, [(True, 0), (True, 0), (False, 0), (False, 0), (True, 4336808), (False, 32526594426),
      (False, 27314205291), (True, 228161587572), (False, 7096492895), (False, 850771173), (False,
      73351565), (False, 67326122945), (False, 60142634465), (True, 130924656750), (True, 12574713191),
      (True, 230960461052), (True, 248779433910), (True, 37812448062), (False, 41962938818), (True,
      200165298255), (True, 315590440213), (False, 53226422033), (True, 337906311016), (False,
      47184155783), (False, 6723806089), (True, 11778262596), (False, 13040086094), (True,
      128052266208), (False, 16671677)]),
        (883, 1, [(True, 0), (False, 0), (False, 0), (True, 0), (False, 55), (True, 89773597369),
      (False, 43743601809), (False, 28727908115), (False, 840248898), (True, 34713626132), (True,
      296894626802), (True, 57918756330), (False, 58340492312), (False, 55053898765), (False,
      5657899995), (False, 34215243735), (False, 2168792092), (True, 59695004432), (True, 126117489101),
      (True, 28720078839), (True, 132896783974), (True, 102567651), (False, 148094269), (True,
      33531419075), (False, 39692619231), (True, 47733501824), (False, 32661936655)]),
        (238727, 1, [(True, 0), (False, 0), (False, 0), (False, 0), (True, 11), (True, 3590943894),
      (False, 43095861935), (False, 35252532503), (True, 13929000), (False, 61485491050), (False,
      129189073), (False, 127141273), (True, 84285034073), (True, 183569670181), (True, 1854030641),
      (False, 25708039486), (False, 9561918699), (True, 171959894443), (False, 835486582)])]"])
    (simp_all add: chain_ok_def small_primes prime_238727 cong: power_chain_cong chain_ok_cong)

lemma group_root_9: "prim_root 1099511627791 3"
  by (rule certified_prim_root [where cs = "[
        (2, 1, [(True, 0), (False, 0), (False, 0), (False, 0), (False, 0), (False, 1685), (False,
      107061061214), (False, 75800968722), (False, 494018260813), (False, 99269159801), (False,
      878845197122), (False, 329865900523), (False, 726834430409), (False, 773362965971), (False,
      1082112422), (False, 831452936238), (False, 119644860539), (False, 8922590938), (False,
      659355636775), (False, 16275210511), (False, 876562897), (False, 697538746166), (False,
      64236122083), (False, 161174465408), (False, 126846980437), (False, 994659296851), (False,
      393781253335), (False, 488524483467), (False, 592836597064), (False, 25765813282), (False,
      303805), (False, 365381744814), (False, 162618387903), (False, 1652707328), (False,
      1026933182120), (False, 2893477673), (False, 295855411364), (True, 993268738672), (True,
      2439362121876), (True, 2044774707963)]),
        (3, 1, [(True, 0), (False, 0), (True, 0), (False, 0), (True, 0), (False, 99515990), (True,
      2595784641493), (False, 1028168692365), (True, 1282870382408), (False, 928348184918), (True,
      1531166955629), (False, 561836051301), (True, 2856956376914), (False, 323725408846), (True,
      1515168731456), (False, 176584013436), (True, 2506846005188), (False, 692303420917), (True,
      255597479241), (False, 175987394504), (True, 218451125024), (False, 986702101057), (True,
      2377776728208), (False, 635825523936), (True, 1107072884766), (False, 1021664964102), (True,
      1092027793144), (False, 16946828467), (True, 1670715704181), (False, 268364079), (True,
      1814378736054), (False, 34013033119), (True, 2986898523750), (False, 901390657609), (True,
      2134131019413), (True, 327778261340), (False, 133037966048), (True, 511193676992), (False,
      36024946351)]),
        (5, 1, [(True, 0), (True, 0), (False, 0), (False, 0), (True, 0), (True, 1958773248630), (False,
      771982806324), (False, 270465920064), (True, 961894174433), (True, 132123655844), (False,
      27898772441), (False, 76337130556), (True, 2307266847084), (True, 1263151497845), (False,
      82147245546), (False, 171699465118), (True, 898778691027), (True, 1128965128501), (False,
      891401329727), (False, 803748042343), (True, 2999484947619), (True, 2802892271028), (False,
      9730317130), (False, 775388879373), (True, 2054997913533), (True, 1541155962980), (False,
      492786857859), (False, 102204967427), (True, 1771285049410), (True, 1316288813514), (False,
      418473819902), (False, 62756241069), (True, 96984019040), (True, 157519118123), (False,
      78591060287), (True, 395753555699), (True, 2390472423801), (False, 627685295217)]),
        (36650387593, 1, [(True, 0), (True, 0), (True, 0), (True, 0), (False, 187)])]"])
    (simp_all add: chain_ok_def small_primes prime_36650387593 cong: power_chain_cong chain_ok_cong)

lemma group_root_10: "prim_root 17592186044423 5"
  by (rule certified_prim_root [where cs = "[
        (2, 1, [(True, 0), (False, 0), (False, 0), (False, 0), (False, 0), (False, 1323488980), (False,
      125071075032), (False, 949364519125), (False, 2653688824907), (False, 788888900582), (False,
      8029750571391), (False, 5713637462396), (False, 3886852152245), (False, 253909737197), (False,
      7400478669844), (False, 1912604200555), (False, 84733780081), (False, 2772855336254), (False,
      438544269997), (False, 3064282712230), (False, 234892727881), (False, 48027599), (False,
      688858051302), (False, 160402748273), (False, 57290955798), (False, 4041973004790), (False,
      5083405317147), (False, 1570158564552), (False, 1493018380229), (False, 4486816535979), (False,
      9460322467876), (False, 1154252089872), (False, 4648626107927), (False, 605656610317), (False,
      14138164041716), (False, 8754354036546), (False, 14277377523144), (False, 7591639286589), (False,
      14200194374263), (False, 12261430794523), (False, 304370618016), (False, 463219504638), (True,
      37196700948985), (True, 228145593361)]),
        (11, 1, [(True, 0), (False, 0), (True, 0), (True, 0), (True, 677), (False, 6901838514562),
      (True, 224963315814), (False, 755456119000), (False, 2707249852), (False, 1116643191592), (True,
      29108106115442), (False, 11991475897058), (True, 78540202301015), (True, 14696489622882), (True,
      2641881159141), (False, 1709261673779), (True, 77812239242901), (False, 3604633625979), (False,
      13254076693576), (False, 886785342247), (True, 34972971488501), (False, 13531481974523), (True,
      4563307589160), (True, 822024531608), (True, 6382157318219), (False, 9684228341680), (True,
      1856014221973), (False, 862981628103), (False, 10986962674699), (False, 3449578412116), (True,
      48637086639691), (False, 412641372532), (True, 18865002694890), (True, 39091958454900), (True,
      26172785841720), (False, 3495518644164), (True, 26119608744509), (False, 45097736375), (False,
      3289735784331), (True, 12437816766599), (False, 14911422140339)]),
        (53, 1, [(True, 0), (False, 0), (False, 0), (True, 0), (True, 1), (False, 124728701990), (True,
      18889615067142), (False, 1182671587362), (True, 2845898110960), (False, 11775320521251), (False,
      7976410540710), (True, 36566290362594), (False, 32338234351), (False, 124578890353), (False,
      9725644721839), (False, 1334232112534), (True, 10560405327394), (True, 1885500786691), (True,
      29093978238042), (False, 41908227859), (False, 161423604037), (True, 24841665793035), (True,
      28896147863800), (True, 76145249526996), (True, 58940430458319), (True, 1736685304610), (False,
      2233449142691), (True, 2397513259156), (True, 47488120930363), (False, 12290481730752), (False,
      797310437089), (True, 798280380630), (False, 4208010722816), (True, 21036501107108), (False,
      3210090148191), (True, 6176983713818), (True, 8467065925876), (True, 24158272096391), (False,
      4958338976270)]),
        (97, 1, [(True, 0), (False, 0), (True, 0), (False, 0), (True, 27), (False, 194154551531),
      (False, 7028540709889), (False, 2777506211582), (True, 9771149343360), (True, 42453818907423),
      (True, 36420256763391), (False, 5059977071134), (True, 12003145059568), (False, 7522117875301),
      (False, 2853109168020), (False, 478012884020), (False, 477361), (False, 2632431045907), (True,
      8287120973073), (True, 32063868533273), (True, 9889853788121), (True, 4418552555174), (True,
      42048443944700), (True, 2313764183558), (False, 499336577352), (True, 79130597958360), (False,
      8572202234501), (True, 8263551434894), (False, 7290458911487), (True, 13939727963894), (True,
      70042090832320), (True, 65250941324244), (False, 12016541835122), (False, 3535609502486), (False,
      13741827722385), (True, 46239782211511), (True, 45901578077236), (False, 10660572768930)]),
        (155542661, 1, [(True, 0), (True, 0), (False, 0), (True, 0), (True, 423516), (True,
      19731617330838), (False, 6831240509298), (False, 12061048548640), (True, 75591719205008), (True,
      40273664570344), (True, 104019229520), (False, 4477567948140), (False, 4740344322373), (True,
      5454555296151), (True, 217414365046), (True, 20171109705537), (False, 3356820408636)])]"])
    (simp_all add: chain_ok_def small_primes prime_155542661 cong: power_chain_cong chain_ok_cong)

lemma group_root_11: "prim_root 281474976710677 6"
  by (rule certified_prim_root [where cs = "[
        (2, 2, [(True, 0), (False, 0), (False, 0), (False, 0), (False, 0), (False, 28274844190), (False,
      16490620057520), (False, 60550411435805), (False, 78987828678432), (False, 161738655498193),
      (False, 2626985795025), (False, 148004831760537), (False, 18893026400994), (False,
      79780585182821), (False, 243735739469506), (False, 323270101495), (False, 25749619433444), (False,
      249404037484743), (False, 46027152538868), (False, 41348229162796), (False, 37612717093145),
      (False, 1877200620819), (False, 175145701160208), (False, 86066484452745), (False,
      274958629118532), (False, 63745783020648), (False, 44373232729618), (False, 67009523070899),
      (False, 178176067336), (False, 4710358895997), (False, 38821620554573), (False, 94941828569876),
      (False, 3132762314169), (False, 2747920041933), (False, 62095659232987), (False, 121203395660239),
      (False, 55187858237824), (False, 115373862096361), (False, 105470932467980), (False,
      19241807701362), (False, 86222661361703), (False, 45438372684826), (False, 49539607145274),
      (False, 95075841699948), (True, 1576420531194734), (False, 10175280202287), (True,
      1118462071221763), (False, 3617166025)]),
        (3, 1, [(True, 0), (False, 0), (True, 0), (False, 0), (True, 77), (False, 246443479167168),
      (True, 58117971520995), (False, 7264676773184), (True, 37650183049763), (False, 18805365039056),
      (True, 175861220130881), (False, 27654543084080), (True, 266383124420440), (False,
      234104029853102), (True, 1601808731232972), (False, 10266558736979), (True, 59193108442165),
      (False, 248777840129866), (True, 708009167347564), (False, 163257870734692), (True,
      759040213583210), (False, 16140320311779), (True, 674671165946778), (False, 23882485434999),
      (True, 308264996211259), (False, 124217488368506), (True, 964539141582272), (False,
      14675599069791), (True, 60779990306478), (False, 27187481006293), (True, 233344422432750), (False,
      66265632403086), (True, 582645181586621), (False, 22608785757052), (True, 968855674165749),
      (False, 14974239759342), (True, 33497424624401), (False, 271828349150896), (True,
      1385324313807203), (False, 102828658473393), (True, 145597824008757), (False, 100584437026990),
      (True, 1585477192262967), (True, 1037291645480047), (True, 1266193869671351), (False,
      188073686745054), (False, 110218745918683)]),
        (7, 1, [(True, 0), (False, 0), (False, 0), (True, 0), (False, 0), (False, 36644198070553),
      (True, 808991608498662), (False, 77638469029251), (False, 159169419422247), (True,
      1340227539539300), (False, 9666755297874), (False, 11673242616557), (True, 369162510351962),
      (False, 14660582055360), (False, 47407782872985), (True, 251875190921838), (False,
      42361726871273), (False, 242555663229132), (True, 216271447870258), (False, 2680749091420),
      (False, 26806351454144), (True, 1295112384903722), (False, 23218286447068), (False,
      103571987007606), (True, 132692513953627), (False, 98976733681538), (False, 184923034447567),
      (True, 16260913911785), (False, 107122076733556), (False, 31733179561353), (True,
      1549558863942886), (False, 227088690003085), (False, 34720073993928), (True, 8834445568631),
      (False, 276160744062335), (False, 228537700130917), (True, 2259089312612), (False,
      131935368503808), (False, 43545948512675), (True, 127546781914591), (False, 49841002932630),
      (False, 85682256015864), (True, 840049896079298), (True, 243774250510591), (False,
      257382378173765), (False, 65525273501635)]),
        (1361, 1, [(True, 0), (True, 0), (False, 0), (False, 0), (False, 16834), (False, 3543192502243),
      (False, 1973454521), (False, 85407729070048), (True, 196079235206897), (False, 48509459687032),
      (False, 109388646105085), (True, 425347460978214), (True, 1171935387917288), (True,
      173571245973667), (False, 13793354678664), (False, 11668092146329), (False, 20204288935896),
      (True, 528193941811400), (True, 2065019746178), (True, 29960977280376), (True, 99259864406684),
      (True, 987435797385649), (True, 640348090169424), (True, 61364076698707), (False, 7528094736921),
      (False, 85743239972285), (True, 1361713019278120), (False, 81261172229152), (False,
      131623563244115), (True, 10150500232996), (True, 1317549565238821), (True, 6701952748521), (False,
      107887512911883), (True, 101411835771210), (False, 81507643519066), (True, 1487518530637833),
      (False, 94182736455678), (False, 32159300096897)]),
        (2462081249, 1, [(True, 0), (True, 0), (False, 0), (True, 0), (True, 3636168), (True,
      92745034063077), (True, 88585552642333), (True, 60065760881699), (False, 53199755430823), (True,
      175915229208889), (False, 18815667497750), (False, 131117708318550), (True, 7240335085566),
      (False, 23451614638443), (True, 26019300486016), (False, 145842625696386), (False,
      44387786462368)])]"])
    (simp_all add: chain_ok_def small_primes prime_2462081249 cong: power_chain_cong chain_ok_cong)

lemma group_root_12: "prim_root 4503599627370517 2"
  by (rule certified_prim_root [where cs = "[
        (2, 2, [(True, 0), (False, 0), (False, 0), (False, 0), (False, 0), (False, 0), (False, 4095),
      (False, 4503599627198485), (False, 12155), (False, 17592186012509), (False, 8320656952976),
      (False, 382227079580042), (False, 370072007800024), (False, 771347836722814), (False,
      1287402783447246), (False, 1066877994845939), (False, 7159616666581), (False, 3663557288198198),
      (False, 6193538269898), (False, 2594718185098947), (False, 4240191403790210), (False,
      366674704957947), (False, 923085313725735), (False, 33243632500274), (False, 286451507674268),
      (False, 779535992077421), (False, 811959843787992), (False, 315887529705424), (False,
      117258039085440), (False, 2734623967617461), (False, 2451704962578047), (False, 3129695248582377),
      (False, 1207259230727903), (False, 234482675295435), (False, 2327755953483353), (False,
      2651984339885071), (False, 284840782723121), (False, 1242149634135636), (False, 190092933944182),
      (False, 1447386923021336), (False, 1584082206959723), (False, 3687682101977369), (False,
      1553396044034334), (False, 1245004102090737), (False, 238639730443907), (False, 756804056303729),
      (False, 1091773886942684), (False, 171298168038486), (True, 2255186229875829), (False,
      2075832254221712), (True, 8746091199483887), (False, 3840477009705)]),
        (3, 4, [(True, 0), (False, 0), (True, 0), (False, 0), (True, 0), (False, 0), (True, 8589934591),
      (False, 4503238857342996), (True, 9007198647812148), (False, 226211466347488), (True,
      5989892041961436), (False, 29287590465632), (True, 5690649877382340), (False, 4234904267747428),
      (True, 57625040087739), (False, 1652613438441626), (True, 7963040457057259), (False,
      2072053227569373), (True, 2844829394345252), (False, 3122770483227253), (True, 222072908038746),
      (False, 2443928639461606), (True, 321164717284337), (False, 155974640177515), (True,
      2630167223572555), (False, 27843423808672), (True, 1530222432417295), (False, 232363648748854),
      (True, 7084122313618027), (False, 47554024237791), (True, 769829161763443), (False,
      3487919412068624), (True, 2768303280143771), (False, 200152564328615), (True, 492091249935044),
      (False, 25715426732498), (True, 16872394197591), (False, 606721054199764), (True,
      4054524490384749), (False, 1237226071230676), (True, 788723153179064), (False, 823029806740540),
      (True, 3082576337605016), (False, 76865868389698), (True, 3179494893477268), (False,
      1819334534559103), (True, 748616676731776), (True, 7254613304549199), (True, 2473405238848468),
      (False, 1254395721316111), (False, 925767418289509)]),
        (23, 1, [(True, 0), (False, 0), (True, 0), (True, 0), (False, 0), (False, 0), (True,
      137438953471), (False, 4497829041012756), (False, 4503521940806852), (False, 3730711659713908),
      (False, 4206746697403580), (True, 493124460439890), (False, 550049373832532), (True,
      7870105961398732), (True, 2207539277347038), (False, 1231678203490730), (False, 1334229689043900),
      (True, 1985031769172192), (False, 2614518951940084), (False, 272614471862906), (False,
      90796185830991), (False, 1391543106784543), (True, 7261443707050127), (False, 3699409006976144),
      (True, 1283535721687300), (True, 664539853514573), (False, 2240231717188311), (False,
      3511094744316193), (True, 1184235604964836), (False, 953462533368889), (False, 34418699519738),
      (False, 854010272911525), (False, 3705057207523563), (True, 6097821709279595), (False,
      1004785265909414), (True, 7726687694862651), (True, 371314193788915), (False, 139715825829635),
      (False, 4242085933361036), (True, 2878125434466325), (False, 3665143191399756), (False,
      86557153224119), (False, 22627296815277), (False, 613701100499333), (True, 151883456185621),
      (True, 7006345649791815), (False, 4016186680780869), (False, 2906610933747911)]),
        (612229, 1, [(True, 0), (True, 0), (False, 0), (True, 0), (True, 0), (False, 3), (True,
      9007199254740698), (True, 0), (False, 35), (False, 228568137030376), (True, 2458562084342609),
      (True, 2578291816655237), (True, 4975491044947671), (False, 51726039173147), (True,
      5505085803489164), (False, 2723411566145), (False, 1070815459341), (True, 3931915564829), (False,
      653254342420411), (True, 10578939222742), (True, 6675827203273806), (True, 5955466570719784),
      (False, 266967014205662), (True, 422368087994813), (False, 50007091190661), (False,
      1071109874262171), (False, 290553728792109), (False, 70414091391507), (False, 2680579506103859),
      (False, 679358082139162), (True, 4820477148618224), (False, 12445836933488), (False,
      125151378852136)]),
        (987127, 1, [(True, 0), (False, 0), (False, 0), (False, 0), (False, 0), (True, 0), (True,
      32767), (True, 9007199251988522), (True, 398297087), (True, 9007165797816710), (True,
      4405886660209582), (True, 3301605808162177), (False, 2875407672869358), (True, 3159342187101376),
      (True, 4109802991910782), (True, 8912705710870160), (True, 580054316434020), (True,
      3065471963774869), (False, 410547239238542), (True, 3125765569015389), (False, 72256346476267),
      (False, 2054251803447), (False, 22704485681111), (True, 1312888701982573), (True,
      785313105643090), (True, 6220135502790993), (False, 2570106048271007), (False, 1461054543190545),
      (False, 908743008853583), (True, 2210568867986258), (True, 2604942983298839), (False,
      950599905124242), (False, 2291314385862889)])]"])
    (simp_all add: chain_ok_def small_primes prime_612229 prime_987127 cong: power_chain_cong chain_ok_cong)

end
