(* ===== verification/Aesrand.thy ===== *)
theory Aesrand
  imports Gmp_Ext Rijndael
begin

text \<open>
  The random numbers of the scan (\<open>src/aesrand.c\<close>), AES-128 in output feedback mode, and the
  validation bytes of a probe (\<open>src/validate.c\<close>), one AES block over the addresses and the port.
  What \<open>random_bytes\<close> reads from \<open>/dev/urandom\<close> is a parameter, \<open>None\<close> when it cannot be read.
\<close>

section \<open>Random numbers\<close>

definition AES_ROUNDS :: nat where "AES_ROUNDS = 10"
definition AES_KEY_BYTES :: nat where "AES_KEY_BYTES = 16"
definition OUTPUT_BYTES :: nat where "OUTPUT_BYTES = 16"

record aesrand =
  aes_input :: "u8 list"
  aes_sched :: "u32 list"
  aes_output :: "u8 list"

definition aesrand_init' :: "u8 list \<Rightarrow> aesrand outcome" where
  "aesrand_init' key =
     bind_out (rijndaelKeySetupEnc key (AES_KEY_BYTES * 8)) (\<lambda>(nr, sched).
       if nr \<noteq> AES_ROUNDS then Inl Log_fatal
       else Inr \<lparr>aes_input = replicate 16 0, aes_sched = sched, aes_output = replicate OUTPUT_BYTES 0\<rparr>)"

text \<open>The key of a seed: its eight bytes, the least significant one first, and eight zeros.\<close>

definition seed_key :: "u64 \<Rightarrow> u8 list" where
  "seed_key seed = map (\<lambda>i. ucast (drop_bit (8 * i) seed AND 0xFF)) [0 ..< 8] @ replicate 8 0"

definition aesrand_init_from_seed :: "u64 \<Rightarrow> aesrand outcome" where
  "aesrand_init_from_seed seed = aesrand_init' (seed_key seed)"

definition aesrand_init_from_random :: "u8 list option \<Rightarrow> aesrand outcome" where
  "aesrand_init_from_random bytes =
     (case bytes of None \<Rightarrow> Inl Log_fatal | Some key \<Rightarrow> aesrand_init' key)"

text \<open>Both generators encrypt the last output block.\<close>

definition aesrand_next :: "aesrand \<Rightarrow> aesrand outcome" where
  "aesrand_next aes =
     bind_out (rijndaelEncrypt (aes_sched aes) AES_ROUNDS (aes_output aes)) (\<lambda>ct.
       Inr (aes\<lparr>aes_input := aes_output aes, aes_output := ct\<rparr>))"

text \<open>The first eight output bytes as a little-endian number.\<close>

definition aesrand_getword :: "aesrand \<Rightarrow> (u64 \<times> aesrand) outcome" where
  "aesrand_getword aes =
     bind_out (aesrand_next aes) (\<lambda>aes'.
       Inr (word_of_int (int (be_value (rev (take 8 (aes_output aes'))))), aes'))"

definition aesrand_get128bits :: "aesrand \<Rightarrow> (mpz \<times> aesrand) outcome" where
  "aesrand_get128bits aes =
     bind_out (aesrand_next aes) (\<lambda>aes'. Inr (mpz_import (take OUTPUT_BYTES (aes_output aes')), aes'))"

text \<open>The state that an initialisation leaves and every call keeps.\<close>

definition aes_ok :: "aesrand \<Rightarrow> bool" where
  "aes_ok aes \<longleftrightarrow> length (aes_sched aes) = 44 \<and> length (aes_output aes) = 16"

lemma length_setup128: "length (setup128 n w) = length w + 4 * n"
  by (induction n w rule: setup128.induct) (simp_all add: Let_def)

lemma length_key_words [simp]: "length (key_words k n) = n"
  by (simp add: key_words_def)

lemma aesrand_init_ok: "length key = 16 \<Longrightarrow> \<exists>aes. aesrand_init' key = Inr aes \<and> aes_ok aes"
  by (simp add: aesrand_init'_def rijndaelKeySetupEnc_def AES_KEY_BYTES_def AES_ROUNDS_def
      OUTPUT_BYTES_def aes_ok_def length_setup128)

lemma length_put_block: "length (put_block s) = 16"
  by (cases s) (simp add: put_block_def PUTU32_def)

lemma round_loop_total: "0 < r \<Longrightarrow> \<exists>t. round_loop rnd r k s = Some (t, k + 8 * r)"
proof (induction r arbitrary: k s)
  case (Suc r)
  show ?case
  proof (cases "r = 0")
    case True
    then show ?thesis by (auto simp: Let_def simp del: split_paired_Ex)
  next
    case False
    have "round_loop rnd (Suc r) k s = round_loop rnd r (k + 8) (rnd (k + 8) (rnd (k + 4) s))"
      using False by (simp add: Let_def)
    moreover obtain t where "round_loop rnd r (k + 8) (rnd (k + 8) (rnd (k + 4) s)) = Some (t, k + 8 + 8 * r)"
      using Suc.IH False by blast
    moreover have "k + 8 + 8 * r = k + 8 * Suc r" by simp
    ultimately show ?thesis by metis
  qed
qed simp

lemma rijndaelEncrypt_total:
  assumes "length pt = 16" "4 * (nr + 1) \<le> length rk" "2 \<le> nr"
  shows "\<exists>ct. rijndaelEncrypt rk nr pt = Inr ct \<and> length ct = 16"
proof -
  have "0 < nr div 2" using assms(3) by simp
  then obtain t where "round_loop (enc_round rk) (nr div 2) 0 (get_block pt rk) = Some (t, 0 + 8 * (nr div 2))"
    using round_loop_total by blast
  then show ?thesis using assms by (simp add: rijndaelEncrypt_def length_put_block)
qed

lemma aesrand_next_ok: "aes_ok aes \<Longrightarrow> \<exists>aes'. aesrand_next aes = Inr aes' \<and> aes_ok aes'"
  using rijndaelEncrypt_total [of "aes_output aes" 10 "aes_sched aes"]
  by (auto simp: aes_ok_def aesrand_next_def AES_ROUNDS_def)

lemma aesrand_get128bits_ok:
  assumes "aes_ok aes"
  obtains r aes' where "aesrand_get128bits aes = Inr (r, aes')" "aes_ok aes'" "0 \<le> r"
  using aesrand_next_ok [OF assms] by (auto simp: aesrand_get128bits_def mpz_import_def)

section \<open>Probe validation\<close>

record validate =
  inited :: bool
  val_sched :: "u32 list"

definition initial_validate :: validate where
  "initial_validate = \<lparr>inited = False, val_sched = replicate 44 0\<rparr>"

definition validate_init :: "bool \<Rightarrow> u64 \<Rightarrow> u8 list option \<Rightarrow> validate outcome" where
  "validate_init seed_provided seed random_key =
     (case (if seed_provided then Some (seed_key seed) else random_key) of
        None \<Rightarrow> Inl Log_fatal
      | Some key \<Rightarrow>
          bind_out (rijndaelKeySetupEnc key (AES_KEY_BYTES * 8)) (\<lambda>(nr, sched).
            if nr \<noteq> AES_ROUNDS then Inl Log_fatal
            else Inr \<lparr>inited = True, val_sched = sched\<rparr>))"

definition validate_input :: "nat \<Rightarrow> u8 list \<Rightarrow> u8 list \<Rightarrow> u16 \<Rightarrow> u8 list" where
  "validate_input ipv46_bytes src_ip dst_ip dst_port =
     (let a = map (\<lambda>i. if i < ipv46_bytes then src_ip ! i XOR dst_ip ! i else 0) [0 ..< AES_KEY_BYTES];
          a1 = a[0 := a ! 0 XOR ucast (drop_bit 8 dst_port)]
      in a1[3 := a1 ! 3 XOR ucast (dst_port AND 0xFF)])"

definition validate_gen ::
    "validate \<Rightarrow> nat \<Rightarrow> u8 list \<Rightarrow> u8 list \<Rightarrow> u16 \<Rightarrow> u8 list outcome" where
  "validate_gen v ipv46_bytes src_ip dst_ip dst_port =
     (if \<not> inited v then Inl Assert_failed
      else if ipv46_bytes > AES_KEY_BYTES \<or> ipv46_bytes > length src_ip \<or> ipv46_bytes > length dst_ip
      then Inl Out_of_bounds
      else rijndaelEncrypt (val_sched v) AES_ROUNDS
             (validate_input ipv46_bytes src_ip dst_ip dst_port))"

end
