(* ===== verification/Cyclic.thy ===== *)
theory Cyclic
  imports Gmp_Ext C_Lib Interfaces Group_Certificates Aesrand
begin

text \<open>
  The cyclic groups of \<open>src/cyclic.c\<close>, which give the scan its order: a table of 41 primes with a known
  primitive root and the prime factors of the order, the choice of the smallest group that is large
  enough, and a random generator and offset of that group.
\<close>

section \<open>State and tables\<close>

text \<open>\<open>_cyclic_group_t\<close> holds decimal strings, \<open>cyclic_group_t\<close> the numbers.\<close>

record raw_group =
  raw_prime :: string
  raw_known_primroot :: string
  raw_prime_factors :: "string list"
  raw_num_prime_factors :: nat

record cyclic_group =
  prime :: mpz
  known_primroot :: mpz
  prime_factors :: "mpz list"
  num_prime_factors :: nat

record cycle =
  cycle_group :: cyclic_group
  generator :: mpz
  cycle_order :: mpz
  cycle_offset :: mpz

definition raw_groups_0 :: "raw_group list" where
  "raw_groups_0 = [
    \<lparr> raw_prime = ''17'', raw_known_primroot = ''3'',
       raw_prime_factors = [''2''],
       raw_num_prime_factors = 1 \<rparr>,
    \<lparr> raw_prime = ''257'', raw_known_primroot = ''3'',
       raw_prime_factors = [''2''],
       raw_num_prime_factors = 1 \<rparr>,
    \<lparr> raw_prime = ''4099'', raw_known_primroot = ''2'',
       raw_prime_factors = [''2'', ''3'', ''683''],
       raw_num_prime_factors = 3 \<rparr>,
    \<lparr> raw_prime = ''65537'', raw_known_primroot = ''3'',
       raw_prime_factors = [''2''],
       raw_num_prime_factors = 1 \<rparr>,
    \<lparr> raw_prime = ''1048583'', raw_known_primroot = ''5'',
       raw_prime_factors = [''101'', ''179'', ''2'', ''29''],
       raw_num_prime_factors = 4 \<rparr>,
    \<lparr> raw_prime = ''16777259'', raw_known_primroot = ''2'',
       raw_prime_factors = [''103'', ''2'', ''23'', ''3541''],
       raw_num_prime_factors = 4 \<rparr>,
    \<lparr> raw_prime = ''268435459'', raw_known_primroot = ''2'',
       raw_prime_factors = [''19'', ''2'', ''3'', ''87211''],
       raw_num_prime_factors = 4 \<rparr>,
    \<lparr> raw_prime = ''4294967311'', raw_known_primroot = ''3'',
       raw_prime_factors = [''131'', ''2'', ''3'', ''364289'', ''5''],
       raw_num_prime_factors = 5 \<rparr>,
    \<lparr> raw_prime = ''68719476767'', raw_known_primroot = ''5'',
       raw_prime_factors = [''163'', ''2'', ''238727'', ''883''],
       raw_num_prime_factors = 4 \<rparr>]"

definition raw_groups_1 :: "raw_group list" where
  "raw_groups_1 = [
    \<lparr> raw_prime = ''1099511627791'', raw_known_primroot = ''3'',
       raw_prime_factors = [''2'', ''3'', ''36650387593'', ''5''],
       raw_num_prime_factors = 4 \<rparr>,
    \<lparr> raw_prime = ''17592186044423'', raw_known_primroot = ''5'',
       raw_prime_factors = [''11'', ''155542661'', ''2'', ''53'', ''97''],
       raw_num_prime_factors = 5 \<rparr>,
    \<lparr> raw_prime = ''281474976710677'', raw_known_primroot = ''6'',
       raw_prime_factors = [''1361'', ''2'', ''2462081249'', ''3'', ''7''],
       raw_num_prime_factors = 5 \<rparr>,
    \<lparr> raw_prime = ''4503599627370517'', raw_known_primroot = ''2'',
       raw_prime_factors = [''2'', ''23'', ''3'', ''612229'', ''987127''],
       raw_num_prime_factors = 5 \<rparr>,
    \<lparr> raw_prime = ''72057594037928017'', raw_known_primroot = ''10'',
       raw_prime_factors = [''14557303'', ''2'', ''3'', ''34501'', ''61'', ''7''],
       raw_num_prime_factors = 6 \<rparr>,
    \<lparr> raw_prime = ''1152921504606847009'', raw_known_primroot = ''13'',
       raw_prime_factors = [''11'', ''2'', ''2971'', ''3'', ''48912491'', ''683''],
       raw_num_prime_factors = 6 \<rparr>,
    \<lparr> raw_prime = ''18446744073709551629'', raw_known_primroot = ''2'',
       raw_prime_factors = [''2'', ''658812288346769701'', ''7''],
       raw_num_prime_factors = 3 \<rparr>,
    \<lparr> raw_prime = ''295147905179352825889'', raw_known_primroot = ''29'',
       raw_prime_factors = [''19'', ''2'', ''3'', ''43'', ''5419'', ''77158673929''],
       raw_num_prime_factors = 6 \<rparr>,
    \<lparr> raw_prime = ''4722366482869645213711'', raw_known_primroot = ''6'',
       raw_prime_factors = [''2'', ''3'', ''4799'', ''5'', ''541316653'', ''60594931''],
       raw_num_prime_factors = 6 \<rparr>]"

definition raw_groups_2 :: "raw_group list" where
  "raw_groups_2 = [
    \<lparr> raw_prime = ''75557863725914323419151'', raw_known_primroot = ''3'',
       raw_prime_factors = [''2'', ''3'', ''5'', ''518763225032024191'', ''971''],
       raw_num_prime_factors = 5 \<rparr>,
    \<lparr> raw_prime = ''1208925819614629174706189'', raw_known_primroot = ''2'',
       raw_prime_factors = [''1093'', ''2'', ''31039'', ''8908647580887961''],
       raw_num_prime_factors = 4 \<rparr>,
    \<lparr> raw_prime = ''19342813113834066795298819'', raw_known_primroot = ''2'',
       raw_prime_factors = [''1163'', ''13455809771'', ''155377'', ''2'', ''2657'', ''3'', ''499''],
       raw_num_prime_factors = 7 \<rparr>,
    \<lparr> raw_prime = ''309485009821345068724781063'', raw_known_primroot = ''5'',
       raw_prime_factors = [''2'', ''228791153858291'', ''676348286641''],
       raw_num_prime_factors = 3 \<rparr>,
    \<lparr> raw_prime = ''4951760157141521099596496921'', raw_known_primroot = ''3'',
       raw_prime_factors = [''11411'', ''2'', ''296131229'', ''5'', ''5233517194231'', ''7''],
       raw_num_prime_factors = 6 \<rparr>,
    \<lparr> raw_prime = ''79228162514264337593543950397'', raw_known_primroot = ''2'',
       raw_prime_factors = [''1032208068610458304152691'', ''2'', ''31'', ''619''],
       raw_num_prime_factors = 4 \<rparr>,
    \<lparr> raw_prime = ''1267650600228229401496703205653'', raw_known_primroot = ''2'',
       raw_prime_factors = [''2'', ''52203989'', ''6070659658921032842417''],
       raw_num_prime_factors = 3 \<rparr>,
    \<lparr> raw_prime = ''20282409603651670423947251286127'', raw_known_primroot = ''3'',
       raw_prime_factors = [''2'', ''3'', ''3544157'', ''953795670058807140125153''],
       raw_num_prime_factors = 4 \<rparr>]"

definition raw_groups_3 :: "raw_group list" where
  "raw_groups_3 = [
    \<lparr> raw_prime = ''324518553658426726783156020576289'', raw_known_primroot = ''13'',
       raw_prime_factors = [''2'', ''3'', ''415141630193'', ''8142767081771726171''],
       raw_num_prime_factors = 4 \<rparr>,
    \<lparr> raw_prime = ''5192296858534827628530496329220121'', raw_known_primroot = ''3'',
       raw_prime_factors = [''1201'', ''2'', ''28976429'', ''3730024228806121761107'', ''5''],
       raw_num_prime_factors = 5 \<rparr>,
    \<lparr> raw_prime = ''83076749736557242056487941267521569'', raw_known_primroot = ''23'',
       raw_prime_factors = [''107775231312019'', ''17539'', ''1777'', ''2'', ''25781083'', ''3'', ''3331''],
       raw_num_prime_factors = 7 \<rparr>,
    \<lparr> raw_prime = ''1329227995784915872903807060280345027'', raw_known_primroot = ''2'',
       raw_prime_factors = [''1097'', ''11'', ''1361'', ''170777'', ''2'', ''233'', ''322747'', ''41'', ''76856512570457''],
       raw_num_prime_factors = 9 \<rparr>,
    \<lparr> raw_prime = ''21267647932558653966460912964485513283'', raw_known_primroot = ''2'',
       raw_prime_factors = [''1216997'', ''187385987'', ''2'', ''30265284680791'', ''37578049'', ''41''],
       raw_num_prime_factors = 6 \<rparr>,
    \<lparr> raw_prime = ''340282366920938463463374607431768211507'', raw_known_primroot = ''2'',
       raw_prime_factors = [''12275703273579557140363'', ''17'', ''2'', ''3'', ''5816689'', ''6481'', ''89''],
       raw_num_prime_factors = 7 \<rparr>,
    \<lparr> raw_prime = ''5444517870735015415413993718908291383363'', raw_known_primroot = ''2'',
       raw_prime_factors = [''1203053633927087259807466469264791'', ''2'', ''33773'', ''67''],
       raw_num_prime_factors = 4 \<rparr>,
    \<lparr> raw_prime = ''87112285931760246646623899502532662132821'', raw_known_primroot = ''2'',
       raw_prime_factors = [''17'', ''2'', ''2971'', ''5'', ''909288538628219561960108944043'', ''94841''],
       raw_num_prime_factors = 6 \<rparr>]"

definition raw_groups_4 :: "raw_group list" where
  "raw_groups_4 = [
    \<lparr> raw_prime = ''1393796574908163946345982392040522594123813'', raw_known_primroot = ''2'',
       raw_prime_factors = [''2'', ''577'', ''603897996060729612801552162929169234889''],
       raw_num_prime_factors = 3 \<rparr>,
    \<lparr> raw_prime = ''22300745198530623141535718272648361505980591'', raw_known_primroot = ''11'',
       raw_prime_factors = [''2'', ''318582074264723187736224546752119450085437'', ''5'', ''7''],
       raw_num_prime_factors = 4 \<rparr>,
    \<lparr> raw_prime = ''356811923176489970264571492362373784095686747'', raw_known_primroot = ''2'',
       raw_prime_factors = [''2'', ''2101356628765871089073845955673091001'', ''84900373''],
       raw_num_prime_factors = 3 \<rparr>,
    \<lparr> raw_prime = ''5708990770823839524233143877797980545530986749'', raw_known_primroot = ''2'',
       raw_prime_factors = [''2'', ''4078967803638757'', ''5869896824746875009979'', ''59609929''],
       raw_num_prime_factors = 4 \<rparr>,
    \<lparr> raw_prime = ''91343852333181432387730302044767688728495783981'', raw_known_primroot = ''2'',
       raw_prime_factors = [''192877'', ''2'', ''254572484479'', ''279758154954693590105219'', ''3'', ''36943'', ''5''],
       raw_num_prime_factors = 7 \<rparr>,
    \<lparr> raw_prime = ''1461501637330902918203684832716283019655932542983'', raw_known_primroot = ''7'',
       raw_prime_factors = [''173848897619'', ''2'', ''227'', ''23597270538777567674355013037'', ''27059'', ''29''],
       raw_num_prime_factors = 6 \<rparr>,
    \<lparr> raw_prime = ''23384026197294446691258957323460528314494920687733'', raw_known_primroot = ''2'',
       raw_prime_factors = [''11'', ''14895633521'', ''2'', ''3'', ''371631372010427'', ''5536990114014791'', ''5779633''],
       raw_num_prime_factors = 7 \<rparr>]"

definition raw_groups :: "raw_group list" where
  "raw_groups = raw_groups_0 @ raw_groups_1 @ raw_groups_2 @ raw_groups_3 @ raw_groups_4"

definition GROUPS_SIZE :: nat where "GROUPS_SIZE = 41"

section \<open>Operations\<close>

text \<open>
  The record as it is in memory: arrays of 50 characters that follow each other, each the characters of
  its literal and then zeros. A literal of 50 characters leaves no room for the zero that ends it, and
  a string that is read from its array goes on in the next one.
\<close>

definition MAX_MPZ_STR_LEN :: nat where "MAX_MPZ_STR_LEN = 50"
definition MAX_PRIM_FACTOR_SIZE :: nat where "MAX_PRIM_FACTOR_SIZE = 10"

definition char_array :: "string \<Rightarrow> string" where
  "char_array s = take MAX_MPZ_STR_LEN (s @ replicate MAX_MPZ_STR_LEN nul)"

definition raw_memory :: "raw_group \<Rightarrow> string" where
  "raw_memory r = char_array (raw_prime r) @ char_array (raw_known_primroot r)
     @ concat (map char_array (take MAX_PRIM_FACTOR_SIZE (raw_prime_factors r @ replicate MAX_PRIM_FACTOR_SIZE [])))"

definition string_at :: "string \<Rightarrow> nat \<Rightarrow> string" where
  "string_at mem p = takeWhile (\<lambda>c. c \<noteq> nul) (drop p mem)"

text \<open>\<open>mpz_init_set_str\<close> in base 10 of a string of digits.\<close>

definition mpz_set_str10 :: "string \<Rightarrow> mpz" where
  "mpz_set_str10 s = digits_value 0 s"

definition make_group :: "raw_group \<Rightarrow> cyclic_group" where
  "make_group r = (let mem = raw_memory r in \<lparr>prime = mpz_set_str10 (string_at mem 0),
     known_primroot = mpz_set_str10 (string_at mem MAX_MPZ_STR_LEN),
     prime_factors = map (\<lambda>j. mpz_set_str10 (string_at mem ((2 + j) * MAX_MPZ_STR_LEN))) [0 ..< raw_num_prime_factors r],
     num_prime_factors = raw_num_prime_factors r\<rparr>)"

definition make_groups :: "cyclic_group list" where
  "make_groups = map make_group (take GROUPS_SIZE raw_groups)"

text \<open>The loop of \<open>is_coprime\<close> over the prime factors.\<close>

fun coprime_loop :: "mpz \<Rightarrow> mpz list \<Rightarrow> bool" where
  "coprime_loop check [] = True"
| "coprime_loop check (q # qs) =
     (if mpz_gt q check then (if mpz_eq_ui (q mod check) 0 then False else coprime_loop check qs)
      else if mpz_lt q check then (if mpz_eq_ui (check mod q) 0 then False else coprime_loop check qs)
      else False)"

definition is_coprime :: "mpz \<Rightarrow> cyclic_group \<Rightarrow> bool" where
  "is_coprime check grp =
     (if mpz_eq_ui check 0 \<or> mpz_eq_ui check 1 then False
      else coprime_loop check (take (num_prime_factors grp) (prime_factors grp)))"

text \<open>\<open>mpz_powm\<close> for a non-negative exponent and a positive modulus.\<close>

definition mpz_powm :: "mpz \<Rightarrow> mpz \<Rightarrow> mpz \<Rightarrow> mpz" where
  "mpz_powm b e m = b ^ nat e mod m"

definition isomorphism :: "mpz \<Rightarrow> cyclic_group \<Rightarrow> mpz outcome" where
  "isomorphism additive_elt mult_group =
     (if \<not> mpz_lt additive_elt (prime mult_group) then Inl Assert_failed
      else Inr (mpz_powm (known_primroot mult_group) additive_elt (prime mult_group)))"

text \<open>The loop of \<open>find_primroot\<close> over the candidates.\<close>

partial_function (option) find_candidate :: "cyclic_group \<Rightarrow> mpz \<Rightarrow> mpz option" where
  "find_candidate grp candidate =
     (if is_coprime candidate grp then Some candidate
      else find_candidate grp ((candidate + 1) mod prime grp))"

definition find_primroot :: "cyclic_group \<Rightarrow> aesrand \<Rightarrow> (mpz \<times> aesrand) run" where
  "find_primroot grp aes =
     bind_run (Some (aesrand_get128bits aes)) (\<lambda>(candidate, aes').
     bind_run (map_option Inr (find_candidate grp (candidate mod prime grp))) (\<lambda>candidate'.
     bind_run (Some (isomorphism candidate' grp)) (\<lambda>primroot.
       Some (Inr (primroot, aes')))))"

definition get_group :: "mpz \<Rightarrow> cyclic_group outcome" where
  "get_group min_size =
     (case List.find (\<lambda>grp. mpz_gt (prime grp) min_size) make_groups of
        Some grp \<Rightarrow> Inr grp
      | None \<Rightarrow> Inl Assert_failed)"

definition make_cycle :: "cyclic_group \<Rightarrow> aesrand \<Rightarrow> (cycle \<times> aesrand) run" where
  "make_cycle grp aes =
     bind_run (find_primroot grp aes) (\<lambda>(g, aes').
     bind_run (Some (aesrand_get128bits aes')) (\<lambda>(t, aes'').
       Some (Inr (\<lparr>cycle_group = grp, generator = g, cycle_order = prime grp - 1,
                   cycle_offset = t mod prime grp\<rparr>, aes''))))"

section \<open>Specification\<close>

text \<open>
  A group is what its table entry claims: the root is a primitive root of the prime, and the listed
  factors are exactly the primes that divide the order. The smallest group has order 4 or more.
\<close>

definition group_ok :: "cyclic_group \<Rightarrow> bool" where
  "group_ok grp \<longleftrightarrow> 5 \<le> prime grp \<and> prim_root (prime grp) (known_primroot grp)
     \<and> (\<forall>q. q \<in> set (take (num_prime_factors grp) (prime_factors grp))
          \<longleftrightarrow> is_prime q \<and> q dvd prime grp - 1)"

lemma group_okD:
  assumes "group_ok grp"
  shows "5 \<le> prime grp" "prim_root (prime grp) (known_primroot grp)"
    "\<And>q. q \<in> set (take (num_prime_factors grp) (prime_factors grp))
        \<longleftrightarrow> is_prime q \<and> q dvd prime grp - 1"
  using assms by (simp_all add: group_ok_def)

lemma coprime_loop_iff:
  "2 \<le> c \<Longrightarrow> \<forall>q \<in> set qs. is_prime q \<Longrightarrow> coprime_loop c qs \<longleftrightarrow> (\<forall>q \<in> set qs. \<not> q dvd c)"
proof (induction qs)
  case (Cons q qs)
  have q: "is_prime q" "1 < q" using Cons.prems is_prime_gt_1 by auto
  have "q mod c \<noteq> 0" if "c < q"
  proof
    assume "q mod c = 0"
    then have "c dvd q" by (simp add: dvd_eq_mod_eq_0)
    then have "c = 1 \<or> c = q" using q(1) Cons.prems(1) unfolding is_prime_def by (meson less_le_trans zero_less_numeral)
    then show False using that Cons.prems(1) by simp
  qed
  moreover have "\<not> q dvd c" if "c < q" using that Cons.prems(1) by (auto dest: zdvd_imp_le)
  ultimately show ?case using Cons by (auto simp: dvd_eq_mod_eq_0)
qed simp

lemma coprime_no_prime:
  fixes c n :: int
  assumes "0 < n"
  shows "coprime c n \<longleftrightarrow> (\<forall>q. is_prime q \<longrightarrow> q dvd n \<longrightarrow> \<not> q dvd c)"
proof
  assume "coprime c n"
  then show "\<forall>q. is_prime q \<longrightarrow> q dvd n \<longrightarrow> \<not> q dvd c"
    using coprime_common_divisor is_prime_gt_1 by (metis abs_of_pos less_trans zdvd1_eq less_irrefl zero_less_one)
next
  assume none: "\<forall>q. is_prime q \<longrightarrow> q dvd n \<longrightarrow> \<not> q dvd c"
  have "gcd c n = 1"
  proof (rule ccontr)
    assume "gcd c n \<noteq> 1"
    moreover have "0 < gcd c n" using assms by (simp add: gcd_pos_int)
    ultimately have "1 < gcd c n" by linarith
    then obtain q where "is_prime q" "q dvd gcd c n" by (rule prime_divisor_exists)
    then show False using none by auto
  qed
  then show "coprime c n" by (simp add: coprime_iff_gcd_eq_1)
qed

lemma is_coprime_iff:
  assumes "group_ok grp" "0 \<le> c"
  shows "is_coprime c grp \<longleftrightarrow> 2 \<le> c \<and> coprime c (prime grp - 1)"
proof (cases "2 \<le> c")
  case True
  note G = group_okD [OF assms(1)]
  have "coprime_loop c (take (num_prime_factors grp) (prime_factors grp)) \<longleftrightarrow>
      (\<forall>q. is_prime q \<longrightarrow> q dvd prime grp - 1 \<longrightarrow> \<not> q dvd c)"
    using coprime_loop_iff [OF True, of "take (num_prime_factors grp) (prime_factors grp)"] G(3) by blast
  then show ?thesis using True coprime_no_prime [of "prime grp - 1" c] G(1) by (simp add: is_coprime_def)
next
  case False
  then have "c = 0 \<or> c = 1" using assms(2) by auto
  with False show ?thesis by (auto simp: is_coprime_def)
qed

text \<open>
  The search ends: counting up modulo the prime meets the prime less 2, which is coprime with the
  prime less 1.
\<close>

lemma find_candidate_total:
  assumes "group_ok grp" "0 \<le> c" "c < prime grp"
  shows "\<exists>r. find_candidate grp c = Some r \<and> 2 \<le> r \<and> r < prime grp \<and> coprime r (prime grp - 1)"
  using assms(2,3)
proof (induction "nat ((prime grp - 2 - c) mod prime grp)" arbitrary: c rule: less_induct)
  case less
  let ?p = "prime grp"
  note G = group_okD [OF assms(1)]
  show ?case
  proof (cases "is_coprime c grp")
    case True
    then show ?thesis using is_coprime_iff [OF assms(1) less.prems(1)] less.prems
      by (subst find_candidate.simps) simp
  next
    case False
    have "coprime (?p - 2) (?p - 1)"
    proof (rule coprimeI)
      fix d assume "d dvd ?p - 2" "d dvd ?p - 1"
      then have "d dvd (?p - 1) - (?p - 2)" by (rule dvd_diff [rotated])
      then show "is_unit d" by simp
    qed
    then have "c \<noteq> ?p - 2" using False is_coprime_iff [OF assms(1), of "?p - 2"] G(1) by auto
    moreover have d: "(?p - 2 - c) mod ?p = (if c \<le> ?p - 2 then ?p - 2 - c else ?p - 1)"
    proof (cases "c \<le> ?p - 2")
      case le: True
      then show ?thesis using less.prems by (simp add: mod_pos_pos_trivial)
    next
      case False
      then have "c = ?p - 1" using less.prems by simp
      then have "(?p - 2 - c) mod ?p = (- 1) mod ?p" by simp
      also have "\<dots> = ?p - 1" using G(1) by (simp add: zmod_minus1)
      finally show ?thesis using False by simp
    qed
    moreover have n: "(c + 1) mod ?p = (if c = ?p - 1 then 0 else c + 1)"
      using less.prems by (auto simp: mod_pos_pos_trivial)
    moreover have "(?p - 2 - (c + 1) mod ?p) mod ?p = ?p - 2 - (c + 1) mod ?p"
      using less.prems \<open>c \<noteq> ?p - 2\<close> G(1) n by (auto simp: mod_pos_pos_trivial)
    ultimately have "nat ((?p - 2 - (c + 1) mod ?p) mod ?p) < nat ((?p - 2 - c) mod ?p)"
      using less.prems G(1) by auto
    from less.hyps [OF this] have "\<exists>r. find_candidate grp ((c + 1) mod ?p) = Some r \<and> 2 \<le> r \<and> r < ?p
        \<and> coprime r (?p - 1)" using G(1) by simp
    then show ?thesis using False by (subst find_candidate.simps) simp
  qed
qed

text \<open>A cycle over a grp: its generator is a primitive root of the prime.\<close>

definition cycle_ok :: "cycle \<Rightarrow> bool" where
  "cycle_ok c \<longleftrightarrow> prim_root (prime (cycle_group c)) (generator c)
     \<and> cycle_order c = prime (cycle_group c) - 1 \<and> 0 \<le> cycle_offset c"

text \<open>The powers of the generator walk around the group.\<close>

definition cycle_elem :: "cycle \<Rightarrow> nat \<Rightarrow> mpz" where
  "cycle_elem c i = mpz_powm (generator c) (int i) (prime (cycle_group c))"

lemma cycle_elem_pm: "cycle_elem c = pm (prime (cycle_group c)) (generator c)"
  by (simp add: fun_eq_iff cycle_elem_def mpz_powm_def pm_def)

interpretation walk: cyclic_walk cycle_ok "\<lambda>c. nat (cycle_order c)" cycle_elem
  "\<lambda>c. {1 ..< prime (cycle_group c)}"
proof (unfold_locales, goal_cases)
  case (1 c)
  then show ?case using prim_rootD by (auto simp: cycle_ok_def)
next
  case (2 c i)
  then show ?case using prim_root_period by (simp add: cycle_ok_def cycle_elem_pm)
next
  case (3 c)
  then show ?case using prim_root_bij by (simp add: cycle_ok_def cycle_elem_pm)
qed

lemma find_primroot_ok:
  assumes "group_ok grp" "aes_ok aes"
  shows "\<exists>g aes'. find_primroot grp aes = Some (Inr (g, aes')) \<and> aes_ok aes'
    \<and> prim_root (prime grp) g"
proof -
  note G = group_okD [OF assms(1)]
  obtain r aes' where a: "aesrand_get128bits aes = Inr (r, aes')" "aes_ok aes'"
    by (rule aesrand_get128bits_ok [OF assms(2)]) (rule that)
  have "0 \<le> r mod prime grp" "r mod prime grp < prime grp" using G(1) by simp_all
  then obtain c where c: "find_candidate grp (r mod prime grp) = Some c" "2 \<le> c" "c < prime grp"
    "coprime c (prime grp - 1)" using find_candidate_total [OF assms(1)] by blast
  have "prime grp - 1 = int (nat (prime grp - 1))" "c = int (nat c)" using G(1) c(2) by simp_all
  then have "coprime (nat c) (nat (prime grp - 1))" using c(4) by (metis coprime_int_iff)
  then have "prim_root (prime grp) (pm (prime grp) (known_primroot grp) (nat c))"
    by (rule prim_root_power [OF G(2)])
  moreover have "find_primroot grp aes
      = Some (Inr (pm (prime grp) (known_primroot grp) (nat c), aes'))"
    using a(1) c(1,3) by (simp add: find_primroot_def isomorphism_def mpz_powm_def pm_def)
  ultimately show ?thesis using a(2) by blast
qed

lemma make_cycle_ok:
  assumes "group_ok grp" "aes_ok aes"
  shows "\<exists>c aes'. make_cycle grp aes = Some (Inr (c, aes')) \<and> aes_ok aes'
    \<and> cycle_ok c \<and> cycle_group c = grp"
proof -
  obtain g aes1 where g: "find_primroot grp aes = Some (Inr (g, aes1))" "aes_ok aes1"
    "prim_root (prime grp) g" using find_primroot_ok [OF assms] by blast
  obtain r aes2 where a: "aesrand_get128bits aes1 = Inr (r, aes2)" "aes_ok aes2"
    by (rule aesrand_get128bits_ok [OF g(2)]) (rule that)
  have "0 \<le> r mod prime grp" using group_okD(1) [OF assms(1)] by simp
  then show ?thesis using g a by (simp add: make_cycle_def cycle_ok_def)
qed

section \<open>The table\<close>

lemma group_okI:
  assumes "5 \<le> prime grp" "prim_root (prime grp) (known_primroot grp)"
    "prod_powers fs = prime grp - 1" "list_all (\<lambda>(q, k). is_prime q \<and> 0 < k) fs"
    "set (take (num_prime_factors grp) (prime_factors grp)) = fst ` set fs"
  shows "group_ok grp"
  unfolding group_ok_def
proof (intro conjI allI assms(1,2))
  fix q :: int
  have "k \<noteq> 0 \<Longrightarrow> q dvd q ^ k" for k :: nat by (cases k) simp_all
  then have "(q, k) \<in> set fs \<Longrightarrow> 0 < k \<Longrightarrow> q dvd prod_powers fs" for k
    by (induction fs rule: prod_powers.induct) (auto intro: dvd_mult dvd_mult2)
  then have "q \<in> fst ` set fs \<Longrightarrow> is_prime q \<and> q dvd prime grp - 1"
    using assms(3,4) by (force simp: list_all_iff)
  moreover have "is_prime q \<Longrightarrow> q dvd prime grp - 1 \<Longrightarrow> q \<in> fst ` set fs"
    using prime_dvd_prod_powers [of q fs] assms(3,4) by (force simp: list_all_iff)
  ultimately show "q \<in> set (take (num_prime_factors grp) (prime_factors grp))
      \<longleftrightarrow> is_prime q \<and> q dvd prime grp - 1" using assms(5) by blast
qed

text \<open>
  A literal that ends in its array is read back as it is; the only one that does not is the last prime.
\<close>

definition literal_ok :: "string \<Rightarrow> bool" where
  "literal_ok s \<longleftrightarrow> length s < MAX_MPZ_STR_LEN \<and> nul \<notin> set s"

definition raw_ok :: "raw_group \<Rightarrow> bool" where
  "raw_ok r \<longleftrightarrow> literal_ok (raw_prime r) \<and> literal_ok (raw_known_primroot r) \<and> list_all literal_ok (raw_prime_factors r)
     \<and> raw_num_prime_factors r = length (raw_prime_factors r) \<and> length (raw_prime_factors r) \<le> MAX_PRIM_FACTOR_SIZE"

lemma length_char_array [simp]: "length (char_array s) = MAX_MPZ_STR_LEN"
  by (simp add: char_array_def)

lemma string_at_array:
  assumes "literal_ok s"
  shows "string_at (char_array s @ mem) 0 = s"
proof -
  obtain k where k: "char_array s = s @ replicate (Suc k) nul"
  proof -
    have "0 < MAX_MPZ_STR_LEN - length s" using assms by (simp add: literal_ok_def)
    then obtain k where "MAX_MPZ_STR_LEN - length s = Suc k" using gr0_implies_Suc by blast
    moreover have "char_array s = s @ replicate (MAX_MPZ_STR_LEN - length s) nul"
      using assms by (simp add: char_array_def literal_ok_def)
    ultimately show thesis using that by simp
  qed
  have "\<forall>c \<in> set s. c \<noteq> nul" using assms by (auto simp: literal_ok_def)
  then show ?thesis by (simp add: string_at_def k)
qed

lemma string_at_skip: "string_at (char_array s @ mem) (MAX_MPZ_STR_LEN + p) = string_at mem p"
  by (simp add: string_at_def)

lemma string_at_arrays:
  "\<lbrakk>j < length l; literal_ok (l ! j)\<rbrakk> \<Longrightarrow> string_at (concat (map char_array l)) (j * MAX_MPZ_STR_LEN) = l ! j"
proof (induction l arbitrary: j)
  case (Cons s l)
  then show ?case by (cases j) (simp_all add: string_at_array string_at_skip)
qed simp

lemma make_group_literals:
  assumes "raw_ok r"
  shows "make_group r = \<lparr>prime = mpz_set_str10 (raw_prime r), known_primroot = mpz_set_str10 (raw_known_primroot r),
    prime_factors = map mpz_set_str10 (raw_prime_factors r), num_prime_factors = length (raw_prime_factors r)\<rparr>"
proof -
  note R = assms [unfolded raw_ok_def]
  have f: "string_at (raw_memory r) ((2 + j) * MAX_MPZ_STR_LEN) = raw_prime_factors r ! j"
    if "j < length (raw_prime_factors r)" for j
  proof -
    let ?l = "take MAX_PRIM_FACTOR_SIZE (raw_prime_factors r @ replicate MAX_PRIM_FACTOR_SIZE [])"
    have l: "j < length ?l" "?l ! j = raw_prime_factors r ! j" using that R by (auto simp: nth_append)
    have "literal_ok (raw_prime_factors r ! j)" using that R by (simp add: list_all_length)
    then have "string_at (concat (map char_array ?l)) (j * MAX_MPZ_STR_LEN) = raw_prime_factors r ! j"
      using string_at_arrays [OF l(1)] l(2) by simp
    moreover have "(2 + j) * MAX_MPZ_STR_LEN = MAX_MPZ_STR_LEN + (MAX_MPZ_STR_LEN + j * MAX_MPZ_STR_LEN)" by simp
    ultimately show ?thesis unfolding raw_memory_def by (simp only: string_at_skip)
  qed
  have "string_at (raw_memory r) (MAX_MPZ_STR_LEN + 0) = raw_known_primroot r"
    unfolding raw_memory_def using R by (simp only: string_at_skip string_at_array)
  moreover have "string_at (raw_memory r) 0 = raw_prime r"
    unfolding raw_memory_def using R by (simp only: string_at_array)
  moreover have "map (\<lambda>j. mpz_set_str10 (string_at (raw_memory r) ((2 + j) * MAX_MPZ_STR_LEN))) [0 ..< length (raw_prime_factors r)]
      = map mpz_set_str10 (raw_prime_factors r)"
    using f by (intro nth_equalityI) simp_all
  ultimately show ?thesis using R by (simp add: make_group_def Let_def)
qed

lemma raw_groups_ok: "list_all raw_ok (butlast raw_groups)"
  by code_simp

lemma length_raw_groups: "length raw_groups = 41"
  by code_simp

lemma last_group:
  "make_group (last raw_groups) = \<lparr>prime = 233840261972944466912589573234605283144949206877332, known_primroot = 2,
     prime_factors = [11, 14895633521, 2, 3, 371631372010427, 5536990114014791, 5779633], num_prime_factors = 7\<rparr>"
  by code_simp

lemma make_groups_literals:
  "make_groups = map (\<lambda>r. \<lparr>prime = mpz_set_str10 (raw_prime r), known_primroot = mpz_set_str10 (raw_known_primroot r),
       prime_factors = map mpz_set_str10 (raw_prime_factors r), num_prime_factors = length (raw_prime_factors r)\<rparr>)
     (butlast raw_groups) @ [\<lparr>prime = 233840261972944466912589573234605283144949206877332, known_primroot = 2,
     prime_factors = [11, 14895633521, 2, 3, 371631372010427, 5536990114014791, 5779633], num_prime_factors = 7\<rparr>]"
proof -
  have "raw_groups = butlast raw_groups @ [last raw_groups]"
    using length_raw_groups by (intro append_butlast_last_id [symmetric]) auto
  then have "make_groups = map make_group (butlast raw_groups) @ [make_group (last raw_groups)]"
    using length_raw_groups unfolding make_groups_def GROUPS_SIZE_def by (metis list.simps(8,9) map_append order_refl take_all)
  moreover have "map make_group (butlast raw_groups) = map (\<lambda>r. \<lparr>prime = mpz_set_str10 (raw_prime r),
       known_primroot = mpz_set_str10 (raw_known_primroot r), prime_factors = map mpz_set_str10 (raw_prime_factors r),
       num_prime_factors = length (raw_prime_factors r)\<rparr>) (butlast raw_groups)"
    using raw_groups_ok by (intro map_cong) (auto simp: list_all_iff make_group_literals)
  ultimately show ?thesis by (simp only: last_group)
qed

text \<open>The first groups, parsed, and what their certificates show.\<close>

lemma group_ok_0:
  "group_ok \<lparr>prime = 17, known_primroot = 3, prime_factors = [2], num_prime_factors = 1\<rparr>"
  by (rule group_okI [where fs = "[(2, 4)]"])
    (simp_all add: small_primes group_root_0 insert_commute)

lemma group_ok_1:
  "group_ok \<lparr>prime = 257, known_primroot = 3, prime_factors = [2], num_prime_factors = 1\<rparr>"
  by (rule group_okI [where fs = "[(2, 8)]"])
    (simp_all add: small_primes group_root_1 insert_commute)

lemma group_ok_2:
  "group_ok \<lparr>prime = 4099, known_primroot = 2, prime_factors = [2, 3, 683], num_prime_factors = 3\<rparr>"
  by (rule group_okI [where fs = "[(2, 1), (3, 1), (683, 1)]"])
    (simp_all add: small_primes group_root_2 insert_commute)

lemma group_ok_3:
  "group_ok \<lparr>prime = 65537, known_primroot = 3, prime_factors = [2], num_prime_factors = 1\<rparr>"
  by (rule group_okI [where fs = "[(2, 16)]"])
    (simp_all add: small_primes group_root_3 insert_commute)

lemma group_ok_4:
  "group_ok \<lparr>prime = 1048583, known_primroot = 5, prime_factors = [101, 179, 2, 29], num_prime_factors = 4\<rparr>"
  by (rule group_okI [where fs = "[(101, 1), (179, 1), (2, 1), (29, 1)]"])
    (simp_all add: small_primes group_root_4 insert_commute)

lemma group_ok_5:
  "group_ok \<lparr>prime = 16777259, known_primroot = 2, prime_factors = [103, 2, 23, 3541], num_prime_factors = 4\<rparr>"
  by (rule group_okI [where fs = "[(103, 1), (2, 1), (23, 1), (3541, 1)]"])
    (simp_all add: small_primes group_root_5 prime_3541 insert_commute)

lemma group_ok_6:
  "group_ok \<lparr>prime = 268435459, known_primroot = 2, prime_factors = [19, 2, 3, 87211], num_prime_factors = 4\<rparr>"
  by (rule group_okI [where fs = "[(19, 1), (2, 1), (3, 4), (87211, 1)]"])
    (simp_all add: small_primes group_root_6 prime_87211 insert_commute)

lemma group_ok_7:
  "group_ok \<lparr>prime = 4294967311, known_primroot = 3, prime_factors = [131, 2, 3, 364289, 5], num_prime_factors = 5\<rparr>"
  by (rule group_okI [where fs = "[(131, 1), (2, 1), (3, 2), (364289, 1), (5, 1)]"])
    (simp_all add: small_primes group_root_7 prime_364289 insert_commute)

lemma group_ok_8:
  "group_ok \<lparr>prime = 68719476767, known_primroot = 5, prime_factors = [163, 2, 238727, 883], num_prime_factors = 4\<rparr>"
  by (rule group_okI [where fs = "[(163, 1), (2, 1), (238727, 1), (883, 1)]"])
    (simp_all add: small_primes group_root_8 prime_238727 insert_commute)

lemma group_ok_9:
  "group_ok \<lparr>prime = 1099511627791, known_primroot = 3, prime_factors = [2, 3, 36650387593, 5], num_prime_factors = 4\<rparr>"
  by (rule group_okI [where fs = "[(2, 1), (3, 1), (36650387593, 1), (5, 1)]"])
    (simp_all add: small_primes group_root_9 prime_36650387593 insert_commute)

lemma group_ok_10:
  "group_ok \<lparr>prime = 17592186044423, known_primroot = 5, prime_factors = [11, 155542661, 2, 53, 97], num_prime_factors = 5\<rparr>"
  by (rule group_okI [where fs = "[(11, 1), (155542661, 1), (2, 1), (53, 1), (97, 1)]"])
    (simp_all add: small_primes group_root_10 prime_155542661 insert_commute)

lemma group_ok_11:
  "group_ok \<lparr>prime = 281474976710677, known_primroot = 6, prime_factors = [1361, 2, 2462081249, 3, 7], num_prime_factors = 5\<rparr>"
  by (rule group_okI [where fs = "[(1361, 1), (2, 2), (2462081249, 1), (3, 1), (7, 1)]"])
    (simp_all add: small_primes group_root_11 prime_2462081249 insert_commute)

lemma group_ok_12:
  "group_ok \<lparr>prime = 4503599627370517, known_primroot = 2, prime_factors = [2, 23, 3, 612229, 987127], num_prime_factors = 5\<rparr>"
  by (rule group_okI [where fs = "[(2, 2), (23, 1), (3, 4), (612229, 1), (987127, 1)]"])
    (simp_all add: small_primes group_root_12 prime_612229 prime_987127 insert_commute)

lemma first_groups:
  "take 13 make_groups = [
    \<lparr>prime = 17, known_primroot = 3, prime_factors = [2], num_prime_factors = 1\<rparr>,
    \<lparr>prime = 257, known_primroot = 3, prime_factors = [2], num_prime_factors = 1\<rparr>,
    \<lparr>prime = 4099, known_primroot = 2, prime_factors = [2, 3, 683], num_prime_factors = 3\<rparr>,
    \<lparr>prime = 65537, known_primroot = 3, prime_factors = [2], num_prime_factors = 1\<rparr>,
    \<lparr>prime = 1048583, known_primroot = 5, prime_factors = [101, 179, 2, 29], num_prime_factors = 4\<rparr>,
    \<lparr>prime = 16777259, known_primroot = 2, prime_factors = [103, 2, 23, 3541], num_prime_factors = 4\<rparr>,
    \<lparr>prime = 268435459, known_primroot = 2, prime_factors = [19, 2, 3, 87211], num_prime_factors = 4\<rparr>,
    \<lparr>prime = 4294967311, known_primroot = 3, prime_factors = [131, 2, 3, 364289, 5], num_prime_factors = 5\<rparr>,
    \<lparr>prime = 68719476767, known_primroot = 5, prime_factors = [163, 2, 238727, 883], num_prime_factors = 4\<rparr>,
    \<lparr>prime = 1099511627791, known_primroot = 3, prime_factors = [2, 3, 36650387593, 5], num_prime_factors = 4\<rparr>,
    \<lparr>prime = 17592186044423, known_primroot = 5, prime_factors = [11, 155542661, 2, 53, 97], num_prime_factors = 5\<rparr>,
    \<lparr>prime = 281474976710677, known_primroot = 6, prime_factors = [1361, 2, 2462081249, 3, 7], num_prime_factors = 5\<rparr>,
    \<lparr>prime = 4503599627370517, known_primroot = 2, prime_factors = [2, 23, 3, 612229, 987127], num_prime_factors = 5\<rparr>]"
  unfolding make_groups_literals
  by (simp add: raw_groups_def raw_groups_0_def raw_groups_1_def raw_groups_4_def butlast_append mpz_set_str10_def)

text \<open>All the numbers of the table; the last one is not the \<open>2 ^ 164 + 117\<close> that was meant.\<close>

lemma group_primes:
  "map prime make_groups = [
    17,
    257,
    4099,
    65537,
    1048583,
    16777259,
    268435459,
    4294967311,
    68719476767,
    1099511627791,
    17592186044423,
    281474976710677,
    4503599627370517,
    72057594037928017,
    1152921504606847009,
    18446744073709551629,
    295147905179352825889,
    4722366482869645213711,
    75557863725914323419151,
    1208925819614629174706189,
    19342813113834066795298819,
    309485009821345068724781063,
    4951760157141521099596496921,
    79228162514264337593543950397,
    1267650600228229401496703205653,
    20282409603651670423947251286127,
    324518553658426726783156020576289,
    5192296858534827628530496329220121,
    83076749736557242056487941267521569,
    1329227995784915872903807060280345027,
    21267647932558653966460912964485513283,
    340282366920938463463374607431768211507,
    5444517870735015415413993718908291383363,
    87112285931760246646623899502532662132821,
    1393796574908163946345982392040522594123813,
    22300745198530623141535718272648361505980591,
    356811923176489970264571492362373784095686747,
    5708990770823839524233143877797980545530986749,
    91343852333181432387730302044767688728495783981,
    1461501637330902918203684832716283019655932542983,
    233840261972944466912589573234605283144949206877332]"
  unfolding make_groups_literals
  by (simp add: raw_groups_def raw_groups_0_def raw_groups_1_def
      raw_groups_2_def raw_groups_3_def raw_groups_4_def butlast_append mpz_set_str10_def)

lemma length_make_groups: "length make_groups = 41"
  using arg_cong [OF group_primes, of length] by simp

lemma first_groups_ok:
  assumes "i < 13"
  shows "group_ok (make_groups ! i)"
proof -
  have "list_all group_ok (take 13 make_groups)"
    unfolding first_groups by (simp del: One_nat_def add: group_ok_0 group_ok_1 group_ok_2 group_ok_3 group_ok_4 group_ok_5 group_ok_6 group_ok_7 group_ok_8 group_ok_9 group_ok_10 group_ok_11 group_ok_12)
  then show ?thesis using assms length_make_groups by (auto simp: list_all_length)
qed

text \<open>The search of \<open>get_group\<close> finds the first prime above the size, and the primes increase.\<close>

lemma prime_nth: "i < 41 \<Longrightarrow> prime (make_groups ! i) = map prime make_groups ! i"
  using length_make_groups by simp

lemma primes_sorted: "sorted (map prime make_groups)"
  unfolding group_primes sorted2_simps by simp

lemma last_prime: "prime (make_groups ! 40) = 10 * (2 ^ 164 + 117) + 2"
  using prime_nth [of 40] by (simp add: group_primes)

lemma get_group_index:
  assumes "n < prime (make_groups ! i)" "i < 41"
  obtains k where "k \<le> i" "get_group n = Inr (make_groups ! k)" "n < prime (make_groups ! k)"
    "\<And>j. j < k \<Longrightarrow> prime (make_groups ! j) \<le> n"
proof -
  let ?P = "\<lambda>k. n < prime (make_groups ! k)"
  define k where "k = (LEAST k. ?P k)"
  have k: "?P k" unfolding k_def by (rule LeastI) (rule assms(1))
  have le: "k \<le> i" unfolding k_def by (rule Least_le) (rule assms(1))
  have before: "\<not> ?P j" if "j < k" for j using not_less_Least [of j ?P] that by (simp add: k_def)
  have "List.find (\<lambda>grp. mpz_gt (prime grp) n) make_groups = Some (make_groups ! k)"
    using k le before assms(2) length_make_groups by (auto simp: List.find_Some_iff intro!: exI [of _ k])
  then show ?thesis using le k before by (intro that [of k]) (auto simp: get_group_def not_less)
qed

section \<open>Properties\<close>

text \<open>
  The group for a size is the first whose number is above the size, which is
  also the smallest such number. From \<open>10 (2^164 + 117) + 2\<close> on the search ends in the assertion: that is the
  number of the last group, since its literal fills its array and is read on into that of the root 2. From
  the prime before it on, the group that is found is this one, whose number is even and so no prime.
\<close>

lemma get_group_smallest:
  "if n < 10 * (2 ^ 164 + 117) + 2
   then \<exists>grp. get_group n = Inr grp \<and> grp \<in> set make_groups \<and> n < prime grp
        \<and> (\<forall>h \<in> set make_groups. n < prime h \<longrightarrow> prime grp \<le> prime h)
        \<and> (2 ^ 160 + 7 \<le> n \<longrightarrow> even (prime grp))
   else get_group n = Inl Assert_failed"
proof -
  have last: "prime (make_groups ! 40) = 10 * (2 ^ 164 + 117) + 2" by (rule last_prime)
  have sorted: "prime (make_groups ! i) \<le> prime (make_groups ! j)" if "i \<le> j" "j < 41" for i j
    using primes_sorted that length_make_groups by (auto simp: sorted_iff_nth_mono)
  show ?thesis
  proof (cases "n < 10 * (2 ^ 164 + 117) + 2")
    case True
    then obtain k where k: "k \<le> 40" "get_group n = Inr (make_groups ! k)" "n < prime (make_groups ! k)"
      "\<And>j. j < k \<Longrightarrow> prime (make_groups ! j) \<le> n"
      using get_group_index [of n 40] last by auto
    have "prime (make_groups ! k) \<le> prime h" if h: "h \<in> set make_groups" "n < prime h" for h
    proof -
      obtain j where j: "j < 41" "h = make_groups ! j" using h(1) unfolding in_set_conv_nth length_make_groups by metis
      then have "k \<le> j" using k(4) [of j] h(2) by (intro leI notI) auto
      then show ?thesis using sorted j by simp
    qed
    moreover have "even (prime (make_groups ! k))" if "2 ^ 160 + 7 \<le> n"
    proof -
      have "prime (make_groups ! 39) = 2 ^ 160 + 7" using prime_nth [of 39] by (simp add: group_primes)
      then have "\<not> k \<le> 39" using that k(3) sorted [of k 39] by auto
      then have "k = 40" using k(1) by simp
      then show ?thesis by (simp add: last)
    qed
    ultimately show ?thesis using True k length_make_groups by auto
  next
    case False
    have "\<not> n < prime h" if h: "h \<in> set make_groups" for h
    proof -
      obtain j where "j < 41" "h = make_groups ! j" using h unfolding in_set_conv_nth length_make_groups by metis
      then show ?thesis using sorted [of j 40] last False by simp
    qed
    then have "List.find (\<lambda>grp. mpz_gt (prime grp) n) make_groups = None" by (simp add: find_None_iff)
    then show ?thesis using False by (simp add: get_group_def)
  qed
qed

lemma get_group_smallest_example:
  "\<exists>grp. get_group (2 ^ 164 + 116) = Inr grp \<and> 2 ^ 164 + 116 < prime grp \<and> even (prime grp)"
  using get_group_smallest [of "2 ^ 164 + 116"] by auto

lemma group_below_52:
  assumes "n < 2 ^ 52"
  shows "\<exists>grp. get_group n = Inr grp \<and> group_ok grp \<and> n < prime grp"
proof -
  have "prime (make_groups ! 12) = 4503599627370517" using prime_nth [of 12] by (simp add: group_primes)
  then have "n < prime (make_groups ! 12)" using assms by simp
  then obtain k where k: "k \<le> 12" "get_group n = Inr (make_groups ! k)" "n < prime (make_groups ! k)"
    by (rule get_group_index) (auto intro: that)
  then show ?thesis using first_groups_ok [of k] by auto
qed

text \<open>
  C14: Below 2^52 the group that is found is a group indeed: its number is prime,
  its root primitive, and its list of prime factors complete.
\<close>

theorem get_group_certified:
  assumes "n < 2 ^ 52"
  shows "\<exists>grp. get_group n = Inr grp \<and> group_ok grp \<and> n < prime grp"
  by (rule group_below_52 [OF assms])

theorem get_group_certified_witness:
  "\<exists>grp. get_group (2 ^ 48) = Inr grp \<and> group_ok grp \<and> 2 ^ 48 < prime grp"
  by (rule get_group_certified) simp

text \<open>
  In each of the first 13 groups, those up to 4503599627370517, the first prime above
  \<open>2 ^ 52\<close>, \<open>is_coprime\<close> accepts exactly the numbers above 1 that have no common divisor with the order,
  by trial division with the listed factors.
\<close>

lemma is_coprime_correct:
  assumes "i < 13" "0 \<le> c"
  shows "is_coprime c (make_groups ! i) \<longleftrightarrow> 2 \<le> c \<and> coprime c (prime (make_groups ! i) - 1)"
  using is_coprime_iff [OF first_groups_ok [OF assms(1)] assms(2)] .

lemma is_coprime_correct_example: "is_coprime 35 (make_groups ! 2)"
proof -
  have "prime (make_groups ! 2) = 4099" using prime_nth [of 2] by (simp add: group_primes)
  moreover have "coprime (35 :: int) 4098"
  proof (rule coprimeI)
    fix d :: int assume "d dvd 35" "d dvd 4098"
    then have "d dvd 12 * 4098 - 1405 * 35" by (intro dvd_diff dvd_mult)
    then show "is_unit d" by simp
  qed
  ultimately show ?thesis using is_coprime_correct [of 2 35] by simp
qed

text \<open>
  C15: Making a cycle over one of the first 13 groups, those up to
  4503599627370517, the first prime above \<open>2 ^ 52\<close>, returns, whatever the random numbers: the loop of \<open>find_primroot\<close> ends, and the generator it gives is again a primitive root of
  the prime.
\<close>

theorem make_cycle_generator:
  assumes "i < 13" "aes_ok aes"
  shows "\<exists>c aes'. make_cycle (make_groups ! i) aes = Some (Inr (c, aes'))
    \<and> prim_root (prime (make_groups ! i)) (generator c) \<and> cycle_order c = prime (make_groups ! i) - 1"
  using make_cycle_ok [OF first_groups_ok [OF assms(1)] assms(2)] by (auto simp: cycle_ok_def)

definition ex_aes :: aesrand where
  "ex_aes = \<lparr>aes_input = replicate 16 0, aes_sched = replicate 44 0, aes_output = replicate 16 0\<rparr>"

lemma ex_aes_ok: "aes_ok ex_aes"
  by (simp add: aes_ok_def ex_aes_def)

theorem make_cycle_generator_witness:
  "\<exists>c aes'. make_cycle (make_groups ! 0) ex_aes = Some (Inr (c, aes')) \<and> cycle_order c = 16"
proof -
  have "prime (make_groups ! 0) = 17" using prime_nth [of 0] by (simp add: group_primes)
  then show ?thesis using make_cycle_generator [OF _ ex_aes_ok, of 0] by auto
qed

end
