(* ===== verification/Shard.thy ===== *)
theory Shard
  imports Blocklist Cyclic
begin

text \<open>
  The shards of \<open>src/shard.c\<close>. The scan walks once around a cyclic group; the walk is cut into one
  block per sender thread of every shard, and a group element \<open>x\<close> with \<open>x - 1\<close> below the number of
  targets stands for the target of that index. The callback of a shard is in the iterator.
\<close>

section \<open>State\<close>

definition PMAP_SHARD_DONE :: mpz where "PMAP_SHARD_DONE = 0"

record shard_state =
  packets_sent :: u64
  hosts_scanned :: u64
  max_hosts :: u64
  max_packets :: u64
  hosts_blocklisted :: u64
  hosts_allowlisted :: u64
  packets_failed :: u64
  packets_tried :: u64
  first_scanned :: mpz

record shard_params =
  params_first :: mpz
  params_last :: mpz
  factor :: mpz
  modulus :: mpz

text \<open>
  The stream of a shard is \<open>NULL\<close> or stands at a byte of the target file; \<open>file_pos\<close> is the byte (or,
  for generated targets, the line) where its share begins.
\<close>

record shard_ip_target_file_params =
  file_first :: u64
  file_last :: u64
  file_current :: u64
  file_total :: u64
  file_fp :: "nat option"
  file_pos :: nat
  port_current :: u32
  port_total :: u32
  index_current :: u32
  index_total :: u32

record shard =
  sh_state :: shard_state
  sh_params :: shard_params
  ip_target_file_params :: shard_ip_target_file_params
  current :: mpz
  iterations :: u64
  thread_id :: u8

text \<open>The memory that \<open>xcalloc\<close> gives.\<close>

definition zero_shard :: shard where
  "zero_shard = \<lparr>sh_state = \<lparr>packets_sent = 0, hosts_scanned = 0, max_hosts = 0, max_packets = 0,
       hosts_blocklisted = 0, hosts_allowlisted = 0, packets_failed = 0, packets_tried = 0,
       first_scanned = 0\<rparr>,
     sh_params = \<lparr>params_first = 0, params_last = 0, factor = 0, modulus = 0\<rparr>,
     ip_target_file_params = \<lparr>file_first = 0, file_last = 0, file_current = 0, file_total = 0,
       file_fp = None, file_pos = 0, port_current = 0, port_total = 0, index_current = 0, index_total = 0\<rparr>,
     current = 0, iterations = 0, thread_id = 0\<rparr>"

text \<open>The fields of \<open>xconf\<close> and \<open>xsend\<close> that the shards read. The port array is indexed by a \<open>uint16_t\<close>.\<close>

record scan_conf =
  send_max_index :: mpz
  max_probe_len :: nat
  ipv46_bytes :: nat
  max_port_index_len :: nat
  target_index_bits :: nat
  target_port_num :: int
  target_index_num :: int
  target_port_list :: "u16 \<Rightarrow> u16"
  list_of_ips_readable :: bool

section \<open>Stepping\<close>

definition shard_get_next_elem :: "shard \<Rightarrow> shard" where
  "shard_get_next_elem sh =
     sh\<lparr>current := current sh * factor (sh_params sh) mod modulus (sh_params sh)\<rparr>"

definition shard_get_current_ipvx_port_index ::
    "blocklist \<Rightarrow> shard \<Rightarrow> (mpz \<times> blocklist) outcome" where
  "shard_get_current_ipvx_port_index bl sh =
     blocklist_lookup_index_for_ipvx_port_index bl (current sh - 1)"

text \<open>
  The loop of \<open>_shard_get_next_ipvx_port_index\<close> up to the element it stops at: \<open>None\<close> for the last
  element of the shard, or the index of a target.
\<close>

partial_function (option) next_index :: "mpz \<Rightarrow> shard \<Rightarrow> (mpz option \<times> shard) option" where
  "next_index max_idx sh =
     (let sh1 = shard_get_next_elem sh
      in if mpz_eq (current sh1) (params_last (sh_params sh1))
         then Some (None, sh1\<lparr>current := PMAP_SHARD_DONE, iterations := iterations sh1 + 1\<rparr>)
         else let index = current sh1 - 1
              in if mpz_lt index max_idx
                 then Some (Some index, sh1\<lparr>iterations := iterations sh1 + 1,
                        sh_state := (sh_state sh1)\<lparr>hosts_allowlisted :=
                          hosts_allowlisted (sh_state sh1) + 1\<rparr>\<rparr>)
                 else next_index max_idx (sh1\<lparr>sh_state := (sh_state sh1)\<lparr>hosts_blocklisted :=
                          hosts_blocklisted (sh_state sh1) + 1\<rparr>\<rparr>))"

definition shard_get_next_ipvx_port_index ::
    "scan_conf \<Rightarrow> blocklist \<Rightarrow> shard \<Rightarrow> (mpz \<times> shard \<times> blocklist) run" where
  "shard_get_next_ipvx_port_index conf bl sh =
     (if mpz_eq_ui (current sh) PMAP_SHARD_DONE then Some (Inr (PMAP_SHARD_DONE, sh, bl))
      else case next_index (send_max_index conf) sh of
             None \<Rightarrow> None
           | Some (None, sh') \<Rightarrow> Some (Inr (PMAP_SHARD_DONE, sh', bl))
           | Some (Some index, sh') \<Rightarrow>
               Some (bind_out (blocklist_lookup_index_for_ipvx_port_index bl index) (\<lambda>(ipvx, bl').
                 Inr (ipvx, sh', bl'))))"

definition shard_roll_to_valid ::
    "scan_conf \<Rightarrow> blocklist \<Rightarrow> shard \<Rightarrow> (mpz \<times> shard \<times> blocklist) run" where
  "shard_roll_to_valid conf bl sh =
     (if mpz_le (current sh) (send_max_index conf) then Some (Inr (current sh, sh, bl))
      else shard_get_next_ipvx_port_index conf bl sh)"

section \<open>Initialisation\<close>

text \<open>The share of a total that one of the subshards gets.\<close>

definition share :: "u64 \<Rightarrow> u64 \<Rightarrow> u64 \<Rightarrow> u64" where
  "share amount num_subshards sub_idx =
     amount div num_subshards + (if sub_idx < amount mod num_subshards then 1 else 0)"

definition init_file_params ::
    "scan_conf \<Rightarrow> u64 \<Rightarrow> u64 \<Rightarrow> u64 \<Rightarrow> shard_ip_target_file_params \<Rightarrow>
     shard_ip_target_file_params outcome" where
  "init_file_params conf list_of_ips_count num_subshards sub_idx f =
     (if list_of_ips_count = 0 then Inr (f\<lparr>file_fp := None\<rparr>)
      else let each = list_of_ips_count div num_subshards;
               mine = share list_of_ips_count num_subshards sub_idx;
               first = sub_idx * each + (if sub_idx < list_of_ips_count mod num_subshards
                                         then sub_idx else list_of_ips_count mod num_subshards)
           in if \<not> list_of_ips_readable conf then Inl Log_fatal
              else Inr (f\<lparr>file_first := first, file_current := first, file_total := mine,
                     file_last := first + mine, file_fp := Some 0,
                     port_current := 0, port_total := word_of_int (target_port_num conf),
                     index_current := 0, index_total := word_of_int (target_index_num conf)\<rparr>))"

text \<open>The begin and end exponents of a subshard, shifted by the offset of the cycle.\<close>

definition exponent_begin :: "cycle \<Rightarrow> mpz \<Rightarrow> mpz \<Rightarrow> mpz" where
  "exponent_begin cyc num_subshards sub_idx =
     (cycle_order cyc div num_subshards * sub_idx + cycle_offset cyc) mod cycle_order cyc"

definition exponent_end :: "cycle \<Rightarrow> mpz \<Rightarrow> mpz \<Rightarrow> mpz" where
  "exponent_end cyc num_subshards sub_idx =
     (cycle_order cyc div num_subshards * ((sub_idx + 1) mod num_subshards) + cycle_offset cyc)
       mod cycle_order cyc"

definition init_params :: "cycle \<Rightarrow> mpz \<Rightarrow> mpz \<Rightarrow> shard_params" where
  "init_params cyc num_subshards sub_idx =
     (let p = prime (cycle_group cyc)
      in \<lparr>params_first = mpz_powm (generator cyc) (exponent_begin cyc num_subshards sub_idx) p,
          params_last = mpz_powm (generator cyc) (exponent_end cyc num_subshards sub_idx) p,
          factor = generator cyc, modulus = p\<rparr>)"

definition shard_init ::
    "scan_conf \<Rightarrow> blocklist \<Rightarrow> shard \<Rightarrow> u16 \<Rightarrow> u16 \<Rightarrow> u8 \<Rightarrow> u8 \<Rightarrow> u64 \<Rightarrow> u64 \<Rightarrow> u64 \<Rightarrow> cycle \<Rightarrow>
     (shard \<times> blocklist) run" where
  "shard_init conf bl sh shard_idx num_shards thread_idx num_threads max_total_targets
       max_total_packets list_of_ips_count cyc =
     (let num_subshards = uint num_shards * uint num_threads;
          sub_idx = uint shard_idx * uint num_threads + uint thread_idx;
          subs = word_of_int num_subshards :: u64; sub = word_of_int sub_idx :: u64
      in if \<not> (num_shards > 0 \<and> num_threads > 0 \<and> shard_idx < num_shards \<and> thread_idx < num_threads
              \<and> mpz_gt_ui (cycle_order cyc) num_subshards
              \<and> (max_total_targets = 0 \<or> max_total_targets \<ge> subs)
              \<and> (max_total_packets = 0 \<or> max_total_packets \<ge> subs)
              \<and> (list_of_ips_count = 0 \<or> list_of_ips_count \<ge> subs))
         then Some (Inl Assert_failed)
         else let params = init_params cyc num_subshards sub_idx;
                  st1 = (if max_total_targets > 0
                         then (sh_state sh)\<lparr>max_hosts := share max_total_targets subs sub\<rparr>
                         else sh_state sh);
                  st2 = (if max_total_packets > 0
                         then st1\<lparr>max_packets := share max_total_packets subs sub\<rparr> else st1);
                  sh1 = sh\<lparr>sh_params := params, current := params_first params,
                           thread_id := thread_idx, sh_state := st2\<rparr>
              in bind_run (Some (init_file_params conf list_of_ips_count subs sub
                                   (ip_target_file_params sh1))) (\<lambda>f.
                 bind_run (shard_roll_to_valid conf bl (sh1\<lparr>ip_target_file_params := f\<rparr>)) (\<lambda>(_, sh2, bl').
                   Some (Inr (sh2\<lparr>sh_state := (sh_state sh2)\<lparr>first_scanned := current sh2\<rparr>\<rparr>, bl')))))"

section \<open>Targets\<close>

text \<open>The port and index bits of a target number, converted to \<open>port_h_t\<close> and \<open>index_h_t\<close>.\<close>

definition port_of :: "scan_conf \<Rightarrow> mpz \<Rightarrow> u16" where
  "port_of conf v = word_of_int (mpz_get_ui (v mod 2 ^ max_port_index_len conf div 2 ^ target_index_bits conf))"

definition index_of :: "scan_conf \<Rightarrow> mpz \<Rightarrow> u32" where
  "index_of conf v = word_of_int (mpz_get_ui (v mod 2 ^ target_index_bits conf))"

text \<open>The condition of the loops that skip the port and index combinations that are not scanned.\<close>

definition skipped :: "scan_conf \<Rightarrow> mpz \<Rightarrow> bool" where
  "skipped conf v \<longleftrightarrow> mpz_ne_ui v PMAP_SHARD_DONE
     \<and> ((target_port_num conf \<noteq> 0 \<and> uint (port_of conf v) \<ge> target_port_num conf)
        \<or> (target_index_num conf \<noteq> 0 \<and> sint (index_of conf v) \<ge> target_index_num conf))"

partial_function (option) skip_targets ::
    "scan_conf \<Rightarrow> mpz \<Rightarrow> shard \<Rightarrow> blocklist \<Rightarrow> (mpz \<times> shard \<times> blocklist) run" where
  "skip_targets conf v sh bl =
     (if skipped conf v
      then bind_run (shard_get_next_ipvx_port_index conf bl sh) (\<lambda>(v', sh', bl').
             skip_targets conf v' sh' bl')
      else Some (Inr (v, sh, bl)))"

text \<open>What both functions write: the prefix bytes, the port and the index.\<close>

type_synonym target = "u8 list \<times> u16 \<times> u32"

definition write_target :: "scan_conf \<Rightarrow> mpz \<Rightarrow> target outcome" where
  "write_target conf v =
     bind_out (mpz_to_uint8s_bits (v div 2 ^ max_port_index_len conf) (replicate (ipv46_bytes conf) 0)
                 (max_probe_len conf)) (\<lambda>prefix.
       Inr (prefix, target_port_list conf (port_of conf v), index_of conf v))"

definition shard_get_current_ip_prefix_port_index ::
    "scan_conf \<Rightarrow> blocklist \<Rightarrow> shard \<Rightarrow> (target \<times> shard \<times> blocklist) run" where
  "shard_get_current_ip_prefix_port_index conf bl sh =
     bind_run (Some (shard_get_current_ipvx_port_index bl sh)) (\<lambda>(v, bl').
     bind_run (skip_targets conf v sh bl') (\<lambda>(v', sh', bl'').
     bind_run (Some (write_target conf v')) (\<lambda>t. Some (Inr (t, sh', bl'')))))"

definition shard_get_next_ip_prefix_port_index ::
    "scan_conf \<Rightarrow> blocklist \<Rightarrow> shard \<Rightarrow> (target \<times> shard \<times> blocklist) run" where
  "shard_get_next_ip_prefix_port_index conf bl sh =
     bind_run (shard_get_next_ipvx_port_index conf bl sh) (\<lambda>(v, sh', bl').
     bind_run (skip_targets conf v sh' bl') (\<lambda>(v', sh'', bl'').
     bind_run (Some (write_target conf v')) (\<lambda>t. Some (Inr (t, sh'', bl'')))))"

section \<open>Specification: the elements of a subshard\<close>

definition shard_elem :: "cycle \<Rightarrow> nat \<Rightarrow> nat \<Rightarrow> nat \<Rightarrow> mpz" where
  "shard_elem cyc s i k =
     cycle_elem cyc (nat (cycle_offset cyc) + (block_begin (nat (cycle_order cyc)) s i + k))"

definition shard_stop :: "cycle \<Rightarrow> nat \<Rightarrow> nat \<Rightarrow> mpz" where
  "shard_stop cyc s i =
     cycle_elem cyc (nat (cycle_offset cyc) + block_begin (nat (cycle_order cyc)) s ((i + 1) mod s))"

definition shard_len :: "cycle \<Rightarrow> nat \<Rightarrow> nat \<Rightarrow> nat" where
  "shard_len cyc s i = block_len (nat (cycle_order cyc)) s i"

text \<open>The subshard stands at its \<open>k\<close>-th element.\<close>

definition at_elem :: "cycle \<Rightarrow> nat \<Rightarrow> nat \<Rightarrow> nat \<Rightarrow> shard \<Rightarrow> bool" where
  "at_elem cyc s i k sh \<longleftrightarrow> factor (sh_params sh) = generator cyc
     \<and> modulus (sh_params sh) = prime (cycle_group cyc)
     \<and> params_last (sh_params sh) = shard_stop cyc s i \<and> current sh = shard_elem cyc s i k"

lemma cycle_elem_Suc:
  "cycle_elem cyc (Suc j) = cycle_elem cyc j * generator cyc mod prime (cycle_group cyc)"
  by (simp add: cycle_elem_pm pm_def mod_mult_left_eq) (simp add: mult.commute)

lemma at_elem_next:
  assumes "at_elem cyc s i k sh"
  shows "at_elem cyc s i (Suc k) (shard_get_next_elem sh)"
  using assms by (simp add: at_elem_def shard_get_next_elem_def shard_elem_def cycle_elem_Suc)

lemma at_elem_update [simp]:
  "at_elem cyc s i k (sh\<lparr>iterations := x\<rparr>) = at_elem cyc s i k sh"
  "at_elem cyc s i k (sh\<lparr>sh_state := y\<rparr>) = at_elem cyc s i k sh"
  "at_elem cyc s i k (sh\<lparr>ip_target_file_params := f\<rparr>) = at_elem cyc s i k sh"
  "at_elem cyc s i k (sh\<lparr>thread_id := t\<rparr>) = at_elem cyc s i k sh"
  by (simp_all add: at_elem_def)

lemma shard_elem_unit:
  assumes "cycle_ok cyc"
  shows "shard_elem cyc s i k \<in> {1 ..< prime (cycle_group cyc)}"
proof -
  have "prim_root (prime (cycle_group cyc)) (generator cyc)" using assms by (simp add: cycle_ok_def)
  from prim_rootD [OF this] show ?thesis
    using unit_power_nonzero by (simp add: shard_elem_def cycle_elem_pm)
qed

lemma shard_stop_iff:
  assumes "cycle_ok cyc" "i < s" "s \<le> nat (cycle_order cyc)" "0 < k" "k \<le> shard_len cyc s i"
  shows "shard_elem cyc s i k = shard_stop cyc s i \<longleftrightarrow> k = shard_len cyc s i"
  using walk.block_stop [OF assms(1-3)] walk.block_before_stop [OF assms(1-4)] assms(5)
  by (fastforce simp: shard_elem_def shard_stop_def shard_len_def)

text \<open>The elements after the \<open>k\<close>-th that stand for a target.\<close>

definition valid_from :: "mpz \<Rightarrow> cycle \<Rightarrow> nat \<Rightarrow> nat \<Rightarrow> nat \<Rightarrow> nat list" where
  "valid_from n cyc s i k = filter (\<lambda>j. shard_elem cyc s i j \<le> n) [k ..< shard_len cyc s i]"

lemma valid_from_step:
  assumes "k < shard_len cyc s i"
  shows "valid_from n cyc s i k =
    (if shard_elem cyc s i k \<le> n then [k] else []) @ valid_from n cyc s i (Suc k)"
  using assms by (simp add: valid_from_def upt_conv_Cons)

lemma valid_from_end: "shard_len cyc s i \<le> k \<Longrightarrow> valid_from n cyc s i k = []"
  by (simp add: valid_from_def)

lemma valid_from_Cons:
  "valid_from n cyc s i k = k' # ks \<Longrightarrow>
   k \<le> k' \<and> k' < shard_len cyc s i \<and> shard_elem cyc s i k' \<le> n \<and> ks = valid_from n cyc s i (Suc k')"
  unfolding valid_from_def by (drule filter_upt_Cons) simp

text \<open>The loop stops at the next valid element, or at the end of the subshard.\<close>

lemma next_index_spec:
  assumes "cycle_ok cyc" "i < s" "s \<le> nat (cycle_order cyc)" "at_elem cyc s i k sh" "k < shard_len cyc s i"
  shows "\<exists>r sh'. next_index n sh = Some (r, sh') \<and>
    (case valid_from n cyc s i (Suc k) of
       [] \<Rightarrow> r = None \<and> current sh' = PMAP_SHARD_DONE
     | k' # _ \<Rightarrow> r = Some (shard_elem cyc s i k' - 1) \<and> at_elem cyc s i k' sh')"
  using assms(4,5)
proof (induction "shard_len cyc s i - k" arbitrary: k sh)
  case (Suc d)
  let ?sh1 = "shard_get_next_elem sh"
  have at1: "at_elem cyc s i (Suc k) ?sh1" by (rule at_elem_next [OF Suc.prems(1)])
  then have cur: "current ?sh1 = shard_elem cyc s i (Suc k)" "params_last (sh_params ?sh1) = shard_stop cyc s i"
    by (simp_all add: at_elem_def)
  have stop: "shard_elem cyc s i (Suc k) = shard_stop cyc s i \<longleftrightarrow> Suc k = shard_len cyc s i"
    using shard_stop_iff [OF assms(1-3), of "Suc k"] Suc.prems(2) by simp
  show ?case
  proof (cases "Suc k = shard_len cyc s i")
    case True
    then have "valid_from n cyc s i (Suc k) = []" by (simp add: valid_from_end)
    with True stop cur show ?thesis by (subst next_index.simps) (simp add: Let_def)
  next
    case False
    then have k1: "Suc k < shard_len cyc s i" using Suc.prems(2) by simp
    show ?thesis
    proof (cases "shard_elem cyc s i (Suc k) \<le> n")
      case True
      then show ?thesis using False stop cur at1 valid_from_step [OF k1]
        by (subst next_index.simps) (simp add: Let_def)
    next
      case skip: False
      let ?sh2 = "?sh1\<lparr>sh_state := (sh_state ?sh1)\<lparr>hosts_blocklisted :=
        hosts_blocklisted (sh_state ?sh1) + 1\<rparr>\<rparr>"
      have "next_index n sh = next_index n ?sh2"
        using False skip stop cur by (subst next_index.simps) (simp add: Let_def)
      moreover have "\<exists>r sh'. next_index n ?sh2 = Some (r, sh') \<and>
        (case valid_from n cyc s i (Suc (Suc k)) of
           [] \<Rightarrow> r = None \<and> current sh' = PMAP_SHARD_DONE
         | k' # _ \<Rightarrow> r = Some (shard_elem cyc s i k' - 1) \<and> at_elem cyc s i k' sh')"
        using Suc.hyps(1) [of "Suc k" ?sh2] Suc.hyps(2) at1 k1 by simp
      ultimately show ?thesis using valid_from_step [OF k1] skip by simp
    qed
  qed
qed simp

section \<open>The targets of the blocklist\<close>

text \<open>
  A list is ready when its allowed targets are painted and looking them up by index leaves it as it
  is: \<open>t\<close> enumerates them, and none has the all-zero IP.
\<close>

definition bl_ready :: "blocklist \<Rightarrow> mpz \<Rightarrow> (mpz \<Rightarrow> mpz) \<Rightarrow> bool" where
  "bl_ready bl n t \<longleftrightarrow> (\<forall>index. 0 \<le> index \<and> index < n \<longrightarrow>
     blocklist_lookup_index_for_ipvx_port_index bl index = Inr (t index, bl))"

definition allowed_targets :: "blocklist \<Rightarrow> mpz set" where
  "allowed_targets bl = {a \<in> addresses (bl_masks bl). ip_allowed bl (a div 2 ^ PORT_INDEX_MAX_BITS bl)}"

lemma blocklist_ready:
  assumes "bl_inv bl" "bl_constraint bl = Some c" "painted c" "paint_value c = uint ADDR_ALLOWED"
    "blocklist_count_allowed_ip_port_index bl = Inr n"
  obtains t where "bl_ready bl n t" "bij_betw t {0 ..< n} (allowed_targets bl)"
proof -
  obtain c' where c: "bl_constraint bl = Some c'" "con_inv (bl_masks bl) c'"
    "\<And>a. a \<in> addresses (bl_masks bl) \<Longrightarrow>
       value_at (bl_masks bl) c' a = ip_value bl c' (a div 2 ^ PORT_INDEX_MAX_BITS bl)"
    "\<And>x. ip_allowed bl x \<longleftrightarrow> ip_value bl c' x = 1"
    by (rule bl_invE [OF assms(1)]) (rule that)
  then have eq: "c' = c" using assms(2) by simp
  let ?g = "bl_masks bl" and ?one = "uint ADDR_ALLOWED"
  define t where "t = (\<lambda>i. case constraint_lookup_index_for_ipvx ?g c i ?one of Inr (a, _) \<Rightarrow> a | Inl _ \<Rightarrow> -1)"
  have n: "n = constraint_count_ipvx_of_value ?g c ?one"
    using assms(2,5) by (simp add: blocklist_count_allowed_ip_port_index_def count_of_def
        the_constraint_def constraint_count_ipvx_of_value_ui_def)
  have one: "?one = 1" by (simp add: ADDR_ALLOWED_def)
  have "bij_betw t {0 ..< n} {a. 0 \<le> a \<and> a < 2 ^ max_prefix_len ?g \<and> value_at ?g c a = ?one}"
    unfolding t_def n using con.pick_bij c(2) eq by blast
  moreover have "{a. 0 \<le> a \<and> a < 2 ^ max_prefix_len ?g \<and> value_at ?g c a = ?one} = allowed_targets bl"
    using c(3,4) one by (auto simp: allowed_targets_def addresses_def eq)
  moreover have "bl_ready bl n t" unfolding bl_ready_def
  proof (intro allI impI)
    fix i assume i: "0 \<le> i \<and> i < n"
    obtain a c2 where a: "constraint_lookup_index_for_ipvx ?g c i ?one = Inr (a, c2)"
      using con.pick_total [of ?g c i ?one] c(2) eq i n by blast
    have "c2 = c" using painted_lookup_state [OF assms(3,4) a] .
    then have "bl\<lparr>bl_constraint := Some c2\<rparr> = bl" using assms(2) by simp
    then show "blocklist_lookup_index_for_ipvx_port_index bl i = Inr (t i, bl)"
      using a assms(2) by (simp add: blocklist_lookup_index_for_ipvx_port_index_def the_constraint_def
          constraint_lookup_index_for_ipvx_ui_def t_def)
  qed
  ultimately show ?thesis using that by simp
qed

section \<open>Stepping through a subshard\<close>

text \<open>The situation of one subshard: a cycle, its number among the subshards, a ready list.\<close>

definition subshard_ok :: "scan_conf \<Rightarrow> blocklist \<Rightarrow> (mpz \<Rightarrow> mpz) \<Rightarrow> cycle \<Rightarrow> nat \<Rightarrow> nat \<Rightarrow> bool" where
  "subshard_ok conf bl t cyc s i \<longleftrightarrow> cycle_ok cyc \<and> i < s \<and> s \<le> nat (cycle_order cyc)
     \<and> bl_ready bl (send_max_index conf) t"

definition target_no :: "(mpz \<Rightarrow> mpz) \<Rightarrow> cycle \<Rightarrow> nat \<Rightarrow> nat \<Rightarrow> nat \<Rightarrow> mpz" where
  "target_no t cyc s i k = t (shard_elem cyc s i k - 1)"

lemma subshard_okD:
  assumes "subshard_ok conf bl t cyc s i"
  shows "cycle_ok cyc" "i < s" "s \<le> nat (cycle_order cyc)" "bl_ready bl (send_max_index conf) t"
  using assms by (simp_all add: subshard_ok_def)

lemma lookup_elem:
  assumes "subshard_ok conf bl t cyc s i" "shard_elem cyc s i k \<le> send_max_index conf"
  shows "blocklist_lookup_index_for_ipvx_port_index bl (shard_elem cyc s i k - 1)
    = Inr (target_no t cyc s i k, bl)"
  using subshard_okD [OF assms(1)] assms(2) shard_elem_unit [of cyc s i k]
  by (simp add: bl_ready_def target_no_def)

lemma get_next_spec:
  assumes "subshard_ok conf bl t cyc s i" "at_elem cyc s i k sh" "k < shard_len cyc s i"
  shows "case valid_from (send_max_index conf) cyc s i (Suc k) of
     [] \<Rightarrow> \<exists>sh'. shard_get_next_ipvx_port_index conf bl sh = Some (Inr (PMAP_SHARD_DONE, sh', bl))
             \<and> current sh' = PMAP_SHARD_DONE
   | k' # _ \<Rightarrow> \<exists>sh'. shard_get_next_ipvx_port_index conf bl sh = Some (Inr (target_no t cyc s i k', sh', bl))
             \<and> at_elem cyc s i k' sh'"
proof -
  note O = subshard_okD [OF assms(1)]
  have "current sh \<noteq> PMAP_SHARD_DONE"
    using assms(2) shard_elem_unit [OF O(1), of s i k] by (simp add: at_elem_def PMAP_SHARD_DONE_def)
  moreover obtain r sh' where n: "next_index (send_max_index conf) sh = Some (r, sh')"
    "case valid_from (send_max_index conf) cyc s i (Suc k) of
       [] \<Rightarrow> r = None \<and> current sh' = PMAP_SHARD_DONE
     | k' # _ \<Rightarrow> r = Some (shard_elem cyc s i k' - 1) \<and> at_elem cyc s i k' sh'"
    using next_index_spec [OF O(1-3) assms(2,3)] by blast
  ultimately show ?thesis
    using lookup_elem [OF assms(1)] valid_from_Cons [of "send_max_index conf" cyc s i "Suc k"]
    by (auto simp: shard_get_next_ipvx_port_index_def split: list.splits)
qed

text \<open>Skipping ends at the next target whose port and index are scanned.\<close>

definition scanned_from :: "scan_conf \<Rightarrow> (mpz \<Rightarrow> mpz) \<Rightarrow> cycle \<Rightarrow> nat \<Rightarrow> nat \<Rightarrow> nat \<Rightarrow> nat list" where
  "scanned_from conf t cyc s i k =
     filter (\<lambda>j. \<not> skipped conf (target_no t cyc s i j)) (valid_from (send_max_index conf) cyc s i k)"

lemma not_skipped_done: "\<not> skipped conf PMAP_SHARD_DONE"
  by (simp add: skipped_def)

lemma skip_from_next:
  assumes "subshard_ok conf bl t cyc s i" "at_elem cyc s i k sh" "k < shard_len cyc s i"
  shows "case scanned_from conf t cyc s i (Suc k) of
     [] \<Rightarrow> \<exists>sh'. bind_run (shard_get_next_ipvx_port_index conf bl sh) (\<lambda>(v, sh, bl). skip_targets conf v sh bl)
               = Some (Inr (PMAP_SHARD_DONE, sh', bl)) \<and> current sh' = PMAP_SHARD_DONE
   | k' # _ \<Rightarrow> \<exists>sh'. bind_run (shard_get_next_ipvx_port_index conf bl sh) (\<lambda>(v, sh, bl). skip_targets conf v sh bl)
               = Some (Inr (target_no t cyc s i k', sh', bl)) \<and> at_elem cyc s i k' sh'"
  using assms(2,3)
proof (induction "shard_len cyc s i - k" arbitrary: k sh rule: less_induct)
  case less
  show ?case
  proof (cases "valid_from (send_max_index conf) cyc s i (Suc k)")
    case Nil
    then obtain sh' where "shard_get_next_ipvx_port_index conf bl sh = Some (Inr (PMAP_SHARD_DONE, sh', bl))"
      "current sh' = PMAP_SHARD_DONE" using get_next_spec [OF assms(1) less.prems] by auto
    then show ?thesis using Nil
      by (simp add: scanned_from_def skip_targets.simps [of conf PMAP_SHARD_DONE] not_skipped_done)
  next
    case (Cons k' ks)
    note V = valid_from_Cons [OF Cons]
    obtain sh' where n: "shard_get_next_ipvx_port_index conf bl sh = Some (Inr (target_no t cyc s i k', sh', bl))"
      "at_elem cyc s i k' sh'" using get_next_spec [OF assms(1) less.prems] Cons by auto
    show ?thesis
    proof (cases "skipped conf (target_no t cyc s i k')")
      case False
      then show ?thesis using n Cons
        by (simp add: scanned_from_def skip_targets.simps [of conf "target_no t cyc s i k'"])
    next
      case True
      have "shard_len cyc s i - k' < shard_len cyc s i - k" "k' < shard_len cyc s i" using V by auto
      note IH = less.hyps [OF this(1) n(2) this(2)]
      have "bind_run (shard_get_next_ipvx_port_index conf bl sh) (\<lambda>(v, sh, bl). skip_targets conf v sh bl)
          = bind_run (shard_get_next_ipvx_port_index conf bl sh') (\<lambda>(v, sh, bl). skip_targets conf v sh bl)"
        using n(1) True by (simp add: skip_targets.simps [of conf "target_no t cyc s i k'"])
      moreover have "scanned_from conf t cyc s i (Suc k) = scanned_from conf t cyc s i (Suc k')"
        using True V Cons by (simp add: scanned_from_def)
      ultimately show ?thesis using IH by (simp only: cong: list.case_cong)
    qed
  qed
qed

section \<open>All the targets of a subshard\<close>

text \<open>
  The targets that a sender thread takes from its subshard: the current one, then the next one until
  the prefix is all zero (\<open>send_run\<close> of \<open>src/send.c\<close>, without the sending).
\<close>

definition prefix_done :: "u8 list \<Rightarrow> bool" where
  "prefix_done prefix \<longleftrightarrow> be_value prefix = 0"

partial_function (option) rest_targets ::
    "scan_conf \<Rightarrow> blocklist \<Rightarrow> shard \<Rightarrow> target \<Rightarrow> target list run" where
  "rest_targets conf bl sh tg =
     (if prefix_done (fst tg) then Some (Inr [])
      else bind_run (shard_get_next_ip_prefix_port_index conf bl sh) (\<lambda>(tg', sh', bl').
           bind_run (rest_targets conf bl' sh' tg') (\<lambda>tgs. Some (Inr (tg # tgs)))))"

definition scan_targets :: "scan_conf \<Rightarrow> blocklist \<Rightarrow> shard \<Rightarrow> target list run" where
  "scan_targets conf bl sh =
     bind_run (shard_get_current_ip_prefix_port_index conf bl sh) (\<lambda>(tg, sh', bl').
       rest_targets conf bl' sh' tg)"

text \<open>The prefix bytes of an IP, as the number that the bytes stand for.\<close>

definition target_ok :: "scan_conf \<Rightarrow> mpz \<Rightarrow> bool" where
  "target_ok conf v \<longleftrightarrow> 0 \<le> v \<and> v div 2 ^ max_port_index_len conf < 2 ^ max_probe_len conf"

lemma mpz_to_uint8s_bits_zero:
  assumes "0 \<le> x" "x < 2 ^ b" "b \<le> 8 * m"
  obtains bs where "mpz_to_uint8s_bits x (replicate m 0) b = Inr bs" "length bs = m"
    "int (be_value bs) = x * 2 ^ (8 * m - b)"
proof -
  let ?n = "bytes_of_bits b" and ?s = "shift_of_bits b"
  have sp: "b + ?s = 8 * ?n" by (rule bits_split)
  have n: "?n \<le> m" using assms(3) by (simp add: bytes_of_bits_def)
  have "x * 2 ^ ?s < 2 ^ b * 2 ^ ?s" using assms(2) by simp
  also have "\<dots> = 256 ^ ?n" using sp by (simp add: pow256 flip: power_add)
  finally obtain ex where ex: "mpz_to_uint8s (x * 2 ^ ?s) (replicate ?n 0) ?n
      = Inr (take (?n - length ex) (replicate ?n 0) @ ex)" "ex = mpz_export (x * 2 ^ ?s)" "length ex \<le> ?n"
    using mpz_to_uint8s_fits [of "x * 2 ^ ?s" ?n "replicate ?n 0"] assms(1) by auto
  let ?bs = "replicate (?n - length ex) 0 @ ex @ replicate (m - ?n) 0"
  have "mpz_to_uint8s (x * 2 ^ ?s) (replicate m 0) ?n = Inr ?bs"
  proof -
    have "min (?n - length ex) m = ?n - length ex" using n by simp
    then show ?thesis using ex(2,3) n by (simp add: mpz_to_uint8s_def Let_def)
  qed
  moreover have "be_value ex = nat (x * 2 ^ ?s)"
    using assms(1) by (simp add: ex(2) mpz_export_def be_value_digits)
  then have "int (be_value ?bs) = x * 2 ^ ?s * 256 ^ (m - ?n)"
    using assms(1) by (simp add: be_value_append be_value_zeros)
  moreover have "8 * m - b = ?s + 8 * (m - ?n)" using sp n assms(3) by simp
  then have "(2::int) ^ (8 * m - b) = 2 ^ ?s * 256 ^ (m - ?n)" by (simp add: power_add pow256)
  ultimately show ?thesis using ex(3) n by (intro that [of ?bs]) (simp_all add: mpz_to_uint8s_bits_alt)
qed

lemma write_target_ok:
  assumes "target_ok conf v" "max_probe_len conf \<le> 8 * ipv46_bytes conf"
  obtains bs where "write_target conf v = Inr (bs, target_port_list conf (port_of conf v), index_of conf v)"
    "length bs = ipv46_bytes conf"
    "int (be_value bs) = v div 2 ^ max_port_index_len conf * 2 ^ (8 * ipv46_bytes conf - max_probe_len conf)"
proof -
  have "0 \<le> v div 2 ^ max_port_index_len conf"
    using assms(1) by (simp add: target_ok_def pos_imp_zdiv_nonneg_iff)
  then obtain bs where "mpz_to_uint8s_bits (v div 2 ^ max_port_index_len conf) (replicate (ipv46_bytes conf) 0)
      (max_probe_len conf) = Inr bs" "length bs = ipv46_bytes conf"
    "int (be_value bs) = v div 2 ^ max_port_index_len conf * 2 ^ (8 * ipv46_bytes conf - max_probe_len conf)"
    using mpz_to_uint8s_bits_zero [OF _ _ assms(2)] assms(1) by (auto simp: target_ok_def)
  then show ?thesis by (intro that [of bs]) (simp_all add: write_target_def)
qed

definition written :: "scan_conf \<Rightarrow> mpz \<Rightarrow> target" where
  "written conf v = (case write_target conf v of Inr tg \<Rightarrow> tg | Inl _ \<Rightarrow> ([], 0, 0))"

lemma written_eq:
  assumes "target_ok conf v" "max_probe_len conf \<le> 8 * ipv46_bytes conf"
  shows "write_target conf v = Inr (written conf v)"
  by (rule write_target_ok [OF assms]) (simp add: written_def)

lemma written_done:
  assumes "target_ok conf v" "max_probe_len conf \<le> 8 * ipv46_bytes conf"
  shows "prefix_done (fst (written conf v)) \<longleftrightarrow> v div 2 ^ max_port_index_len conf = 0"
proof -
  obtain bs where b: "write_target conf v = Inr (bs, target_port_list conf (port_of conf v), index_of conf v)"
    "int (be_value bs) = v div 2 ^ max_port_index_len conf * 2 ^ (8 * ipv46_bytes conf - max_probe_len conf)"
    by (rule write_target_ok [OF assms]) (rule that)
  then have "be_value bs = 0 \<longleftrightarrow> v div 2 ^ max_port_index_len conf = 0"
    by (metis mult_eq_0_iff of_nat_eq_0_iff power_not_zero zero_neq_numeral)
  with b(1) show ?thesis by (simp add: prefix_done_def written_def)
qed

text \<open>The targets of the list have an IP other than zero and fit the prefix buffer.\<close>

definition scan_ok :: "scan_conf \<Rightarrow> (mpz \<Rightarrow> mpz) \<Rightarrow> bool" where
  "scan_ok conf t \<longleftrightarrow> max_probe_len conf \<le> 8 * ipv46_bytes conf
     \<and> (\<forall>index. 0 \<le> index \<and> index < send_max_index conf \<longrightarrow>
          target_ok conf (t index) \<and> t index div 2 ^ max_port_index_len conf \<noteq> 0)"

lemma target_no_ok:
  assumes "scan_ok conf t" "cycle_ok cyc" "shard_elem cyc s i k \<le> send_max_index conf"
  shows "target_ok conf (target_no t cyc s i k)"
    "target_no t cyc s i k div 2 ^ max_port_index_len conf \<noteq> 0"
  using assms shard_elem_unit [OF assms(2), of s i k] by (simp_all add: scan_ok_def target_no_def)

lemma scanned_fromD:
  assumes "scanned_from conf t cyc s i k = k' # ks"
  shows "k \<le> k' \<and> k' < shard_len cyc s i \<and> shard_elem cyc s i k' \<le> send_max_index conf
    \<and> \<not> skipped conf (target_no t cyc s i k') \<and> ks = scanned_from conf t cyc s i (Suc k')"
  using assms unfolding scanned_from_def valid_from_def filter_filter by (auto dest!: filter_upt_Cons)

lemma rest_targets_spec:
  assumes "subshard_ok conf bl t cyc s i" "scan_ok conf t" "at_elem cyc s i k sh" "k < shard_len cyc s i"
    "shard_elem cyc s i k \<le> send_max_index conf"
  shows "rest_targets conf bl sh (written conf (target_no t cyc s i k)) =
    Some (Inr (map (\<lambda>j. written conf (target_no t cyc s i j)) (k # scanned_from conf t cyc s i (Suc k))))"
  using assms(3-5)
proof (induction "shard_len cyc s i - k" arbitrary: k sh rule: less_induct)
  case less
  let ?w = "\<lambda>j. written conf (target_no t cyc s i j)"
  note O = subshard_okD [OF assms(1)]
  have bytes: "max_probe_len conf \<le> 8 * ipv46_bytes conf" using assms(2) by (simp add: scan_ok_def)
  note T = target_no_ok [OF assms(2) O(1)]
  have nd: "\<not> prefix_done (fst (?w k))" using written_done [OF T(1) bytes] T(2) less.prems(3) by simp
  have step: "rest_targets conf bl sh (?w k) =
      bind_run (bind_run (shard_get_next_ipvx_port_index conf bl sh) (\<lambda>(v, sh, bl). skip_targets conf v sh bl))
        (\<lambda>(v', sh', bl'). bind_run (Some (write_target conf v')) (\<lambda>tg'.
           bind_run (rest_targets conf bl' sh' tg') (\<lambda>tgs. Some (Inr (?w k # tgs)))))"
    using nd by (subst rest_targets.simps)
      (auto simp: shard_get_next_ip_prefix_port_index_def bind_run_def split: option.splits sum.splits prod.splits)
  have zero: "rest_targets conf bl sh' (written conf 0) = Some (Inr [])" "write_target conf 0 = Inr (written conf 0)" for sh'
  proof -
    have z: "target_ok conf 0" by (simp add: target_ok_def)
    show "write_target conf 0 = Inr (written conf 0)" by (rule written_eq [OF z bytes])
    show "rest_targets conf bl sh' (written conf 0) = Some (Inr [])"
      using written_done [OF z bytes] by (subst rest_targets.simps) simp
  qed
  show ?case
  proof (cases "scanned_from conf t cyc s i (Suc k)")
    case Nil
    then obtain sh' where "bind_run (shard_get_next_ipvx_port_index conf bl sh) (\<lambda>(v, sh, bl). skip_targets conf v sh bl)
        = Some (Inr (0, sh', bl))"
      using skip_from_next [OF assms(1) less.prems(1,2)] by (auto simp: PMAP_SHARD_DONE_def)
    then show ?thesis using Nil zero unfolding step by simp
  next
    case (Cons k' ks)
    note V = scanned_fromD [OF Cons]
    obtain sh' where n: "bind_run (shard_get_next_ipvx_port_index conf bl sh) (\<lambda>(v, sh, bl). skip_targets conf v sh bl)
        = Some (Inr (target_no t cyc s i k', sh', bl))" "at_elem cyc s i k' sh'"
      using skip_from_next [OF assms(1) less.prems(1,2)] Cons by auto
    have "shard_len cyc s i - k' < shard_len cyc s i - k" "k' < shard_len cyc s i"
      "shard_elem cyc s i k' \<le> send_max_index conf" using V by auto
    note IH = less.hyps [OF this(1) n(2) this(2,3)]
    have "write_target conf (target_no t cyc s i k') = Inr (?w k')"
      using written_eq [OF T(1) bytes] V by simp
    then show ?thesis using n(1) IH V Cons unfolding step by simp
  qed
qed


lemma scan_targets_spec:
  assumes "subshard_ok conf bl t cyc s i" "scan_ok conf t" "at_elem cyc s i k sh" "k < shard_len cyc s i"
    "shard_elem cyc s i k \<le> send_max_index conf"
  shows "scan_targets conf bl sh =
    Some (Inr (map (\<lambda>j. written conf (target_no t cyc s i j)) (scanned_from conf t cyc s i k)))"
proof -
  let ?w = "\<lambda>j. written conf (target_no t cyc s i j)"
  note O = subshard_okD [OF assms(1)]
  have bytes: "max_probe_len conf \<le> 8 * ipv46_bytes conf" using assms(2) by (simp add: scan_ok_def)
  note T = target_no_ok [OF assms(2) O(1)]
  have lookup: "shard_get_current_ipvx_port_index bl sh = Inr (target_no t cyc s i k, bl)"
    using lookup_elem [OF assms(1,5)] assms(3)
    by (simp add: shard_get_current_ipvx_port_index_def at_elem_def)
  have vf: "valid_from (send_max_index conf) cyc s i k = k # valid_from (send_max_index conf) cyc s i (Suc k)"
    using valid_from_step [OF assms(4)] assms(5) by simp
  have zero: "rest_targets conf bl sh' (written conf 0) = Some (Inr [])" "write_target conf 0 = Inr (written conf 0)" for sh'
  proof -
    have z: "target_ok conf 0" by (simp add: target_ok_def)
    show "write_target conf 0 = Inr (written conf 0)" by (rule written_eq [OF z bytes])
    show "rest_targets conf bl sh' (written conf 0) = Some (Inr [])"
      using written_done [OF z bytes] by (subst rest_targets.simps) simp
  qed
  show ?thesis
  proof (cases "skipped conf (target_no t cyc s i k)")
    case False
    have "write_target conf (target_no t cyc s i k) = Inr (?w k)"
      using written_eq [OF T(1) bytes] assms(5) by simp
    then show ?thesis using rest_targets_spec [OF assms] False vf lookup
      by (simp add: scan_targets_def shard_get_current_ip_prefix_port_index_def scanned_from_def
          skip_targets.simps [of conf "target_no t cyc s i k"])
  next
    case True
    have sf: "scanned_from conf t cyc s i k = scanned_from conf t cyc s i (Suc k)"
      using True vf by (simp add: scanned_from_def)
    have step: "scan_targets conf bl sh = bind_run (bind_run (shard_get_next_ipvx_port_index conf bl sh)
        (\<lambda>(v, sh, bl). skip_targets conf v sh bl)) (\<lambda>(v', sh', bl').
        bind_run (Some (write_target conf v')) (\<lambda>tg. rest_targets conf bl' sh' tg))"
      using lookup True by (simp add: scan_targets_def shard_get_current_ip_prefix_port_index_def
          skip_targets.simps [of conf "target_no t cyc s i k"] bind_run_def split: option.splits sum.splits prod.splits)
    show ?thesis
    proof (cases "scanned_from conf t cyc s i (Suc k)")
      case Nil
      then obtain sh' where "bind_run (shard_get_next_ipvx_port_index conf bl sh) (\<lambda>(v, sh, bl). skip_targets conf v sh bl)
          = Some (Inr (0, sh', bl))"
        using skip_from_next [OF assms(1,3,4)] by (auto simp: PMAP_SHARD_DONE_def)
      then show ?thesis using Nil zero sf unfolding step by simp
    next
      case (Cons k' ks)
      note V = scanned_fromD [OF Cons]
      obtain sh' where n: "bind_run (shard_get_next_ipvx_port_index conf bl sh) (\<lambda>(v, sh, bl). skip_targets conf v sh bl)
          = Some (Inr (target_no t cyc s i k', sh', bl))" "at_elem cyc s i k' sh'"
        using skip_from_next [OF assms(1,3,4)] Cons by auto
      have "write_target conf (target_no t cyc s i k') = Inr (?w k')"
        using written_eq [OF T(1) bytes] V by simp
      moreover have "rest_targets conf bl sh' (?w k')
          = Some (Inr (map ?w (k' # scanned_from conf t cyc s i (Suc k'))))"
        using rest_targets_spec [OF assms(1,2) n(2)] V by simp
      ultimately show ?thesis using n(1) V Cons sf unfolding step by simp
    qed
  qed
qed

section \<open>The subshards together\<close>

text \<open>
  Over all the subshards of a cycle every target index is met exactly once, whatever the number of
  subshards and the offset.
\<close>

lemma subshards_cover:
  assumes "cycle_ok cyc" "0 < s" "0 \<le> n" "n \<le> cycle_order cyc" "bij_betw t {0 ..< n} A"
  shows "distinct (concat (map (\<lambda>i. map (target_no t cyc s i) (valid_from n cyc s i 0)) [0 ..< s]))
    \<and> set (concat (map (\<lambda>i. map (target_no t cyc s i) (valid_from n cyc s i 0)) [0 ..< s])) = A"
proof -
  let ?es = "concat (map (\<lambda>i. map (shard_elem cyc s i) [0 ..< shard_len cyc s i]) [0 ..< s])"
  let ?ts = "concat (map (\<lambda>i. map (target_no t cyc s i) (valid_from n cyc s i 0)) [0 ..< s])"
  let ?f = "\<lambda>x. t (x - 1)"
  have p: "prime (cycle_group cyc) = cycle_order cyc + 1" using assms(1) by (simp add: cycle_ok_def)
  have se: "shard_elem cyc s i = (\<lambda>k. cycle_elem cyc (nat (cycle_offset cyc)
      + (block_begin (nat (cycle_order cyc)) s i + k)))" for i
    by (rule ext) (simp add: shard_elem_def)
  have es: "distinct ?es" "set ?es = {1 ..< cycle_order cyc + 1}"
    using walk.blocks_units [OF assms(1,2), of "nat (cycle_offset cyc)"]
    unfolding se p by (simp_all only: shard_len_def)
  have "map (target_no t cyc s i) (valid_from n cyc s i 0)
      = map ?f (filter (\<lambda>x. x \<le> n) (map (shard_elem cyc s i) [0 ..< shard_len cyc s i]))" for i
    by (simp add: target_no_def valid_from_def filter_map comp_def)
  then have ts: "?ts = map ?f (filter (\<lambda>x. x \<le> n) ?es)"
    by (simp add: filter_concat map_concat comp_def)
  have set: "set (filter (\<lambda>x. x \<le> n) ?es) = {1 .. n}" using es(2) assms(4) by auto
  have "(\<lambda>x. x - 1) ` {1 .. n} = {0 ..< n}"
  proof
    show "{0 ..< n} \<subseteq> (\<lambda>x. x - 1) ` {1 .. n}"
    proof
      fix x assume "x \<in> {0 ..< n}"
      then have "x = (x + 1) - 1" "x + 1 \<in> {1 .. n}" by auto
      then show "x \<in> (\<lambda>x. x - 1) ` {1 .. n}" by (rule image_eqI)
    qed
  qed auto
  moreover have "?f ` {1 .. n} = t ` (\<lambda>x. x - 1) ` {1 .. n}" by (simp only: image_image)
  ultimately have "?f ` {1 .. n} = A" using assms(5) by (simp add: bij_betw_def)
  moreover have "inj_on ?f {1 .. n}"
  proof (rule inj_onI)
    fix x y assume xy: "x \<in> {1 .. n}" "y \<in> {1 .. n}" "?f x = ?f y"
    have "inj_on t {0 ..< n}" using assms(5) by (rule bij_betw_imp_inj_on)
    moreover have "x - 1 \<in> {0 ..< n}" "y - 1 \<in> {0 ..< n}" using xy(1,2) by auto
    ultimately have "x - 1 = y - 1" using xy(3) by (simp only: inj_on_eq_iff)
    then show "x = y" by simp
  qed
  ultimately show ?thesis unfolding ts using es(1) set by (simp add: distinct_map)
qed

text \<open>What \<open>shard_init\<close> sets up.\<close>

lemma exponent_nat:
  assumes "cycle_ok cyc" "0 < s"
  shows "cycle_elem cyc (nat ((cycle_order cyc div int s * int i + cycle_offset cyc) mod cycle_order cyc))
    = cycle_elem cyc (nat (cycle_offset cyc) + block_begin (nat (cycle_order cyc)) s i)"
proof -
  have o: "0 \<le> cycle_offset cyc" using assms(1) by (simp add: cycle_ok_def)
  have n: "cycle_order cyc = int (nat (cycle_order cyc))" "cycle_offset cyc = int (nat (cycle_offset cyc))"
    using walk.period_pos [OF assms(1)] o by simp_all
  obtain a b where ab: "cycle_order cyc = int a" "cycle_offset cyc = int b"
    using n by metis
  have "(int a div int s * int i + int b) mod int a = int ((a div s * i + b) mod a)"
    by (simp add: zdiv_int zmod_int)
  moreover have "cycle_elem cyc ((b + a div s * i) mod a) = cycle_elem cyc (b + a div s * i)"
    using walk.elem_mod [OF assms(1)] ab(1) by simp
  ultimately show ?thesis unfolding ab by (simp add: block_begin_def add.commute)
qed

lemma init_params_elem:
  assumes "cycle_ok cyc" "i < s"
  shows "init_params cyc (int s) (int i) = \<lparr>params_first = shard_elem cyc s i 0,
    params_last = shard_stop cyc s i, factor = generator cyc, modulus = prime (cycle_group cyc)\<rparr>"
proof -
  have s: "0 < s" using assms(2) by simp
  have pw: "mpz_powm (generator cyc) e (prime (cycle_group cyc)) = cycle_elem cyc (nat e)" for e
    by (simp add: cycle_elem_def mpz_powm_def)
  have "(int i + 1) mod int s = int ((i + 1) mod s)" by (simp add: zmod_int add.commute)
  then show ?thesis using exponent_nat [OF assms(1) s, of i] exponent_nat [OF assms(1) s, of "(i + 1) mod s"]
    by (simp add: init_params_def Let_def pw exponent_begin_def exponent_end_def shard_elem_def shard_stop_def)
qed

definition sub_count :: "u16 \<Rightarrow> u8 \<Rightarrow> nat" where
  "sub_count num_shards num_threads = unat num_shards * unat num_threads"

definition sub_index :: "u16 \<Rightarrow> u8 \<Rightarrow> u8 \<Rightarrow> nat" where
  "sub_index shard_idx thread_idx num_threads = unat shard_idx * unat num_threads + unat thread_idx"

lemma sub_index_less:
  assumes "shard_idx < num_shards" "thread_idx < num_threads"
  shows "sub_index shard_idx thread_idx num_threads < sub_count num_shards num_threads"
proof -
  have "unat thread_idx < unat num_threads" "unat shard_idx + 1 \<le> unat num_shards"
    using assms by (simp_all add: word_less_nat_alt Suc_leI)
  then have "unat shard_idx * unat num_threads + unat thread_idx < (unat shard_idx + 1) * unat num_threads"
    "(unat shard_idx + 1) * unat num_threads \<le> unat num_shards * unat num_threads"
    by (simp add: add_mult_distrib) (rule mult_le_mono1, fact)
  then show ?thesis unfolding sub_index_def sub_count_def by (rule order.strict_trans2)
qed

lemma shard_init_spec:
  assumes "cycle_ok cyc" "bl_ready bl (send_max_index conf) t" "shard_idx < num_shards" "thread_idx < num_threads"
    "int (sub_count num_shards num_threads) < cycle_order cyc"
  defines "s \<equiv> sub_count num_shards num_threads" and "i \<equiv> sub_index shard_idx thread_idx num_threads"
  shows "\<exists>sh. shard_init conf bl zero_shard shard_idx num_shards thread_idx num_threads 0 0 0 cyc = Some (Inr (sh, bl))
    \<and> (case valid_from (send_max_index conf) cyc s i 0 of
         [] \<Rightarrow> current sh = PMAP_SHARD_DONE
       | k # _ \<Rightarrow> at_elem cyc s i k sh)"
proof -
  have i: "i < s" unfolding i_def s_def by (rule sub_index_less [OF assms(3,4)])
  have s: "s \<le> nat (cycle_order cyc)" using assms(5) by (simp add: s_def)
  have sub: "subshard_ok conf bl t cyc s i" using assms(1,2) i s by (simp add: subshard_ok_def)
  have pos: "num_shards > 0" "num_threads > 0"
    using assms(3,4) by (simp_all add: word_less_nat_alt)
  have num: "uint num_shards * uint num_threads = int s"
    "uint shard_idx * uint num_threads + uint thread_idx = int i"
    unfolding s_def i_def sub_count_def sub_index_def by (simp_all only: uint_nat of_nat_add of_nat_mult)
  define sh1 where "sh1 = zero_shard\<lparr>sh_params := init_params cyc (int s) (int i),
     current := params_first (init_params cyc (int s) (int i)), thread_id := thread_idx\<rparr>"
  have at0: "at_elem cyc s i 0 sh1"
    using init_params_elem [OF assms(1) i] by (simp add: sh1_def at_elem_def)
  have len: "0 < shard_len cyc s i" using block_pos [OF i s] by (simp add: shard_len_def)
  have roll: "\<exists>v sh2. shard_roll_to_valid conf bl sh1 = Some (Inr (v, sh2, bl))
      \<and> (case valid_from (send_max_index conf) cyc s i 0 of
         [] \<Rightarrow> current sh2 = PMAP_SHARD_DONE | k # _ \<Rightarrow> at_elem cyc s i k sh2)"
  proof (cases "shard_elem cyc s i 0 \<le> send_max_index conf")
    case True
    then show ?thesis using at0 valid_from_step [OF len] by (simp add: shard_roll_to_valid_def at_elem_def)
  next
    case False
    then show ?thesis using at0 valid_from_step [OF len] get_next_spec [OF sub at0 len]
      by (auto simp: shard_roll_to_valid_def at_elem_def split: list.splits)
  qed
  then obtain v sh2 where r: "shard_roll_to_valid conf bl sh1 = Some (Inr (v, sh2, bl))"
    "case valid_from (send_max_index conf) cyc s i 0 of
         [] \<Rightarrow> current sh2 = PMAP_SHARD_DONE | k # _ \<Rightarrow> at_elem cyc s i k sh2" by blast
  have cond: "num_shards > 0 \<and> num_threads > 0 \<and> shard_idx < num_shards \<and> thread_idx < num_threads
      \<and> mpz_gt_ui (cycle_order cyc) (int s)" using pos assms(3-5) by (simp add: s_def)
  have nofile: "sh1\<lparr>ip_target_file_params := (ip_target_file_params sh1)\<lparr>file_fp := None\<rparr>\<rparr> = sh1"
    by (simp add: sh1_def zero_shard_def)
  have "shard_init conf bl zero_shard shard_idx num_shards thread_idx num_threads 0 0 0 cyc
      = Some (Inr (sh2\<lparr>sh_state := (sh_state sh2)\<lparr>first_scanned := current sh2\<rparr>\<rparr>, bl))"
    unfolding shard_init_def num Let_def
    using cond r(1) nofile by (simp add: init_file_params_def sh1_def)
  then show ?thesis using r(2) by (auto split: list.splits)
qed

section \<open>The code of a target\<close>

text \<open>
  A target number is an IP, a port number and an index: \<open>x * 2 ^ P + q\<close> shifted by the index bits, plus
  \<open>j\<close>. The prefix bytes hold the IP in the top bits.
\<close>

definition target_code :: "scan_conf \<Rightarrow> mpz \<Rightarrow> mpz \<Rightarrow> mpz \<Rightarrow> mpz" where
  "target_code conf x q j = x * 2 ^ max_port_index_len conf + (q * 2 ^ target_index_bits conf + j)"

definition prefix_bytes :: "scan_conf \<Rightarrow> mpz \<Rightarrow> u8 list" where
  "prefix_bytes conf x =
     (let e = be_digits (nat (x * 2 ^ (8 * ipv46_bytes conf - max_probe_len conf)))
      in replicate (ipv46_bytes conf - length e) 0 @ e)"

text \<open>The port and index bits fit their C types.\<close>

definition bits_ok :: "scan_conf \<Rightarrow> nat \<Rightarrow> bool" where
  "bits_ok conf port_bits \<longleftrightarrow> max_port_index_len conf = port_bits + target_index_bits conf
     \<and> port_bits \<le> 16 \<and> target_index_bits conf \<le> 31 \<and> max_probe_len conf \<le> 8 * ipv46_bytes conf"

definition scanned_port :: "scan_conf \<Rightarrow> mpz \<Rightarrow> bool" where
  "scanned_port conf q \<longleftrightarrow> target_port_num conf = 0 \<or> q < target_port_num conf"

definition scanned_index :: "scan_conf \<Rightarrow> mpz \<Rightarrow> bool" where
  "scanned_index conf j \<longleftrightarrow> target_index_num conf = 0 \<or> j < target_index_num conf"

lemma prefix_bytes_value:
  assumes "0 \<le> x" "x < 2 ^ max_probe_len conf" "max_probe_len conf \<le> 8 * ipv46_bytes conf"
  shows "length (prefix_bytes conf x) = ipv46_bytes conf
    \<and> int (be_value (prefix_bytes conf x)) = x * 2 ^ (8 * ipv46_bytes conf - max_probe_len conf)"
proof -
  let ?k = "8 * ipv46_bytes conf - max_probe_len conf"
  have "x * 2 ^ ?k < 2 ^ max_probe_len conf * 2 ^ ?k" using assms(2) by simp
  also have "\<dots> = 2 ^ (8 * ipv46_bytes conf)" using assms(3) by (simp flip: power_add)
  finally have "int (nat (x * 2 ^ ?k)) < int (256 ^ ipv46_bytes conf)" using assms(1) by (simp add: pow256)
  then have "nat (x * 2 ^ ?k) < 256 ^ ipv46_bytes conf" by (simp only: of_nat_less_iff)
  then have "length (be_digits (nat (x * 2 ^ ?k))) \<le> ipv46_bytes conf" by (simp only: length_be_digits)
  then show ?thesis using assms(1)
    by (simp add: prefix_bytes_def Let_def be_value_append be_value_zeros be_value_digits)
qed

lemma target_code_parts:
  assumes "bits_ok conf p" "0 \<le> q" "q < 2 ^ p" "0 \<le> j" "j < 2 ^ target_index_bits conf"
  shows "target_code conf x q j div 2 ^ max_port_index_len conf = x"
    "target_code conf x q j mod 2 ^ max_port_index_len conf = q * 2 ^ target_index_bits conf + j"
    "target_code conf x q j mod 2 ^ target_index_bits conf = j"
proof -
  let ?i = "target_index_bits conf" and ?n = "max_port_index_len conf"
  have n: "(2::int) ^ ?n = 2 ^ p * 2 ^ ?i" using assms(1) by (simp add: bits_ok_def power_add)
  have "q + 1 \<le> 2 ^ p" using assms(3) by simp
  then have "(q + 1) * 2 ^ ?i \<le> 2 ^ p * 2 ^ ?i" by (intro mult_right_mono) simp_all
  then have r: "0 \<le> q * 2 ^ ?i + j" "q * 2 ^ ?i + j < 2 ^ ?n"
    using assms(2,4,5) by (simp_all add: n distrib_right)
  then show "target_code conf x q j div 2 ^ ?n = x" "target_code conf x q j mod 2 ^ ?n = q * 2 ^ ?i + j"
    by (simp_all add: target_code_def)
  have "target_code conf x q j = (x * 2 ^ p + q) * 2 ^ ?i + j"
    by (simp add: target_code_def n algebra_simps)
  then show "target_code conf x q j mod 2 ^ ?i = j" using assms(4,5) by simp
qed

lemma port_of_code:
  assumes "bits_ok conf p" "0 \<le> q" "q < 2 ^ p" "0 \<le> j" "j < 2 ^ target_index_bits conf"
  shows "port_of conf (target_code conf x q j) = word_of_int q" "uint (port_of conf (target_code conf x q j)) = q"
proof -
  note T = target_code_parts [OF assms]
  have "(2::int) ^ p \<le> 2 ^ 16" using assms(1) by (simp only: bits_ok_def power_increasing_iff one_less_numeral_iff semiring_norm)
  then have q: "q < 2 ^ 16" using assms(3) by linarith
  have "(q * 2 ^ target_index_bits conf + j) div 2 ^ target_index_bits conf = q" using assms(4,5) by simp
  then show e: "port_of conf (target_code conf x q j) = word_of_int q"
    using q assms(2) by (simp add: port_of_def T)
  show "uint (port_of conf (target_code conf x q j)) = q"
    using q assms(2) unfolding e by (simp add: uint_word_of_int)
qed

lemma index_of_code:
  assumes "bits_ok conf p" "0 \<le> q" "q < 2 ^ p" "0 \<le> j" "j < 2 ^ target_index_bits conf"
  shows "index_of conf (target_code conf x q j) = word_of_int j" "sint (index_of conf (target_code conf x q j)) = j"
proof -
  note T = target_code_parts [OF assms]
  have "(2::int) ^ target_index_bits conf \<le> 2 ^ 31" using assms(1) by (simp only: bits_ok_def power_increasing_iff one_less_numeral_iff semiring_norm)
  then have j: "j < 2 ^ 31" using assms(5) by linarith
  show e: "index_of conf (target_code conf x q j) = word_of_int j"
    using j assms(4) by (simp add: index_of_def T)
  show "sint (index_of conf (target_code conf x q j)) = j"
    using j assms(4) unfolding e by (simp add: sint_word_ariths(8) signed_of_int signed_take_bit_int_eq_self)
qed

lemma skipped_code:
  assumes "bits_ok conf p" "0 \<le> q" "q < 2 ^ p" "0 \<le> j" "j < 2 ^ target_index_bits conf"
  shows "skipped conf (target_code conf x q j) \<longleftrightarrow> target_code conf x q j \<noteq> 0
    \<and> \<not> (scanned_port conf q \<and> scanned_index conf j)"
  using port_of_code(2) [OF assms] index_of_code(2) [OF assms]
  by (auto simp: skipped_def scanned_port_def scanned_index_def PMAP_SHARD_DONE_def)

lemma written_code:
  assumes "bits_ok conf p" "0 \<le> x" "x < 2 ^ max_probe_len conf" "0 \<le> q" "q < 2 ^ p"
    "0 \<le> j" "j < 2 ^ target_index_bits conf"
  shows "write_target conf (target_code conf x q j)
    = Inr (prefix_bytes conf x, target_port_list conf (word_of_int q), word_of_int j)"
proof -
  note T = target_code_parts [OF assms(1,4-7), of x]
  note PI = port_of_code(1) [OF assms(1,4-7)] index_of_code(1) [OF assms(1,4-7)]
  have b: "max_probe_len conf \<le> 8 * ipv46_bytes conf" using assms(1) by (simp add: bits_ok_def)
  have "0 \<le> q * 2 ^ target_index_bits conf" using assms(4) by simp
  then have "target_ok conf (target_code conf x q j)"
    unfolding target_ok_def T using assms(2,3,6) by (simp add: target_code_def)
  then obtain bs where bs: "write_target conf (target_code conf x q j)
      = Inr (bs, target_port_list conf (word_of_int q), word_of_int j)"
    "length bs = ipv46_bytes conf" "int (be_value bs) = x * 2 ^ (8 * ipv46_bytes conf - max_probe_len conf)"
    using write_target_ok [OF _ b, of "target_code conf x q j"] PI T(1) by metis
  moreover have "bs = prefix_bytes conf x"
    using prefix_bytes_value [OF assms(2,3) b] bs(2,3) by (intro be_value_inj) simp_all
  ultimately show ?thesis by simp
qed

text \<open>Every target number has a code.\<close>

lemma target_code_surj:
  assumes "bits_ok conf p" "0 \<le> v"
  obtains x q j where "v = target_code conf x q j" "x = v div 2 ^ max_port_index_len conf"
    "0 \<le> q" "q < 2 ^ p" "0 \<le> j" "j < 2 ^ target_index_bits conf"
proof -
  let ?i = "target_index_bits conf" and ?n = "max_port_index_len conf"
  let ?r = "v mod 2 ^ ?n"
  have n: "(2::int) ^ ?n = 2 ^ p * 2 ^ ?i" using assms(1) by (simp add: bits_ok_def power_add)
  have "?r < 2 ^ p * 2 ^ ?i" unfolding n [symmetric] by simp
  moreover have "?r div 2 ^ ?i * 2 ^ ?i \<le> ?r" by (simp add: minus_mod_eq_div_mult [symmetric])
  ultimately have "?r div 2 ^ ?i * 2 ^ ?i < 2 ^ p * 2 ^ ?i" by linarith
  then have "?r div 2 ^ ?i < 2 ^ p" by (rule mult_right_less_imp_less) simp
  moreover have "v = target_code conf (v div 2 ^ ?n) (?r div 2 ^ ?i) (?r mod 2 ^ ?i)"
    by (simp only: target_code_def div_mult_mod_eq)
  moreover have "0 \<le> ?r div 2 ^ ?i" "0 \<le> ?r mod 2 ^ ?i" "?r mod 2 ^ ?i < 2 ^ ?i"
    by (simp_all add: pos_imp_zdiv_nonneg_iff)
  ultimately show ?thesis by (intro that) (rule refl | assumption)+
qed

section \<open>Properties\<close>

text \<open>
  C19: The prefix, port and index that a shard writes for the target number of
  an IP \<open>x\<close>, a port number \<open>q\<close> and an index \<open>j\<close> are the bytes of \<open>x\<close> in the top bits of the address,
  the \<open>q\<close>-th listed port and \<open>j\<close>; a number is skipped exactly when its port number or its index is not
  scanned.
\<close>

theorem shard_target_encoding:
  assumes "bits_ok conf p" "0 \<le> x" "x < 2 ^ max_probe_len conf" "0 \<le> q" "q < 2 ^ p"
    "0 \<le> j" "j < 2 ^ target_index_bits conf"
  shows "\<exists>bs. write_target conf (target_code conf x q j)
      = Inr (bs, target_port_list conf (word_of_int q), word_of_int j)
    \<and> length bs = ipv46_bytes conf
    \<and> int (be_value bs) = x * 2 ^ (8 * ipv46_bytes conf - max_probe_len conf)
    \<and> (skipped conf (target_code conf x q j) \<longleftrightarrow> target_code conf x q j \<noteq> 0
         \<and> \<not> (scanned_port conf q \<and> scanned_index conf j))"
proof -
  have "max_probe_len conf \<le> 8 * ipv46_bytes conf" using assms(1) by (simp add: bits_ok_def)
  then show ?thesis
    using written_code [OF assms] skipped_code [OF assms(1,4-7)] prefix_bytes_value [OF assms(2,3)] by blast
qed

text \<open>Two ports out of four, no index, 24-bit prefixes of IPv4.\<close>

definition ex_conf :: scan_conf where
  "ex_conf = \<lparr>send_max_index = 1000, max_probe_len = 24, ipv46_bytes = 4, max_port_index_len = 2,
     target_index_bits = 0, target_port_num = 3, target_index_num = 0,
     target_port_list = (\<lambda>q. if q = 0 then 80 else if q = 1 then 443 else if q = 2 then 22 else 0),
     list_of_ips_readable = True\<rparr>"

theorem shard_target_encoding_witness:
  "\<exists>bs. write_target ex_conf (0x0A0B0C * 4 + 2) = Inr (bs, 22, 0) \<and> int (be_value bs) = 0x0A0B0C00
    \<and> \<not> skipped ex_conf (0x0A0B0C * 4 + 2)"
proof -
  have "bits_ok ex_conf 2" by (simp add: bits_ok_def ex_conf_def)
  then have "\<exists>bs. write_target ex_conf (target_code ex_conf 0x0A0B0C 2 0)
      = Inr (bs, target_port_list ex_conf (word_of_int 2), word_of_int 0)
    \<and> length bs = ipv46_bytes ex_conf
    \<and> int (be_value bs) = 0x0A0B0C * 2 ^ (8 * ipv46_bytes ex_conf - max_probe_len ex_conf)
    \<and> (skipped ex_conf (target_code ex_conf 0x0A0B0C 2 0) \<longleftrightarrow> target_code ex_conf 0x0A0B0C 2 0 \<noteq> 0
         \<and> \<not> (scanned_port ex_conf 2 \<and> scanned_index ex_conf 0))"
    by (rule shard_target_encoding) (simp_all add: ex_conf_def)
  then show ?thesis
    by (auto simp: target_code_def scanned_port_def scanned_index_def ex_conf_def)
qed

text \<open>The shares of a file of targets.\<close>

definition share_start :: "nat \<Rightarrow> nat \<Rightarrow> nat \<Rightarrow> nat" where
  "share_start n s i = i * (n div s) + min i (n mod s)"

lemma share_start_Suc: "share_start n s (Suc i) = share_start n s i + n div s + (if i < n mod s then 1 else 0)"
  by (auto simp: share_start_def min_def)

lemma share_start_end: "0 < s \<Longrightarrow> share_start n s s = n"
  using mod_less_divisor [of s n] by (simp add: share_start_def min_absorb2)

lemma share_start_mono: "i \<le> j \<Longrightarrow> share_start n s i \<le> share_start n s j"
  unfolding share_start_def by (intro add_mono mult_le_mono) simp_all

lemma unat_u64_less: "unat (x :: u64) < 2 ^ 64"
proof -
  have "unat x < (2 :: nat) ^ LENGTH(64)" by (rule unsigned_less)
  then show ?thesis by simp
qed

lemma share_unat:
  assumes "0 < s" "i < s"
  shows "unat (share n s i) = share_start (unat n) (unat s) (Suc (unat i)) - share_start (unat n) (unat s) (unat i)"
    "unat (i * (n div s) + (if i < n mod s then i else n mod s)) = share_start (unat n) (unat s) (unat i)"
proof -
  have i: "Suc (unat i) \<le> unat s" using assms(2) by (simp add: word_less_nat_alt Suc_leI)
  have s: "0 < unat s" using assms(1) by (simp add: word_less_nat_alt)
  have le: "share_start (unat n) (unat s) (Suc (unat i)) \<le> unat n"
    using share_start_mono [OF i] share_start_end [OF s] by metis
  note U = unat_u64_less [of n]
  have d: "unat (n div s) = unat n div unat s" "unat (n mod s) = unat n mod unat s"
    "i < n mod s \<longleftrightarrow> unat i < unat n mod unat s"
    by (simp_all only: unat_div unat_mod word_less_nat_alt)
  have "unat n div unat s + (if unat i < unat n mod unat s then 1 else 0) < 2 ^ 64"
    using le U by (simp add: share_start_Suc split: if_splits)
  then show "unat (share n s i) = share_start (unat n) (unat s) (Suc (unat i)) - share_start (unat n) (unat s) (unat i)"
    by (cases "i < n mod s") (simp_all add: share_def share_start_Suc unat_word_ariths(1) d)
  have "unat i * (unat n div unat s) + min (unat i) (unat n mod unat s) < 2 ^ 64"
    using le U by (simp add: share_start_def share_start_Suc split: if_splits)
  then show "unat (i * (n div s) + (if i < n mod s then i else n mod s)) = share_start (unat n) (unat s) (unat i)"
    by (cases "i < n mod s") (simp_all add: share_start_def unat_word_ariths(1,2) d mod_add_right_eq min_absorb1 min_absorb2)
qed

text \<open>
  C20: The lines of a target file are dealt out in consecutive blocks: the block of
  subshard \<open>i\<close> starts where that of \<open>i - 1\<close> ends, the first at line 0 and the last ending at the last
  line, and the sizes differ by at most one line; no 64-bit computation wraps.
\<close>

theorem file_shares_tile:
  assumes "0 < n" "0 < s" "list_of_ips_readable conf"
  shows "\<exists>start. start 0 = 0 \<and> start (unat s) = unat n
    \<and> (\<forall>i < s. \<exists>f'. init_file_params conf n s i f = Inr f'
          \<and> unat (file_first f') = start (unat i) \<and> unat (file_last f') = start (Suc (unat i))
          \<and> file_current f' = file_first f' \<and> file_last f' = file_first f' + file_total f'
          \<and> unat (file_total f') \<in> {unat n div unat s, unat n div unat s + 1})"
proof (rule exI [of _ "share_start (unat n) (unat s)"], intro conjI allI impI)
  let ?start = "share_start (unat n) (unat s)"
  show "?start 0 = 0" by (simp add: share_start_def)
  have s: "0 < unat s" using assms(2) by (simp add: word_less_nat_alt)
  show "?start (unat s) = unat n" by (rule share_start_end [OF s])
  fix i assume i: "i < s"
  have n: "n \<noteq> 0" using assms(1) by auto
  let ?first = "i * (n div s) + (if i < n mod s then i else n mod s)"
  note S = share_unat [OF assms(2) i, of n]
  have "Suc (unat i) \<le> unat s" using i by (simp add: word_less_nat_alt Suc_leI)
  then have le: "?start (Suc (unat i)) \<le> unat n"
    using share_start_mono share_start_end [OF s] by metis
  have "?start (unat i) \<le> ?start (Suc (unat i))" by (rule share_start_mono) simp
  then have last: "unat (?first + share n s i) = ?start (Suc (unat i))"
    using S le unat_u64_less [of n] by (simp only: unat_word_ariths) simp
  have tot: "unat (share n s i) \<in> {unat n div unat s, unat n div unat s + 1}"
    unfolding S(1) by (simp add: share_start_Suc)
  let ?f = "f\<lparr>file_first := ?first, file_current := ?first, file_total := share n s i,
     file_last := ?first + share n s i, file_fp := Some 0,
     port_current := 0, port_total := word_of_int (target_port_num conf),
     index_current := 0, index_total := word_of_int (target_index_num conf)\<rparr>"
  show "\<exists>f'. init_file_params conf n s i f = Inr f'
          \<and> unat (file_first f') = ?start (unat i) \<and> unat (file_last f') = ?start (Suc (unat i))
          \<and> file_current f' = file_first f' \<and> file_last f' = file_first f' + file_total f'
          \<and> unat (file_total f') \<in> {unat n div unat s, unat n div unat s + 1}"
  proof (intro exI [of _ ?f] conjI)
    show "init_file_params conf n s i f = Inr ?f"
      using n assms(3) by (simp add: init_file_params_def Let_def)
  qed (use S(2) last tot in simp_all)
qed

theorem file_shares_tile_witness:
  "\<exists>f'. init_file_params ex_conf 10 4 2 (ip_target_file_params zero_shard) = Inr f'
    \<and> unat (file_total f') \<in> {2, 3}"
  using file_shares_tile [of 10 4 ex_conf "ip_target_file_params zero_shard"]
  by (force simp: ex_conf_def)

text \<open>The first lookup of a subshard that stands at the end marker.\<close>

lemma done_lookup:
  assumes "bl_constraint bl = Some c" "painted c" "paint_value c = uint ADDR_ALLOWED"
    "mask_ok (bl_masks bl)" "current sh = PMAP_SHARD_DONE"
  shows "shard_get_current_ipvx_port_index bl sh = (if 1 < length (radix c)
    then Inr (radix c ! 1 OR (radix_size (bl_masks bl) - 1), bl) else Inl Out_of_bounds)"
proof -
  have rs: "0 < radix_size (bl_masks bl)" by (rule radix_size_pos [OF assms(4)])
  have "(-1) div radix_size (bl_masks bl) = -1" "(-1) mod radix_size (bl_masks bl) = radix_size (bl_masks bl) - 1"
    using rs by (simp_all add: div_eq_minus1 zmod_minus1)
  moreover have "bl\<lparr>bl_constraint := Some c\<rparr> = bl" using assms(1) by simp
  ultimately show ?thesis using assms
    by (simp add: shard_get_current_ipvx_port_index_def PMAP_SHARD_DONE_def the_constraint_def
        blocklist_lookup_index_for_ipvx_port_index_def constraint_lookup_index_for_ipvx_ui_def
        constraint_lookup_index_for_ipvx_def mpz_get_ui_def)
qed

text \<open>
  When the lists are read and no element of a subshard stands for one of the
  targets they allow, \<open>shard_init\<close> returns the subshard at its end marker. Asked for its first target,
  it does not say so: it looks up the index -1, for which the lookup gives the second entry of the radix
  array with all the bits below the radix set (or reads past an array of one entry).
\<close>

lemma shard_empty_lookup:
  assumes "fresh st0" "parses_zero net"
    "blocklist_init net st0 af bf ae be ign il pl flag xl = Inr (ret, bl)"
    "blocklist_count_allowed_ip_port_index bl = Inr (send_max_index conf)"
    "cycle_ok cyc" "shard_idx < num_shards" "thread_idx < num_threads"
    "s = sub_count num_shards num_threads" "i = sub_index shard_idx thread_idx num_threads" "int s < cycle_order cyc"
    "\<forall>k < shard_len cyc s i. send_max_index conf < shard_elem cyc s i k"
  shows "\<exists>sh c. shard_init conf bl zero_shard shard_idx num_shards thread_idx num_threads 0 0 0 cyc = Some (Inr (sh, bl))
    \<and> current sh = PMAP_SHARD_DONE \<and> bl_constraint bl = Some c
    \<and> shard_get_current_ipvx_port_index bl sh = (if 1 < length (radix c)
        then Inr (radix c ! 1 OR (radix_size (bl_masks bl) - 1), bl) else Inl Out_of_bounds)"
proof -
  note I = blocklist_init_inv [OF assms(3,1,2)]
  then obtain c where c: "bl_constraint bl = Some c" "painted c" "paint_value c = uint ADDR_ALLOWED" by blast
  have inv: "bl_inv bl" using I by simp
  then have m: "mask_ok (bl_masks bl)" using c(1) by (auto simp: bl_inv_def con_inv_def)
  obtain t where t: "bl_ready bl (send_max_index conf) t"
    using blocklist_ready [OF inv c assms(4)] by blast
  have none: "valid_from (send_max_index conf) cyc s i 0 = []"
    using assms(11) by (auto simp: valid_from_def filter_empty_conv not_le)
  obtain sh where "shard_init conf bl zero_shard shard_idx num_shards thread_idx num_threads 0 0 0 cyc = Some (Inr (sh, bl))"
    "current sh = PMAP_SHARD_DONE"
    using shard_init_spec [OF assms(5) t assms(6,7) assms(10) [unfolded assms(8)]] none
    unfolding assms(8,9) by auto
  then show ?thesis using done_lookup [OF c m] c(1) by blast
qed

text \<open>
  One prefix is allowed, 10.0.0.0/8, and its target is the element 1 of the group of 17. The first of two
  threads has it, the second has nothing.
\<close>

definition ex_cycle :: cycle where
  "ex_cycle = \<lparr>cycle_group = \<lparr>prime = 17, known_primroot = 3, prime_factors = [2], num_prime_factors = 1\<rparr>,
     generator = 3, cycle_order = 16, cycle_offset = 0\<rparr>"

definition ex_one_conf :: scan_conf where
  "ex_one_conf = ex_conf\<lparr>send_max_index := 1\<rparr>"

lemma shard_empty_lookup_example:
  "\<exists>ret bl sh c. blocklist_init ex_net initial_blocklist None None (Some (map cidr_text ex_allow)) (Some (map cidr_text []))
      False 8 0 4 0 = Inr (ret, bl)
    \<and> shard_init ex_one_conf bl zero_shard 0 1 1 2 0 0 0 ex_cycle = Some (Inr (sh, bl)) \<and> current sh = PMAP_SHARD_DONE
    \<and> bl_constraint bl = Some c
    \<and> shard_get_current_ipvx_port_index bl sh = (if 1 < length (radix c)
        then Inr (radix c ! 1 OR (radix_size (bl_masks bl) - 1), bl) else Inl Out_of_bounds)"
proof -
  have cidr: "\<forall>e \<in> set (ex_allow @ []). cidr_ok ex_net 4 8 e"
    by (simp add: ex_allow_def cidr_ok_def ex_net_def flag_family_def ip_bytes_of_def pton4_def digit_value_def)
  have cover: "in_cidr 4 8 e x \<longleftrightarrow> x = 10" if "e \<in> set ex_allow" "0 \<le> x" "x < 256" for e x
    using that by (auto simp: ex_allow_def in_cidr_def ip_bytes_of_def covers_def be_value_def)
  obtain ret bl where r: "blocklist_init ex_net initial_blocklist None None (Some (map cidr_text ex_allow))
      (Some (map cidr_text [])) False 8 0 4 0 = Inr (ret, bl)"
    "\<And>x. x \<in> {0 ..< 2 ^ 8} \<Longrightarrow> blocklist_is_allowed_ipvx bl x = Inr (x \<noteq> 0
         \<and> (ex_allow = [] \<or> (\<exists>e \<in> set ex_allow. in_cidr 4 8 e x)))"
    using blocklist_init_literal [OF fresh_initial ex_net_zero _ _ _ _ _ cidr, of 0 0 False]
    by (auto simp: ip_bytes_of_def)
  note I = blocklist_init_inv [OF r(1) fresh_initial ex_net_zero]
  then have inv: "bl_inv bl" and L: "lengths_ok bl" by (auto simp: bl_inv_def)
  have "{x \<in> ips bl. ip_allowed bl x} = {10}"
  proof -
    have "ip_allowed bl x \<longleftrightarrow> x = 10" if "x \<in> ips bl" for x
      using allowed_lookup [OF inv that] r(2) [of x] cover [of _ x] that I by (auto simp: ips_def ex_allow_def)
    moreover have "10 \<in> ips bl" using I by (simp add: ips_def)
    ultimately show ?thesis by auto
  qed
  then have n: "blocklist_count_allowed_ip_port_index bl = Inr (send_max_index ex_one_conf)"
    using count_of_card [OF inv, of 1] I L
    by (simp add: blocklist_count_allowed_ip_port_index_def ADDR_ALLOWED_def lengths_ok_def ex_one_conf_def)
  have cyc: "cycle_ok ex_cycle"
    using group_ok_0 by (simp add: cycle_ok_def ex_cycle_def group_ok_def)
  have sub: "sub_count 1 2 = 2" "sub_index 0 1 2 = 1" by (simp_all add: sub_count_def sub_index_def)
  have none: "\<forall>k < shard_len ex_cycle 2 1. send_max_index ex_one_conf < shard_elem ex_cycle 2 1 k"
  proof -
    have "shard_len ex_cycle 2 1 = 8" by (simp add: shard_len_def block_len_def block_begin_def ex_cycle_def)
    moreover have "shard_elem ex_cycle 2 1 k = 3 ^ (8 + k) mod 17" for k
      by (simp add: shard_elem_def block_begin_def cycle_elem_pm pm_def ex_cycle_def)
    moreover have "k \<in> {0, 1, 2, 3, 4, 5, 6, 7}" if "k < 8" for k :: nat using that by auto
    ultimately show ?thesis by (fastforce simp: ex_one_conf_def)
  qed
  have o: "int 2 < cycle_order ex_cycle" "(0 :: u16) < 1" "(1 :: u8) < 2" by (simp_all add: ex_cycle_def)
  show ?thesis
    using shard_empty_lookup [OF fresh_initial ex_net_zero r(1) n cyc o(2,3) sub [symmetric] o(1) none] r(1) by blast
qed

text \<open>A list of 16-bit addresses in which no IP is allowed.\<close>

definition ex_none :: blocklist where
  "ex_none = \<lparr>IPVX_MAX_PREFIX_LEN = 16, PORT_MAX_BITS = 0, IPVX_PORT_MAX_BITS = 16,
     INDEX_MAX_BITS = 0, PORT_INDEX_MAX_BITS = 0, IPVX_PORT_INDEX_MAX_BITS = 16,
     IPV46_FLAG = 4, IP_MAX_PREFIX_LEN = 32, IP_MAX_PREFIX_BYTES = 4,
     bl_masks = \<lparr>max_prefix_len = 16, radix_length = 8, mask_flag = True,
       half_index = 2 ^ 15, max_index = 2 ^ 16, radix_size = 256\<rparr>,
     bl_constraint = Some \<lparr>root = Leaf 0 0, radix = replicate 256 0, radix_len = 0,
       painted = True, paint_value = 1\<rparr>,
     blocklisted_cidrs = empty_ll, allowlisted_cidrs = empty_ll\<rparr>"

lemma empty_shard_target:
  "shard_get_current_ipvx_port_index ex_none zero_shard = Inr (255, ex_none) \<and> \<not> ip_allowed ex_none 255"
proof -
  have "shard_get_current_ipvx_port_index ex_none zero_shard
      = Inr (replicate 256 0 ! 1 OR (radix_size (bl_masks ex_none) - 1), ex_none)"
    using done_lookup [of ex_none "the (bl_constraint ex_none)" zero_shard]
    by (simp add: ex_none_def zero_shard_def PMAP_SHARD_DONE_def ADDR_ALLOWED_def mask_ok_def)
  then show ?thesis by (simp add: ex_none_def ip_allowed_def ip_value_def value_at_def)
qed

end
