(* ===== verification/Ip_Target_File.thy ===== *)
theory Ip_Target_File
  imports Shard
begin

text \<open>
  Targets from a list (\<open>src/ip_target_file.c\<close>): each sender thread reads its share of the lines of a
  file, or of the generated addresses in memory, once for every port and index. A file is its text,
  a stream is a position in it.
\<close>

section \<open>State\<close>

text \<open>
  The text of \<open>xconf.list_of_ips_filename\<close> (\<open>None\<close>: it cannot be opened), \<open>xconf.targets\<close>,
  \<open>xconf.ignore_filelist_error\<close> and the static \<open>ipv46_flag\<close> that \<open>ip_target_file_init\<close> sets.
\<close>

record target_list =
  list_text :: "string option"
  list_targets :: "string list"
  ignore_filelist_error :: bool
  list_flag :: nat

text \<open>\<open>get_file_lines\<close> runs \<open>wc -l\<close>: the number of newlines, and -1 when there is no file.\<close>

definition get_file_lines :: "string option \<Rightarrow> int" where
  "get_file_lines txt = (case txt of None \<Rightarrow> -1 | Some s \<Rightarrow> int (length (filter (\<lambda>c. c = newline) s)))"

definition ip_target_file_init :: "string option option \<Rightarrow> nat \<Rightarrow> target_list \<Rightarrow> (int \<times> target_list) outcome" where
  "ip_target_file_init file ipv46_flag tlist =
     (case file of
        None \<Rightarrow> Inl Log_fatal
      | Some txt \<Rightarrow> Inr (get_file_lines txt, tlist\<lparr>list_text := txt, list_flag := ipv46_flag\<rparr>))"

section \<open>Streams and lines\<close>

text \<open>\<open>fgets (line, n + 1, fp)\<close> at a position: the line and the next position, or \<open>NULL\<close> at the end.\<close>

definition fgets_at :: "nat \<Rightarrow> string \<Rightarrow> nat \<Rightarrow> (string \<times> nat) option" where
  "fgets_at n txt pos =
     (if length txt \<le> pos then None
      else let l = fst (fgets_one n (drop pos txt)) in Some (l, pos + length l))"

lemma fgets_one_append: "fst (fgets_one n s) @ snd (fgets_one n s) = s"
  by (simp add: fgets_one_def Let_def)

lemma fgets_at_advances:
  assumes "fgets_at n txt pos = Some (l, pos')" "0 < n"
  shows "pos < pos' \<and> pos' \<le> length txt"
proof -
  let ?s = "drop pos txt"
  have s: "pos < length txt" "l = fst (fgets_one n ?s)" "pos' = pos + length l"
    using assms(1) by (auto simp: fgets_at_def Let_def split: if_splits)
  have ne: "?s \<noteq> []" using s(1) by simp
  have "length (fst (fgets_one n ?s)) + length (snd (fgets_one n ?s)) = length ?s"
    using fgets_one_append by (metis length_append)
  with fgets_one_shorter [OF ne assms(2)]
  have "0 < length l" "length l \<le> length ?s" unfolding s(2) by linarith+
  then show ?thesis using s(1,3) by simp
qed

text \<open>A line is cut at its newline and at a slash; a C string ends at the first NUL.\<close>

definition cut_line :: "string \<Rightarrow> string" where
  "cut_line l = fst (split_at_char (CHR ''/'') (fst (split_at_char newline (takeWhile (\<lambda>c. c \<noteq> nul) l))))"

section \<open>Where the shares of the threads begin\<close>

definition stream_at :: "nat \<Rightarrow> shard_ip_target_file_params \<Rightarrow> shard_ip_target_file_params" where
  "stream_at pos f = f\<lparr>file_fp := Some pos, file_pos := pos\<rparr>"

text \<open>The buffer of 64 bytes takes 63 characters at a time.\<close>

function set_pos_loop :: "string \<Rightarrow> nat \<Rightarrow> u64 \<Rightarrow> nat \<Rightarrow> shard list \<Rightarrow> shard list" where
  "set_pos_loop txt i count pos shards =
     (let here = (file_first (ip_target_file_params (shards ! i)) = count);
          shards' = (if here then shards[i := (shards ! i)\<lparr>ip_target_file_params :=
                       stream_at pos (ip_target_file_params (shards ! i))\<rparr>] else shards);
          i' = (if here then Suc i else i)
      in if here \<and> length shards \<le> i' then shards'
         else case fgets_at 63 txt pos of
                None \<Rightarrow> shards'
              | Some (_, pos') \<Rightarrow> set_pos_loop txt i' (count + 1) pos' shards')"
  by pat_completeness auto
termination
  by (relation "measure (\<lambda>(txt, i, count, pos, shards). length txt - pos)")
    (auto dest!: fgets_at_advances simp: Let_def)

declare set_pos_loop.simps [simp del]

definition ip_target_set_thread_pos :: "target_list \<Rightarrow> shard list \<Rightarrow> shard list outcome" where
  "ip_target_set_thread_pos tlist shards =
     (case list_text tlist of
        None \<Rightarrow> Inl Log_fatal
      | Some txt \<Rightarrow> if shards = [] then Inl Assert_failed else Inr (set_pos_loop txt 0 0 0 shards))"

fun set_pos_tga :: "nat list \<Rightarrow> nat \<Rightarrow> u64 \<Rightarrow> shard list \<Rightarrow> shard list" where
  "set_pos_tga [] i count shards = shards"
| "set_pos_tga (line_idx # rest) i count shards =
     (if file_first (ip_target_file_params (shards ! i)) = count
      then let shards' = shards[i := (shards ! i)\<lparr>ip_target_file_params :=
                           (ip_target_file_params (shards ! i))\<lparr>file_pos := line_idx\<rparr>\<rparr>]
           in if length shards \<le> Suc i then shards' else set_pos_tga rest (Suc i) (count + 1) shards'
      else set_pos_tga rest i (count + 1) shards)"

definition ip_target_set_thread_pos_tga :: "target_list \<Rightarrow> shard list \<Rightarrow> shard list outcome" where
  "ip_target_set_thread_pos_tga tlist shards =
     (if shards = [] then Inl Assert_failed
      else Inr (set_pos_tga [0 ..< length (list_targets tlist)] 0 0 shards))"

section \<open>Starting the share again\<close>

text \<open>
  The functions return whether they succeed; the state is changed also when they fail. Rewinding
  needs a stream.
\<close>

definition rewind_share :: "shard_ip_target_file_params \<Rightarrow> shard_ip_target_file_params outcome" where
  "rewind_share f =
     (if file_fp f = None then Inl Undefined_value else Inr (f\<lparr>file_fp := Some (file_pos f)\<rparr>))"

definition recover_thread_file_params ::
    "shard_ip_target_file_params \<Rightarrow> (bool \<times> shard_ip_target_file_params) outcome" where
  "recover_thread_file_params f =
     (if port_current f + 1 \<ge> port_total f then Inr (False, f)
      else bind_out (rewind_share (f\<lparr>port_current := port_current f + 1, file_current := file_first f\<rparr>))
             (\<lambda>f'. Inr (True, f')))"

definition recover_thread_file_params_tga ::
    "shard_ip_target_file_params \<Rightarrow> (bool \<times> shard_ip_target_file_params) outcome" where
  "recover_thread_file_params_tga f =
     (if port_current f + 1 \<ge> port_total f then Inr (False, f)
      else Inr (True, f\<lparr>port_current := port_current f + 1, file_current := file_first f\<rparr>))"

definition recover_thread_file_params_next ::
    "shard_ip_target_file_params \<Rightarrow> (bool \<times> shard_ip_target_file_params) outcome" where
  "recover_thread_file_params_next f =
     (if index_current f + 1 \<ge> index_total f
      then recover_thread_file_params (f\<lparr>index_current := 0\<rparr>)
      else bind_out (rewind_share (f\<lparr>index_current := index_current f + 1, file_current := file_first f\<rparr>))
             (\<lambda>f'. Inr (True, f')))"

definition recover_thread_file_params_tga_next ::
    "shard_ip_target_file_params \<Rightarrow> (bool \<times> shard_ip_target_file_params) outcome" where
  "recover_thread_file_params_tga_next f =
     (if index_current f + 1 \<ge> index_total f
      then recover_thread_file_params_tga (f\<lparr>index_current := 0\<rparr>)
      else Inr (True, f\<lparr>index_current := index_current f + 1, file_current := file_first f\<rparr>))"

section \<open>Reading targets\<close>

text \<open>
  Reading a line into the buffer \<open>line\<close>, whose contents are \<open>None\<close> before the first line; at the end of
  the file the share starts again and the buffer keeps its line.
\<close>

definition read_line ::
    "string \<Rightarrow> string option \<Rightarrow> shard_ip_target_file_params \<Rightarrow>
     (bool \<times> string option \<times> shard_ip_target_file_params) outcome" where
  "read_line txt line f =
     (case file_fp f of
        None \<Rightarrow> Inl Assert_failed
      | Some pos \<Rightarrow>
          bind_out (case fgets_at 63 txt pos of
                      None \<Rightarrow> bind_out (recover_thread_file_params f) (\<lambda>(ok, f'). Inr (ok, line, f'))
                    | Some (l, pos') \<Rightarrow> Inr (True, Some l, f\<lparr>file_fp := Some pos'\<rparr>)) (\<lambda>(ok, line', f').
          if \<not> ok then Inr (False, line', f')
          else case line' of
                 None \<Rightarrow> Inl Undefined_value
               | Some l \<Rightarrow> Inr (True, Some (cut_line l), f'\<lparr>file_current := file_current f' + 1\<rparr>)))"

definition read_target ::
    "target_list \<Rightarrow> shard_ip_target_file_params \<Rightarrow> (bool \<times> string \<times> shard_ip_target_file_params) outcome" where
  "read_target tlist f =
     (let idx = unat (file_current f)
      in bind_out (if length (list_targets tlist) \<le> idx then recover_thread_file_params_tga f else Inr (True, f))
           (\<lambda>(ok, f').
         if \<not> ok then Inr (False, [], f')
         else if length (list_targets tlist) \<le> idx \<or> 64 \<le> length (list_targets tlist ! idx) then Inl Out_of_bounds
         else Inr (True, list_targets tlist ! idx, f'\<lparr>file_current := file_current f' + 1\<rparr>)))"

type_synonym get_ip_result = "int \<times> u8 list \<times> shard_ip_target_file_params"

text \<open>
  The part of \<open>ip_target_file_get_ip\<close> from the label \<open>goon\<close>: lines are read until the address in \<open>ip\<close>
  is allowed. A line that does not parse leaves \<open>ip\<close> as it is.
\<close>

partial_function (option) file_goon ::
    "resolver \<Rightarrow> blocklist \<Rightarrow> target_list \<Rightarrow> string \<Rightarrow> string option \<Rightarrow> u8 list \<Rightarrow>
     shard_ip_target_file_params \<Rightarrow> get_ip_result run" where
  "file_goon net bl tlist txt line ip f =
     bind_run (Some (if file_current f \<ge> file_last f then recover_thread_file_params f else Inr (True, f)))
       (\<lambda>(ok, f1).
     if \<not> ok then Some (Inr (EXIT_FAILURE, ip, f1))
     else bind_run (Some (read_line txt line f1)) (\<lambda>(ok, line', f2).
     if \<not> ok then Some (Inr (EXIT_FAILURE, ip, f2))
     else case inet_str2in net (the line') (list_flag tlist) of
            None \<Rightarrow>
              if \<not> ignore_filelist_error tlist then Some (Inl Log_fatal)
              else bind_run (Some (blocklist_is_allowed_ip bl ip)) (\<lambda>allowed.
                   if allowed then Some (Inr (EXIT_SUCCESS, ip, f2))
                   else file_goon net bl tlist txt line' ip f2)
          | Some a \<Rightarrow>
              bind_run (Some (blocklist_is_allowed_ip bl a)) (\<lambda>allowed.
                if allowed then Some (Inr (EXIT_SUCCESS, a, f2))
                else file_goon net bl tlist txt line' a f2)))"

definition ip_target_file_get_ip ::
    "resolver \<Rightarrow> blocklist \<Rightarrow> target_list \<Rightarrow> u8 list \<Rightarrow> shard_ip_target_file_params \<Rightarrow> get_ip_result run" where
  "ip_target_file_get_ip net bl tlist ip f =
     bind_run (Some (if file_current f \<ge> file_last f then recover_thread_file_params_next f else Inr (True, f)))
       (\<lambda>(ok, f1).
     if \<not> ok then Some (Inr (EXIT_FAILURE, ip, f1))
     else case list_text tlist of
            None \<Rightarrow> Some (Inl Assert_failed)
          | Some txt \<Rightarrow>
     bind_run (Some (read_line txt None f1)) (\<lambda>(ok, line, f2).
     if \<not> ok then Some (Inr (EXIT_FAILURE, ip, f2))
     else case inet_str2in net (the line) (list_flag tlist) of
            None \<Rightarrow>
              if \<not> ignore_filelist_error tlist then Some (Inl Log_fatal)
              else file_goon net bl tlist txt line ip f2
          | Some a \<Rightarrow>
              bind_run (Some (blocklist_is_allowed_ip bl a)) (\<lambda>allowed.
                if allowed then Some (Inr (EXIT_SUCCESS, a, f2))
                else file_goon net bl tlist txt line a f2)))"

partial_function (option) list_goon ::
    "resolver \<Rightarrow> blocklist \<Rightarrow> target_list \<Rightarrow> u8 list \<Rightarrow> shard_ip_target_file_params \<Rightarrow> get_ip_result run" where
  "list_goon net bl tlist ip f =
     bind_run (Some (if file_current f \<ge> file_last f then recover_thread_file_params_tga f else Inr (True, f)))
       (\<lambda>(ok, f1).
     if \<not> ok then Some (Inr (EXIT_FAILURE, ip, f1))
     else bind_run (Some (read_target tlist f1)) (\<lambda>(ok, line, f2).
     if \<not> ok then Some (Inr (EXIT_FAILURE, ip, f2))
     else case inet_str2in net line (list_flag tlist) of
            None \<Rightarrow>
              if \<not> ignore_filelist_error tlist then Some (Inl Log_fatal)
              else bind_run (Some (blocklist_is_allowed_ip bl ip)) (\<lambda>allowed.
                   if allowed then Some (Inr (EXIT_SUCCESS, ip, f2)) else list_goon net bl tlist ip f2)
          | Some a \<Rightarrow>
              bind_run (Some (blocklist_is_allowed_ip bl a)) (\<lambda>allowed.
                if allowed then Some (Inr (EXIT_SUCCESS, a, f2)) else list_goon net bl tlist a f2)))"

definition ip_target_list_get_ip ::
    "resolver \<Rightarrow> blocklist \<Rightarrow> target_list \<Rightarrow> u8 list \<Rightarrow> shard_ip_target_file_params \<Rightarrow> get_ip_result run" where
  "ip_target_list_get_ip net bl tlist ip f =
     bind_run (Some (if file_current f \<ge> file_last f then recover_thread_file_params_tga_next f else Inr (True, f)))
       (\<lambda>(ok, f1).
     if \<not> ok then Some (Inr (EXIT_FAILURE, ip, f1))
     else bind_run (Some (read_target tlist f1)) (\<lambda>(ok, line, f2).
     if \<not> ok then Some (Inr (EXIT_FAILURE, ip, f2))
     else case inet_str2in net line (list_flag tlist) of
            None \<Rightarrow>
              if \<not> ignore_filelist_error tlist then Some (Inl Log_fatal) else list_goon net bl tlist ip f2
          | Some a \<Rightarrow>
              bind_run (Some (blocklist_is_allowed_ip bl a)) (\<lambda>allowed.
                if allowed then Some (Inr (EXIT_SUCCESS, a, f2)) else list_goon net bl tlist a f2)))"

text \<open>The port list is an array of 65536 entries.\<close>

definition ip_target_file_get_port :: "scan_conf \<Rightarrow> shard_ip_target_file_params \<Rightarrow> u16 outcome" where
  "ip_target_file_get_port conf f =
     (if port_current f < 65536 then Inr (target_port_list conf (ucast (port_current f)))
      else Inl Out_of_bounds)"

definition ip_target_file_get_index :: "shard_ip_target_file_params \<Rightarrow> u32" where
  "ip_target_file_get_index f = index_current f"

end
