(* ===== verification/Iterator.thy ===== *)
theory Iterator
  imports Ip_Target_File
begin

text \<open>
  The iterator of \<open>src/iterator.c\<close>: it counts the targets, chooses the group, makes the cycle and sets
  up one shard per sender thread; a thread that ends reports to it. The mutex makes a report one
  step.
\<close>

section \<open>State\<close>

record iterator =
  it_cycle :: cycle
  it_num_threads :: u8
  it_thread_shards :: "shard list"
  it_complete :: "u8 list"
  it_curr_threads :: u32

text \<open>The totals of \<open>xsend\<close> that the reports add to, and its flag of the end.\<close>

record send_totals =
  total_packets_sent :: u64
  total_hosts_scanned :: u64
  total_blocklisted :: u64
  total_allowlisted :: u64
  total_sendto_failures :: u64
  total_packets_tried :: u64
  send_complete :: bool
  send_first_scanned :: mpz

text \<open>The settings that \<open>iterator_init\<close> reads beside those of the shards.\<close>

record iter_conf =
  max_probe_port_index_len :: nat
  max_targets :: u64
  max_packets_total :: u64
  list_of_ip_count :: u64
  iid_module_tga :: bool
  list_of_ips_given :: bool

section \<open>Operations\<close>

text \<open>The loop over the threads.\<close>

fun init_shards ::
    "scan_conf \<Rightarrow> iter_conf \<Rightarrow> cycle \<Rightarrow> u8 \<Rightarrow> u16 \<Rightarrow> u16 \<Rightarrow> nat list \<Rightarrow> shard list \<Rightarrow> blocklist \<Rightarrow>
     (shard list \<times> blocklist) run" where
  "init_shards conf ic cyc num_threads shard num_shards [] shards bl = Some (Inr (shards, bl))"
| "init_shards conf ic cyc num_threads shard num_shards (i # is) shards bl =
     bind_run (shard_init conf bl (shards ! i) shard num_shards (of_nat i) num_threads
                 (max_targets ic) (max_packets_total ic) (list_of_ip_count ic) cyc) (\<lambda>(sh, bl').
       init_shards conf ic cyc num_threads shard num_shards is (shards[i := sh]) bl')"

definition max_send_index :: "iter_conf \<Rightarrow> mpz \<Rightarrow> mpz" where
  "max_send_index ic num_addrs_ports_index =
     (let temp = 2 ^ max_probe_port_index_len ic
      in if mpz_gt num_addrs_ports_index temp then temp - 1 else num_addrs_ports_index)"

text \<open>
  The result is the iterator, the settings with \<open>xsend.max_index\<close>, the list and the generator state of
  the random numbers.
\<close>

definition iterator_init ::
    "scan_conf \<Rightarrow> iter_conf \<Rightarrow> target_list \<Rightarrow> blocklist \<Rightarrow> aesrand \<Rightarrow> u8 \<Rightarrow> u16 \<Rightarrow> u16 \<Rightarrow>
     (iterator \<times> scan_conf \<times> blocklist \<times> aesrand) run" where
  "iterator_init conf ic tlist bl aes num_threads shard num_shards =
     bind_run (Some (blocklist_count_allowed_ip_port_index bl)) (\<lambda>num.
     bind_run (Some (get_group num)) (\<lambda>grp.
     let conf = conf\<lparr>send_max_index := max_send_index ic num\<rparr>
     in bind_run (make_cycle grp aes) (\<lambda>(cyc, aes').
        bind_run (init_shards conf ic cyc num_threads shard num_shards [0 ..< unat num_threads]
                    (replicate (unat num_threads) zero_shard) bl) (\<lambda>(shards, bl').
        bind_run (Some (if iid_module_tga ic then ip_target_set_thread_pos_tga tlist shards
                        else if list_of_ips_given ic then ip_target_set_thread_pos tlist shards
                        else Inr shards)) (\<lambda>shards'.
          Some (Inr (\<lparr>it_cycle = cyc, it_num_threads = num_threads, it_thread_shards = shards',
                       it_complete = replicate (unat num_threads) 0,
                       it_curr_threads = ucast num_threads\<rparr>, conf, bl', aes')))))))"

text \<open>The loop \<open>for (i = 0; done \<and> i < num_threads; i++) done = done \<and> complete[i]\<close>.\<close>

definition all_complete :: "u8 list \<Rightarrow> bool" where
  "all_complete flags \<longleftrightarrow> list_all (\<lambda>c. c \<noteq> 0) flags"

definition shard_complete_cbi :: "u8 \<Rightarrow> iterator \<Rightarrow> send_totals \<Rightarrow> (iterator \<times> send_totals) outcome" where
  "shard_complete_cbi thread it xs =
     (if \<not> thread < it_num_threads it then Inl Assert_failed
      else let it' = it\<lparr>it_complete := (it_complete it)[unat thread := 1],
                       it_curr_threads := it_curr_threads it - 1\<rparr>;
               s = sh_state (it_thread_shards it ! unat thread);
               xs1 = xs\<lparr>total_packets_sent := total_packets_sent xs + packets_sent s,
                       total_hosts_scanned := total_hosts_scanned xs + hosts_scanned s,
                       total_blocklisted := total_blocklisted xs + hosts_blocklisted s,
                       total_allowlisted := total_allowlisted xs + hosts_allowlisted s,
                       total_sendto_failures := total_sendto_failures xs + packets_failed s,
                       total_packets_tried := total_packets_tried xs + packets_tried s\<rparr>
           in Inr (it', if all_complete (it_complete it')
                        then xs1\<lparr>send_complete := True,
                               send_first_scanned := first_scanned (sh_state (it_thread_shards it ! 0))\<rparr>
                        else xs1))"

text \<open>The sums over the shards; that of the failures is kept in 32 bits.\<close>

definition sum_shards :: "(shard \<Rightarrow> 'a::len word) \<Rightarrow> iterator \<Rightarrow> 'a word" where
  "sum_shards field it = fold (\<lambda>s acc. acc + field s) (it_thread_shards it) 0"

definition iterator_get_scanned :: "iterator \<Rightarrow> u64" where
  "iterator_get_scanned = sum_shards (\<lambda>s. hosts_scanned (sh_state s))"

definition iterator_get_sent :: "iterator \<Rightarrow> u64" where
  "iterator_get_sent = sum_shards (\<lambda>s. packets_sent (sh_state s))"

definition iterator_get_iterations :: "iterator \<Rightarrow> u64" where
  "iterator_get_iterations = sum_shards iterations"

definition iterator_get_fail :: "iterator \<Rightarrow> u64" where
  "iterator_get_fail it = ucast (sum_shards (\<lambda>s. ucast (packets_failed (sh_state s)) :: u32) it)"

definition iterator_get_tried :: "iterator \<Rightarrow> u64" where
  "iterator_get_tried = sum_shards (\<lambda>s. packets_tried (sh_state s))"

definition get_shard :: "iterator \<Rightarrow> u8 \<Rightarrow> shard outcome" where
  "get_shard it thread =
     (if thread < it_num_threads it then Inr (it_thread_shards it ! unat thread) else Inl Assert_failed)"

definition get_num_threads :: "iterator \<Rightarrow> u8" where
  "get_num_threads = it_num_threads"

definition iterator_get_curr_send_threads :: "iterator \<Rightarrow> u32" where
  "iterator_get_curr_send_threads = it_curr_threads"

section \<open>The reports of the threads\<close>

text \<open>
  What happens after the start: a thread that has not reported changes its own shard, or reports.
  The set holds the threads that have reported.
\<close>

inductive reported :: "iterator \<Rightarrow> send_totals \<Rightarrow> u8 set \<Rightarrow> iterator \<Rightarrow> send_totals \<Rightarrow> bool" for it0 xs0 where
  start: "reported it0 xs0 {} it0 xs0"
| work: "reported it0 xs0 T it xs \<Longrightarrow> thread < it_num_threads it \<Longrightarrow> thread \<notin> T \<Longrightarrow>
    reported it0 xs0 T (it\<lparr>it_thread_shards := (it_thread_shards it)[unat thread := s]\<rparr>) xs"
| report: "reported it0 xs0 T it xs \<Longrightarrow> thread \<notin> T \<Longrightarrow>
    shard_complete_cbi thread it xs = Inr (it', xs') \<Longrightarrow> reported it0 xs0 (insert thread T) it' xs'"

inductive_cases reported_emptyE: "reported it0 xs0 {} it xs"

definition started :: "u8 \<Rightarrow> iterator \<Rightarrow> bool" where
  "started n it \<longleftrightarrow> it_num_threads it = n \<and> length (it_thread_shards it) = unat n
     \<and> it_complete it = replicate (unat n) 0 \<and> it_curr_threads it = ucast n"

definition zero_totals :: send_totals where
  "zero_totals = \<lparr>total_packets_sent = 0, total_hosts_scanned = 0, total_blocklisted = 0,
     total_allowlisted = 0, total_sendto_failures = 0, total_packets_tried = 0,
     send_complete = False, send_first_scanned = 0\<rparr>"

text \<open>The sum of a counter over the threads that have reported.\<close>

definition sum_over :: "(shard \<Rightarrow> u64) \<Rightarrow> u8 set \<Rightarrow> iterator \<Rightarrow> u64" where
  "sum_over field T it = (\<Sum>thread \<in> T. field (it_thread_shards it ! unat thread))"

definition threads :: "u8 \<Rightarrow> u8 set" where
  "threads n = {thread. thread < n}"

lemma finite_u8_set [simp]: "finite (T :: u8 set)"
  by (rule finite_subset [OF subset_UNIV]) simp

lemma sum_over_insert:
  assumes "thread \<notin> T"
  shows "sum_over field (insert thread T) it = sum_over field T it + field (it_thread_shards it ! unat thread)"
  using assms by (simp add: sum_over_def add.commute)

lemma sum_over_work:
  assumes "thread \<notin> T"
  shows "sum_over field T (it\<lparr>it_thread_shards := (it_thread_shards it)[unat thread := s]\<rparr>) = sum_over field T it"
  unfolding sum_over_def
proof (rule sum.cong)
  fix t assume "t \<in> T"
  then have "unat t \<noteq> unat thread" using assms word_unat_eq_iff by metis
  then show "field (it_thread_shards (it\<lparr>it_thread_shards := (it_thread_shards it)[unat thread := s]\<rparr>) ! unat t)
      = field (it_thread_shards it ! unat t)" by simp
qed simp

lemma fold_add_eq: "fold (\<lambda>s acc. acc + f s) xs (a :: 'a::comm_monoid_add) = a + (\<Sum>s\<leftarrow>xs. f s)"
  by (induction xs arbitrary: a) (simp_all add: add.assoc)

lemma threads_unat: "unat ` threads n = {0 ..< unat n}"
proof
  show "{0 ..< unat n} \<subseteq> unat ` threads n"
  proof
    fix i assume i: "i \<in> {0 ..< unat n}"
    have "unat n < 2 ^ LENGTH(8)" by (rule unsigned_less)
    then have "unat (of_nat i :: u8) = i" using i by (simp add: unat_of_nat)
    moreover then have "of_nat i \<in> threads n" using i by (simp add: threads_def word_less_nat_alt)
    ultimately show "i \<in> unat ` threads n" by (metis image_eqI)
  qed
qed (auto simp: threads_def word_less_nat_alt)

lemma sum_over_all:
  assumes "length (it_thread_shards it) = unat n"
  shows "sum_over field (threads n) it = sum_shards field it"
proof -
  have "inj_on unat (threads n)" by (simp add: inj_on_def word_unat_eq_iff)
  then have "sum_over field (threads n) it = (\<Sum>i \<in> {0 ..< unat n}. field (it_thread_shards it ! i))"
    unfolding sum_over_def threads_unat [symmetric] by (simp add: sum.reindex)
  also have "\<dots> = (\<Sum>s\<leftarrow>it_thread_shards it. field s)"
    using assms by (simp add: sum_list_sum_nth)
  finally show ?thesis by (simp add: sum_shards_def fold_add_eq)
qed

text \<open>The invariant of the reports.\<close>

lemma reported_inv:
  assumes "reported it0 zero_totals T it xs" "started n it0"
  shows "T \<subseteq> threads n \<and> it_num_threads it = n \<and> length (it_thread_shards it) = unat n
    \<and> length (it_complete it) = unat n
    \<and> (\<forall>t \<in> threads n. it_complete it ! unat t \<noteq> 0 \<longleftrightarrow> t \<in> T)
    \<and> it_curr_threads it = ucast n - of_nat (card T)
    \<and> (T \<noteq> {} \<longrightarrow> (send_complete xs \<longleftrightarrow> T = threads n)) \<and> (T = {} \<longrightarrow> \<not> send_complete xs)
    \<and> total_packets_sent xs = sum_over (\<lambda>s. packets_sent (sh_state s)) T it
    \<and> total_hosts_scanned xs = sum_over (\<lambda>s. hosts_scanned (sh_state s)) T it
    \<and> total_blocklisted xs = sum_over (\<lambda>s. hosts_blocklisted (sh_state s)) T it
    \<and> total_allowlisted xs = sum_over (\<lambda>s. hosts_allowlisted (sh_state s)) T it
    \<and> total_sendto_failures xs = sum_over (\<lambda>s. packets_failed (sh_state s)) T it
    \<and> total_packets_tried xs = sum_over (\<lambda>s. packets_tried (sh_state s)) T it"
  using assms
proof (induction rule: reported.induct)
  case start
  then show ?case
    by (auto simp: started_def zero_totals_def sum_over_def threads_def word_less_nat_alt)
next
  case (work T it xs thread s)
  then show ?case by (simp add: sum_over_work)
next
  case (report T it xs thread it' xs')
  note I = report.IH [OF report.prems]
  have thread: "thread < it_num_threads it" "thread \<in> threads n"
    using report.hyps(3) I by (auto simp: shard_complete_cbi_def threads_def split: if_splits)
  then have len: "unat thread < unat n" by (simp add: threads_def word_less_nat_alt)
  let ?flags = "(it_complete it)[unat thread := 1]"
  have flags: "\<forall>t \<in> threads n. ?flags ! unat t \<noteq> 0 \<longleftrightarrow> t \<in> insert thread T"
    using I len by (auto simp: nth_list_update word_unat_eq_iff)
  have all: "all_complete ?flags \<longleftrightarrow> insert thread T = threads n"
  proof -
    have "all_complete ?flags \<longleftrightarrow> (\<forall>i \<in> {0 ..< unat n}. ?flags ! i \<noteq> 0)"
      using I by (auto simp: all_complete_def list_all_length)
    also have "\<dots> \<longleftrightarrow> (\<forall>t \<in> threads n. t \<in> insert thread T)"
      unfolding threads_unat [symmetric] using flags by simp
    finally show ?thesis using I thread(2) by blast
  qed
  have card: "card (insert thread T) = Suc (card T)" using report.hyps(2) by simp
  have "thread \<notin> T" by fact
  then have notall: "T \<noteq> threads n" using thread(2) by blast
  define xs1 where "xs1 = xs\<lparr>total_packets_sent := total_packets_sent xs + packets_sent (sh_state (it_thread_shards it ! unat thread)),
       total_hosts_scanned := total_hosts_scanned xs + hosts_scanned (sh_state (it_thread_shards it ! unat thread)),
       total_blocklisted := total_blocklisted xs + hosts_blocklisted (sh_state (it_thread_shards it ! unat thread)),
       total_allowlisted := total_allowlisted xs + hosts_allowlisted (sh_state (it_thread_shards it ! unat thread)),
       total_sendto_failures := total_sendto_failures xs + packets_failed (sh_state (it_thread_shards it ! unat thread)),
       total_packets_tried := total_packets_tried xs + packets_tried (sh_state (it_thread_shards it ! unat thread))\<rparr>"
  have "shard_complete_cbi thread it xs = Inr (it\<lparr>it_complete := ?flags, it_curr_threads := it_curr_threads it - 1\<rparr>,
      if all_complete ?flags then xs1\<lparr>send_complete := True,
        send_first_scanned := first_scanned (sh_state (it_thread_shards it ! 0))\<rparr> else xs1)"
    using thread(1) by (simp add: shard_complete_cbi_def Let_def xs1_def)
  then have it': "it' = it\<lparr>it_complete := ?flags, it_curr_threads := it_curr_threads it - 1\<rparr>"
    and xs': "xs' = (if insert thread T = threads n then xs1\<lparr>send_complete := True,
        send_first_scanned := first_scanned (sh_state (it_thread_shards it ! 0))\<rparr> else xs1)"
    using report.hyps(3) unfolding all by (auto simp only: sum.inject prod.inject)
  have not_yet: "\<not> send_complete xs" using I notall by blast
  have sums: "sum_over field T it' = sum_over field T it" "it_thread_shards it' = it_thread_shards it" for field
    by (simp_all add: it' sum_over_def)
  have "card (insert thread T) = Suc (card T)" by fact
  then have curr: "it_curr_threads it' = ucast n - of_nat (card (insert thread T))"
    using I by (simp add: it')
  have fin: "send_complete xs' \<longleftrightarrow> insert thread T = threads n"
    using not_yet by (simp add: xs' xs1_def)
  have "insert thread T \<subseteq> threads n \<and> it_num_threads it' = n \<and> length (it_thread_shards it') = unat n
    \<and> length (it_complete it') = unat n"
    using I thread(2) by (simp add: it')
  moreover have "\<forall>t \<in> threads n. it_complete it' ! unat t \<noteq> 0 \<longleftrightarrow> t \<in> insert thread T"
    using flags by (simp add: it')
  moreover have "total_packets_sent xs' = sum_over (\<lambda>s. packets_sent (sh_state s)) (insert thread T) it'"
    "total_hosts_scanned xs' = sum_over (\<lambda>s. hosts_scanned (sh_state s)) (insert thread T) it'"
    "total_blocklisted xs' = sum_over (\<lambda>s. hosts_blocklisted (sh_state s)) (insert thread T) it'"
    "total_allowlisted xs' = sum_over (\<lambda>s. hosts_allowlisted (sh_state s)) (insert thread T) it'"
    "total_sendto_failures xs' = sum_over (\<lambda>s. packets_failed (sh_state s)) (insert thread T) it'"
    "total_packets_tried xs' = sum_over (\<lambda>s. packets_tried (sh_state s)) (insert thread T) it'"
    using I by (simp_all add: sum_over_insert [OF report.hyps(2)] sums xs' xs1_def)
  ultimately show ?case using curr fin by blast
qed

section \<open>Properties\<close>

text \<open>
  C21: Whatever the order of the reports and the work in between, the scan is marked
  complete exactly when every thread has reported; then no thread is counted as sending, and the
  totals are the sums over the shards that the getters compute.
\<close>

theorem iterator_reports:
  assumes "reported it0 zero_totals T it xs" "started n it0" "0 < n"
  shows "(send_complete xs \<longleftrightarrow> T = threads n)
    \<and> iterator_get_curr_send_threads it = ucast n - of_nat (card T)
    \<and> (send_complete xs \<longrightarrow> iterator_get_curr_send_threads it = 0
        \<and> total_packets_sent xs = iterator_get_sent it \<and> total_hosts_scanned xs = iterator_get_scanned it
        \<and> total_packets_tried xs = iterator_get_tried it)"
proof -
  note I = reported_inv [OF assms(1,2)]
  have "threads n \<noteq> {}" using assms(3) by (auto simp: threads_def)
  then have c: "send_complete xs \<longleftrightarrow> T = threads n" using I by blast
  have "inj_on unat (threads n)" using word_unat_eq_iff by (blast intro: inj_onI)
  from card_image [OF this] have "card (threads n) = unat n" unfolding threads_unat by simp
  then have "ucast n - of_nat (card (threads n)) = (0 :: u32)" by (simp add: unsigned_ucast_eq)
  moreover have "it_curr_threads it = ucast n - of_nat (card T)" using I by blast
  ultimately have zero: "it_curr_threads it = 0" if "T = threads n" using that by (simp only:)
  have len: "length (it_thread_shards it) = unat n" using I by blast
  show ?thesis
  proof (intro conjI impI)
    assume "send_complete xs"
    then have T: "T = threads n" using c by blast
    show "iterator_get_curr_send_threads it = 0" using zero [OF T] by (simp add: iterator_get_curr_send_threads_def)
    have sums: "total_packets_sent xs = sum_over (\<lambda>s. packets_sent (sh_state s)) T it"
      "total_hosts_scanned xs = sum_over (\<lambda>s. hosts_scanned (sh_state s)) T it"
      "total_packets_tried xs = sum_over (\<lambda>s. packets_tried (sh_state s)) T it" using I by blast+
    show "total_packets_sent xs = iterator_get_sent it" "total_hosts_scanned xs = iterator_get_scanned it"
      "total_packets_tried xs = iterator_get_tried it"
      unfolding sums T iterator_get_sent_def iterator_get_scanned_def iterator_get_tried_def
      by (rule sum_over_all [OF len])+
  next
    show "send_complete xs \<longleftrightarrow> T = threads n" by (rule c)
    have "it_curr_threads it = ucast n - of_nat (card T)" using I by blast
    then show "iterator_get_curr_send_threads it = ucast n - of_nat (card T)"
      by (simp only: iterator_get_curr_send_threads_def)
  qed
qed

text \<open>Two threads; the second one sends and reports, then the first one does.\<close>

definition ex_two :: iterator where
  "ex_two = \<lparr>it_cycle = \<lparr>cycle_group = make_groups ! 0, generator = 3, cycle_order = 16, cycle_offset = 0\<rparr>,
     it_num_threads = 2, it_thread_shards = [zero_shard, zero_shard], it_complete = [0, 0], it_curr_threads = 2\<rparr>"

theorem iterator_reports_witness:
  "\<exists>it xs. reported ex_two zero_totals {1, 0} it xs \<and> send_complete xs \<and> total_packets_sent xs = 5
    \<and> iterator_get_curr_send_threads it = 0"
proof -
  let ?s = "zero_shard\<lparr>sh_state := (sh_state zero_shard)\<lparr>packets_sent := 5\<rparr>\<rparr>"
  let ?it1 = "ex_two\<lparr>it_thread_shards := (it_thread_shards ex_two)[unat (1 :: u8) := ?s]\<rparr>"
  have w: "reported ex_two zero_totals {} ?it1 zero_totals"
    by (rule reported.work [OF reported.start]) (simp_all add: ex_two_def)
  obtain it2 xs2 where r2: "shard_complete_cbi 1 ?it1 zero_totals = Inr (it2, xs2)"
    "it2 = ?it1\<lparr>it_complete := [0, 1], it_curr_threads := 1\<rparr>" "total_packets_sent xs2 = 5"
    by (simp add: shard_complete_cbi_def ex_two_def Let_def all_complete_def zero_totals_def)
  obtain it3 xs3 where r3: "shard_complete_cbi 0 it2 xs2 = Inr (it3, xs3)"
    "it_thread_shards it3 = [zero_shard, ?s]"
    by (simp add: shard_complete_cbi_def ex_two_def Let_def r2(2))
  have "reported ex_two zero_totals {1} it2 xs2" by (rule reported.report [OF w _ r2(1)]) simp
  from reported.report [OF this _ r3(1)] have R: "reported ex_two zero_totals {0, 1} it3 xs3" by simp
  have "replicate 2 0 = [0, 0 :: u8]" by (simp add: numeral_2_eq_2)
  then have st: "started 2 ex_two" by (simp add: started_def ex_two_def)
  have t: "threads 2 = {0, 1}"
  proof -
    have "unat ` threads 2 = unat ` {0, 1 :: u8}" unfolding threads_unat by auto
    moreover have "inj_on unat (threads 2 \<union> {0, 1})" using word_unat_eq_iff by (blast intro: inj_onI)
    ultimately show ?thesis by (metis inj_on_image_eq_iff inf_sup_ord(3,4))
  qed
  have "send_complete xs3 \<and> iterator_get_curr_send_threads it3 = 0 \<and> total_packets_sent xs3 = iterator_get_sent it3"
    using iterator_reports [OF R st] t by simp
  moreover have "iterator_get_sent it3 = 5"
    by (simp add: iterator_get_sent_def sum_shards_def r3(2) zero_shard_def)
  ultimately show ?thesis using R by (metis insert_commute)
qed

text \<open>
  \<open>iterator_get_fail\<close> returns the number of failed packets modulo \<open>2 ^ 32\<close>,
  whereas \<open>iterator_get_sent\<close> counts modulo \<open>2 ^ 64\<close>.
\<close>

lemma iterator_fail_wraps:
  "uint (iterator_get_fail it) = (\<Sum>s\<leftarrow>it_thread_shards it. uint (packets_failed (sh_state s))) mod 2 ^ 32
   \<and> uint (iterator_get_sent it) = (\<Sum>s\<leftarrow>it_thread_shards it. uint (packets_sent (sh_state s))) mod 2 ^ 64"
proof -
  have s32: "uint (\<Sum>s\<leftarrow>xs. ucast (f s) :: u32) = (\<Sum>s\<leftarrow>xs. uint (f s :: u64)) mod 2 ^ 32" for f and xs :: "shard list"
    by (induction xs) (simp_all add: uint_word_ariths unsigned_ucast_eq take_bit_eq_mod mod_simps)
  have s64: "uint (\<Sum>s\<leftarrow>xs. f s :: u64) = (\<Sum>s\<leftarrow>xs. uint (f s)) mod 2 ^ 64" for f and xs :: "shard list"
    by (induction xs) (simp_all add: uint_word_ariths mod_simps)
  have up: "uint (ucast (w :: u32) :: u64) = uint w" for w
  proof -
    have "uint w < 2 ^ LENGTH(32)" by (rule unsigned_less)
    then show ?thesis by (simp add: unsigned_ucast_eq take_bit_int_eq_self)
  qed
  show ?thesis
    by (simp add: iterator_get_fail_def iterator_get_sent_def sum_shards_def fold_add_eq s32 s64 up)
qed

section \<open>All the shards of a scan\<close>

text \<open>The settings agree with the list.\<close>

definition conf_matches :: "scan_conf \<Rightarrow> blocklist \<Rightarrow> bool" where
  "conf_matches conf bl \<longleftrightarrow> max_port_index_len conf = PORT_INDEX_MAX_BITS bl
     \<and> target_index_bits conf = INDEX_MAX_BITS bl \<and> max_probe_len conf = IPVX_MAX_PREFIX_LEN bl
     \<and> ipv46_bytes conf = IP_MAX_PREFIX_BYTES bl \<and> PORT_MAX_BITS bl \<le> 16 \<and> INDEX_MAX_BITS bl \<le> 31"

lemma conf_bits_ok:
  assumes "conf_matches conf bl" "lengths_ok bl"
  shows "bits_ok conf (PORT_MAX_BITS bl)"
  using assms by (auto simp: conf_matches_def lengths_ok_def bits_ok_def)

text \<open>What a scan sends, for every allowed IP, scanned port number and scanned index.\<close>

definition port_numbers :: "scan_conf \<Rightarrow> blocklist \<Rightarrow> mpz set" where
  "port_numbers conf bl = {q. 0 \<le> q \<and> q < 2 ^ PORT_MAX_BITS bl \<and> scanned_port conf q}"

definition index_numbers :: "scan_conf \<Rightarrow> blocklist \<Rightarrow> mpz set" where
  "index_numbers conf bl = {j. 0 \<le> j \<and> j < 2 ^ INDEX_MAX_BITS bl \<and> scanned_index conf j}"

definition scan_set :: "scan_conf \<Rightarrow> blocklist \<Rightarrow> target set" where
  "scan_set conf bl = {(prefix_bytes conf x, target_port_list conf (word_of_int q), word_of_int j) | x q j.
     x \<in> ips bl \<and> blocklist_is_allowed_ipvx bl x = Inr True
     \<and> q \<in> port_numbers conf bl \<and> j \<in> index_numbers conf bl}"

definition scanned_targets :: "scan_conf \<Rightarrow> blocklist \<Rightarrow> mpz set" where
  "scanned_targets conf bl = {v \<in> allowed_targets bl. \<not> skipped conf v}"

lemma scanned_target_code:
  assumes "bl_inv bl" "conf_matches conf bl" "\<not> ip_allowed bl 0"
  shows "v \<in> scanned_targets conf bl \<longleftrightarrow> (\<exists>x q j. v = target_code conf x q j \<and> x \<in> ips bl \<and> ip_allowed bl x
    \<and> q \<in> port_numbers conf bl \<and> j \<in> index_numbers conf bl)"
proof -
  have L: "lengths_ok bl" using assms(1) by (simp add: bl_inv_def)
  note B = conf_bits_ok [OF assms(2) L]
  obtain c where c: "max_prefix_len (bl_masks bl) = IPVX_MAX_PREFIX_LEN bl + PORT_INDEX_MAX_BITS bl"
    by (rule bl_invE [OF assms(1)]) (rule that)
  have n: "max_port_index_len conf = PORT_INDEX_MAX_BITS bl" "target_index_bits conf = INDEX_MAX_BITS bl"
    using assms(2) by (simp_all add: conf_matches_def)
  show ?thesis
  proof
    assume v: "v \<in> scanned_targets conf bl"
    then have v0: "0 \<le> v" "v < 2 ^ (IPVX_MAX_PREFIX_LEN bl + PORT_INDEX_MAX_BITS bl)"
      "ip_allowed bl (v div 2 ^ PORT_INDEX_MAX_BITS bl)" "\<not> skipped conf v"
      by (auto simp: scanned_targets_def allowed_targets_def addresses_def c)
    obtain x q j where t: "v = target_code conf x q j" "x = v div 2 ^ max_port_index_len conf"
      "0 \<le> q" "q < 2 ^ PORT_MAX_BITS bl" "0 \<le> j" "j < 2 ^ target_index_bits conf"
      by (rule target_code_surj [OF B v0(1)]) (rule that)
    have x: "x \<in> ips bl" "ip_allowed bl x"
    proof -
      have "v < 2 ^ IPVX_MAX_PREFIX_LEN bl * 2 ^ PORT_INDEX_MAX_BITS bl" using v0(2) by (simp add: power_add)
      moreover have "x * 2 ^ PORT_INDEX_MAX_BITS bl \<le> v"
        by (simp add: t(2) n minus_mod_eq_div_mult [symmetric])
      ultimately have "x * 2 ^ PORT_INDEX_MAX_BITS bl < 2 ^ IPVX_MAX_PREFIX_LEN bl * 2 ^ PORT_INDEX_MAX_BITS bl"
        by linarith
      then have "x < 2 ^ IPVX_MAX_PREFIX_LEN bl" by (rule mult_right_less_imp_less) simp
      moreover have "0 \<le> x" using v0(1) by (simp add: t(2) pos_imp_zdiv_nonneg_iff)
      ultimately show "x \<in> ips bl" by (simp add: ips_def)
      show "ip_allowed bl x" using v0(3) by (simp add: t(2) n)
    qed
    have "x \<noteq> 0" using x(2) assms(3) by auto
    then have "v \<noteq> 0" using t(2) by auto
    then have "scanned_port conf q \<and> scanned_index conf j"
      using skipped_code [OF B t(3-6), of x] v0(4) t(1) by simp
    then show "\<exists>x q j. v = target_code conf x q j \<and> x \<in> ips bl \<and> ip_allowed bl x
        \<and> q \<in> port_numbers conf bl \<and> j \<in> index_numbers conf bl"
      using t x n by (auto simp: port_numbers_def index_numbers_def)
  next
    assume "\<exists>x q j. v = target_code conf x q j \<and> x \<in> ips bl \<and> ip_allowed bl x
        \<and> q \<in> port_numbers conf bl \<and> j \<in> index_numbers conf bl"
    then obtain x q j where t: "v = target_code conf x q j" "x \<in> ips bl" "ip_allowed bl x"
      "0 \<le> q" "q < 2 ^ PORT_MAX_BITS bl" "scanned_port conf q"
      "0 \<le> j" "j < 2 ^ target_index_bits conf" "scanned_index conf j"
      using n by (auto simp: port_numbers_def index_numbers_def)
    note P = target_code_parts [OF B t(4,5,7,8), of x]
    have x: "0 \<le> x" "x < 2 ^ IPVX_MAX_PREFIX_LEN bl" using t(2) by (simp_all add: ips_def)
    have "v = x * 2 ^ PORT_INDEX_MAX_BITS bl + v mod 2 ^ PORT_INDEX_MAX_BITS bl"
      using P(1) n t(1) by (metis div_mult_mod_eq)
    moreover have "0 \<le> v mod 2 ^ PORT_INDEX_MAX_BITS bl" "v mod 2 ^ PORT_INDEX_MAX_BITS bl < 2 ^ PORT_INDEX_MAX_BITS bl"
      by simp_all
    moreover have "(x + 1) * 2 ^ PORT_INDEX_MAX_BITS bl \<le> 2 ^ IPVX_MAX_PREFIX_LEN bl * 2 ^ PORT_INDEX_MAX_BITS bl"
      using x by (intro mult_right_mono) simp_all
    moreover have "0 \<le> x * 2 ^ PORT_INDEX_MAX_BITS bl" using x(1) by simp
    ultimately have "0 \<le> v" "v < 2 ^ (IPVX_MAX_PREFIX_LEN bl + PORT_INDEX_MAX_BITS bl)"
      by (simp_all only: power_add distrib_right)
    then show "v \<in> scanned_targets conf bl"
      using P(1) t n skipped_code [OF B t(4,5,7,8), of x]
      by (auto simp: scanned_targets_def allowed_targets_def addresses_def c)
  qed
qed

lemma written_scan_set:
  assumes "bl_inv bl" "conf_matches conf bl" "\<not> ip_allowed bl 0"
  shows "written conf ` scanned_targets conf bl = scan_set conf bl"
proof -
  have L: "lengths_ok bl" using assms(1) by (simp add: bl_inv_def)
  note B = conf_bits_ok [OF assms(2) L]
  have w: "written conf (target_code conf x q j) = (prefix_bytes conf x, target_port_list conf (word_of_int q), word_of_int j)"
    if "x \<in> ips bl" "q \<in> port_numbers conf bl" "j \<in> index_numbers conf bl" for x q j
    using that assms(2) written_code [OF B, of x q j]
    by (simp add: written_def ips_def port_numbers_def index_numbers_def conf_matches_def)
  have al: "blocklist_is_allowed_ipvx bl x = Inr True \<longleftrightarrow> ip_allowed bl x" if "x \<in> ips bl" for x
    using allowed_lookup [OF assms(1) that] by simp
  show ?thesis
  proof (intro subset_antisym subsetI)
    fix tg assume "tg \<in> written conf ` scanned_targets conf bl"
    then obtain v where v: "v \<in> scanned_targets conf bl" "tg = written conf v" by blast
    then obtain x q j where t: "v = target_code conf x q j" "x \<in> ips bl" "ip_allowed bl x"
      "q \<in> port_numbers conf bl" "j \<in> index_numbers conf bl"
      using scanned_target_code [OF assms] by blast
    then have "tg = (prefix_bytes conf x, target_port_list conf (word_of_int q), word_of_int j)"
      using v(2) w by simp
    moreover have "blocklist_is_allowed_ipvx bl x = Inr True" using al t(2,3) by blast
    ultimately show "tg \<in> scan_set conf bl" unfolding scan_set_def using t(2,4,5) by blast
  next
    fix tg assume "tg \<in> scan_set conf bl"
    then obtain x q j where t: "tg = (prefix_bytes conf x, target_port_list conf (word_of_int q), word_of_int j)"
      "x \<in> ips bl" "blocklist_is_allowed_ipvx bl x = Inr True"
      "q \<in> port_numbers conf bl" "j \<in> index_numbers conf bl" unfolding scan_set_def by blast
    then have "tg = written conf (target_code conf x q j)" using w by simp
    moreover have "target_code conf x q j \<in> scanned_targets conf bl"
      using t(2-5) al scanned_target_code [OF assms] by blast
    ultimately show "tg \<in> written conf ` scanned_targets conf bl" by blast
  qed
qed

text \<open>Distinct numbers are written differently when the listed ports are distinct.\<close>

definition ports_distinct :: "scan_conf \<Rightarrow> blocklist \<Rightarrow> bool" where
  "ports_distinct conf bl \<longleftrightarrow> inj_on (\<lambda>q. target_port_list conf (word_of_int q)) (port_numbers conf bl)"

lemma written_inj:
  assumes "bl_inv bl" "conf_matches conf bl" "\<not> ip_allowed bl 0" "ports_distinct conf bl"
  shows "inj_on (written conf) (scanned_targets conf bl)"
proof (rule inj_onI)
  fix v v' assume v: "v \<in> scanned_targets conf bl" "v' \<in> scanned_targets conf bl" "written conf v = written conf v'"
  have L: "lengths_ok bl" using assms(1) by (simp add: bl_inv_def)
  note B = conf_bits_ok [OF assms(2) L]
  obtain x q j where t: "v = target_code conf x q j" "x \<in> ips bl"
    "q \<in> port_numbers conf bl" "j \<in> index_numbers conf bl"
    using scanned_target_code [OF assms(1-3)] v(1) by blast
  obtain x' q' j' where t': "v' = target_code conf x' q' j'" "x' \<in> ips bl"
    "q' \<in> port_numbers conf bl" "j' \<in> index_numbers conf bl"
    using scanned_target_code [OF assms(1-3)] v(2) by blast
  have b: "max_probe_len conf \<le> 8 * ipv46_bytes conf" using B by (simp add: bits_ok_def)
  have w: "written conf (target_code conf x q j) = (prefix_bytes conf x, target_port_list conf (word_of_int q), word_of_int j)
      \<and> int (be_value (prefix_bytes conf x)) = x * 2 ^ (8 * ipv46_bytes conf - max_probe_len conf)
      \<and> uint (word_of_int j :: u32) = j"
    if "x \<in> ips bl" "q \<in> port_numbers conf bl" "j \<in> index_numbers conf bl" for x q j
  proof -
    have i: "INDEX_MAX_BITS bl \<le> 31" using assms(2) by (simp add: conf_matches_def)
    have "(2::int) ^ INDEX_MAX_BITS bl \<le> 2 ^ 31" by (rule power_increasing [OF i]) simp
    then have j: "0 \<le> j" "j < 2 ^ 32" using that(3) by (simp_all add: index_numbers_def)
    then have "uint (word_of_int j :: u32) = j" by (simp add: uint_word_of_int)
    moreover have "0 \<le> x" "x < 2 ^ max_probe_len conf" using that(1) assms(2) by (simp_all add: ips_def conf_matches_def)
    moreover have "0 \<le> q" "q < 2 ^ PORT_MAX_BITS bl" "j < 2 ^ target_index_bits conf"
      using that(2,3) assms(2) by (simp_all add: port_numbers_def index_numbers_def conf_matches_def)
    ultimately show ?thesis using written_code [OF B, of x q j] prefix_bytes_value [OF _ _ b, of x] j(1)
      by (simp add: written_def)
  qed
  note W = w [OF t(2-4)] w [OF t'(2-4)]
  have eq: "prefix_bytes conf x = prefix_bytes conf x'" "word_of_int j = (word_of_int j' :: u32)"
    "target_port_list conf (word_of_int q) = target_port_list conf (word_of_int q')"
    using v(3) unfolding t(1) t'(1) conjunct1 [OF W(1)] conjunct1 [OF W(2)] by (simp_all only: prod.inject)
  note bx = conjunct1 [OF conjunct2 [OF W(1)]] and bx' = conjunct1 [OF conjunct2 [OF W(2)]]
  have "x * 2 ^ (8 * ipv46_bytes conf - max_probe_len conf) = x' * 2 ^ (8 * ipv46_bytes conf - max_probe_len conf)"
    unfolding bx [symmetric] bx' [symmetric] eq(1) ..
  then have "x = x'" by simp
  moreover have "uint (word_of_int j :: u32) = uint (word_of_int j' :: u32)" unfolding eq(2) ..
  then have "j = j'"
    unfolding conjunct2 [OF conjunct2 [OF W(1)]] conjunct2 [OF conjunct2 [OF W(2)]] .
  moreover have "q = q'" using inj_onD [OF assms(4) [unfolded ports_distinct_def] eq(3) t(3) t'(3)] .
  ultimately show "v = v'" using t(1) t'(1) by simp
qed

section \<open>The scan of all the shards\<close>

text \<open>The targets that the threads of an iterator take from their shards.\<close>

fun scan_shards :: "scan_conf \<Rightarrow> blocklist \<Rightarrow> shard list \<Rightarrow> target list run" where
  "scan_shards conf bl [] = Some (Inr [])"
| "scan_shards conf bl (sh # shs) =
     bind_run (scan_targets conf bl sh) (\<lambda>a. bind_run (scan_shards conf bl shs) (\<lambda>b. Some (Inr (a @ b))))"

lemma scan_shards_map:
  assumes "\<And>i. i \<in> set is \<Longrightarrow> scan_targets conf bl (sh i) = Some (Inr (f i))"
  shows "scan_shards conf bl (map sh is) = Some (Inr (concat (map f is)))"
  using assms by (induction "is") simp_all

text \<open>The loop of \<open>iterator_init\<close>, when every shard is set up and the list stays as it is.\<close>

lemma init_shards_spec:
  assumes "distinct is" "\<And>i. i \<in> set is \<Longrightarrow> i < length shards \<and> shards ! i = zero_shard"
    "\<And>i. i \<in> set is \<Longrightarrow> shard_init conf bl zero_shard shard num_shards (of_nat i) num_threads
       (max_targets ic) (max_packets_total ic) (list_of_ip_count ic) cyc = Some (Inr (f i, bl))"
  shows "\<exists>shards'. init_shards conf ic cyc num_threads shard num_shards is shards bl = Some (Inr (shards', bl))
    \<and> length shards' = length shards \<and> (\<forall>i \<in> set is. shards' ! i = f i)
    \<and> (\<forall>i. i \<notin> set is \<longrightarrow> shards' ! i = shards ! i)"
  using assms
proof (induction "is" arbitrary: shards)
  case (Cons i "is")
  let ?s = "shards[i := f i]"
  have i: "i < length shards" "shards ! i = zero_shard" "i \<notin> set is" using Cons.prems(1,2) by auto
  have "init_shards conf ic cyc num_threads shard num_shards (i # is) shards bl
      = init_shards conf ic cyc num_threads shard num_shards is ?s bl"
    using Cons.prems(3) [of i] i(2) by simp
  moreover have "\<exists>shards'. init_shards conf ic cyc num_threads shard num_shards is ?s bl = Some (Inr (shards', bl))
      \<and> length shards' = length ?s \<and> (\<forall>j \<in> set is. shards' ! j = f j)
      \<and> (\<forall>j. j \<notin> set is \<longrightarrow> shards' ! j = ?s ! j)"
  proof (rule Cons.IH)
    show "distinct is" using Cons.prems(1) by simp
    fix j assume j: "j \<in> set is"
    then have "j \<noteq> i" using i(3) by auto
    then show "j < length ?s \<and> ?s ! j = zero_shard" using Cons.prems(2) [of j] j by simp
    show "shard_init conf bl zero_shard shard num_shards (of_nat j) num_threads
       (max_targets ic) (max_packets_total ic) (list_of_ip_count ic) cyc = Some (Inr (f j, bl))"
      using Cons.prems(3) [of j] j by simp
  qed
  ultimately obtain shards' where s: "init_shards conf ic cyc num_threads shard num_shards (i # is) shards bl = Some (Inr (shards', bl))"
    "length shards' = length ?s" "\<forall>j \<in> set is. shards' ! j = f j" "\<forall>j. j \<notin> set is \<longrightarrow> shards' ! j = ?s ! j"
    by auto
  show ?case
  proof (intro exI conjI)
    show "\<forall>j \<in> set (i # is). shards' ! j = f j" using s(3,4) i by simp
    show "\<forall>j. j \<notin> set (i # is) \<longrightarrow> shards' ! j = shards ! j" using s(4) by simp
  qed (use s(1,2) in simp_all)
qed simp

lemma concat_blocks:
  "concat (map (\<lambda>k. concat (map (\<lambda>t. g (k * T + t)) [0 ..< T])) [0 ..< N]) = concat (map g [0 ..< N * T])"
proof (induction N)
  case (Suc N)
  have "[0 ..< Suc N * T] = [0 ..< N * T] @ map (\<lambda>t. N * T + t) [0 ..< T]"
  proof -
    have "map (\<lambda>t. t + N * T) [0 ..< T] = [N * T ..< T + N * T]" by (rule map_add_upt)
    then have "[N * T ..< N * T + T] = map (\<lambda>t. N * T + t) [0 ..< T]" by (simp only: add.commute)
    moreover have "[0 ..< N * T + T] = [0 ..< N * T] @ [N * T ..< N * T + T]"
      by (rule upt_add_eq_append) simp
    moreover have "Suc N * T = N * T + T" by simp
    ultimately show ?thesis by (simp only:)
  qed
  with Suc show ?case by (simp add: comp_def)
qed simp

text \<open>A target list in which the scan finds its numbers.\<close>

definition scan_ready :: "scan_conf \<Rightarrow> iter_conf \<Rightarrow> blocklist \<Rightarrow> mpz \<Rightarrow> bool" where
  "scan_ready conf ic bl n \<longleftrightarrow> bl_inv bl \<and> \<not> ip_allowed bl 0
     \<and> (\<exists>c. bl_constraint bl = Some c \<and> painted c \<and> paint_value c = uint ADDR_ALLOWED)
     \<and> conf_matches conf bl \<and> ports_distinct conf bl
     \<and> blocklist_count_allowed_ip_port_index bl = Inr n \<and> n < 2 ^ 52
     \<and> max_probe_port_index_len ic = IPVX_PORT_INDEX_MAX_BITS bl
     \<and> max_targets ic = 0 \<and> max_packets_total ic = 0 \<and> list_of_ip_count ic = 0
     \<and> \<not> iid_module_tga ic \<and> \<not> list_of_ips_given ic"

lemma allowed_targets_finite: "finite (allowed_targets bl)"
  by (rule finite_subset [of _ "addresses (bl_masks bl)"]) (auto simp: allowed_targets_def addresses_def)

lemma scan_ready_parts:
  assumes "scan_ready conf ic bl n"
  obtains t where "bl_ready bl n t" "bij_betw t {0 ..< n} (allowed_targets bl)" "0 \<le> n"
    "max_send_index ic n = n" "scan_ok (conf\<lparr>send_max_index := n\<rparr>) t"
proof -
  obtain c where c: "bl_inv bl" "\<not> ip_allowed bl 0" "bl_constraint bl = Some c" "painted c"
    "paint_value c = uint ADDR_ALLOWED" "blocklist_count_allowed_ip_port_index bl = Inr n"
    "conf_matches conf bl" "max_probe_port_index_len ic = IPVX_PORT_INDEX_MAX_BITS bl"
    using assms unfolding scan_ready_def by blast
  obtain t where t: "bl_ready bl n t" "bij_betw t {0 ..< n} (allowed_targets bl)"
    by (rule blocklist_ready [OF c(1,3-6)]) (rule that)
  have L: "lengths_ok bl" using c(1) by (simp add: bl_inv_def)
  obtain m where m: "m = max_prefix_len (bl_masks bl)"
    "m = IPVX_MAX_PREFIX_LEN bl + PORT_INDEX_MAX_BITS bl" by (rule bl_invE [OF c(1)]) (auto intro: that)
  have n: "n = int (card {x \<in> ips bl. blocklist_is_allowed_ipvx bl x = Inr True}) * 2 ^ PORT_MAX_BITS bl * 2 ^ INDEX_MAX_BITS bl"
    using count_of_card [OF c(1), of 1] c(6) allowed_lookup [OF c(1)] L
    by (auto simp: blocklist_count_allowed_ip_port_index_def ADDR_ALLOWED_def lengths_ok_def power_add
        intro!: arg_cong [of _ _ card])
  then have n0: "0 \<le> n" by simp
  have "card (t ` {0 ..< n}) = card {0 ..< n}"
    using t(2) card_image bij_betw_imp_inj_on by blast
  then have "nat n = card (allowed_targets bl)" using t(2) by (simp add: bij_betw_def)
  also have "\<dots> \<le> card (addresses (bl_masks bl))"
    by (rule card_mono) (auto simp: allowed_targets_def addresses_def)
  finally have "n \<le> 2 ^ m" by (simp add: addresses_def m(1) nat_le_iff)
  moreover have "IPVX_PORT_INDEX_MAX_BITS bl = m" using L by (simp add: lengths_ok_def m(2))
  ultimately have max: "max_send_index ic n = n" using c(8) by (simp add: max_send_index_def)
  have "scan_ok (conf\<lparr>send_max_index := n\<rparr>) t"
    unfolding scan_ok_def
  proof (intro conjI allI impI)
    show "max_probe_len (conf\<lparr>send_max_index := n\<rparr>) \<le> 8 * ipv46_bytes (conf\<lparr>send_max_index := n\<rparr>)"
      using conf_bits_ok [OF c(7) L] by (simp add: bits_ok_def)
    fix index assume "0 \<le> index \<and> index < send_max_index (conf\<lparr>send_max_index := n\<rparr>)"
    then have "t index \<in> allowed_targets bl" using t(2) by (auto simp: bij_betw_def)
    then have a: "0 \<le> t index" "t index < 2 ^ m" "ip_allowed bl (t index div 2 ^ PORT_INDEX_MAX_BITS bl)"
      by (auto simp: allowed_targets_def addresses_def m(1))
    have p: "max_port_index_len conf = PORT_INDEX_MAX_BITS bl" "max_probe_len conf = IPVX_MAX_PREFIX_LEN bl"
      using c(7) by (simp_all add: conf_matches_def)
    have "t index div 2 ^ PORT_INDEX_MAX_BITS bl < 2 ^ IPVX_MAX_PREFIX_LEN bl"
    proof -
      have "t index div 2 ^ PORT_INDEX_MAX_BITS bl * 2 ^ PORT_INDEX_MAX_BITS bl \<le> t index"
        by (simp add: minus_mod_eq_div_mult [symmetric])
      also have "\<dots> < 2 ^ IPVX_MAX_PREFIX_LEN bl * 2 ^ PORT_INDEX_MAX_BITS bl"
        using a(2) by (simp add: m(2) power_add)
      finally show ?thesis by (rule mult_right_less_imp_less) simp
    qed
    then show "target_ok (conf\<lparr>send_max_index := n\<rparr>) (t index)"
      using a(1) by (simp add: target_ok_def p)
    show "t index div 2 ^ max_port_index_len (conf\<lparr>send_max_index := n\<rparr>) \<noteq> 0"
      using a(3) c(2) p(1) by auto
  qed
  with t n0 max show ?thesis by (rule that)
qed

lemma max_index_update [simp]:
  "scan_set (conf\<lparr>send_max_index := n\<rparr>) bl = scan_set conf bl"
  "conf_matches (conf\<lparr>send_max_index := n\<rparr>) bl = conf_matches conf bl"
  "ports_distinct (conf\<lparr>send_max_index := n\<rparr>) bl = ports_distinct conf bl"
  by (simp_all add: scan_set_def conf_matches_def ports_distinct_def port_numbers_def index_numbers_def
      scanned_port_def scanned_index_def prefix_bytes_def)

text \<open>The targets of a subshard whose shard has been set up and is not at its end.\<close>

definition sub_targets :: "scan_conf \<Rightarrow> (mpz \<Rightarrow> mpz) \<Rightarrow> cycle \<Rightarrow> nat \<Rightarrow> nat \<Rightarrow> target list" where
  "sub_targets conf t cyc s i = map (\<lambda>j. written conf (target_no t cyc s i j)) (scanned_from conf t cyc s i 0)"

lemma scan_subshard:
  assumes "subshard_ok conf bl t cyc s i" "scan_ok conf t" "current sh \<noteq> PMAP_SHARD_DONE"
    "case valid_from (send_max_index conf) cyc s i 0 of [] \<Rightarrow> current sh = PMAP_SHARD_DONE
     | k # _ \<Rightarrow> at_elem cyc s i k sh"
  shows "scan_targets conf bl sh = Some (Inr (sub_targets conf t cyc s i))"
proof -
  obtain k ks where k: "valid_from (send_max_index conf) cyc s i 0 = k # ks" "at_elem cyc s i k sh"
    using assms(3,4) by (auto split: list.splits)
  note V = valid_from_Cons [OF k(1)]
  have "valid_from (send_max_index conf) cyc s i k = valid_from (send_max_index conf) cyc s i 0"
    using valid_from_step [of k] V k(1) by simp
  then have "scanned_from conf t cyc s i k = scanned_from conf t cyc s i 0"
    by (simp add: scanned_from_def)
  then show ?thesis using scan_targets_spec [OF assms(1,2) k(2)] V by (simp add: sub_targets_def)
qed

text \<open>The targets of all the subshards.\<close>

lemma sub_targets_cover:
  assumes "cycle_ok cyc" "0 < s" "0 \<le> n" "n \<le> cycle_order cyc" "bij_betw t {0 ..< n} (allowed_targets bl)"
    "bl_inv bl" "conf_matches conf bl" "\<not> ip_allowed bl 0" "ports_distinct conf bl" "send_max_index conf = n"
  shows "distinct (concat (map (sub_targets conf t cyc s) [0 ..< s]))
    \<and> set (concat (map (sub_targets conf t cyc s) [0 ..< s])) = scan_set conf bl"
proof -
  let ?ts = "concat (map (\<lambda>i. map (target_no t cyc s i) (valid_from n cyc s i 0)) [0 ..< s])"
  have C: "distinct ?ts" "set ?ts = allowed_targets bl"
    using subshards_cover [OF assms(1-5)] by blast+
  have st: "sub_targets conf t cyc s = (\<lambda>i. map (written conf)
      (filter (\<lambda>v. \<not> skipped conf v) (map (target_no t cyc s i) (valid_from n cyc s i 0))))"
    by (rule ext) (simp add: sub_targets_def scanned_from_def assms(10) filter_map comp_def)
  have eq: "concat (map (sub_targets conf t cyc s) [0 ..< s])
      = map (written conf) (filter (\<lambda>v. \<not> skipped conf v) ?ts)"
    unfolding st by (simp add: filter_concat map_concat comp_def)
  have set: "set (filter (\<lambda>v. \<not> skipped conf v) ?ts) = scanned_targets conf bl"
    unfolding set_filter C(2) by (simp add: scanned_targets_def)
  have "inj_on (written conf) (set (filter (\<lambda>v. \<not> skipped conf v) ?ts))"
    unfolding set by (rule written_inj [OF assms(6-9)])
  moreover have "distinct (filter (\<lambda>v. \<not> skipped conf v) ?ts)" using C(1) by (rule distinct_filter)
  ultimately have "distinct (concat (map (sub_targets conf t cyc s) [0 ..< s]))"
    unfolding eq by (simp only: distinct_map)
  moreover have "set (concat (map (sub_targets conf t cyc s) [0 ..< s])) = scan_set conf bl"
    unfolding eq set_map set by (rule written_scan_set [OF assms(6-8)])
  ultimately show ?thesis by blast
qed

definition made_iterator :: "cycle \<Rightarrow> u8 \<Rightarrow> shard list \<Rightarrow> iterator" where
  "made_iterator cyc num_threads shards = \<lparr>it_cycle = cyc, it_num_threads = num_threads,
     it_thread_shards = shards, it_complete = replicate (unat num_threads) 0,
     it_curr_threads = ucast num_threads\<rparr>"

text \<open>What \<open>iterator_init\<close> returns, once the cycle is made and every shard set up.\<close>

lemma iterator_init_made:
  assumes "blocklist_count_allowed_ip_port_index bl = Inr n" "max_send_index ic n = n"
    "\<not> iid_module_tga ic" "\<not> list_of_ips_given ic"
    "get_group n = Inr grp" "make_cycle grp aes = Some (Inr (cyc, aes'))"
    "\<And>i. i < unat T \<Longrightarrow> shard_init (conf\<lparr>send_max_index := n\<rparr>) bl zero_shard k N (of_nat i) T
       (max_targets ic) (max_packets_total ic) (list_of_ip_count ic) cyc = Some (Inr (f i, bl))"
  shows "iterator_init conf ic tlist bl aes T k N
    = Some (Inr (made_iterator cyc T (map f [0 ..< unat T]), conf\<lparr>send_max_index := n\<rparr>, bl, aes'))"
proof -
  let ?conf = "conf\<lparr>send_max_index := n\<rparr>"
  have "\<exists>shards'. init_shards ?conf ic cyc T k N [0 ..< unat T] (replicate (unat T) zero_shard) bl
      = Some (Inr (shards', bl)) \<and> length shards' = length (replicate (unat T) zero_shard)
    \<and> (\<forall>i \<in> set [0 ..< unat T]. shards' ! i = f i)
    \<and> (\<forall>i. i \<notin> set [0 ..< unat T] \<longrightarrow> shards' ! i = replicate (unat T) zero_shard ! i)"
    by (rule init_shards_spec) (simp_all add: assms(7))
  then obtain shards' where s: "init_shards ?conf ic cyc T k N [0 ..< unat T] (replicate (unat T) zero_shard) bl
      = Some (Inr (shards', bl))" "length shards' = unat T" "\<forall>i < unat T. shards' ! i = f i"
    by auto
  have "shards' = map f [0 ..< unat T]" using s(2,3) by (intro nth_equalityI) simp_all
  then show ?thesis using s(1) assms(1-6)
    by (simp add: iterator_init_def made_iterator_def Let_def)
qed

lemma scan_all_shards:
  assumes "scan_ready conf ic bl n" "aes_ok aes" "0 < N" "0 < T" "int (sub_count N T) < n"
  shows "\<exists>its aes'. (\<forall>k < unat N. iterator_init conf ic tlist bl aes T (of_nat k) N
        = Some (Inr (its k, conf\<lparr>send_max_index := n\<rparr>, bl, aes'))
        \<and> length (it_thread_shards (its k)) = unat T)
    \<and> (\<exists>k < unat N. \<exists>sh \<in> set (it_thread_shards (its k)). current sh \<noteq> PMAP_SHARD_DONE)
    \<and> ((\<forall>k < unat N. \<forall>sh \<in> set (it_thread_shards (its k)). current sh \<noteq> PMAP_SHARD_DONE) \<longrightarrow>
       (\<exists>tgs. (\<forall>k < unat N. scan_shards (conf\<lparr>send_max_index := n\<rparr>) bl (it_thread_shards (its k))
            = Some (Inr (tgs k)))
          \<and> distinct (concat (map tgs [0 ..< unat N]))
          \<and> set (concat (map tgs [0 ..< unat N])) = scan_set conf bl))"
proof -
  let ?conf = "conf\<lparr>send_max_index := n\<rparr>" and ?s = "sub_count N T"
  have R: "bl_inv bl" "\<not> ip_allowed bl 0" "conf_matches conf bl" "ports_distinct conf bl"
    "blocklist_count_allowed_ip_port_index bl = Inr n" "n < 2 ^ 52" "max_targets ic = 0"
    "max_packets_total ic = 0" "list_of_ip_count ic = 0" "\<not> iid_module_tga ic" "\<not> list_of_ips_given ic"
    using assms(1) unfolding scan_ready_def by blast+
  obtain t where t: "bl_ready bl n t" "bij_betw t {0 ..< n} (allowed_targets bl)" "0 \<le> n"
    "max_send_index ic n = n" "scan_ok ?conf t"
    by (rule scan_ready_parts [OF assms(1)]) (rule that)
  obtain grp where grp: "get_group n = Inr grp" "group_ok grp" "n < prime grp"
    using group_below_52 [OF R(6)] by blast
  obtain cyc aes' where cyc: "make_cycle grp aes = Some (Inr (cyc, aes'))" "cycle_ok cyc" "cycle_group cyc = grp"
    using make_cycle_ok [OF grp(2) assms(2)] by blast
  have ord: "n \<le> cycle_order cyc" using cyc(2,3) grp(3) by (simp add: cycle_ok_def)
  have sub: "k * unat T + i < ?s" "(of_nat k :: u16) < N" "(of_nat i :: u8) < T"
    "sub_index (of_nat k) (of_nat i) T = k * unat T + i" if "k < unat N" "i < unat T" for k i
  proof -
    have b: "unat N < 2 ^ LENGTH(16)" "unat T < 2 ^ LENGTH(8)" by (rule unsigned_less)+
    have u: "unat (of_nat k :: u16) = k" "unat (of_nat i :: u8) = i"
      using that b by (simp_all add: unat_of_nat)
    then show l: "(of_nat k :: u16) < N" "(of_nat i :: u8) < T" using that by (simp_all add: word_less_nat_alt)
    show e: "sub_index (of_nat k) (of_nat i) T = k * unat T + i" by (simp only: sub_index_def u)
    show "k * unat T + i < ?s" using sub_index_less [OF l] e by simp
  qed
  let ?Q = "\<lambda>k i sh. shard_init ?conf bl zero_shard (of_nat k) N (of_nat i) T 0 0 0 cyc = Some (Inr (sh, bl))
      \<and> (case valid_from n cyc ?s (k * unat T + i) 0 of [] \<Rightarrow> current sh = PMAP_SHARD_DONE
         | j # _ \<Rightarrow> at_elem cyc ?s (k * unat T + i) j sh)"
  have "\<exists>sh. ?Q k i sh" if ki: "k < unat N" "i < unat T" for k i
    using shard_init_spec [OF cyc(2) _ sub(2,3) [OF ki], of bl ?conf t] t(1) assms(5) ord sub(4) [OF ki]
    by (simp cong: list.case_cong)
  then obtain f where f: "\<And>k i. k < unat N \<Longrightarrow> i < unat T \<Longrightarrow> ?Q k i (f k i)" by metis
  define its where "its k = made_iterator cyc T (map (f k) [0 ..< unat T])" for k
  have it: "iterator_init conf ic tlist bl aes T (of_nat k) N = Some (Inr (its k, ?conf, bl, aes'))"
    if "k < unat N" for k
    unfolding its_def using f [OF that] R t(4) grp(1) cyc(1) by (intro iterator_init_made) simp_all
  have ok: "subshard_ok ?conf bl t cyc ?s (k * unat T + i)" if "k < unat N" "i < unat T" for k i
    using sub(1) [OF that] cyc(2) assms(5) ord t(1) by (simp add: subshard_ok_def)
  define tgs where "tgs k = concat (map (\<lambda>i. sub_targets ?conf t cyc ?s (k * unat T + i)) [0 ..< unat T])" for k
  have scan: "scan_shards ?conf bl (it_thread_shards (its k)) = Some (Inr (tgs k))"
    if k: "k < unat N" and ne: "\<forall>sh \<in> set (it_thread_shards (its k)). current sh \<noteq> PMAP_SHARD_DONE" for k
  proof -
    have sc: "scan_targets ?conf bl (f k i) = Some (Inr (sub_targets ?conf t cyc ?s (k * unat T + i)))"
      if i: "i \<in> set [0 ..< unat T]" for i
    proof (rule scan_subshard)
      have i': "i < unat T" using i by simp
      show "subshard_ok ?conf bl t cyc ?s (k * unat T + i)" by (rule ok [OF k i'])
      show "scan_ok ?conf t" by (rule t(5))
      show "current (f k i) \<noteq> PMAP_SHARD_DONE" using ne i by (simp add: its_def made_iterator_def)
      show "case valid_from (send_max_index ?conf) cyc ?s (k * unat T + i) 0 of
          [] \<Rightarrow> current (f k i) = PMAP_SHARD_DONE | j # _ \<Rightarrow> at_elem cyc ?s (k * unat T + i) j (f k i)"
        using f [OF k i'] by simp
    qed
    show ?thesis using scan_shards_map [of "[0 ..< unat T]", OF sc] by (simp add: its_def made_iterator_def tgs_def)
  qed
  have s0: "0 < ?s" using assms(3,4) by (simp add: sub_count_def word_less_nat_alt)
  have all: "concat (map tgs [0 ..< unat N]) = concat (map (sub_targets ?conf t cyc ?s) [0 ..< ?s])"
    unfolding tgs_def sub_count_def by (rule concat_blocks)
  have "distinct (concat (map tgs [0 ..< unat N])) \<and> set (concat (map tgs [0 ..< unat N])) = scan_set conf bl"
    using sub_targets_cover [OF cyc(2) s0 t(3) ord t(2) R(1) _ R(2), of ?conf] R(3,4) unfolding all by simp
  moreover have "\<exists>k < unat N. \<exists>sh \<in> set (it_thread_shards (its k)). current sh \<noteq> PMAP_SHARD_DONE"
  proof (rule ccontr)
    assume none: "\<not> ?thesis"
    have "valid_from n cyc ?s i 0 = []" if i: "i < ?s" for i
    proof -
      let ?k = "i div unat T" and ?t = "i mod unat T"
      have T0: "0 < unat T" using assms(4) by (simp add: word_less_nat_alt)
      then have kt: "?k < unat N" "?t < unat T" "?k * unat T + ?t = i"
        using i by (simp_all add: sub_count_def less_mult_imp_div_less)
      have "f ?k ?t \<in> set (it_thread_shards (its ?k))" using kt(2) by (simp add: its_def made_iterator_def)
      then have "current (f ?k ?t) = PMAP_SHARD_DONE" using none kt(1) by blast
      then have "\<not> at_elem cyc ?s i j (f ?k ?t)" for j
        using shard_elem_unit [OF cyc(2), of ?s i j] by (auto simp: at_elem_def PMAP_SHARD_DONE_def)
      then show ?thesis using f [OF kt(1,2)] unfolding kt(3) by (auto split: list.splits)
    qed
    then have "concat (map (\<lambda>i. map (target_no t cyc ?s i) (valid_from n cyc ?s i 0)) [0 ..< ?s]) = []" by simp
    then have "allowed_targets bl = {}" using subshards_cover [OF cyc(2) s0 t(3) ord t(2)] by simp
    then have "{0 ..< n} = {}" using t(2) by (auto simp: bij_betw_def)
    then show False using assms(5) by simp
  qed
  moreover have "length (it_thread_shards (its k)) = unat T" for k by (simp add: its_def made_iterator_def)
  ultimately show ?thesis using it scan by blast
qed

end
