(* ===== verification/Aes_Tables.thy ===== *)
theory Aes_Tables
  imports Aesrand
begin

text \<open>
  What the tables of \<open>lib/rijndael-alg-fst.c\<close> hold. Every table entry is a substituted byte under a map
  that is linear over exclusive or, and the tables of one direction are byte rotations of each other.
  The inverse MixColumn transform is linear and takes a mixed column back to its byte.
\<close>

section \<open>Bytes of a word\<close>

definition byte :: "nat \<Rightarrow> u32 \<Rightarrow> u8" where
  "byte i w = ucast (drop_bit (8 * i) w)"

definition top_byte :: "u8 \<Rightarrow> u32" where
  "top_byte b = push_bit 24 (ucast b)"

text \<open>Rotation to the right by one byte.\<close>

definition rot :: "u32 \<Rightarrow> u32" where
  "rot w = push_bit 24 w XOR drop_bit 8 w"

definition of_bytes :: "u8 \<Rightarrow> u8 \<Rightarrow> u8 \<Rightarrow> u8 \<Rightarrow> u32" where
  "of_bytes x3 x2 x1 x0 = top_byte x3 XOR rot (top_byte x2) XOR rot (rot (top_byte x1))
     XOR rot (rot (rot (top_byte x0)))"

lemma bit_byte: "bit (byte i w) n \<longleftrightarrow> n < 8 \<and> bit w (8 * i + n)"
  by (auto simp: byte_def bit_simps)

lemma bit_top_byte: "bit (top_byte b) n \<longleftrightarrow> 24 \<le> n \<and> bit b (n - 24)"
  using bit_imp_le_length [of b "n - 24"] by (auto simp: top_byte_def bit_simps)

lemma bit_rot: "bit (rot w) n \<longleftrightarrow> (if n < 24 then bit w (n + 8) else n < 32 \<and> bit w (n - 24))"
  using bit_imp_le_length [of w "n + 8"] by (auto simp: rot_def bit_simps add.commute)

lemma rot_xor: "rot (a XOR b) = rot a XOR rot b"
  by (rule bit_word_eqI) (simp add: bit_rot bit_simps)

lemma rot4: "rot (rot (rot (rot w))) = w"
  by (rule bit_word_eqI) (auto simp: bit_rot)

lemma bit_of_bytes:
  "bit (of_bytes x3 x2 x1 x0) n \<longleftrightarrow>
     (if n < 8 then bit x0 n else if n < 16 then bit x1 (n - 8)
      else if n < 24 then bit x2 (n - 16) else bit x3 (n - 24))"
  using bit_imp_le_length [of x0 n] bit_imp_le_length [of x1 "n - 8"]
    bit_imp_le_length [of x2 "n - 16"] bit_imp_le_length [of x3 "n - 24"]
  by (auto simp: of_bytes_def bit_simps bit_top_byte bit_rot)

lemma byte_of_bytes [simp]:
  "byte 0 (of_bytes x3 x2 x1 x0) = x0" "byte 1 (of_bytes x3 x2 x1 x0) = x1"
  "byte 2 (of_bytes x3 x2 x1 x0) = x2" "byte 3 (of_bytes x3 x2 x1 x0) = x3"
  by (rule bit_word_eqI, simp add: bit_byte bit_of_bytes)+

lemma of_bytes_byte [simp]: "of_bytes (byte 3 w) (byte 2 w) (byte 1 w) (byte 0 w) = w"
  by (rule bit_word_eqI) (auto simp: bit_byte bit_of_bytes)

lemma byte_xor: "byte i (a XOR b) = byte i a XOR byte i b"
  by (rule bit_word_eqI) (simp add: bit_byte bit_simps)

lemma byte_rot:
  "byte 3 (rot w) = byte 0 w" "byte 2 (rot w) = byte 3 w"
  "byte 1 (rot w) = byte 2 w" "byte 0 (rot w) = byte 1 w"
  by (rule bit_word_eqI, simp add: bit_byte bit_rot add.commute)+

text \<open>The table indices of the code.\<close>

lemma table_index: "b3 w = unat (byte 3 w)" "b2 w = unat (byte 2 w)" "b1 w = unat (byte 1 w)" "b0 w = unat (byte 0 w)"
proof -
  have m: "(0xFF :: u32) = mask 8" by (simp add: mask_eq_exp_minus_1)
  have "ucast (byte 3 w) = drop_bit 24 w" "ucast (byte 2 w) = drop_bit 16 w AND 0xFF"
    "ucast (byte 1 w) = drop_bit 8 w AND 0xFF" "ucast (byte 0 w) = w AND 0xFF"
    unfolding m by (rule bit_word_eqI, auto simp: bit_byte bit_simps dest: bit_imp_le_length)+
  moreover have "unat (ucast x :: u32) = unat x" for x :: u8
  proof -
    have "unat x < 2 ^ LENGTH(8)" by (rule unsigned_less)
    then show ?thesis by (simp add: unsigned_ucast_eq take_bit_nat_eq_self)
  qed
  ultimately show "b3 w = unat (byte 3 w)" "b2 w = unat (byte 2 w)" "b1 w = unat (byte 1 w)" "b0 w = unat (byte 0 w)"
    unfolding b3_def b2_def b1_def b0_def by metis+
qed

section \<open>Maps that are linear over exclusive or\<close>

definition lin8 :: "u32 list \<Rightarrow> u8 \<Rightarrow> u32" where
  "lin8 c x = (if bit x 0 then c ! 0 else 0) XOR (if bit x 1 then c ! 1 else 0)
     XOR (if bit x 2 then c ! 2 else 0) XOR (if bit x 3 then c ! 3 else 0)
     XOR (if bit x 4 then c ! 4 else 0) XOR (if bit x 5 then c ! 5 else 0)
     XOR (if bit x 6 then c ! 6 else 0) XOR (if bit x 7 then c ! 7 else 0)"

lemma if_xor: "(if p \<noteq> q then c else 0) = (if p then c else 0) XOR (if q then c else (0 :: u32))"
  by simp

lemma lin8_xor: "lin8 c (x XOR y) = lin8 c x XOR lin8 c y"
  unfolding lin8_def bit_xor_iff if_xor by (simp only: xor.assoc xor.commute xor.left_commute)

lemma lin8_map:
  assumes "\<And>a b. f (a XOR b) = f a XOR f b" "length c = 8"
  shows "f (lin8 c x) = lin8 (map f c) x"
proof -
  have z: "f 0 = 0" using assms(1) [of 0 0] by simp
  have i: "f (if p then a else 0) = (if p then f a else 0)" for p a using z by simp
  show ?thesis using assms(2) by (simp add: lin8_def assms(1) i)
qed

definition enc_basis0 :: "u32 list" where
  "enc_basis0 = [0x02010103, 0x04020206, 0x0804040c, 0x10080818, 0x20101030, 0x40202060, 0x804040c0, 0x1b80809b]"

definition dec_basis0 :: "u32 list" where
  "dec_basis0 = [0x0e090d0b, 0x1c121a16, 0x3824342c, 0x70486858, 0xe090d0b0, 0xdb3bbb7b, 0xad766df6, 0x41ecdaf7]"

section \<open>The tables\<close>

definition sbox :: "u8 list" where
  "sbox = [
    0x63, 0x7c, 0x77, 0x7b, 0xf2, 0x6b, 0x6f, 0xc5, 0x30, 1, 0x67, 0x2b, 0xfe, 0xd7, 0xab, 0x76,
    0xca, 0x82, 0xc9, 0x7d, 0xfa, 0x59, 0x47, 0xf0, 0xad, 0xd4, 0xa2, 0xaf, 0x9c, 0xa4, 0x72, 0xc0,
    0xb7, 0xfd, 0x93, 0x26, 0x36, 0x3f, 0xf7, 0xcc, 0x34, 0xa5, 0xe5, 0xf1, 0x71, 0xd8, 0x31, 0x15,
    0x04, 0xc7, 0x23, 0xc3, 0x18, 0x96, 0x05, 0x9a, 0x07, 0x12, 0x80, 0xe2, 0xeb, 0x27, 0xb2, 0x75,
    0x09, 0x83, 0x2c, 0x1a, 0x1b, 0x6e, 0x5a, 0xa0, 0x52, 0x3b, 0xd6, 0xb3, 0x29, 0xe3, 0x2f, 0x84,
    0x53, 0xd1, 0, 0xed, 0x20, 0xfc, 0xb1, 0x5b, 0x6a, 0xcb, 0xbe, 0x39, 0x4a, 0x4c, 0x58, 0xcf,
    0xd0, 0xef, 0xaa, 0xfb, 0x43, 0x4d, 0x33, 0x85, 0x45, 0xf9, 0x02, 0x7f, 0x50, 0x3c, 0x9f, 0xa8,
    0x51, 0xa3, 0x40, 0x8f, 0x92, 0x9d, 0x38, 0xf5, 0xbc, 0xb6, 0xda, 0x21, 0x10, 0xff, 0xf3, 0xd2,
    0xcd, 0x0c, 0x13, 0xec, 0x5f, 0x97, 0x44, 0x17, 0xc4, 0xa7, 0x7e, 0x3d, 0x64, 0x5d, 0x19, 0x73,
    0x60, 0x81, 0x4f, 0xdc, 0x22, 0x2a, 0x90, 0x88, 0x46, 0xee, 0xb8, 0x14, 0xde, 0x5e, 0x0b, 0xdb,
    0xe0, 0x32, 0x3a, 0x0a, 0x49, 0x06, 0x24, 0x5c, 0xc2, 0xd3, 0xac, 0x62, 0x91, 0x95, 0xe4, 0x79,
    0xe7, 0xc8, 0x37, 0x6d, 0x8d, 0xd5, 0x4e, 0xa9, 0x6c, 0x56, 0xf4, 0xea, 0x65, 0x7a, 0xae, 0x08,
    0xba, 0x78, 0x25, 0x2e, 0x1c, 0xa6, 0xb4, 0xc6, 0xe8, 0xdd, 0x74, 0x1f, 0x4b, 0xbd, 0x8b, 0x8a,
    0x70, 0x3e, 0xb5, 0x66, 0x48, 0x03, 0xf6, 0x0e, 0x61, 0x35, 0x57, 0xb9, 0x86, 0xc1, 0x1d, 0x9e,
    0xe1, 0xf8, 0x98, 0x11, 0x69, 0xd9, 0x8e, 0x94, 0x9b, 0x1e, 0x87, 0xe9, 0xce, 0x55, 0x28, 0xdf,
    0x8c, 0xa1, 0x89, 0x0d, 0xbf, 0xe6, 0x42, 0x68, 0x41, 0x99, 0x2d, 0x0f, 0xb0, 0x54, 0xbb, 0x16]"

definition inv_sbox :: "u8 list" where
  "inv_sbox = [
    0x52, 0x09, 0x6a, 0xd5, 0x30, 0x36, 0xa5, 0x38, 0xbf, 0x40, 0xa3, 0x9e, 0x81, 0xf3, 0xd7, 0xfb,
    0x7c, 0xe3, 0x39, 0x82, 0x9b, 0x2f, 0xff, 0x87, 0x34, 0x8e, 0x43, 0x44, 0xc4, 0xde, 0xe9, 0xcb,
    0x54, 0x7b, 0x94, 0x32, 0xa6, 0xc2, 0x23, 0x3d, 0xee, 0x4c, 0x95, 0x0b, 0x42, 0xfa, 0xc3, 0x4e,
    0x08, 0x2e, 0xa1, 0x66, 0x28, 0xd9, 0x24, 0xb2, 0x76, 0x5b, 0xa2, 0x49, 0x6d, 0x8b, 0xd1, 0x25,
    0x72, 0xf8, 0xf6, 0x64, 0x86, 0x68, 0x98, 0x16, 0xd4, 0xa4, 0x5c, 0xcc, 0x5d, 0x65, 0xb6, 0x92,
    0x6c, 0x70, 0x48, 0x50, 0xfd, 0xed, 0xb9, 0xda, 0x5e, 0x15, 0x46, 0x57, 0xa7, 0x8d, 0x9d, 0x84,
    0x90, 0xd8, 0xab, 0, 0x8c, 0xbc, 0xd3, 0x0a, 0xf7, 0xe4, 0x58, 0x05, 0xb8, 0xb3, 0x45, 0x06,
    0xd0, 0x2c, 0x1e, 0x8f, 0xca, 0x3f, 0x0f, 0x02, 0xc1, 0xaf, 0xbd, 0x03, 1, 0x13, 0x8a, 0x6b,
    0x3a, 0x91, 0x11, 0x41, 0x4f, 0x67, 0xdc, 0xea, 0x97, 0xf2, 0xcf, 0xce, 0xf0, 0xb4, 0xe6, 0x73,
    0x96, 0xac, 0x74, 0x22, 0xe7, 0xad, 0x35, 0x85, 0xe2, 0xf9, 0x37, 0xe8, 0x1c, 0x75, 0xdf, 0x6e,
    0x47, 0xf1, 0x1a, 0x71, 0x1d, 0x29, 0xc5, 0x89, 0x6f, 0xb7, 0x62, 0x0e, 0xaa, 0x18, 0xbe, 0x1b,
    0xfc, 0x56, 0x3e, 0x4b, 0xc6, 0xd2, 0x79, 0x20, 0x9a, 0xdb, 0xc0, 0xfe, 0x78, 0xcd, 0x5a, 0xf4,
    0x1f, 0xdd, 0xa8, 0x33, 0x88, 0x07, 0xc7, 0x31, 0xb1, 0x12, 0x10, 0x59, 0x27, 0x80, 0xec, 0x5f,
    0x60, 0x51, 0x7f, 0xa9, 0x19, 0xb5, 0x4a, 0x0d, 0x2d, 0xe5, 0x7a, 0x9f, 0x93, 0xc9, 0x9c, 0xef,
    0xa0, 0xe0, 0x3b, 0x4d, 0xae, 0x2a, 0xf5, 0xb0, 0xc8, 0xeb, 0xbb, 0x3c, 0x83, 0x53, 0x99, 0x61,
    0x17, 0x2b, 0x04, 0x7e, 0xba, 0x77, 0xd6, 0x26, 0xe1, 0x69, 0x14, 0x63, 0x55, 0x21, 0x0c, 0x7d]"

definition quad :: "u8 \<Rightarrow> u32" where
  "quad b = push_bit 24 (ucast b) XOR push_bit 16 (ucast b) XOR push_bit 8 (ucast b) XOR ucast b"

lemma quad_bytes: "quad b = of_bytes b b b b"
proof (rule bit_word_eqI)
  fix n
  show "bit (quad b) n \<longleftrightarrow> bit (of_bytes b b b b) n"
    using bit_imp_le_length [of b n] bit_imp_le_length [of b "n - 8"]
      bit_imp_le_length [of b "n - 16"] bit_imp_le_length [of b "n - 24"]
    by (auto simp: quad_def bit_of_bytes bit_simps)
qed


lemma length_sbox [simp]: "length sbox = 256" "length inv_sbox = 256"
  by (simp_all add: sbox_def inv_sbox_def)

lemma te_tables:
  "Te0 = map (lin8 enc_basis0) sbox" "Te1 = map rot Te0" "Te2 = map rot Te1" "Te3 = map rot Te2"
  "Te4 = map quad sbox"
proof -
  show "Te0 = map (lin8 enc_basis0) sbox" by (simp add: Te0_def sbox_def lin8_def enc_basis0_def)
  show "Te1 = map rot Te0" by (simp add: Te0_def Te1_def rot_def)
  show "Te2 = map rot Te1" by (simp add: Te2_def Te1_def rot_def)
  show "Te3 = map rot Te2" by (simp add: Te2_def Te3_def rot_def)
  show "Te4 = map quad sbox" by (simp add: sbox_def Te4_def quad_def)
qed

lemma td_tables:
  "Td0 = map (lin8 dec_basis0) inv_sbox" "Td1 = map rot Td0" "Td2 = map rot Td1" "Td3 = map rot Td2"
  "Td4 = map quad inv_sbox"
proof -
  show "Td0 = map (lin8 dec_basis0) inv_sbox" by (simp add: Td0_def inv_sbox_def lin8_def dec_basis0_def)
  show "Td1 = map rot Td0" by (simp add: Td0_def Td1_def rot_def)
  show "Td2 = map rot Td1" by (simp add: Td2_def Td1_def rot_def)
  show "Td3 = map rot Td2" by (simp add: Td2_def Td3_def rot_def)
  show "Td4 = map quad inv_sbox" by (simp add: inv_sbox_def Td4_def quad_def)
qed

lemma inv_sbox_table: "map (\<lambda>b. inv_sbox ! unat b) sbox = map of_nat [0 ..< 256]"
  by (simp add: sbox_def inv_sbox_def upt_conv_Cons)

text \<open>The substitutions, and what the tables hold.\<close>

definition sub :: "u8 \<Rightarrow> u8" where "sub x = sbox ! unat x"
definition inv_sub :: "u8 \<Rightarrow> u8" where "inv_sub x = inv_sbox ! unat x"

lemma inv_sub_sub [simp]: "inv_sub (sub x) = x"
proof -
  have "map (\<lambda>b. inv_sbox ! unat b) sbox ! unat x = map of_nat [0 ..< 256] ! unat x"
    by (simp only: inv_sbox_table)
  then show ?thesis using unat_u8_less [of x] by (simp add: sub_def inv_sub_def)
qed

definition enc_col :: "u8 \<Rightarrow> u32" where "enc_col y = lin8 enc_basis0 y"
definition dec_col :: "u8 \<Rightarrow> u32" where "dec_col y = lin8 dec_basis0 y"

lemma te_nth:
  "Te0 ! unat x = enc_col (sub x)" "Te1 ! unat x = rot (enc_col (sub x))"
  "Te2 ! unat x = rot (rot (enc_col (sub x)))" "Te3 ! unat x = rot (rot (rot (enc_col (sub x))))"
  "Te4 ! unat x = quad (sub x)"
  using unat_u8_less [of x] by (simp_all add: te_tables enc_col_def sub_def)

lemma td_nth:
  "Td0 ! unat x = dec_col (inv_sub x)" "Td1 ! unat x = rot (dec_col (inv_sub x))"
  "Td2 ! unat x = rot (rot (dec_col (inv_sub x)))" "Td3 ! unat x = rot (rot (rot (dec_col (inv_sub x))))"
  "Td4 ! unat x = quad (inv_sub x)"
  using unat_u8_less [of x] by (simp_all add: td_tables dec_col_def inv_sub_def)

section \<open>The inverse MixColumn transform\<close>

lemma b0_quad: "b0 (quad b) = unat b"
  by (simp add: table_index quad_bytes)

lemma inv_mix_word_cols:
  "inv_mix_word w = dec_col (byte 3 w) XOR rot (dec_col (byte 2 w)) XOR rot (rot (dec_col (byte 1 w)))
     XOR rot (rot (rot (dec_col (byte 0 w))))"
  by (simp only: inv_mix_word_def table_index te_nth) (simp add: quad_bytes td_nth)

lemma dec_col_xor: "dec_col (x XOR y) = dec_col x XOR dec_col y"
  by (simp add: dec_col_def lin8_xor)

lemma inv_mix_word_xor: "inv_mix_word (v XOR w) = inv_mix_word v XOR inv_mix_word w"
  by (simp add: inv_mix_word_cols byte_xor dec_col_xor rot_xor xor.assoc xor.commute xor.left_commute)

lemma inv_mix_word_rot: "inv_mix_word (rot w) = rot (inv_mix_word w)"
  by (simp add: inv_mix_word_cols byte_rot rot_xor rot4 xor.assoc xor.commute xor.left_commute
      del: One_nat_def)

text \<open>It takes a mixed column back to the byte it was made of.\<close>

definition unit_bit :: "nat \<Rightarrow> u32" where
  "unit_bit k = push_bit k 1"

definition top_basis :: "u32 list" where
  "top_basis = [unit_bit 24, unit_bit 25, unit_bit 26, unit_bit 27, unit_bit 28, unit_bit 29, unit_bit 30, unit_bit 31]"

lemma inv_mix_basis: "map inv_mix_word enc_basis0 = top_basis"
  by (simp add: enc_basis0_def top_basis_def unit_bit_def inv_mix_word_cols byte_def dec_col_def lin8_def dec_basis0_def rot_def)

lemma lin8_top: "lin8 top_basis y = top_byte y"
proof (rule bit_word_eqI)
  fix n :: nat assume "n < LENGTH(32)"
  then have n: "n < 24 \<or> n = 24 \<or> n = 25 \<or> n = 26 \<or> n = 27 \<or> n = 28 \<or> n = 29 \<or> n = 30 \<or> n = 31" by auto
  have i: "bit (if p then a else (0 :: u32)) n \<longleftrightarrow> p \<and> bit a n" for p a by simp
  have u: "bit (unit_bit k) n \<longleftrightarrow> n = k" if "k < 32" for k
    using that by (auto simp: unit_bit_def bit_simps)
  have l: "bit (lin8 top_basis y) n \<longleftrightarrow> ((bit y 0 \<and> n = 24) \<noteq> ((bit y 1 \<and> n = 25) \<noteq> ((bit y 2 \<and> n = 26)
      \<noteq> ((bit y 3 \<and> n = 27) \<noteq> ((bit y 4 \<and> n = 28) \<noteq> ((bit y 5 \<and> n = 29) \<noteq> ((bit y 6 \<and> n = 30)
      \<noteq> (bit y 7 \<and> n = 31))))))))"
    by (simp only: lin8_def bit_xor_iff i) (simp add: top_basis_def u)
  have "bit (lin8 top_basis y) n \<longleftrightarrow> bit (top_byte y) n"
    unfolding l using n by (elim disjE) (simp_all add: bit_top_byte)
  then show "bit (lin8 top_basis y) n \<longleftrightarrow> bit (top_byte y) n" .
qed

lemma inv_mix_enc_col: "inv_mix_word (enc_col y) = top_byte y"
proof -
  have "inv_mix_word (lin8 enc_basis0 y) = lin8 (map inv_mix_word enc_basis0) y"
    by (rule lin8_map) (simp_all add: inv_mix_word_xor enc_basis0_def)
  then show ?thesis by (simp only: enc_col_def inv_mix_basis lin8_top)
qed

end
