(* ===== verification/Aes_Inverse.thy ===== *)
theory Aes_Inverse
  imports Aes_Tables
begin

text \<open>
  Decryption undoes encryption for every key size of \<open>lib/rijndael-alg-fst.c\<close>; the unrolled and the
  round-limited variants of the cipher that the source also holds agree with the loops; and what two
  probes with the same validation bytes (\<open>src/validate.c\<close>) have in common.
\<close>

declare One_nat_def [simp del]

section \<open>One word of a round\<close>

lemma mask_bytes:
  "(of_bytes x3 x2 x1 x0 AND 0xFF000000) = of_bytes x3 0 0 0" "(of_bytes x3 x2 x1 x0 AND 0x00FF0000) = of_bytes 0 x2 0 0"
  "(of_bytes x3 x2 x1 x0 AND 0x0000FF00) = of_bytes 0 0 x1 0" "(of_bytes x3 x2 x1 x0 AND 0x000000FF) = of_bytes 0 0 0 x0"
proof -
  have m: "(0xFF000000 :: u32) = push_bit 24 (mask 8)" "(0x00FF0000 :: u32) = push_bit 16 (mask 8)"
    "(0x0000FF00 :: u32) = push_bit 8 (mask 8)" "(0x000000FF :: u32) = mask 8"
    by (simp_all add: mask_eq_exp_minus_1 push_bit_eq_mult)
  show "(of_bytes x3 x2 x1 x0 AND 0xFF000000) = of_bytes x3 0 0 0" "(of_bytes x3 x2 x1 x0 AND 0x00FF0000) = of_bytes 0 x2 0 0"
    "(of_bytes x3 x2 x1 x0 AND 0x0000FF00) = of_bytes 0 0 x1 0" "(of_bytes x3 x2 x1 x0 AND 0x000000FF) = of_bytes 0 0 0 x0"
    unfolding m by (rule bit_word_eqI, auto simp: bit_of_bytes bit_simps)+
qed

lemma of_bytes_split:
  "((of_bytes x3 0 0 0 XOR of_bytes 0 x2 0 0) XOR of_bytes 0 0 x1 0) XOR of_bytes 0 0 0 x0 = of_bytes x3 x2 x1 x0"
  by (rule bit_word_eqI) (auto simp: bit_of_bytes bit_simps)

lemma te_last_bytes:
  "te_last a b c d k = of_bytes (sub (byte 3 a)) (sub (byte 2 b)) (sub (byte 1 c)) (sub (byte 0 d)) XOR k"
  by (simp only: te_last_def table_index te_nth quad_bytes mask_bytes) (simp only: of_bytes_split flip: xor.assoc)

lemma td_last_bytes:
  "td_last a b c d k = of_bytes (inv_sub (byte 3 a)) (inv_sub (byte 2 b)) (inv_sub (byte 1 c)) (inv_sub (byte 0 d)) XOR k"
  by (simp only: td_last_def table_index td_nth quad_bytes mask_bytes) (simp only: of_bytes_split flip: xor.assoc)

lemma inv_mix_te_word:
  "inv_mix_word (te_word a b c d k)
     = of_bytes (sub (byte 3 a)) (sub (byte 2 b)) (sub (byte 1 c)) (sub (byte 0 d)) XOR inv_mix_word k"
  by (simp only: te_word_def table_index te_nth inv_mix_word_xor inv_mix_word_rot inv_mix_enc_col of_bytes_def xor.assoc)

lemma td_word_bytes:
  "td_word a b c d (inv_mix_word k)
     = inv_mix_word (of_bytes (inv_sub (byte 3 a)) (inv_sub (byte 2 b)) (inv_sub (byte 1 c)) (inv_sub (byte 0 d)) XOR k)"
  by (simp only: td_word_def table_index td_nth inv_mix_word_xor) (simp add: inv_mix_word_cols xor.assoc)

section \<open>Rounds\<close>

text \<open>The substituted and shifted state.\<close>

definition sub_shift :: "aes_words \<Rightarrow> aes_words" where
  "sub_shift s = (case s of (s0, s1, s2, s3) \<Rightarrow>
     let f = (\<lambda>a b c d. of_bytes (sub (byte 3 a)) (sub (byte 2 b)) (sub (byte 1 c)) (sub (byte 0 d)))
     in (f s0 s1 s2 s3, f s1 s2 s3 s0, f s2 s3 s0 s1, f s3 s0 s1 s2))"

definition add_key :: "(nat \<Rightarrow> u32) \<Rightarrow> nat \<Rightarrow> aes_words \<Rightarrow> aes_words" where
  "add_key k o4 s = (case s of (s0, s1, s2, s3) \<Rightarrow>
     (s0 XOR k o4, s1 XOR k (o4 + 1), s2 XOR k (o4 + 2), s3 XOR k (o4 + 3)))"

lemma add_key_twice [simp]: "add_key k o4 (add_key k o4 s) = s"
  by (simp add: add_key_def xor.assoc split: prod.splits)

lemma enc_last_steps: "enc_last rk o4 s = add_key (nth rk) o4 (sub_shift s)"
  by (simp add: enc_last_def add_key_def sub_shift_def te_last_bytes Let_def split: prod.splits)

lemma dec_last_sub_shift: "dec_last rk o4 (sub_shift s) = add_key (nth rk) o4 s"
  by (simp add: dec_last_def add_key_def sub_shift_def td_last_bytes Let_def split: prod.splits)

text \<open>A decryption round with the transformed key undoes an encryption round.\<close>

lemma dec_round_sub_shift:
  assumes "\<forall>j < 4. rkd ! (od + j) = inv_mix_word (rk ! (oe + j))"
  shows "dec_round rkd od (sub_shift (enc_round rk oe s)) = sub_shift s"
proof -
  have k: "rkd ! od = inv_mix_word (rk ! oe)" "rkd ! (od + 1) = inv_mix_word (rk ! (oe + 1))"
    "rkd ! (od + 2) = inv_mix_word (rk ! (oe + 2))" "rkd ! (od + 3) = inv_mix_word (rk ! (oe + 3))"
    using spec [OF assms, of 0] spec [OF assms, of 1] spec [OF assms, of 2] spec [OF assms, of 3]
    by (simp_all del: One_nat_def)
  show ?thesis
    by (cases s) (simp only: dec_round_def sub_shift_def enc_round_def Let_def prod.case k td_word_bytes
        byte_of_bytes inv_sub_sub of_bytes_byte inv_mix_word_xor inv_mix_te_word xor.assoc xor_self_eq
        xor.right_neutral)
qed

section \<open>The loop of rounds\<close>

lemma round_loop_fold:
  "round_loop rnd (Suc r) k s = Some (fold (\<lambda>i. rnd (k + 4 * i)) [1 ..< 2 * r + 2] s, k + 8 * (r + 1))"
proof (induction r arbitrary: k s)
  case 0
  have "[1 ..< 2 * 0 + 2] = [1 :: nat]" by (simp add: upt_rec)
  then show ?case by (simp add: Let_def)
next
  case (Suc r)
  have up: "[1 ..< 2 * Suc r + 2] = 1 # 2 # map (\<lambda>i. i + 2) [1 ..< 2 * r + 2]"
  proof -
    have "map (\<lambda>i. i + 2) [a ..< n] = [a + 2 ..< n + 2]" for a n :: nat
      by (induction n) auto
    note this [of 1 "2 * r + 2"]
    also have "[1 + 2 ..< 2 * r + 2 + 2] = [3 ..< 2 * r + 4]"
      by (rule arg_cong2 [where f = upt]) simp_all
    finally have "map (\<lambda>i. i + 2) [1 ..< 2 * r + 2] = [3 ..< 2 * r + 4]" .
    moreover have "[1 ..< 2 * Suc r + 2] = 1 # 2 # [3 ..< 2 * r + 4]"
    proof -
      have u: "[1 ..< m] = 1 # 2 # [3 ..< m]" if "3 \<le> m" for m :: nat
        using that upt_conv_Cons [of 1 m] upt_conv_Cons [of 2 m] by (simp add: One_nat_def numeral_3_eq_3 numeral_2_eq_2)
      have "[1 ..< 2 * r + 4] = 1 # 2 # [3 ..< 2 * r + 4]" by (rule u) linarith
      moreover have "2 * Suc r + 2 = 2 * r + 4" by simp
      ultimately show ?thesis by (simp only:)
    qed

    ultimately show ?thesis by simp
  qed
  have "round_loop rnd (Suc (Suc r)) k s = round_loop rnd (Suc r) (k + 8) (rnd (k + 8) (rnd (k + 4) s))"
    by (simp add: Let_def)
  also have "\<dots> = Some (fold (\<lambda>i. rnd (k + 8 + 4 * i)) [1 ..< 2 * r + 2] (rnd (k + 8) (rnd (k + 4) s)), k + 8 + 8 * (r + 1))"
    by (rule Suc.IH)
  also have "fold (\<lambda>i. rnd (k + 8 + 4 * i)) [1 ..< 2 * r + 2] (rnd (k + 8) (rnd (k + 4) s))
      = fold (\<lambda>i. rnd (k + 4 * i)) [1 ..< 2 * Suc r + 2] s"
    unfolding up by (simp add: fold_map comp_def algebra_simps)
  finally show ?case by (simp add: algebra_simps)
qed

text \<open>An even number of rounds.\<close>

lemma round_loop_even:
  assumes "even nr" "0 < nr"
  shows "round_loop rnd (nr div 2) 0 s = Some (fold (\<lambda>i. rnd (4 * i)) [1 ..< nr] s, 4 * nr)"
proof -
  obtain r where "nr div 2 = Suc r" "nr = 2 * r + 2"
    using assms by (cases "nr div 2") (auto elim: evenE)
  then show ?thesis using round_loop_fold [of rnd r 0 s] by simp
qed

section \<open>Decryption undoes encryption\<close>

text \<open>The relation between the two key schedules.\<close>

definition inverse_keys :: "nat \<Rightarrow> u32 list \<Rightarrow> u32 list \<Rightarrow> bool" where
  "inverse_keys nr rk rkd \<longleftrightarrow> 4 * (nr + 1) \<le> length rk \<and> 4 * (nr + 1) \<le> length rkd
     \<and> (\<forall>i \<le> nr. \<forall>j < 4. rkd ! (4 * i + j) =
          (if 0 < i \<and> i < nr then inv_mix_word (rk ! (4 * (nr - i) + j)) else rk ! (4 * (nr - i) + j)))"

lemma inverse_keys_nth:
  assumes "inverse_keys nr rk rkd" "i \<le> nr" "j < 4"
  shows "rkd ! (4 * i + j) =
          (if 0 < i \<and> i < nr then inv_mix_word (rk ! (4 * (nr - i) + j)) else rk ! (4 * (nr - i) + j))"
  using assms unfolding inverse_keys_def by blast

lemma dec_rounds:
  assumes "inverse_keys nr rk rkd" "m < nr"
  shows "fold (\<lambda>i. dec_round rkd (4 * i)) [1 ..< Suc m] (sub_shift (fold (\<lambda>i. enc_round rk (4 * i)) [1 ..< nr] s))
    = sub_shift (fold (\<lambda>i. enc_round rk (4 * i)) [1 ..< nr - m] s)"
  using assms(2)
proof (induction m)
  case 0
  then show ?case by (simp add: One_nat_def)
next
  case (Suc m)
  let ?E = "\<lambda>n. fold (\<lambda>i. enc_round rk (4 * i)) [1 ..< n] s"
  have up: "[1 ..< Suc (Suc m)] = [1 ..< Suc m] @ [Suc m]" by simp
  have "[1 ..< Suc (nr - Suc m)] = [1 ..< nr - Suc m] @ [nr - Suc m]" using Suc.prems by (intro upt_Suc_append) simp
  moreover have "Suc (nr - Suc m) = nr - m" using Suc.prems by simp
  ultimately have E: "?E (nr - m) = enc_round rk (4 * (nr - Suc m)) (?E (nr - Suc m))" by simp
  have k: "\<forall>j < 4. rkd ! (4 * Suc m + j) = inv_mix_word (rk ! (4 * (nr - Suc m) + j))"
    using inverse_keys_nth [OF assms(1), of "Suc m"] Suc.prems by (simp del: mult_Suc_right)
  have "fold (\<lambda>i. dec_round rkd (4 * i)) [1 ..< Suc (Suc m)] (sub_shift (?E nr))
      = dec_round rkd (4 * Suc m) (sub_shift (?E (nr - m)))"
    unfolding up using Suc by simp
  then show ?case unfolding E dec_round_sub_shift [OF k] .
qed

lemma get_put_block:
  assumes "\<forall>j < 4. rk ! j = k ! (o4 + j)"
  shows "get_block (put_block s) rk = add_key (nth k) o4 s"
proof -
  have g: "GETU32 (PUTU32 a @ PUTU32 b @ PUTU32 c @ PUTU32 d) 0 = a"
    "GETU32 (PUTU32 a @ PUTU32 b @ PUTU32 c @ PUTU32 d) 4 = b"
    "GETU32 (PUTU32 a @ PUTU32 b @ PUTU32 c @ PUTU32 d) 8 = c"
    "GETU32 (PUTU32 a @ PUTU32 b @ PUTU32 c @ PUTU32 d) 12 = d" for a b c d
  proof -
    have w: "push_bit 24 (ucast (ucast (drop_bit 24 w) :: u8)) XOR push_bit 16 (ucast (ucast (drop_bit 16 w) :: u8))
        XOR push_bit 8 (ucast (ucast (drop_bit 8 w) :: u8)) XOR ucast (ucast w :: u8) = w" for w :: u32
    proof (rule bit_word_eqI)
      fix n :: nat assume "n < LENGTH(32)"
      then have "n < 8 \<or> (\<exists>m. n = 8 + m \<and> m < 8) \<or> (\<exists>m. n = 16 + m \<and> m < 8) \<or> (\<exists>m. n = 24 + m \<and> m < 8)"
        by simp presburger
      then show "bit (push_bit 24 (ucast (ucast (drop_bit 24 w) :: u8) :: u32) XOR push_bit 16 (ucast (ucast (drop_bit 16 w) :: u8))
        XOR push_bit 8 (ucast (ucast (drop_bit 8 w) :: u8)) XOR ucast (ucast w :: u8)) n = bit w n"
        by (elim disjE exE conjE) (simp_all add: bit_simps)
    qed
    show "GETU32 (PUTU32 a @ PUTU32 b @ PUTU32 c @ PUTU32 d) 0 = a"
      "GETU32 (PUTU32 a @ PUTU32 b @ PUTU32 c @ PUTU32 d) 4 = b"
      "GETU32 (PUTU32 a @ PUTU32 b @ PUTU32 c @ PUTU32 d) 8 = c"
      "GETU32 (PUTU32 a @ PUTU32 b @ PUTU32 c @ PUTU32 d) 12 = d"
      by (simp_all add: GETU32_def PUTU32_def w One_nat_def)
  qed
  have k: "rk ! 0 = k ! o4" "rk ! 1 = k ! (o4 + 1)" "rk ! 2 = k ! (o4 + 2)" "rk ! 3 = k ! (o4 + 3)"
    using spec [OF assms, of 0] spec [OF assms, of 1] spec [OF assms, of 2] spec [OF assms, of 3] by simp_all
  show ?thesis by (cases s) (simp only: put_block_def get_block_def add_key_def prod.case g k)
qed

lemma put_get_block:
  assumes "length pt = 16" "\<forall>j < 4. rk ! j = k ! (o4 + j)"
  shows "put_block (add_key (nth k) o4 (get_block pt rk)) = pt"
proof -
  have k: "rk ! 0 = k ! o4" "rk ! 1 = k ! (o4 + 1)" "rk ! 2 = k ! (o4 + 2)" "rk ! 3 = k ! (o4 + 3)"
    using spec [OF assms(2), of 0] spec [OF assms(2), of 1] spec [OF assms(2), of 2] spec [OF assms(2), of 3] by simp_all
  obtain x where "pt = map x [0 ..< 16]" using map_nth [of pt] assms(1) by metis
  moreover have "[0 ..< 16] = [0, 1, 2, 3, 4, 5, 6, 7, 8, 9, 10, 11, 12, 13, 14, 15 :: nat]"
    by (simp add: upt_rec)
  ultimately have pt: "pt = map x [0, 1, 2, 3, 4, 5, 6, 7, 8, 9, 10, 11, 12, 13, 14, 15]" by simp
  have w: "PUTU32 (push_bit 24 (ucast p) XOR push_bit 16 (ucast q) XOR push_bit 8 (ucast r) XOR ucast t) = [p, q, r, t]"
    for p q r t :: u8
  proof -
  have "ucast (drop_bit 24 (push_bit 24 (ucast p) XOR push_bit 16 (ucast q) XOR push_bit 8 (ucast r) XOR ucast t :: u32)) = p"
    "ucast (drop_bit 16 (push_bit 24 (ucast p) XOR push_bit 16 (ucast q) XOR push_bit 8 (ucast r) XOR ucast t :: u32)) = q"
    "ucast (drop_bit 8 (push_bit 24 (ucast p) XOR push_bit 16 (ucast q) XOR push_bit 8 (ucast r) XOR ucast t :: u32)) = r"
    "ucast (push_bit 24 (ucast p) XOR push_bit 16 (ucast q) XOR push_bit 8 (ucast r) XOR ucast t :: u32) = t"
    by (rule bit_word_eqI, auto simp: bit_simps dest: bit_imp_le_length)+
    then show ?thesis by (simp only: PUTU32_def)
  qed
  have i: "put_block (a, b, c, d) = PUTU32 a @ PUTU32 b @ PUTU32 c @ PUTU32 d" for a b c d
    by (simp add: put_block_def)
  have "add_key (nth k) o4 (get_block pt rk) = (GETU32 pt 0, GETU32 pt 4, GETU32 pt 8, GETU32 pt 12)"
    by (simp only: add_key_def get_block_def prod.case k xor.assoc xor_self_eq xor.right_neutral)
  then have "put_block (add_key (nth k) o4 (get_block pt rk))
      = PUTU32 (GETU32 pt 0) @ PUTU32 (GETU32 pt 4) @ PUTU32 (GETU32 pt 8) @ PUTU32 (GETU32 pt 12)"
    by (simp only: i)
  also have "\<dots> = pt" by (simp only: GETU32_def w) (simp add: pt One_nat_def)
  finally show ?thesis .
qed

lemma decrypt_encrypt:
  assumes "inverse_keys nr rk rkd" "even nr" "0 < nr" "length pt = 16"
  obtains ct where "rijndaelEncrypt rk nr pt = Inr ct" "length ct = 16" "rijndaelDecrypt rkd nr ct = Inr pt"
proof -
  let ?E = "fold (\<lambda>i. enc_round rk (4 * i)) [1 ..< nr] (get_block pt rk)"
  let ?ct = "put_block (enc_last rk (4 * nr) ?E)"
  have len: "4 * (nr + 1) \<le> length rk" "4 * (nr + 1) \<le> length rkd" using assms(1) by (simp_all add: inverse_keys_def)
  have ke: "\<forall>j < 4. rkd ! j = rk ! (4 * nr + j)"
  proof (intro allI impI)
    fix j :: nat assume "j < 4"
    then show "rkd ! j = rk ! (4 * nr + j)" using inverse_keys_nth [OF assms(1), of 0 j] by simp
  qed
  have kl: "\<forall>j < 4. rk ! j = rkd ! (4 * nr + j)"
  proof (intro allI impI)
    fix j :: nat assume "j < 4"
    then show "rk ! j = rkd ! (4 * nr + j)" using inverse_keys_nth [OF assms(1), of nr j] by simp
  qed
  have nd: "Suc (nr - 1) = nr" using assms(3) by simp
  have "get_block ?ct rkd = sub_shift ?E"
    unfolding get_put_block [OF ke] enc_last_steps by (rule add_key_twice)
  then have "fold (\<lambda>i. dec_round rkd (4 * i)) [1 ..< nr] (get_block ?ct rkd) = sub_shift (get_block pt rk)"
    using dec_rounds [OF assms(1), of "nr - 1" "get_block pt rk"] assms(3) unfolding nd by simp
  then have "rijndaelDecrypt rkd nr ?ct = Inr (put_block (add_key (nth rkd) (4 * nr) (get_block pt rk)))"
    using len(2) by (simp add: rijndaelDecrypt_def round_loop_even [OF assms(2,3)] length_put_block dec_last_sub_shift)
  also have "put_block (add_key (nth rkd) (4 * nr) (get_block pt rk)) = pt"
    by (rule put_get_block [OF assms(4) kl])
  finally show ?thesis
    using len(1) assms(4) by (intro that [of ?ct]) (simp_all add: rijndaelEncrypt_def round_loop_even [OF assms(2,3)] length_put_block)
qed

section \<open>The key schedule for decryption\<close>

lemma length_setup192: "length (setup192 (Suc n) w) = length w + 6 * n + 4"
proof (induction n arbitrary: w)
  case (Suc n)
  show ?case by (subst setup192.simps(2)) (simp add: Let_def Suc.IH del: setup192.simps)
qed (simp add: Let_def)

lemma length_setup256: "length (setup256 (Suc n) w) = length w + 8 * n + 4"
proof (induction n arbitrary: w)
  case (Suc n)
  show ?case by (subst setup256.simps(2)) (simp add: Let_def Suc.IH del: setup256.simps)
qed (simp add: Let_def)

text \<open>A key of a supported size, and what the set-up then returns.\<close>

definition key_rounds :: "nat \<Rightarrow> nat" where
  "key_rounds keyBits = (if keyBits = 128 then 10 else if keyBits = 192 then 12 else 14)"

lemma rijndaelKeySetupEnc_result:
  assumes "keyBits = 128 \<or> keyBits = 192 \<or> keyBits = 256" "8 * length cipherKey = keyBits"
  obtains rk where "rijndaelKeySetupEnc cipherKey keyBits = Inr (key_rounds keyBits, rk)"
    "length rk = 4 * (key_rounds keyBits + 1)"
  using assms length_setup192 [of 7 "key_words cipherKey 6"] length_setup256 [of 6 "key_words cipherKey 8"]
  by (auto simp: rijndaelKeySetupEnc_def key_rounds_def length_setup128)

lemma length_word_groups [simp]: "length (word_groups n w) = n"
  by (induction n arbitrary: w) simp_all

lemma nth_word_groups: "i < n \<Longrightarrow> word_groups n w ! i = take 4 (drop (4 * i) w)"
  by (induction n arbitrary: w i) (auto simp: nth_Cons' less_Suc_eq_0_disj add.commute)

lemma nth_concat4:
  assumes "\<And>k. k < length xss \<Longrightarrow> length (xss ! k) = 4" "i < length xss" "j < 4"
  shows "concat (xss @ yss) ! (4 * i + j) = xss ! i ! j"
  using assms
proof (induction xss arbitrary: i)
  case (Cons xs xss)
  have l: "length xs = 4" using Cons.prems(1) [of 0] by simp
  show ?case
  proof (cases i)
    case 0
    then show ?thesis using l Cons.prems(3) by (simp add: nth_append)
  next
    case (Suc k)
    have "concat (xss @ yss) ! (4 * k + j) = xss ! k ! j"
      by (rule Cons.IH) (use Cons.prems(1) [of "Suc _"] Cons.prems(2,3) Suc in auto)
    then show ?thesis using l by (simp add: Suc nth_append)
  qed
qed simp

lemma rijndaelKeySetupDec_inverse:
  assumes "rijndaelKeySetupEnc cipherKey keyBits = Inr (nr, rk)" "length rk = 4 * (nr + 1)"
  obtains rkd where "rijndaelKeySetupDec cipherKey keyBits = Inr (nr, rkd)" "inverse_keys nr rk rkd"
proof -
  define gs where "gs = rev (word_groups (nr + 1) rk) @ [drop (4 * (nr + 1)) rk]"
  define f where "f = (\<lambda>i. if 0 < i \<and> i < nr then map inv_mix_word (gs ! i) else gs ! i)"
  have g: "gs ! i = take 4 (drop (4 * (nr - i)) rk)" if "i \<le> nr" for i
    using that by (simp add: gs_def nth_append rev_nth nth_word_groups)
  have len: "length (gs ! i) = 4" if "i \<le> nr" for i
    using that assms(2) by (simp add: g)
  have nth: "concat (map f [0 ..< nr + 2]) ! (4 * i + j) =
      (if 0 < i \<and> i < nr then inv_mix_word (rk ! (4 * (nr - i) + j)) else rk ! (4 * (nr - i) + j))"
    if "i \<le> nr" "j < 4" for i j
  proof -
    have m: "map f [0 ..< nr + 2] = map f [0 ..< nr + 1] @ [f (nr + 1)]" by (simp add: One_nat_def)
    have "concat (map f [0 ..< nr + 2]) ! (4 * i + j) = map f [0 ..< nr + 1] ! i ! j"
      unfolding m
      by (rule nth_concat4) (use that len in \<open>simp_all add: f_def nth_append less_Suc_eq_le\<close>)
    also have "map f [0 ..< nr + 1] ! i = f i" using that by (simp del: upt_Suc)
    also have "f i ! j = (if 0 < i \<and> i < nr then inv_mix_word (gs ! i ! j) else gs ! i ! j)"
      using that len [of i] by (simp add: f_def)
    also have "gs ! i ! j = rk ! (4 * (nr - i) + j)"
      using that assms(2) by (simp add: g)
    finally show ?thesis .
  qed
  have "length (concat (map f [0 ..< nr + 1])) = 4 * (nr + 1)"
  proof -
    have "map length (map f [0 ..< nr + 1]) = replicate (nr + 1) 4"
      by (rule nth_equalityI) (auto simp: f_def len less_Suc_eq_le simp del: upt_Suc replicate_Suc)
    then show ?thesis by (simp only: length_concat sum_list_replicate) simp
  qed
  moreover have "concat (map f [0 ..< nr + 2]) = concat (map f [0 ..< nr + 1]) @ f (nr + 1)"
    by (simp add: One_nat_def)
  ultimately have "4 * (nr + 1) \<le> length (concat (map f [0 ..< nr + 2]))" by (simp only: length_append)
  then have "inverse_keys nr rk (concat (map f [0 ..< nr + 2]))"
    using assms(2) nth unfolding inverse_keys_def by (simp only: order_refl) blast
  moreover have "rijndaelKeySetupDec cipherKey keyBits = Inr (nr, concat (map f [0 ..< nr + 2]))"
    by (simp only: rijndaelKeySetupDec_def assms(1) bind_out_simps prod.case Let_def f_def gs_def)
  ultimately show ?thesis by (rule that [rotated])
qed

text \<open>Decrypting an encrypted block.\<close>

lemma decrypt_encrypt_key:
  assumes "keyBits = 128 \<or> keyBits = 192 \<or> keyBits = 256" "8 * length cipherKey = keyBits" "length pt = 16"
  obtains rk rkd ct where "rijndaelKeySetupEnc cipherKey keyBits = Inr (key_rounds keyBits, rk)"
    "rijndaelKeySetupDec cipherKey keyBits = Inr (key_rounds keyBits, rkd)"
    "rijndaelEncrypt rk (key_rounds keyBits) pt = Inr ct" "length ct = 16"
    "rijndaelDecrypt rkd (key_rounds keyBits) ct = Inr pt"
proof -
  obtain rk where rk: "rijndaelKeySetupEnc cipherKey keyBits = Inr (key_rounds keyBits, rk)"
    "length rk = 4 * (key_rounds keyBits + 1)" by (rule rijndaelKeySetupEnc_result [OF assms(1,2)])
  obtain rkd where rkd: "rijndaelKeySetupDec cipherKey keyBits = Inr (key_rounds keyBits, rkd)"
    "inverse_keys (key_rounds keyBits) rk rkd" by (rule rijndaelKeySetupDec_inverse [OF rk])
  obtain ct where ct: "rijndaelEncrypt rk (key_rounds keyBits) pt = Inr ct" "length ct = 16"
    "rijndaelDecrypt rkd (key_rounds keyBits) ct = Inr pt"
    by (rule decrypt_encrypt [OF rkd(2) _ _ assms(3)]) (simp_all add: key_rounds_def)
  show ?thesis by (rule that [OF rk(1) rkd(1) ct])
qed

text \<open>C16: For every key of 128, 192 or 256 bits and every block, the two key set-ups
  succeed and decryption with the one schedule gives back the block that was encrypted with the other.\<close>

theorem rijndael_roundtrip:
  assumes "keyBits = 128 \<or> keyBits = 192 \<or> keyBits = 256" "8 * length cipherKey = keyBits" "length pt = 16"
  shows "bind_out (rijndaelKeySetupEnc cipherKey keyBits) (\<lambda>(nr, rk).
           bind_out (rijndaelKeySetupDec cipherKey keyBits) (\<lambda>(nrd, rkd).
             bind_out (rijndaelEncrypt rk nr pt) (rijndaelDecrypt rkd nrd))) = Inr pt"
  by (rule decrypt_encrypt_key [OF assms]) simp

theorem rijndael_roundtrip_witness:
  "bind_out (rijndaelKeySetupEnc (replicate 16 7) 128) (\<lambda>(nr, rk).
     bind_out (rijndaelKeySetupDec (replicate 16 7) 128) (\<lambda>(nrd, rkd).
       bind_out (rijndaelEncrypt rk nr (map of_nat [0 ..< 16])) (rijndaelDecrypt rkd nrd)))
   = Inr (map of_nat [0 ..< 16])"
  by (rule rijndael_roundtrip) simp_all

section \<open>The unrolled rounds\<close>

text \<open>The \<open>FULL_UNROLL\<close> rounds between the first key addition and the last round.\<close>

definition rijndaelEncrypt_unrolled :: "u32 list \<Rightarrow> nat \<Rightarrow> u8 list \<Rightarrow> u8 list outcome" where
  "rijndaelEncrypt_unrolled rk nr pt =
     (if length pt < 16 \<or> length rk < 4 * (nr + 1) \<or> length rk < 40 then Inl Out_of_bounds
      else
        let s = get_block pt rk;
            t = enc_round rk 4 s; s = enc_round rk 8 t;
            t = enc_round rk 12 s; s = enc_round rk 16 t;
            t = enc_round rk 20 s; s = enc_round rk 24 t;
            t = enc_round rk 28 s; s = enc_round rk 32 t;
            t = enc_round rk 36 s;
            t = (if nr > 10 then
                   let s = enc_round rk 40 t; t = enc_round rk 44 s
                   in if nr > 12 then let s = enc_round rk 48 t in enc_round rk 52 s else t
                 else t)
        in Inr (put_block (enc_last rk (4 * nr) t)))"

definition rijndaelDecrypt_unrolled :: "u32 list \<Rightarrow> nat \<Rightarrow> u8 list \<Rightarrow> u8 list outcome" where
  "rijndaelDecrypt_unrolled rk nr ct =
     (if length ct < 16 \<or> length rk < 4 * (nr + 1) \<or> length rk < 40 then Inl Out_of_bounds
      else
        let s = get_block ct rk;
            t = dec_round rk 4 s; s = dec_round rk 8 t;
            t = dec_round rk 12 s; s = dec_round rk 16 t;
            t = dec_round rk 20 s; s = dec_round rk 24 t;
            t = dec_round rk 28 s; s = dec_round rk 32 t;
            t = dec_round rk 36 s;
            t = (if nr > 10 then
                   let s = dec_round rk 40 t; t = dec_round rk 44 s
                   in if nr > 12 then let s = dec_round rk 48 t in dec_round rk 52 s else t
                 else t)
        in Inr (put_block (dec_last rk (4 * nr) t)))"

text \<open>
  The round functions of \<open>INTERMEDIATE_VALUE_KAT\<close>, which stop after a number of rounds. Their loop
  moves the key pointer by four words a turn.
\<close>

fun kat_loop :: "(nat \<Rightarrow> aes_words \<Rightarrow> aes_words) \<Rightarrow> nat \<Rightarrow> nat \<Rightarrow> aes_words \<Rightarrow> aes_words \<times> nat" where
  "kat_loop rnd 0 k s = (s, k)"
| "kat_loop rnd (Suc r) k s = kat_loop rnd r (k + 4) (rnd k s)"

definition rijndaelEncryptRound :: "u32 list \<Rightarrow> nat \<Rightarrow> u8 list \<Rightarrow> int \<Rightarrow> u8 list outcome" where
  "rijndaelEncryptRound rk nr block rounds =
     (if length block < 16 \<or> length rk < 4 * (nr + 1) then Inl Out_of_bounds
      else
        let s = get_block block rk;
            (s, k) = kat_loop (enc_round rk) (nat (if rounds < int nr then rounds else int nr - 1)) 4 s;
            s = (if rounds = int nr then enc_last rk k s else s)
        in Inr (put_block s @ drop 16 block))"

definition rijndaelDecryptRound :: "u32 list \<Rightarrow> nat \<Rightarrow> u8 list \<Rightarrow> int \<Rightarrow> u8 list outcome" where
  "rijndaelDecryptRound rk nr block rounds =
     (if length block < 16 \<or> length rk < 4 * (nr + 1) then Inl Out_of_bounds
      else
        let s = get_block block rk;
            (s, k) = kat_loop (dec_round rk) (nat ((if rounds < int nr then rounds else int nr) - 1)) 4 s;
            t = (case s of (s0, s1, s2, s3) \<Rightarrow>
                   (td_last s0 s3 s2 s1 0, td_last s1 s0 s3 s2 0, td_last s2 s1 s0 s3 0, td_last s3 s2 s1 s0 0));
            t = (case t of (t0, t1, t2, t3) \<Rightarrow>
                   if rounds = int nr
                   then (t0 XOR rk ! k, t1 XOR rk ! (k + 1), t2 XOR rk ! (k + 2), t3 XOR rk ! (k + 3))
                   else (t0, t1, t2, t3))
        in Inr (put_block t @ drop 16 block))"

lemma kat_loop_fold: "kat_loop rnd r (4 * a) s = (fold (\<lambda>i. rnd (4 * i)) [a ..< a + r] s, 4 * (a + r))"
proof (induction r arbitrary: a s)
  case (Suc r)
  have "[a ..< a + Suc r] = a # [Suc a ..< Suc a + r]" by (simp add: upt_conv_Cons del: upt_Suc)
  then show ?case using Suc.IH [of "Suc a"] by (simp add: add.commute del: upt_Suc)
qed simp

lemma upt_10_12_14:
  "[1 ..< 10] = [1, 2, 3, 4, 5, 6, 7, 8, 9 :: nat]"
  "[1 ..< 12] = [1, 2, 3, 4, 5, 6, 7, 8, 9, 10, 11 :: nat]"
  "[1 ..< 14] = [1, 2, 3, 4, 5, 6, 7, 8, 9, 10, 11, 12, 13 :: nat]"
  by (simp_all add: upt_rec)

lemma round_loop_10_12_14:
  "round_loop rnd 5 0 s = Some (fold (\<lambda>i. rnd (4 * i)) [1 ..< 10] s, 40)"
  "round_loop rnd 6 0 s = Some (fold (\<lambda>i. rnd (4 * i)) [1 ..< 12] s, 48)"
  "round_loop rnd 7 0 s = Some (fold (\<lambda>i. rnd (4 * i)) [1 ..< 14] s, 56)"
  using round_loop_even [of 10 rnd s] round_loop_even [of 12 rnd s] round_loop_even [of 14 rnd s]
  by simp_all

text \<open>C17: The three ways the source writes the cipher agree: the unrolled rounds and the
  round functions called with all the rounds compute the same block as the loops that are compiled, for
  10, 12 and 14 rounds and key schedules of the size that the key set-up writes.\<close>

theorem rijndael_variants:
  assumes "nr = 10 \<or> nr = 12 \<or> nr = 14" "length block = 16" "length rk = 4 * (nr + 1)"
  shows "rijndaelEncrypt_unrolled rk nr block = rijndaelEncrypt rk nr block
    \<and> rijndaelDecrypt_unrolled rk nr block = rijndaelDecrypt rk nr block
    \<and> rijndaelEncryptRound rk nr block (int nr) = rijndaelEncrypt rk nr block
    \<and> rijndaelDecryptRound rk nr block (int nr) = rijndaelDecrypt rk nr block"
proof (intro conjI)
  have e: "even nr" "0 < nr" using assms(1) by auto
  have n: "nat (int nr - 1) = nr - 1" "1 + (nr - 1) = nr" using e(2) by simp_all
  note loops = kat_loop_fold [of _ "nr - 1" 1, unfolded n, simplified]
  show "rijndaelEncrypt_unrolled rk nr block = rijndaelEncrypt rk nr block"
    using assms by (elim disjE) (simp_all add: rijndaelEncrypt_unrolled_def rijndaelEncrypt_def
        round_loop_10_12_14 upt_10_12_14 Let_def)
  show "rijndaelDecrypt_unrolled rk nr block = rijndaelDecrypt rk nr block"
    using assms by (elim disjE) (simp_all add: rijndaelDecrypt_unrolled_def rijndaelDecrypt_def
        round_loop_10_12_14 upt_10_12_14 Let_def)
  show "rijndaelEncryptRound rk nr block (int nr) = rijndaelEncrypt rk nr block"
    using assms(2,3) by (simp add: rijndaelEncryptRound_def rijndaelEncrypt_def n loops
        round_loop_even [OF e] Let_def)
  show "rijndaelDecryptRound rk nr block (int nr) = rijndaelDecrypt rk nr block"
    using assms(2,3) by (simp add: rijndaelDecryptRound_def rijndaelDecrypt_def n loops
        round_loop_even [OF e] Let_def dec_last_def td_last_def xor.assoc split: prod.split)
qed

theorem rijndael_variants_witness:
  "rijndaelEncrypt_unrolled (replicate 44 1) 10 (replicate 16 2) = rijndaelEncrypt (replicate 44 1) 10 (replicate 16 2)"
  by (rule conjunct1 [OF rijndael_variants]) simp_all

section \<open>Validation bytes\<close>

lemma rijndaelEncrypt_injective:
  assumes "8 * length cipherKey = 128" "rijndaelKeySetupEnc cipherKey 128 = Inr (10, rk)"
    "length pt = 16" "length pt' = 16" "rijndaelEncrypt rk 10 pt = rijndaelEncrypt rk 10 pt'"
  shows "pt = pt'"
proof -
  have k: "(128 :: nat) = 128 \<or> (128 :: nat) = 192 \<or> (128 :: nat) = 256" by simp
  obtain r rkd ct where r: "rijndaelKeySetupEnc cipherKey 128 = Inr (key_rounds 128, r)"
    "rijndaelKeySetupDec cipherKey 128 = Inr (key_rounds 128, rkd)"
    "rijndaelEncrypt r (key_rounds 128) pt = Inr ct" "rijndaelDecrypt rkd (key_rounds 128) ct = Inr pt"
    by (rule decrypt_encrypt_key [OF k assms(1,3)])
  obtain r' rkd' ct' where r': "rijndaelKeySetupEnc cipherKey 128 = Inr (key_rounds 128, r')"
    "rijndaelKeySetupDec cipherKey 128 = Inr (key_rounds 128, rkd')"
    "rijndaelEncrypt r' (key_rounds 128) pt' = Inr ct'" "rijndaelDecrypt rkd' (key_rounds 128) ct' = Inr pt'"
    by (rule decrypt_encrypt_key [OF k assms(1,4)])
  have "rk = r" "rk = r'" "rkd = rkd'" using assms(2) r(1,2) r'(1,2) by simp_all
  then have "ct = ct'" using assms(5) r(3) r'(3) by (simp add: key_rounds_def)
  then show ?thesis using r(4) r'(4) \<open>rkd = rkd'\<close> by simp
qed

text \<open>What the port adds to byte \<open>i\<close> of the block.\<close>

definition port_fold :: "u16 \<Rightarrow> nat \<Rightarrow> u8" where
  "port_fold p i = (if i = 0 then ucast (drop_bit 8 p) else if i = 3 then ucast (p AND 0xFF) else 0)"

lemma validate_input_nth:
  "i < 16 \<Longrightarrow> validate_input n src dst p ! i =
     (if i < n then src ! i XOR dst ! i else 0) XOR port_fold p i"
  by (auto simp: validate_input_def Let_def AES_KEY_BYTES_def port_fold_def nth_list_update)

lemma length_validate_input [simp]: "length (validate_input n src dst p) = 16"
  by (simp add: validate_input_def Let_def AES_KEY_BYTES_def)

lemma xor_left_cancel: "a XOR b = a XOR c \<longleftrightarrow> b = (c :: 'a :: len word)"
proof
  assume "a XOR b = a XOR c"
  then have "a XOR (a XOR b) = a XOR (a XOR c)" by simp
  then show "b = c" by (simp flip: xor.assoc)
qed simp

lemma all_less_4: "(\<forall>i < 4. P i) \<longleftrightarrow> P 0 \<and> P 1 \<and> P 2 \<and> P (3 :: nat)"
  by (auto simp: numeral_eq_Suc less_Suc_eq One_nat_def)

lemma validate_input_eq_iff:
  assumes "4 \<le> n" "n \<le> 16"
  shows "validate_input n src dst p = validate_input n src dst' p'
     \<longleftrightarrow> (\<forall>i < n. dst ! i XOR port_fold p i = dst' ! i XOR port_fold p' i)"
proof -
  have out: "port_fold q i = 0" if "\<not> i < n" for q i
    using that assms(1) by (simp add: port_fold_def)
  have "validate_input n src dst p = validate_input n src dst' p' \<longleftrightarrow>
      (\<forall>i < 16. validate_input n src dst p ! i = validate_input n src dst' p' ! i)"
    by (simp add: list_eq_iff_nth_eq)
  also have "\<dots> \<longleftrightarrow> (\<forall>i < 16. i < n \<longrightarrow> dst ! i XOR port_fold p i = dst' ! i XOR port_fold p' i)"
    by (intro all_cong1 imp_cong refl)
      (auto simp: validate_input_nth out xor.assoc xor_left_cancel)
  finally show ?thesis using assms(2) by auto
qed

text \<open>C18: Two probes of one source get the same validation bytes exactly when their
  destinations agree byte for byte after the port has been folded into bytes 0 and 3. In particular a
  reply is validated only against its own address when the ports are equal, while a probe to another
  address whose bytes 0 and 3 differ as the ports do gets the same bytes.\<close>

theorem validate_gen_same_iff:
  assumes "validate_init True seed None = Inr v" "n = 4 \<or> n = 16"
    "length src = n" "length dst = n" "length dst' = n"
  shows "validate_gen v n src dst p = validate_gen v n src dst' p'
     \<longleftrightarrow> (\<forall>i < n. dst ! i XOR port_fold p i = dst' ! i XOR port_fold p' i)"
proof -
  have len: "8 * length (seed_key seed) = 128" by (simp add: seed_key_def)
  obtain sched where s: "rijndaelKeySetupEnc (seed_key seed) 128 = Inr (10, sched)"
    "v = \<lparr>inited = True, val_sched = sched\<rparr>"
    using assms(1)
    by (auto simp: validate_init_def AES_KEY_BYTES_def AES_ROUNDS_def bind_out_def split: sum.splits if_splits)
  have "validate_gen v n src dst p = validate_gen v n src dst' p'
      \<longleftrightarrow> rijndaelEncrypt sched 10 (validate_input n src dst p) = rijndaelEncrypt sched 10 (validate_input n src dst' p')"
    using assms(2-5) by (auto simp: validate_gen_def s(2) AES_KEY_BYTES_def AES_ROUNDS_def)
  also have "\<dots> \<longleftrightarrow> validate_input n src dst p = validate_input n src dst' p'"
    using rijndaelEncrypt_injective [OF len s(1)] by auto
  finally show ?thesis using assms(2) by (auto simp: validate_input_eq_iff)
qed

theorem validate_gen_same_iff_witness:
  "\<exists>v. validate_init True 1 None = Inr v
     \<and> validate_gen v 4 [10, 0, 0, 1] [1, 2, 3, 4] 80 \<noteq> validate_gen v 4 [10, 0, 0, 1] [1, 2, 3, 5] 80
     \<and> validate_gen v 4 [10, 0, 0, 1] [1, 2, 3, 4] 80 = validate_gen v 4 [10, 0, 0, 1] [1, 2, 3, 5] 81"
proof -
  have "length (seed_key 1) = 16" by (simp add: seed_key_def)
  then obtain v where v: "validate_init True 1 None = Inr v"
    by (simp add: validate_init_def rijndaelKeySetupEnc_def AES_KEY_BYTES_def AES_ROUNDS_def)
  note eq = validate_gen_same_iff [OF v, of 4 "[10, 0, 0, 1]" "[1, 2, 3, 4]" "[1, 2, 3, 5]"]
  show ?thesis using v by (simp add: eq all_less_4 port_fold_def)
qed

end
