(* ===== verification/Sender.thy ===== *)
theory Sender
  imports Iterator
begin

text \<open>
  The sender: \<open>src/send.c\<close>. \<open>send_init\<close> fixes the rate and sets up the scan; \<open>send_run\<close> is a thread: it
  takes the targets of its shard one after the other, puts interface identifiers into the prefix,
  has the probe module make the packets and hands them to the network. What happens outside is a
  record of oracles that are asked in order; what was made and sent is recorded in order. The pauses
  between packets, which depend on floating point measurements of time, are not part of the model.
\<close>

section \<open>The rate\<close>

text \<open>The bits of a frame on the wire.\<close>

definition frame_bits :: "u64 \<Rightarrow> u64" where
  "frame_bits packet_length = (let l = packet_length * 8 + 8 * 24 in if l < 84 * 8 then 84 * 8 else l)"

text \<open>
  The packets per second, an \<open>int\<close>, and the bits per second, from the options; \<open>-1\<close> packets are the
  default. A rate that is computed from the bandwidth is truncated to an \<open>int\<close>.
\<close>

definition send_rate :: "u64 \<Rightarrow> int \<Rightarrow> u64 \<Rightarrow> (int \<times> u64) outcome" where
  "send_rate packet_length rate bandwidth =
     (if bandwidth > 0 \<and> rate > 0 then Inl Log_fatal
      else
        let bits = frame_bits packet_length;
            rate = (if bandwidth > 0 then
                      if bandwidth div bits > 0xFFFFFFFF then 0
                      else let r = sint (ucast (bandwidth div bits) :: u32) in if r = 0 then 1 else r
                    else rate);
            rate = (if rate = - 1 then 1 else rate)
        in if rate < 0 then Inl Log_fatal
           else Inr (rate, if rate > 0 \<and> bandwidth = 0 then of_int rate * bits else bandwidth))"

section \<open>Set-up\<close>

text \<open>
  \<open>send_init\<close> with the limits of the scan; the last two arguments say whether the initialisations of
  the probe module and of the IID module succeed. The result has the rate, the iterator and the
  offset of the first source address.
\<close>

definition send_init ::
    "scan_conf \<Rightarrow> iter_conf \<Rightarrow> target_list \<Rightarrow> blocklist \<Rightarrow> aesrand \<Rightarrow> u8 \<Rightarrow> u16 \<Rightarrow> u16 \<Rightarrow> u32
       \<Rightarrow> u64 \<Rightarrow> int \<Rightarrow> u64 \<Rightarrow> bool \<Rightarrow> bool \<Rightarrow> bool \<Rightarrow> u64 \<Rightarrow> u8 list option
       \<Rightarrow> ((int \<times> u64) \<times> iterator \<times> scan_conf \<times> blocklist \<times> aesrand \<times> u32 \<times> validate) run" where
  "send_init conf ic tlist bl aes senders shard_num total_shards number_source_ips
       packet_length rate bandwidth probe_ok iid_ok seed_provided seed random_key =
     bind_run (Some (send_rate packet_length rate bandwidth)) (\<lambda>rb.
     let num_subshards = (ucast senders * ucast total_shards :: u32) in
     bind_run (Some (blocklist_count_allowed_ip_port bl)) (\<lambda>n.
     if mpz_lt_ui n (uint num_subshards) then Some (Inl Log_fatal)
     else if max_targets ic \<noteq> 0 \<and> ucast num_subshards > max_targets ic then Some (Inl Log_fatal)
     else
       bind_run (iterator_init conf ic tlist bl aes senders shard_num total_shards) (\<lambda>(it, conf, bl, aes).
       bind_run (Some (if number_source_ips = 1 then Inr (0, aes)
                       else bind_out (aesrand_getword aes) (\<lambda>(w, aes).
                              if number_source_ips = 0 then Inl Undefined_value
                              else Inr (ucast w mod number_source_ips, aes)))) (\<lambda>(srcip_offset, aes).
       if \<not> probe_ok \<or> \<not> iid_ok then Some (Inl Log_fatal)
       else bind_run (Some (validate_init seed_provided seed random_key)) (\<lambda>va.
         Some (Inr (rb, it, conf, bl, aes, srcip_offset, va)))))))"

section \<open>Sending\<close>

definition MAX_BUFF :: nat where "MAX_BUFF = 4096"
definition ETHER :: nat where "ETHER = 14"

text \<open>
  The configuration of a thread. \<open>make_packet\<close> is the callback of the probe module: the buffer, the
  source and destination, the port, the number in the stream and the index; it returns the buffer and
  the length of the packet.
\<close>

record send_conf =
  send_scan :: scan_conf
  tga_targets :: bool
  listed_targets :: bool
  iid_num :: nat
  packet_streams_num :: nat
  source_ips :: "u8 list list"
  num_source_ips :: u32
  src_offset :: u32
  num_retries :: nat
  only_ip :: bool
  send_dryrun :: bool
  max_runtime :: nat
  probe_thread_init :: "u8 list \<Rightarrow> u8 list outcome"
  make_packet :: "u8 list \<Rightarrow> u8 list \<Rightarrow> u8 list \<Rightarrow> u16 \<Rightarrow> nat \<Rightarrow> u32 \<Rightarrow> (u8 list \<times> nat) outcome"

text \<open>
  The world outside: at the \<open>n\<close>-th packet, whether the receiver is done and the whole seconds since the
  start; for the \<open>n\<close>-th target and a number, the suffix that the IID module gives; whether the \<open>n\<close>-th
  call that sends a packet succeeds.
\<close>

record send_env =
  recv_done :: "nat \<Rightarrow> bool"
  elapsed :: "nat \<Rightarrow> nat"
  current_iid :: "nat \<Rightarrow> nat \<Rightarrow> u8 list"
  send_ok :: "nat \<Rightarrow> bool"

text \<open>
  A probe that was made: address, port, index and the number in its stream. The state of a thread: its
  shard, the block list, the buffer; how often the oracles were asked; the probes, the packets that
  were sent and those that were printed instead.
\<close>

type_synonym probe = "u8 list \<times> u16 \<times> u32 \<times> nat"

record sender =
  sd :: shard
  sd_bl :: blocklist
  sd_buff :: "u8 list"
  checks :: nat
  targets_taken :: nat
  attempts :: nat
  made :: "probe list"
  wire :: "u8 list list"
  shown :: "u8 list list"

text \<open>
  The source address: an offset of 8 bits from the offset of the scan, the number in the stream and
  the bytes of the destination.
\<close>

definition get_src_ip :: "send_conf \<Rightarrow> u8 list \<Rightarrow> nat \<Rightarrow> u8 list outcome" where
  "get_src_ip c dst local_offset =
     (let pick = (\<lambda>k. if k < length (source_ips c) then Inr (source_ips c ! k) else Inl Out_of_bounds)
      in if num_source_ips c = 1 then pick 0
         else
           let offset = (ucast (src_offset c + of_nat local_offset) :: u8);
               offset = fold (\<lambda>b o'. o' + b) dst offset
           in if num_source_ips c = 0 then Inl Undefined_value
              else pick (unat (ucast offset mod num_source_ips c)))"

text \<open>The attempts to send a packet, up to the first that succeeds.\<close>

definition count_try :: "bool \<Rightarrow> u8 list \<Rightarrow> sender \<Rightarrow> sender" where
  "count_try ok p s =
     s\<lparr>attempts := attempts s + 1, wire := (if ok then wire s @ [p] else wire s),
       sd := (sd s)\<lparr>sh_state := (sh_state (sd s))\<lparr>packets_tried := packets_tried (sh_state (sd s)) + 1\<rparr>\<rparr>\<rparr>"

fun try_send :: "send_env \<Rightarrow> nat \<Rightarrow> u8 list \<Rightarrow> sender \<Rightarrow> bool \<times> sender" where
  "try_send e 0 p s = (False, s)"
| "try_send e (Suc n) p s =
     (let ok = send_ok e (attempts s); s = count_try ok p s in if ok then (True, s) else try_send e n p s)"

definition count_failed :: "sender \<Rightarrow> sender" where
  "count_failed s =
     s\<lparr>sd := (sd s)\<lparr>sh_state := (sh_state (sd s))\<lparr>packets_failed := packets_failed (sh_state (sd s)) + 1\<rparr>\<rparr>\<rparr>"

text \<open>The packet goes out, without its Ethernet header if only IP packets are sent.\<close>

definition transmit :: "send_conf \<Rightarrow> send_env \<Rightarrow> nat \<Rightarrow> sender \<Rightarrow> sender outcome" where
  "transmit c e len s =
     (let skip = (if only_ip c then ETHER else 0)
      in if len < skip \<or> len > length (sd_buff s) then Inl Out_of_bounds
         else case try_send e (num_retries c) (take (len - skip) (drop skip (sd_buff s))) s of
                (sent, s) \<Rightarrow> Inr (if sent then s else count_failed s))"

definition count_sent :: "sender \<Rightarrow> sender" where
  "count_sent s =
     s\<lparr>sd := (sd s)\<lparr>sh_state := (sh_state (sd s))\<lparr>packets_sent := packets_sent (sh_state (sd s)) + 1\<rparr>\<rparr>\<rparr>"

text \<open>A packet of a stream. With a dry run it is printed.\<close>

definition send_one ::
    "send_conf \<Rightarrow> send_env \<Rightarrow> u8 list \<Rightarrow> u16 \<Rightarrow> u32 \<Rightarrow> nat \<Rightarrow> sender \<Rightarrow> sender outcome" where
  "send_one c e dst port index i s =
     bind_out (get_src_ip c dst i) (\<lambda>src.
     bind_out (make_packet c (sd_buff s) src dst port i index) (\<lambda>(buff, len).
       let s = s\<lparr>sd_buff := buff, made := made s @ [(dst, port, index, i)]\<rparr> in
       if len > MAX_BUFF then Inl Log_fatal
       else bind_out (if send_dryrun c then Inr (s\<lparr>shown := shown s @ [buff]\<rparr>) else transmit c e len s)
              (\<lambda>s. Inr (count_sent s))))"

text \<open>The packets of a stream; \<open>False\<close> is the jump to the end of the thread.\<close>

definition thread_stops :: "send_conf \<Rightarrow> send_env \<Rightarrow> sender \<Rightarrow> bool" where
  "thread_stops c e s \<longleftrightarrow>
     recv_done e (checks s) \<or> (max_runtime c \<noteq> 0 \<and> max_runtime c \<le> elapsed e (checks s))
     \<or> (max_packets (sh_state (sd s)) \<noteq> 0
        \<and> packets_sent (sh_state (sd s)) \<ge> max_packets (sh_state (sd s)))"

fun send_stream ::
    "send_conf \<Rightarrow> send_env \<Rightarrow> u8 list \<Rightarrow> u16 \<Rightarrow> u32 \<Rightarrow> nat list \<Rightarrow> sender \<Rightarrow> (bool \<times> sender) outcome" where
  "send_stream c e dst port index [] s = Inr (True, s)"
| "send_stream c e dst port index (i # is) s =
     (if thread_stops c e s then Inr (False, s\<lparr>checks := checks s + 1\<rparr>)
      else bind_out (send_one c e dst port index i (s\<lparr>checks := checks s + 1\<rparr>))
             (send_stream c e dst port index is))"

text \<open>
  The identifiers of a prefix. Each is joined with the address of the one before it; targets from a
  list of addresses keep theirs.
\<close>

definition with_iid :: "send_conf \<Rightarrow> u8 list \<Rightarrow> u8 list \<Rightarrow> u8 list" where
  "with_iid c iid dst = (if listed_targets c then dst else map2 (\<lambda>a b. a OR b) dst iid)"

fun send_iids ::
    "send_conf \<Rightarrow> send_env \<Rightarrow> u16 \<Rightarrow> u32 \<Rightarrow> nat list \<Rightarrow> u8 list \<Rightarrow> sender \<Rightarrow> (bool \<times> sender) outcome" where
  "send_iids c e port index [] dst s = Inr (True, s)"
| "send_iids c e port index (u # us) dst s =
     (let dst = with_iid c (current_iid e (targets_taken s) u) dst
      in bind_out (send_stream c e dst port index [0 ..< packet_streams_num c] s) (\<lambda>(go, s).
           if go then send_iids c e port index us dst s else Inr (False, s)))"

section \<open>A thread\<close>

text \<open>A target from a list: at its end the address is all zero; port and index are those of the list.\<close>

definition listed ::
    "send_conf \<Rightarrow> shard \<Rightarrow> blocklist \<Rightarrow> get_ip_result run \<Rightarrow> (target \<times> shard \<times> blocklist) run" where
  "listed c sh bl r =
     bind_run r (\<lambda>(ret, ip, f).
     bind_run (Some (ip_target_file_get_port (send_scan c) f)) (\<lambda>port.
       Some (Inr ((if ret = EXIT_FAILURE then replicate (ipv46_bytes (send_scan c)) 0 else ip, port,
                   ip_target_file_get_index f), sh\<lparr>ip_target_file_params := f\<rparr>, bl))))"

definition first_target ::
    "send_conf \<Rightarrow> resolver \<Rightarrow> target_list \<Rightarrow> shard \<Rightarrow> blocklist \<Rightarrow> (target \<times> shard \<times> blocklist) run" where
  "first_target c net tlist sh bl =
     (let zero = replicate (ipv46_bytes (send_scan c)) 0
      in if tga_targets c then listed c sh bl (ip_target_list_get_ip net bl tlist zero (ip_target_file_params sh))
         else if listed_targets c then listed c sh bl (ip_target_file_get_ip net bl tlist zero (ip_target_file_params sh))
         else shard_get_current_ip_prefix_port_index (send_scan c) bl sh)"

definition next_target ::
    "send_conf \<Rightarrow> resolver \<Rightarrow> target_list \<Rightarrow> u8 list \<Rightarrow> shard \<Rightarrow> blocklist \<Rightarrow> (target \<times> shard \<times> blocklist) run" where
  "next_target c net tlist dst sh bl =
     (if tga_targets c then listed c sh bl (ip_target_list_get_ip net bl tlist dst (ip_target_file_params sh))
      else if listed_targets c then listed c sh bl (ip_target_file_get_ip net bl tlist dst (ip_target_file_params sh))
      else shard_get_next_ip_prefix_port_index (send_scan c) bl sh)"

definition count_host :: "sender \<Rightarrow> sender" where
  "count_host s =
     s\<lparr>targets_taken := targets_taken s + 1,
       sd := (sd s)\<lparr>sh_state := (sh_state (sd s))\<lparr>hosts_scanned := hosts_scanned (sh_state (sd s)) + 1\<rparr>\<rparr>\<rparr>"

text \<open>The address that is left in the buffer after the identifiers of a prefix.\<close>

definition last_address :: "send_conf \<Rightarrow> send_env \<Rightarrow> nat \<Rightarrow> u8 list \<Rightarrow> u8 list" where
  "last_address c e n dst = fold (\<lambda>u d. with_iid c (current_iid e n u) d) [0 ..< iid_num c] dst"

definition hosts_limit :: "sender \<Rightarrow> bool" where
  "hosts_limit s \<longleftrightarrow>
     max_hosts (sh_state (sd s)) \<noteq> 0 \<and> hosts_scanned (sh_state (sd s)) \<ge> max_hosts (sh_state (sd s))"

text \<open>The loop over the targets, up to the limit of the hosts or the all-zero address.\<close>

partial_function (option) send_loop ::
    "send_conf \<Rightarrow> send_env \<Rightarrow> resolver \<Rightarrow> target_list \<Rightarrow> target \<Rightarrow> sender \<Rightarrow> sender run" where
  "send_loop c e net tlist tg s =
     (if hosts_limit s then Some (Inr s)
      else case tg of (dst, port, index) \<Rightarrow>
        bind_run (Some (mpz_from_uint8s dst (ipv46_bytes (send_scan c)))) (\<lambda>v.
        if mpz_eq_ui v PMAP_SHARD_DONE then Some (Inr s)
        else
          bind_run (Some (send_iids c e port index [0 ..< iid_num c] dst s)) (\<lambda>(go, s').
          if \<not> go then Some (Inr s')
          else
            bind_run (next_target c net tlist (last_address c e (targets_taken s) dst) (sd (count_host s'))
                        (sd_bl s')) (\<lambda>(tg', sh', bl').
              send_loop c e net tlist tg' ((count_host s')\<lparr>sd := sh', sd_bl := bl'\<rparr>)))))"

definition send_start :: "shard \<Rightarrow> blocklist \<Rightarrow> u8 list \<Rightarrow> sender" where
  "send_start sh bl buff = \<lparr>sd = sh, sd_bl = bl, sd_buff = buff, checks = 0, targets_taken = 0, attempts = 0,
     made = [], wire = [], shown = []\<rparr>"

text \<open>
  The thread with the number of its shard. It ends with the report to the iterator. A thread whose
  socket cannot be prepared returns \<open>-1\<close> and makes no report.
\<close>

definition send_thread ::
    "send_conf \<Rightarrow> send_env \<Rightarrow> resolver \<Rightarrow> target_list \<Rightarrow> shard \<Rightarrow> blocklist \<Rightarrow> sender run" where
  "send_thread c e net tlist sh bl =
     bind_run (Some (probe_thread_init c (replicate MAX_BUFF 0))) (\<lambda>buff.
     bind_run (first_target c net tlist sh bl) (\<lambda>(tg, sh, bl).
       send_loop c e net tlist tg (send_start sh bl buff)))"

definition send_run ::
    "send_conf \<Rightarrow> send_env \<Rightarrow> resolver \<Rightarrow> target_list \<Rightarrow> bool \<Rightarrow> u8 \<Rightarrow> blocklist \<Rightarrow> iterator \<Rightarrow> send_totals
       \<Rightarrow> (int \<times> sender option \<times> iterator \<times> send_totals) run" where
  "send_run c e net tlist socket_ok thread bl it xs =
     (if \<not> socket_ok then Some (Inr (- 1, None, it, xs))
      else bind_run (send_thread c e net tlist (it_thread_shards it ! unat thread) bl) (\<lambda>s.
        bind_run (Some (shard_complete_cbi (thread_id (sd s))
            (it\<lparr>it_thread_shards := (it_thread_shards it)[unat thread := sd s]\<rparr>) xs)) (\<lambda>(it, xs).
          Some (Inr (EXIT_SUCCESS, Some s, it, xs)))))"

section \<open>Walking a shard does not depend on the counters of the sender\<close>

definition walked :: "shard_state \<Rightarrow> shard_state \<Rightarrow> bool" where
  "walked st st' \<longleftrightarrow> (\<exists>a b. st' = st\<lparr>hosts_allowlisted := a, hosts_blocklisted := b\<rparr>)"

lemma walked_refl [simp]: "walked st st"
  unfolding walked_def by (intro exI [of _ "hosts_allowlisted st"] exI [of _ "hosts_blocklisted st"]) simp

lemma walked_trans: "\<lbrakk>walked st st1; walked st1 st2\<rbrakk> \<Longrightarrow> walked st st2"
  unfolding walked_def by force

lemma walked_counts:
  assumes "walked st st'"
  shows "packets_sent st' = packets_sent st" "hosts_scanned st' = hosts_scanned st" "max_hosts st' = max_hosts st"
    "max_packets st' = max_packets st" "packets_failed st' = packets_failed st" "packets_tried st' = packets_tried st"
  using assms by (auto simp: walked_def)

definition walk_free :: "mpz \<Rightarrow> shard \<Rightarrow> mpz option \<times> shard \<Rightarrow> bool" where
  "walk_free m sh res \<longleftrightarrow> thread_id (snd res) = thread_id sh \<and> (\<forall>st. \<exists>st'. walked st st' \<and>
     next_index m (sh\<lparr>sh_state := st\<rparr>) = Some (fst res, (snd res)\<lparr>sh_state := st'\<rparr>))"

lemma next_index_walk_free:
  assumes "next_index m sh = Some res"
  shows "walk_free m sh res"
proof (rule next_index.raw_induct [where P = walk_free, OF _ assms])
  fix rec m sh res
  assume IH: "\<And>m sh res. rec m sh = Some res \<Longrightarrow> walk_free m sh res"
    and step: "(let sh1 = shard_get_next_elem sh
      in if mpz_eq (current sh1) (params_last (sh_params sh1))
         then Some (None, sh1\<lparr>current := PMAP_SHARD_DONE, iterations := iterations sh1 + 1\<rparr>)
         else let index = current sh1 - 1
              in if mpz_lt index m
                 then Some (Some index, sh1\<lparr>iterations := iterations sh1 + 1,
                        sh_state := (sh_state sh1)\<lparr>hosts_allowlisted := hosts_allowlisted (sh_state sh1) + 1\<rparr>\<rparr>)
                 else rec m (sh1\<lparr>sh_state := (sh_state sh1)\<lparr>hosts_blocklisted :=
                          hosts_blocklisted (sh_state sh1) + 1\<rparr>\<rparr>)) = Some res"
  show "walk_free m sh res"
    unfolding walk_free_def
  proof (intro conjI allI)
    show "thread_id (snd res) = thread_id sh"
    proof (cases "mpz_eq (current (shard_get_next_elem sh)) (params_last (sh_params (shard_get_next_elem sh)))
        \<or> mpz_lt (current (shard_get_next_elem sh) - 1) m")
      case True
      then show ?thesis using step by (auto simp: Let_def shard_get_next_elem_def split: if_splits)
    next
      case False
      then obtain sh1 where "rec m sh1 = Some res" "thread_id sh1 = thread_id sh"
        using step by (auto simp: Let_def shard_get_next_elem_def)
      then show ?thesis using IH unfolding walk_free_def by fastforce
    qed
    fix st
    let ?n = "shard_get_next_elem sh"
    have n: "shard_get_next_elem (sh\<lparr>sh_state := st\<rparr>) = ?n\<lparr>sh_state := st\<rparr>"
      by (simp add: shard_get_next_elem_def)
    show "\<exists>st'. walked st st' \<and> next_index m (sh\<lparr>sh_state := st\<rparr>) = Some (fst res, (snd res)\<lparr>sh_state := st'\<rparr>)"
    proof (cases "mpz_eq (current ?n) (params_last (sh_params ?n))")
      case True
      then have "res = (None, ?n\<lparr>current := PMAP_SHARD_DONE, iterations := iterations ?n + 1\<rparr>)" using step by (simp add: Let_def)
      then show ?thesis using True by (subst next_index.simps) (auto simp: n Let_def intro: exI [of _ st])
    next
      case False
      show ?thesis
      proof (cases "mpz_lt (current ?n - 1) m")
        case True
        let ?st = "st\<lparr>hosts_allowlisted := hosts_allowlisted st + 1\<rparr>"
        have "walked st ?st" unfolding walked_def by (intro exI [of _ "hosts_allowlisted st + 1"] exI [of _ "hosts_blocklisted st"]) simp
        moreover have "next_index m (sh\<lparr>sh_state := st\<rparr>) = Some (fst res, (snd res)\<lparr>sh_state := ?st\<rparr>)"
          using step False True by (subst next_index.simps) (auto simp: n Let_def)
        ultimately show ?thesis by blast
      next
        case F: False
        let ?st = "st\<lparr>hosts_blocklisted := hosts_blocklisted st + 1\<rparr>"
        let ?m = "?n\<lparr>sh_state := (sh_state ?n)\<lparr>hosts_blocklisted := hosts_blocklisted (sh_state ?n) + 1\<rparr>\<rparr>"
        have w: "walked st ?st" unfolding walked_def by (intro exI [of _ "hosts_allowlisted st"] exI [of _ "hosts_blocklisted st + 1"]) simp
        have "rec m ?m = Some res" using step False F by (simp add: Let_def)
        from IH [OF this] obtain st' where st': "walked ?st st'"
          "next_index m (?m\<lparr>sh_state := ?st\<rparr>) = Some (fst res, (snd res)\<lparr>sh_state := st'\<rparr>)"
          unfolding walk_free_def by blast
        have "next_index m (sh\<lparr>sh_state := st\<rparr>) = next_index m (?m\<lparr>sh_state := ?st\<rparr>)"
          using False F by (subst next_index.simps) (simp add: n Let_def)
        then show ?thesis using st' walked_trans [OF w st'(1)] by auto
      qed
    qed
  qed
qed

text \<open>The same for the operations that are made of it: the result of one that ends, in a shard with other counters.\<close>

definition moved :: "(shard \<Rightarrow> ('a \<times> shard \<times> blocklist) run) \<Rightarrow> shard \<Rightarrow> shard_state \<Rightarrow> bool" where
  "moved f sh st \<longleftrightarrow> (\<forall>v sh' bl'. f sh = Some (Inr (v, sh', bl')) \<longrightarrow> thread_id sh' = thread_id sh \<and>
     (\<exists>st'. walked st st' \<and> f (sh\<lparr>sh_state := st\<rparr>) = Some (Inr (v, sh'\<lparr>sh_state := st'\<rparr>, bl'))))"

lemma get_next_moved:
  "moved (shard_get_next_ipvx_port_index conf bl) sh st"
  unfolding moved_def
proof (intro allI impI)
  fix v sh' bl'
  assume r: "shard_get_next_ipvx_port_index conf bl sh = Some (Inr (v, sh', bl'))"
  show "thread_id sh' = thread_id sh \<and> (\<exists>st'. walked st st' \<and> shard_get_next_ipvx_port_index conf bl (sh\<lparr>sh_state := st\<rparr>)
    = Some (Inr (v, sh'\<lparr>sh_state := st'\<rparr>, bl')))"
  proof (cases "mpz_eq_ui (current sh) PMAP_SHARD_DONE")
    case True
    then show ?thesis using r by (auto simp: shard_get_next_ipvx_port_index_def intro: exI [of _ st])
  next
    case False
    then obtain res where n: "next_index (send_max_index conf) sh = Some res"
      using r by (auto simp: shard_get_next_ipvx_port_index_def split: option.splits)
    from next_index_walk_free [OF n] obtain st' where st': "thread_id (snd res) = thread_id sh" "walked st st'"
      "next_index (send_max_index conf) (sh\<lparr>sh_state := st\<rparr>) = Some (fst res, (snd res)\<lparr>sh_state := st'\<rparr>)"
      unfolding walk_free_def by blast
    show ?thesis using r False n st'
      by (cases res; cases "fst res") (auto simp: shard_get_next_ipvx_port_index_def)
  qed
qed

definition skip_free :: "scan_conf \<Rightarrow> mpz \<Rightarrow> shard \<Rightarrow> blocklist \<Rightarrow> (mpz \<times> shard \<times> blocklist) outcome \<Rightarrow> bool" where
  "skip_free conf v sh bl r \<longleftrightarrow> (\<forall>st v' sh' bl'. r = Inr (v', sh', bl') \<longrightarrow> thread_id sh' = thread_id sh \<and>
     (\<exists>st'. walked st st' \<and> skip_targets conf v (sh\<lparr>sh_state := st\<rparr>) bl = Some (Inr (v', sh'\<lparr>sh_state := st'\<rparr>, bl'))))"

lemma skip_targets_moved:
  assumes "skip_targets conf v sh bl = Some (Inr (v', sh', bl'))"
  shows "thread_id sh' = thread_id sh
    \<and> (\<exists>st'. walked st st' \<and> skip_targets conf v (sh\<lparr>sh_state := st\<rparr>) bl = Some (Inr (v', sh'\<lparr>sh_state := st'\<rparr>, bl')))"
proof -
  have "skip_free conf v sh bl (Inr (v', sh', bl'))"
  proof (rule skip_targets.raw_induct [where P = skip_free, OF _ assms], unfold skip_free_def, intro allI impI)
    fix rec conf v sh bl r st v' sh' bl'
    assume IH: "\<And>conf v sh bl r. rec conf v sh bl = Some r \<Longrightarrow> \<forall>st v' sh' bl'. r = Inr (v', sh', bl') \<longrightarrow> thread_id sh' = thread_id sh \<and>
        (\<exists>st'. walked st st' \<and> skip_targets conf v (sh\<lparr>sh_state := st\<rparr>) bl = Some (Inr (v', sh'\<lparr>sh_state := st'\<rparr>, bl')))"
      and step: "(if skipped conf v
        then bind_run (shard_get_next_ipvx_port_index conf bl sh) (\<lambda>(v', sh', bl'). rec conf v' sh' bl')
        else Some (Inr (v, sh, bl))) = Some r" and r: "r = Inr (v', sh', bl')"
    show "thread_id sh' = thread_id sh
      \<and> (\<exists>st'. walked st st' \<and> skip_targets conf v (sh\<lparr>sh_state := st\<rparr>) bl = Some (Inr (v', sh'\<lparr>sh_state := st'\<rparr>, bl')))"
    proof (cases "skipped conf v")
      case False
      then show ?thesis using step r by (subst skip_targets.simps) (auto intro: exI [of _ st])
    next
      case True
      then obtain v1 sh1 bl1 where 1: "shard_get_next_ipvx_port_index conf bl sh = Some (Inr (v1, sh1, bl1))"
        "rec conf v1 sh1 bl1 = Some (Inr (v', sh', bl'))"
        using step r by (auto simp: bind_run_def split: option.splits sum.splits)
      obtain st1 where st1: "thread_id sh1 = thread_id sh" "walked st st1"
        "shard_get_next_ipvx_port_index conf bl (sh\<lparr>sh_state := st\<rparr>) = Some (Inr (v1, sh1\<lparr>sh_state := st1\<rparr>, bl1))"
        using get_next_moved [of conf bl sh st] 1(1) unfolding moved_def by blast
      from IH [OF 1(2)] obtain st2 where "thread_id sh' = thread_id sh1" "walked st1 st2"
        "skip_targets conf v1 (sh1\<lparr>sh_state := st1\<rparr>) bl1 = Some (Inr (v', sh'\<lparr>sh_state := st2\<rparr>, bl'))" by blast
      then show ?thesis using True st1 walked_trans by (subst skip_targets.simps) auto
    qed
  qed
  then show ?thesis unfolding skip_free_def by blast
qed

lemma next_target_moved:
  "moved (shard_get_next_ip_prefix_port_index conf bl) sh st"
  unfolding moved_def
proof (intro allI impI)
  fix tg sh' bl'
  assume r: "shard_get_next_ip_prefix_port_index conf bl sh = Some (Inr (tg, sh', bl'))"
  then obtain v1 sh1 bl1 v2 where 1: "shard_get_next_ipvx_port_index conf bl sh = Some (Inr (v1, sh1, bl1))"
    "skip_targets conf v1 sh1 bl1 = Some (Inr (v2, sh', bl'))" "write_target conf v2 = Inr tg"
    by (auto simp: shard_get_next_ip_prefix_port_index_def bind_run_def split: option.splits sum.splits)
  obtain st1 where st1: "thread_id sh1 = thread_id sh" "walked st st1"
    "shard_get_next_ipvx_port_index conf bl (sh\<lparr>sh_state := st\<rparr>) = Some (Inr (v1, sh1\<lparr>sh_state := st1\<rparr>, bl1))"
    using get_next_moved [of conf bl sh st] 1(1) unfolding moved_def by blast
  obtain st2 where "thread_id sh' = thread_id sh1" "walked st1 st2"
    "skip_targets conf v1 (sh1\<lparr>sh_state := st1\<rparr>) bl1 = Some (Inr (v2, sh'\<lparr>sh_state := st2\<rparr>, bl'))"
    using skip_targets_moved [OF 1(2)] by blast
  then show "thread_id sh' = thread_id sh \<and> (\<exists>st'. walked st st' \<and> shard_get_next_ip_prefix_port_index conf bl (sh\<lparr>sh_state := st\<rparr>)
    = Some (Inr (tg, sh'\<lparr>sh_state := st'\<rparr>, bl')))"
    using st1 1(3) walked_trans [OF st1(2)] by (auto simp: shard_get_next_ip_prefix_port_index_def)
qed

lemma current_target_moved: "moved (shard_get_current_ip_prefix_port_index conf bl) sh st"
  unfolding moved_def
proof (intro allI impI)
  fix tg sh' bl'
  assume r: "shard_get_current_ip_prefix_port_index conf bl sh = Some (Inr (tg, sh', bl'))"
  then obtain v1 bl1 v2 where 1: "shard_get_current_ipvx_port_index bl sh = Inr (v1, bl1)"
    "skip_targets conf v1 sh bl1 = Some (Inr (v2, sh', bl'))" "write_target conf v2 = Inr tg"
    by (auto simp: shard_get_current_ip_prefix_port_index_def bind_run_def split: option.splits sum.splits)
  moreover have "shard_get_current_ipvx_port_index bl (sh\<lparr>sh_state := st\<rparr>) = shard_get_current_ipvx_port_index bl sh"
    by (simp add: shard_get_current_ipvx_port_index_def)
  ultimately show "thread_id sh' = thread_id sh \<and> (\<exists>st'. walked st st' \<and> shard_get_current_ip_prefix_port_index conf bl
      (sh\<lparr>sh_state := st\<rparr>) = Some (Inr (tg, sh'\<lparr>sh_state := st'\<rparr>, bl')))"
    using skip_targets_moved [OF 1(2), of st] by (auto simp: shard_get_current_ip_prefix_port_index_def)
qed

text \<open>The counters of a shard after a step.\<close>

lemma moved_self:
  assumes "moved f sh (sh_state sh)" "f sh = Some (Inr (v, sh', bl'))"
  shows "thread_id sh' = thread_id sh" "walked (sh_state sh) (sh_state sh')"
proof -
  obtain st' where st': "thread_id sh' = thread_id sh" "walked (sh_state sh) st'"
    "f (sh\<lparr>sh_state := sh_state sh\<rparr>) = Some (Inr (v, sh'\<lparr>sh_state := st'\<rparr>, bl'))"
    using assms unfolding moved_def by blast
  have "sh\<lparr>sh_state := sh_state sh\<rparr> = sh" by simp
  then have "sh' = sh'\<lparr>sh_state := st'\<rparr>" using st'(3) assms(2) by simp
  then have "sh_state sh' = st'" by (metis shard.select_convs(1) shard.surjective shard.update_convs(1))
  with st' show "thread_id sh' = thread_id sh" "walked (sh_state sh) (sh_state sh')" by simp_all
qed

section \<open>The probes of a thread\<close>

text \<open>The address that gets the \<open>u\<close>-th identifier of the \<open>n\<close>-th target.\<close>

definition address :: "send_conf \<Rightarrow> send_env \<Rightarrow> nat \<Rightarrow> u8 list \<Rightarrow> nat \<Rightarrow> u8 list" where
  "address c e n dst u = fold (\<lambda>v d. with_iid c (current_iid e n v) d) [0 ..< Suc u] dst"

definition target_probes :: "send_conf \<Rightarrow> send_env \<Rightarrow> nat \<Rightarrow> target \<Rightarrow> probe list" where
  "target_probes c e n tg = (case tg of (dst, port, index) \<Rightarrow>
     concat (map (\<lambda>u. map (\<lambda>i. (address c e n dst u, port, index, i)) [0 ..< packet_streams_num c]) [0 ..< iid_num c]))"

fun all_probes :: "send_conf \<Rightarrow> send_env \<Rightarrow> nat \<Rightarrow> target list \<Rightarrow> probe list" where
  "all_probes c e n [] = []"
| "all_probes c e n (tg # tgs) = target_probes c e n tg @ all_probes c e (Suc n) tgs"

lemma length_target_probes: "length (target_probes c e n tg) = iid_num c * packet_streams_num c"
  by (cases tg) (simp add: target_probes_def length_concat comp_def sum_list_triv)

lemma length_all_probes: "length (all_probes c e n tgs) = length tgs * (iid_num c * packet_streams_num c)"
  by (induction tgs arbitrary: n) (simp_all add: length_target_probes)

text \<open>
  What the sender relies on: there is a source address, and the probe module makes a packet of every
  probe within the buffer.
\<close>

definition module_ok :: "send_conf \<Rightarrow> bool" where
  "module_ok c \<longleftrightarrow>
     (\<forall>buff src dst port i index. length buff = MAX_BUFF \<and> src \<in> set (source_ips c)
        \<and> length dst = ipv46_bytes (send_scan c) \<and> i < packet_streams_num c \<longrightarrow>
        (\<exists>buff' len. make_packet c buff src dst port i index = Inr (buff', len) \<and> length buff' = MAX_BUFF
           \<and> len \<le> MAX_BUFF \<and> (only_ip c \<longrightarrow> ETHER \<le> len)))"

definition send_ready :: "send_conf \<Rightarrow> bool" where
  "send_ready c \<longleftrightarrow> module_ok c \<and> source_ips c \<noteq> [] \<and> unat (num_source_ips c) = length (source_ips c)
     \<and> (\<exists>buff. probe_thread_init c (replicate MAX_BUFF 0) = Inr buff \<and> length buff = MAX_BUFF)"

text \<open>Nothing ends the scan before its targets are used up.\<close>

definition undisturbed :: "send_conf \<Rightarrow> send_env \<Rightarrow> bool" where
  "undisturbed c e \<longleftrightarrow> (\<forall>n. \<not> recv_done e n) \<and> max_runtime c = 0
     \<and> (\<forall>n u. length (current_iid e n u) = ipv46_bytes (send_scan c))"

text \<open>The state after \<open>k\<close> more packets.\<close>

definition progress :: "nat \<Rightarrow> sender \<Rightarrow> sender \<Rightarrow> bool" where
  "progress k s t \<longleftrightarrow> sd_bl t = sd_bl s \<and> targets_taken t = targets_taken s \<and> length (sd_buff t) = MAX_BUFF
     \<and> sh_params (sd t) = sh_params (sd s) \<and> ip_target_file_params (sd t) = ip_target_file_params (sd s)
     \<and> current (sd t) = current (sd s) \<and> iterations (sd t) = iterations (sd s) \<and> thread_id (sd t) = thread_id (sd s)
     \<and> packets_sent (sh_state (sd t)) = packets_sent (sh_state (sd s)) + of_nat k
     \<and> hosts_scanned (sh_state (sd t)) = hosts_scanned (sh_state (sd s))
     \<and> max_hosts (sh_state (sd t)) = max_hosts (sh_state (sd s))
     \<and> max_packets (sh_state (sd t)) = max_packets (sh_state (sd s))"

lemma progress_trans: "\<lbrakk>progress k s t; progress l t u\<rbrakk> \<Longrightarrow> progress (k + l) s u"
  by (simp add: progress_def)

lemma progress_shard: "progress k s t \<Longrightarrow> sd t = (sd s)\<lparr>sh_state := sh_state (sd t)\<rparr>"
  by (simp add: progress_def)

lemma get_src_ip_returns:
  assumes "send_ready c"
  obtains src where "get_src_ip c dst i = Inr src" "src \<in> set (source_ips c)"
proof (cases "num_source_ips c = 1")
  case True
  then show thesis using assms that [of "source_ips c ! 0"] by (simp add: get_src_ip_def send_ready_def Let_def)
next
  case False
  let ?o = "fold (\<lambda>b o'. o' + b) dst (ucast (src_offset c + of_nat i) :: u8)"
  have n: "num_source_ips c \<noteq> 0" using assms by (auto simp: send_ready_def)
  then have "ucast ?o mod num_source_ips c < num_source_ips c" by (simp add: word_mod_less_divisor word_neq_0_conv)
  then have "unat (ucast ?o mod num_source_ips c) < length (source_ips c)"
    using assms by (simp add: send_ready_def word_less_nat_alt)
  then show thesis using False n that by (simp add: get_src_ip_def Let_def)
qed

lemma try_send_progress:
  assumes "try_send e n p s = (ok, t)" "length (sd_buff s) = MAX_BUFF"
  shows "progress 0 s t \<and> made t = made s"
  using assms
proof (induction n arbitrary: s)
  case 0
  then show ?case by (auto simp: progress_def)
next
  case (Suc n)
  let ?s = "count_try (send_ok e (attempts s)) p s"
  have s: "progress 0 s ?s" "made ?s = made s" "length (sd_buff ?s) = MAX_BUFF"
    using Suc.prems(2) by (auto simp: progress_def count_try_def)
  show ?case
  proof (cases "send_ok e (attempts s)")
    case True
    then show ?thesis using Suc.prems(1) s by (simp add: Let_def)
  next
    case False
    then have "try_send e n p ?s = (ok, t)" using Suc.prems(1) by (simp add: Let_def)
    from Suc.IH [OF this s(3)] show ?thesis using progress_trans [OF s(1)] s(2) by fastforce
  qed
qed

lemma send_one_progress:
  assumes "send_ready c" "length (sd_buff s) = MAX_BUFF" "length dst = ipv46_bytes (send_scan c)" "i < packet_streams_num c"
  shows "\<exists>t. send_one c e dst port index i s = Inr t \<and> progress 1 s t \<and> made t = made s @ [(dst, port, index, i)]"
proof -
  obtain src where src: "get_src_ip c dst i = Inr src" "src \<in> set (source_ips c)"
    by (rule get_src_ip_returns [OF assms(1)])
  obtain buff len where m: "make_packet c (sd_buff s) src dst port i index = Inr (buff, len)" "length buff = MAX_BUFF"
    "len \<le> MAX_BUFF" "only_ip c \<longrightarrow> ETHER \<le> len"
    using assms src(2) unfolding send_ready_def module_ok_def by metis
  let ?s = "s\<lparr>sd_buff := buff, made := made s @ [(dst, port, index, i)]\<rparr>"
  have "\<exists>u. (if send_dryrun c then Inr (?s\<lparr>shown := shown ?s @ [buff]\<rparr>) else transmit c e len ?s) = Inr u
    \<and> progress 0 s u \<and> made u = made s @ [(dst, port, index, i)]"
  proof (cases "send_dryrun c")
    case True
    then show ?thesis using m(2) by (auto simp: progress_def)
  next
    case False
    obtain ok t where t: "try_send e (num_retries c) (take (len - (if only_ip c then ETHER else 0))
        (drop (if only_ip c then ETHER else 0) buff)) ?s = (ok, t)" by fastforce
    have p: "progress 0 ?s t" "made t = made ?s" using try_send_progress [OF t] m(2) by simp_all
    have "progress 0 ?s (if ok then t else count_failed t)"
      using p(1) by (auto simp: progress_def count_failed_def)
    then have "progress 0 s (if ok then t else count_failed t)" using m(2) by (auto simp: progress_def)
    moreover have "made (if ok then t else count_failed t) = made s @ [(dst, port, index, i)]"
      using p(2) by (simp add: count_failed_def)
    moreover have "transmit c e len ?s = Inr (if ok then t else count_failed t)"
      using m t by (auto simp: transmit_def Let_def)
    ultimately show ?thesis using False by auto
  qed
  then obtain u where u: "(if send_dryrun c then Inr (?s\<lparr>shown := shown ?s @ [buff]\<rparr>) else transmit c e len ?s) = Inr u"
    "progress 0 s u" "made u = made s @ [(dst, port, index, i)]" by blast
  have "progress 1 s (count_sent u)" "made (count_sent u) = made u"
    using u(2) by (auto simp: progress_def count_sent_def)
  moreover have "send_one c e dst port index i s = Inr (count_sent u)"
    unfolding send_one_def src(1) bind_out_simps m(1) prod.case Let_def u(1) using m(3) by simp
  ultimately show ?thesis using u(3) by auto
qed

lemma runs_on:
  assumes "undisturbed c e" "max_packets (sh_state (sd s)) = 0"
  shows "\<not> thread_stops c e s"
  using assms by (simp add: undisturbed_def thread_stops_def)

lemma progress_checks: "length (sd_buff s) = MAX_BUFF \<Longrightarrow> progress 0 s (s\<lparr>checks := n\<rparr>)"
  by (simp add: progress_def)

lemma send_stream_progress:
  assumes "send_ready c" "undisturbed c e" "length dst = ipv46_bytes (send_scan c)" "\<forall>i \<in> set is. i < packet_streams_num c"
    "length (sd_buff s) = MAX_BUFF" "max_packets (sh_state (sd s)) = 0"
  shows "\<exists>t. send_stream c e dst port index is s = Inr (True, t) \<and> progress (length is) s t
    \<and> made t = made s @ map (\<lambda>i. (dst, port, index, i)) is"
  using assms(4-6)
proof (induction "is" arbitrary: s)
  case Nil
  then show ?case by (simp add: progress_def)
next
  case (Cons i "is")
  let ?s = "s\<lparr>checks := checks s + 1\<rparr>"
  have s: "length (sd_buff ?s) = MAX_BUFF" "i < packet_streams_num c" using Cons.prems by simp_all
  obtain t where t: "send_one c e dst port index i ?s = Inr t" "progress 1 ?s t" "made t = made s @ [(dst, port, index, i)]"
    using send_one_progress [OF assms(1) s(1) assms(3) s(2), of e port index] by auto
  have p: "progress 1 s t" using progress_trans [OF progress_checks t(2)] s(1) by simp
  have "length (sd_buff t) = MAX_BUFF" "max_packets (sh_state (sd t)) = 0" "\<forall>i \<in> set is. i < packet_streams_num c"
    using p Cons.prems by (simp_all add: progress_def)
  from Cons.IH [OF this(3,1,2)] obtain u where u: "send_stream c e dst port index is t = Inr (True, u)"
    "progress (length is) t u" "made u = made t @ map (\<lambda>i. (dst, port, index, i)) is" by blast
  show ?case
    using runs_on [OF assms(2) Cons.prems(3)] t(1,3) u progress_trans [OF p u(2)] by simp
qed

lemma length_with_iid:
  "\<lbrakk>undisturbed c e; length dst = ipv46_bytes (send_scan c)\<rbrakk>
     \<Longrightarrow> length (with_iid c (current_iid e n u) dst) = ipv46_bytes (send_scan c)"
  by (simp add: with_iid_def undisturbed_def)

lemma send_iids_progress:
  assumes "send_ready c" "undisturbed c e" "a \<le> iid_num c"
    "length (fold (\<lambda>v d. with_iid c (current_iid e (targets_taken s) v) d) [0 ..< a] dst) = ipv46_bytes (send_scan c)"
    "length (sd_buff s) = MAX_BUFF" "max_packets (sh_state (sd s)) = 0"
  shows "\<exists>t. send_iids c e port index [a ..< iid_num c]
        (fold (\<lambda>v d. with_iid c (current_iid e (targets_taken s) v) d) [0 ..< a] dst) s = Inr (True, t)
    \<and> progress ((iid_num c - a) * packet_streams_num c) s t
    \<and> made t = made s @ concat (map (\<lambda>u. map (\<lambda>i. (address c e (targets_taken s) dst u, port, index, i))
        [0 ..< packet_streams_num c]) [a ..< iid_num c])"
  using assms(3-6)
proof (induction "iid_num c - a" arbitrary: a s)
  case 0
  then show ?case by (simp add: progress_def)
next
  case (Suc m)
  let ?n = "targets_taken s"
  let ?d = "\<lambda>a. fold (\<lambda>v d. with_iid c (current_iid e ?n v) d) [0 ..< a] dst"
  have a: "a < iid_num c" "m = iid_num c - Suc a" using Suc.hyps(2) by simp_all
  have up: "[a ..< iid_num c] = a # [Suc a ..< iid_num c]" using a(1) by (rule upt_conv_Cons)
  have next1: "with_iid c (current_iid e ?n a) (?d a) = ?d (Suc a)" "address c e ?n dst a = ?d (Suc a)"
    by (simp_all add: address_def)
  have l: "length (?d (Suc a)) = ipv46_bytes (send_scan c)"
    using length_with_iid [OF assms(2) Suc.prems(2)] next1(1) by simp
  have r: "\<forall>i \<in> set [0 ..< packet_streams_num c]. i < packet_streams_num c" by simp
  obtain t where t: "send_stream c e (?d (Suc a)) port index [0 ..< packet_streams_num c] s = Inr (True, t)"
    "progress (packet_streams_num c) s t"
    "made t = made s @ map (\<lambda>i. (?d (Suc a), port, index, i)) [0 ..< packet_streams_num c]"
    using send_stream_progress [OF assms(1,2) l r Suc.prems(3,4)] by auto
  have p: "targets_taken t = ?n" "length (sd_buff t) = MAX_BUFF" "max_packets (sh_state (sd t)) = 0"
    using t(2) Suc.prems(4) by (simp_all add: progress_def)
  obtain u where u: "send_iids c e port index [Suc a ..< iid_num c] (?d (Suc a)) t = Inr (True, u)"
    "progress ((iid_num c - Suc a) * packet_streams_num c) t u"
    "made u = made t @ concat (map (\<lambda>u. map (\<lambda>i. (address c e ?n dst u, port, index, i))
        [0 ..< packet_streams_num c]) [Suc a ..< iid_num c])"
    using Suc.hyps(1) [of "Suc a" t] a l p by auto
  have k: "packet_streams_num c + (iid_num c - Suc a) * packet_streams_num c = (iid_num c - a) * packet_streams_num c"
    using a(1) by (simp add: Suc_diff_Suc [symmetric])
  have "send_iids c e port index [a ..< iid_num c] (?d a) s = Inr (True, u)"
    unfolding up send_iids.simps Let_def next1(1) t(1) bind_out_simps prod.case if_True u(1) ..
  moreover have "made u = made s @ concat (map (\<lambda>u. map (\<lambda>i. (address c e ?n dst u, port, index, i))
        [0 ..< packet_streams_num c]) [a ..< iid_num c])"
    unfolding up using t(3) u(3) next1(2) by simp
  moreover have "progress ((iid_num c - a) * packet_streams_num c) s u"
    using progress_trans [OF t(2) u(2)] unfolding k .
  ultimately show ?case by blast
qed

lemma send_iids_all:
  assumes "send_ready c" "undisturbed c e" "length dst = ipv46_bytes (send_scan c)"
    "length (sd_buff s) = MAX_BUFF" "max_packets (sh_state (sd s)) = 0"
  shows "\<exists>t. send_iids c e port index [0 ..< iid_num c] dst s = Inr (True, t)
    \<and> progress (iid_num c * packet_streams_num c) s t
    \<and> made t = made s @ target_probes c e (targets_taken s) (dst, port, index)"
  using send_iids_progress [OF assms(1,2), of 0 s dst port index] assms(3-5) by (simp add: target_probes_def)

lemma write_target_length: "write_target conf v = Inr tg \<Longrightarrow> length (fst tg) = ipv46_bytes conf"
  by (auto simp: write_target_def mpz_to_uint8s_bits_def mpz_to_uint8s_def Let_def split: if_splits)

lemma target_length:
  "shard_get_next_ip_prefix_port_index conf bl sh = Some (Inr (tg, sh', bl')) \<Longrightarrow> length (fst tg) = ipv46_bytes conf"
  "shard_get_current_ip_prefix_port_index conf bl sh = Some (Inr (tg, sh', bl')) \<Longrightarrow> length (fst tg) = ipv46_bytes conf"
  by (auto simp: shard_get_next_ip_prefix_port_index_def shard_get_current_ip_prefix_port_index_def bind_run_def
      write_target_length split: option.splits sum.splits)

text \<open>The loop makes the probes of the targets that the walk of the shard gives.\<close>

lemma send_loop_probes:
  assumes "send_ready c" "undisturbed c e" "\<not> tga_targets c" "\<not> listed_targets c"
    "rest_targets (send_scan c) bl sh tg = Some (Inr tgs)" "length (fst tg) = ipv46_bytes (send_scan c)"
    "sd s = sh\<lparr>sh_state := st\<rparr>" "sd_bl s = bl" "length (sd_buff s) = MAX_BUFF" "max_packets st = 0" "max_hosts st = 0"
  shows "\<exists>t. send_loop c e net tlist tg s = Some (Inr t)
    \<and> made t = made s @ all_probes c e (targets_taken s) tgs
    \<and> packets_sent (sh_state (sd t)) = packets_sent st + of_nat (length (all_probes c e (targets_taken s) tgs))
    \<and> hosts_scanned (sh_state (sd t)) = hosts_scanned st + of_nat (length tgs) \<and> thread_id (sd t) = thread_id sh"
  using assms(5-)
proof (induction tgs arbitrary: bl sh tg s st)
  case Nil
  obtain dst port index where tg: "tg = (dst, port, index)" by (cases tg)
  have "prefix_done dst"
    using Nil.prems(1) tg by (subst (asm) rest_targets.simps) (auto simp: bind_run_def split: if_splits option.splits sum.splits)
  moreover have "length dst = ipv46_bytes (send_scan c)" using Nil.prems(2) tg by simp
  ultimately have "mpz_from_uint8s dst (ipv46_bytes (send_scan c)) = Inr 0"
    by (simp add: mpz_from_uint8s_def mpz_import_def prefix_done_def)
  then have "send_loop c e net tlist tg s = Some (Inr s)"
    by (subst send_loop.simps) (simp add: tg PMAP_SHARD_DONE_def)
  then show ?case using Nil.prems(3) by simp
next
  case (Cons x tgs)
  obtain dst port index where tg: "tg = (dst, port, index)" by (cases tg)
  have nd: "\<not> prefix_done dst" and x: "x = tg"
    using Cons.prems(1) tg by (subst (asm) rest_targets.simps; auto simp: bind_run_def split: if_splits option.splits sum.splits)+
  obtain tg1 sh1 bl1 where n: "shard_get_next_ip_prefix_port_index (send_scan c) bl sh = Some (Inr (tg1, sh1, bl1))"
    "rest_targets (send_scan c) bl1 sh1 tg1 = Some (Inr tgs)"
    using Cons.prems(1) nd tg by (subst (asm) rest_targets.simps) (auto simp: bind_run_def split: option.splits sum.splits)
  have l: "length dst = ipv46_bytes (send_scan c)" using Cons.prems(2) tg by simp
  have v: "mpz_from_uint8s dst (ipv46_bytes (send_scan c)) = Inr (int (be_value dst))" "be_value dst \<noteq> 0"
    using l nd by (simp_all add: mpz_from_uint8s_def mpz_import_def prefix_done_def)
  have "max_packets (sh_state (sd s)) = 0" using Cons.prems(3,6) by simp
  from send_iids_all [OF assms(1,2) l Cons.prems(5) this, of port index] obtain t where
    t: "send_iids c e port index [0 ..< iid_num c] dst s = Inr (True, t)" "progress (iid_num c * packet_streams_num c) s t"
    "made t = made s @ target_probes c e (targets_taken s) (dst, port, index)" by blast
  let ?t = "count_host t"
  have sd: "sd ?t = sh\<lparr>sh_state := sh_state (sd ?t)\<rparr>"
    by (rule shard.equality) (use t(2) Cons.prems(3) in \<open>simp_all add: progress_def count_host_def\<close>)
  have cnt: "packets_sent (sh_state (sd ?t)) = packets_sent st + of_nat (iid_num c * packet_streams_num c)"
    "hosts_scanned (sh_state (sd ?t)) = hosts_scanned st + 1" "max_packets (sh_state (sd ?t)) = 0"
    "max_hosts (sh_state (sd ?t)) = 0" "sd_bl ?t = bl" "length (sd_buff ?t) = MAX_BUFF" "made ?t = made t"
    "targets_taken ?t = Suc (targets_taken s)"
    using t(2) Cons.prems(3,4,6,7) by (simp_all add: count_host_def progress_def)
  obtain st1 where st1: "walked (sh_state (sd ?t)) st1"
    "shard_get_next_ip_prefix_port_index (send_scan c) bl (sd ?t) = Some (Inr (tg1, sh1\<lparr>sh_state := st1\<rparr>, bl1))"
    using next_target_moved [of "send_scan c" bl sh "sh_state (sd ?t)"] n(1) unfolding moved_def sd [symmetric] by blast
  let ?u = "?t\<lparr>sd := sh1\<lparr>sh_state := st1\<rparr>, sd_bl := bl1\<rparr>"
  obtain u where u: "send_loop c e net tlist tg1 ?u = Some (Inr u)"
    "made u = made ?u @ all_probes c e (targets_taken ?u) tgs"
    "packets_sent (sh_state (sd u)) = packets_sent st1 + of_nat (length (all_probes c e (targets_taken ?u) tgs))"
    "hosts_scanned (sh_state (sd u)) = hosts_scanned st1 + of_nat (length tgs)" "thread_id (sd u) = thread_id sh1"
    using Cons.IH [OF n(2) target_length(1) [OF n(1)], of ?u st1] cnt walked_counts [OF st1(1)] by auto
  have nl: "\<not> hosts_limit s" using Cons.prems(3,7) by (simp add: hosts_limit_def)
  have nx: "next_target c net tlist d (sd ?t) (sd_bl t) = Some (Inr (tg1, sh1\<lparr>sh_state := st1\<rparr>, bl1))" for d
    using assms(3,4) st1(2) cnt(5) by (simp add: next_target_def count_host_def)
  have "send_loop c e net tlist tg s = Some (Inr u)"
    by (subst send_loop.simps) (use nl v t(1) nx u(1) in \<open>simp add: tg PMAP_SHARD_DONE_def\<close>)
  moreover have "packets_sent (sh_state (sd u)) = packets_sent st + of_nat (length (all_probes c e (targets_taken s) (x # tgs)))"
    using u(3) cnt(1,8) walked_counts(1) [OF st1(1)] by (simp add: length_target_probes)
  moreover have "hosts_scanned (sh_state (sd u)) = hosts_scanned st + of_nat (length (x # tgs))"
    using u(4) cnt(2) walked_counts(2) [OF st1(1)] by simp
  moreover have "thread_id sh1 = thread_id sh" using next_target_moved n(1) unfolding moved_def by blast
  ultimately show ?case using u(2,5) t(3) cnt(7,8) by (simp add: x tg)
qed

text \<open>
  C2: A thread whose shard gives the targets \<open>tgs\<close>, with no limits and undisturbed, ends,
  having made for every target in turn, for every identifier of its prefix and every number of a
  stream exactly one probe, with the port and index of the target. It has counted them and reports to
  the iterator. With \<open>scan_exactly_once\<close> the probes of all threads go to every target.
\<close>

theorem send_run_probes:
  assumes "send_ready c" "undisturbed c e" "\<not> tga_targets c" "\<not> listed_targets c"
    "sh = it_thread_shards it ! unat thread" "scan_targets (send_scan c) bl sh = Some (Inr tgs)"
    "max_packets (sh_state sh) = 0" "max_hosts (sh_state sh) = 0" "packets_sent (sh_state sh) = 0"
    "hosts_scanned (sh_state sh) = 0" "thread_id sh = thread" "thread < it_num_threads it"
  shows "\<exists>s it' xs'. send_run c e net tlist True thread bl it xs = Some (Inr (EXIT_SUCCESS, Some s, it', xs'))
    \<and> made s = all_probes c e 0 tgs
    \<and> packets_sent (sh_state (sd s)) = of_nat (length tgs * (iid_num c * packet_streams_num c))
    \<and> hosts_scanned (sh_state (sd s)) = of_nat (length tgs)
    \<and> it_complete it' = (it_complete it)[unat thread := 1]"
proof -
  obtain buff where buff: "probe_thread_init c (replicate MAX_BUFF 0) = Inr buff" "length buff = MAX_BUFF"
    using assms(1) by (auto simp: send_ready_def)
  obtain tg sh1 bl1 where f: "shard_get_current_ip_prefix_port_index (send_scan c) bl sh = Some (Inr (tg, sh1, bl1))"
    "rest_targets (send_scan c) bl1 sh1 tg = Some (Inr tgs)"
    using assms(6) by (auto simp: scan_targets_def bind_run_def split: option.splits sum.splits)
  note M = moved_self [OF current_target_moved f(1)]
  obtain s where s: "send_loop c e net tlist tg (send_start sh1 bl1 buff) = Some (Inr s)"
    "made s = all_probes c e 0 tgs"
    "packets_sent (sh_state (sd s)) = packets_sent (sh_state sh1) + of_nat (length (all_probes c e 0 tgs))"
    "hosts_scanned (sh_state (sd s)) = hosts_scanned (sh_state sh1) + of_nat (length tgs)" "thread_id (sd s) = thread_id sh1"
    using send_loop_probes [OF assms(1-4) f(2) target_length(2) [OF f(1)], of "send_start sh1 bl1 buff" "sh_state sh1"]
      assms(7,8) walked_counts [OF M(2)] buff(2) by (auto simp: send_start_def)
  have "send_thread c e net tlist sh bl = Some (Inr s)"
    using assms(3,4) f(1) buff(1) s(1) by (simp add: send_thread_def first_target_def)
  moreover obtain it' xs' where "shard_complete_cbi (thread_id (sd s))
      (it\<lparr>it_thread_shards := (it_thread_shards it)[unat thread := sd s]\<rparr>) xs = Inr (it', xs')"
    "it_complete it' = (it_complete it)[unat thread := 1]"
    using assms(11,12) M(1) s(5) by (simp add: shard_complete_cbi_def Let_def)
  ultimately show ?thesis
    using s(2-4) walked_counts [OF M(2)] assms(5,9,10)
    by (simp add: send_run_def length_all_probes del: of_nat_mult)
qed

section \<open>The counters of a thread\<close>

definition send_inv :: "send_conf \<Rightarrow> sender \<Rightarrow> bool" where
  "send_inv c s \<longleftrightarrow> (let st = sh_state (sd s) in
     packets_sent st = of_nat (length (made s)) \<and> hosts_scanned st = of_nat (targets_taken s)
     \<and> packets_tried st = of_nat (attempts s) \<and> attempts s \<le> num_retries c * length (made s)
     \<and> of_nat (length (wire s)) + packets_failed st + of_nat (length (shown s)) = packets_sent st
     \<and> (if send_dryrun c then wire s = [] \<and> packets_failed st = 0 else shown s = [])
     \<and> (max_packets st \<noteq> 0 \<longrightarrow> packets_sent st \<le> max_packets st)
     \<and> (max_hosts st \<noteq> 0 \<longrightarrow> hosts_scanned st \<le> max_hosts st))"

lemma try_send_counts:
  "try_send e n p s = (ok, t) \<Longrightarrow>
     \<exists>k \<le> n. attempts t = attempts s + k \<and> wire t = wire s @ (if ok then [p] else []) \<and> shown t = shown s \<and> made t = made s
     \<and> targets_taken t = targets_taken s \<and> sd_bl t = sd_bl s
     \<and> sh_state (sd t) = (sh_state (sd s))\<lparr>packets_tried := packets_tried (sh_state (sd s)) + of_nat k\<rparr>"
proof (induction n arbitrary: s)
  case (Suc n)
  let ?s = "count_try (send_ok e (attempts s)) p s"
  show ?case
  proof (cases "send_ok e (attempts s)")
    case True
    then have "ok" "t = ?s" using Suc.prems by (simp_all add: Let_def)
    then show ?thesis using True by (intro exI [of _ 1]) (simp add: count_try_def)
  next
    case False
    then have "try_send e n p ?s = (ok, t)" using Suc.prems by (simp add: Let_def)
    from Suc.IH [OF this] obtain k where k: "k \<le> n" "attempts t = attempts ?s + k" "wire t = wire ?s @ (if ok then [p] else [])"
      "shown t = shown ?s" "made t = made ?s" "targets_taken t = targets_taken ?s" "sd_bl t = sd_bl ?s"
      "sh_state (sd t) = (sh_state (sd ?s))\<lparr>packets_tried := packets_tried (sh_state (sd ?s)) + of_nat k\<rparr>" by blast
    then show ?thesis using False by (intro exI [of _ "Suc k"]) (simp add: count_try_def)
  qed
qed auto

lemma send_one_inv:
  assumes "send_one c e dst port index i s = Inr t" "send_inv c s" "\<not> thread_stops c e s'" "sd s' = sd s"
  shows "send_inv c t"
proof -
  let ?st = "sh_state (sd s)"
  obtain buff len u where u: "(if send_dryrun c then Inr (s\<lparr>sd_buff := buff, made := made s @ [(dst, port, index, i)],
        shown := shown s @ [buff]\<rparr>) else transmit c e len (s\<lparr>sd_buff := buff, made := made s @ [(dst, port, index, i)]\<rparr>)) = Inr u"
    "t = count_sent u"
    using assms(1) by (auto simp: send_one_def Let_def split: if_splits)
  have lim: "max_packets ?st \<noteq> 0 \<longrightarrow> packets_sent ?st < max_packets ?st"
    using assms(3,4) by (auto simp: thread_stops_def)
  have lim1: "max_packets ?st \<noteq> 0 \<longrightarrow> packets_sent ?st + 1 \<le> max_packets ?st" using lim by (simp add: inc_le)
  have I: "packets_sent ?st = of_nat (length (made s))" "attempts s \<le> num_retries c * length (made s)"
    "of_nat (length (wire s)) + packets_failed ?st + of_nat (length (shown s)) = packets_sent ?st"
    using assms(2) by (simp_all add: send_inv_def Let_def)
  show ?thesis
  proof (cases "send_dryrun c")
    case True
    then have "u = s\<lparr>sd_buff := buff, made := made s @ [(dst, port, index, i)], shown := shown s @ [buff]\<rparr>" using u(1) by simp
    then show ?thesis using assms(2) lim1 True I unfolding u(2)
      by (auto simp: send_inv_def count_sent_def Let_def algebra_simps)
  next
    case False
    obtain ok v p where v: "try_send e (num_retries c) p (s\<lparr>sd_buff := buff, made := made s @ [(dst, port, index, i)]\<rparr>) = (ok, v)"
      "u = (if ok then v else count_failed v)"
      using u(1) False by (auto simp: transmit_def Let_def split: if_splits prod.splits)
    from try_send_counts [OF v(1)] obtain k where k: "k \<le> num_retries c" "attempts v = attempts s + k"
      "wire v = wire s @ (if ok then [p] else [])" "shown v = shown s" "made v = made s @ [(dst, port, index, i)]"
      "targets_taken v = targets_taken s"
      "sh_state (sd v) = ?st\<lparr>packets_tried := packets_tried ?st + of_nat k\<rparr>" by auto
    show ?thesis using assms(2) lim1 False I k unfolding u(2) v(2)
      by (cases ok) (auto simp: send_inv_def count_sent_def count_failed_def Let_def algebra_simps)
  qed
qed

lemma send_inv_checks [simp]: "send_inv c (s\<lparr>checks := n\<rparr>) = send_inv c s"
  by (simp add: send_inv_def)

lemma send_stream_inv:
  "\<lbrakk>send_stream c e dst port index is s = Inr (go, t); send_inv c s\<rbrakk> \<Longrightarrow> send_inv c t"
proof (induction "is" arbitrary: s)
  case (Cons i "is")
  show ?case
  proof (cases "thread_stops c e s")
    case False
    then obtain u where u: "send_one c e dst port index i (s\<lparr>checks := checks s + 1\<rparr>) = Inr u"
      "send_stream c e dst port index is u = Inr (go, t)" using Cons.prems(1) by auto
    have "send_inv c u" using send_one_inv [OF u(1) _ False] Cons.prems(2) by simp
    then show ?thesis using Cons.IH u(2) by blast
  qed (use Cons.prems in auto)
qed auto

lemma send_iids_inv:
  "\<lbrakk>send_iids c e port index us dst s = Inr (go, t); send_inv c s\<rbrakk> \<Longrightarrow> send_inv c t"
proof (induction us arbitrary: s dst)
  case (Cons u us)
  let ?d = "with_iid c (current_iid e (targets_taken s) u) dst"
  obtain g v where v: "send_stream c e ?d port index [0 ..< packet_streams_num c] s = Inr (g, v)"
    "(if g then send_iids c e port index us ?d v else Inr (False, v)) = Inr (go, t)"
    using Cons.prems(1) by (auto simp: Let_def simp del: if_split)
  have "send_inv c v" by (rule send_stream_inv [OF v(1) Cons.prems(2)])
  then show ?case using v(2) Cons.IH by (cases g) auto
qed auto

lemma next_target_walked:
  assumes "next_target c net tlist dst sh bl = Some (Inr (tg, sh', bl'))"
  shows "walked (sh_state sh) (sh_state sh')"
proof (cases "tga_targets c \<or> listed_targets c")
  case True
  then have "sh_state sh' = sh_state sh"
    using assms by (auto simp: next_target_def listed_def bind_run_def split: if_splits option.splits sum.splits)
  then show ?thesis by simp
next
  case False
  then have "shard_get_next_ip_prefix_port_index (send_scan c) bl sh = Some (Inr (tg, sh', bl'))"
    using assms by (simp add: next_target_def)
  from moved_self(2) [OF next_target_moved this] show ?thesis .
qed

lemma first_target_walked:
  assumes "first_target c net tlist sh bl = Some (Inr (tg, sh', bl'))"
  shows "walked (sh_state sh) (sh_state sh')"
proof (cases "tga_targets c \<or> listed_targets c")
  case True
  then have "sh_state sh' = sh_state sh"
    using assms by (auto simp: first_target_def listed_def bind_run_def Let_def split: if_splits option.splits sum.splits)
  then show ?thesis by simp
next
  case False
  then have "shard_get_current_ip_prefix_port_index (send_scan c) bl sh = Some (Inr (tg, sh', bl'))"
    using assms by (simp add: first_target_def)
  from moved_self(2) [OF current_target_moved this] show ?thesis .
qed

lemma count_host_inv:
  assumes "send_inv c s" "\<not> hosts_limit s0" "sh_state (sd s0) = st0" "hosts_scanned st0 = hosts_scanned (sh_state (sd s))"
    "max_hosts st0 = max_hosts (sh_state (sd s))" "walked (sh_state (sd (count_host s))) (sh_state sh)"
  shows "send_inv c ((count_host s)\<lparr>sd := sh, sd_bl := bl\<rparr>)"
proof -
  let ?st = "sh_state (sd s)"
  have "max_hosts ?st \<noteq> 0 \<longrightarrow> hosts_scanned ?st < max_hosts ?st" using assms(2-5) by (auto simp: hosts_limit_def)
  then have "max_hosts ?st \<noteq> 0 \<longrightarrow> hosts_scanned ?st + 1 \<le> max_hosts ?st" by (simp add: inc_le)
  then show ?thesis using assms(1) walked_counts [OF assms(6)]
    by (auto simp: send_inv_def count_host_def Let_def algebra_simps)
qed

text \<open>The identifiers of a target leave the counter of the targets and the limits alone.\<close>

lemma send_one_frame:
  assumes "send_one c e dst port index i s = Inr t"
  shows "hosts_scanned (sh_state (sd t)) = hosts_scanned (sh_state (sd s)) \<and> max_hosts (sh_state (sd t)) = max_hosts (sh_state (sd s))
    \<and> max_packets (sh_state (sd t)) = max_packets (sh_state (sd s))"
  using assms
  by (auto simp: send_one_def transmit_def count_sent_def count_failed_def Let_def dest!: try_send_counts
      split: if_splits prod.splits)

lemma send_stream_frame:
  "send_stream c e dst port index is s = Inr (go, t) \<Longrightarrow>
     hosts_scanned (sh_state (sd t)) = hosts_scanned (sh_state (sd s)) \<and> max_hosts (sh_state (sd t)) = max_hosts (sh_state (sd s))
     \<and> max_packets (sh_state (sd t)) = max_packets (sh_state (sd s))"
proof (induction "is" arbitrary: s)
  case (Cons i "is")
  then show ?case by (fastforce split: if_splits dest: send_one_frame)
qed auto

lemma send_iids_frame:
  "send_iids c e port index us dst s = Inr (go, t) \<Longrightarrow>
     hosts_scanned (sh_state (sd t)) = hosts_scanned (sh_state (sd s)) \<and> max_hosts (sh_state (sd t)) = max_hosts (sh_state (sd s))
     \<and> max_packets (sh_state (sd t)) = max_packets (sh_state (sd s))"
proof (induction us arbitrary: s dst)
  case (Cons u us)
  let ?d = "with_iid c (current_iid e (targets_taken s) u) dst"
  obtain g v where v: "send_stream c e ?d port index [0 ..< packet_streams_num c] s = Inr (g, v)"
    "(if g then send_iids c e port index us ?d v else Inr (False, v)) = Inr (go, t)"
    using Cons.prems by (auto simp: Let_def simp del: if_split)
  show ?case using send_stream_frame [OF v(1)] v(2) Cons.IH [of ?d v] by (cases g) auto
qed auto

text \<open>The loop keeps the invariant and the limits, however it ends.\<close>

definition loop_keeps :: "send_conf \<Rightarrow> sender \<Rightarrow> sender outcome \<Rightarrow> bool" where
  "loop_keeps c s r \<longleftrightarrow> (\<forall>t. r = Inr t \<longrightarrow> send_inv c s \<longrightarrow> send_inv c t
     \<and> max_hosts (sh_state (sd t)) = max_hosts (sh_state (sd s)) \<and> max_packets (sh_state (sd t)) = max_packets (sh_state (sd s)))"

lemma send_loop_keeps:
  assumes "send_loop c e net tlist tg s = Some r"
  shows "loop_keeps c s r"
proof (rule send_loop.raw_induct [where P = "\<lambda>c e net tlist tg s r. loop_keeps c s r", OF _ assms])
  fix rec c e net tlist tg s r
  assume IH: "\<And>c e net tlist tg s r. rec c e net tlist tg s = Some r \<Longrightarrow> loop_keeps c s r"
    and step: "(if hosts_limit s then Some (Inr s)
      else case tg of (dst, port, index) \<Rightarrow>
        bind_run (Some (mpz_from_uint8s dst (ipv46_bytes (send_scan c)))) (\<lambda>v.
        if mpz_eq_ui v PMAP_SHARD_DONE then Some (Inr s)
        else
          bind_run (Some (send_iids c e port index [0 ..< iid_num c] dst s)) (\<lambda>(go, s').
          if \<not> go then Some (Inr s')
          else
            bind_run (next_target c net tlist (last_address c e (targets_taken s) dst) (sd (count_host s'))
                        (sd_bl s')) (\<lambda>(tg', sh', bl').
              rec c e net tlist tg' ((count_host s')\<lparr>sd := sh', sd_bl := bl'\<rparr>))))) = Some r"
  show "loop_keeps c s r"
    unfolding loop_keeps_def
  proof (intro allI impI)
    fix t assume r: "r = Inr t" and inv: "send_inv c s"
    obtain dst port index where tg: "tg = (dst, port, index)" by (cases tg)
    let ?goal = "send_inv c t \<and> max_hosts (sh_state (sd t)) = max_hosts (sh_state (sd s))
      \<and> max_packets (sh_state (sd t)) = max_packets (sh_state (sd s))"
    show ?goal
    proof (cases "hosts_limit s \<or> t = s")
      case True
      then show ?thesis using step r inv by auto
    next
      case False
      then obtain go u where u: "send_iids c e port index [0 ..< iid_num c] dst s = Inr (go, u)"
        "(if \<not> go then Some (Inr u) else
            bind_run (next_target c net tlist (last_address c e (targets_taken s) dst) (sd (count_host u)) (sd_bl u))
              (\<lambda>(tg', sh', bl'). rec c e net tlist tg' ((count_host u)\<lparr>sd := sh', sd_bl := bl'\<rparr>))) = Some (Inr t)"
        using step r by (auto simp: tg bind_run_def split: if_splits sum.splits)
      have I: "send_inv c u" by (rule send_iids_inv [OF u(1) inv])
      note fr = send_iids_frame [OF u(1)]
      show ?thesis
      proof (cases go)
        case False
        then show ?thesis using u(2) I fr by simp
      next
        case True
        then obtain tg' sh' bl' where n: "next_target c net tlist (last_address c e (targets_taken s) dst) (sd (count_host u)) (sd_bl u)
            = Some (Inr (tg', sh', bl'))"
          "rec c e net tlist tg' ((count_host u)\<lparr>sd := sh', sd_bl := bl'\<rparr>) = Some (Inr t)"
          using u(2) by (auto simp: bind_run_def split: option.splits sum.splits)
        have w: "walked (sh_state (sd (count_host u))) (sh_state sh')" by (rule next_target_walked [OF n(1)])
        have "send_inv c ((count_host u)\<lparr>sd := sh', sd_bl := bl'\<rparr>)"
          by (rule count_host_inv [OF I _ refl _ _ w, of s]) (use False fr in auto)
        then show ?thesis using IH [OF n(2)] fr walked_counts [OF w] by (simp add: loop_keeps_def count_host_def)
      qed
    qed
  qed
qed

text \<open>
  C3: Whatever the receiver, the clock, the network, the resolver and the modules do, a thread
  that starts on a shard without counts and returns has counted the probes that it made, the targets
  that it took and the attempts to send; every packet that was counted was sent, printed or counted as
  failed, a dry run sends none, and the counts are within the limits of its shard.
\<close>

theorem send_limits:
  assumes "send_thread c e net tlist sh bl = Some (Inr s)"
    "packets_sent (sh_state sh) = 0" "hosts_scanned (sh_state sh) = 0" "packets_tried (sh_state sh) = 0"
    "packets_failed (sh_state sh) = 0"
  shows "send_inv c s \<and> max_hosts (sh_state (sd s)) = max_hosts (sh_state sh)
    \<and> max_packets (sh_state (sd s)) = max_packets (sh_state sh)"
proof -
  obtain buff tg sh1 bl1 where f: "first_target c net tlist sh bl = Some (Inr (tg, sh1, bl1))"
    "send_loop c e net tlist tg (send_start sh1 bl1 buff) = Some (Inr s)"
    using assms(1) by (auto simp: send_thread_def bind_run_def split: option.splits sum.splits)
  note w = walked_counts [OF first_target_walked [OF f(1)]]
  have "send_inv c (send_start sh1 bl1 buff)" using w assms(2-5) by (simp add: send_inv_def send_start_def)
  then show ?thesis using send_loop_keeps [OF f(2)] w by (simp add: loop_keeps_def send_start_def)
qed

section \<open>An example\<close>

text \<open>No list of targets.\<close>

definition no_list :: target_list where
  "no_list = \<lparr>list_text = None, list_targets = [], ignore_filelist_error = False, list_flag = 0\<rparr>"

text \<open>
  Prefixes of 16 bits that are all allowed; one thread with a part of a cycle modulo 17, whose
  other elements are beyond the targets.
\<close>

definition ex_all :: blocklist where
  "ex_all = ex_none\<lparr>bl_constraint := Some \<lparr>root = Leaf 1 (2 ^ 16), radix = map (\<lambda>k. 256 * int k) [0 ..< 256],
     radix_len = 256, painted = True, paint_value = 1\<rparr>\<rparr>"

definition ex_shard :: shard where
  "ex_shard = zero_shard\<lparr>current := 3, sh_params := \<lparr>params_first = 3, params_last = 12, factor = 3, modulus = 17\<rparr>\<rparr>"

definition ex_send :: send_conf where
  "ex_send = \<lparr>send_scan = \<lparr>send_max_index = 4, max_probe_len = 16, ipv46_bytes = 4, max_port_index_len = 0,
       target_index_bits = 0, target_port_num = 0, target_index_num = 0, target_port_list = (\<lambda>_. 80),
       list_of_ips_readable = False\<rparr>,
     tga_targets = False, listed_targets = False, iid_num = 2, packet_streams_num = 2,
     source_ips = [[192, 0, 2, 1]], num_source_ips = 1, src_offset = 0, num_retries = 10, only_ip = False,
     send_dryrun = False, max_runtime = 0, probe_thread_init = Inr,
     make_packet = (\<lambda>buff src dst port i index. Inr (buff, 60))\<rparr>"

text \<open>The identifiers are 1 and 2; every other attempt to send fails.\<close>

definition ex_world :: send_env where
  "ex_world = \<lparr>recv_done = (\<lambda>_. False), elapsed = (\<lambda>_. 0), current_iid = (\<lambda>n u. [0, 0, 0, of_nat (u + 1)]),
     send_ok = even\<rparr>"

text \<open>The walk over the shard: the element 4 comes after ten that are beyond the targets.\<close>

lemma ex_walk:
  "\<exists>st. next_index 4 (ex_shard\<lparr>sh_state := st0\<rparr>) = Some (Some 3, ex_shard\<lparr>sh_state := st, current := 4, iterations := 1\<rparr>)"
  "\<exists>st. next_index 4 (ex_shard\<lparr>sh_state := st0, current := 4, iterations := 1\<rparr>)
     = Some (None, ex_shard\<lparr>sh_state := st, current := 0, iterations := 2\<rparr>)"
  by (simp_all add: next_index.simps shard_get_next_elem_def ex_shard_def zero_shard_def Let_def PMAP_SHARD_DONE_def)

lemma ex_lookup: "blocklist_lookup_index_for_ipvx_port_index ex_all 2 = Inr (2, ex_all)"
  "blocklist_lookup_index_for_ipvx_port_index ex_all 3 = Inr (3, ex_all)"
  by code_simp+

lemma ex_write: "write_target (send_scan ex_send) 2 = Inr ([0, 2, 0, 0], 80, 0)"
  "write_target (send_scan ex_send) 3 = Inr ([0, 3, 0, 0], 80, 0)"
  "write_target (send_scan ex_send) 0 = Inr ([0, 0, 0, 0], 80, 0)"
  by code_simp+

lemma ex_skip [simp]: "skip_targets (send_scan ex_send) v sh bl = Some (Inr (v, sh, bl))"
  by (subst skip_targets.simps) (simp add: skipped_def ex_send_def)

lemma ex_current: "shard_get_current_ip_prefix_port_index (send_scan ex_send) ex_all (ex_shard\<lparr>sh_state := st\<rparr>)
    = Some (Inr (([0, 2, 0, 0], 80, 0), ex_shard\<lparr>sh_state := st\<rparr>, ex_all))"
  by (simp add: shard_get_current_ip_prefix_port_index_def shard_get_current_ipvx_port_index_def ex_shard_def ex_lookup ex_write)

lemma ex_scan: "scan_targets (send_scan ex_send) ex_all ex_shard = Some (Inr [([0, 2, 0, 0], 80, 0), ([0, 3, 0, 0], 80, 0)])"
proof -
  have m: "send_max_index (send_scan ex_send) = 4" by (simp add: ex_send_def)
  obtain st1 where 1: "next_index 4 ex_shard = Some (Some 3, ex_shard\<lparr>sh_state := st1, current := 4, iterations := 1\<rparr>)"
    using ex_walk(1) [of "sh_state ex_shard"] by auto
  obtain st2 where 2: "next_index 4 (ex_shard\<lparr>sh_state := st1, current := 4, iterations := 1\<rparr>)
      = Some (None, ex_shard\<lparr>sh_state := st2, current := 0, iterations := 2\<rparr>)"
    using ex_walk(2) by auto
  have n1: "shard_get_next_ip_prefix_port_index (send_scan ex_send) ex_all ex_shard
      = Some (Inr (([0, 3, 0, 0], 80, 0), ex_shard\<lparr>sh_state := st1, current := 4, iterations := 1\<rparr>, ex_all))"
    by (simp add: shard_get_next_ip_prefix_port_index_def shard_get_next_ipvx_port_index_def m 1 ex_lookup ex_write)
      (simp add: ex_shard_def PMAP_SHARD_DONE_def)
  have n2: "shard_get_next_ip_prefix_port_index (send_scan ex_send) ex_all (ex_shard\<lparr>sh_state := st1, current := 4, iterations := 1\<rparr>)
      = Some (Inr (([0, 0, 0, 0], 80, 0), ex_shard\<lparr>sh_state := st2, current := 0, iterations := 2\<rparr>, ex_all))"
    by (simp add: shard_get_next_ip_prefix_port_index_def shard_get_next_ipvx_port_index_def m 2 ex_write PMAP_SHARD_DONE_def)
  have d: "\<not> prefix_done [0, 2, 0, 0]" "\<not> prefix_done [0, 3, 0, 0]" "prefix_done [0, 0, 0, 0]" by (simp_all add: prefix_done_def be_value_def)
  have "rest_targets (send_scan ex_send) ex_all (ex_shard\<lparr>sh_state := st2, current := 0, iterations := 2\<rparr>) ([0, 0, 0, 0], 80, 0)
      = Some (Inr [])" using d by (subst rest_targets.simps) simp
  then have "rest_targets (send_scan ex_send) ex_all (ex_shard\<lparr>sh_state := st1, current := 4, iterations := 1\<rparr>) ([0, 3, 0, 0], 80, 0)
      = Some (Inr [([0, 3, 0, 0], 80, 0)])" using d n2 by (subst rest_targets.simps) simp
  then have "rest_targets (send_scan ex_send) ex_all ex_shard ([0, 2, 0, 0], 80, 0)
      = Some (Inr [([0, 2, 0, 0], 80, 0), ([0, 3, 0, 0], 80, 0)])" using d n1 by (subst rest_targets.simps) simp
  then show ?thesis using ex_current [of "sh_state ex_shard"] by (simp add: scan_targets_def)
qed

lemma ex_send_ready: "send_ready ex_send" "undisturbed ex_send ex_world"
  by (auto simp: send_ready_def module_ok_def undisturbed_def ex_send_def ex_world_def MAX_BUFF_def ETHER_def)

definition ex_thread :: iterator where
  "ex_thread = \<lparr>it_cycle = \<lparr>cycle_group = make_groups ! 0, generator = 3, cycle_order = 16, cycle_offset = 0\<rparr>,
     it_num_threads = 1, it_thread_shards = [ex_shard], it_complete = [0], it_curr_threads = 1\<rparr>"

theorem send_run_probes_witness:
  "\<exists>s it xs. send_run ex_send ex_world ex_net no_list True 0 ex_all ex_thread zero_totals = Some (Inr (EXIT_SUCCESS, Some s, it, xs))
    \<and> made s = [([0, 2, 0, 1], 80, 0, 0), ([0, 2, 0, 1], 80, 0, 1), ([0, 2, 0, 3], 80, 0, 0), ([0, 2, 0, 3], 80, 0, 1),
        ([0, 3, 0, 1], 80, 0, 0), ([0, 3, 0, 1], 80, 0, 1), ([0, 3, 0, 3], 80, 0, 0), ([0, 3, 0, 3], 80, 0, 1)]
    \<and> packets_sent (sh_state (sd s)) = 8 \<and> it_complete it = [1]"
proof -
  have p: "all_probes ex_send ex_world 0 [([0, 2, 0, 0], 80, 0), ([0, 3, 0, 0], 80, 0)]
    = [([0, 2, 0, 1], 80, 0, 0), ([0, 2, 0, 1], 80, 0, 1), ([0, 2, 0, 3], 80, 0, 0), ([0, 2, 0, 3], 80, 0, 1),
        ([0, 3, 0, 1], 80, 0, 0), ([0, 3, 0, 1], 80, 0, 1), ([0, 3, 0, 3], 80, 0, 0), ([0, 3, 0, 3], 80, 0, 1)]"
    by code_simp
  have "ex_shard = it_thread_shards ex_thread ! unat (0 :: u8)" by (simp add: ex_thread_def)
  from send_run_probes [OF ex_send_ready _ _ this ex_scan, of ex_net no_list zero_totals] p show ?thesis
    by (auto simp: ex_send_def ex_thread_def ex_shard_def zero_shard_def)
qed

text \<open>A dry run that ends after three packets.\<close>

definition ex_dry :: send_conf where
  "ex_dry = ex_send\<lparr>send_dryrun := True\<rparr>"

definition ex_limited :: shard where
  "ex_limited = ex_shard\<lparr>sh_state := (sh_state ex_shard)\<lparr>max_packets := 3\<rparr>\<rparr>"

theorem send_limits_witness:
  "\<exists>s. send_thread ex_dry ex_world ex_net no_list ex_limited ex_all = Some (Inr s)
    \<and> length (made s) = 3 \<and> send_inv ex_dry s"
proof -
  obtain buff where buff: "probe_thread_init ex_dry (replicate MAX_BUFF 0) = Inr buff" by (simp add: ex_dry_def ex_send_def)
  have sh: "ex_limited = ex_shard\<lparr>sh_state := (sh_state ex_shard)\<lparr>max_packets := 3\<rparr>\<rparr>" by (simp add: ex_limited_def)
  let ?s = "send_start ex_limited ex_all buff"
  have f: "first_target ex_dry ex_net no_list ex_limited ex_all = Some (Inr (([0, 2, 0, 0], 80, 0), ex_limited, ex_all))"
    using ex_current by (simp add: first_target_def ex_dry_def sh) (simp add: ex_send_def)
  have three: "\<not> (3 :: u64) \<le> 1" by (simp add: word_le_nat_alt)
  obtain t where t: "send_iids ex_dry ex_world 80 0 [0 ..< iid_num ex_dry] [0, 2, 0, 0] ?s = Inr (False, t)" "length (made t) = 3"
    by (simp add: ex_dry_def ex_send_def ex_world_def ex_limited_def ex_shard_def zero_shard_def send_start_def send_one_def
        thread_stops_def get_src_ip_def count_sent_def with_iid_def MAX_BUFF_def upt_rec [of _ 2] three Let_def)
  have "\<not> hosts_limit ?s" by (simp add: hosts_limit_def ex_limited_def ex_shard_def zero_shard_def send_start_def)
  moreover have "mpz_from_uint8s [0, 2, 0, 0] (ipv46_bytes (send_scan ex_dry)) = Inr 131072"
    by (simp add: mpz_from_uint8s_def mpz_import_def be_value_def ex_dry_def ex_send_def)
  ultimately have "send_loop ex_dry ex_world ex_net no_list ([0, 2, 0, 0], 80, 0) ?s = Some (Inr t)"
    using t by (subst send_loop.simps) (simp add: PMAP_SHARD_DONE_def)
  then have s: "send_thread ex_dry ex_world ex_net no_list ex_limited ex_all = Some (Inr t)"
    using f buff by (simp add: send_thread_def)
  have "send_inv ex_dry t"
    using send_limits [OF s] by (simp add: ex_limited_def ex_shard_def zero_shard_def)
  with s t(2) show ?thesis by blast
qed

section \<open>Deviations\<close>

text \<open>
  A bandwidth of 2,886 gigabit per second for the smallest packets becomes one packet per second; from half
  of it on, the truncated rate is negative and the scan does not start.
\<close>

lemma send_rate_truncated:
  "send_rate 54 (- 1) (672 * 0xFFFFFFFF) = Inr (1, 672 * 0xFFFFFFFF)"
  "send_rate 54 (- 1) (672 * 0x80000000) = Inl Log_fatal"
  "send_rate 54 (- 1) (672 * 0x7FFFFFFF) = Inr (0x7FFFFFFF, 672 * 0x7FFFFFFF)"
  by code_simp+

text \<open>The identifier 2 is put on top of the identifier 1.\<close>

lemma iids_cumulate: "address ex_send ex_world 0 [0, 2, 0, 0] 0 = [0, 2, 0, 1]" "address ex_send ex_world 0 [0, 2, 0, 0] 1 = [0, 2, 0, 3]"
  by code_simp+

text \<open>Only the first 256 source addresses are used.\<close>

lemma few_sources:
  assumes "get_src_ip c dst i = Inr src"
  shows "src \<in> set (take 256 (source_ips c))"
proof (cases "num_source_ips c = 1")
  case True
  then have "0 < length (source_ips c)" "src = source_ips c ! 0"
    using assms by (auto simp: get_src_ip_def Let_def split: if_splits)
  then show ?thesis by (auto simp: in_set_conv_nth intro: exI [of _ 0])
next
  case False
  let ?k = "unat (ucast (fold (\<lambda>b o'. o' + b) dst (ucast (src_offset c + of_nat i) :: u8)) mod num_source_ips c)"
  have k: "?k < length (source_ips c)" "src = source_ips c ! ?k"
    using assms False by (auto simp: get_src_ip_def Let_def split: if_splits)
  let ?o = "fold (\<lambda>b o'. o' + b) dst (ucast (src_offset c + of_nat i) :: u8)"
  have "?k \<le> unat (ucast ?o :: u32)" by (simp add: unat_mod)
  also have "unat (ucast ?o :: u32) = unat ?o"
    unfolding unsigned_ucast_eq by (rule take_bit_nat_eq_self) (use unsigned_less [of ?o, where ?'a = nat] in simp)
  also have "unat ?o < 256" using unsigned_less [of ?o, where ?'a = nat] by simp
  finally show ?thesis using k by (auto simp: in_set_conv_nth)
qed

end
