(* ===== verification/Hex_Text.thy ===== *)
theory Hex_Text
  imports C_Lib
begin

text \<open>
  Hexadecimal text in the C library: the numbers that \<open>sscanf ("%x")\<close> reads and \<open>printf ("%x")\<close>
  writes, and the tokens of \<open>strtok\<close>, with what reading gives back of what was written.
\<close>

lemma bind_out_cong [fundef_cong]:
  "\<lbrakk>r = r'; \<And>x. r' = Inr x \<Longrightarrow> f x = f' x\<rbrakk> \<Longrightarrow> bind_out r f = bind_out r' f'"
  by (cases r') simp_all

section \<open>Reading and writing\<close>

definition hex_value :: "char \<Rightarrow> nat option" where
  "hex_value c =
     (let x = of_char c :: nat
      in if 48 \<le> x \<and> x \<le> 57 then Some (x - 48)
         else if 97 \<le> x \<and> x \<le> 102 then Some (x - 87)
         else if 65 \<le> x \<and> x \<le> 70 then Some (x - 55) else None)"

definition c_isxdigit :: "char \<Rightarrow> bool" where
  "c_isxdigit c \<longleftrightarrow> hex_value c \<noteq> None"

fun hex_number :: "nat \<Rightarrow> string \<Rightarrow> nat" where
  "hex_number acc [] = acc"
| "hex_number acc (c # s) = hex_number (16 * acc + the (hex_value c)) s"

text \<open>
  At most \<open>width\<close> characters after white space: a sign, \<open>0x\<close> and digits. A number that does not fit
  into an \<open>unsigned long\<close> is its maximum, the result is cut to an \<open>unsigned int\<close>.
\<close>

definition sscanf_hex :: "nat \<Rightarrow> string \<Rightarrow> u32 option" where
  "sscanf_hex width s =
     (let t = take width (dropWhile c_isspace s);
          neg = (t \<noteq> [] \<and> hd t = CHR ''-'');
          t = (if t \<noteq> [] \<and> (hd t = CHR ''-'' \<or> hd t = CHR ''+'') then tl t else t);
          t = (if take 2 t = ''0x'' \<or> take 2 t = ''0X'' then drop 2 t else t);
          ds = takeWhile c_isxdigit t;
          v = hex_number 0 ds
      in if ds = [] then None
         else Some (if 2 ^ 64 \<le> v then - 1 else if neg then - of_nat v else of_nat v))"

definition hex_char :: "nat \<Rightarrow> char" where
  "hex_char d = (if d < 10 then char_of (48 + d) else char_of (87 + d))"

fun show_hex :: "nat \<Rightarrow> string" where
  "show_hex n = (if n < 16 then [hex_char n] else show_hex (n div 16) @ [hex_char (n mod 16)])"

declare show_hex.simps [simp del]

text \<open>\<open>%04x\<close>\<close>

definition show_hex4 :: "nat \<Rightarrow> string" where
  "show_hex4 n = replicate (4 - length (show_hex n)) (CHR ''0'') @ show_hex n"

text \<open>The maximal runs without the separator; empty ones are skipped.\<close>

fun tokens_loop :: "char \<Rightarrow> string \<Rightarrow> string \<Rightarrow> string list" where
  "tokens_loop d acc [] = (if acc = [] then [] else [acc])"
| "tokens_loop d acc (c # s) =
     (if c = d then (if acc = [] then tokens_loop d [] s else acc # tokens_loop d [] s)
      else tokens_loop d (acc @ [c]) s)"

definition strtok :: "char \<Rightarrow> string \<Rightarrow> string list" where
  "strtok d s = tokens_loop d [] s"

section \<open>What is read back\<close>

definition hex_chars :: string where
  "hex_chars = ''0123456789abcdef''"

lemma hex_char_cases:
  assumes "d < 16"
  shows "hex_char d = hex_chars ! d" "hex_value (hex_char d) = Some d" "c_isxdigit (hex_char d)"
    "\<not> c_isspace (hex_char d)" "hex_char d \<notin> {CHR ''-'', CHR ''+'', CHR ''x'', CHR ''X'', CHR '':'', CHR ''*''}"
proof -
  have d: "d \<in> set [0 ..< 16]" using assms by simp
  have "list_all (\<lambda>d. hex_char d = hex_chars ! d \<and> hex_value (hex_char d) = Some d \<and> \<not> c_isspace (hex_char d)
      \<and> hex_char d \<notin> {CHR ''-'', CHR ''+'', CHR ''x'', CHR ''X'', CHR '':'', CHR ''*''})
    [0 ..< 16]"
    by code_simp
  then have *: "hex_char d = hex_chars ! d \<and> hex_value (hex_char d) = Some d \<and> \<not> c_isspace (hex_char d)
      \<and> hex_char d \<notin> {CHR ''-'', CHR ''+'', CHR ''x'', CHR ''X'', CHR '':'', CHR ''*''}"
    using d unfolding list_all_iff by blast
  then show "hex_char d = hex_chars ! d" "hex_value (hex_char d) = Some d"
    "\<not> c_isspace (hex_char d)" "hex_char d \<notin> {CHR ''-'', CHR ''+'', CHR ''x'', CHR ''X'', CHR '':'', CHR ''*''}"
    by blast+
  from * have "hex_value (hex_char d) = Some d" by blast
  then show "c_isxdigit (hex_char d)" by (simp only: c_isxdigit_def) simp
qed

lemma hex_number_snoc: "hex_number acc (s @ [c]) = 16 * hex_number acc s + the (hex_value c)"
  by (induction s arbitrary: acc) simp_all

lemma show_hex_digits: "\<exists>ds. show_hex n = map hex_char ds \<and> ds \<noteq> [] \<and> (\<forall>d \<in> set ds. d < 16)"
proof (induction n rule: show_hex.induct)
  case (1 n)
  show ?case
  proof (cases "n < 16")
    case True
    then show ?thesis by (intro exI [of _ "[n]"]) (simp add: show_hex.simps)
  next
    case False
    from 1 [OF False] obtain ds where "show_hex (n div 16) = map hex_char ds" "\<forall>d \<in> set ds. d < 16" by blast
    with False show ?thesis by (intro exI [of _ "ds @ [n mod 16]"]) (simp add: show_hex.simps [of n])
  qed
qed

lemma show_hex_value: "hex_number 0 (show_hex n) = n"
proof (induction n rule: show_hex.induct)
  case (1 n)
  show ?case
  proof (cases "n < 16")
    case True
    then show ?thesis by (simp add: show_hex.simps [of n] hex_char_cases(2))
  next
    case False
    then show ?thesis using 1 [OF False]
      by (simp add: show_hex.simps [of n] hex_number_snoc hex_char_cases(2))
  qed
qed

lemma show_hex_length: "n < 16 ^ k \<Longrightarrow> 0 < k \<Longrightarrow> length (show_hex n) \<le> k"
proof (induction k arbitrary: n)
  case (Suc k)
  show ?case
  proof (cases "n < 16")
    case False
    have "n < 16 ^ k * 16" using Suc.prems(1) by (simp add: mult.commute)
    then have "n div 16 < 16 ^ k" by (rule less_mult_imp_div_less)
    moreover have "0 < k" using False Suc.prems(1) by (cases k) simp_all
    ultimately show ?thesis using Suc.IH [of "n div 16"] False by (simp add: show_hex.simps [of n])
  qed (simp add: show_hex.simps [of n])
qed simp

lemma show_hex_chars:
  assumes "c \<in> set (show_hex n)"
  shows "c_isxdigit c" "\<not> c_isspace c" "c \<notin> {CHR ''-'', CHR ''+'', CHR ''x'', CHR ''X'', CHR '':'', CHR ''*''}"
    "c \<in> set hex_chars"
proof -
  obtain d where "c = hex_char d" "d < 16" using assms show_hex_digits [of n] by auto
  then show "c_isxdigit c" "\<not> c_isspace c" "c \<notin> {CHR ''-'', CHR ''+'', CHR ''x'', CHR ''X'', CHR '':'', CHR ''*''}"
    "c \<in> set hex_chars"
    using hex_char_cases [of d] by (auto simp: hex_chars_def nth_Cons' simp del: insert_iff)
qed

lemma show_hex_nonempty [simp]: "show_hex n \<noteq> []"
  using show_hex_digits [of n] by auto

lemma show_hex_no_prefix:
  "hd (show_hex n) \<noteq> CHR ''-''" "hd (show_hex n) \<noteq> CHR ''+''"
  "take 2 (show_hex n) \<noteq> ''0x''" "take 2 (show_hex n) \<noteq> ''0X''"
proof -
  show "hd (show_hex n) \<noteq> CHR ''-''" "hd (show_hex n) \<noteq> CHR ''+''"
    using show_hex_chars(3) [of "hd (show_hex n)" n] by auto
  have "CHR ''x'' \<notin> set (show_hex n)" "CHR ''X'' \<notin> set (show_hex n)"
    using show_hex_chars(3) by blast+
  then show "take 2 (show_hex n) \<noteq> ''0x''" "take 2 (show_hex n) \<noteq> ''0X''"
    by (metis in_set_takeD list.set_intros(1,2))+
qed

text \<open>A printed number, with any number of leading zeros, is read back.\<close>

lemma sscanf_hex_text:
  assumes "s \<noteq> []" "length s \<le> w" "\<forall>c \<in> set s. c \<in> set hex_chars"
  shows "sscanf_hex w s = Some (if 2 ^ 64 \<le> hex_number 0 s then - 1 else of_nat (hex_number 0 s))"
proof -
  have c: "c_isxdigit c \<and> \<not> c_isspace c \<and> c \<notin> {CHR ''-'', CHR ''+'', CHR ''x'', CHR ''X''}"
    if "c \<in> set s" for c
  proof -
    have "list_all (\<lambda>c. c_isxdigit c \<and> \<not> c_isspace c \<and> c \<notin> {CHR ''-'', CHR ''+'', CHR ''x'', CHR ''X''}) hex_chars"
      by code_simp
    then show ?thesis using assms(3) that unfolding list_all_iff by blast
  qed
  have "dropWhile c_isspace s = s" using c assms(1) by (cases s) auto
  moreover have "hd s \<noteq> CHR ''-''" "hd s \<noteq> CHR ''+''" using c [of "hd s"] assms(1) by auto
  moreover have "take 2 s \<noteq> ''0x''" "take 2 s \<noteq> ''0X''"
    using c by (metis in_set_takeD insertCI list.set_intros(1,2))+
  moreover have "takeWhile c_isxdigit s = s" using c by (simp only: takeWhile_eq_all_conv) blast
  ultimately show ?thesis using assms(1,2) by (simp add: sscanf_hex_def Let_def del: takeWhile_eq_all_conv)
qed

lemma hex_number_zeros: "hex_number 0 (replicate k (CHR ''0'') @ s) = hex_number 0 s"
proof -
  have "hex_value (CHR ''0'') = Some 0" by code_simp
  then show ?thesis by (induction k) simp_all
qed

lemma hex_chars_zero: "CHR ''0'' \<in> set hex_chars"
  by (simp add: hex_chars_def)

lemma sscanf_show_hex:
  assumes "n < 2 ^ 32" "k + length (show_hex n) \<le> w"
  shows "sscanf_hex w (replicate k (CHR ''0'') @ show_hex n) = Some (of_nat n)"
proof -
  let ?s = "replicate k (CHR ''0'') @ show_hex n"
  have "\<forall>c \<in> set ?s. c \<in> set hex_chars" using show_hex_chars(4) hex_chars_zero by auto
  from sscanf_hex_text [OF _ _ this] assms show ?thesis
    by (simp add: hex_number_zeros show_hex_value)
qed

lemma show_hex4_props:
  assumes "n < 2 ^ 16"
  shows "length (show_hex4 n) = 4" "set (show_hex4 n) \<subseteq> set hex_chars" "hex_number 0 (show_hex4 n) = n"
  using show_hex_length [of n 4] assms show_hex_chars(4) [of _ n] hex_chars_zero
  by (auto simp: show_hex4_def hex_number_zeros show_hex_value)

text \<open>Tokens of texts joined with the separator.\<close>

lemma tokens_acc:
  "d \<notin> set t \<Longrightarrow> tokens_loop d acc (t @ s) = tokens_loop d (acc @ t) s"
  by (induction t arbitrary: acc) auto

lemma strtok_simps:
  "strtok d [] = []" "strtok d (d # s) = strtok d s"
  "\<lbrakk>t \<noteq> []; d \<notin> set t\<rbrakk> \<Longrightarrow> strtok d t = [t]"
  "\<lbrakk>t \<noteq> []; d \<notin> set t\<rbrakk> \<Longrightarrow> strtok d (t @ d # s) = t # strtok d s"
  using tokens_acc [of d t "[]" "[]"] tokens_acc [of d t "[]" "d # s"]
  by (simp_all add: strtok_def)

fun join_with :: "char \<Rightarrow> string list \<Rightarrow> string" where
  "join_with d [] = []"
| "join_with d [t] = t"
| "join_with d (t # ts) = t @ d # join_with d ts"

lemma strtok_join:
  "\<forall>t \<in> set ts. t \<noteq> [] \<and> d \<notin> set t \<Longrightarrow> strtok d (join_with d ts) = ts"
  by (induction d ts rule: join_with.induct) (simp_all add: strtok_simps)

lemma strtok_join_append:
  "\<forall>t \<in> set ts. t \<noteq> [] \<and> d \<notin> set t \<Longrightarrow> strtok d (join_with d ts @ d # s) = ts @ strtok d s"
  by (induction d ts rule: join_with.induct) (simp_all add: strtok_simps)
end
