(* ===== verification/Tga.thy ===== *)
theory Tga
  imports Interfaces Hex_Text "HOL-Library.Char_ord" "HOL-Library.List_Lexorder" "HOL-Library.Multiset"
begin

text \<open>
  Target generation (\<open>lib/tga.c\<close> and its use in \<open>src/hmap.c\<close>): seed addresses become vectors of 32
  hexadecimal digits, the sorted vectors are merged into subspaces with wildcards where they are
  close, the subspaces are collected in a hash set, and every subspace is expanded into targets.
  A vector or an address is a string without its terminator.
\<close>

section \<open>The set of subspaces\<close>

text \<open>A chain of nodes is the list of its keys.\<close>

record hash_set =
  buckets :: "string list list"
  hs_size :: u64
  hs_capacity :: u64

definition HashSet_init :: "u64 \<Rightarrow> hash_set" where
  "HashSet_init n = \<lparr>buckets = replicate (unat n) [], hs_size = 0, hs_capacity = n\<rparr>"

text \<open>A \<open>char\<close> is signed; it is extended to the width of \<open>size_t\<close>.\<close>

fun hash_loop :: "u64 \<Rightarrow> u64 \<Rightarrow> string \<Rightarrow> u64" where
  "hash_loop h n [] = h"
| "hash_loop h n (c # key) = hash_loop ((h * 31 + scast (of_char c :: u8)) mod n) n key"

definition hash_key :: "string \<Rightarrow> u64 \<Rightarrow> u64 outcome" where
  "hash_key key n = (if n = 0 \<and> key \<noteq> [] then Inl Undefined_value else Inr (hash_loop 0 n key))"

fun chain_contains :: "string list \<Rightarrow> string \<Rightarrow> bool" where
  "chain_contains [] key = False"
| "chain_contains (k # rest) key = (if k = key then True else chain_contains rest key)"

definition HashSet_contains :: "hash_set \<Rightarrow> string \<Rightarrow> bool outcome" where
  "HashSet_contains hs key =
     bind_out (hash_key key (hs_capacity hs)) (\<lambda>h.
       if length (buckets hs) \<le> unat h then Inl Out_of_bounds
       else Inr (chain_contains (buckets hs ! unat h) key))"

text \<open>A node is put at the front of its chain.\<close>

definition push_node :: "u64 \<Rightarrow> string \<Rightarrow> string list list \<Rightarrow> string list list outcome" where
  "push_node n k t =
     bind_out (hash_key k n) (\<lambda>h.
       if length t \<le> unat h then Inl Out_of_bounds else Inr (t[unat h := k # t ! unat h]))"

fun rehash_chain :: "u64 \<Rightarrow> string list \<Rightarrow> string list list \<Rightarrow> string list list outcome" where
  "rehash_chain n [] t = Inr t"
| "rehash_chain n (k # rest) t = bind_out (push_node n k t) (rehash_chain n rest)"

fun rehash :: "u64 \<Rightarrow> string list list \<Rightarrow> string list list \<Rightarrow> string list list outcome" where
  "rehash n [] t = Inr t"
| "rehash n (c # cs) t = bind_out (rehash_chain n c t) (rehash n cs)"

definition HashSet_resize :: "hash_set \<Rightarrow> u64 \<Rightarrow> hash_set outcome" where
  "HashSet_resize hs n =
     bind_out (rehash n (take (unat (hs_capacity hs)) (buckets hs)) (replicate (unat n) [])) (\<lambda>t.
       Inr (hs\<lparr>buckets := t, hs_capacity := n\<rparr>))"

text \<open>
  The load factor is compared as a fraction: the quotient of two numbers below \<open>2 ^ 51\<close> is rounded to
  3/4 or more only if it is at least 3/4.
\<close>

definition HashSet_insert :: "hash_set \<Rightarrow> string \<Rightarrow> hash_set outcome" where
  "HashSet_insert hs key =
     bind_out (HashSet_contains hs key) (\<lambda>found.
     if found then Inr hs
     else
       bind_out (if 3 * unat (hs_capacity hs) \<le> 4 * unat (hs_size hs)
                 then HashSet_resize hs (hs_capacity hs * 2) else Inr hs) (\<lambda>hs.
       bind_out (push_node (hs_capacity hs) key (buckets hs)) (\<lambda>t.
         Inr (hs\<lparr>buckets := t, hs_size := hs_size hs + 1\<rparr>))))"

section \<open>What the set holds\<close>

definition hs_elems :: "hash_set \<Rightarrow> string list" where
  "hs_elems hs = concat (buckets hs)"

text \<open>A table of \<open>n\<close> chains, in which every key is in the chain of its hash.\<close>

definition table_ok :: "u64 \<Rightarrow> string list list \<Rightarrow> bool" where
  "table_ok n t \<longleftrightarrow> n \<noteq> 0 \<and> length t = unat n \<and> distinct (concat t)
     \<and> (\<forall>i < length t. \<forall>k \<in> set (t ! i). unat (hash_loop 0 n k) = i)"

definition hs_ok :: "hash_set \<Rightarrow> bool" where
  "hs_ok hs \<longleftrightarrow> table_ok (hs_capacity hs) (buckets hs) \<and> unat (hs_size hs) = length (hs_elems hs)
     \<and> (unat (hs_capacity hs) \<le> 1000000 \<or> 3 * unat (hs_capacity hs) \<le> 8 * unat (hs_size hs))"

lemma chain_contains_mem [simp]: "chain_contains c key \<longleftrightarrow> key \<in> set c"
  by (induction c) auto

lemma hash_loop_less: "n \<noteq> 0 \<Longrightarrow> h < n \<Longrightarrow> hash_loop h n key < n"
  by (induction key arbitrary: h) (simp_all add: word_gt_0 word_mod_less_divisor)

lemma hash_in_table: "table_ok n t \<Longrightarrow> unat (hash_loop 0 n key) < length t"
  using hash_loop_less [of n 0 key] by (simp add: table_ok_def word_gt_0 flip: word_less_nat_alt)

lemma hash_key_ok [simp]: "n \<noteq> 0 \<Longrightarrow> hash_key key n = Inr (hash_loop 0 n key)"
  by (simp add: hash_key_def)

lemma table_ok_nonzero: "table_ok n t \<Longrightarrow> n \<noteq> 0"
  by (simp add: table_ok_def)

lemma mem_table:
  assumes "table_ok n t"
  shows "key \<in> set (concat t) \<longleftrightarrow> key \<in> set (t ! unat (hash_loop 0 n key))"
proof
  assume "key \<in> set (concat t)"
  then obtain c where "c \<in> set t" "key \<in> set c" by auto
  then obtain i where "i < length t" "key \<in> set (t ! i)" using in_set_conv_nth [of c t] by blast
  then show "key \<in> set (t ! unat (hash_loop 0 n key))" using assms by (auto simp: table_ok_def)
qed (use hash_in_table [OF assms, of key] in \<open>auto intro: nth_mem\<close>)

lemma push_node_ok:
  assumes "table_ok n t"
  shows "push_node n k t = Inr (t[unat (hash_loop 0 n k) := k # t ! unat (hash_loop 0 n k)])"
  using hash_in_table [OF assms, of k] table_ok_nonzero [OF assms] by (simp add: push_node_def)

lemma mset_concat_push:
  "i < length t \<Longrightarrow> mset (concat (t[i := k # t ! i])) = add_mset k (mset (concat t))"
proof (induction t arbitrary: i)
  case (Cons c t)
  then show ?case by (cases i) auto
qed simp

lemma push_node_spec:
  assumes "table_ok n t" "k \<notin> set (concat t)"
  shows "\<exists>t'. push_node n k t = Inr t' \<and> table_ok n t'
    \<and> mset (concat t') = add_mset k (mset (concat t))"
proof -
  let ?h = "unat (hash_loop 0 n k)"
  let ?t = "t[?h := k # t ! ?h]"
  have h: "?h < length t" by (rule hash_in_table [OF assms(1)])
  have m: "mset (concat ?t) = mset (k # concat t)" using mset_concat_push [OF h] by simp
  have "distinct (concat ?t)"
    using mset_eq_imp_distinct_iff [OF m] assms by (simp add: table_ok_def)
  moreover have "unat (hash_loop 0 n x) = i" if i: "i < length ?t" and x: "x \<in> set (?t ! i)" for i x
  proof -
    have "i = ?h \<and> x = k \<or> x \<in> set (t ! i)" using x h by (cases "i = ?h") simp_all
    then show ?thesis
    proof
      assume "x \<in> set (t ! i)"
      moreover have "i < length t" using i by simp
      ultimately show ?thesis using assms(1) unfolding table_ok_def by blast
    qed simp
  qed
  ultimately have "table_ok n ?t"
    using assms(1) unfolding table_ok_def length_list_update by blast
  then show ?thesis using push_node_ok [OF assms(1), of k] m by auto
qed

lemma rehash_chain_spec:
  "\<lbrakk>table_ok n t; distinct c; set c \<inter> set (concat t) = {}\<rbrakk> \<Longrightarrow>
   \<exists>t'. rehash_chain n c t = Inr t' \<and> table_ok n t' \<and> mset (concat t') = mset c + mset (concat t)"
proof (induction c arbitrary: t)
  case (Cons k rest)
  obtain t1 where t1: "push_node n k t = Inr t1" "table_ok n t1"
      "mset (concat t1) = add_mset k (mset (concat t))"
    using push_node_spec [OF Cons.prems(1), of k] Cons.prems(3) by auto
  have "set (concat t1) = insert k (set (concat t))"
    using arg_cong [OF t1(3), of set_mset] by simp
  then have "set rest \<inter> set (concat t1) = {}" using Cons.prems(2,3) by auto
  from Cons.IH [OF t1(2) _ this] Cons.prems(2) show ?case by (auto simp: t1)
qed simp

lemma rehash_spec:
  "\<lbrakk>table_ok n t; distinct (concat cs); set (concat cs) \<inter> set (concat t) = {}\<rbrakk> \<Longrightarrow>
   \<exists>t'. rehash n cs t = Inr t' \<and> table_ok n t' \<and> mset (concat t') = mset (concat cs) + mset (concat t)"
proof (induction cs arbitrary: t)
  case (Cons c cs)
  have c: "distinct c" "distinct (concat cs)" "set c \<inter> set (concat cs) = {}" "set c \<inter> set (concat t) = {}"
    using Cons.prems(2,3) by auto
  obtain t1 where t1: "rehash_chain n c t = Inr t1" "table_ok n t1"
      "mset (concat t1) = mset c + mset (concat t)"
    using rehash_chain_spec [OF Cons.prems(1) c(1,4)] by blast
  have "set (concat t1) = set c \<union> set (concat t)"
    using arg_cong [OF t1(3), of set_mset] by simp
  then have "set (concat cs) \<inter> set (concat t1) = {}" using Cons.prems(3) c(3) by auto
  from Cons.IH [OF t1(2) c(2) this] show ?case by (auto simp: t1 ac_simps)
qed simp

lemma empty_table_ok: "n \<noteq> 0 \<Longrightarrow> table_ok n (replicate (unat n) [])"
  by (simp add: table_ok_def concat_replicate_trivial)

lemma resize_spec:
  assumes "table_ok (hs_capacity hs) (buckets hs)" "n \<noteq> 0"
  shows "\<exists>t. HashSet_resize hs n = Inr (hs\<lparr>buckets := t, hs_capacity := n\<rparr>) \<and> table_ok n t
    \<and> mset (concat t) = mset (hs_elems hs)"
proof -
  have "length (buckets hs) = unat (hs_capacity hs)" "distinct (concat (buckets hs))"
    using assms(1) by (simp_all add: table_ok_def)
  then show ?thesis
    using rehash_spec [OF empty_table_ok [OF assms(2)], of "buckets hs"]
    by (auto simp: HashSet_resize_def hs_elems_def)
qed

lemma HashSet_contains_spec:
  assumes "hs_ok hs"
  shows "HashSet_contains hs key = Inr (key \<in> set (hs_elems hs))"
proof -
  have t: "table_ok (hs_capacity hs) (buckets hs)" using assms by (simp add: hs_ok_def)
  show ?thesis
    using hash_in_table [OF t, of key] mem_table [OF t, of key] table_ok_nonzero [OF t]
    by (simp add: HashSet_contains_def hs_elems_def)
qed

text \<open>
  The capacity is doubled when the set is three quarters full, so a set of fewer than \<open>2 ^ 40\<close>
  elements never wraps its numbers around.
\<close>

lemma insert_capacity:
  assumes "hs_ok hs" "length (hs_elems hs) < 2 ^ 40"
  shows "hs_capacity hs * 2 \<noteq> 0" "unat (hs_capacity hs * 2) = 2 * unat (hs_capacity hs)"
    "unat (hs_size hs + 1) = unat (hs_size hs) + 1"
proof -
  have s: "unat (hs_size hs) < 2 ^ 40" and c: "unat (hs_capacity hs) < 2 ^ 42"
    using assms by (auto simp: hs_ok_def)
  then show u: "unat (hs_capacity hs * 2) = 2 * unat (hs_capacity hs)"
    by (simp add: unat_word_ariths)
  show "unat (hs_size hs + 1) = unat (hs_size hs) + 1" using s by (simp add: unat_word_ariths)
  have "hs_capacity hs \<noteq> 0" using assms(1) by (simp add: hs_ok_def table_ok_def)
  then have "0 < unat (hs_capacity hs * 2)" by (simp add: u unat_gt_0)
  then show "hs_capacity hs * 2 \<noteq> 0" by (metis less_numeral_extra(3) unat_0)
qed

lemma grow_spec:
  assumes "hs_ok hs" "length (hs_elems hs) < 2 ^ 40"
  shows "\<exists>hs'. (if 3 * unat (hs_capacity hs) \<le> 4 * unat (hs_size hs)
       then HashSet_resize hs (hs_capacity hs * 2) else Inr hs) = Inr hs'
     \<and> table_ok (hs_capacity hs') (buckets hs') \<and> mset (hs_elems hs') = mset (hs_elems hs)
     \<and> hs_size hs' = hs_size hs
     \<and> (unat (hs_capacity hs') \<le> 1000000 \<or> 3 * unat (hs_capacity hs') \<le> 8 * unat (hs_size hs))"
proof (cases "3 * unat (hs_capacity hs) \<le> 4 * unat (hs_size hs)")
  case True
  have "table_ok (hs_capacity hs) (buckets hs)" using assms(1) by (simp add: hs_ok_def)
  from resize_spec [OF this insert_capacity(1) [OF assms]] obtain t where
    "HashSet_resize hs (hs_capacity hs * 2) = Inr (hs\<lparr>buckets := t, hs_capacity := hs_capacity hs * 2\<rparr>)"
    "table_ok (hs_capacity hs * 2) t" "mset (concat t) = mset (hs_elems hs)" by blast
  with True show ?thesis by (simp add: insert_capacity [OF assms] hs_elems_def)
qed (use assms in \<open>auto simp: hs_ok_def\<close>)

lemma HashSet_insert_spec:
  assumes "hs_ok hs" "length (hs_elems hs) < 2 ^ 40"
  shows "\<exists>hs'. HashSet_insert hs key = Inr hs' \<and> hs_ok hs'
    \<and> set (hs_elems hs') = insert key (set (hs_elems hs))"
proof (cases "key \<in> set (hs_elems hs)")
  case True
  then show ?thesis using assms(1) by (auto simp: HashSet_insert_def HashSet_contains_spec)
next
  case False
  from grow_spec [OF assms] obtain g where g: "(if 3 * unat (hs_capacity hs) \<le> 4 * unat (hs_size hs)
       then HashSet_resize hs (hs_capacity hs * 2) else Inr hs) = Inr g"
     "table_ok (hs_capacity g) (buckets g)" "mset (hs_elems g) = mset (hs_elems hs)"
     "hs_size g = hs_size hs"
     "unat (hs_capacity g) \<le> 1000000 \<or> 3 * unat (hs_capacity g) \<le> 8 * unat (hs_size hs)" by blast
  have s: "set (hs_elems g) = set (hs_elems hs)" and l: "length (hs_elems g) = length (hs_elems hs)"
    using g(3) by (metis set_mset_mset, metis size_mset)
  from False s obtain t where t: "push_node (hs_capacity g) key (buckets g) = Inr t"
      "table_ok (hs_capacity g) t" "mset (concat t) = add_mset key (mset (hs_elems g))"
    using push_node_spec [OF g(2), of key] by (auto simp: hs_elems_def)
  let ?h = "g\<lparr>buckets := t, hs_size := hs_size g + 1\<rparr>"
  have "HashSet_insert hs key = Inr ?h"
    using False g(1) t(1) by (simp add: HashSet_insert_def HashSet_contains_spec [OF assms(1)])
  moreover have "hs_ok ?h"
  proof -
    have "length (concat t) = unat (hs_size hs) + 1"
      using arg_cong [OF t(3), of size] l assms(1) by (simp add: hs_ok_def)
    then show ?thesis using g(4,5) t(2) insert_capacity(3) [OF assms]
      by (simp add: hs_ok_def hs_elems_def) linarith
  qed
  moreover have "set (hs_elems ?h) = insert key (set (hs_elems hs))"
    using arg_cong [OF t(3), of set_mset] s by (simp add: hs_elems_def)
  ultimately show ?thesis by blast
qed

interpretation hs: key_set hs_ok hs_elems HashSet_contains HashSet_insert "2 ^ 40"
proof
  show "hs_ok hs \<Longrightarrow> distinct (hs_elems hs)" for hs
    by (simp only: hs_ok_def table_ok_def hs_elems_def)
  show "hs_ok hs \<Longrightarrow> HashSet_contains hs key = Inr (key \<in> set (hs_elems hs))" for hs key
    by (rule HashSet_contains_spec)
  show "\<lbrakk>hs_ok hs; length (hs_elems hs) < 2 ^ 40\<rbrakk> \<Longrightarrow>
      \<exists>hs'. HashSet_insert hs key = Inr hs' \<and> hs_ok hs'
        \<and> set (hs_elems hs') = insert key (set (hs_elems hs))" for hs key
    by (rule HashSet_insert_spec)
qed

lemma HashSet_init_ok:
  "\<lbrakk>0 < n; n \<le> 1000000\<rbrakk> \<Longrightarrow> hs_ok (HashSet_init n) \<and> hs_elems (HashSet_init n) = []"
  using empty_table_ok [of n]
  by (simp add: hs_ok_def HashSet_init_def hs_elems_def concat_replicate_trivial word_gt_0 word_le_nat_alt)

text \<open>
  Inserting keys into a new set, rehashed as often as it fills up, gives the set of
  those keys: each is listed once, and exactly they are found.
\<close>

lemma hash_set_refines:
  assumes "0 < n" "n \<le> 1000000" "length ks \<le> 2 ^ 40"
  shows "\<exists>hs. put_all HashSet_insert (HashSet_init n) ks = Inr hs \<and> distinct (hs_elems hs)
    \<and> set (hs_elems hs) = set ks \<and> (\<forall>k. HashSet_contains hs k = Inr (k \<in> set ks))"
  using hs.has_put_all [of "HashSet_init n" ks] HashSet_init_ok [OF assms(1,2)] assms(3) by blast

text \<open>A table of one chain, which is rehashed at the second and third key.\<close>

lemma hash_set_refines_example:
  "\<exists>hs. put_all HashSet_insert (HashSet_init 1) [''a'', ''b'', ''a'', ''c''] = Inr hs
    \<and> HashSet_contains hs ''b'' = Inr True \<and> HashSet_contains hs ''d'' = Inr False \<and> length (hs_elems hs) = 3"
proof -
  let ?ks = "[''a'', ''b'', ''a'', ''c'']"
  have "0 < (1 :: u64)" "1 \<le> (1000000 :: u64)" "length ?ks \<le> 2 ^ 40" by simp_all
  from hash_set_refines [OF this] obtain hs where
    hs: "put_all HashSet_insert (HashSet_init 1) ?ks = Inr hs" "distinct (hs_elems hs)"
      "set (hs_elems hs) = set ?ks" "\<forall>k. HashSet_contains hs k = Inr (k \<in> set ?ks)" by blast
  have "length (hs_elems hs) = card (set ?ks)" using distinct_card [OF hs(2)] hs(3) by simp
  moreover have "card (set ?ks) = 3" by code_simp
  ultimately have "length (hs_elems hs) = 3" by simp
  then show ?thesis using hs(1,4) by (intro exI [of _ hs]) (simp del: put_all.simps)
qed

section \<open>Vectors\<close>

definition star :: char where "star = CHR ''*''"
definition IPV6_LENGTH :: nat where "IPV6_LENGTH = 32"
definition HAMMING_THRESHOLD :: nat where "HAMMING_THRESHOLD = 3"

text \<open>The address with \<open>:*:\<close> for its first double colon.\<close>

fun mark_gap :: "string \<Rightarrow> string" where
  "mark_gap [] = []"
| "mark_gap (c # s) =
     (if c = CHR '':'' \<and> s \<noteq> [] \<and> hd s = CHR '':'' then '':*:'' @ tl s else c # mark_gap s)"

text \<open>
  The vector so far and the number of groups. The buffer has room for 32 characters; a group that is
  not a number leaves \<open>num\<close> without a value.
\<close>

fun seed_tokens :: "string list \<Rightarrow> string \<Rightarrow> nat \<Rightarrow> (string \<times> nat) outcome" where
  "seed_tokens [] b n = Inr (b, n)"
| "seed_tokens (t # ts) b n =
     (if t = [star] then
        (if IPV6_LENGTH \<le> length b then Inl Out_of_bounds else seed_tokens ts (b @ [star]) n)
      else case sscanf_hex (length t) t of
        None \<Rightarrow> Inl Undefined_value
      | Some v \<Rightarrow>
          let d = show_hex4 (unat v)
          in if IPV6_LENGTH < length b + length d then Inl Out_of_bounds
             else seed_tokens ts (b @ d) (n + 1))"

text \<open>
  There are at most 8 groups, each takes 4 characters or more. The first wildcard is replaced by the
  zeros of the missing groups.
\<close>

definition fill_gap :: "string \<Rightarrow> nat \<Rightarrow> string outcome" where
  "fill_gap b n =
     (if star \<notin> set b then Inr b
      else let r = takeWhile (\<lambda>c. c \<noteq> star) b @ replicate ((8 - n) * 4) (CHR ''0'')
                     @ tl (dropWhile (\<lambda>c. c \<noteq> star) b)
           in if IPV6_LENGTH < length r then Inl Out_of_bounds else Inr r)"

definition seed2vec :: "string \<Rightarrow> string outcome" where
  "seed2vec ipv6 =
     bind_out (seed_tokens (strtok (CHR '':'') (mark_gap ipv6)) [] 0) (\<lambda>(b, n). fill_gap b n)"

text \<open>
  The first 32 characters in memory: a shorter vector has its terminator there, and no value after it.
\<close>

definition chars32 :: "string \<Rightarrow> string outcome" where
  "chars32 s = (if length s < IPV6_LENGTH - 1 then Inl Undefined_value
                else Inr (take IPV6_LENGTH (s @ [nul])))"

definition c_string :: "string \<Rightarrow> string" where
  "c_string s = takeWhile (\<lambda>c. c \<noteq> nul) s"

definition hamming_distance :: "string \<Rightarrow> string \<Rightarrow> nat outcome" where
  "hamming_distance a b =
     bind_out (chars32 a) (\<lambda>a. bind_out (chars32 b) (\<lambda>b.
       Inr (length (filter (\<lambda>(x, y). x \<noteq> y) (zip a b)))))"

definition merge_strings :: "string \<Rightarrow> string \<Rightarrow> string outcome" where
  "merge_strings a b =
     bind_out (chars32 a) (\<lambda>a. bind_out (chars32 b) (\<lambda>b.
       Inr (c_string (map (\<lambda>(x, y). if x = y then x else star) (zip a b)))))"

text \<open>Eight groups of four.\<close>

definition vec2colon :: "string \<Rightarrow> string outcome" where
  "vec2colon line =
     bind_out (chars32 line) (\<lambda>l.
       Inr (c_string (concat (map (\<lambda>i. take 4 (drop (i * 4) l) @ '':'') [0 ..< 7]) @ drop 28 l)))"

section \<open>Clustering\<close>

text \<open>The inner loop: the index to go on from and the vectors.\<close>

function absorb :: "string list \<Rightarrow> nat \<Rightarrow> nat \<Rightarrow> (nat \<times> string list) outcome" where
  "absorb ips i j =
     (if j < length ips then
        bind_out (hamming_distance (ips ! i) (ips ! j)) (\<lambda>distance.
        if distance \<le> HAMMING_THRESHOLD then
          bind_out (merge_strings (ips ! i) (ips ! j)) (\<lambda>merged. absorb (ips[i := merged]) i (j + 1))
        else Inr (j - 1, ips))
      else Inr (i, ips))"
  by pat_completeness auto
termination by (relation "measure (\<lambda>(ips, i, j). length ips - j)") auto

declare absorb.simps [simp del]

lemma absorb_index: "absorb ips i j = Inr (i', ips') \<Longrightarrow> i < j \<Longrightarrow> i \<le> i'"
proof (induction ips i j rule: absorb.induct)
  case (1 ips i j)
  then show ?case by (subst (asm) absorb.simps) (auto split: if_splits)
qed

function cluster_loop :: "nat \<Rightarrow> nat \<Rightarrow> string list \<Rightarrow> string list outcome" where
  "cluster_loop n i ips =
     (if i < n then bind_out (absorb ips i (i + 1)) (\<lambda>r. cluster_loop n (fst r + 1) (snd r)) else Inr ips)"
  by pat_completeness auto
termination
  by (relation "measure (\<lambda>(n, i, ips). n - i)") (auto dest: absorb_index)

declare cluster_loop.simps [simp del]

text \<open>The bound \<open>size - 1\<close> is computed in a \<open>size_t\<close>.\<close>

definition hierarchical_cluster :: "string list \<Rightarrow> string list outcome" where
  "hierarchical_cluster ips = cluster_loop (unat (of_nat (length ips) - 1 :: u64)) 0 ips"

section \<open>Expanding a subspace\<close>

record ip_vector =
  ips :: "string list"
  vec_capacity :: nat

definition initIPVector :: ip_vector where
  "initIPVector = \<lparr>ips = [], vec_capacity = 0\<rparr>"

definition addIP :: "ip_vector \<Rightarrow> string \<Rightarrow> ip_vector" where
  "addIP v ip =
     (let cap = (if vec_capacity v \<le> length (ips v)
                 then if vec_capacity v = 0 then 1 else vec_capacity v * 2 else vec_capacity v)
      in v\<lparr>ips := ips v @ [ip], vec_capacity := cap\<rparr>)"

definition char_at :: "string \<Rightarrow> nat \<Rightarrow> char outcome" where
  "char_at s i = (if i < length s then Inr (s ! i) else if i = length s then Inr nul else Inl Undefined_value)"

function find_star :: "string \<Rightarrow> nat \<Rightarrow> nat outcome" where
  "find_star s idx =
     (if idx < IPV6_LENGTH then
        bind_out (char_at s idx) (\<lambda>c. if c = star then Inr idx else find_star s (idx + 1))
      else Inr idx)"
  by pat_completeness auto
termination by (relation "measure (\<lambda>(s, idx). IPV6_LENGTH - idx)") auto

declare find_star.simps [simp del]

lemma find_star_bounds: "find_star s idx = Inr i \<Longrightarrow> idx \<le> IPV6_LENGTH \<Longrightarrow> idx \<le> i \<and> i \<le> IPV6_LENGTH"
proof (induction s idx rule: find_star.induct)
  case (1 s idx)
  then show ?case by (subst (asm) find_star.simps) (auto split: if_splits)
qed

definition digit_char :: "nat \<Rightarrow> char" where
  "digit_char i = (if i < 10 then char_of (48 + i) else char_of (97 + i - 10))"

text \<open>
  The subspace is changed in place; it is returned with the targets. A start beyond the vector ends
  the search at once.
\<close>

function target_generation :: "ip_vector \<Rightarrow> string \<Rightarrow> nat \<Rightarrow> (ip_vector \<times> string) outcome"
  and each_digit :: "nat \<Rightarrow> nat \<Rightarrow> ip_vector \<Rightarrow> string \<Rightarrow> (ip_vector \<times> string) outcome" where
  "target_generation targets subspace start =
     bind_out (find_star subspace start) (\<lambda>idx.
     if IPV6_LENGTH \<le> idx then
       bind_out (vec2colon subspace) (\<lambda>a. Inr (addIP targets a, subspace))
     else each_digit idx 0 targets subspace)"
| "each_digit idx i targets subspace =
     (if i < 16 then
        bind_out (target_generation targets (subspace[idx := digit_char i]) (idx + 1)) (\<lambda>(targets, subspace).
          each_digit idx (i + 1) targets subspace)
      else Inr (targets, subspace[idx := star]))"
  by pat_completeness auto
termination
proof (relation "measure (case_sum (\<lambda>(ts, s, start). (33 - start) * 20)
    (\<lambda>(idx, i, ts, s). (32 - idx) * 20 + (17 - i)))", goal_cases)
  case (2 ts s start idx)
  have "start \<le> idx" "idx < 32"
  proof -
    show "idx < 32" using 2 by (simp add: IPV6_LENGTH_def)
    then show "start \<le> idx" using 2 find_star_bounds [of s start idx]
      by (cases "start \<le> 32") (auto simp: IPV6_LENGTH_def find_star.simps [of s start])
  qed
  then show ?case by (simp add: algebra_simps)
qed auto

declare target_generation.simps [simp del] each_digit.simps [simp del]

section \<open>From the seed file to the targets\<close>

definition SEED_MAX_CAPACITY :: nat where "SEED_MAX_CAPACITY = 10000000"
definition TARGET_MAX_CAPACITY :: nat where "TARGET_MAX_CAPACITY = 1000000000"
definition INITIAL_HASH_SIZE :: u64 where "INITIAL_HASH_SIZE = 1000000"

text \<open>
  The first word of every line without a comment; the buffer has room for 255 characters.
\<close>

fun read_seeds :: "string list \<Rightarrow> ip_vector \<Rightarrow> ip_vector outcome" where
  "read_seeds [] v = Inr v"
| "read_seeds (line # rest) v =
     (if CHR ''#'' \<in> set line then read_seeds rest v
      else case sscanf_word 256 line of
        None \<Rightarrow> read_seeds rest v
      | Some ip \<Rightarrow>
          if 256 \<le> length ip then Inl Out_of_bounds
          else if length (ips v) \<le> SEED_MAX_CAPACITY then
            bind_out (seed2vec ip) (\<lambda>x. read_seeds rest (addIP v x))
          else Inr v)"

text \<open>\<open>strcmp\<close> orders strings like words in a dictionary, so \<open>qsort\<close> has one result.\<close>

definition compareStrings :: "string \<Rightarrow> string \<Rightarrow> int" where
  "compareStrings a b = (if a < b then - 1 else if a = b then 0 else 1)"

lemma compareStrings_order: "compareStrings a b \<le> 0 \<longleftrightarrow> a \<le> b" "compareStrings a b = 0 \<longleftrightarrow> a = b"
  by (auto simp: compareStrings_def)

lemma sort_compareStrings: "sorted_wrt (\<lambda>a b. compareStrings a b \<le> 0) (sort xs)"
  by (simp add: compareStrings_order)

text \<open>Only the vectors with a wildcard are kept.\<close>

fun collect_subspaces :: "string list \<Rightarrow> hash_set \<Rightarrow> hash_set outcome" where
  "collect_subspaces [] hs = Inr hs"
| "collect_subspaces (s # rest) hs =
     (if star \<in> set s then bind_out (HashSet_insert hs s) (collect_subspaces rest)
      else collect_subspaces rest hs)"

fun expand_chain :: "string list \<Rightarrow> ip_vector \<Rightarrow> ip_vector outcome" where
  "expand_chain [] targets = Inr targets"
| "expand_chain (key # rest) targets =
     (if length (ips targets) \<le> TARGET_MAX_CAPACITY
      then bind_out (target_generation targets key 0) (\<lambda>(targets, key). expand_chain rest targets)
      else Inr targets)"

fun expand_buckets :: "string list list \<Rightarrow> ip_vector \<Rightarrow> ip_vector outcome" where
  "expand_buckets [] targets = Inr targets"
| "expand_buckets (c # cs) targets =
     bind_out (expand_chain c targets) (\<lambda>targets.
       if TARGET_MAX_CAPACITY < length (ips targets) then Inr targets else expand_buckets cs targets)"

definition tga_targets :: "string \<Rightarrow> ip_vector outcome" where
  "tga_targets file =
     bind_out (read_seeds (fgets_lines 1000 file) initIPVector) (\<lambda>seeds.
     bind_out (hierarchical_cluster (sort (ips seeds))) (\<lambda>subspaces.
     bind_out (collect_subspaces subspaces (HashSet_init INITIAL_HASH_SIZE)) (\<lambda>hs.
       expand_buckets (buckets hs) initIPVector)))"

section \<open>Vectors and the subspaces that cover them\<close>

definition is_vector :: "string \<Rightarrow> bool" where
  "is_vector v \<longleftrightarrow> length v = 32 \<and> set v \<subseteq> set hex_chars"

definition is_subspace :: "string \<Rightarrow> bool" where
  "is_subspace p \<longleftrightarrow> length p = 32 \<and> set p \<subseteq> insert star (set hex_chars)"

definition pat_covers :: "string \<Rightarrow> string \<Rightarrow> bool" where
  "pat_covers p v \<longleftrightarrow> list_all2 (\<lambda>c d. c = star \<or> c = d) p v"

definition distance :: "string \<Rightarrow> string \<Rightarrow> nat" where
  "distance a b = length (filter (\<lambda>(x, y). x \<noteq> y) (zip a b))"

definition join :: "string \<Rightarrow> string \<Rightarrow> string" where
  "join a b = map (\<lambda>(x, y). if x = y then x else star) (zip a b)"

lemma not_digits [simp]: "star \<notin> set hex_chars" "nul \<notin> set hex_chars" "star \<noteq> nul" "nul \<noteq> star"
  by code_simp+

lemma vector_subspace: "is_vector v \<Longrightarrow> is_subspace v"
  by (auto simp: is_vector_def is_subspace_def)

lemma vector_no_star: "is_vector v \<Longrightarrow> star \<notin> set v"
  using not_digits(1) by (auto simp: is_vector_def)

lemma subspace_no_nul: "is_subspace p \<Longrightarrow> nul \<notin> set p"
  using not_digits by (auto simp: is_subspace_def)

lemma chars32_id: "length s = 32 \<Longrightarrow> chars32 s = Inr s"
  by (simp add: chars32_def IPV6_LENGTH_def)

lemma hamming_distance_eq:
  "\<lbrakk>length a = 32; length b = 32\<rbrakk> \<Longrightarrow> hamming_distance a b = Inr (distance a b)"
  by (simp add: hamming_distance_def chars32_id distance_def)

lemma c_string_id: "nul \<notin> set s \<Longrightarrow> c_string s = s"
  by (auto simp: c_string_def takeWhile_eq_all_conv)

lemma join_chars: "set (join a b) \<subseteq> insert star (set a)"
  using set_zip_leftD [of _ _ a b] by (fastforce simp: join_def split: if_splits)

lemma join_subspace: "\<lbrakk>is_subspace a; is_subspace b\<rbrakk> \<Longrightarrow> is_subspace (join a b)"
  using join_chars [of a b] by (auto simp: is_subspace_def join_def)

lemma merge_strings_eq:
  assumes "is_subspace a" "is_subspace b"
  shows "merge_strings a b = Inr (join a b)"
  using assms subspace_no_nul [OF join_subspace [OF assms]]
  by (simp add: merge_strings_def chars32_id is_subspace_def c_string_id join_def)

lemma covers_refl: "pat_covers p p"
  by (simp add: pat_covers_def list_all2_refl)

lemma join_covers:
  "length p = length v \<Longrightarrow> pat_covers p w \<Longrightarrow> pat_covers (join p v) w"
  "length p = length v \<Longrightarrow> star \<notin> set v \<Longrightarrow> pat_covers (join p v) v"
  by (auto simp: pat_covers_def join_def list_all2_conv_all_nth)

text \<open>The wildcards of a joined pattern are the places where the two differ.\<close>

lemma join_stars:
  "\<lbrakk>length p = length v; star \<notin> set v\<rbrakk> \<Longrightarrow> count_list (join p v) star = distance p v"
  by (induction p v rule: list_induct2) (auto simp: join_def distance_def)

lemma covers_distance:
  "pat_covers p v \<Longrightarrow> pat_covers p w \<Longrightarrow> distance v w \<le> count_list p star"
proof -
  have "pat_covers p v \<Longrightarrow> \<forall>w. pat_covers p w \<longrightarrow> distance v w \<le> count_list p star"
    unfolding pat_covers_def
  proof (induction rule: list_all2_induct)
    case (Cons c p d v)
    show ?case
    proof (intro allI impI)
      fix w assume "list_all2 (\<lambda>c d. c = star \<or> c = d) (c # p) w"
      then obtain e w' where w: "w = e # w'" "c = star \<or> c = e" "list_all2 (\<lambda>c d. c = star \<or> c = d) p w'"
        by (auto simp: list_all2_Cons1)
      then show "distance (d # v) w \<le> count_list (c # p) star"
        using Cons by (auto simp: distance_def)
    qed
  qed (simp add: distance_def)
  then show "pat_covers p v \<Longrightarrow> pat_covers p w \<Longrightarrow> distance v w \<le> count_list p star" by blast
qed

lemma distance_zero_iff: "length a = length b \<Longrightarrow> distance a b = 0 \<longleftrightarrow> a = b"
  by (induction a b rule: list_induct2) (auto simp: distance_def)

lemma count_star_pos: "star \<in> set p \<longleftrightarrow> 0 < count_list p star"
  by (metis count_list_0_iff gr0I not_gr0)

text \<open>Joining equal vectors changes nothing.\<close>

lemma join_same: "join v v = v"
  by (induction v) (simp_all add: join_def)

section \<open>What the clusters cover\<close>

text \<open>
  The inner loop turns the first vector of a run into a pattern with at most three wildcards that
  covers the run. The pattern has no wildcard only when all the vectors of the run are equal.
\<close>

definition run_pattern :: "string list \<Rightarrow> nat \<Rightarrow> nat \<Rightarrow> string \<Rightarrow> bool" where
  "run_pattern xs i j p \<longleftrightarrow> is_subspace p \<and> count_list p star \<le> 3
     \<and> (\<forall>m. i \<le> m \<and> m < j \<longrightarrow> pat_covers p (xs ! m))
     \<and> (star \<in> set p \<or> (\<forall>m. i \<le> m \<and> m < j \<longrightarrow> xs ! m = p))"

lemma run_pattern_step:
  assumes "run_pattern xs i j p" "is_vector (xs ! j)" "distance p (xs ! j) \<le> 3" "i < j"
  shows "run_pattern xs i (j + 1) (join p (xs ! j))"
proof -
  let ?v = "xs ! j"
  have p: "is_subspace p" "length p = length ?v" and v: "star \<notin> set ?v"
    using assms(1,2) vector_no_star by (auto simp: run_pattern_def is_subspace_def is_vector_def)
  have "is_subspace (join p ?v)" using join_subspace p(1) vector_subspace [OF assms(2)] by blast
  moreover have "count_list (join p ?v) star \<le> 3" using join_stars [OF p(2) v] assms(3) by simp
  moreover have "pat_covers (join p ?v) (xs ! m)" if "i \<le> m" "m < j + 1" for m
    using assms(1) that join_covers(1) [OF p(2)] join_covers(2) [OF p(2) v]
    by (cases "m = j") (auto simp: run_pattern_def)
  moreover have "star \<in> set (join p ?v) \<or> (\<forall>m. i \<le> m \<and> m < j + 1 \<longrightarrow> xs ! m = join p ?v)"
  proof (cases "p = ?v")
    case True
    then have "\<forall>m. i \<le> m \<and> m < j \<longrightarrow> xs ! m = p" using assms(1) v by (auto simp: run_pattern_def)
    then show ?thesis using True join_same [of ?v] less_Suc_eq by auto
  next
    case False
    then show ?thesis
      using distance_zero_iff [OF p(2)] join_stars [OF p(2) v] count_star_pos [of "join p ?v"] by simp
  qed
  ultimately show ?thesis unfolding run_pattern_def by blast
qed

lemma vector_pattern: "is_vector v \<Longrightarrow> is_subspace v \<and> count_list v star = 0 \<and> pat_covers v v"
  using vector_subspace vector_no_star [THEN count_notin] covers_refl by blast

lemma run_pattern_single:
  assumes "is_vector (xs ! i)"
  shows "run_pattern xs i (i + 1) (xs ! i)"
proof -
  have "i \<le> m \<and> m < i + 1 \<longleftrightarrow> m = i" for m by auto
  then show ?thesis using vector_pattern [OF assms] unfolding run_pattern_def by simp
qed

lemma absorb_spec:
  assumes "\<forall>v \<in> set xs. is_vector v" "i < j" "j \<le> length xs" "length vs = length xs"
    "run_pattern xs i j (vs ! i)" "\<forall>m < length xs. i < m \<longrightarrow> vs ! m = xs ! m"
  shows "\<exists>i' p k. absorb vs i j = Inr (i', vs[i := p]) \<and> j \<le> k \<and> k \<le> length xs \<and> run_pattern xs i k p
    \<and> (if k < length xs then i' = k - 1 \<and> 3 < distance p (xs ! k) else i' = i)"
  using assms
proof (induction vs i j rule: absorb.induct)
  case (1 vs i j)
  show ?case
  proof (cases "j < length xs")
    case False
    then have "absorb vs i j = Inr (i, vs[i := vs ! i])" using "1.prems"(4) by (subst absorb.simps) simp
    then show ?thesis using False "1.prems"
      by (intro exI [of _ i] exI [of _ "vs ! i"] exI [of _ j]) simp
  next
    case j: True
    let ?p = "vs ! i"
    have v: "is_vector (xs ! j)" "vs ! j = xs ! j" using "1.prems" j by auto
    have p: "is_subspace ?p" using "1.prems" by (simp add: run_pattern_def)
    have h: "hamming_distance ?p (vs ! j) = Inr (distance ?p (xs ! j))"
      using p v by (simp add: hamming_distance_eq is_subspace_def is_vector_def)
    have m: "merge_strings ?p (vs ! j) = Inr (join ?p (xs ! j))"
      using merge_strings_eq [OF p vector_subspace [OF v(1)]] v(2) by simp
    show ?thesis
    proof (cases "distance ?p (xs ! j) \<le> 3")
      case False
      then have "absorb vs i j = Inr (j - 1, vs[i := ?p])"
        using j h "1.prems"(4) by (subst absorb.simps) (simp add: HAMMING_THRESHOLD_def)
      then show ?thesis using False j "1.prems"
        by (intro exI [of _ "j - 1"] exI [of _ ?p] exI [of _ j]) simp
    next
      case True
      let ?vs = "vs[i := join ?p (xs ! j)]"
      have e: "absorb vs i j = absorb ?vs i (j + 1)"
        using j h m True "1.prems"(4) by (subst absorb.simps) (simp add: HAMMING_THRESHOLD_def)
      have i: "?vs ! i = join ?p (xs ! j)" using j "1.prems"(2,4) by simp
      have "run_pattern xs i (j + 1) (?vs ! i)"
        unfolding i by (rule run_pattern_step [OF "1.prems"(5) v(1) True "1.prems"(2)])
      then have "\<exists>i' p k. absorb ?vs i (j + 1) = Inr (i', ?vs[i := p]) \<and> j + 1 \<le> k \<and> k \<le> length xs
          \<and> run_pattern xs i k p
          \<and> (if k < length xs then i' = k - 1 \<and> 3 < distance p (xs ! k) else i' = i)"
        using "1.prems" j h m True by (intro "1.IH") (auto simp: HAMMING_THRESHOLD_def)
      then show ?thesis unfolding e by (metis Suc_eq_plus1 Suc_leD list_update_overwrite)
    qed
  qed
qed

text \<open>
  What holds of the vectors before and from the index of the outer loop. A vector that is close to the
  next one is covered by a pattern with a wildcard.
\<close>

definition close_pair :: "string list \<Rightarrow> nat \<Rightarrow> bool" where
  "close_pair xs k \<longleftrightarrow> k + 1 < length xs \<and> xs ! k \<noteq> xs ! (k + 1) \<and> distance (xs ! k) (xs ! (k + 1)) \<le> 3"

definition clustered :: "string list \<Rightarrow> nat \<Rightarrow> string list \<Rightarrow> bool" where
  "clustered xs i vs \<longleftrightarrow> length vs = length xs
     \<and> (\<forall>m. i \<le> m \<and> m < length xs \<longrightarrow> vs ! m = xs ! m)
     \<and> (\<forall>m < length xs. is_subspace (vs ! m) \<and> count_list (vs ! m) star \<le> 3 \<and> pat_covers (vs ! m) (xs ! m))
     \<and> (\<forall>k < i. close_pair xs k \<longrightarrow> (\<exists>m \<le> k. star \<in> set (vs ! m) \<and> pat_covers (vs ! m) (xs ! k)))"

lemma clustered_start:
  assumes "\<forall>v \<in> set xs. is_vector v"
  shows "clustered xs 0 xs"
  using assms vector_pattern nth_mem [of _ xs] by (simp add: clustered_def)

text \<open>The pattern of a run covers every vector of the run that is close to its successor.\<close>

lemma run_covers_close:
  assumes "run_pattern xs i k p" "i \<le> q" "q < k" "close_pair xs q"
    "if k < length xs then 3 < distance p (xs ! k) else q + 1 < k"
  shows "star \<in> set p \<and> pat_covers p (xs ! q)"
proof -
  have "star \<in> set p"
  proof (rule ccontr)
    assume "star \<notin> set p"
    then have eq: "xs ! m = p" if "i \<le> m" "m < k" for m using assms(1) that by (auto simp: run_pattern_def)
    show False
    proof (cases "q + 1 < k")
      case True
      then show False using eq [of q] eq [of "q + 1"] assms(2,4) by (simp add: close_pair_def)
    next
      case False
      then have "q + 1 = k" using assms(3) by simp
      then show False using eq [of q] assms(2-5) by (auto simp: close_pair_def split: if_splits)
    qed
  qed
  then show ?thesis using assms(1-3) by (simp add: run_pattern_def)
qed

lemma clustered_step:
  assumes "clustered xs i vs" "run_pattern xs i k p" "i < k" "k \<le> length xs" "i < i'" "i' \<le> k"
    "\<And>q. \<lbrakk>i \<le> q; q < i'; close_pair xs q\<rbrakk> \<Longrightarrow> star \<in> set p \<and> pat_covers p (xs ! q)"
  shows "clustered xs i' (vs[i := p])"
proof -
  have c: "length vs = length xs" "\<And>m. i \<le> m \<Longrightarrow> m < length xs \<Longrightarrow> vs ! m = xs ! m"
    "\<And>m. m < length xs \<Longrightarrow> is_subspace (vs ! m) \<and> count_list (vs ! m) star \<le> 3 \<and> pat_covers (vs ! m) (xs ! m)"
    "\<And>q. q < i \<Longrightarrow> close_pair xs q \<Longrightarrow> \<exists>m \<le> q. star \<in> set (vs ! m) \<and> pat_covers (vs ! m) (xs ! q)"
    using assms(1) by (simp_all add: clustered_def)
  have p: "is_subspace p \<and> count_list p star \<le> 3 \<and> pat_covers p (xs ! i)"
    using assms(2,3) by (simp add: run_pattern_def)
  have cover: "\<exists>m \<le> q. star \<in> set (vs[i := p] ! m) \<and> pat_covers (vs[i := p] ! m) (xs ! q)"
    if "q < i'" "close_pair xs q" for q
  proof (cases "q < i")
    case True
    from c(4) [OF this that(2)] obtain m where "m \<le> q" "star \<in> set (vs ! m)" "pat_covers (vs ! m) (xs ! q)"
      by blast
    then show ?thesis using True by (intro exI [of _ m]) simp
  next
    case False
    then show ?thesis using assms(3,4) assms(7) [of q] that c(1) by (intro exI [of _ i]) simp
  qed
  have "is_subspace (vs[i := p] ! m) \<and> count_list (vs[i := p] ! m) star \<le> 3 \<and> pat_covers (vs[i := p] ! m) (xs ! m)"
    if "m < length xs" for m
    using p c(1,3) that by (cases "m = i") simp_all
  moreover have "vs[i := p] ! m = xs ! m" if "i' \<le> m" "m < length xs" for m
    using c(2) that assms(5) by simp
  ultimately show ?thesis using cover c(1) by (simp add: clustered_def)
qed

lemma cluster_loop_spec:
  assumes "\<forall>v \<in> set xs. is_vector v" "xs \<noteq> []"
  shows "clustered xs i vs \<Longrightarrow> i \<le> length xs - 1 \<Longrightarrow>
    \<exists>vs'. cluster_loop (length xs - 1) i vs = Inr vs' \<and> clustered xs (length xs - 1) vs'"
proof (induction "length xs - 1 - i" arbitrary: i vs rule: less_induct)
  case less
  note c = less.prems(1)
  show ?case
  proof (cases "i < length xs - 1")
    case False
    then have "clustered xs (length xs - 1) vs" using less.prems by simp
    then show ?thesis using False by (subst cluster_loop.simps) simp
  next
    case i: True
    have vi: "vs ! i = xs ! i" "length vs = length xs" using c i by (auto simp: clustered_def)
    have r: "run_pattern xs i (i + 1) (vs ! i)"
      unfolding vi(1) by (rule run_pattern_single) (use assms(1) i in simp)
    have "\<exists>i' p k. absorb vs i (i + 1) = Inr (i', vs[i := p]) \<and> i + 1 \<le> k \<and> k \<le> length xs \<and> run_pattern xs i k p
        \<and> (if k < length xs then i' = k - 1 \<and> 3 < distance p (xs ! k) else i' = i)"
      by (rule absorb_spec [OF assms(1) _ _ vi(2) r]) (use c i in \<open>auto simp: clustered_def\<close>)
    then obtain i' p k where a: "absorb vs i (i + 1) = Inr (i', vs[i := p])" "i + 1 \<le> k" "k \<le> length xs"
        "run_pattern xs i k p" "if k < length xs then i' = k - 1 \<and> 3 < distance p (xs ! k) else i' = i" by blast
    have i': "i < i' + 1" "i' + 1 \<le> k" using a(2,3,5) i by (auto split: if_splits)
    have "clustered xs (i' + 1) (vs[i := p])"
    proof (rule clustered_step [OF c a(4) _ a(3) i'])
      fix q assume q: "i \<le> q" "q < i' + 1" "close_pair xs q"
      have "if k < length xs then 3 < distance p (xs ! k) else q + 1 < k"
        using a(3,5) q i by (auto split: if_splits)
      then show "star \<in> set p \<and> pat_covers p (xs ! q)"
        using q i' by (intro run_covers_close [OF a(4)]) auto
    qed (use a(2) in simp)
    moreover have "length xs - 1 - (i' + 1) < length xs - 1 - i" using i i'(1) by simp
    moreover have "i' + 1 \<le> length xs - 1" using a(3,5) i by (auto split: if_splits)
    ultimately show ?thesis using less.hyps i a(1) by (subst cluster_loop.simps) simp
  qed
qed

text \<open>
  Clustering never fails on vectors: every place keeps a pattern with at most three wildcards that
  covers its vector, and every vector that is close to the next one is covered by a proper subspace.
\<close>

lemma hierarchical_cluster_spec:
  assumes "\<forall>v \<in> set xs. is_vector v" "xs \<noteq> []" "length xs < 2 ^ 64"
  shows "\<exists>vs. hierarchical_cluster xs = Inr vs \<and> clustered xs (length xs - 1) vs"
proof -
  have "unat (of_nat (length xs) - 1 :: u64) = length xs - 1"
  proof -
    have "of_nat (length xs) - 1 = (of_nat (length xs - 1) :: u64)" using assms(2) by (cases xs) simp_all
    then show ?thesis using assms(3) by (simp add: unsigned_of_nat take_bit_nat_eq_self)
  qed
  then show ?thesis
    using cluster_loop_spec [OF assms(1,2) clustered_start [OF assms(1)]]
    by (simp add: hierarchical_cluster_def)
qed

section \<open>What a subspace expands to\<close>

fun instances :: "string \<Rightarrow> string list" where
  "instances [] = [[]]"
| "instances (c # p) =
     (if c = star then concat (map (\<lambda>d. map ((#) d) (instances p)) hex_chars)
      else map ((#) c) (instances p))"

definition colon_text :: "string \<Rightarrow> string" where
  "colon_text v = join_with (CHR '':'') (map (\<lambda>i. take 4 (drop (i * 4) v)) [0 ..< 8])"

lemma instances_covered:
  "\<lbrakk>set p \<subseteq> insert star (set hex_chars)\<rbrakk> \<Longrightarrow>
   v \<in> set (instances p) \<longleftrightarrow> pat_covers p v \<and> set v \<subseteq> set hex_chars"
proof (induction p arbitrary: v)
  case (Cons c p)
  then show ?case by (cases v) (auto simp: pat_covers_def image_iff)
qed (auto simp: pat_covers_def)

lemma instances_length: "length (instances p) = 16 ^ count_list p star"
proof (induction p)
  case (Cons c p)
  have "length hex_chars = 16" by (simp add: hex_chars_def)
  then show ?case using Cons by (simp add: length_concat comp_def sum_list_triv)
qed simp

lemma instances_distinct: "distinct (instances p)"
proof (induction p)
  case (Cons c p)
  have "distinct hex_chars" by code_simp
  moreover have "instances p \<noteq> []" using instances_length [of p] by auto
  then have "inj_on (\<lambda>d. map ((#) d) (instances p)) A" for A by (cases "instances p") (auto intro: inj_onI)
  ultimately have "distinct (map (\<lambda>d. map ((#) d) (instances p)) hex_chars)" by (simp add: distinct_map)
  then show ?case using Cons
    by (auto simp: distinct_map intro!: distinct_concat inj_onI)
qed simp

lemma join_with_snoc: "join_with d (ts @ [t]) = concat (map (\<lambda>t. t @ [d]) ts) @ t"
proof (induction ts)
  case (Cons x ts)
  then show ?case by (cases ts) simp_all
qed simp

lemma join_with_chars: "set (join_with d ts) \<subseteq> insert d (\<Union>t \<in> set ts. set t)"
  by (induction d ts rule: join_with.induct) auto

lemma colon_text_no_nul: "nul \<notin> set v \<Longrightarrow> nul \<notin> set (colon_text v)"
proof -
  have "nul \<noteq> CHR '':''" by code_simp
  then show "nul \<notin> set v \<Longrightarrow> nul \<notin> set (colon_text v)"
    using join_with_chars [of "CHR '':''" "map (\<lambda>i. take 4 (drop (i * 4) v)) [0 ..< 8]"]
    by (auto simp: colon_text_def dest!: in_set_takeD in_set_dropD subsetD)
qed

lemma vec2colon_eq:
  assumes "length v = 32" "nul \<notin> set v"
  shows "vec2colon v = Inr (colon_text v)"
proof -
  have u: "[0 ..< 8] = [0 ..< 7] @ [7 :: nat]" by (simp add: upt_rec)
  have "concat (map (\<lambda>i. take 4 (drop (i * 4) v) @ '':'') [0 ..< 7]) @ drop 28 v = colon_text v"
    unfolding colon_text_def u map_append list.map join_with_snoc using assms(1) by (simp add: comp_def)
  then show ?thesis using colon_text_no_nul [OF assms(2)] assms(1)
    by (simp add: vec2colon_def chars32_id c_string_id)
qed

lemma digit_char_eq: "i < 16 \<Longrightarrow> digit_char i = hex_chars ! i"
proof -
  have "list_all (\<lambda>i. digit_char i = hex_chars ! i) [0 ..< 16]" by code_simp
  then show "i < 16 \<Longrightarrow> digit_char i = hex_chars ! i" by (simp add: list_all_iff)
qed

lemma find_star_step:
  assumes "length (pre @ c # suf) = 32"
  shows "find_star (pre @ c # suf) (length pre)
    = (if c = star then Inr (length pre) else find_star (pre @ c # suf) (length pre + 1))"
  using assms by (subst find_star.simps) (simp add: IPV6_LENGTH_def char_at_def)

text \<open>The targets are the instances of the rest of the subspace, and the subspace is restored.\<close>

lemma each_digit_spec:
  assumes "\<And>d ts. nul \<noteq> d \<Longrightarrow> target_generation ts (pre @ d # suf) (length pre + 1)
      = Inr (foldl addIP ts (map (\<lambda>v. colon_text (pre @ d # v)) (instances suf)), pre @ d # suf)"
  shows "i \<le> 16 \<Longrightarrow> each_digit (length pre) i ts (pre @ c # suf)
    = Inr (foldl addIP ts (concat (map (\<lambda>d. map (\<lambda>v. colon_text (pre @ d # v)) (instances suf)) (drop i hex_chars))),
        pre @ star # suf)"
proof (induction "16 - i" arbitrary: i ts c)
  case 0
  then have "i = 16" "length hex_chars = 16" by (simp_all add: hex_chars_def)
  then show ?case by (subst each_digit.simps) simp
next
  case (Suc n)
  then have i: "i < 16" "length hex_chars = 16" by (simp_all add: hex_chars_def)
  let ?d = "digit_char i"
  have d: "drop i hex_chars = ?d # drop (i + 1) hex_chars"
    using i digit_char_eq [OF i(1)] Cons_nth_drop_Suc [of i hex_chars] by simp
  have "?d \<in> set hex_chars" using i digit_char_eq [OF i(1)] by simp
  then have "nul \<noteq> ?d" using not_digits(2) by auto
  from assms [OF this] Suc.hyps(1) [of "i + 1"] Suc.hyps(2) i show ?case
    by (subst each_digit.simps) (simp add: d)
qed

lemma target_generation_spec:
  "\<lbrakk>length (pre @ suf) = 32; nul \<notin> set (pre @ suf)\<rbrakk> \<Longrightarrow>
   target_generation ts (pre @ suf) (length pre)
   = Inr (foldl addIP ts (map (\<lambda>v. colon_text (pre @ v)) (instances suf)), pre @ suf)"
proof (induction suf arbitrary: pre ts)
  case Nil
  then have "find_star pre (length pre) = Inr 32" by (subst find_star.simps) (simp add: IPV6_LENGTH_def)
  then show ?case using Nil by (subst target_generation.simps) (simp add: IPV6_LENGTH_def vec2colon_eq)
next
  case (Cons c suf)
  have len: "length pre < IPV6_LENGTH" using Cons.prems(1) by (simp add: IPV6_LENGTH_def)
  have IH: "target_generation ts (pre @ d # suf) (length pre + 1)
      = Inr (foldl addIP ts (map (\<lambda>v. colon_text (pre @ d # v)) (instances suf)), pre @ d # suf)"
    if "nul \<noteq> d" for d ts
    using Cons.IH [of "pre @ [d]" ts] Cons.prems that by simp
  show ?case
  proof (cases "c = star")
    case True
    then have "find_star (pre @ c # suf) (length pre) = Inr (length pre)"
      using find_star_step [OF Cons.prems(1)] by simp
    with True len each_digit_spec [OF IH, of 0 ts star] show ?thesis
      by (subst target_generation.simps) (simp add: map_concat comp_def)
  next
    case False
    then have "target_generation ts (pre @ c # suf) (length pre)
        = target_generation ts (pre @ c # suf) (length pre + 1)"
      using find_star_step [OF Cons.prems(1)] by (subst (1 2) target_generation.simps) simp
    then show ?thesis using False IH [of c ts] Cons.prems(2) by (simp add: comp_def)
  qed
qed

lemma foldl_addIP: "ips (foldl addIP ts as) = ips ts @ as"
  by (induction as arbitrary: ts) (simp_all add: addIP_def Let_def)

lemma instances_iff:
  assumes "is_subspace p"
  shows "v \<in> set (instances p) \<longleftrightarrow> is_vector v \<and> pat_covers p v"
  using assms instances_covered [of p v]
  by (auto simp: is_subspace_def is_vector_def pat_covers_def list_all2_lengthD)

text \<open>
  C35: Expanding a subspace appends the address of every vector that it
  covers to the targets, each once and \<open>16 ^ k\<close> in all for \<open>k\<close> wildcards, keeps the targets that were
  there, and gives the subspace back as it was.
\<close>

theorem target_generation_enumerates:
  assumes "is_subspace p"
  shows "\<exists>vs ts'. target_generation ts p 0 = Inr (ts', p) \<and> ips ts' = ips ts @ map colon_text vs
    \<and> distinct vs \<and> set vs = {v. is_vector v \<and> pat_covers p v} \<and> length vs = 16 ^ count_list p star"
proof -
  have "set (instances p) = {v. is_vector v \<and> pat_covers p v}" using instances_iff [OF assms] by blast
  then show ?thesis
    using target_generation_spec [of "[]" p ts] assms subspace_no_nul [OF assms] instances_distinct [of p]
      instances_length [of p]
    by (auto simp: is_subspace_def foldl_addIP)
qed

text \<open>The prefix \<open>2001:db8:0:1\<close> with two digits left open.\<close>

definition ex_subspace :: string where
  "ex_subspace = ''20010db8000000010000*0000000000*''"

theorem target_generation_enumerates_witness:
  "\<exists>vs ts'. target_generation initIPVector ex_subspace 0 = Inr (ts', ex_subspace)
    \<and> ips ts' = map colon_text vs \<and> length vs = 256"
proof -
  have "is_subspace ex_subspace" "count_list ex_subspace star = 2"
    by (simp_all add: is_subspace_def ex_subspace_def hex_chars_def star_def)
  then show ?thesis
    using target_generation_enumerates [of ex_subspace initIPVector] by (auto simp: initIPVector_def)
qed

section \<open>Reading seeds\<close>

lemma mark_gap_skip: "CHR '':'' \<notin> set t \<Longrightarrow> mark_gap (t @ s) = t @ mark_gap s"
  by (induction t) auto

lemma mark_gap_join:
  "\<forall>t \<in> set ts. t \<noteq> [] \<and> CHR '':'' \<notin> set t \<Longrightarrow>
   mark_gap (join_with (CHR '':'') ts) = join_with (CHR '':'') ts
   \<and> mark_gap (join_with (CHR '':'') ts @ ''::'' @ b) = join_with (CHR '':'') ts @ '':*:'' @ b"
proof (induction "CHR '':''" ts rule: join_with.induct)
  case (2 t)
  then show ?case using mark_gap_skip [of t "[]"] mark_gap_skip [of t "''::'' @ b"] by simp
next
  case (3 t u ts)
  let ?j = "join_with (CHR '':'') (u # ts)"
  have "u \<noteq> []" "CHR '':'' \<notin> set u" using "3.prems" by auto
  then have u: "u \<noteq> []" "hd u \<noteq> CHR '':''" by (auto dest: hd_in_set)
  then have j: "?j \<noteq> []" "hd ?j \<noteq> CHR '':''" by (cases ts; simp)+
  have "mark_gap (CHR '':'' # ?j @ s) = CHR '':'' # mark_gap (?j @ s)" for s using j by simp
  from this [of "[]"] this [of "''::'' @ b"] show ?case
    using 3 mark_gap_skip [of t "CHR '':'' # ?j"] mark_gap_skip [of t "CHR '':'' # ?j @ ''::'' @ b"] by simp
qed simp

text \<open>Groups as printed without leading zeros.\<close>

definition groups_text :: "nat list \<Rightarrow> string" where
  "groups_text ws = join_with (CHR '':'') (map show_hex ws)"

definition groups_vector :: "nat list \<Rightarrow> string" where
  "groups_vector ws = concat (map show_hex4 ws)"

lemma groups_vector_length: "\<forall>w \<in> set ws. w < 2 ^ 16 \<Longrightarrow> length (groups_vector ws) = 4 * length ws"
  by (induction ws) (simp_all add: groups_vector_def show_hex4_props)

lemma groups_vector_chars: "\<forall>w \<in> set ws. w < 2 ^ 16 \<Longrightarrow> set (groups_vector ws) \<subseteq> set hex_chars"
  using show_hex4_props(2) by (fastforce simp: groups_vector_def)

lemma show_hex_group: "show_hex w \<noteq> [] \<and> CHR '':'' \<notin> set (show_hex w)"
  using show_hex_chars(3) [of "CHR '':''" w] by auto

lemma seed_tokens_groups:
  "\<lbrakk>\<forall>w \<in> set ws. w < 2 ^ 16; length b + 4 * length ws \<le> 32\<rbrakk> \<Longrightarrow>
   seed_tokens (map show_hex ws @ ts) b n = seed_tokens ts (b @ groups_vector ws) (n + length ws)"
proof (induction ws arbitrary: b n)
  case (Cons w ws)
  have w: "w < 2 ^ 16" and s: "show_hex w \<noteq> [star]"
    using Cons.prems(1) show_hex_chars(4) [of star w] by auto
  have "sscanf_hex (length (show_hex w)) (show_hex w) = Some (of_nat w)"
    using sscanf_show_hex [of w 0] w by simp
  moreover have "unat (of_nat w :: u32) = w" using w by (simp add: unsigned_of_nat take_bit_nat_eq_self)
  ultimately show ?case
    using Cons s show_hex4_props(1) [OF w] by (simp add: IPV6_LENGTH_def groups_vector_def)
qed (simp add: groups_vector_def)

lemma around_star:
  assumes "star \<notin> set a"
  shows "takeWhile (\<lambda>c. c \<noteq> star) (a @ star # b) = a" "dropWhile (\<lambda>c. c \<noteq> star) (a @ star # b) = star # b"
  using assms by (induction a) auto

lemma strtok_groups: "strtok (CHR '':'') (groups_text ws) = map show_hex ws"
  unfolding groups_text_def by (rule strtok_join) (use show_hex_group in auto)

text \<open>
  Whatever the text of a seed is, its vector has hexadecimal digits only: with a second wildcard the
  zeros would not fit.
\<close>

lemma show_hex4_chars: "set (show_hex4 n) \<subseteq> set hex_chars" "4 \<le> length (show_hex4 n)"
  using show_hex_chars(4) hex_chars_zero by (auto simp: show_hex4_def)

lemma seed_tokens_count:
  "\<lbrakk>seed_tokens ts b n = Inr (b', n'); set b \<subseteq> insert star (set hex_chars);
    4 * n + count_list b star \<le> length b; length b \<le> 32\<rbrakk> \<Longrightarrow>
   set b' \<subseteq> insert star (set hex_chars) \<and> 4 * n' + count_list b' star \<le> length b' \<and> length b' \<le> 32"
proof (induction ts arbitrary: b n)
  case (Cons t ts)
  show ?case
  proof (cases "t = [star]")
    case True
    then show ?thesis using Cons.prems Cons.IH [of "b @ [star]" n] by (auto simp: IPV6_LENGTH_def split: if_splits)
  next
    case False
    then obtain v where v: "sscanf_hex (length t) t = Some v" "length b + length (show_hex4 (unat v)) \<le> 32"
        "seed_tokens ts (b @ show_hex4 (unat v)) (n + 1) = Inr (b', n')"
      using Cons.prems(1) by (auto simp: IPV6_LENGTH_def Let_def split: option.splits if_splits)
    have "star \<notin> set (show_hex4 (unat v))" using show_hex4_chars(1) [of "unat v"] not_digits(1) by blast
    then show ?thesis using v Cons.prems(2,3) show_hex4_chars [of "unat v"]
      by (intro Cons.IH [OF v(3)]) auto
  qed
qed simp

lemma seed2vec_vector:
  assumes "seed2vec s = Inr v" "length v = 32"
  shows "is_vector v"
proof -
  obtain b n where b: "seed_tokens (strtok (CHR '':'') (mark_gap s)) [] 0 = Inr (b, n)" "fill_gap b n = Inr v"
    using assms(1) by (auto simp: seed2vec_def)
  have c: "set b \<subseteq> insert star (set hex_chars)" "4 * n + count_list b star \<le> length b" "length b \<le> 32"
    using seed_tokens_count [OF b(1)] by simp_all
  show ?thesis
  proof (cases "star \<in> set b")
    case False
    then show ?thesis using b(2) c(1) assms(2) by (auto simp: fill_gap_def is_vector_def)
  next
    case True
    then obtain p q where pq: "b = p @ star # q" "star \<notin> set p" by (meson split_list_first)
    have v: "v = p @ replicate ((8 - n) * 4) (CHR ''0'') @ q"
      using b(2) True by (auto simp: fill_gap_def pq(1) around_star [OF pq(2)] split: if_splits)
    have "count_list q star = 0"
      using c(2,3) assms(2) pq by (simp add: v)
    then have "star \<notin> set q" by (simp add: count_list_0_iff)
    then show ?thesis using c(1) assms(2) pq hex_chars_zero by (auto simp: is_vector_def v)
  qed
qed

lemma seed2vec_groups:
  assumes "\<forall>w \<in> set as \<union> set bs. w < 2 ^ 16"
  shows "(length as + length bs \<le> 7 \<longrightarrow> seed2vec (groups_text as @ ''::'' @ groups_text bs)
      = Inr (groups_vector as @ replicate (4 * (8 - length as - length bs)) (CHR ''0'') @ groups_vector bs))
    \<and> (length as = 8 \<longrightarrow> seed2vec (groups_text as) = Inr (groups_vector as))"
proof (intro conjI impI)
  let ?c = "CHR '':''"
  have l: "length (groups_vector as) = 4 * length as" "length (groups_vector bs) = 4 * length bs"
    and no: "star \<notin> set (groups_vector as)" "star \<notin> set (groups_vector bs)"
    using assms groups_vector_length groups_vector_chars [of as] groups_vector_chars [of bs] not_digits(1) by auto
  have gap: "strtok ?c (mark_gap (groups_text as @ ''::'' @ groups_text bs)) = map show_hex as @ [star] # map show_hex bs"
  proof -
    have "strtok ?c (groups_text as @ '':*:'' @ groups_text bs) = map show_hex as @ strtok ?c (''*:'' @ groups_text bs)"
      using strtok_join_append [of "map show_hex as" ?c] show_hex_group by (simp add: groups_text_def)
    also have "strtok ?c (''*:'' @ groups_text bs) = [star] # map show_hex bs"
      using strtok_simps(4) [of "''*''" ?c "groups_text bs"] by (simp add: strtok_groups star_def)
    finally show ?thesis using mark_gap_join [of "map show_hex as" "groups_text bs"] show_hex_group
      by (simp add: groups_text_def)
  qed
  {
    assume n: "length as + length bs \<le> 7"
    have "seed_tokens (map show_hex as @ [star] # map show_hex bs) [] 0
        = Inr (groups_vector as @ star # groups_vector bs, length as + length bs)"
      using seed_tokens_groups [of as "[]" "[star] # map show_hex bs" 0]
        seed_tokens_groups [of bs "groups_vector as @ [star]" "[]" "length as"] assms n l
      by (simp add: IPV6_LENGTH_def)
    then show "seed2vec (groups_text as @ ''::'' @ groups_text bs)
        = Inr (groups_vector as @ replicate (4 * (8 - length as - length bs)) (CHR ''0'') @ groups_vector bs)"
      unfolding seed2vec_def gap using l n
      by (simp add: fill_gap_def IPV6_LENGTH_def around_star [OF no(1)] mult.commute)
  }
  {
    assume n: "length as = 8"
    have "mark_gap (groups_text as) = groups_text as"
      using mark_gap_join [of "map show_hex as"] show_hex_group by (simp add: groups_text_def)
    moreover have "seed_tokens (map show_hex as) [] 0 = Inr (groups_vector as, length as)"
      using seed_tokens_groups [of as "[]" "[]" 0] assms n by simp
    ultimately show "seed2vec (groups_text as) = Inr (groups_vector as)"
      using no by (simp add: seed2vec_def strtok_groups fill_gap_def)
  }
qed

text \<open>
  An address with up to seven groups around a double colon is read as the vector
  of its groups with zeros in the gap, and an address of eight groups as the vector of its groups.
\<close>

lemma seed2vec_reads:
  assumes "\<forall>w \<in> set as \<union> set bs. w < 2 ^ 16"
  shows "(length as + length bs \<le> 7 \<longrightarrow> seed2vec (groups_text as @ ''::'' @ groups_text bs)
      = Inr (groups_vector as @ replicate (4 * (8 - length as - length bs)) (CHR ''0'') @ groups_vector bs))
    \<and> (length as = 8 \<longrightarrow> seed2vec (groups_text as) = Inr (groups_vector as))"
  by (rule seed2vec_groups [OF assms])

lemmas example_digits = groups_text_def groups_vector_def show_hex4_def show_hex.simps hex_char_cases(1) hex_chars_def

lemma seed2vec_reads_example:
  "seed2vec ''2001:db8::1:0'' = Inr ''20010db8000000000000000000010000''"
proof -
  have t: "groups_text [0x2001, 0xdb8] @ ''::'' @ groups_text [1, 0] = ''2001:db8::1:0''"
    by (simp add: example_digits)
  have v: "groups_vector [0x2001, 0xdb8] @ replicate (4 * (8 - length [0x2001, 0xdb8 :: nat] - length [1, 0 :: nat])) (CHR ''0'')
      @ groups_vector [1, 0] = ''20010db8000000000000000000010000''"
    by (simp add: example_digits)
       (simp add: numeral_eq_Suc)
  have "seed2vec (groups_text [0x2001, 0xdb8] @ ''::'' @ groups_text [1, 0])
      = Inr (groups_vector [0x2001, 0xdb8] @ replicate (4 * (8 - length [0x2001, 0xdb8 :: nat] - length [1, 0 :: nat])) (CHR ''0'')
        @ groups_vector [1, 0])"
    by (rule seed2vec_reads [THEN conjunct1, THEN mp]) simp_all
  then show ?thesis unfolding t v .
qed

section \<open>From seeds to targets\<close>

lemma addIP_ips [simp]: "ips (addIP v ip) = ips v @ [ip]"
  by (simp add: addIP_def Let_def)

lemma read_seeds_spec:
  "read_seeds ls v = Inr v' \<Longrightarrow> length (ips v) \<le> 10000001 \<Longrightarrow>
   \<forall>x \<in> set (ips v). \<exists>s. seed2vec s = Inr x \<Longrightarrow>
   length (ips v') \<le> 10000001 \<and> (\<forall>x \<in> set (ips v'). \<exists>s. seed2vec s = Inr x)"
proof (induction ls v rule: read_seeds.induct)
  case (2 line rest v)
  then show ?case by (fastforce simp: SEED_MAX_CAPACITY_def split: if_splits option.splits)
qed simp

lemma collect_put_all:
  "collect_subspaces ss hs = put_all HashSet_insert hs (filter (\<lambda>s. star \<in> set s) ss)"
proof (induction ss arbitrary: hs)
  case (Cons s ss)
  have "collect_subspaces ss = (\<lambda>hs. put_all HashSet_insert hs (filter (\<lambda>s. star \<in> set s) ss))"
    using Cons by (rule ext)
  then show ?case using Cons by simp
qed simp

lemma expand_chain_eq:
  "\<lbrakk>\<forall>p \<in> set c. is_subspace p; length (ips ts) + (\<Sum>p\<leftarrow>c. 16 ^ count_list p star) \<le> TARGET_MAX_CAPACITY\<rbrakk> \<Longrightarrow>
   \<exists>ts'. expand_chain c ts = Inr ts' \<and> ips ts' = ips ts @ concat (map (\<lambda>p. map colon_text (instances p)) c)"
proof (induction c arbitrary: ts)
  case (Cons p c)
  let ?ts = "foldl addIP ts (map colon_text (instances p))"
  have t: "target_generation ts p 0 = Inr (?ts, p)"
    using target_generation_spec [of "[]" p ts] Cons.prems(1) subspace_no_nul by (simp add: is_subspace_def)
  have "length (ips ?ts) + (\<Sum>p\<leftarrow>c. 16 ^ count_list p star) \<le> TARGET_MAX_CAPACITY"
    using Cons.prems(2) by (simp add: foldl_addIP instances_length)
  from Cons.IH [OF _ this] Cons.prems t show ?case by (auto simp: foldl_addIP)
qed simp

lemma expand_buckets_eq:
  "\<lbrakk>\<forall>p \<in> set (concat cs). is_subspace p;
    length (ips ts) + (\<Sum>p\<leftarrow>concat cs. 16 ^ count_list p star) \<le> TARGET_MAX_CAPACITY\<rbrakk> \<Longrightarrow>
   \<exists>ts'. expand_buckets cs ts = Inr ts'
     \<and> ips ts' = ips ts @ concat (map (\<lambda>p. map colon_text (instances p)) (concat cs))"
proof (induction cs arbitrary: ts)
  case (Cons c cs)
  obtain t1 where t1: "expand_chain c ts = Inr t1"
      "ips t1 = ips ts @ concat (map (\<lambda>p. map colon_text (instances p)) c)"
    using expand_chain_eq [of c ts] Cons.prems by auto
  have "length (ips t1) + (\<Sum>p\<leftarrow>concat cs. 16 ^ count_list p star) \<le> TARGET_MAX_CAPACITY"
    using Cons.prems(2) t1(2) by (simp add: length_concat instances_length comp_def)
  from Cons.IH [OF _ this] this Cons.prems(1) t1 show ?case by auto
qed simp

lemma sum_stars_bound:
  "\<forall>p \<in> set ps. count_list p star \<le> 3 \<Longrightarrow> (\<Sum>p\<leftarrow>ps. 16 ^ count_list p star) \<le> 4096 * length ps"
proof (induction ps)
  case (Cons p ps)
  have "(16 :: nat) ^ count_list p star \<le> 16 ^ 3" using Cons.prems by (intro power_increasing) simp_all
  then show ?case using Cons by simp
qed simp

lemma collect_subspaces_spec:
  assumes "length ss \<le> 10000001"
  shows "\<exists>hs. collect_subspaces ss (HashSet_init INITIAL_HASH_SIZE) = Inr hs \<and> distinct (hs_elems hs)
    \<and> set (hs_elems hs) = {s \<in> set ss. star \<in> set s}"
proof -
  have "hs_ok (HashSet_init INITIAL_HASH_SIZE)" "hs_elems (HashSet_init INITIAL_HASH_SIZE) = []"
    using HashSet_init_ok [of INITIAL_HASH_SIZE] by (simp_all add: INITIAL_HASH_SIZE_def)
  moreover have "length (filter (\<lambda>s. star \<in> set s) ss) \<le> 2 ^ 40"
    by (rule order_trans [OF length_filter_le]) (use assms in simp)
  ultimately show ?thesis
    using hs.has_put_all [of "HashSet_init INITIAL_HASH_SIZE" "filter (\<lambda>s. star \<in> set s) ss"]
    by (auto simp: collect_put_all)
qed

text \<open>The targets of a list of subspaces are the addresses that those with a wildcard cover.\<close>

lemma expand_subspaces:
  assumes "length ss \<le> 244140" "\<forall>p \<in> set ss. is_subspace p \<and> count_list p star \<le> 3"
  obtains hs ts where "collect_subspaces ss (HashSet_init INITIAL_HASH_SIZE) = Inr hs"
    "expand_buckets (buckets hs) initIPVector = Inr ts"
    "set (ips ts) = {colon_text v | v p. p \<in> set ss \<and> star \<in> set p \<and> is_vector v \<and> pat_covers p v}"
proof -
  have "length ss \<le> 10000001" using assms(1) by simp
  then obtain hs where hs: "collect_subspaces ss (HashSet_init INITIAL_HASH_SIZE) = Inr hs"
      "distinct (hs_elems hs)" "set (hs_elems hs) = {s \<in> set ss. star \<in> set s}"
    using collect_subspaces_spec by blast
  have sub: "\<forall>p \<in> set (hs_elems hs). is_subspace p" "\<forall>p \<in> set (hs_elems hs). count_list p star \<le> 3"
    using assms(2) hs(3) by auto
  have "length (hs_elems hs) = card {s \<in> set ss. star \<in> set s}" using distinct_card [OF hs(2)] hs(3) by simp
  also have "\<dots> \<le> card (set ss)" by (rule card_mono) auto
  also have "\<dots> \<le> 244140" using card_length [of ss] assms(1) by simp
  finally have "(\<Sum>p\<leftarrow>hs_elems hs. 16 ^ count_list p star) \<le> TARGET_MAX_CAPACITY"
    using sum_stars_bound [OF sub(2)] by (simp add: TARGET_MAX_CAPACITY_def)
  then obtain ts where ts: "expand_buckets (buckets hs) initIPVector = Inr ts"
      "ips ts = concat (map (\<lambda>p. map colon_text (instances p)) (hs_elems hs))"
    using expand_buckets_eq [of "buckets hs" initIPVector] sub(1)
    by (auto simp: hs_elems_def initIPVector_def)
  have "set (ips ts) = {colon_text v | v p. p \<in> set (hs_elems hs) \<and> v \<in> set (instances p)}" using ts(2) by auto
  also have "\<dots> = {colon_text v | v p. p \<in> set ss \<and> star \<in> set p \<and> is_vector v \<and> pat_covers p v}"
  proof -
    have "p \<in> set (hs_elems hs) \<and> v \<in> set (instances p)
        \<longleftrightarrow> p \<in> set ss \<and> star \<in> set p \<and> is_vector v \<and> pat_covers p v" for p v
      using instances_iff [of p v] sub(1) hs(3) by auto
    then show ?thesis by simp
  qed
  finally show thesis using that hs(1) ts(1) by blast
qed

text \<open>
  C34: From a file of well-formed seeds, few enough for the targets to fit, the
  target generation produces targets only within three digits of a seed, and the address of every
  seed that differs from the next one in sorted order by one to three digits is among them.
\<close>

theorem tga_targets_near_seeds:
  assumes "read_seeds (fgets_lines 1000 file) initIPVector = Inr seeds"
    "ips seeds \<noteq> []" "length (ips seeds) \<le> 244140" "\<forall>x \<in> set (ips seeds). length x = 32"
  shows "\<exists>ts. tga_targets file = Inr ts
    \<and> (\<forall>t \<in> set (ips ts). \<exists>v s. t = colon_text v \<and> is_vector v \<and> s \<in> set (ips seeds) \<and> distance v s \<le> 3)
    \<and> (\<forall>k. close_pair (sort (ips seeds)) k \<longrightarrow> colon_text (sort (ips seeds) ! k) \<in> set (ips ts))"
proof -
  let ?xs = "sort (ips seeds)"
  have "\<forall>x \<in> set (ips seeds). \<exists>s. seed2vec s = Inr x"
    using read_seeds_spec [OF assms(1)] by (simp add: initIPVector_def)
  then have vec: "\<forall>v \<in> set ?xs. is_vector v" using seed2vec_vector assms(4) by auto
  have l: "length ?xs = length (ips seeds)" by simp
  have "?xs \<noteq> []" "length ?xs < 2 ^ 64" using assms(2,3) unfolding l length_0_conv [symmetric] by simp_all
  then obtain ss where ss: "hierarchical_cluster ?xs = Inr ss" "clustered ?xs (length ?xs - 1) ss"
    using hierarchical_cluster_spec [OF vec] by blast
  have len: "length ss = length ?xs" and pat: "m < length ?xs \<Longrightarrow> is_subspace (ss ! m)
      \<and> count_list (ss ! m) star \<le> 3 \<and> pat_covers (ss ! m) (?xs ! m)" for m
    using ss(2) by (simp_all add: clustered_def)
  have el: "\<exists>m < length ?xs. p = ss ! m" if "p \<in> set ss" for p
    using that len by (auto simp: in_set_conv_nth)
  have few: "length ss \<le> 244140" using len assms(3) by simp
  have sub: "\<forall>p \<in> set ss. is_subspace p \<and> count_list p star \<le> 3" using el pat by blast
  obtain hs ts where hs: "collect_subspaces ss (HashSet_init INITIAL_HASH_SIZE) = Inr hs"
    and ts: "expand_buckets (buckets hs) initIPVector = Inr ts"
      "set (ips ts) = {colon_text v | v p. p \<in> set ss \<and> star \<in> set p \<and> is_vector v \<and> pat_covers p v}"
    by (rule expand_subspaces [OF few sub])
  have near: "\<exists>v s. t = colon_text v \<and> is_vector v \<and> s \<in> set (ips seeds) \<and> distance v s \<le> 3"
    if t: "t \<in> set (ips ts)" for t
  proof -
    obtain p v where p: "p \<in> set ss" "t = colon_text v" "is_vector v" "pat_covers p v" using t ts(2) by blast
    obtain m where m: "m < length ?xs" "p = ss ! m" using el [OF p(1)] by blast
    have "distance v (?xs ! m) \<le> 3" using covers_distance [OF p(4), of "?xs ! m"] pat [OF m(1)] m(2) by simp
    moreover have "?xs ! m \<in> set (ips seeds)" using nth_mem [OF m(1)] by simp
    ultimately show ?thesis using p(2,3) by blast
  qed
  have hit: "colon_text (?xs ! k) \<in> set (ips ts)" if k: "close_pair ?xs k" for k
  proof -
    have kl: "k < length ?xs - 1" "k < length ?xs" using k by (auto simp: close_pair_def)
    then obtain m where m: "m \<le> k" "star \<in> set (ss ! m)" "pat_covers (ss ! m) (?xs ! k)"
      using ss(2) k by (auto simp: clustered_def)
    then have "ss ! m \<in> set ss" using kl len by simp
    moreover have "is_vector (?xs ! k)" using vec nth_mem [OF kl(2)] by metis
    ultimately show ?thesis unfolding ts(2) using m(2,3) by blast
  qed
  have "tga_targets file = Inr ts"
    using assms(1) ss(1) hs ts(1) by (simp add: tga_targets_def)
  then show ?thesis using near hit by blast
qed

text \<open>Two seeds in one network and a third elsewhere.\<close>

definition ex_seeds :: string where
  "ex_seeds = ''2001:db8::1'' @ [newline] @ ''2001:db8::2'' @ [newline] @ ''fe80::1'' @ [newline]"

lemma newline_hash: "CHR ''#'' \<noteq> newline"
  by code_simp

theorem tga_targets_near_seeds_witness:
  "\<exists>ts. tga_targets ex_seeds = Inr ts
    \<and> colon_text ''20010db8000000000000000000000001'' \<in> set (ips ts)"
proof -
  let ?a = "''20010db8000000000000000000000001''" and ?b = "''20010db8000000000000000000000002''"
    and ?c = "''fe800000000000000000000000000001''"
  have f: "fgets_lines 1000 ex_seeds = [''2001:db8::1'' @ [newline], ''2001:db8::2'' @ [newline], ''fe80::1'' @ [newline]]"
    by code_simp
  have "seed2vec (groups_text [0x2001, 0xdb8] @ ''::'' @ groups_text [1])
      = Inr (groups_vector [0x2001, 0xdb8] @ replicate (4 * (8 - 2 - 1)) (CHR ''0'') @ groups_vector [1])"
    "seed2vec (groups_text [0x2001, 0xdb8] @ ''::'' @ groups_text [2])
      = Inr (groups_vector [0x2001, 0xdb8] @ replicate (4 * (8 - 2 - 1)) (CHR ''0'') @ groups_vector [2])"
    "seed2vec (groups_text [0xfe80] @ ''::'' @ groups_text [1])
      = Inr (groups_vector [0xfe80] @ replicate (4 * (8 - 1 - 1)) (CHR ''0'') @ groups_vector [1])"
    using seed2vec_groups [of "[0x2001, 0xdb8]" "[1]"] seed2vec_groups [of "[0x2001, 0xdb8]" "[2]"]
      seed2vec_groups [of "[0xfe80]" "[1]"] by simp_all
  moreover have "replicate 20 (CHR ''0'') = ''00000000000000000000''" "replicate 24 (CHR ''0'') = ''000000000000000000000000''"
    "replicate 3 (CHR ''0'') = ''000''" by (simp_all add: numeral_eq_Suc)
  ultimately have "seed2vec ''2001:db8::1'' = Inr ?a" "seed2vec ''2001:db8::2'' = Inr ?b" "seed2vec ''fe80::1'' = Inr ?c"
    by (simp_all add: example_digits)
  moreover have "sscanf_word 256 (''2001:db8::1'' @ [newline]) = Some ''2001:db8::1''"
    "sscanf_word 256 (''2001:db8::2'' @ [newline]) = Some ''2001:db8::2''"
    "sscanf_word 256 (''fe80::1'' @ [newline]) = Some ''fe80::1''"
    by code_simp+
  ultimately obtain seeds where r: "read_seeds (fgets_lines 1000 ex_seeds) initIPVector = Inr seeds"
      "ips seeds = [?a, ?b, ?c]"
    unfolding f using newline_hash by (simp add: SEED_MAX_CAPACITY_def initIPVector_def)
  have s: "sort (ips seeds) = [?a, ?b, ?c]" unfolding r(2) by code_simp
  have "close_pair (sort (ips seeds)) 0" unfolding s by (simp add: close_pair_def distance_def)
  moreover have "sort (ips seeds) ! 0 = ?a" unfolding s by simp
  ultimately show ?thesis
    using tga_targets_near_seeds [OF r(1)] r(2) by auto
qed

text \<open>
  When a run reaches the last vector the index does not skip it, so its vectors are clustered again:
  of three close seeds the last two are expanded twice.
\<close>

lemma last_run_again:
  "hierarchical_cluster [''20010db8000000000000000000000001'', ''20010db8000000000000000000000002'',
      ''20010db8000000000000000000000003'']
   = Inr [''20010db800000000000000000000000*'', ''20010db800000000000000000000000*'',
      ''20010db8000000000000000000000003'']"
proof -
  have "(CHR ''*'') \<noteq> nul" "CHR ''0'' \<noteq> nul" "CHR ''1'' \<noteq> nul" "CHR ''2'' \<noteq> nul"
    "CHR ''8'' \<noteq> nul" "CHR ''d'' \<noteq> nul" "CHR ''b'' \<noteq> nul" by code_simp+
  then show ?thesis
    by (simp add: hierarchical_cluster_def cluster_loop.simps absorb.simps hamming_distance_def
        merge_strings_def chars32_def IPV6_LENGTH_def HAMMING_THRESHOLD_def c_string_def star_def)
qed

text \<open>A group of more than four digits shifts the vector, and the next one no longer fits.\<close>

lemma show_hex_long: "16 ^ k \<le> n \<Longrightarrow> k < length (show_hex n)"
proof (induction k arbitrary: n)
  case (Suc k)
  have "16 ^ k * 16 \<le> n" "(1 :: nat) \<le> 16 ^ k" using Suc.prems by (simp_all add: mult.commute)
  then have "16 \<le> n" "16 ^ k \<le> n div 16" by (linarith, metis div_le_mono nonzero_mult_div_cancel_right zero_neq_numeral)
  then show ?case using Suc.IH [of "n div 16"] by (simp add: show_hex.simps [of n])
qed simp

lemma long_group_overflows:
  assumes "length ws = 7" "\<forall>w \<in> set ws. w < 2 ^ 16" "2 ^ 16 \<le> w" "w < 2 ^ 32"
  shows "seed2vec (groups_text (ws @ [w])) = Inl Out_of_bounds"
proof -
  have "mark_gap (groups_text (ws @ [w])) = groups_text (ws @ [w])"
    using mark_gap_join [of "map show_hex (ws @ [w])"] show_hex_group by (simp add: groups_text_def)
  moreover have "seed_tokens (map show_hex ws @ [show_hex w]) [] 0 = seed_tokens [show_hex w] (groups_vector ws) 7"
    using seed_tokens_groups [of ws "[]" "[show_hex w]" 0] assms by simp
  moreover have "seed_tokens [show_hex w] (groups_vector ws) 7 = Inl Out_of_bounds"
  proof -
    have "4 < length (show_hex w)" using show_hex_long [of 4 w] assms(3) by simp
    moreover from this have "show_hex w \<noteq> [star]" by auto
    moreover have "sscanf_hex (length (show_hex w)) (show_hex w) = Some (of_nat w)"
      using sscanf_show_hex [of w 0] assms(4) by simp
    moreover have "unat (of_nat w :: u32) = w" using assms(4) by (simp add: unsigned_of_nat take_bit_nat_eq_self)
    ultimately show ?thesis
      using groups_vector_length [OF assms(2)] assms(1) by (simp add: IPV6_LENGTH_def show_hex4_def)
  qed
  ultimately show ?thesis by (simp add: seed2vec_def strtok_groups)
qed

text \<open>Seven groups without a double colon leave a vector of 28 digits, which is read past its end.\<close>

lemma short_address_read:
  assumes "length ws = 7" "\<forall>w \<in> set ws. w < 2 ^ 16"
  shows "\<exists>s. seed2vec (groups_text ws) = Inr s \<and> hamming_distance s v = Inl Undefined_value"
proof -
  have "mark_gap (groups_text ws) = groups_text ws"
    using mark_gap_join [of "map show_hex ws"] show_hex_group by (simp add: groups_text_def)
  moreover have "seed_tokens (map show_hex ws) [] 0 = Inr (groups_vector ws, length ws)"
    using seed_tokens_groups [of ws "[]" "[]" 0] assms by simp
  moreover have "star \<notin> set (groups_vector ws)" using groups_vector_chars [OF assms(2)] not_digits(1) by auto
  ultimately have "seed2vec (groups_text ws) = Inr (groups_vector ws)"
    by (simp add: seed2vec_def strtok_groups fill_gap_def)
  then show ?thesis using groups_vector_length [OF assms(2)] assms(1)
    by (simp add: hamming_distance_def chars32_def IPV6_LENGTH_def)
qed

text \<open>Without a seed the bound of the outer loop wraps around.\<close>

lemma empty_seeds_bound: "hierarchical_cluster [] = cluster_loop (2 ^ 64 - 1) 0 []"
proof -
  have "unat (of_nat (length ([] :: string list)) - 1 :: u64) = 2 ^ 64 - 1" by (simp add: unsigned_minus_1_eq_mask mask_eq_exp_minus_1)
  then show ?thesis unfolding hierarchical_cluster_def by presburger
qed

end
