(* ===== verification/Dns_Name.thy ===== *)
theory Dns_Name
  imports Hex_Text
begin

text \<open>
  Domain names of \<open>src/probe_modules/module_dns.c\<close>: the labels written into a query
  (\<open>domain_to_qname\<close>) and the names read from a response, with compression pointers
  (\<open>get_name_helper\<close>, \<open>get_name\<close>). The memory that holds the response is a list of bytes; a pointer into
  it is a position, and a read past the end of the memory is an outcome of its own.
\<close>

declare One_nat_def [simp del]

definition dot :: char where "dot = CHR ''.''"

section \<open>Writing names\<close>

text \<open>The inner loop: the next dot, or the end of the domain.\<close>

function next_dot :: "string \<Rightarrow> nat \<Rightarrow> nat \<Rightarrow> nat" where
  "next_dot q j m = (if j < m then if q ! j = dot then j else next_dot q (j + 1) m else j)"
  by pat_completeness auto
termination by (relation "measure (\<lambda>(q, j, m). m - j)") auto

declare next_dot.simps [simp del]

text \<open>Every dot is replaced by the number of characters up to the next one.\<close>

definition put_length :: "nat \<Rightarrow> nat \<Rightarrow> string \<Rightarrow> string" where
  "put_length l i q = (if q ! i = dot then q[i := char_of (next_dot q (i + 1) (l - 1) - i - 1)] else q)"

text \<open>The length that is returned and the bytes. A length that does not fit is too small a buffer.\<close>

definition domain_to_qname :: "string \<Rightarrow> (nat \<times> string) outcome" where
  "domain_to_qname domain =
     (if domain \<noteq> [] \<and> hd domain = dot then Inr (1, [CHR 0x00])
      else let l = (length domain + 1 + 1) mod 65536
           in if l < length domain + 2 then Inl Out_of_bounds
              else let qname = fold (put_length l) [0 ..< l] (dot # domain @ [CHR 0x00])
                   in if qname ! (l - 1) = CHR 0x00 then Inr (l, qname) else Inl Assert_failed)"

section \<open>Reading names\<close>

definition MAX_LABEL_RECURSION :: nat where "MAX_LABEL_RECURSION = 10"
definition MAX_NAME_LENGTH :: nat where "MAX_NAME_LENGTH = 512"

definition byte_at :: "u8 list \<Rightarrow> nat \<Rightarrow> u8 outcome" where
  "byte_at mem p = (if p < length mem then Inr (mem ! p) else Inl Out_of_bounds)"

definition bytes_at :: "u8 list \<Rightarrow> nat \<Rightarrow> nat \<Rightarrow> u8 list outcome" where
  "bytes_at mem p n = (if p + n \<le> length mem then Inr (take n (drop p mem)) else Inl Out_of_bounds)"

definition chars :: "u8 list \<Rightarrow> string" where
  "chars bs = map (\<lambda>b. char_of (unat b)) bs"

text \<open>Characters appended to the name; the buffer has \<open>MAX_NAME_LENGTH\<close> of them.\<close>

definition name_put :: "string \<Rightarrow> string \<Rightarrow> string outcome" where
  "name_put out s = (if length out + length s \<le> MAX_NAME_LENGTH then Inr (out @ s) else Inl Out_of_bounds)"

text \<open>The test at the start of every call.\<close>

definition enters :: "nat \<Rightarrow> nat \<Rightarrow> nat \<Rightarrow> nat \<Rightarrow> bool" where
  "enters data_len name_len payload_len recursion_level \<longleftrightarrow>
     \<not> (data_len = 0 \<or> name_len = 0 \<or> payload_len = 0) \<and> \<not> recursion_level > MAX_LABEL_RECURSION"

text \<open>The offset of a compression pointer.\<close>

definition pointer_offset :: "u8 \<Rightarrow> u8 \<Rightarrow> nat" where
  "pointer_offset byte b = unat (push_bit 8 (ucast (byte AND 0x03)) OR ucast b :: u16)"

text \<open>
  The loop over the labels at \<open>data\<close>. It returns the bytes consumed, 0 for an error, and the name
  written so far; \<open>name_len\<close> is the room that is left. At a pointer the function calls itself for the
  labels at the offset, so the loop does; the calls that return at once are the ones that do not enter.
\<close>

function get_name_loop ::
    "u8 list \<Rightarrow> nat \<Rightarrow> nat \<Rightarrow> nat \<Rightarrow> nat \<Rightarrow> nat \<Rightarrow> nat \<Rightarrow> string \<Rightarrow> (nat \<times> string) outcome" where
  "get_name_loop payload payload_len data data_len name_len recursion_level bytes_consumed name =
     (if data_len = 0 then Inl Assert_failed
      else bind_out (byte_at payload data) (\<lambda>byte.
        if byte \<ge> 0xc0 then
          if data_len < 2 then Inr (0, name)
          else bind_out (byte_at payload (data + 1)) (\<lambda>b.
            let offset = pointer_offset byte b in
            if offset \<ge> payload_len then Inr (0, name)
            else if (recursion_level > 0 \<or> bytes_consumed > 0) \<and> name_len < 1 then Inr (0, name)
            else bind_out (if recursion_level > 0 \<or> bytes_consumed > 0 then name_put name [dot] else Inr name)
              (\<lambda>name'.
                let name_len' = (if recursion_level > 0 \<or> bytes_consumed > 0 then name_len - 1 else name_len)
                in if \<not> enters (payload_len - offset) name_len' payload_len (recursion_level + 1)
                   then Inr (0, name')
                   else bind_out (get_name_loop payload payload_len offset (payload_len - offset) name_len'
                                    (recursion_level + 1) 0 name') (\<lambda>(rec_bytes_consumed, name'').
                          if rec_bytes_consumed = 0 then Inr (0, name'')
                          else Inr (bytes_consumed + 2, name''))))
        else if byte = 0 then Inr (bytes_consumed + 1, name)
        else
          let data = data + 1; data_len = data_len - 1 in
          if unat byte + 1 > data_len then Inr (0, name)
          else if bytes_consumed > 0 \<and> name_len < 1 then Inr (0, name)
          else bind_out (if bytes_consumed > 0 then name_put name [dot] else Inr name) (\<lambda>name.
            let name_len = (if bytes_consumed > 0 then name_len - 1 else name_len);
                bytes_consumed = bytes_consumed + 1
            in if unat byte > name_len then Inr (0, name)
               else bind_out (bytes_at payload data (unat byte)) (\<lambda>bs.
                 bind_out (name_put name (chars bs)) (\<lambda>name.
                   get_name_loop payload payload_len (data + unat byte) (data_len - unat byte)
                     (name_len - unat byte) recursion_level (bytes_consumed + unat byte) name)))))"
  by pat_completeness auto
termination
  by (relation "measures [\<lambda>(payload, payload_len, data, data_len, name_len, lev, bytes, name). Suc MAX_LABEL_RECURSION - lev,
       \<lambda>(payload, payload_len, data, data_len, name_len, lev, bytes, name). data_len]")
    (auto simp: enters_def split: if_splits)

declare get_name_loop.simps [simp del]

definition get_name_helper ::
    "nat \<Rightarrow> nat \<Rightarrow> u8 list \<Rightarrow> nat \<Rightarrow> string \<Rightarrow> nat \<Rightarrow> nat \<Rightarrow> (nat \<times> string) outcome" where
  "get_name_helper data data_len payload payload_len name name_len recursion_level =
     (if \<not> enters data_len name_len payload_len recursion_level then Inr (0, name)
      else get_name_loop payload payload_len data data_len name_len recursion_level 0 name)"

text \<open>
  The name that \<open>get_name\<close> returns, a string up to the first zero of the zeroed buffer, with the bytes
  consumed; \<open>None\<close> is the null pointer.
\<close>

definition get_name :: "nat \<Rightarrow> nat \<Rightarrow> u8 list \<Rightarrow> nat \<Rightarrow> (string \<times> nat) option outcome" where
  "get_name data data_len payload payload_len =
     bind_out (get_name_helper data data_len payload payload_len [] (MAX_NAME_LENGTH - 1) 0)
       (\<lambda>(bytes_consumed, name).
         if bytes_consumed = 0 then Inr None
         else if length name \<ge> MAX_NAME_LENGTH then Inl Assert_failed
         else Inr (Some (takeWhile (\<lambda>c. c \<noteq> CHR 0x00) name, bytes_consumed)))"


section \<open>Reading stays inside the response\<close>

lemma name_put_room: "length out + length s \<le> 511 \<Longrightarrow> name_put out s = Inr (out @ s)"
  by (simp add: name_put_def MAX_NAME_LENGTH_def)

lemma length_chars [simp]: "length (chars bs) = length bs"
  by (simp add: chars_def)

lemma unat_pos: "byte \<noteq> 0 \<Longrightarrow> 0 < unat (byte :: u8)"
  by (simp add: unat_gt_0)

text \<open>The result of a read: an error, or some of the bytes at \<open>data\<close> and a name that fits.\<close>

definition name_result :: "nat \<Rightarrow> nat \<Rightarrow> (nat \<times> string) outcome \<Rightarrow> bool" where
  "name_result consumed data_len r \<longleftrightarrow>
     (\<exists>n name. r = Inr (n, name) \<and> length name \<le> 511 \<and> (n \<noteq> 0 \<longrightarrow> consumed < n \<and> n \<le> consumed + data_len))"

lemma name_result_error [intro]: "length name \<le> 511 \<Longrightarrow> name_result consumed data_len (Inr (0, name))"
  by (simp add: name_result_def)

lemma bytes_at_label:
  assumes "\<not> unat byte + 1 > data_len - 1" "data + data_len \<le> length payload"
  shows "bytes_at payload (data + 1) (unat byte) = Inr (take (unat byte) (drop (data + 1) payload))"
proof -
  have "data + 1 + unat byte \<le> length payload" using assms by linarith
  then show ?thesis by (simp add: bytes_at_def)
qed

text \<open>One label: the loop goes on behind it, or the name is rejected.\<close>

lemma get_name_loop_label:
  assumes "0 < data_len" "byte_at payload data = Inr byte" "\<not> byte \<ge> 0xc0" "byte \<noteq> 0"
    "data + data_len \<le> length payload" "length name + name_len \<le> 511"
    "name1 = (if consumed > 0 then name @ [dot] else name)"
    "len1 = (if consumed > 0 then name_len - 1 else name_len)"
  shows "get_name_loop payload payload_len data data_len name_len lev consumed name =
    (if unat byte + 1 > data_len - 1 \<or> consumed > 0 \<and> name_len < 1 then Inr (0, name)
     else if unat byte > len1 then Inr (0, name1)
     else get_name_loop payload payload_len (data + 1 + unat byte) (data_len - 1 - unat byte)
            (len1 - unat byte) lev (consumed + 1 + unat byte)
            (name1 @ chars (take (unat byte) (drop (data + 1) payload))))"
proof (cases "unat byte + 1 > data_len - 1 \<or> consumed > 0 \<and> name_len < 1")
  case True
  then show ?thesis using assms(1-4)
    by (subst get_name_loop.simps) (auto simp: Let_def)
next
  case False
  have room: "length name1 + len1 \<le> 511" using False assms(6-8) by auto
  have p: "(if consumed > 0 then name_put name [dot] else Inr name) = Inr name1"
    using False assms(6,7) by (auto simp: name_put_room)
  have bs: "bytes_at payload (data + 1) (unat byte) = Inr (take (unat byte) (drop (data + 1) payload))"
    using False assms(5) by (intro bytes_at_label) auto
  show ?thesis
  proof (cases "unat byte > len1")
    case True
    then show ?thesis using False assms(1-4)
      by (subst get_name_loop.simps) (auto simp: Let_def p simp flip: assms(8))
  next
    case fits: False
    have q: "name_put name1 (chars (take (unat byte) (drop (data + 1) payload)))
        = Inr (name1 @ chars (take (unat byte) (drop (data + 1) payload)))"
      using fits room by (intro name_put_room) simp
    show ?thesis using False fits assms(1-4)
      by (subst get_name_loop.simps) (auto simp: Let_def p bs q simp flip: assms(8))
  qed
qed

lemma get_name_loop_safe:
  assumes "data + data_len \<le> payload_len" "payload_len \<le> length payload" "0 < data_len"
    "length name + name_len \<le> 511"
  shows "name_result bytes_consumed data_len
    (get_name_loop payload payload_len data data_len name_len recursion_level bytes_consumed name)"
  using assms
proof (induction payload payload_len data data_len name_len recursion_level bytes_consumed name
    rule: get_name_loop.induct)
  case (1 payload payload_len data data_len name_len lev consumed name)
  let ?byte = "payload ! data"
  let ?dot = "lev > 0 \<or> consumed > 0"
  note prems = "1.prems"
  have b: "byte_at payload data = Inr ?byte" using prems by (simp add: byte_at_def)
  have len: "length name \<le> 511" using prems(4) by simp
  consider (pointer) "?byte \<ge> 0xc0" | (zero) "?byte = 0" | (label) "\<not> ?byte \<ge> 0xc0" "?byte \<noteq> 0" by blast
  then show ?case
  proof cases
    case pointer
    show ?thesis
    proof (cases "data_len < 2")
      case True
      then show ?thesis using pointer prems(3) len
        by (subst get_name_loop.simps) (simp add: b name_result_error)
    next
      case False
      let ?offset = "pointer_offset ?byte (payload ! (data + 1))"
      let ?name = "if ?dot then name @ [dot] else name" and ?len = "if ?dot then name_len - 1 else name_len"
      have c: "byte_at payload (data + 1) = Inr (payload ! (data + 1))"
        using False prems(1,2) by (simp add: byte_at_def)
      show ?thesis
      proof (cases "?offset \<ge> payload_len \<or> ?dot \<and> name_len < 1")
        case True
        then show ?thesis using pointer prems(3) len False
          by (subst get_name_loop.simps) (auto simp: b c Let_def name_result_error)
      next
        case off: False
        have p: "(if ?dot then name_put name [dot] else Inr name) = Inr ?name"
          using off prems(4) by (auto simp: name_put_room)
        have room: "length ?name + ?len \<le> 511" using off prems(4) by auto
        show ?thesis
        proof (cases "enters (payload_len - ?offset) ?len payload_len (lev + 1)")
          case True
          have IH: "name_result 0 (payload_len - ?offset)
              (get_name_loop payload payload_len ?offset (payload_len - ?offset) ?len (lev + 1) 0 ?name)"
            by (rule "1.IH"(1) [OF _ b pointer False c refl _ _ p refl])
              (use off True prems room in auto)
          then obtain n name' where r: "get_name_loop payload payload_len ?offset (payload_len - ?offset) ?len (lev + 1) 0 ?name
              = Inr (n, name')" "length name' \<le> 511" by (auto simp: name_result_def)
          have "get_name_loop payload payload_len data data_len name_len lev consumed name
              = (if n = 0 then Inr (0, name') else Inr (consumed + 2, name'))"
            using pointer prems(3) False off True
            by (subst get_name_loop.simps) (simp only: b c p r(1) bind_out_simps Let_def prod.case if_False if_True simp_thms not_False_eq_True neq0_conv split: if_split, auto)
          then show ?thesis using r(2) False by (auto simp: name_result_def)
        next
          case False
          then have "get_name_loop payload payload_len data data_len name_len lev consumed name = Inr (0, ?name)"
            using pointer prems(3) \<open>\<not> data_len < 2\<close> off
            by (subst get_name_loop.simps) (auto simp: b c p Let_def simp del: not_less)
          then show ?thesis using room by auto
        qed
      qed
    qed
  next
    case zero
    then show ?thesis using prems(3) len by (subst get_name_loop.simps) (simp add: b name_result_def)
  next
    case label
    let ?name = "if consumed > 0 then name @ [dot] else name" and ?len = "if consumed > 0 then name_len - 1 else name_len"
    have eq: "get_name_loop payload payload_len data data_len name_len lev consumed name =
      (if unat ?byte + 1 > data_len - 1 \<or> consumed > 0 \<and> name_len < 1 then Inr (0, name)
       else if unat ?byte > ?len then Inr (0, ?name)
       else get_name_loop payload payload_len (data + 1 + unat ?byte) (data_len - 1 - unat ?byte)
            (?len - unat ?byte) lev (consumed + 1 + unat ?byte)
            (?name @ chars (take (unat ?byte) (drop (data + 1) payload))))"
      by (rule get_name_loop_label) (use prems b label in auto)
    show ?thesis
    proof (cases "unat ?byte + 1 > data_len - 1 \<or> consumed > 0 \<and> name_len < 1 \<or> unat ?byte > ?len")
      case True
      then have "get_name_loop payload payload_len data data_len name_len lev consumed name = Inr (0, name)
          \<or> get_name_loop payload payload_len data data_len name_len lev consumed name = Inr (0, ?name) \<and> length ?name \<le> 511"
        unfolding eq using prems(4) by auto
      then show ?thesis using len by (auto simp: name_result_def)
    next
      case False
      have p: "(if consumed > 0 then name_put name [dot] else Inr name) = Inr ?name"
        using False prems(4) by (auto simp: name_put_room)
      have bs: "bytes_at payload (data + 1) (unat ?byte) = Inr (take (unat ?byte) (drop (data + 1) payload))"
        using False prems(1,2) by (intro bytes_at_label) auto
      have q: "name_put ?name (chars (take (unat ?byte) (drop (data + 1) payload)))
          = Inr (?name @ chars (take (unat ?byte) (drop (data + 1) payload)))"
        using False prems(4) by (intro name_put_room) (auto split: if_splits)
      have "name_result (consumed + 1 + unat ?byte) (data_len - 1 - unat ?byte)
          (get_name_loop payload payload_len (data + 1 + unat ?byte) (data_len - 1 - unat ?byte)
            (?len - unat ?byte) lev (consumed + 1 + unat ?byte)
            (?name @ chars (take (unat ?byte) (drop (data + 1) payload))))"
        by (rule "1.IH"(2) [OF _ b label(1,2) refl refl _ _ p refl refl _ bs q])
          (use False prems in \<open>auto split: if_splits\<close>)
      then show ?thesis unfolding eq using False by (auto simp: name_result_def)
    qed
  qed
qed

lemma get_name_returns:
  assumes "data + data_len \<le> payload_len" "payload_len \<le> length payload"
  shows "\<exists>r. get_name data data_len payload payload_len = Inr r
    \<and> (\<forall>name n. r = Some (name, n) \<longrightarrow> 0 < n \<and> n \<le> data_len \<and> length name < MAX_NAME_LENGTH)"
proof -
  have "name_result 0 data_len (get_name_helper data data_len payload payload_len [] (MAX_NAME_LENGTH - 1) 0)"
    using get_name_loop_safe [OF assms, of "[]" 511 0 0]
    by (auto simp: get_name_helper_def MAX_NAME_LENGTH_def enters_def name_result_def)
  then obtain n name where "get_name_helper data data_len payload payload_len [] (MAX_NAME_LENGTH - 1) 0 = Inr (n, name)"
    "length name \<le> 511" "n \<noteq> 0 \<longrightarrow> n \<le> data_len" by (auto simp: name_result_def)
  then show ?thesis
    using length_takeWhile_le [of "\<lambda>c. c \<noteq> CHR 0x00" name]
    by (auto simp: get_name_def MAX_NAME_LENGTH_def le_trans)
qed

text \<open>C26: Reading a name from a response always returns, whatever the bytes are. As long as the start of the
  name and the length of the payload stay inside the memory, no byte outside it is read, the name
  buffer is not overrun, none of the assertions fails, and a name that is found used up between one
  byte and all that there were. A loop of compression pointers ends as an error.\<close>

theorem get_name_safe:
  assumes "data + data_len \<le> payload_len" "payload_len \<le> length payload"
  shows "\<exists>r. get_name data data_len payload payload_len = Inr r
    \<and> (\<forall>name n. r = Some (name, n) \<longrightarrow> 0 < n \<and> n \<le> data_len \<and> length name < MAX_NAME_LENGTH)"
  by (rule get_name_returns [OF assms])

text \<open>A pointer to itself.\<close>

theorem get_name_safe_witness:
  "\<exists>r. get_name 12 2 (replicate 12 0 @ [0xC0, 12]) 14 = Inr r"
  using get_name_safe [of 12 2 14 "replicate 12 0 @ [0xC0, 12]"] by auto

section \<open>The offset of a pointer\<close>

text \<open>A compression pointer has 14 bits of offset, of which the code keeps 10: the two bytes
  of offset \<open>k\<close> are read as \<open>k mod 1024\<close>, so names that are compressed to a place past the first
  kilobyte of a response are taken from the wrong place.\<close>

lemma pointer_offset_10_bits:
  assumes "k < 2 ^ 14"
  shows "pointer_offset (of_nat (192 + k div 256)) (of_nat k) = k mod 1024"
proof -
  have hi: "(of_nat (192 + k div 256) :: u8) AND 0x03 = of_nat (k div 256 mod 4)"
  proof -
    have "(of_nat (192 + k div 256) :: u8) AND 0x03 = take_bit 2 (of_nat (192 + k div 256))"
      by (simp add: take_bit_eq_mask mask_eq_exp_minus_1)
    also have "\<dots> = of_nat (take_bit 2 (192 + k div 256))"
      by (simp add: take_bit_of_nat del: of_nat_add)
    also have "take_bit 2 (192 + k div 256) = k div 256 mod 4" by (simp add: take_bit_eq_mod mod_add_eq [symmetric])
    finally show ?thesis .
  qed
  have lo: "unat (of_nat k :: u8) = k mod 256" by (simp add: unat_of_nat take_bit_eq_mod)
  have q: "unat (of_nat (k div 256 mod 4) :: u8) = k div 256 mod 4"
    by (simp add: unat_of_nat take_bit_eq_mod mod_mod_trivial) 
  have "push_bit 8 (ucast (of_nat (k div 256 mod 4) :: u8) :: u16) OR ucast (of_nat k :: u8)
      = push_bit 8 (ucast (of_nat (k div 256 mod 4) :: u8) :: u16) + ucast (of_nat k :: u8)"
    by (rule disjunctive_add_eq_or [symmetric], rule bit_word_eqI)
      (auto simp: bit_simps dest: bit_imp_le_length)
  also have "\<dots> = of_nat (256 * (k div 256 mod 4) + k mod 256)"
  proof -
    have u: "ucast b = (of_nat (unat b) :: u16)" for b :: u8 by simp
    show ?thesis unfolding u q lo by (simp add: push_bit_eq_mult)
  qed
  finally have "pointer_offset (of_nat (192 + k div 256)) (of_nat k) = unat (of_nat (256 * (k div 256 mod 4) + k mod 256) :: u16)"
    by (simp only: pointer_offset_def hi)
  also have "\<dots> = 256 * (k div 256 mod 4) + k mod 256"
    by (simp only: unat_of_nat) (simp add: take_bit_nat_eq_self)
  also have "\<dots> = k mod 1024" using mod_mult2_eq [of k 256 4] by simp
  finally show ?thesis .
qed

lemma pointer_offset_example: "pointer_offset (of_nat (192 + 1040 div 256)) (of_nat 1040) = 16"
  using pointer_offset_10_bits [of 1040] by simp

section \<open>Names survive the round trip\<close>

text \<open>A domain is its labels joined with dots; on the wire each label has its length in front.\<close>

fun join_labels :: "string list \<Rightarrow> string" where
  "join_labels [] = []"
| "join_labels [l] = l"
| "join_labels (l # ls) = l @ dot # join_labels ls"

definition wire_labels :: "string list \<Rightarrow> string" where
  "wire_labels ls = concat (map (\<lambda>l. char_of (length l) # l) ls)"

definition dotted :: "string list \<Rightarrow> string" where
  "dotted ls = concat (map (\<lambda>l. dot # l) ls)"

lemma dotted_join: "ls \<noteq> [] \<Longrightarrow> dot # join_labels ls = dotted ls"
  by (induction ls rule: join_labels.induct) (auto simp: dotted_def)

lemma dotted_Cons: "dotted (l # ls) = dot # l @ dotted ls"
  by (simp add: dotted_def)

lemma join_labels_Cons: "join_labels (l # ls) = l @ dotted ls"
  using dotted_join [of "l # ls"] by (simp add: dotted_Cons)

lemma next_dot_label:
  assumes "\<forall>i < length l. l ! i \<noteq> dot" "j + length l \<le> m"
    "\<And>i. i < length l \<Longrightarrow> q ! (j + i) = l ! i"
    "j + length l < m \<Longrightarrow> q ! (j + length l) = dot"
  shows "next_dot q j m = j + length l"
  using assms
proof (induction l arbitrary: j)
  case Nil
  then show ?case by (subst next_dot.simps) auto
next
  case (Cons x l)
  have "next_dot q (j + 1) m = j + 1 + length l"
  proof (rule Cons.IH)
    show "\<forall>i < length l. l ! i \<noteq> dot" using Cons.prems(1) by auto
    show "j + 1 + length l \<le> m" using Cons.prems(2) by simp
    show "q ! (j + 1 + i) = l ! i" if "i < length l" for i
      using Cons.prems(3) [of "Suc i"] that by (simp add: One_nat_def)
    show "q ! (j + 1 + length l) = dot" if "j + 1 + length l < m"
      using Cons.prems(4) that by (simp add: One_nat_def)
  qed
  moreover have "q ! j = x" using Cons.prems(3) [of 0] by simp
  moreover have "x \<noteq> dot" using Cons.prems(1) by force
  moreover have "j < m" using Cons.prems(2) by simp
  ultimately show ?case by (subst next_dot.simps) (simp add: One_nat_def)
qed

lemma put_length_skip:
  assumes "\<And>i. i \<in> set is \<Longrightarrow> q ! i \<noteq> dot"
  shows "fold (put_length n) is q = q"
  using assms by (induction "is") (auto simp: put_length_def)

text \<open>The pass over the buffer, label by label.\<close>

lemma put_length_labels:
  assumes "\<forall>l \<in> set ls. dot \<notin> set l" "n = length (pre @ dotted ls) + 1"
  shows "fold (put_length n) [length pre ..< n] (pre @ dotted ls @ [CHR 0x00]) = pre @ wire_labels ls @ [CHR 0x00]"
  using assms
proof (induction ls arbitrary: pre)
  case Nil
  then have "[length pre ..< n] = [length pre]" by (simp add: dotted_def One_nat_def)
  then show ?case by (simp add: dotted_def wire_labels_def put_length_def dot_def)
next
  case (Cons l ls)
  let ?q = "pre @ (dot # l) @ dotted ls @ [CHR 0x00]"
  let ?q' = "(pre @ char_of (length l) # l) @ dotted ls @ [CHR 0x00]"
  have d: "dotted (l # ls) = (dot # l) @ dotted ls" by (simp add: dotted_def)
  have n: "n = length pre + 1 + length l + length (dotted ls) + 1" using Cons.prems(2) d by simp
  have up: "[length pre ..< n] = length pre # [length pre + 1 ..< length pre + 1 + length l] @ [length pre + 1 + length l ..< n]"
  proof -
    have "length pre < n" using n by linarith
    then have "[length pre ..< n] = length pre # [length pre + 1 ..< n]"
      by (simp only: upt_conv_Cons Suc_eq_plus1)
    moreover have "[length pre + 1 ..< n] = [length pre + 1 ..< length pre + 1 + length l] @ [length pre + 1 + length l ..< n]"
      using n upt_add_eq_append [of "length pre + 1" "length pre + 1 + length l" "n - (length pre + 1 + length l)"]
      by (simp add: add.assoc)
    ultimately show ?thesis by simp
  qed
  have nolabel: "\<forall>i < length l. l ! i \<noteq> dot" using Cons.prems(1) by (auto dest: nth_mem)
  have "next_dot ?q (length pre + 1) (n - 1) = length pre + 1 + length l"
  proof (rule next_dot_label [OF nolabel])
    show "length pre + 1 + length l \<le> n - 1" using n by simp
    show "?q ! (length pre + 1 + i) = l ! i" if "i < length l" for i
      using that by (simp add: nth_append One_nat_def)
    show "?q ! (length pre + 1 + length l) = dot" if "length pre + 1 + length l < n - 1"
      using that n by (cases ls) (simp_all add: nth_append dotted_def One_nat_def)
  qed
  then have first: "put_length n (length pre) ?q = ?q'"
    by (simp add: put_length_def)
  have rest: "fold (put_length n) [length pre + 1 ..< length pre + 1 + length l] ?q' = ?q'"
  proof (rule put_length_skip)
    fix i assume "i \<in> set [length pre + 1 ..< length pre + 1 + length l]"
    then obtain k where "i = length pre + 1 + k" "k < length l"
      by (auto simp: le_iff_add)
    then show "?q' ! i \<noteq> dot" using nolabel by (simp add: nth_append One_nat_def)
  qed
  have "fold (put_length n) [length (pre @ char_of (length l) # l) ..< n] ?q'
      = (pre @ char_of (length l) # l) @ wire_labels ls @ [CHR 0x00]"
    by (rule Cons.IH) (use Cons.prems n in auto)
  moreover have "length (pre @ char_of (length l) # l) = length pre + 1 + length l" by (simp add: One_nat_def)
  moreover have "wire_labels (l # ls) = (char_of (length l) # l) @ wire_labels ls" by (simp add: wire_labels_def)
  ultimately show ?case unfolding d up using first rest by (simp add: One_nat_def)
qed

lemma length_dotted: "ls \<noteq> [] \<Longrightarrow> length (dotted ls) = length (join_labels ls) + 1"
  using dotted_join [of ls] by (metis length_Cons One_nat_def add.commute plus_1_eq_Suc)

lemma length_wire_labels: "length (wire_labels ls) = length (dotted ls)"
  by (induction ls) (simp_all add: wire_labels_def dotted_def)

lemma domain_to_qname_labels:
  assumes "ls \<noteq> []" "\<forall>l \<in> set ls. dot \<notin> set l" "hd ls \<noteq> []" "length (join_labels ls) < 65534"
  shows "domain_to_qname (join_labels ls) = Inr (length (join_labels ls) + 2, wire_labels ls @ [CHR 0x00])"
proof -
  let ?d = "join_labels ls"
  obtain n where n: "n = length ?d + 2" by blast
  obtain l ls' where ls: "ls = l # ls'" using assms(1) by (cases ls) auto
  then obtain x l' where l: "l = x # l'" using assms(3) by (cases l) auto
  have "?d \<noteq> [] \<and> hd ?d \<noteq> dot" using assms(2) ls l by (cases ls') auto
  then have h: "(?d \<noteq> [] \<and> hd ?d = dot) = False" by simp
  have m: "(length ?d + 1 + 1) mod 65536 = n" using assms(4) n by simp
  have "n = length ([] @ dotted ls) + 1" using n length_dotted [OF assms(1)] by simp
  from put_length_labels [OF assms(2) this]
  have f: "fold (put_length n) [0 ..< n] (dot # ?d @ [CHR 0x00]) = wire_labels ls @ [CHR 0x00]"
    using dotted_join [OF assms(1), symmetric] by (simp only: append_Nil list.size append_Cons)
  have z: "(wire_labels ls @ [CHR 0x00]) ! (n - 1) = CHR 0x00"
    using length_wire_labels [of ls] length_dotted [OF assms(1)] n by (simp add: nth_append)
  show ?thesis
    unfolding domain_to_qname_def Let_def h m f z using n by simp
qed

text \<open>A label is what the code takes for one: not empty, and shorter than the mark of a pointer.\<close>

definition proper_labels :: "string list \<Rightarrow> bool" where
  "proper_labels ls \<longleftrightarrow> (\<forall>l \<in> set ls. l \<noteq> [] \<and> length l < 192)"

definition bytes_of :: "string \<Rightarrow> u8 list" where
  "bytes_of s = map (\<lambda>c. of_nat (of_char c)) s"

lemma chars_bytes_of [simp]: "chars (bytes_of s) = s"
proof -
  have "unat (of_nat (of_char c) :: u8) = of_char c" for c :: char
  proof -
    have "of_char c < (256 :: nat)" by (rule nat_of_char_less_256)
    then show ?thesis by (simp add: unat_of_nat take_bit_nat_eq_self)
  qed
  then show ?thesis by (simp add: chars_def bytes_of_def comp_def)
qed

lemma length_bytes_of [simp]: "length (bytes_of s) = length s"
  by (simp add: bytes_of_def)

lemma bytes_of_append [simp]: "bytes_of (a @ b) = bytes_of a @ bytes_of b"
  by (simp add: bytes_of_def)

lemma bytes_of_length: "n < 256 \<Longrightarrow> bytes_of (char_of n # l) = of_nat n # bytes_of l"
  by (simp add: bytes_of_def of_char_of)

text \<open>Reading labels that start at \<open>data\<close>.\<close>

lemma get_name_loop_labels:
  assumes "proper_labels ls" "drop data payload = bytes_of (wire_labels ls @ [CHR 0x00]) @ post"
    "length (wire_labels ls) < data_len" "data + data_len \<le> length payload"
    "length name + name_len \<le> 511" "length (wire_labels ls) \<le> name_len + (if consumed = 0 then 1 else 0)"
  shows "get_name_loop payload payload_len data data_len name_len lev consumed name
    = Inr (consumed + length (wire_labels ls) + 1,
        name @ (if consumed = 0 then join_labels ls else dotted ls))"
  using assms
proof (induction ls arbitrary: data data_len name_len consumed name)
  case Nil
  then have "payload ! data = 0" "data < length payload"
    by (auto simp: wire_labels_def bytes_of_def dest: arg_cong [where f = hd] simp: hd_drop_conv_nth)
  then show ?case using Nil.prems(3)
    by (subst get_name_loop.simps) (simp add: byte_at_def wire_labels_def dotted_def)
next
  case (Cons l ls)
  let ?rest = "bytes_of (wire_labels ls @ [CHR 0x00]) @ post"
  have l: "l \<noteq> []" "length l < 192" "proper_labels ls" using Cons.prems(1) by (auto simp: proper_labels_def)
  have w: "wire_labels (l # ls) = char_of (length l) # l @ wire_labels ls" by (simp add: wire_labels_def)
  have drop: "drop data payload = of_nat (length l) # bytes_of l @ ?rest"
    using Cons.prems(2) l(2) by (simp add: w bytes_of_length)
  then have at: "payload ! data = of_nat (length l)" "data < length payload"
    by (metis hd_drop_conv_nth list.sel(1) list.distinct(1) drop_eq_Nil linorder_not_less)+
  have drop1: "drop (data + 1) payload = bytes_of l @ ?rest"
    using drop by (metis drop_drop drop_Suc_Cons drop0 One_nat_def add.commute)
  have u: "unat (payload ! data) = length l"
    using l(2) by (simp add: at(1) unat_of_nat take_bit_nat_eq_self)
  have nz: "\<not> payload ! data \<ge> 0xc0" "payload ! data \<noteq> 0"
    using l(1,2) u by (auto simp: word_le_nat_alt One_nat_def)
  let ?name = "if consumed > 0 then name @ [dot] else name"
  let ?len = "if consumed > 0 then name_len - 1 else name_len"
  have lw: "length (wire_labels (l # ls)) = 1 + length l + length (wire_labels ls)" by (simp add: w)
  have fits: "\<not> (unat (payload ! data) + 1 > data_len - 1 \<or> consumed > 0 \<and> name_len < 1)"
    "\<not> unat (payload ! data) > ?len"
    using Cons.prems(3,6) lw u by (auto split: if_splits)
  have "get_name_loop payload payload_len data data_len name_len lev consumed name
    = get_name_loop payload payload_len (data + 1 + length l) (data_len - 1 - length l)
            (?len - length l) lev (consumed + 1 + length l) (?name @ l)"
    using get_name_loop_label [OF _ _ nz Cons.prems(4,5) refl refl] fits at(2) Cons.prems(3)
    by (auto simp: byte_at_def u drop1)
  also have "\<dots> = Inr (consumed + 1 + length l + length (wire_labels ls) + 1,
      (?name @ l) @ (if consumed + 1 + length l = 0 then join_labels ls else dotted ls))"
  proof (rule Cons.IH [OF l(3)])
    show "drop (data + 1 + length l) payload = ?rest"
      using drop1 by (metis append_eq_conv_conj length_bytes_of drop_drop add.commute)
  qed (use Cons.prems(3-6) lw fits u in \<open>auto split: if_splits\<close>)
  also have "\<dots> = Inr (consumed + length (wire_labels (l # ls)) + 1,
      name @ (if consumed = 0 then join_labels (l # ls) else dotted (l # ls)))"
    using lw by (simp add: join_labels_Cons dotted_Cons)
  finally show ?case .
qed

lemma get_name_qname:
  assumes "ls \<noteq> []" "proper_labels ls" "\<forall>l \<in> set ls. dot \<notin> set l \<and> CHR 0x00 \<notin> set l"
    "length (join_labels ls) \<le> 511"
    "domain_to_qname (join_labels ls) = Inr (qlen, qname)"
    "payload = before @ bytes_of qname @ after"
    "qlen \<le> data_len" "length before + data_len \<le> length payload" "payload_len = length payload"
  shows "get_name (length before) data_len payload payload_len = Inr (Some (join_labels ls, qlen))"
proof -
  have h: "hd ls \<noteq> []" "\<forall>l \<in> set ls. dot \<notin> set l" "length (join_labels ls) < 65534"
    using assms(1-4) by (auto simp: proper_labels_def)
  have q: "qlen = length (join_labels ls) + 2" "qname = wire_labels ls @ [CHR 0x00]"
    using trans [OF assms(5) [symmetric] domain_to_qname_labels [OF assms(1) h(2,1,3)]]
    by (simp_all only: sum.inject prod.inject)
  have w: "length (wire_labels ls) = length (join_labels ls) + 1"
    using length_wire_labels [of ls] length_dotted [OF assms(1)] by simp
  have "CHR 0x00 \<notin> set (join_labels ls)"
    using assms(3) by (induction ls rule: join_labels.induct) (auto simp: dot_def)
  then have z: "takeWhile (\<lambda>c. c \<noteq> CHR 0x00) (join_labels ls) = join_labels ls"
    unfolding takeWhile_eq_all_conv by blast
  have "get_name_loop payload payload_len (length before) data_len 511 0 0 []
      = Inr (0 + length (wire_labels ls) + 1, [] @ (if (0::nat) = 0 then join_labels ls else dotted ls))"
    by (rule get_name_loop_labels [OF assms(2)]) (use assms(4,6-8) q w in auto)
  then have "get_name_helper (length before) data_len payload payload_len [] (MAX_NAME_LENGTH - 1) 0
      = Inr (qlen, join_labels ls)"
    using assms(7-9) q w by (auto simp: get_name_helper_def enters_def MAX_NAME_LENGTH_def)
  then show ?thesis using q z assms(4) by (simp add: get_name_def MAX_NAME_LENGTH_def)
qed

text \<open>A domain with a dot at its end, the usual way to write an absolute name, is
  written with two zero bytes at the end. The name ends at the first, so the question that follows is
  off by one byte.\<close>

lemma domain_trailing_dot:
  assumes "ls \<noteq> []" "\<forall>l \<in> set ls. dot \<notin> set l" "hd ls \<noteq> []" "length (join_labels ls) < 65533"
  shows "domain_to_qname (join_labels ls @ [dot])
    = Inr (length (join_labels ls) + 3, wire_labels ls @ [CHR 0x00, CHR 0x00])"
proof -
  have j: "join_labels (ls @ [[]]) = join_labels ls @ [dot]"
    using assms(1) by (induction ls rule: join_labels.induct) auto
  have "wire_labels (ls @ [[]]) = wire_labels ls @ [CHR 0x00]" by (simp add: wire_labels_def char_of_def)
  then show ?thesis
    using domain_to_qname_labels [of "ls @ [[]]"] assms by (simp add: j)
qed

lemma domain_trailing_dot_example:
  "domain_to_qname ''a.'' = Inr (4, [char_of (1 :: nat), CHR ''a'', CHR 0x00, CHR 0x00])"
  using domain_trailing_dot [of "[''a'']"] by (simp add: dot_def wire_labels_def)

end
