(* ===== verification/Fieldset.thy ===== *)
theory Fieldset
  imports HMap_Prelude
begin

text \<open>
  The records that a probe module fills and an output module prints: \<open>src/fieldset.c\<close>. A field is a name
  (none for an element of a repeated field) and a tagged value; a set is the list of its fields.
\<close>

section \<open>Data\<close>

definition MAX_FIELDS :: nat where "MAX_FIELDS = 1024"

text \<open>The type tags, and the tagged union; \<open>Reserved\<close> is a slot that was never written.\<close>

datatype ftype = FS_RESERVED | FS_STRING | FS_UINT64 | FS_BINARY | FS_NULL | FS_FIELDSET | FS_REPEATED | FS_BOOL

datatype fval =
    Reserved | Null | Str string | Uint u64 | Flag u64 | Binary "u8 list"
  | Set fieldset | Rep fieldset
and fieldset = Fieldset (fs_inner: "ftype option") (fs_fields: "(string option \<times> fval) list")

text \<open>\<open>fs_inner\<close> is the element type of a repeated field and \<open>None\<close> for a set of named fields.\<close>

fun ftype_of :: "fval \<Rightarrow> ftype" where
  "ftype_of Reserved = FS_RESERVED"
| "ftype_of Null = FS_NULL"
| "ftype_of (Str s) = FS_STRING"
| "ftype_of (Uint n) = FS_UINT64"
| "ftype_of (Flag n) = FS_BOOL"
| "ftype_of (Binary b) = FS_BINARY"
| "ftype_of (Set f) = FS_FIELDSET"
| "ftype_of (Rep f) = FS_REPEATED"

type_synonym fielddef = "string \<times> string"

text \<open>The definitions that a module exports: name and type name (the description is dropped).\<close>

definition gen_fielddef_set :: "fielddef list \<Rightarrow> fielddef list \<Rightarrow> fielddef list outcome" where
  "gen_fielddef_set fds fs = (if length fds + length fs > MAX_FIELDS then Inl Log_fatal else Inr (fds @ fs))"

section \<open>Building\<close>

definition fs_new_fieldset :: fieldset where
  "fs_new_fieldset = Fieldset None []"

definition fs_new_repeated_field :: "ftype \<Rightarrow> fieldset" where
  "fs_new_repeated_field t = Fieldset (Some t) []"

definition fs_new_repeated_uint64 :: fieldset where
  "fs_new_repeated_uint64 = fs_new_repeated_field FS_UINT64"

definition fs_new_repeated_bool :: fieldset where
  "fs_new_repeated_bool = fs_new_repeated_field FS_BOOL"

definition fs_new_repeated_string :: fieldset where
  "fs_new_repeated_string = fs_new_repeated_field FS_STRING"

definition fs_new_repeated_binary :: fieldset where
  "fs_new_repeated_binary = fs_new_repeated_field FS_BINARY"

definition fs_new_repeated_fieldset :: fieldset where
  "fs_new_repeated_fieldset = fs_new_repeated_field FS_FIELDSET"

definition fs_add_word :: "fieldset \<Rightarrow> string option \<Rightarrow> fval \<Rightarrow> fieldset outcome" where
  "fs_add_word fs name v =
     (if length (fs_fields fs) + 1 \<ge> MAX_FIELDS then Inr fs
      else if (case fs_inner fs of Some t \<Rightarrow> t \<noteq> ftype_of v | None \<Rightarrow> False) then Inl Log_fatal
      else Inr (Fieldset (fs_inner fs) (fs_fields fs @ [(name, v)])))"

text \<open>The first field of that name; comparing with a name that is a null pointer is undefined.\<close>

fun find_field :: "(string option \<times> fval) list \<Rightarrow> string \<Rightarrow> nat option outcome" where
  "find_field [] name = Inr None"
| "find_field ((None, v) # fs) name = Inl Undefined_value"
| "find_field ((Some n, v) # fs) name =
     (if n = name then Inr (Some 0) else bind_out (find_field fs name) (\<lambda>r. Inr (map_option Suc r)))"

definition fs_modify_word :: "fieldset \<Rightarrow> string \<Rightarrow> fval \<Rightarrow> fieldset outcome" where
  "fs_modify_word fs name v =
     bind_out (find_field (fs_fields fs) name) (\<lambda>r. case r of
       Some i \<Rightarrow> Inr (Fieldset (fs_inner fs) ((fs_fields fs)[i := (fst (fs_fields fs ! i), v)]))
     | None \<Rightarrow> fs_add_word fs (Some name) v)"

definition fs_add_null :: "fieldset \<Rightarrow> string \<Rightarrow> fieldset outcome" where
  "fs_add_null fs name = fs_add_word fs (Some name) Null"

definition fs_add_string :: "fieldset \<Rightarrow> string \<Rightarrow> string \<Rightarrow> fieldset outcome" where
  "fs_add_string fs name s = fs_add_word fs (Some name) (Str s)"

definition fs_add_constchar :: "fieldset \<Rightarrow> string \<Rightarrow> string \<Rightarrow> fieldset outcome" where
  "fs_add_constchar fs name s = fs_add_word fs (Some name) (Str s)"

definition fs_chkadd_string :: "fieldset \<Rightarrow> string \<Rightarrow> string option \<Rightarrow> fieldset outcome" where
  "fs_chkadd_string fs name s =
     (case s of Some s \<Rightarrow> fs_add_string fs name s | None \<Rightarrow> fs_add_null fs name)"

definition fs_add_uint64 :: "fieldset \<Rightarrow> string \<Rightarrow> u64 \<Rightarrow> fieldset outcome" where
  "fs_add_uint64 fs name n = fs_add_word fs (Some name) (Uint n)"

text \<open>The \<open>int\<close> is sign-extended into the 64-bit slot.\<close>

definition fs_add_bool :: "fieldset \<Rightarrow> string \<Rightarrow> u32 \<Rightarrow> fieldset outcome" where
  "fs_add_bool fs name b = fs_add_word fs (Some name) (Flag (signed_take_bit 31 (ucast b)))"

definition fs_add_binary :: "fieldset \<Rightarrow> string \<Rightarrow> u8 list \<Rightarrow> fieldset outcome" where
  "fs_add_binary fs name b = fs_add_word fs (Some name) (Binary b)"

definition fs_add_fieldset :: "fieldset \<Rightarrow> string option \<Rightarrow> fieldset \<Rightarrow> fieldset outcome" where
  "fs_add_fieldset fs name child = fs_add_word fs name (Set child)"

definition fs_add_repeated :: "fieldset \<Rightarrow> string \<Rightarrow> fieldset \<Rightarrow> fieldset outcome" where
  "fs_add_repeated fs name child = fs_add_word fs (Some name) (Rep child)"

definition fs_modify_null :: "fieldset \<Rightarrow> string \<Rightarrow> fieldset outcome" where
  "fs_modify_null fs name = fs_modify_word fs name Null"

definition fs_modify_string :: "fieldset \<Rightarrow> string \<Rightarrow> string \<Rightarrow> fieldset outcome" where
  "fs_modify_string fs name s = fs_modify_word fs name (Str s)"

definition fs_modify_uint64 :: "fieldset \<Rightarrow> string \<Rightarrow> u64 \<Rightarrow> fieldset outcome" where
  "fs_modify_uint64 fs name n = fs_modify_word fs name (Uint n)"

definition fs_modify_bool :: "fieldset \<Rightarrow> string \<Rightarrow> u32 \<Rightarrow> fieldset outcome" where
  "fs_modify_bool fs name b = fs_modify_word fs name (Flag (signed_take_bit 31 (ucast b)))"

definition fs_modify_binary :: "fieldset \<Rightarrow> string \<Rightarrow> u8 list \<Rightarrow> fieldset outcome" where
  "fs_modify_binary fs name b = fs_modify_word fs name (Binary b)"

section \<open>UTF-8\<close>

text \<open>
  \<open>u8_check\<close> of libunistring is a parameter: the position of the first byte that does not start a
  valid sequence, or \<open>None\<close>. The counting loop skips a byte after each error.
\<close>

fun count_errors :: "(string \<Rightarrow> nat option) \<Rightarrow> nat \<Rightarrow> string \<Rightarrow> nat" where
  "count_errors u8_check 0 ptr = 0"
| "count_errors u8_check (Suc n) ptr =
     (if ptr = [] then 0
      else case u8_check ptr of None \<Rightarrow> 0
           | Some k \<Rightarrow> Suc (count_errors u8_check n (drop (k + 1) ptr)))"

definition replacement_rune :: string where
  "replacement_rune = [CHR 0xEF, CHR 0xBF, CHR 0xBD]"

text \<open>
  The repair loop: the number of turns taken and the buffer; it stops early when no error is left. The
  rest of the string is moved two bytes up with \<open>memcpy\<close>, which is undefined when the two places
  overlap: when more than two bytes follow the error.
\<close>

fun fix_errors :: "(string \<Rightarrow> nat option) \<Rightarrow> nat \<Rightarrow> string \<Rightarrow> (nat \<times> string) outcome" where
  "fix_errors u8_check 0 buf = Inr (0, buf)"
| "fix_errors u8_check (Suc n) buf =
     (case u8_check buf of
        None \<Rightarrow> Inr (0, buf)
      | Some k \<Rightarrow>
          if length (drop (k + 1) buf) > 2 then Inl Undefined_value
          else bind_out (fix_errors u8_check n (take k buf @ replacement_rune @ drop (k + 1) buf)) (\<lambda>(m, b).
                 Inr (Suc m, b)))"

definition sanitize_utf8 :: "(string \<Rightarrow> nat option) \<Rightarrow> string \<Rightarrow> string outcome" where
  "sanitize_utf8 u8_check buf =
     bind_out (fix_errors u8_check (count_errors u8_check (length buf) buf) buf) (\<lambda>(i, safe).
       if u8_check safe \<noteq> None \<or> length safe \<noteq> length buf + i * 2 then Inl Assert_failed
       else Inr safe)"

definition fs_add_unsafe_string ::
    "(string \<Rightarrow> nat option) \<Rightarrow> fieldset \<Rightarrow> string \<Rightarrow> string \<Rightarrow> fieldset outcome" where
  "fs_add_unsafe_string u8_check fs name s =
     (if u8_check s = None then fs_add_word fs (Some name) (Str s)
      else bind_out (sanitize_utf8 u8_check s) (\<lambda>safe. fs_add_word fs (Some name) (Str safe)))"

definition fs_chkadd_unsafe_string ::
    "(string \<Rightarrow> nat option) \<Rightarrow> fieldset \<Rightarrow> string \<Rightarrow> string option \<Rightarrow> fieldset outcome" where
  "fs_chkadd_unsafe_string u8_check fs name s =
     (case s of Some s \<Rightarrow> fs_add_unsafe_string u8_check fs name s | None \<Rightarrow> fs_add_null fs name)"

section \<open>Reading\<close>

text \<open>A slot of the array, which is zero where no field was added.\<close>

definition slot :: "fieldset \<Rightarrow> nat \<Rightarrow> (string option \<times> fval) outcome" where
  "slot fs i =
     (if i < length (fs_fields fs) then Inr (fs_fields fs ! i)
      else if i < MAX_FIELDS then Inr (None, Reserved) else Inl Out_of_bounds)"

text \<open>The number in a slot; a slot that holds a pointer has no meaningful number unless it is null.\<close>

definition fs_get_uint64_by_index :: "fieldset \<Rightarrow> nat \<Rightarrow> u64 outcome" where
  "fs_get_uint64_by_index fs i =
     bind_out (slot fs i) (\<lambda>(_, v). case v of
       Uint n \<Rightarrow> Inr n | Flag n \<Rightarrow> Inr n | Null \<Rightarrow> Inr 0 | Reserved \<Rightarrow> Inr 0
     | _ \<Rightarrow> Inl Undefined_value)"

text \<open>The string that a slot points to; \<open>None\<close> is the null pointer.\<close>

definition fs_get_string_by_index :: "fieldset \<Rightarrow> nat \<Rightarrow> string option outcome" where
  "fs_get_string_by_index fs i =
     bind_out (slot fs i) (\<lambda>(_, v). case v of
       Str s \<Rightarrow> Inr (Some s) | Null \<Rightarrow> Inr None | Reserved \<Rightarrow> Inr None | _ \<Rightarrow> Inl Undefined_value)"

fun fds_get_index_by_name :: "fielddef list \<Rightarrow> string \<Rightarrow> nat option" where
  "fds_get_index_by_name [] name = None"
| "fds_get_index_by_name ((n, t) # fds) name =
     (if n = name then Some 0 else map_option Suc (fds_get_index_by_name fds name))"

fun fs_generate_fieldset_translation :: "fielddef list \<Rightarrow> string list \<Rightarrow> nat list outcome" where
  "fs_generate_fieldset_translation avail [] = Inr []"
| "fs_generate_fieldset_translation avail (r # req) =
     (case fds_get_index_by_name avail r of
        None \<Rightarrow> Inl Log_fatal
      | Some l \<Rightarrow> bind_out (fs_generate_fieldset_translation avail req) (\<lambda>t. Inr (l # t)))"

definition fs_generate_full_fieldset_translation :: "fielddef list \<Rightarrow> nat list" where
  "fs_generate_full_fieldset_translation avail = [0 ..< length avail]"

fun slots :: "fieldset \<Rightarrow> nat list \<Rightarrow> (string option \<times> fval) list outcome" where
  "slots fs [] = Inr []"
| "slots fs (i # t) = bind_out (slot fs i) (\<lambda>f. bind_out (slots fs t) (\<lambda>r. Inr (f # r)))"

definition translate_fieldset :: "fieldset \<Rightarrow> nat list \<Rightarrow> fieldset outcome" where
  "translate_fieldset fs t = bind_out (slots fs t) (\<lambda>r. Inr (Fieldset None r))"


section \<open>Sanitised strings\<close>

text \<open>
  What the library documents of \<open>u8_check\<close>: an error is reported inside the string, what is before it
  is valid, and a valid beginning does not change where the rest is wrong.
\<close>

definition u8_laws :: "(string \<Rightarrow> nat option) \<Rightarrow> bool" where
  "u8_laws u8_check \<longleftrightarrow>
     (\<forall>s k. u8_check s = Some k \<longrightarrow> k < length s \<and> u8_check (take k s) = None) \<and>
     (\<forall>a b. u8_check a = None \<longrightarrow> u8_check (a @ b) = map_option ((+) (length a)) (u8_check b)) \<and>
     u8_check replacement_rune = None"

lemma u8_lawsD:
  assumes "u8_laws c"
  shows "c s = Some k \<Longrightarrow> k < length s" "c s = Some k \<Longrightarrow> c (take k s) = None"
    "c a = None \<Longrightarrow> c (a @ b) = map_option ((+) (length a)) (c b)" "c replacement_rune = None"
  using assms unfolding u8_laws_def by blast+

text \<open>The error after which more than two bytes follow.\<close>

definition overlaps :: "(string \<Rightarrow> nat option) \<Rightarrow> string \<Rightarrow> bool" where
  "overlaps u8_check s \<longleftrightarrow> (case u8_check s of None \<Rightarrow> False | Some k \<Rightarrow> k + 3 < length s)"

lemma count_errors_fix:
  assumes "u8_laws c" "c a = None" "length ptr \<le> n" "\<not> overlaps c ptr"
  shows "\<exists>safe. fix_errors c (count_errors c n ptr) (a @ ptr) = Inr (count_errors c n ptr, safe)
    \<and> c safe = None \<and> length safe = length (a @ ptr) + 2 * count_errors c n ptr"
  using assms(2-4)
proof (induction n arbitrary: a ptr)
  case 0
  then show ?case by simp
next
  case (Suc n)
  note L = u8_lawsD [OF assms(1)]
  have app: "c (a @ ptr) = map_option ((+) (length a)) (c ptr)" by (rule L(3) [OF Suc.prems(1)])
  show ?case
  proof (cases "ptr = [] \<or> c ptr = None")
    case True
    moreover have "c (a @ ptr) = None" using True app Suc.prems(1) by auto
    ultimately show ?thesis by auto
  next
    case False
    then obtain k where k: "c ptr = Some k" by auto
    let ?a = "a @ take k ptr @ replacement_rune" and ?p = "drop (k + 1) ptr"
    have kl: "k < length ptr" "c (take k ptr) = None" using L(1,2) k by blast+
    have v: "c ?a = None" using L(3) [OF Suc.prems(1)] L(3) [OF kl(2)] L(4) by simp
    have short: "length ?p \<le> 2" using Suc.prems(3) k by (simp add: overlaps_def)
    then have "\<not> overlaps c ?p" by (auto simp: overlaps_def split: option.splits)
    moreover have "length ?p \<le> n" using kl(1) Suc.prems(2) by simp
    ultimately obtain safe where
      "fix_errors c (count_errors c n ?p) (?a @ ?p) = Inr (count_errors c n ?p, safe)" "c safe = None"
      "length safe = length (?a @ ?p) + 2 * count_errors c n ?p" using Suc.IH [OF v] by blast
    then show ?thesis
      using False k kl(1) app short by (auto simp: replacement_rune_def)
  qed
qed

lemma sanitize_utf8_spec:
  assumes "u8_laws u8_check" "u8_check [] = None"
  shows "if overlaps u8_check buf then sanitize_utf8 u8_check buf = Inl Undefined_value
    else \<exists>safe n. sanitize_utf8 u8_check buf = Inr safe \<and> u8_check safe = None
      \<and> length safe = length buf + 2 * n \<and> (u8_check buf = None \<longrightarrow> safe = buf)"
proof (cases "overlaps u8_check buf")
  case True
  then obtain k where k: "u8_check buf = Some k" "k + 3 < length buf" by (auto simp: overlaps_def split: option.splits)
  then obtain n where n: "length buf = Suc n" "buf \<noteq> []" by (cases buf) auto
  then have "2 < n - k" using k(2) by linarith
  then show ?thesis using True k n by (simp add: sanitize_utf8_def)
next
  case False
  let ?n = "count_errors u8_check (length buf) buf"
  obtain safe where s: "fix_errors u8_check ?n buf = Inr (?n, safe)" "u8_check safe = None"
    "length safe = length buf + 2 * ?n"
    using count_errors_fix [OF assms(1,2) order_refl False] by auto
  have "u8_check buf = None \<Longrightarrow> safe = buf"
    using s(1) by (cases "length buf") (auto split: if_splits)
  then show ?thesis using False s by (auto simp: sanitize_utf8_def)
qed

text \<open>C23: For a checker that keeps the library's documentation, sanitising a string never ends in
  one of its assertions. If more than two bytes follow the first error, the copy overlaps itself and is
  undefined. Otherwise a string is returned that the checker accepts, two bytes longer for every error that
  was replaced; a string without an error is returned as it is.\<close>

theorem sanitize_utf8_valid:
  assumes "u8_laws u8_check" "u8_check [] = None"
  shows "if overlaps u8_check buf then sanitize_utf8 u8_check buf = Inl Undefined_value
    else \<exists>safe n. sanitize_utf8 u8_check buf = Inr safe \<and> u8_check safe = None
      \<and> length safe = length buf + 2 * n \<and> (u8_check buf = None \<longrightarrow> safe = buf)"
  by (rule sanitize_utf8_spec [OF assms])

text \<open>A checker of ASCII text and replacement runes.\<close>

fun ascii_check :: "string \<Rightarrow> nat option" where
  "ascii_check [] = None"
| "ascii_check (x # s) =
     (if of_char x < (128 :: nat) then map_option Suc (ascii_check s)
      else case s of
        y # z # s' \<Rightarrow> if [x, y, z] = replacement_rune then map_option ((+) 3) (ascii_check s') else Some 0
      | _ \<Rightarrow> Some 0)"

lemma ascii_check_laws: "u8_laws ascii_check"
proof -
  have 1: "ascii_check s = Some k \<Longrightarrow> k < length s \<and> ascii_check (take k s) = None" for s k
    by (induction s arbitrary: k rule: ascii_check.induct)
      (auto split: if_splits list.splits simp: eval_nat_numeral)
  have 2: "ascii_check a = None \<Longrightarrow> ascii_check (a @ b) = map_option ((+) (length a)) (ascii_check b)" for a b
  proof (induction a rule: ascii_check.induct)
    case 1
    then show ?case by (cases "ascii_check b") auto
  next
    case (2 x s)
    then show ?case by (auto simp: option.map_comp comp_def eval_nat_numeral split: if_splits list.splits)
  qed
  have 3: "ascii_check replacement_rune = None" by (simp add: replacement_rune_def)
  show ?thesis unfolding u8_laws_def using 1 2 3 by blast
qed

theorem sanitize_utf8_valid_witness:
  "(\<exists>safe. sanitize_utf8 ascii_check [CHR ''a'', CHR 0xFF, CHR ''b''] = Inr safe \<and> ascii_check safe = None)
   \<and> sanitize_utf8 ascii_check [CHR 0xFF, CHR ''a'', CHR ''b'', CHR ''c''] = Inl Undefined_value"
proof -
  have "\<not> overlaps ascii_check [CHR ''a'', CHR 0xFF, CHR ''b'']"
    "overlaps ascii_check [CHR 0xFF, CHR ''a'', CHR ''b'', CHR ''c'']" by code_simp+
  then show ?thesis
    using sanitize_utf8_valid [OF ascii_check_laws, of "[CHR ''a'', CHR 0xFF, CHR ''b'']"]
      sanitize_utf8_valid [OF ascii_check_laws, of "[CHR 0xFF, CHR ''a'', CHR ''b'', CHR ''c'']"] by auto
qed

section \<open>Fields that match their definitions\<close>

text \<open>The fields that are added in the order of the definitions.\<close>

definition conforms :: "fieldset \<Rightarrow> fielddef list \<Rightarrow> bool" where
  "conforms fs defs \<longleftrightarrow> length defs \<le> length (fs_fields fs) \<and>
     (\<forall>i < length defs. fst (fs_fields fs ! i) = Some (fst (defs ! i)))"

definition value_of :: "fieldset \<Rightarrow> string \<Rightarrow> fval" where
  "value_of fs name = (case map_of (fs_fields fs) (Some name) of Some v \<Rightarrow> v | None \<Rightarrow> Reserved)"

lemma fds_get_index_by_name_Some:
  "fds_get_index_by_name defs name = Some i \<Longrightarrow>
     i < length defs \<and> fst (defs ! i) = name \<and> (\<forall>j < i. fst (defs ! j) \<noteq> name)"
proof (induction defs name arbitrary: i rule: fds_get_index_by_name.induct)
  case (2 n t fds name)
  then show ?case by (fastforce simp: nth_Cons split: if_splits nat.splits)
qed simp

lemma fds_get_index_by_name_None:
  "fds_get_index_by_name defs name = None \<longleftrightarrow> name \<notin> fst ` set defs"
  by (induction defs name rule: fds_get_index_by_name.induct) auto

lemma map_of_first:
  "\<lbrakk>i < length xs; fst (xs ! i) = k; \<forall>j < i. fst (xs ! j) \<noteq> k\<rbrakk> \<Longrightarrow> map_of xs k = Some (snd (xs ! i))"
proof (induction xs arbitrary: i)
  case (Cons x xs)
  show ?case
  proof (cases i)
    case 0
    then show ?thesis using Cons.prems by auto
  next
    case (Suc j)
    then have "fst x \<noteq> k" using Cons.prems(3) by auto
    moreover have "map_of xs k = Some (snd (xs ! j))"
      by (rule Cons.IH) (use Cons.prems Suc in auto)
    ultimately show ?thesis using Suc by (cases x) auto
  qed
qed simp

text \<open>A name's index in the definitions is the place of its value.\<close>

lemma conforms_slot:
  assumes "conforms fs defs" "fds_get_index_by_name defs name = Some i"
  shows "slot fs i = Inr (Some name, value_of fs name)"
proof -
  have i: "i < length defs" "fst (defs ! i) = name" "\<forall>j < i. fst (defs ! j) \<noteq> name"
    using fds_get_index_by_name_Some [OF assms(2)] by auto
  have l: "i < length (fs_fields fs)" "fst (fs_fields fs ! i) = Some name"
    using assms(1) i by (auto simp: conforms_def)
  moreover have "\<forall>j < i. fst (fs_fields fs ! j) \<noteq> Some name"
    using assms(1) i by (auto simp: conforms_def)
  ultimately have "map_of (fs_fields fs) (Some name) = Some (snd (fs_fields fs ! i))"
    by (rule map_of_first)
  then show ?thesis using l by (simp add: slot_def value_of_def prod_eq_iff)
qed

text \<open>C24: If the fields of a packet are those that the module has defined, in that order,
  then the output record has exactly the requested fields, in the requested order, each with the value
  the packet has under that name. A field that is not defined ends the program at start-up.\<close>

theorem translate_fieldset_by_name:
  assumes "conforms fs defs"
  shows "bind_out (fs_generate_fieldset_translation defs req) (translate_fieldset fs)
    = (if set req \<subseteq> fst ` set defs then Inr (Fieldset None (map (\<lambda>r. (Some r, value_of fs r)) req))
       else Inl Log_fatal)"
proof -
  have "if set req \<subseteq> fst ` set defs
        then \<exists>t. fs_generate_fieldset_translation defs req = Inr t
               \<and> slots fs t = Inr (map (\<lambda>r. (Some r, value_of fs r)) req)
        else fs_generate_fieldset_translation defs req = Inl Log_fatal"
  proof (induction req)
    case (Cons r req)
    show ?case
    proof (cases "fds_get_index_by_name defs r")
      case None
      then show ?thesis using fds_get_index_by_name_None [of defs r] by simp
    next
      case (Some i)
      then have "r \<in> fst ` set defs" using fds_get_index_by_name_None [of defs r] by auto
      then show ?thesis using Cons Some conforms_slot [OF assms Some]
        by (auto split: if_splits)
    qed
  qed simp
  then show ?thesis by (auto simp: translate_fieldset_def split: if_splits)
qed

theorem translate_fieldset_by_name_witness:
  "bind_out (fs_generate_fieldset_translation [(''saddr'', ''string''), (''ttl'', ''int'')] [''ttl'', ''saddr''])
     (translate_fieldset (Fieldset None [(Some ''saddr'', Str ''192.0.2.1''), (Some ''ttl'', Uint 64), (Some ''sport'', Uint 53)]))
   = Inr (Fieldset None [(Some ''ttl'', Uint 64), (Some ''saddr'', Str ''192.0.2.1'')])"
  by (subst translate_fieldset_by_name)
    (auto simp: conforms_def less_Suc_eq numeral_2_eq_2 value_of_def)

end
