(* ===== verification/Dns.thy ===== *)
theory Dns
  imports Dns_Name Fieldset C_Lib
begin

text \<open>
  The DNS probe module \<open>src/probe_modules/module_dns.c\<close>: its arguments, the query packets it builds, and
  the parser of questions and resource records. Memory is a list of bytes; \<open>payload\<close> is the memory from
  the DNS header on, \<open>payload_len\<close> what the code passes for its length.
\<close>

section \<open>Query types\<close>

definition MAX_QTYPE :: nat where "MAX_QTYPE = 255"
definition BAD_QTYPE_STR :: string where "BAD_QTYPE_STR = ''BAD QTYPE''"
definition BAD_QTYPE_VAL :: int where "BAD_QTYPE_VAL = - 1"
definition DNS_SEND_LEN :: nat where "DNS_SEND_LEN = 512"

definition DNS_QTYPE_A :: u16 where "DNS_QTYPE_A = 1"
definition DNS_QTYPE_NS :: u16 where "DNS_QTYPE_NS = 2"
definition DNS_QTYPE_CNAME :: u16 where "DNS_QTYPE_CNAME = 5"
definition DNS_QTYPE_MX :: u16 where "DNS_QTYPE_MX = 15"
definition DNS_QTYPE_TXT :: u16 where "DNS_QTYPE_TXT = 16"
definition DNS_QTYPE_AAAA :: u16 where "DNS_QTYPE_AAAA = 28"

definition qtype_strs :: "string list" where
  "qtype_strs = [''A'', ''NS'', ''CNAME'', ''SOA'', ''PTR'', ''MX'', ''TXT'', ''AAAA'', ''RRSIG'', ''ANY'']"

definition qtype_strid_to_qtype :: "u16 list" where
  "qtype_strid_to_qtype = [1, 2, 5, 6, 12, 15, 16, 28, 46, 255]"

text \<open>The initialiser sets the first entry only, the others are 0.\<close>

definition qtype_qtype_to_strid :: "int list" where
  "qtype_qtype_to_strid = BAD_QTYPE_VAL # replicate 255 0"

definition setup_qtype_str_map :: "int list \<Rightarrow> int list" where
  "setup_qtype_str_map m = m[1 := 0, 2 := 1, 5 := 2, 6 := 3, 12 := 4, 15 := 5, 16 := 6, 28 := 7, 46 := 8, 255 := 9]"

fun find_str :: "string list \<Rightarrow> u16 list \<Rightarrow> string \<Rightarrow> u16" where
  "find_str (n # ns) (c # cs) s = (if n = s then c else find_str ns cs s)"
| "find_str ns cs s = 0"

definition qtype_str_to_code :: "string \<Rightarrow> u16" where
  "qtype_str_to_code s = find_str qtype_strs qtype_strid_to_qtype s"

definition qtype_str :: "u16 \<Rightarrow> string" where
  "qtype_str qtype =
     (let m = setup_qtype_str_map qtype_qtype_to_strid
      in if unat qtype > MAX_QTYPE \<or> m ! unat qtype = BAD_QTYPE_VAL then BAD_QTYPE_STR
         else qtype_strs ! nat (m ! unat qtype))"

section \<open>Arguments and queries\<close>

text \<open>The global arrays that initialisation sets up.\<close>

record dns_state =
  dns_packets :: "u8 list list"
  dns_packet_lens :: "nat list"
  qname_lens :: "nat list"
  qnames :: "string list"
  qtypes :: "u16 list"

definition default_domain :: string where "default_domain = ''www.qq.com''"

text \<open>The position of the first character \<open>c\<close> of a string.\<close>

fun strchr :: "char \<Rightarrow> string \<Rightarrow> nat option" where
  "strchr c [] = None"
| "strchr c (x # s) = (if x = c then Some 0 else map_option Suc (strchr c s))"

definition strupr :: "string \<Rightarrow> string" where
  "strupr s = map (\<lambda>c. if (97 :: nat) \<le> of_char c \<and> of_char c \<le> (122 :: nat) then char_of (of_char c - 32 :: nat) else c) s"

text \<open>
  The loop over \<open>--probe-args\<close>, "TYPE,QUESTION" separated by semicolons. \<open>arg_pos\<close> is a position in the
  string; the loop counts the questions that are left. It returns the domains and types.
\<close>

fun parse_probe_args :: "nat \<Rightarrow> string \<Rightarrow> nat \<Rightarrow> ((string \<times> u16) list \<times> nat) outcome" where
  "parse_probe_args 0 args arg_pos = Inr ([], arg_pos)"
| "parse_probe_args (Suc n) args arg_pos =
     (if arg_pos \<ge> length args then Inl Log_fatal
      else
        let rest = drop arg_pos args; q_delim = strchr (CHR '','') rest; arg_delim = strchr (CHR '';'') rest
        in case q_delim of
             None \<Rightarrow> Inl Log_fatal
           | Some q \<Rightarrow>
               if q = 0 \<or> length rest = q + 1 \<or> (arg_delim = None \<and> n \<noteq> 0) then Inl Log_fatal
               else
                 let domain_len = (case arg_delim of Some a \<Rightarrow> int a - int q - 1 | None \<Rightarrow> int (length rest) - int q)
                 in if domain_len \<le> 0 then Inl Assert_failed
                    else
                      let domain = take (nat domain_len) (drop (q + 1) rest);
                          code = qtype_str_to_code (strupr (take q rest))
                      in if code = 0 then Inl Log_fatal
                         else bind_out (parse_probe_args n args (arg_pos + q + nat domain_len + 2)) (\<lambda>(ds, p).
                                Inr ((domain, code) # ds, p)))"

text \<open>The header of a query: recursion desired, one question.\<close>

definition dns_query_header :: "u8 list" where
  "dns_query_header = [0, 0, 1, 0, 0, 1, 0, 0, 0, 0, 0, 0]"

definition net_bytes :: "u16 \<Rightarrow> u8 list" where
  "net_bytes w = [ucast (drop_bit 8 w), ucast w]"

definition build_packet :: "string \<Rightarrow> u16 \<Rightarrow> (u8 list \<times> nat \<times> nat \<times> string) outcome" where
  "build_packet domain qtype =
     bind_out (domain_to_qname domain) (\<lambda>(qname_len, qname).
       let packet_len = (12 + qname_len + 4) mod 65536
       in if packet_len > DNS_SEND_LEN then Inl Log_fatal
          else if packet_len < 12 + qname_len + 4 then Inl Out_of_bounds
          else Inr (dns_query_header @ bytes_of qname @ net_bytes qtype @ net_bytes 1, packet_len, qname_len, qname))"

fun build_global_dns_packets :: "(string \<times> u16) list \<Rightarrow> dns_state outcome" where
  "build_global_dns_packets [] =
     Inr \<lparr>dns_packets = [], dns_packet_lens = [], qname_lens = [], qnames = [], qtypes = []\<rparr>"
| "build_global_dns_packets ((domain, qtype) # ds) =
     bind_out (build_packet domain qtype) (\<lambda>(packet, packet_len, qname_len, qname).
     bind_out (build_global_dns_packets ds) (\<lambda>st.
       Inr \<lparr>dns_packets = packet # dns_packets st, dns_packet_lens = packet_len # dns_packet_lens st,
            qname_lens = qname_len # qname_lens st, qnames = qname # qnames st,
            qtypes = qtype # qtypes st\<rparr>))"

definition dns_global_init :: "int \<Rightarrow> string option \<Rightarrow> dns_state outcome" where
  "dns_global_init packet_streams probe_args =
     (if packet_streams < 1 then Inl Log_fatal
      else case probe_args of
             None \<Rightarrow> build_global_dns_packets (replicate (nat packet_streams) (default_domain, DNS_QTYPE_A))
           | Some args \<Rightarrow>
               bind_out (parse_probe_args (nat packet_streams) args 0) (\<lambda>(ds, arg_pos).
                 if arg_pos \<noteq> length args + 2 then Inl Log_fatal
                 else build_global_dns_packets ds))"

section \<open>Questions and records\<close>

text \<open>Numbers in network order.\<close>

definition u16_at :: "u8 list \<Rightarrow> nat \<Rightarrow> u16 outcome" where
  "u16_at mem p = bind_out (bytes_at mem p 2) (\<lambda>b. Inr (push_bit 8 (ucast (b ! 0)) OR ucast (b ! 1)))"

definition u32_at :: "u8 list \<Rightarrow> nat \<Rightarrow> u32 outcome" where
  "u32_at mem p = bind_out (bytes_at mem p 4) (\<lambda>b. Inr (push_bit 24 (ucast (b ! 0))
     OR push_bit 16 (ucast (b ! 1)) OR push_bit 8 (ucast (b ! 2)) OR ucast (b ! 3)))"

text \<open>The library functions for text: \<open>u8_check\<close> and \<open>inet_ntop\<close> for IPv6.\<close>

record text_lib =
  u8_check :: "string \<Rightarrow> nat option"
  ntop6 :: "u8 list \<Rightarrow> string"

definition inet_ntoa :: "u8 list \<Rightarrow> string" where
  "inet_ntoa a = show_dec (unat (a ! 0)) @ ''.'' @ show_dec (unat (a ! 1)) @ ''.'' @ show_dec (unat (a ! 2))
     @ ''.'' @ show_dec (unat (a ! 3))"

text \<open>A C string in a zeroed buffer.\<close>

definition c_str :: "string \<Rightarrow> string" where
  "c_str s = takeWhile (\<lambda>c. c \<noteq> CHR 0x00) s"

text \<open>Where the parser is: the position, the bytes left, the list so far; and whether it failed.\<close>

type_synonym dns_cursor = "bool \<times> nat \<times> nat \<times> fieldset"

definition process_response_question ::
    "text_lib \<Rightarrow> nat \<Rightarrow> nat \<Rightarrow> u8 list \<Rightarrow> nat \<Rightarrow> fieldset \<Rightarrow> dns_cursor outcome" where
  "process_response_question lib data data_len payload payload_len list =
     bind_out (get_name data data_len payload payload_len) (\<lambda>r. case r of
       None \<Rightarrow> Inr (True, data, data_len, list)
     | Some (question_name, bytes_consumed) \<Rightarrow>
         if bytes_consumed + 4 > data_len then Inr (True, data, data_len, list)
         else
           bind_out (u16_at payload (data + bytes_consumed)) (\<lambda>qtype.
           bind_out (u16_at payload (data + bytes_consumed + 2)) (\<lambda>qclass.
           bind_out (fs_add_unsafe_string (u8_check lib) fs_new_fieldset ''name'' question_name) (\<lambda>qfs.
           bind_out (fs_add_uint64 qfs ''qtype'' (ucast qtype)) (\<lambda>qfs.
           bind_out (fs_add_string qfs ''qtype_str'' (qtype_str qtype)) (\<lambda>qfs.
           bind_out (fs_add_uint64 qfs ''qclass'' (ucast qclass)) (\<lambda>qfs.
           bind_out (fs_add_fieldset list None qfs) (\<lambda>list.
             Inr (False, data + bytes_consumed + 4, data_len - bytes_consumed - 4, list)))))))))"

text \<open>
  The text of an MX record: at most five characters of the preference and a space go to the start of
  the zeroed buffer, the name after as many characters as would have been printed.
\<close>

definition mx_text :: "u16 \<Rightarrow> string \<Rightarrow> string" where
  "mx_text pref name =
     (let printed = show_dec (unat pref) @ '' '';
          buf = replicate (5 + 1 + length name + 1) (CHR 0x00);
          buf = take 5 printed @ drop (length (take 5 printed)) buf
      in c_str (take (length printed) buf @ name @ drop (length printed + length name) buf))"

text \<open>The fields \<open>rdata_is_parsed\<close> and \<open>rdata\<close>, for each type of record.\<close>

definition raw_rdata :: "fieldset \<Rightarrow> u8 list \<Rightarrow> fieldset outcome" where
  "raw_rdata afs rdata = bind_out (fs_add_uint64 afs ''rdata_is_parsed'' 0) (\<lambda>afs. fs_add_binary afs ''rdata'' rdata)"

definition text_rdata :: "text_lib \<Rightarrow> fieldset \<Rightarrow> string \<Rightarrow> fieldset outcome" where
  "text_rdata lib afs s =
     bind_out (fs_add_uint64 afs ''rdata_is_parsed'' 1) (\<lambda>afs. fs_add_unsafe_string (u8_check lib) afs ''rdata'' s)"

definition answer_rdata ::
    "text_lib \<Rightarrow> u16 \<Rightarrow> nat \<Rightarrow> nat \<Rightarrow> u8 list \<Rightarrow> nat \<Rightarrow> u8 list \<Rightarrow> fieldset \<Rightarrow> fieldset outcome" where
  "answer_rdata lib type rd rdlength payload payload_len rdata afs =
     (if type = DNS_QTYPE_NS \<or> type = DNS_QTYPE_CNAME then
        bind_out (get_name rd rdlength payload payload_len) (\<lambda>r. case r of
          None \<Rightarrow> raw_rdata afs rdata
        | Some (rdata_name, n) \<Rightarrow> text_rdata lib afs rdata_name)
      else if type = DNS_QTYPE_MX then
        if rdlength \<le> 4 then raw_rdata afs rdata
        else bind_out (get_name (rd + 2) (rdlength - 2) payload payload_len) (\<lambda>r. case r of
          None \<Rightarrow> raw_rdata afs rdata
        | Some (rdata_name, n) \<Rightarrow>
            bind_out (u16_at payload rd) (\<lambda>pref. text_rdata lib afs (mx_text pref rdata_name)))
      else if type = DNS_QTYPE_TXT then
        if rdlength \<ge> 1 \<and> rdlength - 1 \<noteq> unat (rdata ! 0) then raw_rdata afs rdata
        else if rdlength < 1 then raw_rdata afs rdata
        else text_rdata lib afs (c_str (chars (drop 1 rdata)))
      else if type = DNS_QTYPE_A then
        if rdlength \<noteq> 4 then raw_rdata afs rdata else text_rdata lib afs (inet_ntoa rdata)
      else if type = DNS_QTYPE_AAAA then
        if rdlength \<noteq> 16 then raw_rdata afs rdata else text_rdata lib afs (ntop6 lib rdata)
      else raw_rdata afs rdata)"

definition process_response_answer ::
    "text_lib \<Rightarrow> nat \<Rightarrow> nat \<Rightarrow> u8 list \<Rightarrow> nat \<Rightarrow> fieldset \<Rightarrow> dns_cursor outcome" where
  "process_response_answer lib data data_len payload payload_len list =
     bind_out (get_name data data_len payload payload_len) (\<lambda>r. case r of
       None \<Rightarrow> Inr (True, data, data_len, list)
     | Some (answer_name, bytes_consumed) \<Rightarrow>
         if bytes_consumed + 10 > data_len then Inr (True, data, data_len, list)
         else
           let tail = data + bytes_consumed in
           bind_out (u16_at payload tail) (\<lambda>type.
           bind_out (u16_at payload (tail + 2)) (\<lambda>class.
           bind_out (u32_at payload (tail + 4)) (\<lambda>ttl.
           bind_out (u16_at payload (tail + 8)) (\<lambda>rdlen.
           let rdlength = unat rdlen in
           if rdlength + bytes_consumed + 10 > data_len then Inr (True, data, data_len, list)
           else
             bind_out (bytes_at payload (tail + 10) rdlength) (\<lambda>rdata.
             bind_out (fs_add_unsafe_string (u8_check lib) fs_new_fieldset ''name'' answer_name) (\<lambda>afs.
             bind_out (fs_add_uint64 afs ''type'' (ucast type)) (\<lambda>afs.
             bind_out (fs_add_string afs ''type_str'' (qtype_str type)) (\<lambda>afs.
             bind_out (fs_add_uint64 afs ''class'' (ucast class)) (\<lambda>afs.
             bind_out (fs_add_uint64 afs ''ttl'' (ucast ttl)) (\<lambda>afs.
             bind_out (fs_add_uint64 afs ''rdlength'' (of_nat rdlength)) (\<lambda>afs.
             bind_out (answer_rdata lib type (tail + 10) rdlength payload payload_len rdata afs) (\<lambda>afs.
             bind_out (fs_add_fieldset list None afs) (\<lambda>list.
               Inr (False, tail + 10 + rdlength, data_len - bytes_consumed - 10 - rdlength, list)))))))))))))))"

text \<open>The four sections: a list each, parsed until an error, with the cursor handed on.\<close>

fun section_loop ::
    "(nat \<Rightarrow> nat \<Rightarrow> fieldset \<Rightarrow> dns_cursor outcome) \<Rightarrow> nat \<Rightarrow> dns_cursor \<Rightarrow> dns_cursor outcome" where
  "section_loop step 0 c = Inr c"
| "section_loop step (Suc n) c =
     (case c of (err, data, data_len, list) \<Rightarrow>
        if err then Inr c else bind_out (step data data_len list) (section_loop step n))"

definition dns_section ::
    "(nat \<Rightarrow> nat \<Rightarrow> fieldset \<Rightarrow> dns_cursor outcome) \<Rightarrow> nat \<Rightarrow> bool \<Rightarrow> nat \<Rightarrow> nat \<Rightarrow> dns_cursor outcome" where
  "dns_section step count err data data_len = section_loop step count (err, data, data_len, fs_new_repeated_fieldset)"

text \<open>The whole message: the lists of the sections, the bytes left and whether anything was wrong.\<close>

definition dns_sections ::
    "text_lib \<Rightarrow> u8 list \<Rightarrow> nat \<Rightarrow> nat \<Rightarrow> nat \<Rightarrow> nat \<Rightarrow> nat \<Rightarrow> nat
     \<Rightarrow> (fieldset \<times> fieldset \<times> fieldset \<times> fieldset \<times> nat \<times> bool) outcome" where
  "dns_sections lib payload udp_len data_len qd an ns ar =
     (let question = (\<lambda>d l list. process_response_question lib d l payload udp_len list);
          answer = (\<lambda>d l list. process_response_answer lib d l payload udp_len list)
      in bind_out (dns_section question qd False 12 data_len) (\<lambda>(err, data, data_len, questions).
         bind_out (dns_section answer an err data data_len) (\<lambda>(err, data, data_len, answers).
         bind_out (dns_section answer ns err data data_len) (\<lambda>(err, data, data_len, authorities).
         bind_out (dns_section answer ar err data data_len) (\<lambda>(err, data, data_len, additionals).
           Inr (questions, answers, authorities, additionals, data_len, err \<or> data_len \<noteq> 0))))))"


section \<open>Adding fields\<close>

lemma fs_add_word_room:
  "\<lbrakk>fs_inner fs = None; length (fs_fields fs) + 1 < MAX_FIELDS\<rbrakk> \<Longrightarrow>
     fs_add_word fs name v = Inr (Fieldset None (fs_fields fs @ [(name, v)]))"
  by (simp add: fs_add_word_def)

text \<open>A set of named fields with room for \<open>k\<close> more.\<close>

definition fs_room :: "nat \<Rightarrow> fieldset \<Rightarrow> bool" where
  "fs_room k fs \<longleftrightarrow> fs_inner fs = None \<and> length (fs_fields fs) + k < MAX_FIELDS"

definition sanitizes :: "(string \<Rightarrow> nat option) \<Rightarrow> bool" where
  "sanitizes c \<longleftrightarrow> u8_laws c \<and> c [] = None"

text \<open>
  An outcome that is a value with a property, or the undefined copy of \<open>sanitize_utf8\<close>, which is possible
  only if \<open>U\<close> holds.
\<close>

definition settles :: "bool \<Rightarrow> 'a outcome \<Rightarrow> ('a \<Rightarrow> bool) \<Rightarrow> bool" where
  "settles U r P \<longleftrightarrow> (case r of Inl e \<Rightarrow> e = Undefined_value \<and> U | Inr x \<Rightarrow> P x)"

lemma settles_bind: "\<lbrakk>settles U r P; \<And>x. P x \<Longrightarrow> settles U (f x) Q\<rbrakk> \<Longrightarrow> settles U (bind_out r f) Q"
  by (cases r) (auto simp: settles_def)

lemma settlesE:
  assumes "settles U r P"
  obtains x where "r = Inr x" "P x" | "r = Inl Undefined_value" "U"
  using assms by (cases r) (auto simp: settles_def)

lemma settles_returns: "\<lbrakk>settles U r P; \<not> U\<rbrakk> \<Longrightarrow> \<exists>x. r = Inr x \<and> P x"
  by (cases r) (auto simp: settles_def)

lemma fs_room_add: "\<lbrakk>fs_room m fs; m = k + 1\<rbrakk> \<Longrightarrow> settles U (fs_add_word fs (Some n) v) (fs_room k)"
  by (simp add: fs_room_def fs_add_word_room settles_def)

lemma fs_room_adds:
  assumes "fs_room m fs" "m = k + 1"
  shows "settles U (fs_add_uint64 fs n u) (fs_room k)" "settles U (fs_add_string fs n s) (fs_room k)"
    "settles U (fs_add_binary fs n b) (fs_room k)"
  unfolding fs_add_uint64_def fs_add_string_def fs_add_binary_def by (rule fs_room_add [OF assms])+

lemma fs_room_text:
  assumes "fs_room m fs" "m = k + 1" "sanitizes c" "overlaps c s \<Longrightarrow> U"
  shows "settles U (fs_add_unsafe_string c fs n s) (fs_room k)"
proof (cases "c s = None")
  case True
  then show ?thesis using fs_room_add [OF assms(1,2)] by (simp add: fs_add_unsafe_string_def)
next
  case False
  have "settles U (sanitize_utf8 c s) (\<lambda>_. True)"
    using sanitize_utf8_spec [of c s] assms(3,4) by (auto simp: sanitizes_def settles_def split: if_splits)
  then have "settles U (bind_out (sanitize_utf8 c s) (\<lambda>safe. fs_add_word fs (Some n) (Str safe))) (fs_room k)"
    by (rule settles_bind) (rule fs_room_add [OF assms(1,2)])
  then show ?thesis using False unfolding fs_add_unsafe_string_def by (simp only: if_False)
qed

lemma fs_room_new: "k < 1024 \<Longrightarrow> fs_room k fs_new_fieldset"
  by (simp add: fs_room_def fs_new_fieldset_def MAX_FIELDS_def)

lemma raw_rdata_settles: "fs_room 2 afs \<Longrightarrow> settles U (raw_rdata afs r) (fs_room 0)"
  unfolding raw_rdata_def
  by (rule settles_bind, erule fs_room_adds(1) [where k = 1], simp, erule fs_room_adds(3)) simp

lemma text_rdata_settles:
  "\<lbrakk>fs_room 2 afs; sanitizes (u8_check lib); overlaps (u8_check lib) s \<Longrightarrow> U\<rbrakk> \<Longrightarrow> settles U (text_rdata lib afs s) (fs_room 0)"
  unfolding text_rdata_def
  by (rule settles_bind, erule fs_room_adds(1) [where k = 1], simp, erule fs_room_text) simp_all

text \<open>
  The texts that a message of \<open>n\<close> bytes can put into a record: names, the texts of MX records, of TXT
  records and of addresses. One of them is bad if it is repaired with the undefined copy.
\<close>

definition reply_text :: "text_lib \<Rightarrow> u8 list \<Rightarrow> nat \<Rightarrow> string \<Rightarrow> bool" where
  "reply_text lib payload n s \<longleftrightarrow>
     (\<exists>d l k. get_name d l payload n = Inr (Some (s, k)))
     \<or> (\<exists>d l k name pref. get_name d l payload n = Inr (Some (name, k)) \<and> s = mx_text pref name)
     \<or> (\<exists>d l. d + l \<le> n \<and> s \<in> {c_str (chars (drop 1 (take l (drop d payload)))), inet_ntoa (take l (drop d payload)),
          ntop6 lib (take l (drop d payload))})"

definition bad_text :: "text_lib \<Rightarrow> u8 list \<Rightarrow> nat \<Rightarrow> bool" where
  "bad_text lib payload n \<longleftrightarrow> (\<exists>s. reply_text lib payload n s \<and> overlaps (u8_check lib) s)"

lemma bad_name: "\<lbrakk>get_name d l payload n = Inr (Some (s, k)); overlaps (u8_check lib) s\<rbrakk> \<Longrightarrow> bad_text lib payload n"
  unfolding bad_text_def reply_text_def by (rule exI [of _ s], rule conjI, rule disjI1, (rule exI)+)

section \<open>Parsing a response stays inside it\<close>

lemma u16_at_returns: "p + 2 \<le> length mem \<Longrightarrow> \<exists>w. u16_at mem p = Inr w"
  by (simp add: u16_at_def bytes_at_def)

lemma u32_at_returns: "p + 4 \<le> length mem \<Longrightarrow> \<exists>w. u32_at mem p = Inr w"
  by (simp add: u32_at_def bytes_at_def)

text \<open>The cursor after a step: no byte past the end of the message, and a list of sets.\<close>

definition cursor_ok :: "nat \<Rightarrow> dns_cursor \<Rightarrow> bool" where
  "cursor_ok stop_at c \<longleftrightarrow> (case c of (err, data, data_len, list) \<Rightarrow>
     12 \<le> data \<and> data + data_len = stop_at \<and> fs_inner list = Some FS_FIELDSET)"

lemma fs_add_fieldset_list:
  "fs_inner list = Some FS_FIELDSET \<Longrightarrow> \<exists>list'. fs_add_fieldset list None fs = Inr list' \<and> fs_inner list' = Some FS_FIELDSET"
  by (simp add: fs_add_fieldset_def fs_add_word_def)

lemma question_step:
  assumes "sanitizes (u8_check lib)" "data + data_len \<le> payload_len" "payload_len \<le> length payload"
    "fs_inner list = Some FS_FIELDSET" "data + data_len = stop_at" "12 \<le> data"
  shows "settles (bad_text lib payload payload_len)
    (process_response_question lib data data_len payload payload_len list) (cursor_ok stop_at)"
proof -
  let ?U = "bad_text lib payload payload_len"
  have stop: "cursor_ok stop_at (True, data, data_len, list)" using assms(4-6) by (simp add: cursor_ok_def)
  obtain r where r: "get_name data data_len payload payload_len = Inr r"
    using get_name_returns [OF assms(2,3)] by auto
  show ?thesis
  proof (cases "r = None \<or> (\<exists>name n. r = Some (name, n) \<and> n + 4 > data_len)")
    case True
    then show ?thesis using stop by (auto simp: process_response_question_def r settles_def)
  next
    case False
    then obtain name n where nn: "r = Some (name, n)" "\<not> n + 4 > data_len" by (cases r) auto
    obtain qt qc where q: "u16_at payload (data + n) = Inr qt" "u16_at payload (data + n + 2) = Inr qc"
      using u16_at_returns [of "data + n" payload] u16_at_returns [of "data + n + 2" payload] nn(2) assms(2,3)
      by auto
    have U: "overlaps (u8_check lib) name \<Longrightarrow> ?U" by (rule bad_name [OF r [unfolded nn(1)]])
    have add: "settles ?U (bind_out (fs_add_fieldset list None qfs) (\<lambda>list.
        Inr (False, data + n + 4, data_len - n - 4, list))) (cursor_ok stop_at)" for qfs
      using fs_add_fieldset_list [OF assms(4), of qfs] nn(2) assms(5,6) by (auto simp: settles_def cursor_ok_def)
    show ?thesis
      unfolding process_response_question_def r nn(1) bind_out_simps option.case prod.case if_not_P [OF nn(2)] q
      by (rule settles_bind, rule fs_room_text [where k = 3, OF fs_room_new [of 4] _ assms(1) U], simp, simp, assumption,
          rule settles_bind, erule fs_room_adds(1) [where k = 2], simp,
          rule settles_bind, erule fs_room_adds(2) [where k = 1], simp,
          rule settles_bind, erule fs_room_adds(1) [where k = 0], simp, rule add)
  qed
qed

lemma answer_rdata_settles:
  assumes "sanitizes (u8_check lib)" "rd + rdlength \<le> payload_len" "payload_len \<le> length payload"
    "fs_room 2 afs" "rdata = take rdlength (drop rd payload)"
  shows "settles (bad_text lib payload payload_len)
    (answer_rdata lib type rd rdlength payload payload_len rdata afs) (fs_room 0)"
proof -
  let ?U = "bad_text lib payload payload_len"
  note raw = raw_rdata_settles [OF assms(4), of ?U rdata] and parsed = text_rdata_settles [OF assms(4,1)]
  have texts: "settles ?U (text_rdata lib afs s) (fs_room 0)" if "reply_text lib payload payload_len s" for s
    using parsed [of s ?U] that by (auto simp: bad_text_def)
  have slices: "reply_text lib payload payload_len (c_str (chars (drop 1 rdata)))"
    "reply_text lib payload payload_len (inet_ntoa rdata)" "reply_text lib payload payload_len (ntop6 lib rdata)"
    using assms(2,5) unfolding reply_text_def by blast+
  obtain r where r: "get_name rd rdlength payload payload_len = Inr r"
    using get_name_returns [OF assms(2,3)] by auto
  consider (n) "type = DNS_QTYPE_NS \<or> type = DNS_QTYPE_CNAME"
    | (m) "type \<noteq> DNS_QTYPE_NS" "type \<noteq> DNS_QTYPE_CNAME" "type = DNS_QTYPE_MX" "\<not> rdlength \<le> 4"
    | (x) "type \<noteq> DNS_QTYPE_NS" "type \<noteq> DNS_QTYPE_CNAME" "type = DNS_QTYPE_MX \<longrightarrow> rdlength \<le> 4" by blast
  then show ?thesis
  proof cases
    case n
    have "settles ?U (text_rdata lib afs nm) (fs_room 0)" if "r = Some (nm, k)" for nm k
      by (rule texts) (use r that in \<open>auto simp: reply_text_def\<close>)
    then show ?thesis using n raw by (auto simp: answer_rdata_def r split: option.splits)
  next
    case m
    have "rd + 2 + (rdlength - 2) \<le> payload_len" "rd + 2 \<le> length payload" using m(4) assms(2,3) by linarith+
    then obtain r' p where rp: "get_name (rd + 2) (rdlength - 2) payload payload_len = Inr r'" "u16_at payload rd = Inr p"
      using get_name_returns [OF _ assms(3)] u16_at_returns by blast
    have "settles ?U (text_rdata lib afs (mx_text p nm)) (fs_room 0)" if "r' = Some (nm, k)" for nm k
      by (rule texts) (use rp(1) that in \<open>unfold reply_text_def, blast\<close>)
    then show ?thesis using m raw rp by (auto simp: answer_rdata_def split: option.splits)
  next
    case x
    then show ?thesis using raw texts [OF slices(1)] texts [OF slices(2)] texts [OF slices(3)]
      by (auto simp: answer_rdata_def)
  qed
qed

lemma answer_step:
  assumes "sanitizes (u8_check lib)" "data + data_len \<le> payload_len" "payload_len \<le> length payload"
    "fs_inner list = Some FS_FIELDSET" "data + data_len = stop_at" "12 \<le> data"
  shows "settles (bad_text lib payload payload_len)
    (process_response_answer lib data data_len payload payload_len list) (cursor_ok stop_at)"
proof -
  let ?U = "bad_text lib payload payload_len"
  have stop: "cursor_ok stop_at (True, data, data_len, list)" using assms(4-6) by (simp add: cursor_ok_def)
  obtain r where r: "get_name data data_len payload payload_len = Inr r"
    using get_name_returns [OF assms(2,3)] by auto
  show ?thesis
  proof (cases "r = None \<or> (\<exists>name n. r = Some (name, n) \<and> n + 10 > data_len)")
    case True
    then show ?thesis using stop by (auto simp: process_response_answer_def r settles_def)
  next
    case False
    then obtain name n where nn: "r = Some (name, n)" "\<not> n + 10 > data_len" by (cases r) auto
    let ?t = "data + n"
    have "?t + 10 \<le> length payload" using nn(2) assms(2,3) by linarith
    then obtain ty cl ttl rl where w: "u16_at payload ?t = Inr ty" "u16_at payload (?t + 2) = Inr cl"
      "u32_at payload (?t + 4) = Inr ttl" "u16_at payload (?t + 8) = Inr rl"
      using u16_at_returns [of ?t payload] u16_at_returns [of "?t + 2" payload] u32_at_returns [of "?t + 4" payload]
        u16_at_returns [of "?t + 8" payload] by auto
    show ?thesis
    proof (cases "unat rl + n + 10 > data_len")
      case True
      then show ?thesis using stop nn(2)
        by (simp add: process_response_answer_def r nn(1) w Let_def settles_def del: add_2_eq_Suc' bind_out_eq_Inr)
    next
      case fits: False
      have b: "bytes_at payload (?t + 10) (unat rl) = Inr (take (unat rl) (drop (?t + 10) payload))"
        using fits assms(2,3) by (simp add: bytes_at_def)
      have U: "overlaps (u8_check lib) name \<Longrightarrow> ?U" by (rule bad_name [OF r [unfolded nn(1)]])
      have in_msg: "?t + 10 + unat rl \<le> payload_len" using fits assms(2) by linarith
      have add: "settles ?U (bind_out (fs_add_fieldset list None afs) (\<lambda>list.
          Inr (False, ?t + 10 + unat rl, data_len - n - 10 - unat rl, list))) (cursor_ok stop_at)" for afs
        using fs_add_fieldset_list [OF assms(4), of afs] fits assms(5,6) by (auto simp: settles_def cursor_ok_def)
      show ?thesis
        unfolding process_response_answer_def Let_def r nn(1) bind_out_simps option.case prod.case if_not_P [OF nn(2)] w
          if_not_P [OF fits] b
        by (rule settles_bind, rule fs_room_text [where k = 7, OF fs_room_new [of 8] _ assms(1) U], simp, simp, assumption,
            rule settles_bind, erule fs_room_adds(1) [where k = 6], simp,
            rule settles_bind, erule fs_room_adds(2) [where k = 5], simp,
            rule settles_bind, erule fs_room_adds(1) [where k = 4], simp,
            rule settles_bind, erule fs_room_adds(1) [where k = 3], simp,
            rule settles_bind, erule fs_room_adds(1) [where k = 2], simp,
            rule settles_bind, rule answer_rdata_settles [OF assms(1) in_msg assms(3) _ refl], assumption, rule add)
    qed
  qed
qed

lemma section_loop_ok:
  assumes "\<And>data data_len list. \<lbrakk>12 \<le> data; data + data_len = stop_at; fs_inner list = Some FS_FIELDSET\<rbrakk>
      \<Longrightarrow> settles U (step data data_len list) (cursor_ok stop_at)"
    "cursor_ok stop_at c"
  shows "settles U (section_loop step n c) (cursor_ok stop_at)"
  using assms(2)
proof (induction n arbitrary: c)
  case 0
  then show ?case by (simp add: settles_def)
next
  case (Suc n)
  obtain err data data_len list where c: "c = (err, data, data_len, list)" by (cases c) auto
  show ?case
  proof (cases err)
    case True
    then show ?thesis using Suc.prems c by (simp add: settles_def)
  next
    case False
    have "settles U (step data data_len list) (cursor_ok stop_at)"
      using assms(1) [of data data_len list] Suc.prems by (auto simp: c cursor_ok_def)
    then have "settles U (bind_out (step data data_len list) (section_loop step n)) (cursor_ok stop_at)"
      by (rule settles_bind) (rule Suc.IH)
    then show ?thesis using False by (simp add: c)
  qed
qed

lemma dns_section_ok:
  assumes "\<And>data data_len list. \<lbrakk>12 \<le> data; data + data_len = stop_at; fs_inner list = Some FS_FIELDSET\<rbrakk>
      \<Longrightarrow> settles U (step data data_len list) (cursor_ok stop_at)"
    "12 \<le> data" "data + data_len = stop_at"
  shows "settles U (dns_section step n err data data_len) (cursor_ok stop_at)"
proof -
  have "cursor_ok stop_at (err, data, data_len, fs_new_repeated_fieldset)"
    using assms(2,3) by (simp add: cursor_ok_def fs_new_repeated_fieldset_def fs_new_repeated_field_def)
  then show ?thesis unfolding dns_section_def by (rule section_loop_ok [rotated]) (rule assms(1))
qed

lemma dns_sections_settle:
  assumes "sanitizes (u8_check lib)" "udp_len \<le> length payload" "12 + data_len \<le> udp_len"
  shows "settles (bad_text lib payload udp_len) (dns_sections lib payload udp_len data_len qd an ns ar)
    (\<lambda>(qs, ans, auths, adds, left, err). left \<le> data_len \<and> (\<not> err \<longrightarrow> left = 0))"
proof -
  define stop_at where "stop_at = 12 + data_len"
  let ?U = "bad_text lib payload udp_len"
  let ?q = "\<lambda>d l list. process_response_question lib d l payload udp_len list"
  let ?a = "\<lambda>d l list. process_response_answer lib d l payload udp_len list"
  have q: "settles ?U (?q d l list) (cursor_ok stop_at)"
    if "12 \<le> d" "d + l = stop_at" "fs_inner list = Some FS_FIELDSET" for d l list
    by (rule question_step) (use that assms in \<open>simp_all add: stop_at_def\<close>)
  have a: "settles ?U (?a d l list) (cursor_ok stop_at)"
    if "12 \<le> d" "d + l = stop_at" "fs_inner list = Some FS_FIELDSET" for d l list
    by (rule answer_step) (use that assms in \<open>simp_all add: stop_at_def\<close>)
  have sec_a: "settles ?U (dns_section ?a n err d l) (cursor_ok stop_at)" if "cursor_ok stop_at (e, d, l, x)" for n err d l e x
    using that by (intro dns_section_ok [OF a]) (simp_all add: cursor_ok_def)
  have sec_q: "settles ?U (dns_section ?q n err 12 data_len) (cursor_ok stop_at)" for n err
    by (intro dns_section_ok [OF q]) (simp_all add: stop_at_def)
  let ?Q = "\<lambda>(qs, ans, auths, adds, left, err). left \<le> data_len \<and> (\<not> err \<longrightarrow> left = 0)"
  let ?f4 = "\<lambda>x1 x2 x3 (err, data, data_len, x4). Inr (x1, x2, x3, x4, data_len, err \<or> data_len \<noteq> 0)"
  let ?f3 = "\<lambda>x1 x2 (err, data, data_len, x3). bind_out (dns_section ?a ar err data data_len) (?f4 x1 x2 x3)"
  let ?f2 = "\<lambda>x1 (err, data, data_len, x2). bind_out (dns_section ?a ns err data data_len) (?f3 x1 x2)"
  let ?f1 = "\<lambda>(err, data, data_len, x1). bind_out (dns_section ?a an err data data_len) (?f2 x1)"
  have 4: "settles ?U (?f4 x1 x2 x3 c) ?Q" if "cursor_ok stop_at c" for x1 x2 x3 c
  proof -
    obtain err d l x4 where e: "c = (err, d, l, x4)" by (cases c)
    show ?thesis using that unfolding e prod.case by (simp add: settles_def cursor_ok_def stop_at_def)
  qed
  have 3: "settles ?U (?f3 x1 x2 c) ?Q" if c: "cursor_ok stop_at c" for x1 x2 c
  proof -
    obtain err d l x3 where e: "c = (err, d, l, x3)" by (cases c)
    show ?thesis unfolding e prod.case by (rule settles_bind [OF sec_a [OF c [unfolded e]] 4])
  qed
  have 2: "settles ?U (?f2 x1 c) ?Q" if c: "cursor_ok stop_at c" for x1 c
  proof -
    obtain err d l x2 where e: "c = (err, d, l, x2)" by (cases c)
    show ?thesis unfolding e prod.case by (rule settles_bind [OF sec_a [OF c [unfolded e]] 3])
  qed
  have 1: "settles ?U (?f1 c) ?Q" if c: "cursor_ok stop_at c" for c
  proof -
    obtain err d l x1 where e: "c = (err, d, l, x1)" by (cases c)
    show ?thesis unfolding e prod.case by (rule settles_bind [OF sec_a [OF c [unfolded e]] 2])
  qed
  show ?thesis unfolding dns_sections_def Let_def by (rule settles_bind [OF sec_q 1])
qed

text \<open>
  C27: If \<open>udp_len\<close> bytes from the DNS header on are in memory and the message behind the
  header is counted inside them, then whatever these bytes are and whatever counts the header has, the
  four sections are parsed without an assertion, a fatal message or a read outside; at most as many
  bytes are left as there were, and none if there is no error. The only other end is the undefined copy
  of \<open>sanitize_utf8\<close>, and then one of the texts of the message has more than two bytes after its first error.
\<close>

theorem dns_response_safe:
  assumes "sanitizes (u8_check lib)" "udp_len \<le> length payload" "12 + data_len \<le> udp_len"
  shows "(\<exists>qs ans auths adds left err.
      dns_sections lib payload udp_len data_len qd an ns ar = Inr (qs, ans, auths, adds, left, err)
      \<and> left \<le> data_len \<and> (\<not> err \<longrightarrow> left = 0))
    \<or> (dns_sections lib payload udp_len data_len qd an ns ar = Inl Undefined_value
      \<and> (\<exists>s. reply_text lib payload udp_len s \<and> overlaps (u8_check lib) s))"
  using dns_sections_settle [OF assms] by (rule settlesE) (auto simp: bad_text_def)

text \<open>A question whose name is a pointer to itself.\<close>

definition ex_text_lib :: text_lib where
  "ex_text_lib = \<lparr>u8_check = (\<lambda>_. None), ntop6 = (\<lambda>_. '''')\<rparr>"

text \<open>The checker of the examples accepts every string.\<close>

lemma ex_text_lib_sanitizes: "sanitizes (u8_check ex_text_lib)"
  by (simp add: sanitizes_def ex_text_lib_def u8_laws_def)

lemma ex_text_lib_clean: "\<not> overlaps (u8_check ex_text_lib) s" "\<not> bad_text ex_text_lib payload n"
  by (simp_all add: bad_text_def overlaps_def ex_text_lib_def)

theorem dns_response_safe_witness:
  "\<exists>r. dns_sections ex_text_lib (dns_query_header @ [0xC0, 12, 0, 1, 0, 1]) 18 6 1 0 0 0 = Inr r"
  using dns_response_safe [OF ex_text_lib_sanitizes, of 18 "dns_query_header @ [0xC0, 12, 0, 1, 0, 1]" 6 1 0 0 0]
  by (auto simp: dns_query_header_def ex_text_lib_clean)

text \<open>
  The code passes the length of the whole UDP datagram for the length of the DNS message, eight bytes
  too many. So a pointer to just behind the message reads past its end.
\<close>

lemma dns_overread:
  assumes "length header = 12" "14 \<le> k" "k < 22"
  shows "dns_sections lib (header @ [0xC0, of_nat k]) (14 + 8) 2 (Suc qd) an ns ar = Inl Out_of_bounds"
proof -
  let ?p = "header @ [0xC0, of_nat k]"
  have b: "byte_at ?p 12 = Inr 0xC0" "byte_at ?p 13 = Inr (of_nat k)" using assms(1) by (simp_all add: byte_at_def nth_append)
  have o: "pointer_offset 0xC0 (of_nat k) = k"
    using pointer_offset_10_bits [of k] assms(3) by simp
  have k: "byte_at ?p k = Inl Out_of_bounds" using assms(1,2) by (simp add: byte_at_def)
  have r: "get_name_loop ?p 22 k (22 - k) n 1 m name = Inl Out_of_bounds" for n m name
    using assms(3) k by (subst get_name_loop.simps) simp
  have "get_name_loop ?p 22 12 2 511 0 0 [] = Inl Out_of_bounds"
    using assms(3) b o r by (subst get_name_loop.simps) (simp add: enters_def MAX_LABEL_RECURSION_def)
  then show ?thesis
    by (simp add: dns_sections_def dns_section_def process_response_question_def get_name_def get_name_helper_def
      enters_def MAX_NAME_LENGTH_def)
qed

section \<open>What a query asks is what is read from it\<close>

lemma strchr_append: "c \<notin> set a \<Longrightarrow> strchr c (a @ c # b) = Some (length a)"
  by (induction a) auto

lemma strchr_None: "c \<notin> set a \<Longrightarrow> strchr c a = None"
  by (induction a) auto

text \<open>The text of the option for a list of types and domains, the domains as lists of labels.\<close>

fun probe_args_text :: "(string \<times> string list) list \<Rightarrow> string" where
  "probe_args_text [] = []"
| "probe_args_text [(t, ls)] = t @ CHR '','' # join_labels ls"
| "probe_args_text ((t, ls) # p # ps) = t @ CHR '','' # join_labels ls @ CHR '';'' # probe_args_text (p # ps)"

definition proper_question :: "string \<times> string list \<Rightarrow> bool" where
  "proper_question p \<longleftrightarrow> (case p of (t, ls) \<Rightarrow>
     t \<noteq> [] \<and> CHR '','' \<notin> set t \<and> CHR '';'' \<notin> set t \<and> qtype_str_to_code (strupr t) \<noteq> 0
     \<and> ls \<noteq> [] \<and> proper_labels ls \<and> (\<forall>l \<in> set ls. dot \<notin> set l \<and> CHR 0x00 \<notin> set l)
     \<and> CHR '';'' \<notin> set (join_labels ls) \<and> length (join_labels ls) \<le> 494)"

definition asked :: "string \<times> string list \<Rightarrow> string \<times> u16" where
  "asked p = (case p of (t, ls) \<Rightarrow> (join_labels ls, qtype_str_to_code (strupr t)))"

lemma join_labels_not_empty: "\<lbrakk>ls \<noteq> []; proper_labels ls\<rbrakk> \<Longrightarrow> join_labels ls \<noteq> []"
  by (cases ls) (auto simp: join_labels_Cons proper_labels_def)

lemma probe_args_text_Cons:
  "ps \<noteq> [] \<Longrightarrow> probe_args_text ((t, ls) # ps) = t @ CHR '','' # join_labels ls @ CHR '';'' # probe_args_text ps"
  by (cases ps) auto

lemma parse_probe_args_text:
  assumes "ps \<noteq> []" "\<forall>p \<in> set ps. proper_question p" "args = before @ probe_args_text ps"
  shows "parse_probe_args (length ps) args (length before) = Inr (map asked ps, length args + 2)"
  using assms
proof (induction ps arbitrary: before)
  case (Cons p ps)
  obtain t ls where p: "p = (t, ls)" by (cases p)
  let ?d = "join_labels ls"
  have G: "t \<noteq> []" "CHR '','' \<notin> set t" "CHR '';'' \<notin> set t" "qtype_str_to_code (strupr t) \<noteq> 0" "CHR '';'' \<notin> set ?d"
    using Cons.prems(2) by (auto simp: p proper_question_def)
  have d: "?d \<noteq> []" using Cons.prems(2) join_labels_not_empty by (auto simp: p proper_question_def)
  show ?case
  proof (cases "ps = []")
    case True
    have a: "args = before @ t @ CHR '','' # ?d" using Cons.prems(3) by (simp add: True p)
    have "strchr (CHR '';'') (t @ CHR '','' # ?d) = None" using G by (intro strchr_None) auto
    then show ?thesis using G(1,4) d
      by (simp add: True a strchr_append [OF G(2)] asked_def p Let_def del: bind_out_eq_Inr)
  next
    case False
    let ?r = "probe_args_text ps"
    have a: "args = before @ t @ CHR '','' # ?d @ CHR '';'' # ?r"
      using Cons.prems(3) by (simp add: p probe_args_text_Cons [OF False])
    have s: "strchr (CHR '';'') (t @ CHR '','' # ?d @ CHR '';'' # ?r) = Some (length t + 1 + length ?d)"
      using strchr_append [of "CHR '';''" "t @ CHR '','' # ?d" ?r] G by simp
    have "parse_probe_args (length ps) args (length (before @ t @ CHR '','' # ?d @ [CHR '';'']))
        = Inr (map asked ps, length args + 2)"
      by (rule Cons.IH [OF False]) (use Cons.prems(2) a in simp_all)
    then show ?thesis using G(1,4) d False
      by (simp add: a s strchr_append [OF G(2)] asked_def p Let_def add_ac nat_add_distrib del: bind_out_eq_Inr)
  qed
qed simp

text \<open>The packet of one question, and what reading it back gives.\<close>

definition query_of :: "string \<times> u16 \<Rightarrow> u8 list \<Rightarrow> bool" where
  "query_of q packet \<longleftrightarrow>
     12 < length packet \<and> length packet \<le> DNS_SEND_LEN
     \<and> (\<forall>lib list. u8_check lib (fst q) = None \<longrightarrow>
         process_response_question lib 12 (length packet - 12) packet (length packet) list
         = bind_out (fs_add_fieldset list None (Fieldset None
             [(Some ''name'', Str (fst q)), (Some ''qtype'', Uint (ucast (snd q))),
              (Some ''qtype_str'', Str (qtype_str (snd q))), (Some ''qclass'', Uint 1)]))
             (\<lambda>list. Inr (False, length packet, 0, list)))"

lemma u16_at_net_bytes: "p = length a \<Longrightarrow> u16_at (a @ net_bytes w @ b) p = Inr w"
proof -
  have "(push_bit 8 (ucast (ucast (drop_bit 8 w) :: u8)) OR ucast (ucast w :: u8) :: u16) = w"
    by (rule bit_word_eqI) (auto simp: bit_simps)
  then show "p = length a \<Longrightarrow> ?thesis" by (simp add: u16_at_def bytes_at_def net_bytes_def)
qed

lemma build_packet_query:
  assumes "proper_question p"
  shows "\<exists>packet qlen qname. build_packet (fst (asked p)) (snd (asked p)) = Inr (packet, length packet, qlen, qname)
    \<and> query_of (asked p) packet"
proof -
  obtain t ls where p: "p = (t, ls)" by (cases p)
  let ?d = "join_labels ls" and ?c = "qtype_str_to_code (strupr t)"
  have G: "ls \<noteq> []" "proper_labels ls" "\<forall>l \<in> set ls. dot \<notin> set l \<and> CHR 0x00 \<notin> set l" "length ?d \<le> 494"
    using assms by (auto simp: p proper_question_def)
  let ?q = "wire_labels ls @ [CHR 0x00]"
  have q: "domain_to_qname ?d = Inr (length ?d + 2, ?q)"
    using G by (intro domain_to_qname_labels) (auto simp: proper_labels_def)
  have lq: "length (wire_labels ls) = length ?d + 1" using length_wire_labels [of ls] length_dotted [OF G(1)] by simp
  let ?p = "dns_query_header @ bytes_of ?q @ net_bytes ?c @ net_bytes 1"
  have lp: "length ?p = length ?d + 18" by (simp add: dns_query_header_def net_bytes_def lq bytes_of_def)
  have b: "build_packet ?d ?c = Inr (?p, length ?p, length ?d + 2, ?q)"
    using G(4) lp by (simp add: build_packet_def q DNS_SEND_LEN_def del: bind_out_eq_Inr)
  have n: "get_name (length dns_query_header) (length ?p - 12) ?p (length ?p) = Inr (Some (?d, length ?d + 2))"
    by (rule get_name_qname [OF G(1-3) _ q]) (use G(4) lp in \<open>simp_all add: dns_query_header_def\<close>)
  have e: "?p = (dns_query_header @ bytes_of ?q) @ net_bytes ?c @ net_bytes 1"
    "?p = (dns_query_header @ bytes_of ?q @ net_bytes ?c) @ net_bytes 1 @ []" by simp_all
  have t: "u16_at ?p (12 + (length ?d + 2)) = Inr ?c"
    unfolding e(1) by (rule u16_at_net_bytes) (simp add: dns_query_header_def lq bytes_of_def)
  have c: "u16_at ?p (12 + (length ?d + 2) + 2) = Inr 1"
    unfolding e(2) by (rule u16_at_net_bytes) (simp add: dns_query_header_def lq bytes_of_def net_bytes_def)
  have h12: "length dns_query_header = 12" by (simp add: dns_query_header_def)
  have n12: "get_name 12 (length ?p - 12) ?p (length ?p) = Inr (Some (?d, length ?d + 2))"
    using n unfolding h12 .
  have "query_of (?d, ?c) ?p"
    unfolding query_of_def process_response_question_def n12
    using t c lp G(4)
    by (simp add: DNS_SEND_LEN_def fs_add_unsafe_string_def fs_add_uint64_def fs_add_string_def fs_add_word_def
        fs_new_fieldset_def MAX_FIELDS_def del: bind_out_eq_Inr add_2_eq_Suc' add_2_eq_Suc)
  then show ?thesis using b by (auto simp: asked_def p)
qed

lemma build_global_queries:
  assumes "\<forall>p \<in> set ps. proper_question p"
  shows "\<exists>st. build_global_dns_packets (map asked ps) = Inr st \<and> length (dns_packets st) = length ps
    \<and> dns_packet_lens st = map length (dns_packets st) \<and> qtypes st = map (snd \<circ> asked) ps
    \<and> (\<forall>i < length ps. query_of (asked (ps ! i)) (dns_packets st ! i))"
  using assms
proof (induction ps)
  case (Cons p ps)
  obtain st where st: "build_global_dns_packets (map asked ps) = Inr st" "length (dns_packets st) = length ps"
    "dns_packet_lens st = map length (dns_packets st)" "qtypes st = map (snd \<circ> asked) ps"
    "\<forall>i < length ps. query_of (asked (ps ! i)) (dns_packets st ! i)" using Cons by auto
  obtain packet qlen qname where p: "build_packet (fst (asked p)) (snd (asked p)) = Inr (packet, length packet, qlen, qname)"
    "query_of (asked p) packet" using build_packet_query [of p] Cons.prems by auto
  obtain d c where a: "asked p = (d, c)" by (cases "asked p")
  show ?case using st p by (auto simp: a nth_Cons' One_nat_def)
qed simp

text \<open>
  C28: For \<open>n\<close> questions, each a supported type and a domain of at most 494 characters
  with no empty label, no label of 192 characters or more and no semicolon, the option text
  \<open>T,D;T,D;...\<close> with \<open>n\<close> streams sets up \<open>n\<close> packets of at most 512 bytes, and the code's own parser of
  questions reads from the \<open>i\<close>-th exactly the \<open>i\<close>-th domain and type, with class 1, and consumes it all.
\<close>

theorem dns_query_roundtrip:
  assumes "ps \<noteq> []" "\<forall>p \<in> set ps. proper_question p"
  shows "\<exists>st. dns_global_init (int (length ps)) (Some (probe_args_text ps)) = Inr st
    \<and> length (dns_packets st) = length ps \<and> dns_packet_lens st = map length (dns_packets st)
    \<and> (\<forall>i < length ps. query_of (asked (ps ! i)) (dns_packets st ! i))"
proof -
  have "parse_probe_args (length ps) (probe_args_text ps) 0 = Inr (map asked ps, length (probe_args_text ps) + 2)"
    using parse_probe_args_text [OF assms, of _ "[]"] by simp
  moreover have "\<not> int (length ps) < 1" using assms(1) by (cases ps) auto
  ultimately have "dns_global_init (int (length ps)) (Some (probe_args_text ps)) = build_global_dns_packets (map asked ps)"
    by (simp add: dns_global_init_def del: bind_out_eq_Inr)
  then show ?thesis using build_global_queries [OF assms(2)] by auto
qed

theorem dns_query_roundtrip_witness:
  "\<exists>st. dns_global_init 2 (Some ''a,qq.com;mx,example.org'') = Inr st
    \<and> query_of (''qq.com'', 1) (dns_packets st ! 0) \<and> query_of (''example.org'', 15) (dns_packets st ! 1)"
proof -
  let ?ps = "[(''a'', [''qq'', ''com'']), (''mx'', [''example'', ''org''])]"
  have t: "qtype_str_to_code (strupr ''a'') = 1" "qtype_str_to_code (strupr ''mx'') = 15" by code_simp+
  have "qtype_str_to_code (strupr ''a'') \<noteq> 0" "qtype_str_to_code (strupr ''mx'') \<noteq> 0" by code_simp+
  then have "\<forall>p \<in> set ?ps. proper_question p"
    by (simp add: proper_question_def proper_labels_def dot_def numeral_2_eq_2)
  from dns_query_roundtrip [OF _ this] obtain st where st:
    "dns_global_init (int (length ?ps)) (Some (probe_args_text ?ps)) = Inr st"
    "\<forall>i < length ?ps. query_of (asked (?ps ! i)) (dns_packets st ! i)" by auto
  have "query_of (asked (?ps ! 0)) (dns_packets st ! 0)" "query_of (asked (?ps ! 1)) (dns_packets st ! 1)"
    using st(2) by auto
  then have "query_of (''qq.com'', 1) (dns_packets st ! 0)" "query_of (''example.org'', 15) (dns_packets st ! 1)"
    using t by (simp_all add: asked_def dot_def One_nat_def)
  moreover have "int (length ?ps) = 2" "probe_args_text ?ps = ''a,qq.com;mx,example.org''" by (simp_all add: dot_def)
  ultimately show ?thesis using st(1) by auto
qed

text \<open>Types that the module does not support print as type A, since the table of names starts at zero.\<close>

lemma qtype_str_unsupported:
  "w \<in> {3, 33, 41, 43, 48, 252} \<Longrightarrow> qtype_str w = ''A''"
  by (elim insertE emptyE; hypsubst) code_simp+

text \<open>The name of a mail exchange whose preference has five digits is lost.\<close>

lemma show_dec_length: "10 ^ k \<le> n \<Longrightarrow> k < length (show_dec n)"
proof (induction k arbitrary: n)
  case 0
  then show ?case by (subst show_dec.simps) simp
next
  case (Suc k)
  have "(10 :: nat) \<le> 10 ^ Suc k" by simp
  then have "\<not> n < 10" using Suc.prems by linarith
  moreover have "10 ^ k \<le> n div 10" using div_le_mono [OF Suc.prems, of 10] by simp
  ultimately show ?case using Suc.IH [of "n div 10"] by (subst show_dec.simps) simp
qed

lemma mx_text_long:
  assumes "10000 \<le> unat pref"
  shows "mx_text pref name = c_str (take 5 (show_dec (unat pref)))"
proof -
  let ?s = "show_dec (unat pref)"
  have l: "4 < length ?s" using show_dec_length [of 4 "unat pref"] assms by simp
  let ?b = "take 5 ?s @ CHR 0x00 # replicate (1 + length name) (CHR 0x00)"
  have cut: "c_str (take 5 ?s @ CHR 0x00 # r) = c_str (take 5 ?s)" for r
    by (simp add: c_str_def takeWhile_tail)
  have b: "take 5 (?s @ '' '') @ drop (length (take 5 (?s @ '' ''))) (replicate (5 + 1 + length name + 1) (CHR 0x00)) = ?b"
    using l by (simp add: eval_nat_numeral)
  have "take (length (?s @ '' '')) ?b = take 5 ?s @ CHR 0x00 # take (length ?s - 5) (replicate (1 + length name) (CHR 0x00))"
    using l by (simp add: min_def Suc_diff_le eval_nat_numeral)
  then show ?thesis unfolding mx_text_def Let_def b by (simp only: append_assoc append_Cons cut)
qed

end
