(* ===== verification/Packet.thy ===== *)
theory Packet
  imports HMap_Prelude "HOL-Library.Signed_Division"
begin

text \<open>
  The packet helpers of \<open>src/probe_modules/packet.c\<close> and \<open>packet.h\<close>: the headers that are written into
  the send buffer, the Internet checksums, and the fields that are derived from the validation bytes.
  A buffer is a list of bytes and a pointer into it a position. The host is little-endian, as the bit
  fields of the source assume.
\<close>

declare One_nat_def [simp del]

section \<open>Buffers\<close>

text \<open>Bytes written at a position; network byte order; a 16-bit word as the host reads it.\<close>

definition put_at :: "nat \<Rightarrow> u8 list \<Rightarrow> u8 list \<Rightarrow> u8 list" where
  "put_at p bs buf = take p buf @ bs @ drop (p + length bs) buf"

definition htons_bytes :: "u16 \<Rightarrow> u8 list" where
  "htons_bytes w = [ucast (drop_bit 8 w), ucast w]"

definition host_bytes :: "u16 \<Rightarrow> u8 list" where
  "host_bytes w = [ucast w, ucast (drop_bit 8 w)]"

definition ntohs_at :: "u8 list \<Rightarrow> nat \<Rightarrow> u16" where
  "ntohs_at buf p = push_bit 8 (ucast (buf ! p)) OR ucast (buf ! (p + 1))"

definition host16 :: "u8 \<Rightarrow> u8 \<Rightarrow> nat" where
  "host16 lo hi = unat lo + 256 * unat hi"

section \<open>Headers\<close>

definition ETHERTYPE_IP :: u16 where "ETHERTYPE_IP = 0x0800"
definition ETHERTYPE_IPV6 :: u16 where "ETHERTYPE_IPV6 = 0x86DD"
definition IPPROTO_ICMP :: u8 where "IPPROTO_ICMP = 1"
definition IPPROTO_TCP :: u8 where "IPPROTO_TCP = 6"
definition IPPROTO_UDP :: u8 where "IPPROTO_UDP = 17"
definition IPPROTO_ICMPV6 :: u8 where "IPPROTO_ICMPV6 = 58"
definition MAXTTL :: u8 where "MAXTTL = 255"

definition make_eth_header_ethertype :: "nat \<Rightarrow> u8 list \<Rightarrow> u8 list \<Rightarrow> u16 \<Rightarrow> u8 list \<Rightarrow> u8 list" where
  "make_eth_header_ethertype p src dst ethertype buf =
     put_at (p + 12) (htons_bytes ethertype) (put_at p (take 6 dst) (put_at (p + 6) (take 6 src) buf))"

definition make_eth_header :: "nat \<Rightarrow> u8 list \<Rightarrow> u8 list \<Rightarrow> u8 list \<Rightarrow> u8 list" where
  "make_eth_header p src dst buf = make_eth_header_ethertype p src dst ETHERTYPE_IP buf"

definition make_eth6_header :: "nat \<Rightarrow> u8 list \<Rightarrow> u8 list \<Rightarrow> u8 list \<Rightarrow> u8 list" where
  "make_eth6_header p src dst buf = make_eth_header_ethertype p src dst ETHERTYPE_IPV6 buf"

text \<open>Version and header length, service, length, identification, fragment offset, time to live,
  protocol, checksum.\<close>

definition make_ip_header :: "nat \<Rightarrow> u8 \<Rightarrow> u16 \<Rightarrow> u8 list \<Rightarrow> u8 list" where
  "make_ip_header p protocol ip_len buf =
     put_at p ([0x45, 0] @ htons_bytes ip_len @ htons_bytes 54321 @ [0, 0] @ [MAXTTL, protocol, 0, 0]) buf"

definition make_ip6_header :: "nat \<Rightarrow> u8 \<Rightarrow> u16 \<Rightarrow> u8 list \<Rightarrow> u8 list" where
  "make_ip6_header p protocol pl_len buf =
     put_at (p + 4) (htons_bytes pl_len @ [protocol, MAXTTL]) (put_at p [0x60] buf)"

definition make_icmp6_header :: "nat \<Rightarrow> u8 list \<Rightarrow> u8 list" where
  "make_icmp6_header p buf = put_at p [128, 0, 0, 0] buf"

definition make_icmp_header :: "nat \<Rightarrow> u8 list \<Rightarrow> u8 list" where
  "make_icmp_header p buf = put_at p [8, 0, 0, 0] buf"

text \<open>The sequence number is what \<open>random\<close> returns, in host order.\<close>

definition make_tcp_header :: "nat \<Rightarrow> u32 \<Rightarrow> u16 \<Rightarrow> u8 list \<Rightarrow> u8 list" where
  "make_tcp_header p rand th_flags buf =
     put_at (p + 4) ([ucast rand, ucast (drop_bit 8 rand), ucast (drop_bit 16 rand), ucast (drop_bit 24 rand)]
       @ [0, 0, 0, 0] @ [0x50, ucast th_flags] @ htons_bytes 65535 @ [0, 0] @ [0, 0]) buf"

definition make_udp_header :: "nat \<Rightarrow> u16 \<Rightarrow> u8 list \<Rightarrow> u8 list" where
  "make_udp_header p l buf = put_at (p + 4) (htons_bytes l @ [0, 0]) buf"

section \<open>Checksums\<close>

text \<open>
  The sums of 16-bit words, a last single byte counted as the low one. The accumulator is an
  \<open>unsigned long\<close>; at most \<open>2 ^ 16\<close> words below \<open>2 ^ 16\<close> are added, so it does not overflow.
\<close>

fun sum_words :: "u8 list \<Rightarrow> nat \<Rightarrow> nat" where
  "sum_words (lo # hi # w) nleft =
     (if nleft > 1 then host16 lo hi + sum_words w (nleft - 2)
      else if nleft > 0 then unat lo else 0)"
| "sum_words w nleft = 0"

definition fold_sum :: "nat \<Rightarrow> u16" where
  "fold_sum s = (let s = s div 65536 + s mod 65536; s = s + s div 65536 in NOT (of_nat s))"

text \<open>A loop over \<open>nleft\<close> bytes reads whole words.\<close>

definition words_in :: "nat \<Rightarrow> u8 list \<Rightarrow> bool" where
  "words_in nleft w \<longleftrightarrow> 2 * ((nleft + 1) div 2) \<le> length w"

definition in_checksum :: "u8 list \<Rightarrow> nat \<Rightarrow> u16 outcome" where
  "in_checksum ip_pkt l =
     (if 2 * (l div 2) \<le> length ip_pkt then Inr (fold_sum (sum_words ip_pkt (2 * (l div 2))))
      else Inl Out_of_bounds)"

definition ip_checksum' :: "u8 list \<Rightarrow> u16 outcome" where
  "ip_checksum' buf = in_checksum buf 20"

definition SIZEOF_ICMP :: nat where "SIZEOF_ICMP = 28"

definition icmp_checksum' :: "u8 list \<Rightarrow> u16 outcome" where
  "icmp_checksum' buf = in_checksum buf SIZEOF_ICMP"

definition icmp_checksum :: "u8 list \<Rightarrow> nat \<Rightarrow> u16 outcome" where
  "icmp_checksum icmp_pkt data_len =
     (let nleft = (SIZEOF_ICMP + data_len) mod 65536
      in if words_in nleft icmp_pkt then Inr (fold_sum (sum_words icmp_pkt nleft)) else Inl Out_of_bounds)"

text \<open>The pseudo header: both addresses, the length as it is in the packet, the protocol.\<close>

definition pseudo_sum :: "u8 list \<Rightarrow> u8 list \<Rightarrow> nat \<Rightarrow> u8 \<Rightarrow> nat" where
  "pseudo_sum saddr daddr len_net proto =
     sum_words saddr (length saddr) + sum_words daddr (length daddr) + len_net + host16 0 proto"

definition net16 :: "nat \<Rightarrow> nat" where
  "net16 l = host16 (of_nat (l div 256)) (of_nat l)"

definition icmp6_checksum :: "u8 list \<Rightarrow> u8 list \<Rightarrow> u8 list \<Rightarrow> nat \<Rightarrow> u16 outcome" where
  "icmp6_checksum saddr daddr icmp6_pkt data_len =
     (let nleft = (8 + data_len) mod 65536
      in if words_in nleft icmp6_pkt
         then Inr (fold_sum (sum_words icmp6_pkt nleft + pseudo_sum saddr daddr (net16 nleft) IPPROTO_ICMPV6))
         else Inl Out_of_bounds)"

definition udp_checksum :: "u8 list \<Rightarrow> u8 list \<Rightarrow> u8 list \<Rightarrow> u16 outcome" where
  "udp_checksum saddr daddr udp_pkt =
     (if length udp_pkt < 6 then Inl Out_of_bounds
      else let nleft = unat (ntohs_at udp_pkt 4)
           in if words_in nleft udp_pkt
              then Inr (fold_sum (sum_words udp_pkt nleft
                     + pseudo_sum saddr daddr (host16 (udp_pkt ! 4) (udp_pkt ! 5)) IPPROTO_UDP))
              else Inl Out_of_bounds)"

text \<open>The version for IPv6 differs in the length of the addresses only.\<close>

definition udp6_checksum :: "u8 list \<Rightarrow> u8 list \<Rightarrow> u8 list \<Rightarrow> u16 outcome" where
  "udp6_checksum saddr daddr udp_pkt = udp_checksum saddr daddr udp_pkt"

definition tcp_checksum :: "u16 \<Rightarrow> u8 list \<Rightarrow> u8 list \<Rightarrow> u8 list \<Rightarrow> u16 outcome" where
  "tcp_checksum len_tcp saddr daddr tcp_pkt =
     (let nleft = unat len_tcp
      in if words_in nleft tcp_pkt
         then Inr (fold_sum (sum_words tcp_pkt nleft + pseudo_sum saddr daddr (net16 nleft) IPPROTO_TCP))
         else Inl Out_of_bounds)"

definition tcp6_checksum :: "u8 list \<Rightarrow> u8 list \<Rightarrow> u8 list \<Rightarrow> u16 \<Rightarrow> u16 outcome" where
  "tcp6_checksum saddr daddr tcp_pkt len_tcp = tcp_checksum len_tcp saddr daddr tcp_pkt"

section \<open>Fields derived from the validation bytes\<close>

record port_conf =
  source_port_first :: u16
  source_port_last :: u16
  packet_streams :: int

text \<open>The first two validation bytes as a number; \<open>smod\<close> is the remainder of C.\<close>

definition val16 :: "u8 list \<Rightarrow> int" where
  "val16 validation = 256 * uint (validation ! 0) + uint (validation ! 1)"

definition check_src_port :: "port_conf \<Rightarrow> u16 \<Rightarrow> int \<Rightarrow> u8 list \<Rightarrow> bool" where
  "check_src_port c sport num_ports validation =
     (if sport > source_port_last c \<or> sport < source_port_first c then False
      else
        let to_validate = uint sport - uint (source_port_first c);
            lo = val16 validation smod num_ports;
            hi = (val16 validation + packet_streams c - 1) smod num_ports
        in (hi - lo) smod num_ports \<ge> (to_validate - lo) smod num_ports)"

text \<open>The same code again.\<close>

definition check_dns_src_port :: "port_conf \<Rightarrow> u16 \<Rightarrow> int \<Rightarrow> u8 list \<Rightarrow> bool" where
  "check_dns_src_port c sport num_ports validation =
     (if sport > source_port_last c \<or> sport < source_port_first c then False
      else
        let to_validate = uint sport - uint (source_port_first c);
            lo = val16 validation smod num_ports;
            hi = (val16 validation + packet_streams c - 1) smod num_ports
        in (hi - lo) smod num_ports \<ge> (to_validate - lo) smod num_ports)"

definition get_src_port :: "port_conf \<Rightarrow> int \<Rightarrow> int \<Rightarrow> u8 list \<Rightarrow> u16" where
  "get_src_port c num_ports probe_num validation =
     word_of_int (uint (source_port_first c) + (val16 validation + probe_num) smod num_ports)"

definition get_icmp_idnum :: "u8 list \<Rightarrow> u16" where
  "get_icmp_idnum validation = push_bit 8 (ucast (validation ! 0)) + ucast (validation ! 1)"

definition get_icmp_seqnum :: "u8 list \<Rightarrow> u16" where
  "get_icmp_seqnum validation = push_bit 8 (ucast (validation ! 2)) + ucast (validation ! 3)"

definition get_tcp_seqnum :: "u8 list \<Rightarrow> u32" where
  "get_tcp_seqnum validation = push_bit 24 (ucast (validation ! 0)) + push_bit 16 (ucast (validation ! 1))
     + push_bit 8 (ucast (validation ! 2)) + ucast (validation ! 3)"

definition get_dns_txid :: "u8 list \<Rightarrow> u16" where
  "get_dns_txid validation = push_bit 8 (ucast (validation ! 0)) + ucast (validation ! 1)"

definition check_dns_txid :: "u16 \<Rightarrow> u8 list \<Rightarrow> bool" where
  "check_dns_txid txid validation \<longleftrightarrow> txid = get_dns_txid validation"

definition get_dnsa_txid :: "u8 list \<Rightarrow> int \<Rightarrow> u16" where
  "get_dnsa_txid validation probe_num =
     push_bit 8 (ucast (validation ! 0)) + ucast (validation ! 1) + word_of_int probe_num"

definition check_dnsa_txid :: "port_conf \<Rightarrow> u16 \<Rightarrow> u8 list \<Rightarrow> bool" where
  "check_dnsa_txid c txid validation =
     (let txid_min = get_dnsa_txid validation 0;
          txid_max = get_dnsa_txid validation (packet_streams c);
          (txid_min, txid_max) =
            (if txid_min > txid_max
             then let txid_min = txid_max; txid_max = txid_min in (txid_min, txid_max)
             else (txid_min, txid_max))
      in txid \<ge> txid_min \<and> txid \<le> txid_max)"


section \<open>Sums of words\<close>

lemma host16_less: "host16 lo hi < 65536"
  using unat_u8_less [of lo] unat_u8_less [of hi] by (simp add: host16_def)

text \<open>Two neighbouring bytes at an even place, zero before, add their word.\<close>

lemma sum_words_update:
  assumes "even p" "p + 1 < n" "n \<le> length w" "w ! p = 0" "w ! (p + 1) = 0"
  shows "sum_words (w[p := lo, p + 1 := hi]) n = sum_words w n + host16 lo hi"
  using assms
proof (induction w n arbitrary: p rule: sum_words.induct)
  case (1 a b w n)
  show ?case
  proof (cases p)
    case 0
    then show ?thesis using "1.prems" by (simp add: host16_def One_nat_def)
  next
    case (Suc q)
    then obtain r where r: "p = r + 2" using "1.prems"(1) by (cases q) (auto simp: One_nat_def)
    have "sum_words (w[r := lo, r + 1 := hi]) (n - 2) = sum_words w (n - 2) + host16 lo hi"
      by (rule "1.IH") (use "1.prems" r in auto)
    then show ?thesis using "1.prems"(2) r by (simp add: numeral_2_eq_2 One_nat_def)
  qed
qed (auto simp: One_nat_def)

text \<open>The two folding steps give the remainder modulo \<open>2 ^ 16 - 1\<close>, with the larger of the two
  representatives of 0 unless the sum is 0.\<close>

lemma fold_sum_value:
  assumes "s < 2 ^ 32"
  shows "\<exists>f. fold_sum s = NOT (of_nat f) \<and> f < 65536 \<and> (s = 0 \<longleftrightarrow> f = 0) \<and> 65535 dvd int s - int f"
proof -
  define x where "x = s div 65536 + s mod 65536"
  define f where "f = (x + x div 65536) mod 65536"
  have x: "x \<le> 131070" using assms unfolding x_def by (simp add: div_less_iff_less_mult)
  have s: "s = 65536 * (s div 65536) + s mod 65536" by simp
  have ds: "int s - int x = 65535 * int (s div 65536)" using s unfolding x_def by linarith
  have "fold_sum s = NOT (of_nat (x + x div 65536))" by (simp add: fold_sum_def Let_def x_def)
  also have "(of_nat (x + x div 65536) :: u16) = of_nat f"
    unfolding f_def by (simp only: word_of_nat_eq_iff take_bit_eq_mod) simp
  finally have v: "fold_sum s = NOT (of_nat f)" .
  have q: "x div 65536 = 0 \<or> x div 65536 = 1" using x by linarith
  have f: "int f = int x - 65535 * int (x div 65536)"
  proof (rule disjE [OF q])
    assume "x div 65536 = 0"
    then show ?thesis using x unfolding f_def by (simp add: div_eq_0_iff)
  next
    assume "x div 65536 = 1"
    moreover obtain y where "x = 65536 + y" "y < 65535"
      using x \<open>x div 65536 = 1\<close> by (intro that [of "x - 65536"]) linarith+
    ultimately have "x + x div 65536 = (y + 1) + 65536" "y < 65535" "x = 65536 + y" by simp_all
    then have "f = y + 1" unfolding f_def by (simp only: mod_add_self2) simp
    then show ?thesis using \<open>x div 65536 = 1\<close> \<open>x = 65536 + y\<close> by simp
  qed
  have "(s = 0) = (f = 0)"
  proof
    assume "f = 0"
    then have "int x = 65535 * int (x div 65536)" using f by simp
    then have "x = 0" using q by auto
    then show "s = 0" using s by (simp add: x_def)
  qed (simp add: f_def x_def)
  moreover have "int s - int f = 65535 * (int (s div 65536) + int (x div 65536))"
    using ds f unfolding distrib_left by linarith
  then have "65535 dvd int s - int f" by (simp only: dvd_triv_left)
  moreover have "f < 65536" by (simp add: f_def)
  ultimately show ?thesis using v by blast
qed

text \<open>Adding the checksum to the sum it was made from makes the next one 0.\<close>

lemma fold_sum_verifies:
  assumes "s < 2 ^ 32 - 2 ^ 16"
  shows "fold_sum (s + unat (fold_sum s)) = 0"
proof -
  obtain f where f: "fold_sum s = NOT (of_nat f)" "f < 65536" "s = 0 \<longleftrightarrow> f = 0" "65535 dvd int s - int f"
    using fold_sum_value [of s] assms by auto
  have u: "int (unat (fold_sum s)) = 65535 - int f"
  proof -
    have "NOT (of_nat f :: u16) = of_nat (65535 - f)"
      using f(2) by (simp add: not_eq_complement of_nat_diff One_nat_def)
    moreover have "unat (of_nat (65535 - f) :: u16) = 65535 - f"
      using f(2) by (simp only: unat_of_nat) (simp add: take_bit_nat_eq_self)
    ultimately have "unat (NOT (of_nat f :: u16)) = 65535 - f" by simp
    then show ?thesis using f(1,2) by simp
  qed
  let ?t = "s + unat (fold_sum s)"
  have "?t < 2 ^ 32" using assms unsigned_less [of "fold_sum s", where ?'a = nat] by simp
  then obtain g where g: "fold_sum ?t = NOT (of_nat g)" "g < 65536" "?t = 0 \<longleftrightarrow> g = 0" "65535 dvd int ?t - int g"
    using fold_sum_value [of ?t] by auto
  have "int ?t = (int s - int f) + 65535" using u by linarith
  then have "65535 dvd int ?t" using dvd_add [OF f(4) dvd_refl] by (simp only:)
  then have "65535 dvd int g" using dvd_diff [OF _ g(4), of "int ?t"] by simp
  moreover have "?t \<noteq> 0"
  proof
    assume "?t = 0"
    then have "f = 0" using f(3) by simp
    then show False using \<open>int ?t = (int s - int f) + 65535\<close> \<open>?t = 0\<close> by linarith
  qed
  moreover from this have "g \<noteq> 0" using g(3) by metis
  ultimately have "65535 \<le> int g" by (intro zdvd_imp_le) simp_all
  then have "g = 65535" using g(2) by simp
  then show ?thesis using g(1) by (simp add: One_nat_def)
qed

lemma sum_words_bound: "2 * sum_words w n \<le> 65535 * (n + 1)"
proof (induction w n rule: sum_words.induct)
  case (1 a b w n)
  show ?case
  proof (cases "n > 1")
    case True
    then have "2 * sum_words w (n - 2) \<le> 65535 * (n - 2 + 1)" by (rule "1.IH")
    then show ?thesis using True host16_less [of a b] by simp
  qed (use unat_u8_less [of a] in auto)
qed simp_all

lemma host16_bytes [simp]: "host16 (ucast c) (ucast (drop_bit 8 c)) = unat (c :: u16)"
proof -
  have u: "unat c < 65536" using unsigned_less [of c, where ?'a = nat] by simp
  then have "unat (ucast c :: u8) = unat c mod 256" "unat (ucast (drop_bit 8 c) :: u8) = unat c div 256 mod 256"
    by (simp_all only: unsigned_ucast_eq unsigned_drop_bit_eq)
      (simp_all add: take_bit_eq_mod drop_bit_eq_div div_less_iff_less_mult)
  then show ?thesis using u by (simp add: host16_def div_less_iff_less_mult)
qed

text \<open>A checksum stored where a zero was.\<close>

definition store_sum :: "nat \<Rightarrow> u16 \<Rightarrow> u8 list \<Rightarrow> u8 list" where
  "store_sum p c w = w[p := ucast c, p + 1 := ucast (drop_bit 8 c)]"

lemma length_store_sum [simp]: "length (store_sum p c w) = length w"
  by (simp add: store_sum_def)

lemma words_in_store_sum [simp]: "words_in n (store_sum p c w) = words_in n w"
  by (simp add: words_in_def)

lemma nth_store_sum: "i < p \<or> p + 1 < i \<Longrightarrow> store_sum p c w ! i = w ! i"
  by (auto simp: store_sum_def)

lemma sum_words_store_sum:
  assumes "even p" "p + 1 < n" "words_in n w" "w ! p = 0" "w ! (p + 1) = 0"
  shows "sum_words (store_sum p c w) n = sum_words w n + unat c"
proof -
  have "n \<le> length w" using assms(3) by (simp add: words_in_def)
  then show ?thesis using sum_words_update [OF assms(1,2) _ assms(4,5)] by (simp add: store_sum_def)
qed

lemma fold_sum_store:
  assumes "even p" "p + 1 < n" "words_in n w" "w ! p = 0" "w ! (p + 1) = 0"
    "n < 65536" "x < 2 ^ 21" "c = fold_sum (sum_words w n + x)"
  shows "fold_sum (sum_words (store_sum p c w) n + x) = 0"
proof -
  have "65535 * (n + 1) \<le> 65535 * 65536" using assms(6) by (intro mult_le_mono2) simp
  then have "2 * sum_words w n \<le> 65535 * 65536" using sum_words_bound [of w n] by linarith
  then have "sum_words w n + x < 2 ^ 32 - 2 ^ 16" using assms(7) by simp
  then show ?thesis
    using fold_sum_verifies [of "sum_words w n + x"] sum_words_store_sum [OF assms(1-5), of c] assms(8)
    by (simp add: ac_simps)
qed

lemma pseudo_sum_bound:
  assumes "length saddr \<le> 16" "length daddr \<le> 16" "l < 65536"
  shows "pseudo_sum saddr daddr l proto < 2 ^ 21"
  using sum_words_bound [of saddr "length saddr"] sum_words_bound [of daddr "length daddr"]
    host16_less [of 0 proto] assms by (simp add: pseudo_sum_def)

lemma net16_less: "net16 l < 65536"
  by (simp add: net16_def host16_less)

lemma ntohs_at_store_sum: "p + 1 < i \<or> i + 1 < p \<Longrightarrow> ntohs_at (store_sum p c w) i = ntohs_at w i"
  by (auto simp: ntohs_at_def nth_store_sum)

text \<open>C22: The receiver's check of every checksum the sender makes succeeds. When the checksum
  field is zero and the computed checksum is stored in it, the same sum over the same bytes is 0: for
  the IPv4 header, for ICMP and ICMPv6 messages, and for UDP and TCP segments under both IP versions.\<close>

theorem checksums_verify:
  assumes "length saddr \<le> 16" "length daddr \<le> 16"
  shows "(length hdr = 20 \<longrightarrow> hdr ! 10 = 0 \<longrightarrow> hdr ! 11 = 0 \<longrightarrow> ip_checksum' hdr = Inr c
      \<longrightarrow> ip_checksum' (store_sum 10 c hdr) = Inr 0)
    \<and> (n < 60000 \<longrightarrow> pkt ! 2 = 0 \<longrightarrow> pkt ! 3 = 0 \<longrightarrow> icmp_checksum pkt n = Inr c
      \<longrightarrow> icmp_checksum (store_sum 2 c pkt) n = Inr 0)
    \<and> (n < 60000 \<longrightarrow> pkt ! 2 = 0 \<longrightarrow> pkt ! 3 = 0 \<longrightarrow> icmp6_checksum saddr daddr pkt n = Inr c
      \<longrightarrow> icmp6_checksum saddr daddr (store_sum 2 c pkt) n = Inr 0)
    \<and> (8 \<le> ntohs_at pkt 4 \<longrightarrow> pkt ! 6 = 0 \<longrightarrow> pkt ! 7 = 0 \<longrightarrow> udp_checksum saddr daddr pkt = Inr c
      \<longrightarrow> udp_checksum saddr daddr (store_sum 6 c pkt) = Inr 0)
    \<and> (20 \<le> l \<longrightarrow> pkt ! 16 = 0 \<longrightarrow> pkt ! 17 = 0 \<longrightarrow> tcp_checksum l saddr daddr pkt = Inr c
      \<longrightarrow> tcp_checksum l saddr daddr (store_sum 16 c pkt) = Inr 0)"
proof (intro conjI impI)
  assume h: "length hdr = 20" "hdr ! 10 = 0" "hdr ! 11 = 0" "ip_checksum' hdr = Inr c"
  then show "ip_checksum' (store_sum 10 c hdr) = Inr 0"
    using fold_sum_store [of 10 20 hdr 0] by (auto simp: ip_checksum'_def in_checksum_def words_in_def)
next
  assume "n < 60000" "pkt ! 2 = 0" "pkt ! 3 = 0" "icmp_checksum pkt n = Inr c"
  then show "icmp_checksum (store_sum 2 c pkt) n = Inr 0"
    using fold_sum_store [of 2 "28 + n" pkt 0]
    by (auto simp: icmp_checksum_def Let_def SIZEOF_ICMP_def split: if_splits)
next
  assume "n < 60000" "pkt ! 2 = 0" "pkt ! 3 = 0" "icmp6_checksum saddr daddr pkt n = Inr c"
  then show "icmp6_checksum saddr daddr (store_sum 2 c pkt) n = Inr 0"
    using fold_sum_store [of 2 "8 + n" pkt "pseudo_sum saddr daddr (net16 (8 + n)) IPPROTO_ICMPV6"]
      pseudo_sum_bound [OF assms net16_less]
    by (auto simp: icmp6_checksum_def Let_def split: if_splits)
next
  assume h: "8 \<le> ntohs_at pkt 4" "pkt ! 6 = 0" "pkt ! 7 = 0" "udp_checksum saddr daddr pkt = Inr c"
  have "8 \<le> unat (ntohs_at pkt 4)" using h(1) by (simp add: word_le_nat_alt)
  moreover have "unat (ntohs_at pkt 4) < 65536" using unsigned_less [of "ntohs_at pkt 4", where ?'a = nat] by simp
  ultimately show "udp_checksum saddr daddr (store_sum 6 c pkt) = Inr 0"
    using h(2-4) fold_sum_store [of 6 "unat (ntohs_at pkt 4)" pkt]
      pseudo_sum_bound [OF assms host16_less]
    by (auto simp: udp_checksum_def Let_def ntohs_at_store_sum nth_store_sum split: if_splits)
next
  assume h: "20 \<le> l" "pkt ! 16 = 0" "pkt ! 17 = 0" "tcp_checksum l saddr daddr pkt = Inr c"
  have "20 \<le> unat l" using h(1) by (simp add: word_le_nat_alt)
  moreover have "unat l < 65536" using unsigned_less [of l, where ?'a = nat] by simp
  ultimately show "tcp_checksum l saddr daddr (store_sum 16 c pkt) = Inr 0"
    using h(2-4) fold_sum_store [of 16 "unat l" pkt] pseudo_sum_bound [OF assms net16_less]
    by (auto simp: tcp_checksum_def Let_def split: if_splits)
qed

text \<open>A UDP header to port 53 with one byte of data.\<close>

definition ex_udp :: "u8 list" where
  "ex_udp = [0x80, 0, 0, 53, 0, 9, 0, 0, 7, 0]"

theorem checksums_verify_witness:
  "\<exists>c. udp_checksum [10, 0, 0, 1] [192, 0, 2, 1] ex_udp = Inr c
     \<and> udp_checksum [10, 0, 0, 1] [192, 0, 2, 1] (store_sum 6 c ex_udp) = Inr 0"
proof -
  obtain c where c: "udp_checksum [10, 0, 0, 1] [192, 0, 2, 1] ex_udp = Inr c"
    by (simp add: udp_checksum_def ex_udp_def ntohs_at_def words_in_def Let_def One_nat_def)
  have "8 \<le> ntohs_at ex_udp 4" "ex_udp ! 6 = 0" "ex_udp ! 7 = 0"
    by (simp_all add: ex_udp_def ntohs_at_def One_nat_def)
  with c show ?thesis using checksums_verify [of "[10, 0, 0, 1]" "[192, 0, 2, 1]" _ c _ ex_udp] by simp
qed

section \<open>Source ports and transaction numbers\<close>

lemma val16_bounds: "0 \<le> val16 v" "val16 v < 65536"
  using unsigned_less [of "v ! 0", where ?'a = int] unsigned_less [of "v ! 1", where ?'a = int]
  by (simp_all add: val16_def)

text \<open>The comparison of the two remainders is a comparison of the offsets.\<close>

lemma check_src_port_iff:
  assumes "num_ports = uint (source_port_last c) - uint (source_port_first c) + 1"
    "0 < num_ports" "1 \<le> packet_streams c"
  shows "check_src_port c sport num_ports v \<longleftrightarrow> source_port_first c \<le> sport \<and> sport \<le> source_port_last c
    \<and> uint sport - uint (source_port_first c) \<le> (val16 v + packet_streams c - 1) mod num_ports"
proof -
  let ?t = "uint sport - uint (source_port_first c)"
  let ?lo = "val16 v mod num_ports" and ?hi = "(val16 v + packet_streams c - 1) mod num_ports"
  have r: "val16 v smod num_ports = ?lo" "(val16 v + packet_streams c - 1) smod num_ports = ?hi"
    using assms(2,3) val16_bounds [of v] by (simp_all add: smod_mod_positive)
  have small: "x smod num_ports = x" if "\<bar>x\<bar> < num_ports" for x
    using that by (simp add: smod_int_alt_def abs_sgn_eq mult_sgn_abs mod_pos_pos_trivial)
  have lo: "0 \<le> ?lo" "?lo < num_ports" "0 \<le> ?hi" "?hi < num_ports" using assms(2) by simp_all
  show ?thesis
  proof (cases "source_port_first c \<le> sport \<and> sport \<le> source_port_last c")
    case True
    then have "uint (source_port_first c) \<le> uint sport" "uint sport \<le> uint (source_port_last c)"
      using True by (simp_all add: word_le_def)
    then have t: "0 \<le> ?t" "?t < num_ports" using assms(1) by linarith+
    have "(?hi - ?lo) smod num_ports = ?hi - ?lo" "(?t - ?lo) smod num_ports = ?t - ?lo"
      using lo t by (intro small; linarith)+
    then show ?thesis using True by (auto simp: check_src_port_def Let_def r)
  next
    case False
    then show ?thesis by (auto simp: check_src_port_def not_le)
  qed
qed

lemma wrap1: "\<lbrakk>n \<le> a; a < 2 * n\<rbrakk> \<Longrightarrow> a mod n = a - (n :: int)"
  using mod_pos_pos_trivial [of "a - n" n] by simp

lemma get_src_port_offset:
  assumes "num_ports = uint (source_port_last c) - uint (source_port_first c) + 1"
    "0 < num_ports" "0 \<le> k"
  shows "uint (get_src_port c num_ports k v)
      = uint (source_port_first c) + (val16 v + k) mod num_ports"
proof -
  have m: "(val16 v + k) smod num_ports = (val16 v + k) mod num_ports"
    using assms(2,3) val16_bounds [of v] by (simp add: smod_mod_positive)
  have "0 \<le> (val16 v + k) mod num_ports" "(val16 v + k) mod num_ports < num_ports" using assms(2) by simp_all
  moreover have "uint (source_port_last c) < 65536" using unsigned_less [of "source_port_last c", where ?'a = int] by simp
  ultimately have b: "0 \<le> uint (source_port_first c) + (val16 v + k) mod num_ports"
    "uint (source_port_first c) + (val16 v + k) mod num_ports < 2 ^ 16"
    using assms(1) by simp_all
  then have "take_bit 16 (uint (source_port_first c) + (val16 v + k) mod num_ports)
      = uint (source_port_first c) + (val16 v + k) mod num_ports"
    by (rule take_bit_int_eq_self)
  then show ?thesis
    by (simp only: get_src_port_def m uint_word_of_int_eq) simp
qed

lemma check_get_src_port:
  assumes "num_ports = uint (source_port_last c) - uint (source_port_first c) + 1"
    "0 < num_ports" "0 \<le> k" "k < packet_streams c" "packet_streams c \<le> num_ports"
  shows "check_src_port c (get_src_port c num_ports k v) num_ports v
    \<longleftrightarrow> val16 v mod num_ports + packet_streams c - 1 < num_ports \<or> num_ports \<le> val16 v mod num_ports + k"
proof -
  let ?lo = "val16 v mod num_ports" and ?f = "uint (source_port_first c)"
  let ?p = "get_src_port c num_ports k v"
  have p: "uint ?p = ?f + (val16 v + k) mod num_ports"
    by (rule get_src_port_offset [OF assms(1-3)])
  have wrap: "(val16 v + x) mod num_ports = (if ?lo + x < num_ports then ?lo + x else ?lo + x - num_ports)"
    if "0 \<le> x" "x < num_ports" for x
  proof -
    have "(val16 v + x) mod num_ports = (?lo + x) mod num_ports" by (simp add: mod_simps)
    moreover have b: "0 \<le> ?lo" "?lo + x < 2 * num_ports"
      using that(2) pos_mod_bound [OF assms(2), of "val16 v"] pos_mod_sign [OF assms(2), of "val16 v"] by linarith+
    ultimately show ?thesis using that wrap1 [OF _ b(2)]
      by (cases "?lo + x < num_ports") (simp_all add: mod_pos_pos_trivial)
  qed
  have l: "0 \<le> ?lo" "?lo < num_ports" using assms(2) by simp_all
  have "?f \<le> uint ?p" "uint ?p \<le> uint (source_port_last c)"
    using p assms(1,2) pos_mod_bound [OF assms(2), of "val16 v + k"] pos_mod_sign [OF assms(2), of "val16 v + k"]
    by linarith+
  then have "source_port_first c \<le> ?p" "?p \<le> source_port_last c" by (simp_all add: word_le_def)
  then have "check_src_port c ?p num_ports v \<longleftrightarrow> (val16 v + k) mod num_ports \<le> (val16 v + (packet_streams c - 1)) mod num_ports"
    using check_src_port_iff [OF assms(1,2)] assms(3,4) p by (simp add: add_diff_eq)
  then show ?thesis using assms(3-5) l by (auto simp: wrap)
qed

text \<open>A reply to the \<open>k\<close>-th probe of a target comes to the port that probe was
  sent from. It is accepted exactly when the ports of the streams do not wrap around the end of the
  range, or this probe's port has itself wrapped: when the range of a target wraps, the replies to
  its probes before the end of the range are dropped.\<close>

lemma check_src_port_own:
  assumes "num_ports = uint (source_port_last c) - uint (source_port_first c) + 1"
    "0 < num_ports" "0 \<le> k" "k < packet_streams c" "packet_streams c \<le> num_ports"
  shows "check_src_port c (get_src_port c num_ports k v) num_ports v
    \<longleftrightarrow> val16 v mod num_ports + packet_streams c - 1 < num_ports \<or> num_ports \<le> val16 v mod num_ports + k"
  by (rule check_get_src_port [OF assms])

definition ex_ports :: port_conf where
  "ex_ports = \<lparr>source_port_first = 32768, source_port_last = 32777, packet_streams = 4\<rparr>"

lemma check_src_port_own_example:
  "check_src_port ex_ports (get_src_port ex_ports 10 1 [0, 3]) 10 [0, 3]
   \<and> \<not> check_src_port ex_ports (get_src_port ex_ports 10 1 [0, 8]) 10 [0, 8]"
  using check_src_port_own [of 10 ex_ports 1 "[0, 3]"] check_src_port_own [of 10 ex_ports 1 "[0, 8]"]
  by (simp add: ex_ports_def val16_def One_nat_def)

text \<open>
  The accepted ports are all those from the first of the range up to the one of the last stream, since
  the remainder of a negative offset is negative and so never too large. No probe is sent from the ports
  below that of the first stream.
\<close>

lemma check_src_port_up_to:
  assumes "num_ports = uint (source_port_last c) - uint (source_port_first c) + 1"
    "0 < num_ports" "1 \<le> packet_streams c"
  shows "check_src_port c sport num_ports v
    \<longleftrightarrow> source_port_first c \<le> sport \<and> sport \<le> get_src_port c num_ports (packet_streams c - 1) v"
proof -
  have "uint (get_src_port c num_ports (packet_streams c - 1) v)
      = uint (source_port_first c) + (val16 v + packet_streams c - 1) mod num_ports"
    using get_src_port_offset [OF assms(1,2), of "packet_streams c - 1" v] assms(3) by (simp add: add_diff_eq)
  moreover have "(val16 v + packet_streams c - 1) mod num_ports < num_ports" using assms(2) by simp
  ultimately show ?thesis
    unfolding check_src_port_iff [OF assms] word_le_def using assms(1) by auto
qed

lemma check_src_port_unused_example:
  "check_src_port (ex_ports\<lparr>packet_streams := 1\<rparr>) 32768 10 [0, 5]
   \<and> get_src_port (ex_ports\<lparr>packet_streams := 1\<rparr>) 10 0 [0, 5] = 32773"
  by code_simp

text \<open>The check of the transaction number of the DNS modules accepts the numbers
  of all the streams, and one more, unless they wrap around \<open>2 ^ 16\<close>. Then it accepts only the
  number after the last stream's, so every valid reply is dropped.\<close>

lemma check_dnsa_txid_range:
  assumes "0 \<le> packet_streams c" "packet_streams c < 65536"
  shows "check_dnsa_txid c txid v \<longleftrightarrow>
    (if val16 v + packet_streams c < 65536
     then val16 v \<le> uint txid \<and> uint txid \<le> val16 v + packet_streams c
     else uint txid = val16 v + packet_streams c - 65536)"
proof -
  have base: "push_bit 8 (ucast a) + ucast b = (word_of_int (256 * uint a + uint b) :: u16)" for a b :: u8
    by (simp add: push_bit_eq_mult mult.commute unsigned_ucast_eq flip: word_of_int_uint)
  have id: "get_dnsa_txid v k = word_of_int (val16 v + k)" for k
    by (simp add: get_dnsa_txid_def base val16_def)
  have u: "uint (word_of_int x :: u16) = x mod 65536" for x
    by (simp add: uint_word_of_int_eq take_bit_eq_mod)
  have lo: "uint (get_dnsa_txid v 0) = val16 v" using val16_bounds [of v] by (simp add: id u)
  have hi: "uint (get_dnsa_txid v (packet_streams c)) =
      (if val16 v + packet_streams c < 65536 then val16 v + packet_streams c else val16 v + packet_streams c - 65536)"
    unfolding id u using val16_bounds [of v] assms by (auto simp: mod_pos_pos_trivial wrap1)
  have le: "a \<le> b \<longleftrightarrow> uint a \<le> uint b" for a b :: u16 by (simp add: word_le_def)
  have lt: "a < b \<longleftrightarrow> uint a < uint b" for a b :: u16 by (simp add: word_less_def)
  show ?thesis
    using val16_bounds [of v] assms unfolding check_dnsa_txid_def Let_def le lt
    by (auto simp: lo hi)
qed

lemma check_dnsa_txid_example:
  "check_dnsa_txid ex_ports 259 [1, 2] \<and> \<not> check_dnsa_txid ex_ports 65535 [255, 254]"
  using check_dnsa_txid_range [of ex_ports 259 "[1, 2]"] check_dnsa_txid_range [of ex_ports 65535 "[255, 254]"]
  by (simp add: ex_ports_def val16_def One_nat_def)

end
