(* ===== verification/Bloom.thy ===== *)
theory Bloom
  imports Interfaces
begin

text \<open>
  The Bloom filter of \<open>lib/bloom.c\<close>, with which the receiver recognises repeated replies. The array of
  bits is a list of bytes; a filter on disk has the whole mapped file in it. The sizes that the code
  computes in floating point are parameters, the probability is its bit pattern.
\<close>

declare One_nat_def [simp del]

section \<open>The filter\<close>

definition BLOOM_SUCCESS :: int where "BLOOM_SUCCESS = 0"
definition BLOOM_FAILURE :: int where "BLOOM_FAILURE = - 1"

text \<open>A null pointer selects the default hash function; another function is known by a number.\<close>

datatype hash_id = Default_hash | Given_hash nat

record bloom_filter =
  estimated_elements :: u64
  false_positive_probability :: u32
  number_hashes :: u32
  number_bits :: u64
  bloom :: "u8 list"
  bloom_length :: nat
  elements_added :: u64
  hash_function :: hash_id
  is_on_disk :: bool

text \<open>
  Floating point: the numbers of hashes and bits for a number of elements and a probability, whether
  the probability is between 0 and 1, and the estimate of the elements from the bits; and the hash
  functions that are given.
\<close>

record bloom_math =
  optimal_sizes :: "u64 \<Rightarrow> u32 \<Rightarrow> u32 \<times> u64"
  probability_ok :: "u32 \<Rightarrow> bool"
  estimate_by_values :: "u64 \<Rightarrow> u64 \<Rightarrow> u32 \<Rightarrow> u64"
  given_hashes :: "nat \<Rightarrow> nat \<Rightarrow> u8 list \<Rightarrow> nat \<Rightarrow> u64 list"

section \<open>Hashing\<close>

fun fnv_loop :: "u64 \<Rightarrow> u8 list \<Rightarrow> u64" where
  "fnv_loop h [] = h"
| "fnv_loop h (c # key) = fnv_loop ((h XOR ucast c) * 1099511628211) key"

definition fnv_1a :: "u8 list \<Rightarrow> nat \<Rightarrow> u64 outcome" where
  "fnv_1a key len =
     (if len > length key then Inl Out_of_bounds
      else Inr (fnv_loop 14695981039346656073 (take len key)))"

text \<open>A number printed in hexadecimal, and printing into a buffer.\<close>

definition hex_digit :: "nat \<Rightarrow> u8" where
  "hex_digit d = (if d < 10 then of_nat (48 + d) else of_nat (87 + d))"

fun show_hex :: "nat \<Rightarrow> u8 list" where
  "show_hex n = (if n < 16 then [hex_digit n] else show_hex (n div 16) @ [hex_digit (n mod 16)])"

declare show_hex.simps [simp del]

definition print_hex :: "u8 list \<Rightarrow> u64 \<Rightarrow> u8 list" where
  "print_hex key w = (let s = show_hex (unat w) in s @ [0] @ drop (length s + 1) key)"

text \<open>Every further hash is the hash of the text of the last one, with the length of the original string.\<close>

fun hash_chain :: "nat \<Rightarrow> u64 \<Rightarrow> u8 list \<Rightarrow> nat \<Rightarrow> u64 list outcome" where
  "hash_chain 0 h key len = Inr []"
| "hash_chain (Suc n) h key len =
     (let key = print_hex key h in
      bind_out (fnv_1a key len) (\<lambda>h. bind_out (hash_chain n h key len) (\<lambda>hs. Inr (h # hs))))"

definition default_hash :: "nat \<Rightarrow> u8 list \<Rightarrow> nat \<Rightarrow> u64 list outcome" where
  "default_hash num_hashes str len =
     (if num_hashes = 0 then Inl Out_of_bounds
      else bind_out (fnv_1a str len) (\<lambda>h.
             bind_out (hash_chain (num_hashes - 1) h (replicate 32 0) len) (\<lambda>hs. Inr (h # hs))))"

definition bloom_filter_calculate_hashes ::
    "bloom_math \<Rightarrow> bloom_filter \<Rightarrow> u8 list \<Rightarrow> nat \<Rightarrow> nat \<Rightarrow> u64 list outcome" where
  "bloom_filter_calculate_hashes fp bf str n len =
     (case hash_function bf of
        Default_hash \<Rightarrow> default_hash n str len
      | Given_hash i \<Rightarrow> Inr (given_hashes fp i n str len))"

section \<open>Making a filter\<close>

text \<open>The number of bytes is computed in floating point too, exactly below \<open>2 ^ 53\<close> bits.\<close>

definition calculate_optimal_hashes :: "bloom_math \<Rightarrow> bloom_filter \<Rightarrow> bloom_filter" where
  "calculate_optimal_hashes fp bf =
     (case optimal_sizes fp (estimated_elements bf) (false_positive_probability bf) of
        (k, m) \<Rightarrow> bf\<lparr>number_hashes := k, number_bits := m, bloom_length := (unat m + 7) div 8\<rparr>)"

definition bloom_filter_set_hash_function :: "bloom_filter \<Rightarrow> hash_id \<Rightarrow> bloom_filter" where
  "bloom_filter_set_hash_function bf f = bf\<lparr>hash_function := f\<rparr>"

definition bloom_filter_init_alt ::
    "bloom_math \<Rightarrow> bloom_filter \<Rightarrow> u64 \<Rightarrow> u32 \<Rightarrow> hash_id \<Rightarrow> int \<times> bloom_filter" where
  "bloom_filter_init_alt fp bf estimated rate f =
     (if estimated = 0 \<or> \<not> probability_ok fp rate then (BLOOM_FAILURE, bf)
      else
        let bf = calculate_optimal_hashes fp
                   (bf\<lparr>estimated_elements := estimated, false_positive_probability := rate\<rparr>);
            bf = bf\<lparr>bloom := replicate (bloom_length bf + 1) 0, elements_added := 0\<rparr>
        in (BLOOM_SUCCESS, (bloom_filter_set_hash_function bf f)\<lparr>is_on_disk := False\<rparr>))"

definition bloom_filter_destroy :: "bloom_filter \<Rightarrow> int \<times> bloom_filter" where
  "bloom_filter_destroy bf =
     (BLOOM_SUCCESS, bf\<lparr>bloom := [], elements_added := 0, estimated_elements := 0,
        false_positive_probability := 0, number_hashes := 0, number_bits := 0,
        hash_function := Default_hash, is_on_disk := False\<rparr>)"

definition bloom_filter_clear :: "bloom_filter \<Rightarrow> (int \<times> bloom_filter) outcome" where
  "bloom_filter_clear bf =
     (if bloom_length bf > length (bloom bf) then Inl Out_of_bounds
      else Inr (BLOOM_SUCCESS, bf\<lparr>bloom := replicate (bloom_length bf) 0 @ drop (bloom_length bf) (bloom bf),
                                  elements_added := 0\<rparr>))"

section \<open>Adding and checking\<close>

text \<open>A remainder by zero has no value.\<close>

fun set_bits :: "u64 \<Rightarrow> u8 list \<Rightarrow> u64 list \<Rightarrow> u8 list outcome" where
  "set_bits nb bl [] = Inr bl"
| "set_bits nb bl (h # hs) =
     (if nb = 0 then Inl Undefined_value
      else let k = unat (h mod nb)
           in if k div 8 \<ge> length bl then Inl Out_of_bounds
              else set_bits nb (bl[k div 8 := bl ! (k div 8) OR push_bit (k mod 8) 1]) hs)"

fun check_bits :: "u64 \<Rightarrow> u8 list \<Rightarrow> u64 list \<Rightarrow> int outcome" where
  "check_bits nb bl [] = Inr BLOOM_SUCCESS"
| "check_bits nb bl (h # hs) =
     (if nb = 0 then Inl Undefined_value
      else let k = unat (h mod nb)
           in if k div 8 \<ge> length bl then Inl Out_of_bounds
              else if (bl ! (k div 8)) AND push_bit (k mod 8) 1 = 0 then Inr BLOOM_FAILURE
              else check_bits nb bl hs)"

text \<open>Little-endian bytes; the counter is 12 bytes before the end of the file.\<close>

fun le_bytes :: "nat \<Rightarrow> nat \<Rightarrow> u8 list" where
  "le_bytes 0 n = []"
| "le_bytes (Suc k) n = of_nat n # le_bytes k (n div 256)"

fun le_value :: "u8 list \<Rightarrow> nat" where
  "le_value [] = 0"
| "le_value (b # bs) = unat b + 256 * le_value bs"

definition write_elements_added :: "bloom_filter \<Rightarrow> bloom_filter" where
  "write_elements_added bf =
     (let file = bloom bf; p = length file - 12
      in bf\<lparr>bloom := take p file @ le_bytes 8 (unat (elements_added bf)) @ drop (p + 8) file\<rparr>)"

definition bloom_filter_add_string_alt ::
    "bloom_filter \<Rightarrow> u64 list \<Rightarrow> u32 \<Rightarrow> (int \<times> bloom_filter) outcome" where
  "bloom_filter_add_string_alt bf hashes number_hashes_passed =
     (if number_hashes_passed < number_hashes bf then Inr (BLOOM_FAILURE, bf)
      else if length hashes < unat (number_hashes bf) then Inl Out_of_bounds
      else bind_out (set_bits (number_bits bf) (bloom bf) (take (unat (number_hashes bf)) hashes)) (\<lambda>bl.
             let bf = bf\<lparr>bloom := bl, elements_added := elements_added bf + 1\<rparr>
             in Inr (BLOOM_SUCCESS, if is_on_disk bf then write_elements_added bf else bf)))"

definition bloom_filter_check_string_alt :: "bloom_filter \<Rightarrow> u64 list \<Rightarrow> u32 \<Rightarrow> int outcome" where
  "bloom_filter_check_string_alt bf hashes number_hashes_passed =
     (if number_hashes_passed < number_hashes bf then Inr BLOOM_FAILURE
      else if length hashes < unat (number_hashes bf) then Inl Out_of_bounds
      else check_bits (number_bits bf) (bloom bf) (take (unat (number_hashes bf)) hashes))"

definition bloom_filter_add_string ::
    "bloom_math \<Rightarrow> bloom_filter \<Rightarrow> u8 list \<Rightarrow> nat \<Rightarrow> (int \<times> bloom_filter) outcome" where
  "bloom_filter_add_string fp bf str len =
     bind_out (bloom_filter_calculate_hashes fp bf str (unat (number_hashes bf)) len) (\<lambda>hashes.
       bloom_filter_add_string_alt bf hashes (number_hashes bf))"

definition bloom_filter_check_string :: "bloom_math \<Rightarrow> bloom_filter \<Rightarrow> u8 list \<Rightarrow> nat \<Rightarrow> int outcome" where
  "bloom_filter_check_string fp bf str len =
     bind_out (bloom_filter_calculate_hashes fp bf str (unat (number_hashes bf)) len) (\<lambda>hashes.
       bloom_filter_check_string_alt bf hashes (number_hashes bf))"

section \<open>Counting and combining\<close>

definition sum_bits_set_char :: "u8 \<Rightarrow> nat" where
  "sum_bits_set_char c = fold (\<lambda>j res. res + (if c AND push_bit j 1 \<noteq> 0 then 1 else 0)) [0 ..< 8] 0"

definition sum_bytes :: "(nat \<Rightarrow> u8) \<Rightarrow> nat \<Rightarrow> u64" where
  "sum_bytes f n = of_nat (fold (\<lambda>i res. res + sum_bits_set_char (f i)) [0 ..< n] 0)"

definition bloom_filter_count_set_bits :: "bloom_filter \<Rightarrow> u64 outcome" where
  "bloom_filter_count_set_bits bf =
     (if bloom_length bf > length (bloom bf) then Inl Out_of_bounds
      else Inr (sum_bytes (\<lambda>i. bloom bf ! i) (bloom_length bf)))"

definition bloom_filter_export_size :: "bloom_filter \<Rightarrow> u64" where
  "bloom_filter_export_size bf = of_nat (bloom_length bf) + 2 * 8 + 4"

definition bloom_filter_estimate_elements :: "bloom_math \<Rightarrow> bloom_filter \<Rightarrow> u64 outcome" where
  "bloom_filter_estimate_elements fp bf =
     bind_out (bloom_filter_count_set_bits bf) (\<lambda>n.
       Inr (estimate_by_values fp (number_bits bf) n (number_hashes bf)))"

definition bloom_filter_set_elements_to_estimated :: "bloom_math \<Rightarrow> bloom_filter \<Rightarrow> bloom_filter outcome" where
  "bloom_filter_set_elements_to_estimated fp bf =
     bind_out (bloom_filter_estimate_elements fp bf) (\<lambda>n. Inr (bf\<lparr>elements_added := n\<rparr>))"

definition check_if_union_or_intersection_ok :: "bloom_filter \<Rightarrow> bloom_filter \<Rightarrow> bloom_filter \<Rightarrow> int" where
  "check_if_union_or_intersection_ok res bf1 bf2 =
     (if number_hashes res \<noteq> number_hashes bf1 \<or> number_hashes bf1 \<noteq> number_hashes bf2 then BLOOM_FAILURE
      else if number_bits res \<noteq> number_bits bf1 \<or> number_bits bf1 \<noteq> number_bits bf2 then BLOOM_FAILURE
      else if hash_function res \<noteq> hash_function bf1 \<or> hash_function bf1 \<noteq> hash_function bf2 then BLOOM_FAILURE
      else BLOOM_SUCCESS)"

text \<open>The loop of the union and of the intersection, up to the length of the first filter.\<close>

definition combine_blooms ::
    "(u8 \<Rightarrow> u8 \<Rightarrow> u8) \<Rightarrow> bloom_filter \<Rightarrow> bloom_filter \<Rightarrow> bloom_filter \<Rightarrow> bloom_filter outcome" where
  "combine_blooms f res bf1 bf2 =
     (let n = bloom_length bf1
      in if n > length (bloom res) \<or> n > length (bloom bf1) \<or> n > length (bloom bf2) then Inl Out_of_bounds
         else Inr (res\<lparr>bloom := map (\<lambda>i. f (bloom bf1 ! i) (bloom bf2 ! i)) [0 ..< n] @ drop n (bloom res)\<rparr>))"

definition bloom_filter_union ::
    "bloom_math \<Rightarrow> bloom_filter \<Rightarrow> bloom_filter \<Rightarrow> bloom_filter \<Rightarrow> (int \<times> bloom_filter) outcome" where
  "bloom_filter_union fp res bf1 bf2 =
     (if check_if_union_or_intersection_ok res bf1 bf2 = BLOOM_FAILURE then Inr (BLOOM_FAILURE, res)
      else bind_out (combine_blooms (OR) res bf1 bf2) (\<lambda>res.
           bind_out (bloom_filter_set_elements_to_estimated fp res) (\<lambda>res. Inr (BLOOM_SUCCESS, res))))"

definition bloom_filter_intersect ::
    "bloom_math \<Rightarrow> bloom_filter \<Rightarrow> bloom_filter \<Rightarrow> bloom_filter \<Rightarrow> (int \<times> bloom_filter) outcome" where
  "bloom_filter_intersect fp res bf1 bf2 =
     (if check_if_union_or_intersection_ok res bf1 bf2 = BLOOM_FAILURE then Inr (BLOOM_FAILURE, res)
      else bind_out (combine_blooms (AND) res bf1 bf2) (\<lambda>res.
           bind_out (bloom_filter_set_elements_to_estimated fp res) (\<lambda>res. Inr (BLOOM_SUCCESS, res))))"

text \<open>The counts return the failure code as an unsigned number.\<close>

definition count_combined ::
    "(u8 \<Rightarrow> u8 \<Rightarrow> u8) \<Rightarrow> bloom_filter \<Rightarrow> bloom_filter \<Rightarrow> u64 outcome" where
  "count_combined f bf1 bf2 =
     (if check_if_union_or_intersection_ok bf1 bf1 bf2 = BLOOM_FAILURE then Inr (word_of_int BLOOM_FAILURE)
      else if bloom_length bf1 > length (bloom bf1) \<or> bloom_length bf1 > length (bloom bf2) then Inl Out_of_bounds
      else Inr (sum_bytes (\<lambda>i. f (bloom bf1 ! i) (bloom bf2 ! i)) (bloom_length bf1)))"

definition bloom_filter_count_union_bits_set :: "bloom_filter \<Rightarrow> bloom_filter \<Rightarrow> u64 outcome" where
  "bloom_filter_count_union_bits_set bf1 bf2 = count_combined (OR) bf1 bf2"

definition bloom_filter_count_intersection_bits_set :: "bloom_filter \<Rightarrow> bloom_filter \<Rightarrow> u64 outcome" where
  "bloom_filter_count_intersection_bits_set bf1 bf2 = count_combined (AND) bf1 bf2"

section \<open>Files\<close>

text \<open>
  A file is its bytes. Its end has the estimated elements, the added ones and the probability; a file
  too short for them leaves what is read undefined. Leaving the program is a fatal end. A write to an
  open file and a write through the mapping are seen by both.
\<close>

definition write_to_file :: "bloom_filter \<Rightarrow> bool \<Rightarrow> u8 list outcome" where
  "write_to_file bf on_disk =
     (if \<not> on_disk \<and> bloom_length bf > length (bloom bf) then Inl Out_of_bounds
      else Inr ((if on_disk then replicate (bloom_length bf) 0 else take (bloom_length bf) (bloom bf))
        @ le_bytes 8 (unat (estimated_elements bf)) @ le_bytes 8 (unat (elements_added bf))
        @ le_bytes 4 (unat (false_positive_probability bf))))"

definition read_from_file :: "bloom_math \<Rightarrow> bloom_filter \<Rightarrow> u8 list \<Rightarrow> bool \<Rightarrow> bloom_filter outcome" where
  "read_from_file fp bf file on_disk =
     (if length file < 20 then Inl Undefined_value
      else
        let t = drop (length file - 20) file;
            bf = calculate_optimal_hashes fp
                   (bf\<lparr>estimated_elements := of_nat (le_value (take 8 t)),
                       elements_added := of_nat (le_value (take 8 (drop 8 t))),
                       false_positive_probability := of_nat (le_value (take 4 (drop 16 t)))\<rparr>)
        in if on_disk then Inr (bf\<lparr>bloom := file\<rparr>)
           else if length file < bloom_length bf then Inl Log_fatal
           else Inr (bf\<lparr>bloom := take (bloom_length bf) file @ [0]\<rparr>))"

text \<open>The file that an export writes, if the file can be opened.\<close>

definition bloom_filter_export :: "bloom_filter \<Rightarrow> bool \<Rightarrow> (int \<times> u8 list option) outcome" where
  "bloom_filter_export bf opens =
     (if is_on_disk bf then Inr (BLOOM_SUCCESS, None)
      else if \<not> opens then Inr (BLOOM_FAILURE, None)
      else bind_out (write_to_file bf False) (\<lambda>file. Inr (BLOOM_SUCCESS, Some file)))"

definition bloom_filter_import_alt ::
    "bloom_math \<Rightarrow> bloom_filter \<Rightarrow> u8 list option \<Rightarrow> hash_id \<Rightarrow> (int \<times> bloom_filter) outcome" where
  "bloom_filter_import_alt fp bf file f =
     (case file of
        None \<Rightarrow> Inr (BLOOM_FAILURE, bf)
      | Some file \<Rightarrow> bind_out (read_from_file fp bf file False) (\<lambda>bf.
          Inr (BLOOM_SUCCESS, (bloom_filter_set_hash_function bf f)\<lparr>is_on_disk := False\<rparr>)))"

definition bloom_filter_import_on_disk_alt ::
    "bloom_math \<Rightarrow> bloom_filter \<Rightarrow> u8 list option \<Rightarrow> hash_id \<Rightarrow> (int \<times> bloom_filter) outcome" where
  "bloom_filter_import_on_disk_alt fp bf file f =
     (case file of
        None \<Rightarrow> Inr (BLOOM_FAILURE, bf)
      | Some file \<Rightarrow> bind_out (read_from_file fp bf file True) (\<lambda>bf.
          Inr (BLOOM_SUCCESS, (bloom_filter_set_hash_function bf f)\<lparr>is_on_disk := True\<rparr>)))"

definition bloom_filter_init_on_disk_alt ::
    "bloom_math \<Rightarrow> bloom_filter \<Rightarrow> u64 \<Rightarrow> u32 \<Rightarrow> bool \<Rightarrow> hash_id \<Rightarrow> (int \<times> bloom_filter) outcome" where
  "bloom_filter_init_on_disk_alt fp bf estimated rate opens f =
     (if estimated = 0 \<or> \<not> probability_ok fp rate then Inr (BLOOM_FAILURE, bf)
      else
        let bf = calculate_optimal_hashes fp
                   (bf\<lparr>estimated_elements := estimated, false_positive_probability := rate\<rparr>);
            bf = bf\<lparr>elements_added := 0\<rparr>
        in if \<not> opens then Inr (BLOOM_FAILURE, bf)
           else bind_out (write_to_file bf True) (\<lambda>file. bloom_filter_import_on_disk_alt fp bf (Some file) f))"


section \<open>The set of bits\<close>

definition bit_at :: "u8 list \<Rightarrow> nat \<Rightarrow> bool" where
  "bit_at bl k \<longleftrightarrow> bit (bl ! (k div 8)) (k mod 8)"

definition hash_pos :: "u64 \<Rightarrow> u64 \<Rightarrow> nat" where
  "hash_pos nb h = unat (h mod nb)"

lemma hash_pos_less: "nb \<noteq> 0 \<Longrightarrow> hash_pos nb h < unat nb"
  by (simp add: hash_pos_def unat_mod unat_gt_0)

lemma bit_at_set:
  assumes "k div 8 < length bl"
  shows "bit_at (bl[k div 8 := bl ! (k div 8) OR push_bit (k mod 8) 1]) j \<longleftrightarrow> bit_at bl j \<or> j = k"
proof (cases "j div 8 = k div 8")
  case True
  then have "j = k \<longleftrightarrow> j mod 8 = k mod 8" by (metis div_mult_mod_eq)
  moreover have "j mod 8 < 8" "k mod 8 < 8" by simp_all
  ultimately show ?thesis using assms True
    by (auto simp: bit_at_def bit_or_iff bit_exp_iff)
next
  case False
  then show ?thesis using assms by (auto simp: bit_at_def)
qed

lemma set_bits_spec:
  assumes "nb \<noteq> 0" "unat nb \<le> 8 * length bl"
  shows "\<exists>bl'. set_bits nb bl hs = Inr bl' \<and> length bl' = length bl
    \<and> (\<forall>j. bit_at bl' j \<longleftrightarrow> bit_at bl j \<or> j \<in> hash_pos nb ` set hs)"
  using assms(2)
proof (induction hs arbitrary: bl)
  case (Cons h hs)
  let ?k = "hash_pos nb h"
  have k: "?k div 8 < length bl" using hash_pos_less [OF assms(1), of h] Cons.prems by linarith
  let ?b = "bl[?k div 8 := bl ! (?k div 8) OR push_bit (?k mod 8) 1]"
  obtain bl' where "set_bits nb ?b hs = Inr bl'" "length bl' = length ?b"
    "\<forall>j. bit_at bl' j \<longleftrightarrow> bit_at ?b j \<or> j \<in> hash_pos nb ` set hs"
    using Cons.IH [of ?b] Cons.prems by auto
  then show ?case using k assms(1) bit_at_set [OF k] by (auto simp: Let_def hash_pos_def)
qed simp

lemma check_bits_spec:
  assumes "nb \<noteq> 0" "unat nb \<le> 8 * length bl"
  shows "check_bits nb bl hs
    = Inr (if \<forall>h \<in> set hs. bit_at bl (hash_pos nb h) then BLOOM_SUCCESS else BLOOM_FAILURE)"
proof (induction hs)
  case (Cons h hs)
  have "hash_pos nb h div 8 < length bl" using hash_pos_less [OF assms(1), of h] assms(2) by linarith
  then show ?case using Cons assms(1) by (simp add: Let_def hash_pos_def and_exp_eq_0_iff_not_bit bit_at_def not_le)
qed simp

section \<open>Hashes\<close>

lemma length_show_hex: "\<lbrakk>n < 16 ^ k; 0 < k\<rbrakk> \<Longrightarrow> length (show_hex n) \<le> k"
proof (induction k arbitrary: n)
  case (Suc k)
  show ?case
  proof (cases "n < 16")
    case True
    then show ?thesis by (simp add: show_hex.simps One_nat_def)
  next
    case False
    then have "0 < k" using Suc.prems(1) by (cases k) auto
    moreover have "n div 16 < 16 ^ k" using Suc.prems(1) by (simp add: div_less_iff_less_mult)
    ultimately show ?thesis using Suc.IH [of "n div 16"] False by (subst show_hex.simps) simp
  qed
qed simp

lemma length_print_hex: "17 \<le> length key \<Longrightarrow> length (print_hex key w) = length key"
proof -
  assume "17 \<le> length key"
  moreover have "length (show_hex (unat w)) \<le> 16"
    by (rule length_show_hex) (use unsigned_less [of w, where ?'a = nat] in simp_all)
  ultimately show ?thesis by (simp add: print_hex_def Let_def)
qed

lemma hash_chain_returns:
  "\<lbrakk>length key = 32; len \<le> 32\<rbrakk> \<Longrightarrow> \<exists>hs. hash_chain n h key len = Inr hs \<and> length hs = n"
proof (induction n arbitrary: h key)
  case (Suc n)
  let ?k = "print_hex key h"
  have k: "length ?k = 32" using length_print_hex [of key h] Suc.prems(1) by simp
  obtain hs where "hash_chain n (fnv_loop 14695981039346656073 (take len ?k)) ?k len = Inr hs" "length hs = n"
    using Suc.IH [OF k Suc.prems(2)] by blast
  then show ?case using k Suc.prems(2) by (simp add: Let_def fnv_1a_def del: bind_out_eq_Inr)
qed simp

lemma default_hash_returns:
  "\<lbrakk>n \<noteq> 0; len \<le> length str; len \<le> 32\<rbrakk> \<Longrightarrow> \<exists>hs. default_hash n str len = Inr hs \<and> length hs = n"
  using hash_chain_returns [of "replicate 32 0" len "n - 1" "fnv_loop 14695981039346656073 (take len str)"]
  by (auto simp: default_hash_def fnv_1a_def One_nat_def simp del: bind_out_eq_Inr)

section \<open>A filter is a set of positions\<close>

text \<open>A filter in memory that hashes by default, the bits it has set, and the bits of a string.\<close>

definition filter_ok :: "bloom_filter \<Rightarrow> bool" where
  "filter_ok bf \<longleftrightarrow> number_hashes bf \<noteq> 0 \<and> number_bits bf \<noteq> 0 \<and> unat (number_bits bf) \<le> 8 * length (bloom bf)
     \<and> hash_function bf = Default_hash \<and> \<not> is_on_disk bf"

definition bits_set :: "bloom_filter \<Rightarrow> nat set" where
  "bits_set bf = {k. k < unat (number_bits bf) \<and> bit_at (bloom bf) k}"

definition string_bits :: "u32 \<Rightarrow> u64 \<Rightarrow> u8 list \<Rightarrow> nat set" where
  "string_bits k nb str =
     (case default_hash (unat k) str (length str) of Inr hs \<Rightarrow> hash_pos nb ` set hs | Inl e \<Rightarrow> {})"

abbreviation positions :: "bloom_filter \<Rightarrow> u8 list \<Rightarrow> nat set" where
  "positions bf \<equiv> string_bits (number_hashes bf) (number_bits bf)"

lemma filter_hashes:
  assumes "filter_ok bf" "length str \<le> 32"
  obtains hs where "bloom_filter_calculate_hashes fp bf str (unat (number_hashes bf)) (length str) = Inr hs"
    "length hs = unat (number_hashes bf)" "positions bf str = hash_pos (number_bits bf) ` set hs"
proof -
  have "unat (number_hashes bf) \<noteq> 0" using assms(1) by (simp add: filter_ok_def unat_eq_0)
  then obtain hs where "default_hash (unat (number_hashes bf)) str (length str) = Inr hs"
    "length hs = unat (number_hashes bf)" using default_hash_returns [of _ "length str" str] assms(2) by auto
  then show ?thesis using assms(1) that
    by (simp add: bloom_filter_calculate_hashes_def filter_ok_def string_bits_def)
qed

lemma add_string_spec:
  assumes "filter_ok bf" "length str \<le> 32"
  shows "\<exists>bf'. bloom_filter_add_string fp bf str (length str) = Inr (BLOOM_SUCCESS, bf') \<and> filter_ok bf'
    \<and> number_hashes bf' = number_hashes bf \<and> number_bits bf' = number_bits bf
    \<and> bits_set bf' = bits_set bf \<union> positions bf str \<and> elements_added bf' = elements_added bf + 1"
proof -
  obtain hs where hs: "bloom_filter_calculate_hashes fp bf str (unat (number_hashes bf)) (length str) = Inr hs"
    "length hs = unat (number_hashes bf)" "positions bf str = hash_pos (number_bits bf) ` set hs"
    by (rule filter_hashes [OF assms])
  have ok: "number_bits bf \<noteq> 0" "unat (number_bits bf) \<le> 8 * length (bloom bf)" "\<not> is_on_disk bf"
    using assms(1) by (simp_all add: filter_ok_def)
  obtain bl where bl: "set_bits (number_bits bf) (bloom bf) hs = Inr bl" "length bl = length (bloom bf)"
    "\<forall>j. bit_at bl j \<longleftrightarrow> bit_at (bloom bf) j \<or> j \<in> hash_pos (number_bits bf) ` set hs"
    using set_bits_spec [OF ok(1,2)] by blast
  let ?bf = "bf\<lparr>bloom := bl, elements_added := elements_added bf + 1\<rparr>"
  have "bloom_filter_add_string fp bf str (length str) = Inr (BLOOM_SUCCESS, ?bf)"
    using hs(1,2) bl(1) ok(3) by (simp add: bloom_filter_add_string_def bloom_filter_add_string_alt_def Let_def del: bind_out_eq_Inr)
  moreover have "bits_set ?bf = bits_set bf \<union> positions bf str"
    using bl(3) hash_pos_less [OF ok(1)] by (auto simp: bits_set_def hs(3))
  moreover have "filter_ok ?bf" using assms(1) bl(2) by (simp add: filter_ok_def)
  ultimately show ?thesis by auto
qed

lemma check_string_spec:
  assumes "filter_ok bf" "length str \<le> 32"
  shows "bloom_filter_check_string fp bf str (length str)
    = Inr (if positions bf str \<subseteq> bits_set bf then BLOOM_SUCCESS else BLOOM_FAILURE)"
proof -
  obtain hs where hs: "bloom_filter_calculate_hashes fp bf str (unat (number_hashes bf)) (length str) = Inr hs"
    "length hs = unat (number_hashes bf)" "positions bf str = hash_pos (number_bits bf) ` set hs"
    by (rule filter_hashes [OF assms])
  have ok: "number_bits bf \<noteq> 0" "unat (number_bits bf) \<le> 8 * length (bloom bf)"
    using assms(1) by (simp_all add: filter_ok_def)
  have "(positions bf str \<subseteq> bits_set bf) = (\<forall>h \<in> set hs. bit_at (bloom bf) (hash_pos (number_bits bf) h))"
    using hash_pos_less [OF ok(1)] by (auto simp: hs(3) bits_set_def)
  then show ?thesis using hs(1,2)
    by (simp add: bloom_filter_check_string_def bloom_filter_check_string_alt_def check_bits_spec [OF ok] del: bind_out_eq_Inr)
qed

lemma init_alt_spec:
  assumes "bloom_filter_init_alt fp bf0 n p Default_hash = (BLOOM_SUCCESS, bf)"
    "optimal_sizes fp n p = (k, m)" "k \<noteq> 0" "m \<noteq> 0"
  shows "filter_ok bf" "number_hashes bf = k" "number_bits bf = m" "bits_set bf = {}" "elements_added bf = 0"
proof -
  have bf: "bf = bf0\<lparr>estimated_elements := n, false_positive_probability := p, number_hashes := k,
      number_bits := m, bloom_length := (unat m + 7) div 8, bloom := replicate ((unat m + 7) div 8 + 1) 0,
      elements_added := 0, hash_function := Default_hash, is_on_disk := False\<rparr>"
    using assms(1,2) by (auto simp: bloom_filter_init_alt_def calculate_optimal_hashes_def
        bloom_filter_set_hash_function_def Let_def BLOOM_SUCCESS_def BLOOM_FAILURE_def split: if_splits)
  have "unat m \<le> 8 * length (bloom bf)" by (simp add: bf)
  then show "filter_ok bf" using assms(3,4) by (simp add: filter_ok_def bf)
  have "\<not> bit_at (replicate ((unat m + 7) div 8 + 1) 0) j" if "j < unat m" for j
  proof -
    have "j div 8 < (unat m + 7) div 8 + 1" using that by linarith
    then show ?thesis by (simp only: bit_at_def nth_replicate) simp
  qed
  then show "bits_set bf = {}" by (auto simp: bits_set_def bf)
qed (use assms(1,2) in \<open>auto simp: bloom_filter_init_alt_def calculate_optimal_hashes_def
        bloom_filter_set_hash_function_def Let_def BLOOM_SUCCESS_def BLOOM_FAILURE_def split: if_splits\<close>)

text \<open>Strings added one after the other.\<close>

fun bloom_filter_add_all :: "bloom_math \<Rightarrow> bloom_filter \<Rightarrow> u8 list list \<Rightarrow> bloom_filter outcome" where
  "bloom_filter_add_all fp bf [] = Inr bf"
| "bloom_filter_add_all fp bf (s # ss) =
     bind_out (bloom_filter_add_string fp bf s (length s)) (\<lambda>(r, bf). bloom_filter_add_all fp bf ss)"

lemma add_all_spec:
  assumes "filter_ok bf" "\<forall>s \<in> set ss. length s \<le> 32"
  shows "\<exists>bf'. bloom_filter_add_all fp bf ss = Inr bf' \<and> filter_ok bf'
    \<and> number_hashes bf' = number_hashes bf \<and> number_bits bf' = number_bits bf
    \<and> bits_set bf' = bits_set bf \<union> \<Union> (positions bf ` set ss)
    \<and> elements_added bf' = elements_added bf + of_nat (length ss)"
  using assms
proof (induction ss arbitrary: bf)
  case (Cons s ss)
  obtain bf1 where a: "bloom_filter_add_string fp bf s (length s) = Inr (BLOOM_SUCCESS, bf1)" "filter_ok bf1"
    "number_hashes bf1 = number_hashes bf" "number_bits bf1 = number_bits bf"
    "bits_set bf1 = bits_set bf \<union> positions bf s" "elements_added bf1 = elements_added bf + 1"
    using add_string_spec [OF Cons.prems(1), of s fp] Cons.prems(2) by auto
  obtain bf2 where b: "bloom_filter_add_all fp bf1 ss = Inr bf2" "filter_ok bf2"
    "number_hashes bf2 = number_hashes bf1" "number_bits bf2 = number_bits bf1"
    "bits_set bf2 = bits_set bf1 \<union> \<Union> (positions bf1 ` set ss)"
    "elements_added bf2 = elements_added bf1 + of_nat (length ss)"
    using Cons.IH [OF a(2)] Cons.prems(2) by auto
  show ?case using a b by (auto simp del: bind_out_eq_Inr)
qed simp

text \<open>
  C38: After the strings \<open>ss\<close>, of at most 32 bytes each, were added to a new filter, the
  check of a string succeeds exactly when all its bits are bits of added strings; in particular it
  succeeds for every string that was added. The number of elements is that of the additions.
\<close>

theorem bloom_membership:
  assumes "bloom_filter_init_alt fp bf0 n p Default_hash = (BLOOM_SUCCESS, bf)"
    "optimal_sizes fp n p = (k, m)" "k \<noteq> 0" "m \<noteq> 0"
    "\<forall>s \<in> set ss. length s \<le> 32" "length str \<le> 32"
  shows "\<exists>bf'. bloom_filter_add_all fp bf ss = Inr bf' \<and> elements_added bf' = of_nat (length ss)
    \<and> bloom_filter_check_string fp bf' str (length str)
        = Inr (if string_bits k m str \<subseteq> (\<Union>s \<in> set ss. string_bits k m s) then BLOOM_SUCCESS else BLOOM_FAILURE)
    \<and> (str \<in> set ss \<longrightarrow> bloom_filter_check_string fp bf' str (length str) = Inr BLOOM_SUCCESS)"
proof -
  note I = init_alt_spec [OF assms(1-4)]
  obtain bf' where bf': "bloom_filter_add_all fp bf ss = Inr bf'" "filter_ok bf'"
    "number_hashes bf' = k" "number_bits bf' = m" "bits_set bf' = (\<Union>s \<in> set ss. string_bits k m s)"
    "elements_added bf' = of_nat (length ss)"
    using add_all_spec [OF I(1) assms(5), of fp] I(2-5) by auto
  then show ?thesis using check_string_spec [OF bf'(2) assms(6), of fp] by auto
qed

text \<open>A filter of 16 bits with two hashes.\<close>

definition ex_math :: bloom_math where
  "ex_math = \<lparr>optimal_sizes = (\<lambda>n p. (2, 16)), probability_ok = (\<lambda>p. True),
     estimate_by_values = (\<lambda>m x k. x), given_hashes = (\<lambda>i n str len. [])\<rparr>"

definition ex_bloom :: bloom_filter where
  "ex_bloom = snd (bloom_filter_init_alt ex_math
     \<lparr>estimated_elements = 0, false_positive_probability = 0, number_hashes = 0, number_bits = 0,
      bloom = [], bloom_length = 0, elements_added = 0, hash_function = Default_hash, is_on_disk = False\<rparr>
     1 0 Default_hash)"

theorem bloom_membership_witness:
  "\<exists>bf'. bloom_filter_add_all ex_math ex_bloom [[8, 8, 8, 8, 0, 53]] = Inr bf'
    \<and> bloom_filter_check_string ex_math bf' [8, 8, 8, 8, 0, 53] 6 = Inr BLOOM_SUCCESS"
proof -
  have "bloom_filter_init_alt ex_math
     \<lparr>estimated_elements = 0, false_positive_probability = 0, number_hashes = 0, number_bits = 0,
      bloom = [], bloom_length = 0, elements_added = 0, hash_function = Default_hash, is_on_disk = False\<rparr>
     1 0 Default_hash = (BLOOM_SUCCESS, ex_bloom)"
    by (simp add: ex_bloom_def bloom_filter_init_alt_def ex_math_def Let_def)
  moreover have "optimal_sizes ex_math 1 0 = (2, 16)" by (simp add: ex_math_def)
  moreover have "(2 :: u32) \<noteq> 0" "(16 :: u64) \<noteq> 0" by simp_all
  moreover have l: "length [8, 8, 8, 8, 0, 53 :: u8] = 6" by (simp add: eval_nat_numeral One_nat_def)
  ultimately show ?thesis
    using bloom_membership [of ex_math _ 1 0 ex_bloom 2 16 "[[8, 8, 8, 8, 0, 53]]" "[8, 8, 8, 8, 0, 53]", unfolded l]
    by fastforce
qed

section \<open>The filter as a memory of keys\<close>

definition bloom_seen :: "bloom_math \<Rightarrow> bloom_filter \<Rightarrow> u8 list \<Rightarrow> bool" where
  "bloom_seen fp bf str \<longleftrightarrow> bloom_filter_check_string fp bf str (length str) = Inr BLOOM_SUCCESS"

definition bloom_put :: "bloom_math \<Rightarrow> bloom_filter \<Rightarrow> u8 list \<Rightarrow> bloom_filter" where
  "bloom_put fp bf str = (case bloom_filter_add_string fp bf str (length str) of Inr (r, bf') \<Rightarrow> bf' | Inl e \<Rightarrow> bf)"

lemma bloom_seen_iff:
  "\<lbrakk>filter_ok bf; length str \<le> 32\<rbrakk> \<Longrightarrow> bloom_seen fp bf str \<longleftrightarrow> positions bf str \<subseteq> bits_set bf"
  by (simp add: bloom_seen_def check_string_spec BLOOM_SUCCESS_def BLOOM_FAILURE_def)

text \<open>A filter in which nothing was entered has seen nothing.\<close>

lemma bloom_seen_zero:
  assumes "filter_ok bf" "length str \<le> 32" "bloom bf = replicate n 0"
  shows "\<not> bloom_seen fp bf str"
proof -
  have "unat (number_bits bf) \<le> 8 * n" using assms(1,3) by (simp add: filter_ok_def)
  then have "bits_set bf = {}" by (auto simp: bits_set_def bit_at_def assms(3))
  moreover obtain hs where "length hs = unat (number_hashes bf)" "positions bf str = hash_pos (number_bits bf) ` set hs"
    using filter_hashes [OF assms(1,2)] by metis
  moreover have "unat (number_hashes bf) \<noteq> 0" using assms(1) by (simp add: filter_ok_def unat_eq_0)
  ultimately show ?thesis using bloom_seen_iff [OF assms(1,2)] by auto
qed

lemma bloom_put_spec:
  assumes "filter_ok bf" "length str \<le> 32"
  shows "filter_ok (bloom_put fp bf str)" "number_hashes (bloom_put fp bf str) = number_hashes bf"
    "number_bits (bloom_put fp bf str) = number_bits bf"
    "bits_set (bloom_put fp bf str) = bits_set bf \<union> positions bf str"
    "bloom_filter_add_string fp bf str (length str) = Inr (BLOOM_SUCCESS, bloom_put fp bf str)"
proof -
  obtain bf' where "bloom_filter_add_string fp bf str (length str) = Inr (BLOOM_SUCCESS, bf')" "filter_ok bf'"
    "number_hashes bf' = number_hashes bf" "number_bits bf' = number_bits bf"
    "bits_set bf' = bits_set bf \<union> positions bf str"
    using add_string_spec [OF assms, of fp] by blast
  moreover from this(1) have "bloom_put fp bf str = bf'" by (simp add: bloom_put_def)
  ultimately show "filter_ok (bloom_put fp bf str)" "number_hashes (bloom_put fp bf str) = number_hashes bf"
    "number_bits (bloom_put fp bf str) = number_bits bf"
    "bits_set (bloom_put fp bf str) = bits_set bf \<union> positions bf str"
    "bloom_filter_add_string fp bf str (length str) = Inr (BLOOM_SUCCESS, bloom_put fp bf str)"
    by (simp_all only:)
qed

interpretation bloom: seen_filter filter_ok "\<lambda>str. length str \<le> 32" "bloom_seen fp" "bloom_put fp" for fp
  by unfold_locales (auto simp: bloom_put_spec(1-4) bloom_seen_iff)

section \<open>Combining filters\<close>

text \<open>What either filter has seen the union has seen; what the intersection has seen both have.\<close>

lemma combine_seen:
  assumes "filter_ok bf1" "filter_ok bf2" "filter_ok res" "unat (number_bits res) \<le> 8 * bloom_length bf1"
    "check_if_union_or_intersection_ok res bf1 bf2 = BLOOM_SUCCESS"
    "combine_blooms f res bf1 bf2 = Inr r" "\<And>a b i. i < 8 \<Longrightarrow> bit (f a b) i \<longleftrightarrow> g (bit a i) (bit b i)"
  shows "filter_ok r" "number_hashes r = number_hashes bf1" "number_bits r = number_bits bf1"
    "bits_set r = {k. k < unat (number_bits res) \<and> g (k \<in> bits_set bf1) (k \<in> bits_set bf2)}"
proof -
  let ?n = "bloom_length bf1"
  have same: "number_hashes res = number_hashes bf1" "number_hashes bf2 = number_hashes bf1"
    "number_bits res = number_bits bf1" "number_bits bf2 = number_bits bf1"
    using assms(5) by (auto simp: check_if_union_or_intersection_ok_def BLOOM_FAILURE_def BLOOM_SUCCESS_def split: if_splits)
  have l: "?n \<le> length (bloom res)" "?n \<le> length (bloom bf1)" "?n \<le> length (bloom bf2)"
    and r: "r = res\<lparr>bloom := map (\<lambda>i. f (bloom bf1 ! i) (bloom bf2 ! i)) [0 ..< ?n] @ drop ?n (bloom res)\<rparr>"
    using assms(6) by (auto simp: combine_blooms_def Let_def split: if_splits)
  show "filter_ok r" using assms(3) l(1) by (simp add: filter_ok_def r)
  show "number_hashes r = number_hashes bf1" "number_bits r = number_bits bf1" using same by (simp_all add: r)
  have "bit_at (bloom r) k \<longleftrightarrow> g (bit_at (bloom bf1) k) (bit_at (bloom bf2) k)" if "k < unat (number_bits res)" for k
  proof -
    have "k div 8 < ?n" using that assms(4) by linarith
    then show ?thesis by (simp add: bit_at_def r nth_append assms(7))
  qed
  then show "bits_set r = {k. k < unat (number_bits res) \<and> g (k \<in> bits_set bf1) (k \<in> bits_set bf2)}"
    using same by (auto simp: bits_set_def r)
qed

lemma union_seen:
  assumes "filter_ok bf1" "filter_ok bf2" "filter_ok res" "unat (number_bits res) \<le> 8 * bloom_length bf1"
    "bloom_filter_union fp res bf1 bf2 = Inr (BLOOM_SUCCESS, r)" "length str \<le> 32"
    "bloom_seen fp bf1 str \<or> bloom_seen fp bf2 str"
  shows "bloom_seen fp r str"
proof -
  have c: "check_if_union_or_intersection_ok res bf1 bf2 = BLOOM_SUCCESS"
    using assms(5) by (auto simp: bloom_filter_union_def check_if_union_or_intersection_ok_def
        BLOOM_FAILURE_def BLOOM_SUCCESS_def split: if_splits)
  obtain r' n where r: "combine_blooms (OR) res bf1 bf2 = Inr r'" "r = r'\<lparr>elements_added := n\<rparr>"
    using assms(5) c by (auto simp: bloom_filter_union_def bloom_filter_set_elements_to_estimated_def
        BLOOM_FAILURE_def BLOOM_SUCCESS_def)
  have same: "number_hashes bf2 = number_hashes bf1" "number_bits res = number_bits bf1" "number_bits bf2 = number_bits bf1"
    using c by (auto simp: check_if_union_or_intersection_ok_def BLOOM_FAILURE_def BLOOM_SUCCESS_def split: if_splits)
  have "\<And>(a :: u8) b i. i < 8 \<Longrightarrow> bit (a OR b) i \<longleftrightarrow> bit a i \<or> bit b i" by (simp add: bit_or_iff)
  note C = combine_seen [where f = "(OR)" and g = "(\<or>)", OF assms(1-4) c r(1) this]
  have ok: "filter_ok r" and p: "positions r str = positions bf1 str" "positions bf2 str = positions bf1 str"
    and b: "bits_set r = bits_set r'"
    using C(1-3) same by (simp_all add: filter_ok_def bits_set_def r(2))
  have "bits_set r' = bits_set bf1 \<union> bits_set bf2" using C(4) same by (auto simp: bits_set_def)
  then have "positions bf1 str \<subseteq> bits_set bf1 \<or> positions bf2 str \<subseteq> bits_set bf2 \<Longrightarrow> positions r str \<subseteq> bits_set r"
    unfolding p b by blast
  then show ?thesis
    using assms(7) unfolding bloom_seen_iff [OF ok assms(6)] bloom_seen_iff [OF assms(1,6)] bloom_seen_iff [OF assms(2,6)]
    by blast
qed

section \<open>The hashes of short strings\<close>

text \<open>
  The second hash is made from the first \<open>len\<close> hexadecimal digits of the first one, where \<open>len\<close> is the
  length of the string, 6 for an IPv4 address and a port. So strings whose first hashes agree in them
  agree in the second one.
\<close>

lemma second_hash_prefix:
  assumes "len \<le> length (show_hex (unat h))" "len \<le> length (show_hex (unat h'))"
    "take len (show_hex (unat h)) = take len (show_hex (unat h'))"
  shows "fnv_1a (print_hex key h) len = fnv_1a (print_hex key' h') len"
  using assms by (simp add: fnv_1a_def print_hex_def Let_def)

end
