(* ===== verification/Udp.thy ===== *)
theory Udp
  imports Dns Packet Aesrand Bloom Blocklist
begin

text \<open>
  The validation of replies in \<open>src/probe_modules/module_udp.c\<close>, which the DNS module uses too. A packet is
  the captured memory from its IP header on and \<open>len\<close> its length as the receiver passes it. The
  module reads the globals of the scan: the ports, the block list, the keys of the validation bytes and
  the filter of the replies that were seen.
\<close>

definition PACKET_INVALID :: int where "PACKET_INVALID = 0"
definition PACKET_VALID :: int where "PACKET_VALID = 1"
definition ICMP_UNREACH_HEADER_SIZE :: nat where "ICMP_UNREACH_HEADER_SIZE = 8"
definition ICMP_UNREACH :: u8 where "ICMP_UNREACH = 3"
definition ICMP_TIMXCEED :: u8 where "ICMP_TIMXCEED = 11"
definition ICMP_PARAMPROB :: u8 where "ICMP_PARAMPROB = 12"

record udp_conf =
  target_port_flag :: "u16 \<Rightarrow> bool"
  udp_ports :: port_conf
  udp_num_sports :: int
  udp_validate :: validate
  udp_ipv46_bytes :: nat
  udp_blocklist :: blocklist
  udp_math :: bloom_math

section \<open>Parts of a packet\<close>

definition sizeof_udphdr :: nat where "sizeof_udphdr = 8"
definition sizeof_ip :: nat where "sizeof_ip = 20"

text \<open>The length of a header in bytes, the protocol and the addresses of the IP header at \<open>p\<close>.\<close>

definition ip_hl_bytes :: "u8 list \<Rightarrow> nat \<Rightarrow> nat outcome" where
  "ip_hl_bytes ip p = bind_out (byte_at ip p) (\<lambda>b. Inr (4 * unat (b AND 15)))"

definition ip_p :: "u8 list \<Rightarrow> nat \<Rightarrow> u8 outcome" where
  "ip_p ip p = byte_at ip (p + 9)"

definition ip_src :: "u8 list \<Rightarrow> nat \<Rightarrow> u8 list outcome" where
  "ip_src ip p = bytes_at ip (p + 12) 4"

definition ip_dst :: "u8 list \<Rightarrow> nat \<Rightarrow> u8 list outcome" where
  "ip_dst ip p = bytes_at ip (p + 16) 4"

section \<open>Validation\<close>

text \<open>
  The checks that both kinds of replies share: the scanned port, our own port, which depends on the
  addresses of the probe, and whether the target is allowed.
\<close>

definition udp_checks ::
    "udp_conf \<Rightarrow> u16 \<Rightarrow> u16 \<Rightarrow> u8 list \<Rightarrow> u8 list \<Rightarrow> bool outcome" where
  "udp_checks c dport sport own target =
     (if \<not> target_port_flag c dport then Inr False
      else bind_out (validate_gen (udp_validate c) (udp_ipv46_bytes c) own target dport) (\<lambda>validation.
             if \<not> check_src_port (udp_ports c) sport (udp_num_sports c) validation then Inr False
             else blocklist_is_allowed_ip (udp_blocklist c) target))"

text \<open>A UDP reply; the result is the scanned port, if the reply is valid.\<close>

definition udp_reply_port :: "udp_conf \<Rightarrow> u8 list \<Rightarrow> nat \<Rightarrow> nat \<Rightarrow> u16 option outcome" where
  "udp_reply_port c ip len hl =
     (if hl + sizeof_udphdr > len then Inr None
      else
        bind_out (u16_at ip (hl + 2)) (\<lambda>sport.
        bind_out (u16_at ip hl) (\<lambda>dport.
        bind_out (ip_dst ip 0) (\<lambda>own.
        bind_out (ip_src ip 0) (\<lambda>target.
        bind_out (udp_checks c dport sport own target) (\<lambda>ok.
          Inr (if ok then Some dport else None)))))))"

text \<open>An ICMP error with the IP header and the UDP header of the probe in it.\<close>

definition icmp_reply_port :: "udp_conf \<Rightarrow> u8 list \<Rightarrow> nat \<Rightarrow> nat \<Rightarrow> u16 option outcome" where
  "icmp_reply_port c ip len hl =
     (let min_len = hl + ICMP_UNREACH_HEADER_SIZE + sizeof_ip + sizeof_udphdr;
          inner = hl + ICMP_UNREACH_HEADER_SIZE
      in if len < min_len then Inr None
         else bind_out (byte_at ip hl) (\<lambda>icmp_type.
           if \<not> (icmp_type = ICMP_TIMXCEED \<or> icmp_type = ICMP_UNREACH \<or> icmp_type = ICMP_PARAMPROB) then Inr None
           else bind_out (ip_hl_bytes ip inner) (\<lambda>inner_hl.
             if len < inner_hl + (min_len - sizeof_ip) then Inr None
             else
               bind_out (u16_at ip (inner + inner_hl + 2)) (\<lambda>dport.
               bind_out (u16_at ip (inner + inner_hl)) (\<lambda>sport.
               bind_out (ip_src ip inner) (\<lambda>own.
               bind_out (ip_dst ip inner) (\<lambda>target.
               bind_out (udp_checks c dport sport own target) (\<lambda>ok.
                 Inr (if ok then Some dport else None)))))))))"

text \<open>Whether the source of the reply was seen with this port, and its entry into the filter if not.\<close>

definition note_reply :: "bloom_math \<Rightarrow> bloom_filter \<Rightarrow> u8 list \<Rightarrow> bool \<Rightarrow> (bool \<times> bloom_filter) outcome" where
  "note_reply fp bf ip_port_str is_repeat =
     bind_out (bloom_filter_check_string fp bf ip_port_str (length ip_port_str)) (\<lambda>r.
       if r = BLOOM_FAILURE
       then bind_out (bloom_filter_add_string fp bf ip_port_str (length ip_port_str)) (\<lambda>(_, bf). Inr (False, bf))
       else Inr (is_repeat, bf))"

text \<open>The scanned port of a valid reply.\<close>

definition udp_reply :: "udp_conf \<Rightarrow> u8 list \<Rightarrow> nat \<Rightarrow> u16 option outcome" where
  "udp_reply c ip len =
     bind_out (ip_hl_bytes ip 0) (\<lambda>hl.
     bind_out (ip_p ip 0) (\<lambda>proto.
       if proto = IPPROTO_UDP then udp_reply_port c ip len hl
       else if proto = IPPROTO_ICMP then icmp_reply_port c ip len hl
       else Inr None))"

definition udp_validate_packet ::
    "udp_conf \<Rightarrow> bloom_filter \<Rightarrow> u8 list \<Rightarrow> nat \<Rightarrow> bool \<Rightarrow> (int \<times> bool \<times> bloom_filter) outcome" where
  "udp_validate_packet c bf ip len is_repeat =
     bind_out (udp_reply c ip len) (\<lambda>r. case r of
         None \<Rightarrow> Inr (PACKET_INVALID, is_repeat, bf)
       | Some dport \<Rightarrow>
           bind_out (bytes_at ip 12 (udp_ipv46_bytes c)) (\<lambda>src.
           bind_out (note_reply (udp_math c) bf (src @ net_bytes dport) is_repeat) (\<lambda>(is_repeat, bf).
             Inr (PACKET_VALID, is_repeat, bf))))"

section \<open>The filter of replies\<close>

lemma note_reply_spec:
  assumes "filter_ok bf" "length key \<le> 32"
  shows "note_reply fp bf key is_repeat =
    Inr (if bloom_seen fp bf key then (is_repeat, bf) else (False, bloom_put fp bf key))"
  unfolding note_reply_def bloom_seen_iff [OF assms] check_string_spec [OF assms] bloom_put_spec(5) [OF assms]
  by (simp add: BLOOM_SUCCESS_def BLOOM_FAILURE_def del: bind_out_eq_Inr)

text \<open>The keys of a run of valid replies and the flags they get.\<close>

fun note_replies :: "bloom_math \<Rightarrow> bloom_filter \<Rightarrow> u8 list list \<Rightarrow> (bool list \<times> bloom_filter) outcome" where
  "note_replies fp bf [] = Inr ([], bf)"
| "note_replies fp bf (k # ks) =
     bind_out (note_reply fp bf k True) (\<lambda>(r, bf).
     bind_out (note_replies fp bf ks) (\<lambda>(rs, bf). Inr (r # rs, bf)))"

lemma note_replies_report:
  assumes "filter_ok bf" "\<forall>k \<in> set ks. length k \<le> 32"
  shows "\<exists>rs. note_replies fp bf ks = Inr (rs, snd (report_new (bloom_seen fp) (bloom_put fp) bf ks))
    \<and> length rs = length ks
    \<and> map fst (filter (\<lambda>(k, r). \<not> r) (zip ks rs)) = fst (report_new (bloom_seen fp) (bloom_put fp) bf ks)"
  using assms
proof (induction ks arbitrary: bf)
  case (Cons k ks)
  let ?bf = "if bloom_seen fp bf k then bf else bloom_put fp bf k"
  have ok: "filter_ok ?bf" using Cons.prems bloom_put_spec(1) by simp
  obtain rs where rs: "note_replies fp ?bf ks = Inr (rs, snd (report_new (bloom_seen fp) (bloom_put fp) ?bf ks))"
    "length rs = length ks"
    "map fst (filter (\<lambda>(k, r). \<not> r) (zip ks rs)) = fst (report_new (bloom_seen fp) (bloom_put fp) ?bf ks)"
    using Cons.IH [OF ok] Cons.prems(2) by auto
  have "note_reply fp bf k True = Inr (bloom_seen fp bf k, ?bf)"
    using note_reply_spec [OF Cons.prems(1), of k fp True] Cons.prems(2) by (cases "bloom_seen fp bf k") simp_all
  then show ?case using rs
    by (intro exI [of _ "bloom_seen fp bf k # rs"]) (cases "bloom_seen fp bf k"; simp del: bind_out_eq_Inr)
qed simp

text \<open>
  In any run of valid replies, the ones that are flagged as new come from distinct
  pairs of source and port, and every pair of the run is known at the end. So no host is counted or
  printed twice when duplicates are filtered.
\<close>

lemma replies_unique_once:
  assumes "filter_ok bf" "\<forall>k \<in> set ks. length k \<le> 32"
  shows "\<exists>rs bf'. note_replies fp bf ks = Inr (rs, bf') \<and> length rs = length ks
    \<and> distinct (map fst (filter (\<lambda>(k, r). \<not> r) (zip ks rs)))
    \<and> (\<forall>k \<in> set ks. bloom_seen fp bf' k)"
proof -
  obtain rs where "note_replies fp bf ks = Inr (rs, snd (report_new (bloom_seen fp) (bloom_put fp) bf ks))"
    "length rs = length ks"
    "map fst (filter (\<lambda>(k, r). \<not> r) (zip ks rs)) = fst (report_new (bloom_seen fp) (bloom_put fp) bf ks)"
    using note_replies_report [OF assms, of fp] by blast
  then show ?thesis using bloom.report_new_spec(1,3) [where fp = fp, OF assms] by auto
qed

lemma ex_bloom_ok: "filter_ok ex_bloom"
  by (simp add: filter_ok_def ex_bloom_def bloom_filter_init_alt_def calculate_optimal_hashes_def ex_math_def
      bloom_filter_set_hash_function_def Let_def)

end
