(* ===== verification/Packet_Icmp.thy ===== *)
theory Packet_Icmp
  imports HMap_Prelude
begin

text \<open>The names of ICMP types and codes: \<open>src/probe_modules/packet_icmp.c\<close>.\<close>

definition ICMP_TYPE_MAX_INDEX :: int where "ICMP_TYPE_MAX_INDEX = 40"

definition ICMP_TYPE_STR :: "string list" where
  "ICMP_TYPE_STR = [
    ''echoreply'', ''other'', ''other'', ''unreach'', ''srcquench'', ''redirect'', ''althostaddr'',
    ''other'', ''echo'', ''rtradvert'', ''rtrsolicit'', ''timexceed'', ''paramprob'', ''tstamp'',
    ''tstampreply'', ''info'', ''inforeply'', ''mask'', ''maskreply'', ''other'', ''other'',
    ''other'', ''other'', ''other'', ''other'', ''other'', ''other'', ''other'', ''other'',
    ''other'', ''traceroute'', ''dataconverr'', ''mobile-redirect'', ''ipv6-whereareyou'',
    ''ipv6-iamhere'', ''mobile-reg'', ''mobile-regreply'', ''dns'', ''dnsreply'', ''skip'',
    ''photuris'']"

definition ICMP_TYPE_CODE_MAX_INDEX :: "int list" where
  "ICMP_TYPE_CODE_MAX_INDEX = [
    0, 0, 0, 15, 0, 3, 0, 0, 0, 16, 0, 1, 2, 0, 0, 0, 0, 0, 0, 0, 0, 0, 0, 0, 0, 0, 0, 0, 0, 0, 0,
    0, 0, 0, 0, 0, 0, 0, 0, 0, 5]"

definition ICMP_TYPE_CODE_STR :: "string list list" where
  "ICMP_TYPE_CODE_STR = [
    [''no code''],
    [''unknown''],
    [''unknown''],
    [''net unreachable'', ''host unreachable'', ''protocol unreachable'', ''port unreachable'',
    ''fragments required'', ''source route failed'', ''dst net unknown'', ''dst host unknown'',
    ''src host isolated'', ''dst net admin prohibited'', ''dst host admin prohibited'',
    ''dst net unreachable tos'', ''dst host unreachable tos'', ''communication admin prohibited'',
    ''host precedence violation'', ''precedence cutoff''],
    [''no code''],
    [''net redirect'', ''host redirect'', ''net redirect tos'', ''host redirect tos''],
    [''alternate address''],
    [''unknown''],
    [''no code''],
    [''router advertisement normal'', ''unknown'', ''unknown'', ''unknown'', ''unknown'',
    ''unknown'', ''unknown'', ''unknown'', ''unknown'', ''unknown'', ''unknown'', ''unknown'',
    ''unknown'', ''unknown'', ''unknown'', ''unknown'', ''not route common traffic''],
    [''no code''],
    [''transit time exceeded'', ''fragment reassembly time exceeded''],
    [''error at pointer'', ''option required'', ''bad length''],
    [''no code''],
    [''no code''],
    [''no code''],
    [''no code''],
    [''no code''],
    [''no code''],
    [''unknown''],
    [''unknown''],
    [''unknown''],
    [''unknown''],
    [''unknown''],
    [''unknown''],
    [''unknown''],
    [''unknown''],
    [''unknown''],
    [''unknown''],
    [''unknown''],
    [''no code''],
    [''no code''],
    [''no code''],
    [''no code''],
    [''no code''],
    [''no code''],
    [''no code''],
    [''no code''],
    [''no code''],
    [''no code''],
    [''bad spi'', ''authentication failed'', ''decompression failed'', ''decryption failed'',
    ''need authentication'', ''need authorization'']]"

text \<open>A lookup outside a table reads past it; a row has no name past its last entry.\<close>

definition get_icmp_type_str :: "int \<Rightarrow> string outcome" where
  "get_icmp_type_str type =
     (if type > ICMP_TYPE_MAX_INDEX then Inr ''other''
      else if type < 0 then Inl Out_of_bounds
      else Inr (ICMP_TYPE_STR ! nat type))"

definition get_icmp_type_code_str :: "int \<Rightarrow> int \<Rightarrow> string outcome" where
  "get_icmp_type_code_str type code =
     (if type > ICMP_TYPE_MAX_INDEX then Inr ''unknown''
      else if type < 0 then Inl Out_of_bounds
      else if code > ICMP_TYPE_CODE_MAX_INDEX ! nat type then Inr ''unknown''
      else if code < 0 \<or> nat code \<ge> length (ICMP_TYPE_CODE_STR ! nat type) then Inl Out_of_bounds
      else Inr (ICMP_TYPE_CODE_STR ! nat type ! nat code))"

text \<open>A type and a code that come from the bytes of a packet always have a name.\<close>

lemma icmp_rows: "list_all2 (\<lambda>m row. nat m < length row) ICMP_TYPE_CODE_MAX_INDEX ICMP_TYPE_CODE_STR"
  by (simp add: ICMP_TYPE_CODE_MAX_INDEX_def ICMP_TYPE_CODE_STR_def)

lemma get_icmp_type_str_total: "0 \<le> type \<Longrightarrow> \<exists>s. get_icmp_type_str type = Inr s"
  by (simp add: get_icmp_type_str_def)

lemma get_icmp_type_code_str_total:
  assumes "0 \<le> type" "0 \<le> code"
  shows "\<exists>s. get_icmp_type_code_str type code = Inr s"
proof (cases "type > ICMP_TYPE_MAX_INDEX")
  case False
  then have "nat type < length ICMP_TYPE_CODE_MAX_INDEX"
    by (simp add: ICMP_TYPE_MAX_INDEX_def ICMP_TYPE_CODE_MAX_INDEX_def)
  then have "nat (ICMP_TYPE_CODE_MAX_INDEX ! nat type) < length (ICMP_TYPE_CODE_STR ! nat type)"
    using icmp_rows by (simp add: list_all2_conv_all_nth)
  then show ?thesis using assms by (auto simp: get_icmp_type_code_str_def)
qed (simp add: get_icmp_type_code_str_def)

end
