(* ===== verification/Dns_Probe.thy ===== *)
theory Dns_Probe
  imports Udp Packet_Icmp
begin

text \<open>
  The rest of the DNS probe module \<open>src/probe_modules/module_dns.c\<close>: the packets of a probe, the
  validation of replies and the record that is made of a reply.
\<close>

section \<open>Probes\<close>

definition MAX_PACKET_SIZE :: nat where "MAX_PACKET_SIZE = 4096"

definition ETH :: nat where "ETH = 14"
definition IP_END :: nat where "IP_END = 34"
definition PAYLOAD :: nat where "PAYLOAD = 42"

definition put_headers :: "dns_state \<Rightarrow> nat \<Rightarrow> u8 list \<Rightarrow> u8 list" where
  "put_headers st i buf =
     (let l = dns_packet_lens st ! i;
          buf = make_ip_header ETH IPPROTO_UDP (of_nat (sizeof_ip + sizeof_udphdr + l)) buf
      in make_udp_header IP_END (of_nat (sizeof_udphdr + l)) buf)"

definition put_question :: "dns_state \<Rightarrow> nat \<Rightarrow> u8 list \<Rightarrow> u8 list" where
  "put_question st i buf = put_at PAYLOAD (take (dns_packet_lens st ! i) (dns_packets st ! i)) buf"

text \<open>The buffer of a thread and the length of its packets.\<close>

definition dns_thread_init :: "dns_state \<Rightarrow> u8 list \<Rightarrow> u8 list \<Rightarrow> (u8 list \<times> nat) outcome" where
  "dns_thread_init st src gw =
     (if dns_packet_lens st = [] then Inl Out_of_bounds
      else
        let buf = put_headers st 0 (make_eth_header 0 src gw (replicate MAX_PACKET_SIZE 0));
            packet_length = PAYLOAD + dns_packet_lens st ! 0
        in if packet_length > MAX_PACKET_SIZE then Inl Assert_failed
           else Inr (put_question st 0 buf, packet_length))"

text \<open>The checksums, each computed with its field set to 0; a checksum is stored as the host has it.\<close>

definition put_udp_sum :: "u8 list \<Rightarrow> u8 list \<Rightarrow> u8 list \<Rightarrow> u8 list outcome" where
  "put_udp_sum src_ip dst_ip buf =
     (let buf = put_at (IP_END + 6) [0, 0] buf
      in bind_out (udp_checksum src_ip dst_ip (drop IP_END buf)) (\<lambda>s. Inr (put_at (IP_END + 6) (host_bytes s) buf)))"

definition put_ip_sum :: "u8 list \<Rightarrow> u8 list outcome" where
  "put_ip_sum buf =
     (let buf = put_at (ETH + 10) [0, 0] buf
      in bind_out (ip_checksum' (drop ETH buf)) (\<lambda>s. Inr (put_at (ETH + 10) (host_bytes s) buf)))"

text \<open>With several questions the headers and the question are written for every probe.\<close>

definition put_probe_question :: "dns_state \<Rightarrow> u8 list \<Rightarrow> nat \<Rightarrow> nat \<Rightarrow> (u8 list \<times> nat) outcome" where
  "put_probe_question st buf buf_len probe_num =
     (if length (dns_packets st) > 1 then
        if probe_num \<ge> length (dns_packets st) then Inl Out_of_bounds
        else
          let buf = put_headers st probe_num buf; buf_len = PAYLOAD + dns_packet_lens st ! probe_num
          in if buf_len > MAX_PACKET_SIZE then Inl Assert_failed else Inr (put_question st probe_num buf, buf_len)
      else Inr (buf, buf_len))"

definition dns_make_packet ::
    "udp_conf \<Rightarrow> dns_state \<Rightarrow> u8 list \<Rightarrow> nat \<Rightarrow> u8 list \<Rightarrow> u8 list \<Rightarrow> u16 \<Rightarrow> u8 \<Rightarrow> nat
     \<Rightarrow> (u8 list \<times> nat) outcome" where
  "dns_make_packet c st buf buf_len src_ip dst_ip dst_port ttl probe_num =
     bind_out (put_probe_question st buf buf_len probe_num) (\<lambda>(buf, buf_len).
     let buf = put_at (ETH + 8) [ttl] (put_at (ETH + 16) (take 4 dst_ip) (put_at (ETH + 12) (take 4 src_ip) buf))
     in bind_out (validate_gen (udp_validate c) (udp_ipv46_bytes c) src_ip dst_ip dst_port) (\<lambda>validation.
        let sport = get_src_port (udp_ports c) (udp_num_sports c) (int probe_num) validation;
            buf = put_at (IP_END + 2) (htons_bytes dst_port) (put_at IP_END (htons_bytes sport) buf);
            buf = put_at PAYLOAD (host_bytes (get_dns_txid validation)) buf
        in bind_out (put_udp_sum (take 4 src_ip) (take 4 dst_ip) buf) (\<lambda>buf.
           bind_out (put_ip_sum buf) (\<lambda>buf. Inr (buf, buf_len)))))"

section \<open>Replies\<close>

text \<open>Where the UDP header of a reply, or of the probe in an ICMP error, is, and the scanned port.\<close>

definition dns_udp_header :: "u8 list \<Rightarrow> nat \<Rightarrow> (nat \<times> u16) option outcome" where
  "dns_udp_header ip len =
     bind_out (ip_hl_bytes ip 0) (\<lambda>hl.
     bind_out (ip_p ip 0) (\<lambda>proto.
       if proto = IPPROTO_UDP then bind_out (u16_at ip hl) (\<lambda>dport. Inr (Some (hl, dport)))
       else if proto = IPPROTO_ICMP then
         let min_len = hl + ICMP_UNREACH_HEADER_SIZE + sizeof_ip + sizeof_udphdr;
             inner = hl + ICMP_UNREACH_HEADER_SIZE
         in if len < min_len then Inr None
            else bind_out (ip_hl_bytes ip inner) (\<lambda>inner_hl.
              if len < inner_hl + (min_len - sizeof_ip) then Inr None
              else bind_out (u16_at ip (inner + inner_hl + 2)) (\<lambda>dport. Inr (Some (inner + inner_hl, dport))))
       else Inl Assert_failed))"

definition dns_validate_packet ::
    "udp_conf \<Rightarrow> dns_state \<Rightarrow> bloom_filter \<Rightarrow> u8 list \<Rightarrow> nat \<Rightarrow> bool \<Rightarrow> (int \<times> bool \<times> bloom_filter) outcome" where
  "dns_validate_packet c st bf ip len is_repeat =
     bind_out (udp_validate_packet c bf ip len is_repeat) (\<lambda>(r, is_repeat, bf).
       if r = PACKET_INVALID then Inr (PACKET_INVALID, is_repeat, bf)
       else bind_out (dns_udp_header ip len) (\<lambda>h. case h of
         None \<Rightarrow> Inr (PACKET_INVALID, is_repeat, bf)
       | Some (udp, dport) \<Rightarrow>
           if \<not> target_port_flag c dport then Inr (PACKET_INVALID, is_repeat, bf)
           else bind_out (u16_at ip (udp + 4)) (\<lambda>udp_len.
             if length (filter (\<lambda>l. unat udp_len \<ge> l) (dns_packet_lens st)) = 0
             then Inr (PACKET_INVALID, is_repeat, bf)
             else if len < unat udp_len then Inr (PACKET_INVALID, is_repeat, bf)
             else Inr (PACKET_VALID, is_repeat, bf))))"

text \<open>\<open>strcmp\<close> of a string with the memory at a position.\<close>

fun strcmp_at :: "u8 list \<Rightarrow> nat \<Rightarrow> u8 list \<Rightarrow> bool outcome" where
  "strcmp_at mem p [] = bind_out (byte_at mem p) (\<lambda>b. Inr (b = 0))"
| "strcmp_at mem p (c # s) = bind_out (byte_at mem p) (\<lambda>b. if b = c then strcmp_at mem (p + 1) s else Inr False)"

text \<open>
  The loop over the questions: the number of those that are not longer than the reply, up to the one
  that matches, and whether one matches. The type and class are compared with those of the query's own
  packet.
\<close>

fun match_questions ::
    "dns_state \<Rightarrow> u8 list \<Rightarrow> nat \<Rightarrow> nat \<Rightarrow> u16 \<Rightarrow> nat list \<Rightarrow> (nat \<times> bool) outcome" where
  "match_questions st ip dns udp_len txid [] = Inr (0, False)"
| "match_questions st ip dns udp_len txid (i # is) =
     (if udp_len < dns_packet_lens st ! i then match_questions st ip dns udp_len txid is
      else
        bind_out (bytes_at ip dns 2) (\<lambda>id.
        bind_out (if id = host_bytes txid
                  then strcmp_at ip (dns + 12) (takeWhile (\<lambda>b. b \<noteq> 0) (bytes_of (qnames st ! i)))
                  else Inr False) (\<lambda>same.
        bind_out (if same
                  then bind_out (u16_at (dns_packets st ! i) (12 + qname_lens st ! i)) (\<lambda>qtype.
                       bind_out (u16_at (dns_packets st ! i) (12 + qname_lens st ! i + 2)) (\<lambda>qclass.
                         Inr (qtype = qtypes st ! i \<and> qclass = 1)))
                  else Inr False) (\<lambda>valid.
          if valid then Inr (1, True)
          else bind_out (match_questions st ip dns udp_len txid is) (\<lambda>(match, v). Inr (match + 1, v))))))"

text \<open>Fields added one after the other.\<close>

fun fs_add_fields :: "fieldset \<Rightarrow> (string \<times> fval) list \<Rightarrow> fieldset outcome" where
  "fs_add_fields fs [] = Inr fs"
| "fs_add_fields fs ((name, v) # vs) = bind_out (fs_add_word fs (Some name) v) (\<lambda>fs. fs_add_fields fs vs)"

definition bool_val :: "bool \<Rightarrow> fval" where "bool_val b = Flag (if b then 1 else 0)"

definition num16 :: "u16 \<Rightarrow> fval" where "num16 w = Uint (ucast w)"

text \<open>A bit field of a byte.\<close>

definition bits8 :: "u8 \<Rightarrow> nat \<Rightarrow> nat \<Rightarrow> fval" where
  "bits8 b lo n = Uint (ucast (take_bit n (drop_bit lo b)))"

definition dns_null_header :: "(string \<times> fval) list" where
  "dns_null_header = map (\<lambda>n. (n, Null)) [''dns_id'', ''dns_rd'', ''dns_tc'', ''dns_aa'', ''dns_opcode'', ''dns_qr'',
     ''dns_rcode'', ''dns_cd'', ''dns_ad'', ''dns_z'', ''dns_ra'', ''dns_qdcount'', ''dns_ancount'', ''dns_nscount'',
     ''dns_arcount'']"

definition dns_no_sections :: "(string \<times> fval) list" where
  "dns_no_sections = map (\<lambda>n. (n, Rep fs_new_repeated_fieldset))
       [''dns_questions'', ''dns_answers'', ''dns_authorities'', ''dns_additionals'']
     @ [(''dns_unconsumed_bytes'', Uint 0), (''dns_parse_err'', Uint 1)]"

text \<open>The 12 bytes of the header and the sections of a reply that matches a question.\<close>

definition dns_header_fields :: "u8 list \<Rightarrow> nat \<Rightarrow> (string \<times> fval) list outcome" where
  "dns_header_fields ip dns =
     bind_out (u16_at ip dns) (\<lambda>id. bind_out (byte_at ip (dns + 2)) (\<lambda>b2. bind_out (byte_at ip (dns + 3)) (\<lambda>b3.
     bind_out (u16_at ip (dns + 4)) (\<lambda>qd. bind_out (u16_at ip (dns + 6)) (\<lambda>an.
     bind_out (u16_at ip (dns + 8)) (\<lambda>ns. bind_out (u16_at ip (dns + 10)) (\<lambda>ar.
       Inr [(''dns_id'', num16 id), (''dns_rd'', bits8 b2 0 1), (''dns_tc'', bits8 b2 1 1), (''dns_aa'', bits8 b2 2 1),
            (''dns_opcode'', bits8 b2 3 4), (''dns_qr'', bits8 b2 7 1), (''dns_rcode'', bits8 b3 0 4),
            (''dns_cd'', bits8 b3 4 1), (''dns_ad'', bits8 b3 5 1), (''dns_z'', bits8 b3 6 1), (''dns_ra'', bits8 b3 7 1),
            (''dns_qdcount'', num16 qd), (''dns_ancount'', num16 an), (''dns_nscount'', num16 ns),
            (''dns_arcount'', num16 ar)])))))))"

definition dns_section_fields :: "text_lib \<Rightarrow> u8 list \<Rightarrow> nat \<Rightarrow> nat \<Rightarrow> (string \<times> fval) list outcome" where
  "dns_section_fields lib ip dns udp_len =
     bind_out (u16_at ip (dns + 4)) (\<lambda>qd. bind_out (u16_at ip (dns + 6)) (\<lambda>an.
     bind_out (u16_at ip (dns + 8)) (\<lambda>ns. bind_out (u16_at ip (dns + 10)) (\<lambda>ar.
     bind_out (dns_sections lib (drop dns ip) udp_len (nat ((int udp_len - 8 - 12) mod 65536))
                 (unat qd) (unat an) (unat ns) (unat ar)) (\<lambda>(qs, ans, auths, adds, left, err).
       Inr [(''dns_questions'', Rep qs), (''dns_answers'', Rep ans), (''dns_authorities'', Rep auths),
            (''dns_additionals'', Rep adds), (''dns_unconsumed_bytes'', Uint (of_nat left)),
            (''dns_parse_err'', Uint (if err then 1 else 0))])))))"

text \<open>The record of a UDP reply.\<close>

definition dns_process_udp ::
    "udp_conf \<Rightarrow> dns_state \<Rightarrow> text_lib \<Rightarrow> u8 list \<Rightarrow> nat \<Rightarrow> fieldset \<Rightarrow> fieldset outcome" where
  "dns_process_udp c st lib ip udp fs =
     bind_out (u16_at ip (udp + 4)) (\<lambda>ulen. let udp_len = unat ulen; dns = udp + sizeof_udphdr in
     bind_out (u16_at ip udp) (\<lambda>sport.
     bind_out (u16_at ip (udp + 2)) (\<lambda>dport.
     bind_out (ip_dst ip 0) (\<lambda>own.
     bind_out (ip_src ip 0) (\<lambda>target.
     bind_out (validate_gen (udp_validate c) (udp_ipv46_bytes c) own target sport) (\<lambda>validation.
     bind_out (match_questions st ip dns udp_len (get_dns_txid validation) [0 ..< length (dns_packets st)])
       (\<lambda>(match, is_valid).
     if match = 0 then Inl Assert_failed
     else
     bind_out (byte_at ip (dns + 2)) (\<lambda>b2.
     bind_out (byte_at ip (dns + 3)) (\<lambda>b3.
     bind_out (fs_add_fields fs [(''clas'', Str ''dns''), (''success'', bool_val is_valid),
        (''app_success'', bool_val (is_valid \<and> drop_bit 7 b2 = 1 \<and> take_bit 4 b3 = 0)),
        (''sport'', num16 sport), (''dport'', num16 dport), (''udp_pkt_size'', num16 ulen),
        (''icmp_responder'', Null), (''icmp_type'', Null), (''icmp_code'', Null), (''icmp_str'', Null)]) (\<lambda>fs.
     bind_out (if is_valid then dns_header_fields ip dns else Inr dns_null_header) (\<lambda>hdr.
     bind_out (if is_valid then dns_section_fields lib ip dns udp_len else Inr dns_no_sections) (\<lambda>secs.
     bind_out (fs_add_fields fs (hdr @ secs)) (\<lambda>fs.
     bind_out (if udp_len < sizeof_udphdr then Inl Out_of_bounds else bytes_at ip dns (udp_len - sizeof_udphdr)) (\<lambda>raw.
       fs_add_binary fs ''raw_data'' raw))))))))))))))"

text \<open>The record of an ICMP error.\<close>

definition dns_process_icmp :: "u8 list \<Rightarrow> nat \<Rightarrow> nat \<Rightarrow> u8 list \<Rightarrow> fieldset \<Rightarrow> fieldset outcome" where
  "dns_process_icmp ip hl len packet fs =
     (let inner = hl + ICMP_UNREACH_HEADER_SIZE in
     bind_out (ip_hl_bytes ip inner) (\<lambda>inner_hl. let udp = inner + inner_hl in
     bind_out (u16_at ip (udp + 4)) (\<lambda>ulen.
     bind_out (byte_at ip hl) (\<lambda>type.
     bind_out (byte_at ip (hl + 1)) (\<lambda>code.
     bind_out (u16_at ip udp) (\<lambda>sport.
     bind_out (u16_at ip (udp + 2)) (\<lambda>dport.
     bind_out (ip_src ip 0) (\<lambda>responder.
     bind_out (get_icmp_type_str (uint type)) (\<lambda>clas.
     bind_out (get_icmp_type_code_str (uint type) (uint code)) (\<lambda>icmp_str.
     bind_out (fs_add_fields fs ([(''clas'', Str clas), (''success'', bool_val False), (''app_success'', bool_val False),
        (''sport'', num16 sport), (''dport'', num16 dport), (''udp_pkt_size'', num16 ulen),
        (''icmp_responder'', Str (inet_ntoa responder)), (''icmp_type'', Uint (ucast type)),
        (''icmp_code'', Uint (ucast code)), (''icmp_str'', Str icmp_str)] @ dns_null_header @ dns_no_sections)) (\<lambda>fs.
     bind_out (bytes_at packet 0 len) (\<lambda>raw. fs_add_binary fs ''raw_data'' raw))))))))))))"

text \<open>\<open>packet\<close> is the captured frame and \<open>len\<close> its length.\<close>

definition dns_process_packet ::
    "udp_conf \<Rightarrow> dns_state \<Rightarrow> text_lib \<Rightarrow> u8 list \<Rightarrow> nat \<Rightarrow> fieldset \<Rightarrow> fieldset outcome" where
  "dns_process_packet c st lib packet len fs =
     (let ip = drop ETH packet in
     bind_out (ip_hl_bytes ip 0) (\<lambda>hl.
     bind_out (ip_p ip 0) (\<lambda>proto.
       if proto = IPPROTO_UDP then dns_process_udp c st lib ip hl fs
       else if proto = IPPROTO_ICMP then dns_process_icmp ip hl len packet fs
       else Inl Log_fatal)))"

text \<open>The fields that the module declares.\<close>

definition dns_fields :: "fielddef list" where
  "dns_fields = [(''clas'', ''string''), (''success'', ''bool''), (''app_success'', ''bool''), (''sport'', ''int''),
     (''dport'', ''int''), (''udp_pkt_size'', ''int''), (''icmp_responder'', ''string''), (''icmp_type'', ''int''),
     (''icmp_code'', ''int''), (''icmp_str'', ''string''), (''dns_id'', ''int''), (''dns_rd'', ''int''), (''dns_tc'', ''int''),
     (''dns_aa'', ''int''), (''dns_opcode'', ''int''), (''dns_qr'', ''int''), (''dns_rcode'', ''int''), (''dns_cd'', ''int''),
     (''dns_ad'', ''int''), (''dns_z'', ''int''), (''dns_ra'', ''int''), (''dns_qdcount'', ''int''), (''dns_ancount'', ''int''),
     (''dns_nscount'', ''int''), (''dns_arcount'', ''int''), (''dns_questions'', ''repeated''), (''dns_answers'', ''repeated''),
     (''dns_authorities'', ''repeated''), (''dns_additionals'', ''repeated''), (''dns_parse_err'', ''int''),
     (''dns_unconsumed_bytes'', ''int''), (''raw_data'', ''binary'')]"


section \<open>Bytes of a buffer\<close>

lemma length_put_at [simp]: "p + length bs \<le> length buf \<Longrightarrow> length (put_at p bs buf) = length buf"
  by (simp add: put_at_def)

lemma nth_put_at:
  "\<lbrakk>p + length bs \<le> length buf; i < length buf\<rbrakk> \<Longrightarrow>
     put_at p bs buf ! i = (if p \<le> i \<and> i < p + length bs then bs ! (i - p) else buf ! i)"
  by (auto simp: put_at_def nth_append)

lemma u16_at_nth: "u16_at mem p = (if p + 2 \<le> length mem then Inr (push_bit 8 (ucast (mem ! p)) OR ucast (mem ! (p + 1))) else Inl Out_of_bounds)"
  by (auto simp: u16_at_def bytes_at_def One_nat_def)

lemma u16_at_put_other:
  assumes "p + length bs \<le> length buf" "q + 2 \<le> p \<or> p + length bs \<le> q"
  shows "u16_at (put_at p bs buf) q = u16_at buf q"
  using assms nth_put_at [OF assms(1), of q] nth_put_at [OF assms(1), of "q + 1"] by (auto simp: u16_at_nth)

lemma u16_at_put_same:
  assumes "p + 2 \<le> length buf"
  shows "u16_at (put_at p (htons_bytes w) buf) p = Inr w"
proof -
  have l: "p + length (htons_bytes w) \<le> length buf" using assms by (simp add: htons_bytes_def)
  have "(push_bit 8 (ucast (ucast (drop_bit 8 w) :: u8)) OR ucast (ucast w :: u8) :: u16) = w"
    by (rule bit_word_eqI) (auto simp: bit_simps)
  then show ?thesis using assms l nth_put_at [OF l, of p] nth_put_at [OF l, of "p + 1"]
    by (simp add: u16_at_nth htons_bytes_def)
qed

lemma length_bytes_eqs [simp]: "length (htons_bytes w) = 2" "length (host_bytes w) = 2"
  by (simp_all add: htons_bytes_def host_bytes_def)

section \<open>The port a probe is sent from\<close>

lemma length_put_headers: "PAYLOAD \<le> length buf \<Longrightarrow> length (put_headers st i buf) = length buf"
  by (simp add: put_headers_def make_ip_header_def make_udp_header_def Let_def ETH_def IP_END_def PAYLOAD_def)

lemma length_put_question:
  "PAYLOAD + dns_packet_lens st ! i \<le> length buf \<Longrightarrow> length (put_question st i buf) = length buf"
  by (simp add: put_question_def)

lemma length_put_probe_question:
  "\<lbrakk>put_probe_question st buf n k = Inr (buf', m); length buf = MAX_PACKET_SIZE\<rbrakk> \<Longrightarrow> length buf' = MAX_PACKET_SIZE"
  by (auto simp: put_probe_question_def Let_def length_put_headers length_put_question PAYLOAD_def MAX_PACKET_SIZE_def
      split: if_splits)

lemma dns_make_packet_port:
  assumes "dns_make_packet c st buf n src_ip dst_ip dst_port ttl k = Inr (packet, m)"
    "length src_ip = 4" "length dst_ip = 4" "length buf = MAX_PACKET_SIZE"
  shows "\<exists>v. validate_gen (udp_validate c) (udp_ipv46_bytes c) src_ip dst_ip dst_port = Inr v
    \<and> u16_at packet IP_END = Inr (get_src_port (udp_ports c) (udp_num_sports c) (int k) v)
    \<and> u16_at packet (IP_END + 2) = Inr dst_port"
proof -
  note pos = ETH_def IP_END_def PAYLOAD_def MAX_PACKET_SIZE_def
  obtain buf1 m1 where h: "put_probe_question st buf n k = Inr (buf1, m1)"
    using assms(1) by (auto simp: dns_make_packet_def)
  note b1 = length_put_probe_question [OF h assms(4)]
  obtain v buf4 where s:
    "validate_gen (udp_validate c) (udp_ipv46_bytes c) src_ip dst_ip dst_port = Inr v"
    "put_udp_sum src_ip dst_ip (put_at PAYLOAD (host_bytes (get_dns_txid v)) (put_at (IP_END + 2) (htons_bytes dst_port)
      (put_at IP_END (htons_bytes (get_src_port (udp_ports c) (udp_num_sports c) (int k) v))
        (put_at (ETH + 8) [ttl] (put_at (ETH + 16) dst_ip (put_at (ETH + 12) src_ip buf1)))))) = Inr buf4"
    "put_ip_sum buf4 = Inr packet"
    using assms(1-3) by (auto simp: dns_make_packet_def Let_def h)
  let ?sp = "htons_bytes (get_src_port (udp_ports c) (udp_num_sports c) (int k) v)"
  let ?b = "put_at (ETH + 8) [ttl] (put_at (ETH + 16) dst_ip (put_at (ETH + 12) src_ip buf1))"
  have b: "length ?b = 4096" using assms(2,3) b1 by (simp add: pos)
  let ?c = "put_at PAYLOAD (host_bytes (get_dns_txid v)) (put_at (IP_END + 2) (htons_bytes dst_port) (put_at IP_END ?sp ?b))"
  have c: "length ?c = 4096" using b by (simp add: pos)
  obtain x where x: "buf4 = put_at (IP_END + 6) (host_bytes x) (put_at (IP_END + 6) [0, 0] ?c)"
    using s(2) by (auto simp: put_udp_sum_def Let_def)
  obtain y where y: "packet = put_at (ETH + 10) (host_bytes y) (put_at (ETH + 10) [0, 0] buf4)"
    using s(3) by (auto simp: put_ip_sum_def Let_def)
  have l: "length buf4 = 4096" using x c by (simp add: pos)
  have "u16_at packet q = u16_at ?c q" if "q = IP_END \<or> q = IP_END + 2" for q
  proof -
    have "u16_at packet q = u16_at buf4 q" unfolding y
      using that l by (subst u16_at_put_other; (subst u16_at_put_other)?) (auto simp: pos)
    also have "\<dots> = u16_at ?c q" unfolding x
      using that c by (subst u16_at_put_other; (subst u16_at_put_other)?) (auto simp: pos)
    finally show ?thesis .
  qed
  moreover have "u16_at ?c IP_END = Inr (get_src_port (udp_ports c) (udp_num_sports c) (int k) v)"
    using b by (simp add: u16_at_put_other u16_at_put_same pos)
  moreover have "u16_at ?c (IP_END + 2) = Inr dst_port"
    using b by (simp add: u16_at_put_other u16_at_put_same pos)
  ultimately show ?thesis using s(1) by simp
qed

section \<open>Which replies are accepted\<close>

text \<open>
  The source ports are those of the range, and at least one stream is sent.
\<close>

definition ports_ok :: "port_conf \<Rightarrow> int \<Rightarrow> bool" where
  "ports_ok c n \<longleftrightarrow> n = uint (source_port_last c) - uint (source_port_first c) + 1 \<and> 0 < n \<and> 1 \<le> packet_streams c"

text \<open>
  What a packet with the addresses and ports of a probe must show: a scanned port of an allowed target, and a
  source port of the range that is not above the one that the probe of the last stream to this target is sent
  from.
\<close>

definition own_probe :: "udp_conf \<Rightarrow> u8 list \<Rightarrow> u8 list \<Rightarrow> u16 \<Rightarrow> u16 \<Rightarrow> bool" where
  "own_probe c own target sport dport \<longleftrightarrow>
     target_port_flag c dport \<and> blocklist_is_allowed_ip (udp_blocklist c) target = Inr True
     \<and> (\<exists>v. validate_gen (udp_validate c) (udp_ipv46_bytes c) own target dport = Inr v
           \<and> source_port_first (udp_ports c) \<le> sport
           \<and> sport \<le> get_src_port (udp_ports c) (udp_num_sports c) (packet_streams (udp_ports c) - 1) v)"

lemma udp_checks_iff:
  "ports_ok (udp_ports c) (udp_num_sports c)
   \<Longrightarrow> udp_checks c dport sport own target = Inr True \<longleftrightarrow> own_probe c own target sport dport"
  by (auto simp: udp_checks_def own_probe_def check_src_port_up_to ports_ok_def split: if_splits)

text \<open>The IP header at \<open>p\<close>, the addresses and ports of a UDP packet.\<close>

definition udp_packet_at :: "u8 list \<Rightarrow> nat \<Rightarrow> u8 list \<Rightarrow> u8 list \<Rightarrow> u16 \<Rightarrow> u16 \<Rightarrow> bool" where
  "udp_packet_at ip p src dst sport dport \<longleftrightarrow>
     ip_src ip p = Inr src \<and> ip_dst ip p = Inr dst
     \<and> (\<exists>hl. ip_hl_bytes ip p = Inr hl \<and> u16_at ip (p + hl) = Inr sport \<and> u16_at ip (p + hl + 2) = Inr dport)"

lemma udp_reply_port_Some:
  assumes "udp_reply_port c ip len hl = Inr (Some dport)" "ip_hl_bytes ip 0 = Inr hl"
    "ports_ok (udp_ports c) (udp_num_sports c)"
  shows "\<exists>own target sport. udp_packet_at ip 0 target own dport sport \<and> own_probe c own target sport dport"
  using assms(1,2) by (auto simp: udp_reply_port_def udp_packet_at_def udp_checks_iff [OF assms(3)] split: if_splits)

lemma icmp_reply_port_Some:
  assumes "icmp_reply_port c ip len hl = Inr (Some dport)"
    "ports_ok (udp_ports c) (udp_num_sports c)"
  shows "\<exists>own target sport. udp_packet_at ip (hl + ICMP_UNREACH_HEADER_SIZE) own target sport dport
    \<and> own_probe c own target sport dport"
  using assms(1) by (auto simp: icmp_reply_port_def udp_packet_at_def udp_checks_iff [OF assms(2)] Let_def split: if_splits)

lemma udp_validate_valid:
  assumes "udp_validate_packet c bf ip len rep = Inr (PACKET_VALID, rep', bf')"
    "ports_ok (udp_ports c) (udp_num_sports c)"
  shows "(ip_p ip 0 = Inr IPPROTO_UDP \<and> (\<exists>own target sport dport.
            udp_packet_at ip 0 target own dport sport \<and> own_probe c own target sport dport))
       \<or> (ip_p ip 0 = Inr IPPROTO_ICMP \<and> (\<exists>hl own target sport dport. ip_hl_bytes ip 0 = Inr hl
            \<and> udp_packet_at ip (hl + ICMP_UNREACH_HEADER_SIZE) own target sport dport
            \<and> own_probe c own target sport dport))"
proof -
  obtain hl proto r where s: "ip_hl_bytes ip 0 = Inr hl" "ip_p ip 0 = Inr proto"
    "(if proto = IPPROTO_UDP then udp_reply_port c ip len hl
      else if proto = IPPROTO_ICMP then icmp_reply_port c ip len hl else Inr None) = Inr r"
    using assms(1) by (auto simp: udp_validate_packet_def udp_reply_def)
  have "r \<noteq> None" using assms(1) s by (cases r) (auto simp: udp_validate_packet_def udp_reply_def PACKET_INVALID_def PACKET_VALID_def simp del: if_split)
  then obtain dport where r: "r = Some dport" by auto
  show ?thesis
  proof (cases "proto = IPPROTO_UDP")
    case True
    then have "udp_reply_port c ip len hl = Inr (Some dport)" using s(3) r by simp
    from udp_reply_port_Some [OF this s(1) assms(2)] show ?thesis using s(2) True by blast
  next
    case False
    then have "proto = IPPROTO_ICMP" using s(3) r by (cases "proto = IPPROTO_ICMP") auto
    then have "icmp_reply_port c ip len hl = Inr (Some dport)" using s(3) r False by simp
    from icmp_reply_port_Some [OF this assms(2)] show ?thesis using s(1,2) \<open>proto = IPPROTO_ICMP\<close> by blast
  qed
qed

lemma dns_validate_valid:
  assumes "dns_validate_packet c st bf ip len rep = Inr (PACKET_VALID, rep', bf')"
    "ports_ok (udp_ports c) (udp_num_sports c)"
  shows "(ip_p ip 0 = Inr IPPROTO_UDP \<and> (\<exists>own target sport dport.
            udp_packet_at ip 0 target own dport sport \<and> own_probe c own target sport dport))
       \<or> (ip_p ip 0 = Inr IPPROTO_ICMP \<and> (\<exists>hl own target sport dport. ip_hl_bytes ip 0 = Inr hl
            \<and> udp_packet_at ip (hl + ICMP_UNREACH_HEADER_SIZE) own target sport dport
            \<and> own_probe c own target sport dport))"
proof -
  obtain r rep1 bf1 where "udp_validate_packet c bf ip len rep = Inr (r, rep1, bf1)" "r \<noteq> PACKET_INVALID"
    using assms(1) by (auto simp: dns_validate_packet_def PACKET_INVALID_def PACKET_VALID_def split: if_splits)
  moreover have "r = PACKET_VALID \<or> r = PACKET_INVALID"
    using calculation(1) by (auto simp: udp_validate_packet_def split: option.splits)
  ultimately show ?thesis using udp_validate_valid [OF _ assms(2)] by blast
qed

text \<open>A UDP reply with its headers in memory: what validation makes of it.\<close>

lemma udp_validate_reply:
  assumes "ip_p ip 0 = Inr IPPROTO_UDP" "ip_hl_bytes ip 0 = Inr hl" "hl + 8 \<le> len"
    "ip_src ip 0 = Inr target" "ip_dst ip 0 = Inr own"
    "u16_at ip hl = Inr dport" "u16_at ip (hl + 2) = Inr sport"
    "target_port_flag c dport" "blocklist_is_allowed_ip (udp_blocklist c) target = Inr True"
    "validate_gen (udp_validate c) (udp_ipv46_bytes c) own target dport = Inr v"
    "udp_ipv46_bytes c = 4" "filter_ok bf"
  defines "key \<equiv> target @ net_bytes dport"
  shows "udp_validate_packet c bf ip len rep = Inr
    (if check_src_port (udp_ports c) sport (udp_num_sports c) v
     then if bloom_seen (udp_math c) bf key then (PACKET_VALID, rep, bf)
          else (PACKET_VALID, False, bloom_put (udp_math c) bf key)
     else (PACKET_INVALID, rep, bf))"
proof -
  have "bytes_at ip 12 4 = Inr target" "length target = 4"
    using assms(4) by (auto simp: ip_src_def bytes_at_def split: if_splits)
  moreover from this have "length key \<le> 32" by (simp add: key_def net_bytes_def)
  note note_reply_spec [OF assms(12) this, of "udp_math c" rep]
  moreover have "\<not> len < hl + sizeof_udphdr" using assms(3) by (simp add: sizeof_udphdr_def)
  ultimately show ?thesis
    using assms(1-11) unfolding key_def
    by (simp add: udp_validate_packet_def udp_reply_def udp_reply_port_def udp_checks_def del: bind_out_eq_Inr add_2_eq_Suc')
qed

lemma dns_validate_reply:
  assumes "dns_make_packet c st buf n src_ip dst_ip dst_port ttl k = Inr (packet, m)"
    "length src_ip = 4" "length dst_ip = 4" "length buf = MAX_PACKET_SIZE"
    "udp_num_sports c = uint (source_port_last (udp_ports c)) - uint (source_port_first (udp_ports c)) + 1"
    "0 < udp_num_sports c" "int k < packet_streams (udp_ports c)" "packet_streams (udp_ports c) \<le> udp_num_sports c"
    "ip_p ip 0 = Inr IPPROTO_UDP" "ip_hl_bytes ip 0 = Inr hl"
    "ip_src ip 0 = Inr dst_ip" "ip_dst ip 0 = Inr src_ip"
    "u16_at ip hl = u16_at packet (IP_END + 2)" "u16_at ip (hl + 2) = u16_at packet IP_END"
    "u16_at ip (hl + 4) = Inr ulen" "hl + 8 \<le> len" "unat ulen \<le> len"
    "\<exists>l \<in> set (dns_packet_lens st). l \<le> unat ulen"
    "target_port_flag c dst_port" "blocklist_is_allowed_ip (udp_blocklist c) dst_ip = Inr True"
    "udp_ipv46_bytes c = 4" "filter_ok bf"
  shows "\<exists>v. validate_gen (udp_validate c) 4 src_ip dst_ip dst_port = Inr v
    \<and> dns_validate_packet c st bf ip len rep = Inr
       (if val16 v mod udp_num_sports c + packet_streams (udp_ports c) - 1 < udp_num_sports c
             \<or> udp_num_sports c \<le> val16 v mod udp_num_sports c + int k
        then if bloom_seen (udp_math c) bf (dst_ip @ net_bytes dst_port) then (PACKET_VALID, rep, bf)
             else (PACKET_VALID, False, bloom_put (udp_math c) bf (dst_ip @ net_bytes dst_port))
        else (PACKET_INVALID, rep, bf))"
proof -
  obtain v where v: "validate_gen (udp_validate c) (udp_ipv46_bytes c) src_ip dst_ip dst_port = Inr v"
    "u16_at packet IP_END = Inr (get_src_port (udp_ports c) (udp_num_sports c) (int k) v)"
    "u16_at packet (IP_END + 2) = Inr dst_port"
    using dns_make_packet_port [OF assms(1-4)] by blast
  have ports: "u16_at ip hl = Inr dst_port" "u16_at ip (hl + 2) = Inr (get_src_port (udp_ports c) (udp_num_sports c) (int k) v)"
    using assms(13,14) v(2,3) by simp_all
  note u = udp_validate_reply [OF assms(9,10,16,11,12) ports assms(19,20) v(1) assms(21,22), of rep]
  have o: "check_src_port (udp_ports c) (get_src_port (udp_ports c) (udp_num_sports c) (int k) v) (udp_num_sports c) v
      \<longleftrightarrow> val16 v mod udp_num_sports c + packet_streams (udp_ports c) - 1 < udp_num_sports c
        \<or> udp_num_sports c \<le> val16 v mod udp_num_sports c + int k"
    by (rule check_get_src_port) (use assms(5-8) in simp_all)
  have h: "dns_udp_header ip len = Inr (Some (hl, dst_port))"
    using assms(9,10) ports(1) by (simp add: dns_udp_header_def del: bind_out_eq_Inr)
  have f: "filter (\<lambda>l. unat ulen \<ge> l) (dns_packet_lens st) \<noteq> []" "\<not> len < unat ulen"
    using assms(17,18) by (simp_all add: filter_empty_conv)
  have "dns_validate_packet c st bf ip len rep = Inr
     (if check_src_port (udp_ports c) (get_src_port (udp_ports c) (udp_num_sports c) (int k) v) (udp_num_sports c) v
      then if bloom_seen (udp_math c) bf (dst_ip @ net_bytes dst_port) then (PACKET_VALID, rep, bf)
           else (PACKET_VALID, False, bloom_put (udp_math c) bf (dst_ip @ net_bytes dst_port))
      else (PACKET_INVALID, rep, bf))"
    using f by (simp add: dns_validate_packet_def u h assms(15,19) PACKET_VALID_def PACKET_INVALID_def del: bind_out_eq_Inr)
  then show ?thesis using v(1) unfolding o assms(21) by blast
qed

section \<open>An example of a reply\<close>

lemma dns_make_packet_returns:
  assumes "put_probe_question st buf n k = Inr (buf1, m)" "length buf1 = MAX_PACKET_SIZE"
    "u16_at buf1 (IP_END + 4) = Inr w" "unat w \<le> 4060" "length src_ip = 4" "length dst_ip = 4"
    "validate_gen (udp_validate c) (udp_ipv46_bytes c) src_ip dst_ip dst_port = Inr v"
  shows "\<exists>packet. dns_make_packet c st buf n src_ip dst_ip dst_port ttl k = Inr (packet, m)"
proof -
  note pos = ETH_def IP_END_def PAYLOAD_def MAX_PACKET_SIZE_def
  let ?b = "put_at PAYLOAD (host_bytes (get_dns_txid v)) (put_at (IP_END + 2) (htons_bytes dst_port)
      (put_at IP_END (htons_bytes (get_src_port (udp_ports c) (udp_num_sports c) (int k) v))
        (put_at (ETH + 8) [ttl] (put_at (ETH + 16) dst_ip (put_at (ETH + 12) src_ip buf1)))))"
  let ?u = "put_at (IP_END + 6) [0, 0] ?b"
  have l: "length ?u = 4096" using assms(2,5,6) by (simp add: pos)
  have "u16_at ?u (IP_END + 4) = Inr w"
    using assms(2,3,5,6) by (simp add: u16_at_put_other pos)
  then have "ntohs_at (drop IP_END ?u) 4 = w"
    using l by (simp add: u16_at_nth ntohs_at_def pos)
  then have "\<exists>s. udp_checksum src_ip dst_ip (drop IP_END ?u) = Inr s"
    using assms(4) l by (simp add: udp_checksum_def Let_def words_in_def pos)
  then obtain s where s: "put_udp_sum src_ip dst_ip ?b = Inr (put_at (IP_END + 6) (host_bytes s) ?u)"
    by (auto simp: put_udp_sum_def Let_def)
  have "\<exists>packet. put_ip_sum (put_at (IP_END + 6) (host_bytes s) ?u) = Inr packet"
    using l by (simp add: put_ip_sum_def Let_def ip_checksum'_def in_checksum_def pos)
  then show ?thesis using assms(1,5-7) s
    by (auto simp: dns_make_packet_def Let_def simp del: bind_out_eq_Inr)
qed

text \<open>
  C29: When at least one stream is sent and the ports are counted as initialisation does,
  a packet that the DNS module accepts is either a UDP packet from a scanned port of an allowed target, or an
  ICMP error around a UDP packet to such a port. The other port of that packet is one of the range of source
  ports, and not above the one that the last probe to this target is sent from. No other packet is counted,
  whatever its bytes are.
\<close>

theorem dns_accept_sound:
  assumes "dns_validate_packet c st bf ip len rep = Inr (PACKET_VALID, rep', bf')"
    "ports_ok (udp_ports c) (udp_num_sports c)"
  shows "(ip_p ip 0 = Inr IPPROTO_UDP \<and> (\<exists>own target sport dport.
            udp_packet_at ip 0 target own dport sport \<and> own_probe c own target sport dport))
       \<or> (ip_p ip 0 = Inr IPPROTO_ICMP \<and> (\<exists>hl own target sport dport. ip_hl_bytes ip 0 = Inr hl
            \<and> udp_packet_at ip (hl + ICMP_UNREACH_HEADER_SIZE) own target sport dport
            \<and> own_probe c own target sport dport))"
  by (rule dns_validate_valid [OF assms])

text \<open>
  C30: A UDP packet that comes back from the target of the \<open>k\<close>-th probe, from the scanned
  port to the port of that probe, with a UDP length that fits the packet and some question, is accepted,
  and flagged as a repetition only if the filter has seen the pair of target and port; unless the
  source ports of the streams of this target wrap around the end of the port range and the probe's
  port lies before it.
\<close>

theorem dns_accept_own:
  assumes "dns_make_packet c st buf n src_ip dst_ip dst_port ttl k = Inr (packet, m)"
    "length src_ip = 4" "length dst_ip = 4" "length buf = MAX_PACKET_SIZE"
    "udp_num_sports c = uint (source_port_last (udp_ports c)) - uint (source_port_first (udp_ports c)) + 1"
    "0 < udp_num_sports c" "int k < packet_streams (udp_ports c)" "packet_streams (udp_ports c) \<le> udp_num_sports c"
    "ip_p ip 0 = Inr IPPROTO_UDP" "ip_hl_bytes ip 0 = Inr hl"
    "ip_src ip 0 = Inr dst_ip" "ip_dst ip 0 = Inr src_ip"
    "u16_at ip hl = u16_at packet (IP_END + 2)" "u16_at ip (hl + 2) = u16_at packet IP_END"
    "u16_at ip (hl + 4) = Inr ulen" "hl + 8 \<le> len" "unat ulen \<le> len"
    "\<exists>l \<in> set (dns_packet_lens st). l \<le> unat ulen"
    "target_port_flag c dst_port" "blocklist_is_allowed_ip (udp_blocklist c) dst_ip = Inr True"
    "udp_ipv46_bytes c = 4" "filter_ok bf"
  shows "\<exists>v. validate_gen (udp_validate c) 4 src_ip dst_ip dst_port = Inr v
    \<and> dns_validate_packet c st bf ip len rep = Inr
       (if val16 v mod udp_num_sports c + packet_streams (udp_ports c) - 1 < udp_num_sports c
             \<or> udp_num_sports c \<le> val16 v mod udp_num_sports c + int k
        then if bloom_seen (udp_math c) bf (dst_ip @ net_bytes dst_port) then (PACKET_VALID, rep, bf)
             else (PACKET_VALID, False, bloom_put (udp_math c) bf (dst_ip @ net_bytes dst_port))
        else (PACKET_INVALID, rep, bf))"
  by (rule dns_validate_reply [OF assms])

definition ex_dns_conf :: "blocklist \<Rightarrow> udp_conf" where
  "ex_dns_conf bl = \<lparr>target_port_flag = (\<lambda>p. p = 53),
     udp_ports = \<lparr>source_port_first = 32768, source_port_last = 32777, packet_streams = 1\<rparr>, udp_num_sports = 10,
     udp_validate = \<lparr>inited = True, val_sched = replicate 44 0\<rparr>, udp_ipv46_bytes = 4, udp_blocklist = bl,
     udp_math = ex_math\<rparr>"

definition ex_dns_reply :: "u16 \<Rightarrow> u8 list" where
  "ex_dns_reply sport = [0x45, 0, 0, 0, 0, 0, 0, 0, 0, 17, 0, 0, 10, 2, 0, 1, 192, 168, 0, 1]
     @ net_bytes 53 @ net_bytes sport @ net_bytes 600 @ [0, 0]"

lemma ex_dns_reply_parts:
  "ip_p (ex_dns_reply w) 0 = Inr IPPROTO_UDP" "ip_hl_bytes (ex_dns_reply w) 0 = Inr 20"
  "ip_src (ex_dns_reply w) 0 = Inr [10, 2, 0, 1]" "ip_dst (ex_dns_reply w) 0 = Inr [192, 168, 0, 1]"
  "u16_at (ex_dns_reply w) 20 = Inr 53" "u16_at (ex_dns_reply w) (20 + 2) = Inr w"
  "u16_at (ex_dns_reply w) (20 + 4) = Inr 600"
proof -
  let ?h = "[0x45, 0, 0, 0, 0, 0, 0, 0, 0, 17, 0, 0, 10, 2, 0, 1, 192, 168, 0, 1] :: u8 list"
  have l: "length ?h = 20" "length (?h @ net_bytes 53) = 22" "length (?h @ net_bytes 53 @ net_bytes w) = 24"
    by (simp_all add: net_bytes_def eval_nat_numeral)
  show "u16_at (ex_dns_reply w) 20 = Inr 53" "u16_at (ex_dns_reply w) (20 + 2) = Inr w"
    "u16_at (ex_dns_reply w) (20 + 4) = Inr 600"
    unfolding ex_dns_reply_def
    using u16_at_net_bytes [OF l(1) [symmetric], of 53 "net_bytes w @ net_bytes 600 @ [0, 0]"]
      u16_at_net_bytes [OF l(2) [symmetric], of w "net_bytes 600 @ [0, 0]"]
      u16_at_net_bytes [OF l(3) [symmetric], of 600 "[0, 0]"] by simp_all
  have n: "length (ex_dns_reply w) = 28" by (simp add: ex_dns_reply_def net_bytes_def eval_nat_numeral)
  show "ip_p (ex_dns_reply w) 0 = Inr IPPROTO_UDP" "ip_hl_bytes (ex_dns_reply w) 0 = Inr 20"
    using n by (simp_all add: ip_p_def ip_hl_bytes_def byte_at_def ex_dns_reply_def IPPROTO_UDP_def)
  show "ip_src (ex_dns_reply w) 0 = Inr [10, 2, 0, 1]" "ip_dst (ex_dns_reply w) 0 = Inr [192, 168, 0, 1]"
    using n by (simp_all add: ip_src_def ip_dst_def bytes_at_def ex_dns_reply_def)
qed

lemma ex_dns_setup:
  obtains bl and st :: dns_state and packet w where
    "dns_global_init 1 None = Inr st" "blocklist_is_allowed_ip bl [10, 2, 0, 1] = Inr True"
    "\<exists>l \<in> set (dns_packet_lens st). l \<le> unat (600 :: u16)"
    "dns_make_packet (ex_dns_conf bl) st (replicate MAX_PACKET_SIZE 0) 68 [192, 168, 0, 1] [10, 2, 0, 1] 53 64 0
       = Inr (packet, 68)"
    "u16_at packet IP_END = Inr w" "u16_at packet (IP_END + 2) = Inr 53"
proof -
  obtain ret bl where r: "blocklist_init ex_net initial_blocklist None None (Some (map cidr_text ex_allow))
      (Some (map cidr_text ex_block)) False 16 0 4 0 = Inr (ret, bl)" "blocklist_is_allowed_ipvx bl 2562 = Inr True"
    by (rule ex_policy_run) (use ex_cidrs_meaning in force)
  then have "IPVX_MAX_PREFIX_LEN bl = 16" using blocklist_init_inv [OF r(1) fresh_initial ex_net_zero] by blast
  moreover have "mpz_from_uint8s_bits [10, 2, 0, 1] 16 = Inr 2562" by code_simp
  ultimately have bl: "blocklist_is_allowed_ip bl [10, 2, 0, 1] = Inr True"
    using r(2) by (simp add: blocklist_is_allowed_ip_def)
  let ?ps = "[(''A'', [''www'', ''qq'', ''com''])]"
  have t: "qtype_str_to_code (strupr ''A'') \<noteq> 0" "qtype_str_to_code (strupr ''A'') = DNS_QTYPE_A" by code_simp+
  from t(1) have "\<forall>p \<in> set ?ps. proper_question p"
    by (simp add: proper_question_def proper_labels_def dot_def numeral_2_eq_2)
  from build_global_queries [OF this] obtain st :: dns_state where st0: "build_global_dns_packets (map asked ?ps) = Inr st"
    "length (dns_packets st) = length ?ps" "dns_packet_lens st = map length (dns_packets st)"
    "\<forall>i < length ?ps. query_of (asked (?ps ! i)) (dns_packets st ! i)" by blast
  have "map asked ?ps = replicate 1 (default_domain, DNS_QTYPE_A)"
    using t(2) by (simp add: asked_def default_domain_def dot_def One_nat_def)
  then have init: "dns_global_init 1 None = Inr st" using st0(1) by (simp add: dns_global_init_def)
  have st: "length (dns_packets st) = 1" using st0(2) by (simp add: One_nat_def)
  have "dns_packet_lens st = [length (dns_packets st ! 0)]" using st0(2,3) by (cases "dns_packets st") auto
  moreover have "unat (600 :: u16) = 600" by simp
  moreover have "query_of (asked (?ps ! 0)) (dns_packets st ! 0)" using st0(4) by simp
  ultimately have lens: "\<exists>l \<in> set (dns_packet_lens st). l \<le> unat (600 :: u16)"
    by (simp add: query_of_def DNS_SEND_LEN_def)
  let ?c = "ex_dns_conf bl"
  obtain v where v: "validate_gen (udp_validate ?c) (udp_ipv46_bytes ?c) [192, 168, 0, 1] [10, 2, 0, 1] 53 = Inr v"
    using rijndaelEncrypt_total [of "validate_input 4 [192, 168, 0, 1] [10, 2, 0, 1] 53" 10 "replicate 44 0"]
    by (auto simp: validate_gen_def ex_dns_conf_def AES_KEY_BYTES_def AES_ROUNDS_def validate_input_def Let_def)
  have b: "put_probe_question st (replicate MAX_PACKET_SIZE 0) 68 0 = Inr (replicate MAX_PACKET_SIZE 0, 68)"
    using st by (simp add: put_probe_question_def)
  have z: "u16_at (replicate MAX_PACKET_SIZE 0) (IP_END + 4) = Inr 0"
    by (simp add: u16_at_nth MAX_PACKET_SIZE_def IP_END_def)
  obtain packet where p: "dns_make_packet ?c st (replicate MAX_PACKET_SIZE 0) 68 [192, 168, 0, 1] [10, 2, 0, 1] 53 64 0
       = Inr (packet, 68)"
    using dns_make_packet_returns [OF b _ z _ _ _ v] by auto
  from dns_make_packet_port [OF p] obtain w where "u16_at packet IP_END = Inr w" "u16_at packet (IP_END + 2) = Inr 53"
    by auto
  with init bl lens p show ?thesis by (rule that)
qed

lemma ex_dns_valid:
  obtains bl and st :: dns_state where "blocklist_is_allowed_ip bl [10, 2, 0, 1] = Inr True"
    "\<exists>w bf'. dns_validate_packet (ex_dns_conf bl) st ex_bloom (ex_dns_reply w) 620 False = Inr (PACKET_VALID, False, bf')"
proof -
  obtain bl and st :: dns_state and packet w where init: "dns_global_init 1 None = Inr st"
    and s: "blocklist_is_allowed_ip bl [10, 2, 0, 1] = Inr True"
    "\<exists>l \<in> set (dns_packet_lens st). l \<le> unat (600 :: u16)"
    "dns_make_packet (ex_dns_conf bl) st (replicate MAX_PACKET_SIZE 0) 68 [192, 168, 0, 1] [10, 2, 0, 1] 53 64 0
       = Inr (packet, 68)"
    "u16_at packet IP_END = Inr w" "u16_at packet (IP_END + 2) = Inr 53" by (rule ex_dns_setup)
  note V = dns_validate_reply [OF s(3), where ip = "ex_dns_reply w" and hl = 20 and ulen = 600 and len = 620
      and bf = ex_bloom and rep = False]
  have "val16 v mod 10 < 10" for v by simp
  then have "\<exists>bf'. dns_validate_packet (ex_dns_conf bl) st ex_bloom (ex_dns_reply w) 620 False = Inr (PACKET_VALID, False, bf')"
    using V s(1,2) ex_dns_reply_parts [of w] ex_bloom_ok unfolding s(4,5)
    by (auto simp: ex_dns_conf_def split: if_splits)
  with s(1) show ?thesis by (intro that) blast+
qed

theorem dns_accept_sound_witness:
  "\<exists>bl w own target sport dport. udp_packet_at (ex_dns_reply w) 0 target own dport sport
    \<and> own_probe (ex_dns_conf bl) own target sport dport"
proof -
  obtain bl and st :: dns_state where "\<exists>w bf'. dns_validate_packet (ex_dns_conf bl) st ex_bloom (ex_dns_reply w) 620 False
      = Inr (PACKET_VALID, False, bf')" by (rule ex_dns_valid)
  then obtain w bf' where "dns_validate_packet (ex_dns_conf bl) st ex_bloom (ex_dns_reply w) 620 False
      = Inr (PACKET_VALID, False, bf')" by blast
  moreover have "ports_ok (udp_ports (ex_dns_conf bl)) (udp_num_sports (ex_dns_conf bl))"
    by (simp add: ports_ok_def ex_dns_conf_def)
  note dns_accept_sound [OF calculation this]
  then show ?thesis
  proof (elim disjE conjE)
    assume "\<exists>own target sport dport. udp_packet_at (ex_dns_reply w) 0 target own dport sport
      \<and> own_probe (ex_dns_conf bl) own target sport dport"
    then show ?thesis by (intro exI [of _ bl] exI [of _ w])
  qed (use ex_dns_reply_parts(1) [of w] in \<open>simp add: IPPROTO_UDP_def IPPROTO_ICMP_def\<close>)
qed

theorem dns_accept_own_witness:
  "\<exists>bl st w bf'. dns_validate_packet (ex_dns_conf bl) (st :: dns_state) ex_bloom (ex_dns_reply w) 620 False
     = Inr (PACKET_VALID, False, bf')"
proof -
  obtain bl and st :: dns_state and packet w where init: "dns_global_init 1 None = Inr st"
    and s: "blocklist_is_allowed_ip bl [10, 2, 0, 1] = Inr True"
    "\<exists>l \<in> set (dns_packet_lens st). l \<le> unat (600 :: u16)"
    "dns_make_packet (ex_dns_conf bl) st (replicate MAX_PACKET_SIZE 0) 68 [192, 168, 0, 1] [10, 2, 0, 1] 53 64 0
       = Inr (packet, 68)"
    "u16_at packet IP_END = Inr w" "u16_at packet (IP_END + 2) = Inr 53" by (rule ex_dns_setup)
  note V = dns_accept_own [OF s(3), where ip = "ex_dns_reply w" and hl = 20 and ulen = 600 and len = 620
      and bf = ex_bloom and rep = False]
  have "val16 v mod 10 < 10" for v by simp
  then have "\<exists>bf'. dns_validate_packet (ex_dns_conf bl) st ex_bloom (ex_dns_reply w) 620 False = Inr (PACKET_VALID, False, bf')"
    using V s(1,2) ex_dns_reply_parts [of w] ex_bloom_ok unfolding s(4,5)
    by (auto simp: ex_dns_conf_def split: if_splits)
  then show ?thesis by blast
qed

section \<open>The record of a reply\<close>

text \<open>What initialisation sets up.\<close>

definition dns_state_ok :: "dns_state \<Rightarrow> bool" where
  "dns_state_ok st \<longleftrightarrow>
     length (dns_packet_lens st) = length (dns_packets st) \<and> length (qname_lens st) = length (dns_packets st)
     \<and> length (qnames st) = length (dns_packets st) \<and> length (qtypes st) = length (dns_packets st)
     \<and> (\<forall>i < length (dns_packets st). dns_packet_lens st ! i = length (dns_packets st ! i)
          \<and> length (dns_packets st ! i) = 12 + qname_lens st ! i + 4 \<and> length (qnames st ! i) = qname_lens st ! i
          \<and> CHR 0x00 \<in> set (qnames st ! i))"

lemma domain_to_qname_ends:
  assumes "domain_to_qname d = Inr (l, q)"
  shows "length q = l" "CHR 0x00 \<in> set q"
proof -
  have p: "length (put_length l i q) = length q" for l i q by (simp add: put_length_def)
  have "length (fold (put_length l) xs q) = length q" for l xs q
    by (induction xs arbitrary: q) (simp_all add: p)
  then show "length q = l" using assms p
    by (auto simp: domain_to_qname_def Let_def split: if_splits)
  moreover have "q = [CHR 0x00] \<or> (0 < l \<and> q ! (l - 1) = CHR 0x00)"
    using assms by (auto simp: domain_to_qname_def Let_def split: if_splits)
  ultimately show "CHR 0x00 \<in> set q" using last_conv_nth [of q] last_in_set [of q] by auto
qed

lemma build_packet_ok:
  assumes "build_packet d t = Inr (p, l, ql, q)"
  shows "l = length p" "length p = 12 + ql + 4" "length q = ql" "CHR 0x00 \<in> set q"
proof -
  obtain ql' q' where q: "domain_to_qname d = Inr (ql', q')"
    using assms by (cases "domain_to_qname d") (auto simp: build_packet_def)
  have b: "(if (12 + ql' + 4) mod 65536 > DNS_SEND_LEN then Inl Log_fatal
         else if (12 + ql' + 4) mod 65536 < 12 + ql' + 4 then Inl Out_of_bounds
         else Inr (dns_query_header @ bytes_of q' @ net_bytes t @ net_bytes 1, (12 + ql' + 4) mod 65536, ql', q'))
       = Inr (p, l, ql, q)"
    using assms by (simp only: build_packet_def Let_def q bind_out_simps prod.case)
  have e: "\<not> (12 + ql' + 4) mod 65536 < 12 + ql' + 4" "l = (12 + ql' + 4) mod 65536" "ql = ql'" "q = q'"
    "p = dns_query_header @ bytes_of q' @ net_bytes t @ net_bytes 1" using b by (auto split: if_splits)
  have "(12 + ql' + 4) mod 65536 \<le> 12 + ql' + 4" by (rule mod_less_eq_dividend)
  then have "l = 12 + ql' + 4" using e(1,2) by linarith
  then show "l = length p" "length p = 12 + ql + 4" "length q = ql" "CHR 0x00 \<in> set q"
    using domain_to_qname_ends [OF q] by (simp_all add: e(3-5) dns_query_header_def bytes_of_def net_bytes_def)
qed

lemma build_global_ok: "build_global_dns_packets ds = Inr st \<Longrightarrow> dns_state_ok st"
proof (induction ds arbitrary: st)
  case Nil
  then show ?case by (auto simp: dns_state_ok_def)
next
  case (Cons dt ds)
  obtain d t where dt: "dt = (d, t)" by (cases dt)
  obtain p l ql q st' where s: "build_packet d t = Inr (p, l, ql, q)" "build_global_dns_packets ds = Inr st'"
    "st = \<lparr>dns_packets = p # dns_packets st', dns_packet_lens = l # dns_packet_lens st',
       qname_lens = ql # qname_lens st', qnames = q # qnames st', qtypes = t # qtypes st'\<rparr>"
    using Cons.prems by (auto simp: dt)
  show ?case using Cons.IH [OF s(2)] build_packet_ok [OF s(1)]
    by (auto simp: dns_state_ok_def s(3) nth_Cons')
qed

lemma dns_global_init_ok: "dns_global_init n args = Inr st \<Longrightarrow> dns_state_ok st"
  by (auto simp: dns_global_init_def split: option.splits if_splits intro: build_global_ok)

lemma strcmp_at_returns: "p + length s < length mem \<Longrightarrow> \<exists>b. strcmp_at mem p s = Inr b"
  by (induction s arbitrary: p) (auto simp: byte_at_def)

lemma match_questions_returns:
  assumes "dns_state_ok st" "dns + udp_len \<le> length ip" "\<forall>i \<in> set is. i < length (dns_packets st)"
  shows "\<exists>m v. match_questions st ip dns udp_len txid is = Inr (m, v)
    \<and> (m = 0 \<longrightarrow> (\<forall>i \<in> set is. udp_len < dns_packet_lens st ! i))"
  using assms(3)
proof (induction "is")
  case (Cons i "is")
  show ?case
  proof (cases "udp_len < dns_packet_lens st ! i")
    case True
    then show ?thesis using Cons by simp
  next
    case False
    have i: "i < length (dns_packets st)" using Cons.prems by simp
    let ?s = "takeWhile (\<lambda>b. b \<noteq> 0) (bytes_of (qnames st ! i))"
    have q: "dns_packet_lens st ! i = 12 + qname_lens st ! i + 4" "length (dns_packets st ! i) = 12 + qname_lens st ! i + 4"
      "length (qnames st ! i) = qname_lens st ! i"
      using assms(1) i by (simp_all add: dns_state_ok_def)
    have "length ?s \<le> qname_lens st ! i" using length_takeWhile_le [of _ "bytes_of (qnames st ! i)"] q(3)
      by (simp add: bytes_of_def)
    then have "dns + 12 + length ?s < length ip" "dns + 2 \<le> length ip" using q(1) False assms(2) by linarith+
    then obtain b where b: "strcmp_at ip (dns + 12) ?s = Inr b" and id: "bytes_at ip dns 2 = Inr (take 2 (drop dns ip))"
      using strcmp_at_returns [of "dns + 12" ?s ip] unfolding bytes_at_def by presburger
    have tl: "12 + qname_lens st ! i + 2 \<le> length (dns_packets st ! i)"
      "12 + qname_lens st ! i + 2 + 2 \<le> length (dns_packets st ! i)" using q(2) by simp_all
    obtain t cl where t: "u16_at (dns_packets st ! i) (12 + qname_lens st ! i) = Inr t"
      "u16_at (dns_packets st ! i) (12 + qname_lens st ! i + 2) = Inr cl"
      using u16_at_returns [OF tl(1)] u16_at_returns [OF tl(2)] by blast
    obtain m v where m: "match_questions st ip dns udp_len txid is = Inr (m, v)" using Cons by auto
    show ?thesis
      using False b id t m
      by (cases "take 2 (drop dns ip) = host_bytes txid"; cases b; cases "t = qtypes st ! i \<and> cl = 1")
        (auto simp del: bind_out_eq_Inr add_2_eq_Suc')
  qed
qed auto

lemma fs_add_fields_room:
  assumes "fs_inner fs = None" "length (fs_fields fs) + length vs < MAX_FIELDS"
  shows "fs_add_fields fs vs = Inr (Fieldset None (fs_fields fs @ map (\<lambda>(n, v). (Some n, v)) vs))"
  using assms
proof (induction vs arbitrary: fs)
  case Nil
  then show ?case by (cases fs) simp
next
  case (Cons nv vs)
  obtain n v where nv: "nv = (n, v)" by (cases nv)
  have "fs_add_word fs (Some n) v = Inr (Fieldset None (fs_fields fs @ [(Some n, v)]))"
    using Cons.prems by (intro fs_add_word_room) simp_all
  then show ?case using Cons.IH [of "Fieldset None (fs_fields fs @ [(Some n, v)])"] Cons.prems
    by (simp add: nv del: bind_out_eq_Inr)
qed

text \<open>The names in the order in which they are added: the last two numbers are the other way round.\<close>

definition dns_record_names :: "string list" where
  "dns_record_names = take 29 (map fst dns_fields) @ [''dns_unconsumed_bytes'', ''dns_parse_err'', ''raw_data'']"

lemma dns_counts:
  assumes "dns + 12 \<le> length ip"
  obtains a b c d e where "u16_at ip dns = Inr a" "u16_at ip (dns + 4) = Inr b" "u16_at ip (dns + 6) = Inr c"
    "u16_at ip (dns + 8) = Inr d" "u16_at ip (dns + 10) = Inr e"
proof -
  have "dns + 2 \<le> length ip" "dns + 4 + 2 \<le> length ip" "dns + 6 + 2 \<le> length ip" "dns + 8 + 2 \<le> length ip"
    "dns + 10 + 2 \<le> length ip" using assms by simp_all
  note this [THEN u16_at_returns]
  then show ?thesis by (elim exE) (rule that)
qed

lemma dns_header_fields_returns:
  assumes "dns + 12 \<le> length ip"
  shows "\<exists>hdr. dns_header_fields ip dns = Inr hdr \<and> map fst hdr = map fst dns_null_header"
proof -
  obtain a b c d e where w: "u16_at ip dns = Inr a" "u16_at ip (dns + 4) = Inr b" "u16_at ip (dns + 6) = Inr c"
    "u16_at ip (dns + 8) = Inr d" "u16_at ip (dns + 10) = Inr e"
    using assms by (rule dns_counts)
  obtain f g where "byte_at ip (dns + 2) = Inr f" "byte_at ip (dns + 3) = Inr g" using assms by (simp add: byte_at_def)
  then show ?thesis using w
    by (simp add: dns_header_fields_def dns_null_header_def del: bind_out_eq_Inr add_2_eq_Suc')
qed

lemma dns_section_fields_settle:
  assumes "sanitizes (u8_check lib)" "20 \<le> udp_len" "udp_len < 65536" "dns + udp_len \<le> length ip"
  shows "settles (bad_text lib (drop dns ip) udp_len) (dns_section_fields lib ip dns udp_len)
    (\<lambda>secs. map fst secs = map fst dns_no_sections)"
proof -
  have "dns + 12 \<le> length ip" using assms(2,4) by linarith
  then obtain a b c d e where w: "u16_at ip dns = Inr a" "u16_at ip (dns + 4) = Inr b" "u16_at ip (dns + 6) = Inr c"
    "u16_at ip (dns + 8) = Inr d" "u16_at ip (dns + 10) = Inr e" by (rule dns_counts)
  have l: "nat ((int udp_len - 20) mod 65536) = udp_len - 20" using assms(2,3) by (simp add: mod_pos_pos_trivial)
  have "udp_len \<le> length (drop dns ip)" "12 + (udp_len - 20) \<le> udp_len" using assms(2,4) by simp_all
  from dns_sections_settle [OF assms(1) this, of "unat b" "unat c" "unat d" "unat e"] show ?thesis
  proof (rule settlesE)
    fix r assume "dns_sections lib (drop dns ip) udp_len (udp_len - 20) (unat b) (unat c) (unat d) (unat e) = Inr r"
    then show ?thesis using w
      by (cases r) (simp add: dns_section_fields_def dns_no_sections_def l settles_def del: bind_out_eq_Inr)
  next
    assume "dns_sections lib (drop dns ip) udp_len (udp_len - 20) (unat b) (unat c) (unat d) (unat e) = Inl Undefined_value"
      "bad_text lib (drop dns ip) udp_len"
    then show ?thesis using w by (simp add: dns_section_fields_def l settles_def del: bind_out_eq_Inr)
  qed
qed

lemma dns_record_made:
  assumes "dns_global_init n args = Inr st" "sanitizes (u8_check lib)"
    "ip_p (drop ETH packet) 0 = Inr IPPROTO_UDP" "ip_hl_bytes (drop ETH packet) 0 = Inr hl"
    "u16_at (drop ETH packet) (hl + 4) = Inr ulen" "20 \<le> unat ulen"
    "hl + 8 + unat ulen \<le> length (drop ETH packet)" "20 \<le> hl"
    "\<exists>l \<in> set (dns_packet_lens st). l \<le> unat ulen"
    "inited (udp_validate c)" "length (val_sched (udp_validate c)) = 44" "udp_ipv46_bytes c = 4"
    "fs_inner fs = None" "length (fs_fields fs) + 32 < MAX_FIELDS"
  shows "settles (bad_text lib (drop (ETH + hl + 8) packet) (unat ulen)) (dns_process_packet c st lib packet len fs)
    (\<lambda>fs'. map fst (fs_fields fs') = map fst (fs_fields fs) @ map Some dns_record_names
      \<and> (\<exists>b. fs_fields fs' ! (length (fs_fields fs) + 1) = (Some ''success'', bool_val b)) \<and> fs_inner fs' = None)"
proof -
  let ?ip = "drop ETH packet" and ?L = "unat ulen"
  define dns where "dns = hl + sizeof_udphdr"
  have len: "dns + ?L \<le> length ?ip" "dns + 12 \<le> length ?ip" "hl + 2 \<le> length ?ip" "hl + 2 + 2 \<le> length ?ip"
    "16 + 4 \<le> length ?ip" "12 + 4 \<le> length ?ip"
    using assms(6-8) by (simp_all add: dns_def sizeof_udphdr_def)
  have st: "dns_state_ok st" by (rule dns_global_init_ok [OF assms(1)])
  obtain sport dport where p: "u16_at ?ip hl = Inr sport" "u16_at ?ip (hl + 2) = Inr dport"
    using u16_at_returns [OF len(3)] u16_at_returns [OF len(4)] by blast
  obtain own target where a: "ip_dst ?ip 0 = Inr own" "ip_src ?ip 0 = Inr target" "length own = 4" "length target = 4"
    using len(5,6) by (simp add: ip_dst_def ip_src_def bytes_at_def)
  obtain v where v: "validate_gen (udp_validate c) (udp_ipv46_bytes c) own target sport = Inr v"
    using rijndaelEncrypt_total [of "validate_input 4 own target sport" 10 "val_sched (udp_validate c)"] assms(10-12) a(3,4)
    by (auto simp: validate_gen_def AES_KEY_BYTES_def AES_ROUNDS_def validate_input_def Let_def)
  obtain m ok where m: "match_questions st ?ip dns ?L (get_dns_txid v) [0 ..< length (dns_packets st)] = Inr (m, ok)"
    "m = 0 \<longrightarrow> (\<forall>i \<in> set [0 ..< length (dns_packets st)]. ?L < dns_packet_lens st ! i)"
    using match_questions_returns [OF st len(1), of "[0 ..< length (dns_packets st)]" "get_dns_txid v"] by auto
  have "m \<noteq> 0" using m(2) assms(9) st by (force simp: in_set_conv_nth dns_state_ok_def)
  obtain b2 b3 where b: "byte_at ?ip (dns + 2) = Inr b2" "byte_at ?ip (dns + 3) = Inr b3"
    using len(2) by (simp add: byte_at_def)
  obtain hdr where hdr: "(if ok then dns_header_fields ?ip dns else Inr dns_null_header) = Inr hdr"
    "map fst hdr = map fst dns_null_header"
    using dns_header_fields_returns [OF len(2)] by (cases ok) auto
  have "?L < 65536" using unsigned_less [of ulen, where ?'a = nat] by simp
  then have S: "settles (bad_text lib (drop dns ?ip) ?L) (if ok then dns_section_fields lib ?ip dns ?L else Inr dns_no_sections)
      (\<lambda>secs. map fst secs = map fst dns_no_sections)"
    using dns_section_fields_settle [OF assms(2,6) _ len(1)] by (cases ok) (auto simp: settles_def)
  have raw: "bytes_at ?ip dns (?L - sizeof_udphdr) = Inr (take (?L - sizeof_udphdr) (drop dns ?ip))" "\<not> ?L < sizeof_udphdr"
    using len(1) assms(6) by (simp_all add: bytes_at_def sizeof_udphdr_def)
  let ?f1 = "[(''clas'', Str ''dns''), (''success'', bool_val ok),
        (''app_success'', bool_val (ok \<and> drop_bit 7 b2 = 1 \<and> take_bit 4 b3 = 0)),
        (''sport'', num16 sport), (''dport'', num16 dport), (''udp_pkt_size'', num16 ulen),
        (''icmp_responder'', Null), (''icmp_type'', Null), (''icmp_code'', Null), (''icmp_str'', Null)]"
  let ?fs1 = "Fieldset None (fs_fields fs @ map (\<lambda>(n, v). (Some n, v)) ?f1)"
  have f1: "fs_add_fields fs ?f1 = Inr ?fs1"
    using assms(13,14) by (intro fs_add_fields_room) simp_all
  have at: "drop dns ?ip = drop (ETH + hl + 8) packet"
    by (simp add: dns_def sizeof_udphdr_def add.commute add.left_commute add.assoc)
  have ip_of: "dns_process_packet c st lib packet len fs = dns_process_udp c st lib ?ip hl fs"
    using assms(3,4) by (simp add: dns_process_packet_def Let_def del: bind_out_eq_Inr)
  from S show ?thesis
  proof (rule settlesE)
    assume bad: "(if ok then dns_section_fields lib ?ip dns ?L else Inr dns_no_sections) = Inl Undefined_value"
      "bad_text lib (drop dns ?ip) ?L"
    have "dns_process_udp c st lib ?ip hl fs = Inl Undefined_value"
      unfolding dns_process_udp_def assms(5) Let_def dns_def [symmetric] bind_out_simps p a(1,2) v m(1) prod.case b f1 hdr(1)
        bad(1) using \<open>m \<noteq> 0\<close> raw(2) by (simp only: if_False bind_out_simps f1 hdr(1) bad(1))
    then show ?thesis using bad(2) unfolding at by (simp add: settles_def ip_of)
  next
    fix secs
    assume secs: "(if ok then dns_section_fields lib ?ip dns ?L else Inr dns_no_sections) = Inr secs"
      "map fst secs = map fst dns_no_sections"
    have n: "length hdr = 15" "length secs = 6"
      using arg_cong [OF hdr(2), of length] arg_cong [OF secs(2), of length]
      by (simp_all add: dns_null_header_def dns_no_sections_def)
    let ?fs2 = "Fieldset None (fs_fields ?fs1 @ map (\<lambda>(n, v). (Some n, v)) (hdr @ secs))"
    have f2: "fs_add_fields ?fs1 (hdr @ secs) = Inr ?fs2"
      using assms(14) n by (intro fs_add_fields_room) simp_all
    let ?fs3 = "Fieldset None (fs_fields ?fs2 @ [(Some ''raw_data'', Binary (take (?L - sizeof_udphdr) (drop dns ?ip)))])"
    have f3: "fs_add_binary ?fs2 ''raw_data'' (take (?L - sizeof_udphdr) (drop dns ?ip)) = Inr ?fs3"
      using assms(14) n fs_add_word_room [of ?fs2] by (simp add: fs_add_binary_def)
    have "dns_process_udp c st lib ?ip hl fs = Inr ?fs3"
      unfolding dns_process_udp_def assms(5) Let_def dns_def [symmetric] bind_out_simps p a(1,2) v m(1) prod.case b f1 hdr(1) secs(1) f2
        raw(1) f3 using \<open>m \<noteq> 0\<close> raw(2) by (simp only: if_False bind_out_simps f1 hdr(1) secs(1) f2 raw(1) f3)
    then have res: "dns_process_packet c st lib packet len fs = Inr ?fs3" by (simp only: ip_of)
    have names: "map (fst \<circ> (\<lambda>(n, v). (Some n, v))) l = map Some (map fst l)" for l :: "(string \<times> fval) list"
      by (induction l) auto
    note nm = names [of hdr, unfolded hdr(2)] names [of secs, unfolded secs(2)]
    have n: "map fst (fs_fields ?fs3) = map fst (fs_fields fs) @ map Some dns_record_names"
      by (simp add: nm dns_record_names_def dns_fields_def dns_null_header_def dns_no_sections_def)
    have "fs_fields ?fs3 ! (length (fs_fields fs) + 1) = (Some ''success'', bool_val ok)"
      by (simp add: nth_append)
    then have "\<exists>b. fs_fields ?fs3 ! (length (fs_fields fs) + 1) = (Some ''success'', bool_val b)" by blast
    with res n show ?thesis by (simp add: settles_def)
  qed
qed

text \<open>
  C31: A UDP packet is recorded whose header is at least 20 bytes, whose UDP length is at least 20 and not
  shorter than some question, and of which as many bytes are in memory from the DNS header on as the UDP
  length says, 8 more than the datagram has. Then making the record ends in no assertion, no fatal message and no read outside, whatever
  the bytes are: the fields are added in the declared order but for the last two numbers, so the output shows the number of
  unconsumed bytes as the parse error and the error as that number, and the success flag is 0 or 1. The only other
  end is the undefined copy of \<open>sanitize_utf8\<close>, when a text of the message has more than two bytes after its first error.
\<close>

theorem dns_record:
  assumes "dns_global_init n args = Inr st" "sanitizes (u8_check lib)"
    "ip_p (drop ETH packet) 0 = Inr IPPROTO_UDP" "ip_hl_bytes (drop ETH packet) 0 = Inr hl"
    "u16_at (drop ETH packet) (hl + 4) = Inr ulen" "20 \<le> unat ulen"
    "hl + 8 + unat ulen \<le> length (drop ETH packet)" "20 \<le> hl"
    "\<exists>l \<in> set (dns_packet_lens st). l \<le> unat ulen"
    "inited (udp_validate c)" "length (val_sched (udp_validate c)) = 44" "udp_ipv46_bytes c = 4"
    "fs_inner fs = None" "length (fs_fields fs) + 32 < MAX_FIELDS"
  shows "(\<exists>fs'. dns_process_packet c st lib packet len fs = Inr fs'
      \<and> map fst (fs_fields fs') = map fst (fs_fields fs) @ map Some dns_record_names
      \<and> (\<exists>b. fs_fields fs' ! (length (fs_fields fs) + 1) = (Some ''success'', bool_val b)))
    \<or> (dns_process_packet c st lib packet len fs = Inl Undefined_value
      \<and> (\<exists>s. reply_text lib (drop (ETH + hl + 8) packet) (unat ulen) s \<and> overlaps (u8_check lib) s))"
  using dns_record_made [OF assms, of len] by (rule settlesE) (auto simp: bad_text_def)

text \<open>Where the two orders differ.\<close>

lemma dns_record_names_swapped:
  "dns_record_names ! 29 = ''dns_unconsumed_bytes''" "dns_record_names ! 30 = ''dns_parse_err''"
  "map fst dns_fields ! 29 = ''dns_parse_err''" "map fst dns_fields ! 30 = ''dns_unconsumed_bytes''"
  by (simp_all add: dns_record_names_def dns_fields_def)

text \<open>A reply of 628 bytes to the default question.\<close>

lemma parts_append:
  assumes "ip_p a 0 = Inr x" "ip_hl_bytes a 0 = Inr hl" "u16_at a p = Inr w"
  shows "ip_p (a @ b) 0 = Inr x" "ip_hl_bytes (a @ b) 0 = Inr hl" "u16_at (a @ b) p = Inr w"
  using assms by (auto simp: ip_p_def ip_hl_bytes_def byte_at_def u16_at_def bytes_at_def nth_append split: if_splits)

theorem dns_record_witness:
  "\<exists>st fs'. dns_global_init 1 None = Inr st
    \<and> dns_process_packet (ex_dns_conf initial_blocklist) st ex_text_lib
        (replicate 14 0 @ ex_dns_reply 32768 @ replicate 600 0) 642 fs_new_fieldset = Inr fs'
    \<and> map fst (fs_fields fs') = map Some dns_record_names"
proof -
  obtain st :: dns_state where init: "dns_global_init 1 None = Inr st"
    and lens: "\<exists>l \<in> set (dns_packet_lens st). l \<le> unat (600 :: u16)" by (rule ex_dns_setup)
  let ?packet = "replicate 14 0 @ ex_dns_reply 32768 @ replicate 600 0"
  have ip: "drop ETH ?packet = ex_dns_reply 32768 @ replicate 600 0" by (simp add: ETH_def)
  have parts: "ip_p (drop ETH ?packet) 0 = Inr IPPROTO_UDP" "ip_hl_bytes (drop ETH ?packet) 0 = Inr 20"
    "u16_at (drop ETH ?packet) (20 + 4) = Inr 600"
    unfolding ip by (rule parts_append [OF ex_dns_reply_parts(1,2,7)])+
  have "length (drop ETH ?packet) = 628"
    unfolding ip by (simp add: ex_dns_reply_def net_bytes_def)
  then have len: "20 + 8 + unat (600 :: u16) \<le> length (drop ETH ?packet)" by simp
  show ?thesis
    using dns_record [OF init ex_text_lib_sanitizes parts(1,2,3) _ len _ lens, of "ex_dns_conf initial_blocklist" fs_new_fieldset 642]
      init by (auto simp: ex_dns_conf_def fs_new_fieldset_def MAX_FIELDS_def ex_text_lib_clean)
qed

section \<open>Limits of the validation\<close>

text \<open>
  A reply that is shorter than every question is rejected, but only after its source and port were
  entered into the filter: the full reply that may follow is then a repetition.
\<close>

lemma dns_short_reply_noted:
  assumes "ip_p ip 0 = Inr IPPROTO_UDP" "ip_hl_bytes ip 0 = Inr hl" "hl + 8 \<le> len"
    "ip_src ip 0 = Inr target" "ip_dst ip 0 = Inr own"
    "u16_at ip hl = Inr dport" "u16_at ip (hl + 2) = Inr sport"
    "target_port_flag c dport" "blocklist_is_allowed_ip (udp_blocklist c) target = Inr True"
    "validate_gen (udp_validate c) (udp_ipv46_bytes c) own target dport = Inr v"
    "udp_ipv46_bytes c = 4" "filter_ok bf" "check_src_port (udp_ports c) sport (udp_num_sports c) v"
    "u16_at ip (hl + 4) = Inr ulen" "\<forall>l \<in> set (dns_packet_lens st). unat ulen < l"
    "\<not> bloom_seen (udp_math c) bf (target @ net_bytes dport)"
  shows "dns_validate_packet c st bf ip len True
    = Inr (PACKET_INVALID, False, bloom_put (udp_math c) bf (target @ net_bytes dport))"
proof -
  note u = udp_validate_reply [OF assms(1-12), of True]
  have h: "dns_udp_header ip len = Inr (Some (hl, dport))"
    using assms(1,2,6) by (simp add: dns_udp_header_def del: bind_out_eq_Inr)
  have f: "filter (\<lambda>l. unat ulen \<ge> l) (dns_packet_lens st) = []"
    using assms(15) by (auto simp: filter_empty_conv not_le)
  show ?thesis
    using assms(8,13,14,16) f
    by (simp add: dns_validate_packet_def u h PACKET_VALID_def PACKET_INVALID_def del: bind_out_eq_Inr)
qed

text \<open>
  Validation compares the length of the captured packet, IP header included, with the UDP length. A
  packet that is too short for its UDP length can pass, and making the record reads past its end.
\<close>

lemma dns_record_overread:
  assumes "u16_at ip (hl + 4) = Inr ulen" "8 \<le> unat ulen" "length ip < hl + unat ulen"
  shows "dns_process_udp c st lib ip hl fs \<noteq> Inr fs'"
proof
  assume "dns_process_udp c st lib ip hl fs = Inr fs'"
  then obtain raw where "bytes_at ip (hl + sizeof_udphdr) (unat ulen - sizeof_udphdr) = Inr raw"
    using assms(1) by (auto simp: dns_process_udp_def Let_def split: if_splits)
  then show False using assms(2,3) by (auto simp: bytes_at_def sizeof_udphdr_def split: if_splits)
qed

end
