(* ===== verification/Output_Filter.thy ===== *)
theory Output_Filter
  imports Fieldset
begin

text \<open>
  Output filters: the expression trees of \<open>src/expression.c\<close>, their validation against the defined fields
  in \<open>src/filter.c\<close>, and their evaluation on the fields of a packet.
\<close>

section \<open>Expressions\<close>

datatype operation = Op_GT | Op_LT | Op_EQ | Op_NEQ | Op_AND | Op_OR | Op_LT_EQ | Op_GT_EQ

text \<open>
  A node with its tagged value; \<open>Nil\<close> is the null pointer. The children of a leaf are null. A field
  node holds the index that validation stores in it, 0 before.
\<close>

datatype node = Nil_node
  | Op_node operation (left_child: node) (right_child: node)
  | Field_node (node_index: nat) (fieldname: string)
  | String_node string
  | Int_node u64

definition make_op_node :: "operation \<Rightarrow> node" where
  "make_op_node op = Op_node op Nil_node Nil_node"

definition make_field_node :: "string \<Rightarrow> node" where
  "make_field_node name = Field_node 0 name"

definition make_string_node :: "string \<Rightarrow> node" where
  "make_string_node literal = String_node literal"

text \<open>The literal is an \<open>int\<close>, sign-extended into the 64 bits of the node.\<close>

definition make_int_node :: "u32 \<Rightarrow> node" where
  "make_int_node literal = Int_node (signed_take_bit 31 (ucast literal))"

section \<open>Evaluation\<close>

text \<open>The index of the left child and the number of the right one; any other node is read as garbage.\<close>

definition field_index :: "node \<Rightarrow> nat outcome" where
  "field_index n = (case left_child n of Field_node i name \<Rightarrow> Inr i | _ \<Rightarrow> Inl Undefined_value)"

definition int_literal :: "node \<Rightarrow> u64 outcome" where
  "int_literal n = (case right_child n of Int_node k \<Rightarrow> Inr k | _ \<Rightarrow> Inl Undefined_value)"

definition eval_gt_node :: "node \<Rightarrow> fieldset \<Rightarrow> bool outcome" where
  "eval_gt_node node fields =
     bind_out (field_index node) (\<lambda>index.
     bind_out (int_literal node) (\<lambda>expected.
     bind_out (fs_get_uint64_by_index fields index) (\<lambda>actual. Inr (actual > expected))))"

definition eval_lt_node :: "node \<Rightarrow> fieldset \<Rightarrow> bool outcome" where
  "eval_lt_node node fields =
     bind_out (field_index node) (\<lambda>index.
     bind_out (int_literal node) (\<lambda>expected.
     bind_out (fs_get_uint64_by_index fields index) (\<lambda>actual. Inr (actual < expected))))"

text \<open>\<open>strcmp\<close> with a null pointer is undefined.\<close>

definition eval_eq_node :: "node \<Rightarrow> fieldset \<Rightarrow> bool outcome" where
  "eval_eq_node node fields =
     bind_out (field_index node) (\<lambda>index.
     case right_child node of
       String_node expected \<Rightarrow>
         bind_out (fs_get_string_by_index fields index) (\<lambda>actual. case actual of
           None \<Rightarrow> Inl Undefined_value | Some s \<Rightarrow> Inr (expected = s))
     | Int_node k \<Rightarrow> bind_out (fs_get_uint64_by_index fields index) (\<lambda>actual. Inr (actual = k))
     | Nil_node \<Rightarrow> Inl Undefined_value
     | _ \<Rightarrow> Inr False)"

definition eval_lt_eq_node :: "node \<Rightarrow> fieldset \<Rightarrow> bool outcome" where
  "eval_lt_eq_node node fields = bind_out (eval_gt_node node fields) (\<lambda>b. Inr (\<not> b))"

definition eval_gt_eq_node :: "node \<Rightarrow> fieldset \<Rightarrow> bool outcome" where
  "eval_gt_eq_node node fields = bind_out (eval_lt_node node fields) (\<lambda>b. Inr (\<not> b))"

fun evaluate_expression :: "node \<Rightarrow> fieldset \<Rightarrow> bool outcome" where
  "evaluate_expression Nil_node fields = Inr True"
| "evaluate_expression (Field_node i name) fields = Inr True"
| "evaluate_expression (String_node s) fields = Inr True"
| "evaluate_expression (Int_node k) fields = Inr True"
| "evaluate_expression (Op_node op l r) fields =
     (case op of
        Op_GT \<Rightarrow> eval_gt_node (Op_node op l r) fields
      | Op_LT \<Rightarrow> eval_lt_node (Op_node op l r) fields
      | Op_EQ \<Rightarrow> eval_eq_node (Op_node op l r) fields
      | Op_NEQ \<Rightarrow> bind_out (eval_eq_node (Op_node op l r) fields) (\<lambda>b. Inr (\<not> b))
      | Op_LT_EQ \<Rightarrow> eval_lt_eq_node (Op_node op l r) fields
      | Op_GT_EQ \<Rightarrow> eval_gt_eq_node (Op_node op l r) fields
      | Op_AND \<Rightarrow> bind_out (evaluate_expression l fields) (\<lambda>b.
          if b then evaluate_expression r fields else Inr False)
      | Op_OR \<Rightarrow> bind_out (evaluate_expression l fields) (\<lambda>b.
          if b then Inr True else evaluate_expression r fields))"

section \<open>Validation\<close>

text \<open>The index that is stored in the left child, if any, and whether the node is valid.\<close>

definition validate_node :: "node \<Rightarrow> fielddef list \<Rightarrow> (nat option \<times> bool) outcome" where
  "validate_node node fields =
     (case node of
        Op_node op l r \<Rightarrow>
          if op = Op_AND \<or> op = Op_OR then Inr (None, True)
          else (case l of
            Field_node i name \<Rightarrow>
              (case fds_get_index_by_name fields name of
                 None \<Rightarrow> Inr (None, False)
               | Some index \<Rightarrow>
                   let ty = snd (fields ! index)
                   in (case r of
                         String_node s \<Rightarrow> Inr (Some index, ty = ''string'')
                       | Int_node k \<Rightarrow> Inr (Some index, ty = ''int'' \<or> ty = ''bool'')
                       | Nil_node \<Rightarrow> Inl Undefined_value
                       | _ \<Rightarrow> Inr (Some index, False)))
          | _ \<Rightarrow> Inl Undefined_value)
      | _ \<Rightarrow> Inr (None, True))"

fun put_index :: "nat option \<Rightarrow> node \<Rightarrow> node" where
  "put_index (Some index) (Field_node i name) = Field_node index name"
| "put_index ix n = n"

text \<open>
  The children of a valid node are validated, the right one only if the left one is valid. The stored
  index does not matter to the validation of the left child, so it is put into the result.
\<close>

fun validate_filter :: "node \<Rightarrow> fielddef list \<Rightarrow> (node \<times> bool) outcome" where
  "validate_filter (Op_node op l r) fields =
     bind_out (validate_node (Op_node op l r) fields) (\<lambda>(ix, valid).
       if \<not> valid then Inr (Op_node op (put_index ix l) r, False)
       else bind_out (validate_filter l fields) (\<lambda>(l', v).
         if \<not> v then Inr (Op_node op (put_index ix l') r, False)
         else bind_out (validate_filter r fields) (\<lambda>(r', w). Inr (Op_node op (put_index ix l') r', w))))"
| "validate_filter n fields = Inr (n, True)"

section \<open>Printing\<close>

text \<open>Numbers are printed by the C library, a parameter here.\<close>

definition get_op_str :: "operation \<Rightarrow> string" where
  "get_op_str op = (case op of Op_GT \<Rightarrow> ''>'' | Op_LT \<Rightarrow> ''<'' | Op_EQ \<Rightarrow> ''=='' | Op_NEQ \<Rightarrow> ''!=''
     | Op_LT_EQ \<Rightarrow> ''<='' | Op_GT_EQ \<Rightarrow> ''>='' | Op_AND \<Rightarrow> ''&&'' | Op_OR \<Rightarrow> ''||'')"

fun print_expression :: "(u64 \<Rightarrow> string) \<Rightarrow> node \<Rightarrow> string" where
  "print_expression show Nil_node = []"
| "print_expression show (Op_node op l r) =
     ''('' @ print_expression show l @ '' '' @ get_op_str op @ '' '' @ print_expression show r @ '')''"
| "print_expression show (Field_node i name) = ''('' @ ''('' @ name @ '')''"
| "print_expression show (String_node s) = ''('' @ s @ '')'' @ '')''"
| "print_expression show (Int_node k) = ''('' @ show k @ '')'' @ '')''"

section \<open>What a filter means\<close>

text \<open>The trees of the grammar: comparisons of a field with a number, or with a string for equality.\<close>

fun parsed :: "node \<Rightarrow> bool" where
  "parsed (Op_node op l r) \<longleftrightarrow>
     (if op = Op_AND \<or> op = Op_OR then parsed l \<and> parsed r
      else (case l of Field_node i name \<Rightarrow> True | _ \<Rightarrow> False) \<and>
           (case r of Int_node k \<Rightarrow> True | String_node s \<Rightarrow> op = Op_EQ \<or> op = Op_NEQ | _ \<Rightarrow> False))"
| "parsed n \<longleftrightarrow> False"

fun number_of :: "fval \<Rightarrow> u64" where
  "number_of (Uint n) = n"
| "number_of (Flag n) = n"
| "number_of v = 0"

definition compare_op :: "operation \<Rightarrow> u64 \<Rightarrow> u64 \<Rightarrow> bool" where
  "compare_op op a b = (case op of
     Op_GT \<Rightarrow> a > b | Op_LT \<Rightarrow> a < b | Op_EQ \<Rightarrow> a = b | Op_NEQ \<Rightarrow> a \<noteq> b
   | Op_LT_EQ \<Rightarrow> a \<le> b | Op_GT_EQ \<Rightarrow> a \<ge> b | _ \<Rightarrow> False)"

text \<open>The value of a filter for a record of named values, where an absent number counts as 0.\<close>

fun filter_sem :: "node \<Rightarrow> (string \<Rightarrow> fval) \<Rightarrow> bool" where
  "filter_sem (Op_node op l r) \<rho> =
     (if op = Op_AND then filter_sem l \<rho> \<and> filter_sem r \<rho>
      else if op = Op_OR then filter_sem l \<rho> \<or> filter_sem r \<rho>
      else case r of
        Int_node k \<Rightarrow> compare_op op (number_of (\<rho> (fieldname l))) k
      | String_node s \<Rightarrow> (\<rho> (fieldname l) = Str s) = (op = Op_EQ)
      | _ \<Rightarrow> True)"
| "filter_sem n \<rho> = True"

text \<open>The fields have the types of their definitions, or are null.\<close>

definition well_typed :: "fieldset \<Rightarrow> fielddef list \<Rightarrow> bool" where
  "well_typed fs defs \<longleftrightarrow> conforms fs defs \<and> (\<forall>i < length defs. case snd (fs_fields fs ! i) of
     Null \<Rightarrow> True
   | Str s \<Rightarrow> snd (defs ! i) = ''string''
   | Uint n \<Rightarrow> snd (defs ! i) = ''int''
   | Flag n \<Rightarrow> snd (defs ! i) = ''bool''
   | _ \<Rightarrow> snd (defs ! i) \<notin> {''string'', ''int'', ''bool''})"

text \<open>The fields that the filter compares with strings are present.\<close>

fun strings_present :: "node \<Rightarrow> (string \<Rightarrow> fval) \<Rightarrow> bool" where
  "strings_present (Op_node op l r) \<rho> \<longleftrightarrow>
     (if op = Op_AND \<or> op = Op_OR then strings_present l \<rho> \<and> strings_present r \<rho>
      else case r of String_node s \<Rightarrow> \<rho> (fieldname l) \<noteq> Null | _ \<Rightarrow> True)"
| "strings_present n \<rho> \<longleftrightarrow> True"

lemma well_typed_value:
  assumes "well_typed fs defs" "fds_get_index_by_name defs name = Some i"
  shows "slot fs i = Inr (Some name, value_of fs name)"
    "snd (defs ! i) = ''string'' \<Longrightarrow> value_of fs name = Null \<or> (\<exists>s. value_of fs name = Str s)"
    "snd (defs ! i) = ''int'' \<or> snd (defs ! i) = ''bool'' \<Longrightarrow>
       value_of fs name = Null \<or> (\<exists>n. value_of fs name = Uint n) \<or> (\<exists>n. value_of fs name = Flag n)"
proof -
  have c: "conforms fs defs" using assms(1) by (simp add: well_typed_def)
  have s: "slot fs i = Inr (Some name, value_of fs name)" by (rule conforms_slot [OF c assms(2)])
  have i: "i < length defs" using fds_get_index_by_name_Some [OF assms(2)] by simp
  then have v: "snd (fs_fields fs ! i) = value_of fs name"
    using s c by (auto simp: slot_def conforms_def split: if_splits)
  have t: "case value_of fs name of
     Null \<Rightarrow> True
   | Str s \<Rightarrow> snd (defs ! i) = ''string''
   | Uint n \<Rightarrow> snd (defs ! i) = ''int''
   | Flag n \<Rightarrow> snd (defs ! i) = ''bool''
   | _ \<Rightarrow> snd (defs ! i) \<notin> {''string'', ''int'', ''bool''}"
    using assms(1) i v unfolding well_typed_def by metis
  show "slot fs i = Inr (Some name, value_of fs name)" by (rule s)
  show "value_of fs name = Null \<or> (\<exists>s. value_of fs name = Str s)" if "snd (defs ! i) = ''string''"
    using t that by (cases "value_of fs name") auto
  show "value_of fs name = Null \<or> (\<exists>n. value_of fs name = Uint n) \<or> (\<exists>n. value_of fs name = Flag n)"
    if "snd (defs ! i) = ''int'' \<or> snd (defs ! i) = ''bool''"
    using t that by (cases "value_of fs name") auto
qed

text \<open>A comparison with a number, and one with a string.\<close>

lemma evaluate_number:
  assumes "well_typed fs defs" "fds_get_index_by_name defs name = Some i"
    "snd (defs ! i) = ''int'' \<or> snd (defs ! i) = ''bool''" "op \<noteq> Op_AND" "op \<noteq> Op_OR"
  shows "evaluate_expression (Op_node op (Field_node i name) (Int_node k)) fs
    = Inr (compare_op op (number_of (value_of fs name)) k)"
proof -
  have "fs_get_uint64_by_index fs i = Inr (number_of (value_of fs name))"
    using well_typed_value(1) [OF assms(1,2)] well_typed_value(3) [OF assms(1-3)]
    by (auto simp: fs_get_uint64_by_index_def)
  then show ?thesis using assms(4,5)
    by (cases op) (simp_all add: eval_gt_node_def eval_lt_node_def eval_eq_node_def eval_lt_eq_node_def
        eval_gt_eq_node_def field_index_def int_literal_def compare_op_def not_less)
qed

lemma evaluate_string:
  assumes "well_typed fs defs" "fds_get_index_by_name defs name = Some i"
    "snd (defs ! i) = ''string''" "op = Op_EQ \<or> op = Op_NEQ" "value_of fs name \<noteq> Null"
  shows "evaluate_expression (Op_node op (Field_node i name) (String_node s)) fs
    = Inr ((value_of fs name = Str s) = (op = Op_EQ))"
proof -
  obtain t where t: "value_of fs name = Str t"
    using well_typed_value(2) [OF assms(1-3)] assms(5) by blast
  have "fs_get_string_by_index fs i = Inr (Some t)"
    using well_typed_value(1) [OF assms(1,2)] by (simp add: fs_get_string_by_index_def t)
  then show ?thesis using assms(4)
    by (elim disjE) (simp_all add: eval_eq_node_def field_index_def t eq_commute)
qed

text \<open>C25: A filter of the grammar that passes validation is evaluated, on the fields of any packet that
  have the defined names and types, to what the expression says about the named values, as long as no
  field that it compares with a string is null.\<close>

theorem filter_refines:
  assumes "parsed n" "validate_filter n defs = Inr (n', True)" "well_typed fs defs"
    "strings_present n (value_of fs)"
  shows "evaluate_expression n' fs = Inr (filter_sem n (value_of fs))"
  using assms(1,2,4)
proof (induction n arbitrary: n')
  case (Op_node op l r)
  show ?case
  proof (cases "op = Op_AND \<or> op = Op_OR")
    case True
    then have v: "validate_node (Op_node op l r) defs = Inr (None, True)" by (simp add: validate_node_def)
    obtain l' r' where lr: "validate_filter l defs = Inr (l', True)" "validate_filter r defs = Inr (r', True)"
      "n' = Op_node op l' r'"
      using Op_node.prems(2) v by (auto split: if_splits)
    have "evaluate_expression l' fs = Inr (filter_sem l (value_of fs))"
      "evaluate_expression r' fs = Inr (filter_sem r (value_of fs))"
      using Op_node.IH Op_node.prems True lr by auto
    then show ?thesis using True lr(3) by auto
  next
    case False
    then obtain i name where l: "l = Field_node i name" using Op_node.prems(1) by (cases l) auto
    show ?thesis
    proof (cases r)
      case (Int_node k)
      then obtain j where "fds_get_index_by_name defs name = Some j" "n' = Op_node op (Field_node j name) r"
        "snd (defs ! j) = ''int'' \<or> snd (defs ! j) = ''bool''"
        using Op_node.prems(2) False l by (auto simp: validate_node_def Let_def split: option.splits if_splits)
      then show ?thesis
        using evaluate_number [OF assms(3)] False l Int_node by (simp del: evaluate_expression.simps)
    next
      case (String_node s)
      then obtain j where "fds_get_index_by_name defs name = Some j" "n' = Op_node op (Field_node j name) r"
        "snd (defs ! j) = ''string''"
        using Op_node.prems(2) False l by (auto simp: validate_node_def Let_def split: option.splits if_splits)
      moreover have "op = Op_EQ \<or> op = Op_NEQ" "value_of fs name \<noteq> Null"
        using Op_node.prems(1,3) False l String_node by auto
      ultimately show ?thesis
        using evaluate_string [OF assms(3)] False l String_node by (simp del: evaluate_expression.simps)
    qed (use Op_node.prems(1) False in auto)
  qed
qed auto

definition ex_defs :: "fielddef list" where
  "ex_defs = [(''saddr'', ''string''), (''sport'', ''int''), (''success'', ''bool'')]"

definition ex_fields :: fieldset where
  "ex_fields = Fieldset None [(Some ''saddr'', Str ''192.0.2.1''), (Some ''sport'', Uint 53), (Some ''success'', Flag 1)]"

definition ex_filter :: node where
  "ex_filter = Op_node Op_AND (Op_node Op_EQ (Field_node 0 ''success'') (Int_node 1))
     (Op_node Op_NEQ (Field_node 0 ''saddr'') (String_node ''192.0.2.2''))"

theorem filter_refines_witness:
  "\<exists>n'. validate_filter ex_filter ex_defs = Inr (n', True) \<and> evaluate_expression n' ex_fields = Inr True"
proof -
  obtain n' where n: "validate_filter ex_filter ex_defs = Inr (n', True)"
    by (simp add: ex_filter_def ex_defs_def validate_node_def Let_def)
  have t: "well_typed ex_fields ex_defs"
    by (auto simp: well_typed_def conforms_def ex_fields_def ex_defs_def less_Suc_eq numeral_3_eq_3)
  have "value_of ex_fields ''success'' = Flag 1" "value_of ex_fields ''saddr'' = Str ''192.0.2.1''"
    by (simp_all add: value_of_def ex_fields_def)
  then have p: "parsed ex_filter" "strings_present ex_filter (value_of ex_fields)"
    "filter_sem ex_filter (value_of ex_fields)"
    by (simp_all add: ex_filter_def compare_op_def)
  have "evaluate_expression n' ex_fields = Inr True"
    using filter_refines [OF p(1) n t p(2)] p(3) by (simp only:)
  with n show ?thesis by blast
qed

text \<open>A comparison with a string that validation accepts is undefined on a packet that has no
  value for the field: the null pointer is passed to \<open>strcmp\<close>. Comparing a missing number with 0
  gives true.\<close>

lemma filter_null_string:
  assumes "conforms fs defs" "value_of fs name = Null" "fds_get_index_by_name defs name = Some i"
    "snd (defs ! i) = ''string''"
  shows "validate_filter (Op_node Op_EQ (Field_node 0 name) (String_node s)) defs
        = Inr (Op_node Op_EQ (Field_node i name) (String_node s), True)
    \<and> evaluate_expression (Op_node Op_EQ (Field_node i name) (String_node s)) fs = Inl Undefined_value
    \<and> evaluate_expression (Op_node Op_EQ (Field_node i name) (Int_node 0)) fs = Inr True"
  using assms(4) conforms_slot [OF assms(1,3)] assms(2,3)
  by (auto simp: validate_node_def eval_eq_node_def field_index_def fs_get_string_by_index_def
      fs_get_uint64_by_index_def)

lemma filter_null_string_example:
  "evaluate_expression (Op_node Op_EQ (Field_node 0 ''saddr'') (String_node ''x''))
     (Fieldset None [(Some ''saddr'', Null), (Some ''sport'', Uint 53), (Some ''success'', Flag 1)]) = Inl Undefined_value"
proof -
  let ?fs = "Fieldset None [(Some ''saddr'', Null), (Some ''sport'', Uint 53), (Some ''success'', Flag 1)]"
  have "conforms ?fs ex_defs" "value_of ?fs ''saddr'' = Null" "fds_get_index_by_name ex_defs ''saddr'' = Some 0"
    "snd (ex_defs ! 0) = ''string''"
    by (auto simp: conforms_def ex_defs_def value_of_def less_Suc_eq numeral_3_eq_3)
  from filter_null_string [OF this, of "''x''"] show ?thesis by (elim conjE)
qed

end
