(* ===== verification/Recv.thy ===== *)
theory Recv
  imports Dns_Probe Output_Filter
begin

text \<open>
  The receiver: \<open>src/recv.c\<close>, the capture loop of \<open>src/recv-pcap.c\<close>, and the fields that
  \<open>src/probe_modules/probe_modules.c\<close> adds to every record. A captured packet goes through
  \<open>handle_packet\<close>: validation by the probe module, the record of its fields, the counters, the
  output filters, the output module. The state is \<open>struct state_recv\<close> with the static buffers of
  the file; what was handed to the network and to the output module is recorded in order.
\<close>

section \<open>Configuration and state\<close>

definition PACKET_AGAIN :: int where "PACKET_AGAIN = 2"
definition FAKE_SIZE :: nat where "FAKE_SIZE = 65535"

text \<open>
  The two callbacks of a probe module that the receiver uses. Validation gets the filter of seen
  replies, the packet from its IP header on, its length, the repetition flag, the send buffer and
  the length of a probe; it may change the filter, the flag, the buffer and the length.
\<close>

record probe_module =
  packet_length :: nat
  validate_packet ::
    "bloom_filter \<Rightarrow> u8 list \<Rightarrow> nat \<Rightarrow> bool \<Rightarrow> u8 list \<Rightarrow> nat \<Rightarrow> (int \<times> bool \<times> bloom_filter \<times> u8 list \<times> nat) outcome"
  process_packet :: "u8 list \<Rightarrow> nat \<Rightarrow> fieldset \<Rightarrow> int \<times> int \<Rightarrow> fieldset outcome"

text \<open>The parts of the configuration that the receiver reads; a callback that is absent is a null pointer.\<close>

record recv_conf =
  ipv6_scan :: bool
  data_link_size :: nat
  send_ip_pkts :: bool
  success_index :: nat
  app_success_index :: int
  filter_unsuccessful :: bool
  filter_duplicates :: bool
  filter_expression :: node
  translation :: "nat list"
  has_process_ip :: bool
  update_interval :: "u32 option"
  max_results :: u64
  dryrun :: bool
  recv_text :: text_lib

text \<open>
  A captured packet with its length and time, whether the sender was done when it was handled, and
  what the clock said then: the formatted time, the seconds and the microseconds.
\<close>

record capture =
  cap_bytes :: "u8 list"
  cap_len :: nat
  cap_sec :: int
  cap_usec :: int
  cap_complete :: bool
  cap_clock :: "string \<times> u64 \<times> u64"

record state_recv =
  success_total :: u64
  success_unique :: u64
  app_success_total :: u64
  app_success_unique :: u64
  cooldown_total :: u64
  cooldown_unique :: u64
  failure_total :: u64
  filter_success :: u64
  ip_fragments :: u64
  validation_passed :: u64
  validation_failed :: u64
  validation_again :: u64
  complete :: bool
  seen_replies :: bloom_filter
  send_buff :: "u8 list"
  fake_eth_hdr :: "u8 list"
  resent :: "u8 list list"
  printed :: "fieldset list"
  updates :: nat

section \<open>Fields of every record\<close>

definition fs_add_ip_fields :: "fieldset \<Rightarrow> u8 list \<Rightarrow> fieldset outcome" where
  "fs_add_ip_fields fs ip =
     bind_out (ip_src ip 0) (\<lambda>src.
     bind_out (ip_dst ip 0) (\<lambda>dst.
     bind_out (u16_at ip 4) (\<lambda>ipid.
     bind_out (byte_at ip 8) (\<lambda>ttl.
       fs_add_fields fs [(''saddr'', Str (inet_ntoa src)), (''daddr'', Str (inet_ntoa dst)),
         (''ipid'', Uint (ucast ipid)), (''ttl'', Uint (ucast ttl))]))))"

definition fs_add_ipv6_fields :: "text_lib \<Rightarrow> fieldset \<Rightarrow> u8 list \<Rightarrow> fieldset outcome" where
  "fs_add_ipv6_fields lib fs ip =
     bind_out (bytes_at ip 8 16) (\<lambda>src.
     bind_out (bytes_at ip 24 16) (\<lambda>dst.
     bind_out (byte_at ip 7) (\<lambda>hlim.
       fs_add_fields fs [(''saddr'', Str (ntop6 lib src)), (''daddr'', Str (ntop6 lib dst)),
         (''hlim'', Uint (ucast hlim))])))"

definition fs_add_system_fields ::
    "fieldset \<Rightarrow> bool \<Rightarrow> bool \<Rightarrow> string \<times> u64 \<times> u64 \<Rightarrow> fieldset outcome" where
  "fs_add_system_fields fs is_repeat in_cooldown clock =
     (case clock of (timestr, sec, usec) \<Rightarrow>
       fs_add_fields fs [(''repeat'', bool_val is_repeat), (''cooldown'', bool_val in_cooldown),
         (''timestamp_str'', Str timestr), (''timestamp_ts'', Uint sec), (''timestamp_us'', Uint usec)])"

section \<open>A packet\<close>

text \<open>What is sent again: only the IP packet when the Ethernet header is left to the system.\<close>

definition again_contents :: "recv_conf \<Rightarrow> u8 list \<Rightarrow> nat \<Rightarrow> u8 list outcome" where
  "again_contents c buff len =
     (let skip = (if send_ip_pkts c then ETH else 0)
      in if len < skip then Inl Out_of_bounds else bytes_at buff skip (len - skip))"

text \<open>Validation and its counters: the repetition flag if the packet is to be recorded.\<close>

definition count_validation ::
    "recv_conf \<Rightarrow> probe_module \<Rightarrow> u8 list \<Rightarrow> nat \<Rightarrow> state_recv \<Rightarrow> (bool option \<times> state_recv) outcome" where
  "count_validation c m ip buflen s =
     bind_out (validate_packet m (seen_replies s) ip (buflen - (if send_ip_pkts c then 0 else ETH)) True
         (send_buff s) (packet_length m)) (\<lambda>(ret, is_repeat, bf, buff, len).
       let s = s\<lparr>seen_replies := bf, send_buff := buff\<rparr> in
       if ret = PACKET_VALID then Inr (Some is_repeat, s\<lparr>validation_passed := validation_passed s + 1\<rparr>)
       else if ret = PACKET_AGAIN then
         if is_repeat then Inr (None, s)
         else bind_out (again_contents c buff len) (\<lambda>p.
           Inr (Some is_repeat, s\<lparr>resent := resent s @ [p], validation_again := validation_again s + 1\<rparr>))
       else Inr (None, s\<lparr>validation_failed := validation_failed s + 1\<rparr>))"

text \<open>
  The test for a fragment: the flags are in network order and the mask is in the order of the host,
  which is little endian here.
\<close>

definition IP_MF :: u16 where "IP_MF = 0x2000"

definition count_fragment :: "recv_conf \<Rightarrow> u8 list \<Rightarrow> state_recv \<Rightarrow> state_recv outcome" where
  "count_fragment c ip s =
     (if ipv6_scan c then Inr s
      else bind_out (byte_at ip 6) (\<lambda>b6. bind_out (byte_at ip 7) (\<lambda>b7.
        let ip_off = (ucast b6 OR push_bit 8 (ucast b7) :: u16)
        in Inr (if ip_off AND IP_MF \<noteq> 0 then s\<lparr>ip_fragments := ip_fragments s + 1\<rparr> else s))))"

text \<open>
  The frame that the probe module reads. Without an Ethernet header one is put in front of the IP
  packet, in a buffer of fixed size; as many bytes are copied as were captured.
\<close>

definition probe_frame ::
    "recv_conf \<Rightarrow> u8 list \<Rightarrow> nat \<Rightarrow> state_recv \<Rightarrow> (u8 list \<times> nat \<times> state_recv) outcome" where
  "probe_frame c bytes buflen s =
     (if send_ip_pkts c then
        let n = min buflen FAKE_SIZE
        in bind_out (bytes_at bytes (data_link_size c) n) (\<lambda>copy.
             if ETH + n > FAKE_SIZE then Inl Out_of_bounds
             else let frame = put_at ETH copy (fake_eth_hdr s)
               in Inr (frame, n, s\<lparr>fake_eth_hdr := frame\<rparr>))
      else Inr (bytes, buflen, s))"

text \<open>The record of a packet: the fields of its header, of the module and of the system.\<close>

definition packet_record ::
    "recv_conf \<Rightarrow> probe_module \<Rightarrow> capture \<Rightarrow> bool \<Rightarrow> state_recv \<Rightarrow> (fieldset \<times> state_recv) outcome" where
  "packet_record c m cap is_repeat s =
     (let ip = drop (data_link_size c) (cap_bytes cap) in
      bind_out (if ipv6_scan c then fs_add_ipv6_fields (recv_text c) fs_new_fieldset ip
                else fs_add_ip_fields fs_new_fieldset ip) (\<lambda>fs.
      bind_out (probe_frame c (cap_bytes cap) (cap_len cap) s) (\<lambda>(frame, n, s).
      bind_out (process_packet m frame n fs (cap_sec cap, cap_usec cap * 1000)) (\<lambda>fs.
      bind_out (fs_add_system_fields fs is_repeat (cap_complete cap) (cap_clock cap)) (\<lambda>fs. Inr (fs, s))))))"

text \<open>A flag of a record is read as an \<open>int\<close>.\<close>

definition flag_at :: "fieldset \<Rightarrow> nat \<Rightarrow> bool outcome" where
  "flag_at fs i = bind_out (fs_get_uint64_by_index fs i) (\<lambda>v. Inr ((ucast v :: u32) \<noteq> 0))"

definition record_success :: "recv_conf \<Rightarrow> fieldset \<Rightarrow> bool outcome" where
  "record_success c fs =
     (if length (fs_fields fs) \<le> success_index c then Inl Assert_failed else flag_at fs (success_index c))"

text \<open>A counter that is incremented if a condition holds.\<close>

definition tick :: "bool \<Rightarrow> u64 \<Rightarrow> u64" where
  "tick b n = (if b then n + 1 else n)"

definition count_success :: "bool \<Rightarrow> bool \<Rightarrow> bool \<Rightarrow> state_recv \<Rightarrow> state_recv" where
  "count_success is_success is_repeat cooldown s =
     (if is_success
      then s\<lparr>success_total := success_total s + 1, success_unique := tick (\<not> is_repeat) (success_unique s),
        cooldown_total := tick cooldown (cooldown_total s),
        cooldown_unique := tick (cooldown \<and> \<not> is_repeat) (cooldown_unique s)\<rparr>
      else s\<lparr>failure_total := failure_total s + 1\<rparr>)"

definition count_app_success :: "recv_conf \<Rightarrow> fieldset \<Rightarrow> bool \<Rightarrow> state_recv \<Rightarrow> state_recv outcome" where
  "count_app_success c fs is_repeat s =
     (if app_success_index c < 0 then Inr s
      else bind_out (flag_at fs (nat (app_success_index c))) (\<lambda>b.
        Inr (if b then s\<lparr>app_success_total := app_success_total s + 1,
            app_success_unique := tick (\<not> is_repeat) (app_success_unique s)\<rparr> else s)))"

text \<open>The filters, and the record that is printed.\<close>

definition output_record :: "recv_conf \<Rightarrow> fieldset \<Rightarrow> bool \<Rightarrow> bool \<Rightarrow> state_recv \<Rightarrow> state_recv outcome" where
  "output_record c fs is_success is_repeat s =
     (if \<not> is_success \<and> filter_unsuccessful c then Inr s
      else if is_repeat \<and> filter_duplicates c then Inr s
      else bind_out (evaluate_expression (filter_expression c) fs) (\<lambda>b.
        if \<not> b then Inr s
        else bind_out (translate_fieldset fs (translation c)) (\<lambda>out.
          Inr (s\<lparr>filter_success := filter_success s + 1,
            printed := (if has_process_ip c then printed s @ [out] else printed s)\<rparr>))))"

text \<open>The periodic call of the output module; an interval of 0 is a division by zero.\<close>

definition update_output :: "recv_conf \<Rightarrow> state_recv \<Rightarrow> state_recv outcome" where
  "update_output c s =
     (case update_interval c of None \<Rightarrow> Inr s
      | Some n \<Rightarrow> if n = 0 then Inl Undefined_value
          else Inr (if success_unique s mod ucast n = 0 then s\<lparr>updates := updates s + 1\<rparr> else s))"

definition handle_packet :: "recv_conf \<Rightarrow> probe_module \<Rightarrow> capture \<Rightarrow> state_recv \<Rightarrow> state_recv outcome" where
  "handle_packet c m cap s =
     (let ip = drop (data_link_size c) (cap_bytes cap) in
      if (if ipv6_scan c then 40 else sizeof_ip) + data_link_size c > cap_len cap then Inr s
      else
        bind_out (count_validation c m ip (cap_len cap) s) (\<lambda>(v, s). case v of
          None \<Rightarrow> Inr s
        | Some is_repeat \<Rightarrow>
            bind_out (count_fragment c ip s) (\<lambda>s.
            bind_out (packet_record c m cap is_repeat s) (\<lambda>(fs, s).
            bind_out (record_success c fs) (\<lambda>is_success.
            bind_out (count_app_success c fs is_repeat (count_success is_success is_repeat (cap_complete cap) s)) (\<lambda>s.
            bind_out (output_record c fs is_success is_repeat s) (update_output c)))))))"

section \<open>The capture loop\<close>

text \<open>The callback of the capture library, and a batch of packets that the library hands to it.\<close>

definition packet_cb :: "recv_conf \<Rightarrow> probe_module \<Rightarrow> capture \<Rightarrow> state_recv \<Rightarrow> state_recv outcome" where
  "packet_cb c m cap s = (if filter_success s \<ge> max_results c then Inr s else handle_packet c m cap s)"

fun recv_packets :: "recv_conf \<Rightarrow> probe_module \<Rightarrow> capture list \<Rightarrow> state_recv \<Rightarrow> state_recv outcome" where
  "recv_packets c m [] s = Inr s"
| "recv_packets c m (cap # caps) s = bind_out (packet_cb c m cap s) (recv_packets c m caps)"

text \<open>
  The loop of the thread. A round has the packets of one call of the library and whether, after it,
  the sender is done for longer than the cooldown. The flag of the result says that the loop ended;
  it is still running when there are no more rounds.
\<close>

fun recv_loop ::
    "recv_conf \<Rightarrow> probe_module \<Rightarrow> (capture list \<times> bool) list \<Rightarrow> state_recv \<Rightarrow> (bool \<times> state_recv) outcome" where
  "recv_loop c m [] s = Inr (False, s)"
| "recv_loop c m ((caps, cooled) # rounds) s =
     bind_out (if dryrun c then Inr s else recv_packets c m caps s) (\<lambda>s.
       if \<not> dryrun c \<and> max_results c \<noteq> 0 \<and> filter_success s \<ge> max_results c then Inr (True, s)
       else if cooled then Inr (True, s)
       else recv_loop c m rounds s)"

section \<open>Opening the capture\<close>

datatype datalink = DLT_EN10MB | DLT_RAW | DLT_LINUX_SLL | DLT_OTHER

text \<open>The size of the header in front of the IP header; an unknown link layer is only logged.\<close>

definition link_size :: "datalink \<Rightarrow> nat \<Rightarrow> nat" where
  "link_size d old = (case d of DLT_EN10MB \<Rightarrow> ETH | DLT_RAW \<Rightarrow> 0 | DLT_LINUX_SLL \<Rightarrow> 16 | DLT_OTHER \<Rightarrow> old)"

definition BPFLEN :: nat where "BPFLEN = 1024"

definition hex2 :: "u8 \<Rightarrow> string" where
  "hex2 b = map (\<lambda>d. char_of (if d < 10 then 48 + d else 87 + d)) [unat b div 16, unat b mod 16]"

definition not_from :: "u8 list \<Rightarrow> string" where
  "not_from mac = ''not ether src '' @ hex2 (mac ! 0) @ '':'' @ hex2 (mac ! 1) @ '':'' @ hex2 (mac ! 2) @ '':''
     @ hex2 (mac ! 3) @ '':'' @ hex2 (mac ! 4) @ '':'' @ hex2 (mac ! 5)"

text \<open>
  The filter expression: not our own frames, and the filter of the probe module. It is put together
  in a buffer of \<open>BPFLEN\<close> bytes; the assertion about its size is made in the first case only.
\<close>

definition capture_filter :: "bool \<Rightarrow> u8 list \<Rightarrow> string option \<Rightarrow> string outcome" where
  "capture_filter ip_pkts mac pcap_filter =
     bind_out (if ip_pkts then Inr []
       else case pcap_filter of None \<Rightarrow> Inl Undefined_value
         | Some f \<Rightarrow> if length f + 10 < BPFLEN - length (not_from mac) then Inr (not_from mac) else Inl Assert_failed)
     (\<lambda>bpftmp. case pcap_filter of None \<Rightarrow> Inr bpftmp
       | Some f \<Rightarrow> let s = bpftmp @ (if ip_pkts then ''('' else '' and ('') @ f @ '')''
           in if length s + 1 > BPFLEN then Inl Out_of_bounds else Inr s)"

text \<open>
  \<open>recv_init\<close>: whether the calls of the library succeed is a parameter. The result is the size of
  the link header and the filter that is installed, if there is one.
\<close>

definition recv_init ::
    "bool \<Rightarrow> (string \<Rightarrow> bool) \<Rightarrow> bool \<Rightarrow> datalink \<Rightarrow> recv_conf \<Rightarrow> u8 list \<Rightarrow> string option \<Rightarrow> (nat \<times> string option) outcome" where
  "recv_init open_ok compile_ok nonblock_ok d c mac pcap_filter =
     (if \<not> open_ok then Inl Log_fatal
      else bind_out (capture_filter (send_ip_pkts c) mac pcap_filter) (\<lambda>bpftmp.
        if bpftmp \<noteq> [] \<and> \<not> compile_ok bpftmp then Inl Log_fatal
        else if \<not> nonblock_ok then Inl Log_fatal
        else Inr (link_size d (data_link_size c), if bpftmp = [] then None else Some bpftmp)))"

section \<open>The thread\<close>

text \<open>The Ethernet header that stands in front of every packet that was captured without one.\<close>

definition fake_header :: "recv_conf \<Rightarrow> u8 list" where
  "fake_header c = put_at 12 (htons_bytes (if ipv6_scan c then 0x86dd else 0x0800)) (replicate FAKE_SIZE 0)"

text \<open>
  The thread: \<open>thread_init\<close> is the callback of the probe module on the zeroed send buffer,
  \<open>send_init\<close> says whether the socket could be prepared and \<open>opened\<close> is what \<open>recv_init\<close> gives. No
  limit on the results is the largest number. The result is that of the C function.
\<close>

definition recv_run ::
    "recv_conf \<Rightarrow> probe_module \<Rightarrow> (u8 list \<Rightarrow> u8 list outcome) \<Rightarrow> bool \<Rightarrow> (nat \<times> string option) outcome
       \<Rightarrow> (capture list \<times> bool) list \<Rightarrow> state_recv \<Rightarrow> (int \<times> state_recv) outcome" where
  "recv_run c m thread_init send_init opened rounds s =
     bind_out (thread_init (replicate MAX_PACKET_SIZE 0)) (\<lambda>buff.
       let s = s\<lparr>send_buff := buff\<rparr> in
       if \<not> send_init then Inr (- 1, s)
       else bind_out opened (\<lambda>(link, bpf).
         let s = (if send_ip_pkts c then s\<lparr>fake_eth_hdr := fake_header c\<rparr> else s);
             c = c\<lparr>data_link_size := link, max_results := (if max_results c = 0 then - 1 else max_results c)\<rparr>
         in bind_out (recv_loop c m rounds s) (\<lambda>(ended, s). Inr (0, if ended then s\<lparr>complete := True\<rparr> else s))))"

section \<open>The counters\<close>

text \<open>
  The states that the callback reaches, with the packets that were handed to it and those of them
  that got through the output filters.
\<close>

inductive reach ::
    "recv_conf \<Rightarrow> probe_module \<Rightarrow> state_recv \<Rightarrow> capture list \<Rightarrow> capture list \<Rightarrow> state_recv \<Rightarrow> bool"
  for c m s0 where
  start: "reach c m s0 [] [] s0"
| packet: "\<lbrakk>reach c m s0 caps out s; packet_cb c m cap s = Inr t\<rbrakk>
    \<Longrightarrow> reach c m s0 (caps @ [cap]) (if filter_success t = filter_success s then out else out @ [cap]) t"

lemma recv_packets_reach:
  "\<lbrakk>recv_packets c m caps s = Inr t; reach c m s0 caps0 out0 s\<rbrakk> \<Longrightarrow> \<exists>out. reach c m s0 (caps0 @ caps) out t"
proof (induction caps arbitrary: caps0 out0 s)
  case (Cons cap caps)
  then obtain s1 where s1: "packet_cb c m cap s = Inr s1" "recv_packets c m caps s1 = Inr t" by auto
  show ?case using Cons.IH [OF s1(2) packet [OF Cons.prems(2) s1(1)]] by simp
qed auto

definition all_packets :: "(capture list \<times> bool) list \<Rightarrow> capture list" where
  "all_packets rounds = concat (map fst rounds)"

lemma recv_loop_dryrun: "\<lbrakk>recv_loop c m rounds s = Inr (b, t); dryrun c\<rbrakk> \<Longrightarrow> t = s"
  by (induction c m rounds s rule: recv_loop.induct) (auto split: if_splits)

lemma recv_loop_reach:
  "\<lbrakk>recv_loop c m rounds s = Inr (b, t); \<not> dryrun c; reach c m s0 caps0 out0 s\<rbrakk>
     \<Longrightarrow> \<exists>caps out rest. all_packets rounds = caps @ rest \<and> reach c m s0 (caps0 @ caps) out t"
proof (induction rounds arbitrary: s caps0 out0)
  case (Cons r rounds)
  obtain caps cooled where r: "r = (caps, cooled)" by (cases r)
  obtain s1 where s1: "recv_packets c m caps s = Inr s1"
    "(if \<not> dryrun c \<and> max_results c \<noteq> 0 \<and> filter_success s1 \<ge> max_results c then Inr (True, s1)
      else if cooled then Inr (True, s1) else recv_loop c m rounds s1) = Inr (b, t)"
    using Cons.prems(1,2) by (auto simp: r simp del: if_split)
  obtain out where o: "reach c m s0 (caps0 @ caps) out s1" using recv_packets_reach [OF s1(1) Cons.prems(3)] by blast
  have all: "all_packets (r # rounds) = caps @ all_packets rounds" by (simp add: all_packets_def r)
  show ?case
  proof (cases "t = s1")
    case True
    then show ?thesis using o all by blast
  next
    case False
    then have "recv_loop c m rounds s1 = Inr (b, t)" using s1(2) by (auto split: if_splits)
    from Cons.IH [OF this Cons.prems(2) o] show ?thesis using all by (metis append_assoc)
  qed
qed (auto simp: all_packets_def)

text \<open>What one packet does to the counters, by the verdicts it gets.\<close>

definition tallied ::
    "recv_conf \<Rightarrow> bool \<Rightarrow> bool \<Rightarrow> bool \<Rightarrow> bool \<Rightarrow> bool \<Rightarrow> bool \<Rightarrow> bool \<Rightarrow> bool \<Rightarrow> bool \<Rightarrow> state_recv \<Rightarrow> state_recv \<Rightarrow> bool" where
  "tallied c passed failed again success rep cooldown app frag out s t \<longleftrightarrow>
     (passed \<longrightarrow> \<not> failed \<and> \<not> again) \<and> (again \<longrightarrow> \<not> failed) \<and> (app \<or> frag \<or> out \<or> success \<longrightarrow> passed \<or> again)
     \<and> (out \<longrightarrow> (filter_unsuccessful c \<longrightarrow> success) \<and> (filter_duplicates c \<longrightarrow> \<not> rep))
     \<and> validation_passed t = tick passed (validation_passed s)
     \<and> validation_failed t = tick failed (validation_failed s)
     \<and> validation_again t = tick again (validation_again s)
     \<and> success_total t = tick success (success_total s)
     \<and> failure_total t = tick ((passed \<or> again) \<and> \<not> success) (failure_total s)
     \<and> success_unique t = tick (success \<and> \<not> rep) (success_unique s)
     \<and> cooldown_total t = tick (success \<and> cooldown) (cooldown_total s)
     \<and> cooldown_unique t = tick (success \<and> cooldown \<and> \<not> rep) (cooldown_unique s)
     \<and> app_success_total t = tick app (app_success_total s)
     \<and> app_success_unique t = tick (app \<and> \<not> rep) (app_success_unique s)
     \<and> ip_fragments t = tick frag (ip_fragments s)
     \<and> filter_success t = tick out (filter_success s)
     \<and> length (printed t) = length (printed s) + (if out \<and> has_process_ip c then 1 else 0)
     \<and> length (resent t) = length (resent s) + (if again then 1 else 0)"

lemma tick_False [simp]: "tick False n = n" by (simp add: tick_def)

lemma record_keeps:
  assumes "packet_record c m cap rep s = Inr (fs, t)"
  shows "\<exists>f. t = s\<lparr>fake_eth_hdr := f\<rparr>"
  using assms by (auto simp: packet_record_def probe_frame_def Let_def split: if_splits) (metis state_recv.surjective state_recv.update_convs(16))+

lemma count_validation_tick:
  assumes "count_validation c m ip n s = Inr (v, t)"
  shows "\<exists>bf buff rs passed failed again. t = s\<lparr>seen_replies := bf, send_buff := buff, resent := rs,
      validation_passed := tick passed (validation_passed s), validation_failed := tick failed (validation_failed s),
      validation_again := tick again (validation_again s)\<rparr>
    \<and> length rs = length (resent s) + (if again then 1 else 0)
    \<and> ((passed \<longrightarrow> \<not> failed \<and> \<not> again) \<and> (again \<longrightarrow> \<not> failed)) \<and> (v \<noteq> None \<longleftrightarrow> passed \<or> again)"
    (is "\<exists>bf buff rs passed failed again. ?P bf buff rs passed failed again")
proof -
  obtain ret rep bf buff len where val: "validate_packet m (seen_replies s) ip (n - (if send_ip_pkts c then 0 else ETH)) True
      (send_buff s) (packet_length m) = Inr (ret, rep, bf, buff, len)"
    using assms by (auto simp: count_validation_def)
  let ?s = "s\<lparr>seen_replies := bf, send_buff := buff\<rparr>"
  consider "v = Some rep" "t = ?s\<lparr>validation_passed := validation_passed s + 1\<rparr>"
    | "v = None" "t = ?s"
    | p where "v = Some rep" "t = ?s\<lparr>resent := resent s @ [p], validation_again := validation_again s + 1\<rparr>"
    | "v = None" "t = ?s\<lparr>validation_failed := validation_failed s + 1\<rparr>"
  proof -
    have e: "(if ret = PACKET_VALID then Inr (Some rep, ?s\<lparr>validation_passed := validation_passed ?s + 1\<rparr>)
        else if ret = PACKET_AGAIN then
          if rep then Inr (None, ?s)
          else bind_out (again_contents c buff len) (\<lambda>p.
            Inr (Some rep, ?s\<lparr>resent := resent ?s @ [p], validation_again := validation_again ?s + 1\<rparr>))
        else Inr (None, ?s\<lparr>validation_failed := validation_failed ?s + 1\<rparr>)) = Inr (v, t)"
      using assms unfolding count_validation_def val bind_out_simps Let_def prod.case .
    show thesis
    proof (cases "ret = PACKET_VALID")
      case True
      then show thesis using e that(1) by simp
    next
      case a: False
      show thesis
      proof (cases "ret = PACKET_AGAIN")
        case False
        then show thesis using e a that(4) by simp
      next
        case True
        then show thesis using e a that(2,3) by (cases rep) auto
      qed
    qed
  qed
  then show ?thesis
  proof cases
    case 1
    then have "?P bf buff (resent s) True False False" by (simp add: tick_def)
    then show ?thesis by - (intro exI)
  next
    case 2
    then have "?P bf buff (resent s) False False False" by simp
    then show ?thesis by - (intro exI)
  next
    case 3
    then have "?P bf buff (resent s @ [p]) False False True" by (simp add: tick_def)
    then show ?thesis by - (intro exI)
  next
    case 4
    then have "?P bf buff (resent s) False True False" by (simp add: tick_def)
    then show ?thesis by - (intro exI)
  qed
qed

lemma count_fragment_tick:
  assumes "count_fragment c ip s = Inr t"
  obtains frag where "t = s\<lparr>ip_fragments := tick frag (ip_fragments s)\<rparr>"
proof -
  have "t = s\<lparr>ip_fragments := tick (t \<noteq> s) (ip_fragments s)\<rparr>"
    using assms by (auto simp: count_fragment_def Let_def tick_def split: if_splits)
  then show thesis by (rule that)
qed

lemma count_app_tick:
  assumes "count_app_success c fs rep s = Inr t"
  obtains app where "t = s\<lparr>app_success_total := tick app (app_success_total s),
    app_success_unique := tick (app \<and> \<not> rep) (app_success_unique s)\<rparr>"
proof -
  have "t = s \<or> t = s\<lparr>app_success_total := app_success_total s + 1,
    app_success_unique := tick (\<not> rep) (app_success_unique s)\<rparr>"
    using assms by (auto simp: count_app_success_def split: if_splits)
  then show thesis using that [of False] that [of True] by (auto simp: tick_def)
qed

lemma output_tick:
  assumes "output_record c fs success rep s = Inr t"
  obtains out p where "t = s\<lparr>filter_success := tick out (filter_success s), printed := p\<rparr>"
    "length p = length (printed s) + (if out \<and> has_process_ip c then 1 else 0)"
    "out \<longrightarrow> (filter_unsuccessful c \<longrightarrow> success) \<and> (filter_duplicates c \<longrightarrow> \<not> rep)"
proof (cases "(\<not> success \<and> filter_unsuccessful c) \<or> (rep \<and> filter_duplicates c) \<or> evaluate_expression (filter_expression c) fs = Inr False")
  case True
  then have "t = s" using assms by (auto simp: output_record_def split: if_split_asm)
  then show thesis using that [where out = False and p = "printed s"] by simp
next
  case False
  then have "bind_out (translate_fieldset fs (translation c)) (\<lambda>out.
      Inr (s\<lparr>filter_success := filter_success s + 1,
        printed := (if has_process_ip c then printed s @ [out] else printed s)\<rparr>)) = Inr t"
    using assms by (cases "evaluate_expression (filter_expression c) fs") (auto simp: output_record_def split: if_split_asm)
  then obtain o' where "s\<lparr>filter_success := filter_success s + 1,
      printed := (if has_process_ip c then printed s @ [o'] else printed s)\<rparr> = t"
    by (simp only: bind_out_eq_Inr sum.inject) blast
  from this [symmetric] show thesis using False that [where out = True and p = "if has_process_ip c then printed s @ [o'] else printed s"]
    by (cases "has_process_ip c"; cases success; cases rep) (simp_all add: tick_def)
qed

lemma update_keeps:
  assumes "update_output c s = Inr t"
  obtains u where "t = s\<lparr>updates := u\<rparr>"
proof -
  have "t = s\<lparr>updates := updates t\<rparr>" using assms by (auto simp: update_output_def split: option.splits if_splits)
  then show thesis by (rule that)
qed

lemma count_success_eq:
  "count_success b rep cd s = s\<lparr>success_total := tick b (success_total s), success_unique := tick (b \<and> \<not> rep) (success_unique s),
     cooldown_total := tick (b \<and> cd) (cooldown_total s), cooldown_unique := tick (b \<and> cd \<and> \<not> rep) (cooldown_unique s),
     failure_total := tick (\<not> b) (failure_total s)\<rparr>"
  by (auto simp: count_success_def tick_def)

lemma handle_packet_tallied:
  assumes "handle_packet c m cap s = Inr t"
  shows "\<exists>passed failed again success rep cooldown app frag out.
    tallied c passed failed again success rep cooldown app frag out s t"
proof (cases "\<exists>k. count_validation c m (drop (data_link_size c) (cap_bytes cap)) (cap_len cap) s = Inr k
    \<and> (if ipv6_scan c then 40 else sizeof_ip) + data_link_size c \<le> cap_len cap")
  case False
  then have "t = s" using assms by (auto simp: handle_packet_def Let_def split: if_splits)
  then have "tallied c False False False False False False False False False s t" by (simp add: tallied_def)
  then show ?thesis by blast
next
  case True
  let ?ip = "drop (data_link_size c) (cap_bytes cap)"
  from True obtain v s1 where v: "count_validation c m ?ip (cap_len cap) s = Inr (v, s1)"
    and len: "(if ipv6_scan c then 40 else sizeof_ip) + data_link_size c \<le> cap_len cap" by fastforce
  obtain bf buff rs passed failed again where s1: "s1 = s\<lparr>seen_replies := bf, send_buff := buff, resent := rs,
      validation_passed := tick passed (validation_passed s), validation_failed := tick failed (validation_failed s),
      validation_again := tick again (validation_again s)\<rparr>"
    "length rs = length (resent s) + (if again then 1 else 0)"
    "(passed \<longrightarrow> \<not> failed \<and> \<not> again) \<and> (again \<longrightarrow> \<not> failed)" "v \<noteq> None \<longleftrightarrow> passed \<or> again"
    using count_validation_tick [OF v] by metis
  show ?thesis
  proof (cases v)
    case None
    then have "t = s1" using assms v len by (simp add: handle_packet_def Let_def)
    then have "tallied c passed failed again False False False False False False s t"
      using s1 None by (auto simp: tallied_def)
    then show ?thesis by blast
  next
    case (Some rep)
    obtain s2 fs s3 success s4 s5 where st: "count_fragment c ?ip s1 = Inr s2"
      "packet_record c m cap rep s2 = Inr (fs, s3)" "record_success c fs = Inr success"
      "count_app_success c fs rep (count_success success rep (cap_complete cap) s3) = Inr s4"
      "output_record c fs success rep s4 = Inr s5" "update_output c s5 = Inr t"
      using assms v len Some by (auto simp: handle_packet_def Let_def)
    obtain frag where s2: "s2 = s1\<lparr>ip_fragments := tick frag (ip_fragments s1)\<rparr>"
      using count_fragment_tick [OF st(1)] .
    obtain f where s3: "s3 = s2\<lparr>fake_eth_hdr := f\<rparr>" using record_keeps [OF st(2)] by blast
    obtain app where s4: "s4 = (count_success success rep (cap_complete cap) s3)\<lparr>
        app_success_total := tick app (app_success_total (count_success success rep (cap_complete cap) s3)),
        app_success_unique := tick (app \<and> \<not> rep) (app_success_unique (count_success success rep (cap_complete cap) s3))\<rparr>"
      using count_app_tick [OF st(4)] .
    obtain out p where s5: "s5 = s4\<lparr>filter_success := tick out (filter_success s4), printed := p\<rparr>"
      "length p = length (printed s4) + (if out \<and> has_process_ip c then 1 else 0)"
      "out \<longrightarrow> (filter_unsuccessful c \<longrightarrow> success) \<and> (filter_duplicates c \<longrightarrow> \<not> rep)"
      using output_tick [OF st(5)] .
    obtain u where t: "t = s5\<lparr>updates := u\<rparr>" using update_keeps [OF st(6)] .
    have "passed \<or> again" using s1(4) Some by simp
    then have "tallied c passed failed again success rep (cap_complete cap) app frag out s t"
      using s1(2,3) s5(2,3) unfolding tallied_def t s5(1) s4 s3 s2 s1(1) count_success_eq by simp
    then show ?thesis by blast
  qed
qed

text \<open>The relations between the counters after \<open>n\<close> packets.\<close>

definition recv_inv :: "recv_conf \<Rightarrow> nat \<Rightarrow> state_recv \<Rightarrow> bool" where
  "recv_inv c n s \<longleftrightarrow>
     unat (validation_passed s) + unat (validation_failed s) + unat (validation_again s) \<le> n
     \<and> unat (success_total s) + unat (failure_total s) = unat (validation_passed s) + unat (validation_again s)
     \<and> unat (success_unique s) \<le> unat (success_total s)
     \<and> unat (cooldown_total s) \<le> unat (success_total s)
     \<and> unat (cooldown_unique s) \<le> unat (success_unique s)
     \<and> unat (cooldown_unique s) \<le> unat (cooldown_total s)
     \<and> unat (app_success_total s) \<le> unat (validation_passed s) + unat (validation_again s)
     \<and> unat (app_success_unique s) \<le> unat (app_success_total s)
     \<and> unat (ip_fragments s) \<le> unat (validation_passed s) + unat (validation_again s)
     \<and> unat (filter_success s) \<le> unat (validation_passed s) + unat (validation_again s)
     \<and> (filter_unsuccessful c \<longrightarrow> unat (filter_success s) \<le> unat (success_total s))
     \<and> (filter_unsuccessful c \<and> filter_duplicates c \<longrightarrow> unat (filter_success s) \<le> unat (success_unique s))
     \<and> filter_success s \<le> max_results c
     \<and> length (printed s) = (if has_process_ip c then unat (filter_success s) else 0)
     \<and> length (resent s) = unat (validation_again s)"

lemma unat_tick: "unat n + 1 < 2 ^ 64 \<Longrightarrow> unat (tick b n) = unat n + of_bool b"
  by (cases b) (simp_all add: tick_def unat_word_ariths)

lemma tallied_inv:
  assumes "tallied c passed failed again success rep cooldown app frag out s t"
    "recv_inv c n s" "n + 1 < 2 ^ 64" "filter_success s < max_results c"
  shows "recv_inv c (Suc n) t"
proof -
  note K = assms(1) [unfolded tallied_def] and I = assms(2) [unfolded recv_inv_def]
  have b: "unat (validation_passed s) + 1 < 2 ^ 64" "unat (validation_failed s) + 1 < 2 ^ 64"
    "unat (validation_again s) + 1 < 2 ^ 64" "unat (success_total s) + 1 < 2 ^ 64"
    "unat (failure_total s) + 1 < 2 ^ 64" "unat (success_unique s) + 1 < 2 ^ 64"
    "unat (cooldown_total s) + 1 < 2 ^ 64" "unat (cooldown_unique s) + 1 < 2 ^ 64"
    "unat (app_success_total s) + 1 < 2 ^ 64" "unat (app_success_unique s) + 1 < 2 ^ 64"
    "unat (ip_fragments s) + 1 < 2 ^ 64" "unat (filter_success s) + 1 < 2 ^ 64"
    using I assms(3) by linarith+
  note T = b [THEN unat_tick]
  have m: "tick out (filter_success s) \<le> max_results c"
    using assms(4) T(12) by (cases out) (simp_all add: word_le_nat_alt word_less_nat_alt)
  have e: "unat (validation_passed t) = unat (validation_passed s) + of_bool passed"
    "unat (validation_failed t) = unat (validation_failed s) + of_bool failed"
    "unat (validation_again t) = unat (validation_again s) + of_bool again"
    "unat (success_total t) = unat (success_total s) + of_bool success"
    "unat (failure_total t) = unat (failure_total s) + of_bool ((passed \<or> again) \<and> \<not> success)"
    "unat (success_unique t) = unat (success_unique s) + of_bool (success \<and> \<not> rep)"
    "unat (cooldown_total t) = unat (cooldown_total s) + of_bool (success \<and> cooldown)"
    "unat (cooldown_unique t) = unat (cooldown_unique s) + of_bool (success \<and> cooldown \<and> \<not> rep)"
    "unat (app_success_total t) = unat (app_success_total s) + of_bool app"
    "unat (app_success_unique t) = unat (app_success_unique s) + of_bool (app \<and> \<not> rep)"
    "unat (ip_fragments t) = unat (ip_fragments s) + of_bool frag"
    "unat (filter_success t) = unat (filter_success s) + of_bool out"
    "filter_success t \<le> max_results c"
    "length (printed t) = length (printed s) + (if out \<and> has_process_ip c then 1 else 0)"
    "length (resent t) = length (resent s) + (if again then 1 else 0)"
    using K T m by simp_all
  have v: "(passed \<longrightarrow> \<not> failed \<and> \<not> again) \<and> (again \<longrightarrow> \<not> failed) \<and> (app \<or> frag \<or> out \<or> success \<longrightarrow> passed \<or> again)"
    "out \<longrightarrow> (filter_unsuccessful c \<longrightarrow> success) \<and> (filter_duplicates c \<longrightarrow> \<not> rep)"
    using K by blast+
  show ?thesis
    unfolding recv_inv_def e
    using I v e(13)
    by (intro conjI impI; cases passed; cases again; cases success; simp; linarith?)
qed

lemma recv_inv_mono: "\<lbrakk>recv_inv c n s; n \<le> k\<rbrakk> \<Longrightarrow> recv_inv c k s"
  unfolding recv_inv_def using le_trans by blast

lemma packet_cb_inv:
  assumes "packet_cb c m cap s = Inr t" "recv_inv c n s" "n + 1 < 2 ^ 64"
  shows "recv_inv c (Suc n) t" "unat (filter_success t) = unat (filter_success s) + of_bool (filter_success t \<noteq> filter_success s)"
proof -
  have "recv_inv c (Suc n) t
    \<and> unat (filter_success t) = unat (filter_success s) + of_bool (filter_success t \<noteq> filter_success s)"
  proof (cases "filter_success s \<ge> max_results c")
    case True
    then have "t = s" using assms(1) by (simp add: packet_cb_def)
    then show ?thesis using recv_inv_mono [OF assms(2), of "Suc n"] by simp
  next
    case False
    then have "handle_packet c m cap s = Inr t" using assms(1) by (simp add: packet_cb_def)
    then obtain passed failed again success rep cooldown app frag out where
      k: "tallied c passed failed again success rep cooldown app frag out s t"
      by (elim handle_packet_tallied [elim_format] exE)
    have "unat (filter_success s) + 1 < 2 ^ 64" using assms(2,3) unfolding recv_inv_def by linarith
    moreover have "filter_success t = tick out (filter_success s)" using k unfolding tallied_def by blast
    ultimately show ?thesis using tallied_inv [OF k assms(2,3)] False
      by (cases out) (simp_all add: unat_tick, simp_all add: tick_def)
  qed
  then show "recv_inv c (Suc n) t"
    "unat (filter_success t) = unat (filter_success s) + of_bool (filter_success t \<noteq> filter_success s)" by blast+
qed

lemma reach_inv:
  "\<lbrakk>reach c m s0 caps out s; recv_inv c 0 s0; length caps < 2 ^ 64\<rbrakk>
     \<Longrightarrow> recv_inv c (length caps) s \<and> unat (filter_success s) = length out + unat (filter_success s0)"
proof (induction rule: reach.induct)
  case (packet caps out s cap t)
  then have s: "recv_inv c (length caps) s" "unat (filter_success s) = length out + unat (filter_success s0)" by simp_all
  have n: "length caps + 1 < 2 ^ 64" using packet.prems(2) by simp
  show ?case using packet_cb_inv [OF packet.hyps(2) s(1) n] s(2) by (simp split: if_splits)
qed simp

text \<open>The state before the scan, and the configuration that the loop runs with.\<close>

definition recv_start :: "bloom_filter \<Rightarrow> state_recv" where
  "recv_start bf = \<lparr>success_total = 0, success_unique = 0, app_success_total = 0, app_success_unique = 0,
     cooldown_total = 0, cooldown_unique = 0, failure_total = 0, filter_success = 0, ip_fragments = 0,
     validation_passed = 0, validation_failed = 0, validation_again = 0, complete = False, seen_replies = bf,
     send_buff = replicate MAX_PACKET_SIZE 0, fake_eth_hdr = replicate FAKE_SIZE 0, resent = [], printed = [], updates = 0\<rparr>"

definition loop_conf :: "recv_conf \<Rightarrow> nat \<Rightarrow> recv_conf" where
  "loop_conf c link = c\<lparr>data_link_size := link, max_results := (if max_results c = 0 then - 1 else max_results c)\<rparr>"

lemma recv_run_reach:
  assumes "recv_run c m thread_init True (Inr (link, bpf)) rounds (recv_start bf) = Inr (r, t)" "\<not> dryrun c"
  obtains buff f caps out rest s where
    "reach (loop_conf c link) m ((recv_start bf)\<lparr>send_buff := buff, fake_eth_hdr := f\<rparr>) caps out s"
    "all_packets rounds = caps @ rest" "t = s \<or> t = s\<lparr>complete := True\<rparr>" "r = 0"
proof -
  obtain buff where buff: "thread_init (replicate MAX_PACKET_SIZE 0) = Inr buff" using assms(1) by (auto simp: recv_run_def)
  let ?f = "if send_ip_pkts c then fake_header c else fake_eth_hdr (recv_start bf)"
  let ?s = "(recv_start bf)\<lparr>send_buff := buff, fake_eth_hdr := ?f\<rparr>"
  have "?s = (let s = (recv_start bf)\<lparr>send_buff := buff\<rparr> in if send_ip_pkts c then s\<lparr>fake_eth_hdr := fake_header c\<rparr> else s)"
    by (simp add: recv_start_def)
  then obtain ended s where l: "recv_loop (loop_conf c link) m rounds ?s = Inr (ended, s)"
    "Inr (r, t) = (Inr (0, if ended then s\<lparr>complete := True\<rparr> else s) :: (int \<times> state_recv) outcome)"
    using assms(1) by (auto simp: recv_run_def buff Let_def loop_conf_def)
  have "\<not> dryrun (loop_conf c link)" using assms(2) by (simp add: loop_conf_def)
  from recv_loop_reach [OF l(1) this start] obtain caps out rest where
    "all_packets rounds = caps @ rest" "reach (loop_conf c link) m ?s caps out s" by auto
  then show thesis using that [of ?f buff] l(2) by (auto split: if_splits)
qed

text \<open>
  C39: Whatever packets arrive, when fewer than \<open>2 ^ 64\<close> were captured the counters
  of the receiver fit together: every packet that passed validation, or is sent again, is counted as a
  success or a failure, the unique and the cooldown counts are parts of the totals, what is printed
  passed the filters that are set (only successes, only unique ones), as many records were handed to
  the output module as the counter says, and never more than \<open>--max-results\<close>.
\<close>

theorem recv_invariant:
  assumes "recv_run c m thread_init True (Inr (link, bpf)) rounds (recv_start bf) = Inr (r, t)" "\<not> dryrun c"
    "length (all_packets rounds) < 2 ^ 64"
  shows "recv_inv (loop_conf c link) (length (all_packets rounds)) t"
proof -
  obtain buff f caps out rest s where
    r: "reach (loop_conf c link) m ((recv_start bf)\<lparr>send_buff := buff, fake_eth_hdr := f\<rparr>) caps out s"
    "all_packets rounds = caps @ rest" "t = s \<or> t = s\<lparr>complete := True\<rparr>" "r = 0"
    using recv_run_reach [OF assms(1,2)] by metis
  have "recv_inv (loop_conf c link) 0 ((recv_start bf)\<lparr>send_buff := buff, fake_eth_hdr := f\<rparr>)"
    by (simp add: recv_inv_def recv_start_def)
  from reach_inv [OF r(1) this] have "recv_inv (loop_conf c link) (length caps) s" using assms(3) r(2) by simp
  then have "recv_inv (loop_conf c link) (length (all_packets rounds)) s"
    by (rule recv_inv_mono) (simp add: r(2))
  then show ?thesis using r(3) by (auto simp: recv_inv_def)
qed

section \<open>Replies are printed once\<close>

text \<open>The DNS module as the receiver calls it; it does not use the send buffer, nor the time of a packet.\<close>

definition dns_module :: "udp_conf \<Rightarrow> dns_state \<Rightarrow> text_lib \<Rightarrow> probe_module" where
  "dns_module uc st lib = \<lparr>packet_length = PAYLOAD + dns_packet_lens st ! 0,
     validate_packet = (\<lambda>bf ip len is_repeat buff n.
       bind_out (dns_validate_packet uc st bf ip len is_repeat) (\<lambda>(r, is_repeat, bf). Inr (r, is_repeat, bf, buff, n))),
     process_packet = (\<lambda>packet len fs ts. dns_process_packet uc st lib packet len fs)\<rparr>"

text \<open>The source of a reply and the scanned port that it answers for, as the filter stores them.\<close>

definition reply_key :: "udp_conf \<Rightarrow> u8 list \<Rightarrow> nat \<Rightarrow> u8 list" where
  "reply_key uc ip len =
     (case (bytes_at ip 12 (udp_ipv46_bytes uc), udp_reply uc ip len) of
        (Inr src, Inr (Some port)) \<Rightarrow> src @ net_bytes port | _ \<Rightarrow> [])"

definition capture_key :: "recv_conf \<Rightarrow> udp_conf \<Rightarrow> capture \<Rightarrow> u8 list" where
  "capture_key c uc cap =
     reply_key uc (drop (data_link_size c) (cap_bytes cap)) (cap_len cap - (if send_ip_pkts c then 0 else ETH))"

lemma length_reply_key: "udp_ipv46_bytes uc \<le> 30 \<Longrightarrow> length (reply_key uc ip len) \<le> 32"
  by (auto simp: reply_key_def net_bytes_def bytes_at_def split: sum.splits option.splits if_splits)

lemma udp_validate_note:
  assumes "udp_validate_packet uc bf ip len rep = Inr (r, rep', bf')" "filter_ok bf" "udp_ipv46_bytes uc \<le> 30"
  shows "(r = PACKET_INVALID \<and> bf' = bf)
    \<or> (bloom_seen (udp_math uc) bf (reply_key uc ip len) \<and> rep' = rep \<and> bf' = bf)
    \<or> (\<not> bloom_seen (udp_math uc) bf (reply_key uc ip len) \<and> bf' = bloom_put (udp_math uc) bf (reply_key uc ip len))"
proof -
  obtain x where x: "udp_reply uc ip len = Inr x" using assms(1) by (auto simp: udp_validate_packet_def)
  show ?thesis
  proof (cases x)
    case None
    then show ?thesis using assms(1) x by (simp add: udp_validate_packet_def)
  next
    case (Some port)
    then obtain src where src: "bytes_at ip 12 (udp_ipv46_bytes uc) = Inr src"
      using assms(1) x by (auto simp: udp_validate_packet_def)
    have k: "reply_key uc ip len = src @ net_bytes port" using src x Some by (simp add: reply_key_def)
    have l: "length (src @ net_bytes port) \<le> 32" using length_reply_key [OF assms(3), of ip len] k by simp
    show ?thesis using assms(1) x Some src note_reply_spec [OF assms(2) l, of "udp_math uc" rep]
      unfolding k by (auto simp: udp_validate_packet_def split: if_splits)
  qed
qed

lemma dns_validate_note:
  assumes "dns_validate_packet uc st bf ip len rep = Inr (r, rep', bf')" "filter_ok bf" "udp_ipv46_bytes uc \<le> 30"
  shows "(r = PACKET_INVALID \<and> bf' = bf)
    \<or> (bloom_seen (udp_math uc) bf (reply_key uc ip len) \<and> rep' = rep \<and> bf' = bf)
    \<or> (\<not> bloom_seen (udp_math uc) bf (reply_key uc ip len) \<and> bf' = bloom_put (udp_math uc) bf (reply_key uc ip len))"
proof -
  obtain r1 where u: "udp_validate_packet uc bf ip len rep = Inr (r1, rep', bf')" "r1 = PACKET_INVALID \<longrightarrow> r = PACKET_INVALID"
    using assms(1) by (auto simp: dns_validate_packet_def split: if_splits option.splits)
  from udp_validate_note [OF u(1) assms(2,3)] u(2) show ?thesis by blast
qed

lemma dns_validate_values:
  assumes "dns_validate_packet uc st bf ip len rep = Inr (r, rep', bf')"
  shows "r = PACKET_VALID \<or> r = PACKET_INVALID"
  using assms by (auto simp: dns_validate_packet_def split: if_splits option.splits)

text \<open>What one packet does to the filter, and what is known of it when it is printed.\<close>

lemma count_validation_dns:
  assumes "count_validation c (dns_module uc st lib) ip n s = Inr (v, t)" "filter_ok (seen_replies s)" "udp_ipv46_bytes uc \<le> 30"
  defines "key \<equiv> reply_key uc ip (n - (if send_ip_pkts c then 0 else ETH))"
  shows "(seen_replies t = seen_replies s \<and> (v = None \<or> v = Some True))
    \<or> (\<not> bloom_seen (udp_math uc) (seen_replies s) key \<and> seen_replies t = bloom_put (udp_math uc) (seen_replies s) key)"
proof -
  obtain r rep bf where d: "dns_validate_packet uc st (seen_replies s) ip (n - (if send_ip_pkts c then 0 else ETH)) True = Inr (r, rep, bf)"
    using assms(1) by (auto simp: count_validation_def dns_module_def)
  have "seen_replies t = bf \<and> (v = (if r = PACKET_VALID then Some rep else None))"
    using assms(1) dns_validate_values [OF d]
    by (auto simp: count_validation_def dns_module_def d Let_def PACKET_VALID_def PACKET_INVALID_def PACKET_AGAIN_def)
  with dns_validate_note [OF d assms(2,3)] show ?thesis unfolding key_def
    by (auto simp: PACKET_VALID_def PACKET_INVALID_def)
qed

lemma handle_packet_dns:
  assumes "handle_packet c (dns_module uc st lib) cap s = Inr t" "filter_duplicates c"
    "filter_ok (seen_replies s)" "udp_ipv46_bytes uc \<le> 30"
  shows "(seen_replies t = seen_replies s \<and> filter_success t = filter_success s)
    \<or> (\<not> bloom_seen (udp_math uc) (seen_replies s) (capture_key c uc cap)
       \<and> seen_replies t = bloom_put (udp_math uc) (seen_replies s) (capture_key c uc cap))"
proof (cases "(if ipv6_scan c then 40 else sizeof_ip) + data_link_size c > cap_len cap")
  case True
  then show ?thesis using assms(1) by (simp add: handle_packet_def)
next
  case False
  let ?ip = "drop (data_link_size c) (cap_bytes cap)"
  obtain v s1 where v: "count_validation c (dns_module uc st lib) ?ip (cap_len cap) s = Inr (v, s1)"
    using assms(1) False by (auto simp: handle_packet_def Let_def)
  note V = count_validation_dns [OF v assms(3,4), folded capture_key_def]
  have f1: "filter_success s1 = filter_success s" using count_validation_tick [OF v] by auto
  show ?thesis
  proof (cases v)
    case None
    then show ?thesis using assms(1) False v V f1 by (auto simp: handle_packet_def Let_def)
  next
    case (Some rep)
    obtain s2 fs s3 success s4 s5 where st: "count_fragment c ?ip s1 = Inr s2"
      "packet_record c (dns_module uc st lib) cap rep s2 = Inr (fs, s3)"
      "count_app_success c fs rep (count_success success rep (cap_complete cap) s3) = Inr s4"
      "output_record c fs success rep s4 = Inr s5" "update_output c s5 = Inr t"
      using assms(1) v False Some by (auto simp: handle_packet_def Let_def)
    obtain frag where s2: "s2 = s1\<lparr>ip_fragments := tick frag (ip_fragments s1)\<rparr>"
      using count_fragment_tick [OF st(1)] .
    obtain f where s3: "s3 = s2\<lparr>fake_eth_hdr := f\<rparr>" using record_keeps [OF st(2)] by blast
    obtain app where s4: "s4 = (count_success success rep (cap_complete cap) s3)\<lparr>
        app_success_total := tick app (app_success_total (count_success success rep (cap_complete cap) s3)),
        app_success_unique := tick (app \<and> \<not> rep) (app_success_unique (count_success success rep (cap_complete cap) s3))\<rparr>"
      using count_app_tick [OF st(3)] .
    obtain out p where s5: "s5 = s4\<lparr>filter_success := tick out (filter_success s4), printed := p\<rparr>"
      "out \<longrightarrow> (filter_unsuccessful c \<longrightarrow> success) \<and> (filter_duplicates c \<longrightarrow> \<not> rep)"
      using output_tick [OF st(4)] .
    obtain u where t: "t = s5\<lparr>updates := u\<rparr>" using update_keeps [OF st(5)] .
    have e: "seen_replies t = seen_replies s1" "filter_success t = tick out (filter_success s)"
      unfolding t s5(1) s4 s3 s2 count_success_eq by (simp_all add: f1)
    show ?thesis
    proof (cases "v = Some True")
      case True
      then have "\<not> out" using s5(2) assms(2) Some by simp
      then show ?thesis using e V by auto
    next
      case False
      then show ?thesis using e V Some by auto
    qed
  qed
qed

lemma reach_dns:
  assumes "reach c (dns_module uc st lib) s0 caps out s" "filter_duplicates c" "filter_ok (seen_replies s0)"
    "udp_ipv46_bytes uc \<le> 30"
  shows "filter_ok (seen_replies s) \<and> distinct (map (capture_key c uc) out)
    \<and> (\<forall>cap \<in> set out. bloom_seen (udp_math uc) (seen_replies s) (capture_key c uc cap))"
  using assms
proof (induction rule: reach.induct)
  case (packet caps out s cap t)
  let ?key = "capture_key c uc" and ?seen = "bloom_seen (udp_math uc)"
  have k: "length (?key x) \<le> 32" for x
    using length_reply_key [OF packet.prems(3)] by (simp add: capture_key_def)
  have I: "filter_ok (seen_replies s)" "distinct (map ?key out)" "\<forall>x \<in> set out. ?seen (seen_replies s) (?key x)"
    using packet by blast+
  have "(seen_replies t = seen_replies s \<and> filter_success t = filter_success s)
    \<or> (\<not> ?seen (seen_replies s) (?key cap) \<and> seen_replies t = bloom_put (udp_math uc) (seen_replies s) (?key cap))"
    using packet.hyps(2) handle_packet_dns [OF _ packet.prems(1) I(1) packet.prems(3)]
    by (auto simp: packet_cb_def split: if_splits)
  then show ?case
  proof (elim disjE conjE)
    assume new: "\<not> ?seen (seen_replies s) (?key cap)" "seen_replies t = bloom_put (udp_math uc) (seen_replies s) (?key cap)"
    have "?key cap \<notin> set (map ?key out)" using new(1) I(3) by auto
    moreover have "filter_ok (seen_replies t)" "?seen (seen_replies t) (?key cap)"
      "\<forall>x \<in> set out. ?seen (seen_replies t) (?key x)"
      unfolding new(2) using bloom.add_inv [OF I(1) k] bloom.add_seen [OF I(1) k] bloom.add_keeps [OF I(1) k k] I(3)
      by blast+
    ultimately show ?thesis using I(2) by (cases "filter_success t = filter_success s") auto
  qed (use I in auto)
qed auto

section \<open>A run\<close>

definition ex_recv_conf :: recv_conf where
  "ex_recv_conf = \<lparr>ipv6_scan = False, data_link_size = ETH, send_ip_pkts = False, success_index = 5,
     app_success_index = - 1, filter_unsuccessful = False, filter_duplicates = True, filter_expression = Nil_node,
     translation = [0, 4], has_process_ip = True, update_interval = None, max_results = 0, dryrun = False,
     recv_text = ex_text_lib\<rparr>"

definition ex_capture :: "u16 \<Rightarrow> capture" where
  "ex_capture w = \<lparr>cap_bytes = replicate 14 0 @ ex_dns_reply w @ replicate 600 0, cap_len = 642, cap_sec = 0, cap_usec = 0,
     cap_complete = False, cap_clock = ([], 0, 0)\<rparr>"

lemma ex_capture_ip: "drop ETH (cap_bytes (ex_capture w)) = ex_dns_reply w @ replicate 600 0"
  by (simp add: ex_capture_def ETH_def)

lemma ex_reply_parts:
  "ip_p (ex_dns_reply w @ r) 0 = Inr IPPROTO_UDP" "ip_hl_bytes (ex_dns_reply w @ r) 0 = Inr 20"
  "ip_src (ex_dns_reply w @ r) 0 = Inr [10, 2, 0, 1]" "ip_dst (ex_dns_reply w @ r) 0 = Inr [192, 168, 0, 1]"
  "u16_at (ex_dns_reply w @ r) 20 = Inr 53" "u16_at (ex_dns_reply w @ r) (20 + 2) = Inr w"
  "u16_at (ex_dns_reply w @ r) (20 + 4) = Inr 600" "u16_at (ex_dns_reply w @ r) 4 = Inr 0"
  "byte_at (ex_dns_reply w @ r) 8 = Inr 0" "byte_at (ex_dns_reply w @ r) 6 = Inr 0" "byte_at (ex_dns_reply w @ r) 7 = Inr 0"
proof -
  note P = ex_dns_reply_parts [of w]
  show "ip_p (ex_dns_reply w @ r) 0 = Inr IPPROTO_UDP" "ip_hl_bytes (ex_dns_reply w @ r) 0 = Inr 20"
    "u16_at (ex_dns_reply w @ r) 20 = Inr 53" "u16_at (ex_dns_reply w @ r) (20 + 2) = Inr w"
    "u16_at (ex_dns_reply w @ r) (20 + 4) = Inr 600"
    by (rule parts_append [OF P(1,2)], rule P)+
  show "ip_src (ex_dns_reply w @ r) 0 = Inr [10, 2, 0, 1]" "ip_dst (ex_dns_reply w @ r) 0 = Inr [192, 168, 0, 1]"
    "u16_at (ex_dns_reply w @ r) 4 = Inr 0" "byte_at (ex_dns_reply w @ r) 8 = Inr 0"
    "byte_at (ex_dns_reply w @ r) 6 = Inr 0" "byte_at (ex_dns_reply w @ r) 7 = Inr 0"
    by (simp_all add: ip_src_def ip_dst_def bytes_at_def byte_at_def u16_at_def ex_dns_reply_def)
qed

text \<open>The example reply is accepted whatever was seen before, and it can be recorded.\<close>

lemma ex_reply_accepted:
  obtains bl and st :: dns_state and w where "dns_global_init 1 None = Inr st"
    "\<exists>l \<in> set (dns_packet_lens st). l \<le> unat (600 :: u16)"
    "\<forall>bf. filter_ok bf \<longrightarrow> dns_validate_packet (ex_dns_conf bl) st bf (ex_dns_reply w @ replicate 600 0) 628 True
       = Inr (if bloom_seen ex_math bf [10, 2, 0, 1, 0, 53] then (PACKET_VALID, True, bf)
              else (PACKET_VALID, False, bloom_put ex_math bf [10, 2, 0, 1, 0, 53]))"
proof -
  obtain bl and st :: dns_state and packet w where s: "dns_global_init 1 None = Inr st"
    "blocklist_is_allowed_ip bl [10, 2, 0, 1] = Inr True"
    "\<exists>l \<in> set (dns_packet_lens st). l \<le> unat (600 :: u16)"
    "dns_make_packet (ex_dns_conf bl) st (replicate MAX_PACKET_SIZE 0) 68 [192, 168, 0, 1] [10, 2, 0, 1] 53 64 0
       = Inr (packet, 68)"
    "u16_at packet IP_END = Inr w" "u16_at packet (IP_END + 2) = Inr 53" by (rule ex_dns_setup)
  note V = dns_validate_reply [OF s(4), where ip = "ex_dns_reply w @ replicate 600 0" and hl = 20 and ulen = 600
      and len = 628 and rep = True]
  have m: "val16 v mod 10 < 10" for v by simp
  have n: "net_bytes 53 = [0, 53]" by (simp add: net_bytes_def)
  show ?thesis
  proof (rule that [OF s(1,3), of bl w], intro allI impI)
    fix bf assume "filter_ok bf"
    then show "dns_validate_packet (ex_dns_conf bl) st bf (ex_dns_reply w @ replicate 600 0) 628 True
       = Inr (if bloom_seen ex_math bf [10, 2, 0, 1, 0, 53] then (PACKET_VALID, True, bf)
              else (PACKET_VALID, False, bloom_put ex_math bf [10, 2, 0, 1, 0, 53]))"
      using V [of bf] s(2,3) ex_reply_parts [of w "replicate 600 0"] m unfolding s(5,6)
      by (auto simp: ex_dns_conf_def n split: if_splits)
  qed
qed

lemma ex_reply_handled:
  assumes "dns_global_init 1 None = Inr st" "\<exists>l \<in> set (dns_packet_lens st). l \<le> unat (600 :: u16)"
    "\<forall>bf. filter_ok bf \<longrightarrow> dns_validate_packet uc st bf (ex_dns_reply w @ replicate 600 0) 628 True
       = Inr (if bloom_seen ex_math bf k then (PACKET_VALID, True, bf) else (PACKET_VALID, False, bloom_put ex_math bf k))"
    "uc = ex_dns_conf bl" "filter_ok (seen_replies s)" "length k \<le> 32"
  shows "\<exists>t. handle_packet (loop_conf ex_recv_conf ETH) (dns_module uc st ex_text_lib) (ex_capture w) s = Inr t
    \<and> filter_ok (seen_replies t) \<and> bloom_seen ex_math (seen_replies t) k
    \<and> filter_success t = (if bloom_seen ex_math (seen_replies s) k then filter_success s else filter_success s + 1)"
proof -
  let ?c = "loop_conf ex_recv_conf ETH" and ?m = "dns_module uc st ex_text_lib" and ?bf = "seen_replies s"
  let ?cap = "ex_capture w" and ?ip = "ex_dns_reply w @ replicate 600 0"
  let ?bf' = "if bloom_seen ex_math ?bf k then ?bf else bloom_put ex_math ?bf k" and ?rep = "bloom_seen ex_math ?bf k"
  note C = loop_conf_def ex_recv_conf_def
  note P = ex_reply_parts [of w "replicate 600 0"]
  have ip: "drop (data_link_size ?c) (cap_bytes ?cap) = ?ip" by (simp add: loop_conf_def ex_capture_ip)
  let ?s1 = "s\<lparr>seen_replies := ?bf', validation_passed := validation_passed s + 1\<rparr>"
  have len: "cap_len ?cap - (if send_ip_pkts ?c then 0 else ETH) = 628" by (simp add: C ex_capture_def ETH_def)
  have "dns_validate_packet uc st ?bf ?ip 628 True = Inr (PACKET_VALID, ?rep, ?bf')"
    using assms(3,5) by simp
  then have v: "count_validation ?c ?m ?ip (cap_len ?cap) s = Inr (Some ?rep, ?s1)"
    by (simp add: count_validation_def len dns_module_def Let_def del: bind_out_eq_Inr)
  have f: "count_fragment ?c ?ip ?s1 = Inr ?s1"
    using P by (simp add: count_fragment_def C IP_MF_def Let_def del: bind_out_eq_Inr)
  obtain fs b where r: "packet_record ?c ?m ?cap ?rep ?s1 = Inr (fs, ?s1)"
    "fs_get_uint64_by_index fs 5 = Inr b" "5 < length (fs_fields fs)"
  proof -
    let ?h = "[(''saddr'', Str (inet_ntoa [10, 2, 0, 1])), (''daddr'', Str (inet_ntoa [192, 168, 0, 1])),
      (''ipid'', Uint 0), (''ttl'', Uint 0)]"
    let ?fs0 = "Fieldset None (map (\<lambda>(n, v). (Some n, v)) ?h)"
    have h: "fs_add_ip_fields fs_new_fieldset ?ip = Inr ?fs0"
      using fs_add_fields_room [of fs_new_fieldset ?h] P
      by (simp add: fs_add_ip_fields_def fs_new_fieldset_def MAX_FIELDS_def del: bind_out_eq_Inr fs_add_fields.simps)
    have l: "20 + 8 + unat (600 :: u16) \<le> length (drop ETH (cap_bytes ?cap))"
      by (simp add: ex_capture_ip ex_dns_reply_def net_bytes_def)
    obtain fs1 ok where fs1: "dns_process_packet uc st ex_text_lib (cap_bytes ?cap) 642 ?fs0 = Inr fs1"
      "map fst (fs_fields fs1) = map fst (fs_fields ?fs0) @ map Some dns_record_names"
      "fs_fields fs1 ! 5 = (Some ''success'', bool_val ok)" "fs_inner fs1 = None"
      using settles_returns [OF dns_record_made [OF assms(1) ex_text_lib_sanitizes, of "cap_bytes ?cap" 20 600 uc ?fs0 642]
          ex_text_lib_clean(2)] l assms(2,4) P
      by (auto simp: ex_capture_ip ex_dns_conf_def MAX_FIELDS_def)
    have n: "length (fs_fields fs1) = 36"
      using arg_cong [OF fs1(2), of length] by (simp add: dns_record_names_def dns_fields_def)
    let ?y = "[(''repeat'', bool_val ?rep), (''cooldown'', bool_val False), (''timestamp_str'', Str []),
      (''timestamp_ts'', Uint 0), (''timestamp_us'', Uint 0)]"
    let ?fs2 = "Fieldset None (fs_fields fs1 @ map (\<lambda>(n, v). (Some n, v)) ?y)"
    have y: "fs_add_system_fields fs1 ?rep False ([], 0, 0) = Inr ?fs2"
      using fs_add_fields_room [of fs1 ?y] fs1(4) n
      by (simp add: fs_add_system_fields_def MAX_FIELDS_def del: fs_add_fields.simps)
    have "packet_record ?c ?m ?cap ?rep ?s1 = Inr (?fs2, ?s1)"
      using h fs1(1) y ip by (simp add: packet_record_def probe_frame_def C dns_module_def ex_capture_def del: bind_out_eq_Inr)
    moreover have "fs_get_uint64_by_index ?fs2 5 = Inr (if ok then 1 else 0)"
      using n fs1(3) by (simp add: fs_get_uint64_by_index_def slot_def bool_val_def nth_append del: bind_out_eq_Inr)
    ultimately show thesis using that n by simp
  qed
  obtain ok where ok: "record_success ?c fs = Inr ok"
    using r by (simp add: record_success_def flag_at_def C)
  define s2 where "s2 = count_success ok ?rep False ?s1"
  have a: "count_app_success ?c fs ?rep s2 = Inr s2" by (simp add: count_app_success_def C)
  have "fs_fields fs \<noteq> []" using r(3) by auto
  then obtain out where "translate_fieldset fs [0, 4] = Inr out"
    using r(3) by (simp add: translate_fieldset_def slot_def)
  then obtain t where t: "output_record ?c fs ok ?rep s2 = Inr t" "seen_replies t = ?bf'"
    "filter_success t = (if ?rep then filter_success s else filter_success s + 1)"
    by (cases ?rep) (simp_all add: output_record_def C s2_def count_success_eq)
  have u: "update_output ?c t = Inr t" by (simp add: update_output_def C)
  have big: "\<not> (if ipv6_scan ?c then 40 else sizeof_ip) + data_link_size ?c > cap_len ?cap" "cap_complete ?cap = False"
    by (simp_all add: C ex_capture_def sizeof_ip_def ETH_def)
  have "handle_packet ?c ?m ?cap s = Inr t"
    unfolding handle_packet_def Let_def ip if_not_P [OF big(1)] v bind_out_simps prod.case option.case f r(1) ok big(2)
      s2_def [symmetric] a t(1) u ..
  moreover have "filter_ok (seen_replies t)" "bloom_seen ex_math (seen_replies t) k"
    unfolding t(2) using assms(5,6) bloom.add_inv bloom.add_seen by (cases ?rep; simp)+
  ultimately show ?thesis using t(3) by blast
qed

text \<open>The reply arrives twice in one batch; the loop ends after it.\<close>

lemma ex_run:
  obtains uc and st :: dns_state and w t where
    "recv_run ex_recv_conf (dns_module uc st ex_text_lib) Inr True (Inr (ETH, None)) [([ex_capture w, ex_capture w], True)]
       (recv_start ex_bloom) = Inr (0, t)" "filter_success t = 1" "udp_ipv46_bytes uc = 4"
    "\<exists>caps out s. reach (loop_conf ex_recv_conf ETH) (dns_module uc st ex_text_lib)
       (recv_start ex_bloom) caps out s \<and> caps = [ex_capture w, ex_capture w] \<and> out = [ex_capture w]"
proof -
  obtain bl and st :: dns_state and w where e: "dns_global_init 1 None = Inr st"
    "\<exists>l \<in> set (dns_packet_lens st). l \<le> unat (600 :: u16)"
    "\<forall>bf. filter_ok bf \<longrightarrow> dns_validate_packet (ex_dns_conf bl) st bf (ex_dns_reply w @ replicate 600 0) 628 True
       = Inr (if bloom_seen ex_math bf [10, 2, 0, 1, 0, 53] then (PACKET_VALID, True, bf)
              else (PACKET_VALID, False, bloom_put ex_math bf [10, 2, 0, 1, 0, 53]))"
    by (rule ex_reply_accepted)
  let ?uc = "ex_dns_conf bl" and ?c = "loop_conf ex_recv_conf ETH" and ?k = "[10, 2, 0, 1, 0, 53] :: u8 list"
  let ?m = "dns_module ?uc st ex_text_lib" and ?cap = "ex_capture w" and ?s0 = "recv_start ex_bloom"
  note H = ex_reply_handled [OF e refl]
  have z: "bloom ex_bloom = replicate 3 0" unfolding replicate_Suc [of 2, simplified]
    by (simp add: ex_bloom_def bloom_filter_init_alt_def calculate_optimal_hashes_def ex_math_def
        bloom_filter_set_hash_function_def Let_def)
  have new: "\<not> bloom_seen ex_math (seen_replies ?s0) ?k"
    using bloom_seen_zero [OF ex_bloom_ok _ z, of ?k ex_math] by (simp add: recv_start_def)
  obtain s1 where s1: "handle_packet ?c ?m ?cap ?s0 = Inr s1" "filter_ok (seen_replies s1)" "filter_success s1 = 1"
    "bloom_seen ex_math (seen_replies s1) ?k"
    using H [of ?s0] new ex_bloom_ok by (auto simp: recv_start_def)
  obtain t where t: "handle_packet ?c ?m ?cap s1 = Inr t" "filter_success t = 1"
    using H [OF s1(2)] s1(3,4) by auto
  have cb: "packet_cb ?c ?m ?cap ?s0 = Inr s1" "packet_cb ?c ?m ?cap s1 = Inr t"
  proof -
    have "max_results ?c = - 1" "filter_success ?s0 = 0" by (simp_all add: loop_conf_def ex_recv_conf_def recv_start_def)
    moreover have "\<not> (- 1 :: u64) \<le> 0" "\<not> (- 1 :: u64) \<le> 1" by code_simp+
    ultimately show "packet_cb ?c ?m ?cap ?s0 = Inr s1" "packet_cb ?c ?m ?cap s1 = Inr t"
      using s1(1,3) t(1) unfolding packet_cb_def by simp_all
  qed
  have "reach ?c ?m ?s0 [?cap, ?cap] [?cap] t"
    using packet [OF packet [OF start cb(1)] cb(2)] s1(3) t(2) by (simp add: recv_start_def)
  moreover have "recv_run ex_recv_conf ?m Inr True (Inr (ETH, None)) [([?cap, ?cap], True)] ?s0 = Inr (0, t\<lparr>complete := True\<rparr>)"
  proof -
    have "recv_packets ?c ?m [?cap, ?cap] ?s0 = Inr t" using cb by simp
    moreover have "\<not> dryrun ?c" "\<not> send_ip_pkts ex_recv_conf" by (simp_all add: loop_conf_def ex_recv_conf_def)
    ultimately have "recv_loop ?c ?m [([?cap, ?cap], True)] ?s0 = Inr (True, t)" "\<not> send_ip_pkts ex_recv_conf"
      by (simp_all del: recv_packets.simps)
    moreover have "?s0\<lparr>send_buff := replicate MAX_PACKET_SIZE 0\<rparr> = ?s0" by (simp add: recv_start_def)
    ultimately show ?thesis
      unfolding recv_run_def bind_out_simps prod.case Let_def loop_conf_def [symmetric]
      by (simp del: recv_loop.simps bind_out_eq_Inr)
  qed
  moreover have "udp_ipv46_bytes ?uc = 4" by (simp add: ex_dns_conf_def)
  moreover have "filter_success (t\<lparr>complete := True\<rparr>) = 1" using t(2) by simp
  ultimately show thesis by - (rule that, assumption+, blast)
qed

text \<open>
  C40: When duplicates are filtered, in every state that the receiver reaches with the DNS
  module the packets that were printed answer for distinct pairs of source and scanned port, whatever
  was captured, replayed or forged: no host is reported twice for a port.
\<close>

theorem recv_printed_once:
  assumes "reach c (dns_module uc st lib) s0 caps out s" "filter_duplicates c" "filter_ok (seen_replies s0)"
    "udp_ipv46_bytes uc \<le> 30"
  shows "distinct (map (capture_key c uc) out)"
  using reach_dns [OF assms] by blast

theorem recv_printed_once_witness:
  "\<exists>uc st w s. reach (loop_conf ex_recv_conf ETH) (dns_module uc (st :: dns_state) ex_text_lib) (recv_start ex_bloom)
      [ex_capture w, ex_capture w] [ex_capture w] s
    \<and> distinct (map (capture_key (loop_conf ex_recv_conf ETH) uc) [ex_capture w])"
proof -
  obtain uc and st :: dns_state and w s where r: "udp_ipv46_bytes uc = 4"
    "reach (loop_conf ex_recv_conf ETH) (dns_module uc st ex_text_lib) (recv_start ex_bloom)
      [ex_capture w, ex_capture w] [ex_capture w] s"
    by (rule ex_run) blast
  have "distinct (map (capture_key (loop_conf ex_recv_conf ETH) uc) [ex_capture w])"
    by (rule recv_printed_once [OF r(2)]) (simp_all add: r(1) loop_conf_def ex_recv_conf_def recv_start_def ex_bloom_ok)
  with r(2) show ?thesis by blast
qed

theorem recv_invariant_witness:
  "\<exists>uc st w t. recv_run ex_recv_conf (dns_module uc (st :: dns_state) ex_text_lib) Inr True (Inr (ETH, None))
      [([ex_capture w, ex_capture w], True)] (recv_start ex_bloom) = Inr (0, t)
    \<and> recv_inv (loop_conf ex_recv_conf ETH) 2 t \<and> filter_success t = 1"
proof -
  obtain uc and st :: dns_state and w t where r: "filter_success t = 1"
    "recv_run ex_recv_conf (dns_module uc st ex_text_lib) Inr True (Inr (ETH, None)) [([ex_capture w, ex_capture w], True)]
       (recv_start ex_bloom) = Inr (0, t)" by (rule ex_run)
  have "recv_inv (loop_conf ex_recv_conf ETH) (length (all_packets [([ex_capture w, ex_capture w], True)])) t"
    by (rule recv_invariant [OF r(2)]) (simp_all add: ex_recv_conf_def all_packets_def)
  then show ?thesis using r by (auto simp: all_packets_def numeral_2_eq_2)
qed

section \<open>Limits\<close>

text \<open>
  The mask for the fragment flag is not converted to network order, so the counter looks at a bit of
  the fragment offset: a first fragment is not counted, and a packet with that bit is.
\<close>

lemma fragment_flag_missed:
  "count_fragment c ([0x45, 0, 0, 0, 0, 0, 0x20, 0] @ rest) s = Inr s"
  "\<not> ipv6_scan c \<Longrightarrow>
     count_fragment c ([0x45, 0, 0, 0, 0, 0, 0, 0x20] @ rest) s = Inr (s\<lparr>ip_fragments := ip_fragments s + 1\<rparr>)"
  by (simp_all add: count_fragment_def byte_at_def IP_MF_def Let_def)

text \<open>
  When only IP packets are sent, as many bytes as were captured are copied from behind the link header:
  with a link header, every packet that is recorded is read past its end.
\<close>

lemma frame_overread:
  assumes "send_ip_pkts c" "0 < data_link_size c" "length bytes \<le> FAKE_SIZE" "cap_len cap = length (cap_bytes cap)"
    "bytes = cap_bytes cap"
  shows "probe_frame c bytes (cap_len cap) s = Inl Out_of_bounds"
  using assms by (simp add: probe_frame_def bytes_at_def Let_def)

text \<open>The assertion about the filter expression is enough for the buffer.\<close>

lemma capture_filter_fits:
  assumes "capture_filter ip_pkts mac f \<noteq> Inl Assert_failed" "ip_pkts \<or> f \<noteq> None" "ip_pkts \<longrightarrow> (\<forall>g. f = Some g \<longrightarrow> length g < 1022)"
  shows "\<exists>s. capture_filter ip_pkts mac f = Inr s \<and> length s < BPFLEN"
  using assms by (auto simp: capture_filter_def BPFLEN_def not_from_def hex2_def split: option.splits if_splits)

end
