(* ===== verification/Tcp_Scan.thy ===== *)
theory Tcp_Scan
  imports Recv
begin

text \<open>
  The TCP probe module \<open>src/probe_modules/module_tcp_scan.c\<close>: SYN probes, the validation of the
  segments that come back and the answers to them, and the record of a segment. The answers are
  written into the send buffer of the receiver and sent from there.
\<close>

section \<open>Probes\<close>

definition TH_FIN :: u8 where "TH_FIN = 0x01"
definition TH_SYN :: u8 where "TH_SYN = 0x02"
definition TH_RST :: u8 where "TH_RST = 0x04"
definition TH_ACK :: u8 where "TH_ACK = 0x10"
definition SIZEOF_TCPHDR :: nat where "SIZEOF_TCPHDR = 20"

text \<open>What the module reads of the configuration of the scan.\<close>

record tcp_conf =
  tcp_port_flag :: "u16 \<Rightarrow> bool"
  tcp_ports :: port_conf
  tcp_validate :: validate
  tcp_ipv46_bytes :: nat
  tcp_math :: bloom_math
  tcp_ttl :: u8

text \<open>The number of source ports, and as the \<open>int\<close> that it is passed as.\<close>

definition tcp_scan_global_init :: "port_conf \<Rightarrow> u32" where
  "tcp_scan_global_init p = ucast (source_port_last p) - ucast (source_port_first p) + 1"

definition tcp_num_sports :: "tcp_conf \<Rightarrow> int" where
  "tcp_num_sports c = sint (tcp_scan_global_init (tcp_ports c))"

text \<open>The bytes of a word of the host, and of one in network order.\<close>

definition host32_bytes :: "u32 \<Rightarrow> u8 list" where
  "host32_bytes w = [ucast w, ucast (drop_bit 8 w), ucast (drop_bit 16 w), ucast (drop_bit 24 w)]"

definition net32_bytes :: "u32 \<Rightarrow> u8 list" where
  "net32_bytes w = [ucast (drop_bit 24 w), ucast (drop_bit 16 w), ucast (drop_bit 8 w), ucast w]"

definition htonl :: "u32 \<Rightarrow> u32" where
  "htonl w = push_bit 24 (ucast (ucast w :: u8)) OR push_bit 16 (ucast (ucast (drop_bit 8 w) :: u8))
     OR push_bit 8 (ucast (ucast (drop_bit 16 w) :: u8)) OR ucast (ucast (drop_bit 24 w) :: u8)"

text \<open>The buffer of a thread; \<open>rand\<close> is what \<open>random\<close> returns.\<close>

definition tcp_scan_thread_init :: "u32 \<Rightarrow> u8 list \<Rightarrow> u8 list \<Rightarrow> u8 list" where
  "tcp_scan_thread_init rand src gw =
     make_tcp_header IP_END rand (ucast TH_SYN)
       (make_ip_header ETH IPPROTO_TCP (of_nat (sizeof_ip + SIZEOF_TCPHDR))
         (make_eth_header 0 src gw (replicate MAX_PACKET_SIZE 0)))"

text \<open>The addresses and the time to live; the checksum over the segment, computed with its field set to 0.\<close>

definition put_addresses :: "u8 list \<Rightarrow> u8 list \<Rightarrow> u8 \<Rightarrow> u8 list \<Rightarrow> u8 list" where
  "put_addresses src dst ttl buf = put_at (ETH + 8) [ttl] (put_at (ETH + 16) (take 4 dst) (put_at (ETH + 12) (take 4 src) buf))"

definition put_ports :: "u16 \<Rightarrow> u16 \<Rightarrow> u8 list \<Rightarrow> u8 list" where
  "put_ports sport dport buf = put_at (IP_END + 2) (htons_bytes dport) (put_at IP_END (htons_bytes sport) buf)"

definition put_tcp_sum :: "u8 list \<Rightarrow> u8 list \<Rightarrow> u8 list \<Rightarrow> u8 list outcome" where
  "put_tcp_sum src dst buf =
     (let buf = put_at (IP_END + 16) [0, 0] buf
      in bind_out (tcp_checksum (of_nat SIZEOF_TCPHDR) (take 4 src) (take 4 dst) (drop IP_END buf)) (\<lambda>s.
           Inr (put_at (IP_END + 16) (host_bytes s) buf)))"

text \<open>The sequence number is stored in the order of the host.\<close>

definition tcp_scan_make_packet ::
    "tcp_conf \<Rightarrow> u8 list \<Rightarrow> u8 list \<Rightarrow> u8 list \<Rightarrow> u16 \<Rightarrow> u8 \<Rightarrow> nat \<Rightarrow> u8 list outcome" where
  "tcp_scan_make_packet c buf src_ip dst_ip dst_port ttl probe_num =
     bind_out (validate_gen (tcp_validate c) (tcp_ipv46_bytes c) src_ip dst_ip dst_port) (\<lambda>validation.
     let buf = put_ports (get_src_port (tcp_ports c) (tcp_num_sports c) (int probe_num) validation) dst_port
                 (put_addresses src_ip dst_ip ttl buf);
         buf = put_at (IP_END + 4) (host32_bytes (get_tcp_seqnum validation)) buf
     in bind_out (put_tcp_sum src_ip dst_ip buf) put_ip_sum)"

section \<open>Replies\<close>

text \<open>A segment: scanned port, our port, sequence and acknowledgement number, flags.\<close>

record segment =
  seg_dport :: u16
  seg_sport :: u16
  seg_seq :: u32
  seg_ack :: u32
  seg_flags :: u8

definition tcp_flag :: "u8 \<Rightarrow> segment \<Rightarrow> bool" where
  "tcp_flag f g \<longleftrightarrow> seg_flags g AND f \<noteq> 0"

definition read_segment :: "u8 list \<Rightarrow> nat \<Rightarrow> segment outcome" where
  "read_segment ip hl =
     bind_out (u16_at ip hl) (\<lambda>dport. bind_out (u16_at ip (hl + 2)) (\<lambda>sport.
     bind_out (u32_at ip (hl + 4)) (\<lambda>seq. bind_out (u32_at ip (hl + 8)) (\<lambda>ack.
     bind_out (byte_at ip (hl + 13)) (\<lambda>flags.
       Inr \<lparr>seg_dport = dport, seg_sport = sport, seg_seq = seq, seg_ack = ack, seg_flags = flags\<rparr>)))))"

text \<open>Which acknowledgements fit the sequence number \<open>s\<close> of a probe, in the order of the numbers.\<close>

definition ack_fits :: "u32 \<Rightarrow> segment \<Rightarrow> bool" where
  "ack_fits s g \<longleftrightarrow>
     (if tcp_flag TH_RST g then \<not> (seg_ack g \<noteq> s \<and> seg_ack g \<noteq> s + 1)
      else \<not> (seg_ack g > s + 3 \<or> seg_ack g \<le> s))"

definition tcp_reply :: "tcp_conf \<Rightarrow> u8 list \<Rightarrow> nat \<Rightarrow> segment option outcome" where
  "tcp_reply c ip len =
     bind_out (ip_p ip 0) (\<lambda>proto.
     if proto \<noteq> IPPROTO_TCP then Inr None
     else bind_out (ip_hl_bytes ip 0) (\<lambda>hl.
       if hl + SIZEOF_TCPHDR > len then Inr None
       else bind_out (read_segment ip hl) (\<lambda>g.
         if \<not> tcp_port_flag c (seg_dport g) then Inr None
         else
           bind_out (ip_dst ip 0) (\<lambda>own.
           bind_out (ip_src ip 0) (\<lambda>target.
           bind_out (validate_gen (tcp_validate c) (tcp_ipv46_bytes c) own target (seg_dport g)) (\<lambda>validation.
             if \<not> check_src_port (tcp_ports c) (seg_sport g) (tcp_num_sports c) validation then Inr None
             else if \<not> ack_fits (htonl (get_tcp_seqnum validation)) g then Inr None
             else Inr (Some g)))))))"

text \<open>The key of the filter: the source, the scanned port and the low byte of the sequence number.\<close>

definition seg_key :: "u8 list \<Rightarrow> segment \<Rightarrow> u8 list" where
  "seg_key src g = src @ [ucast (drop_bit 8 (seg_dport g)), ucast (seg_dport g), ucast (seg_seq g)]"

text \<open>The answer to a segment, in the send buffer.\<close>

definition tcp_answer :: "tcp_conf \<Rightarrow> u8 list \<Rightarrow> segment \<Rightarrow> u8 \<Rightarrow> u8 list \<Rightarrow> u8 list outcome" where
  "tcp_answer c ip g flags buf =
     bind_out (ip_dst ip 0) (\<lambda>own.
     bind_out (ip_src ip 0) (\<lambda>target.
     let buf = put_ports (seg_sport g) (seg_dport g) (put_addresses own target (tcp_ttl c) buf);
         buf = put_at (IP_END + 13) [flags] (put_at (IP_END + 8) (net32_bytes (seg_seq g + 1))
                 (put_at (IP_END + 4) (net32_bytes (seg_ack g)) buf))
     in bind_out (put_tcp_sum own target buf) put_ip_sum))"

definition tcp_scan_validate_packet ::
    "tcp_conf \<Rightarrow> bloom_filter \<Rightarrow> u8 list \<Rightarrow> nat \<Rightarrow> bool \<Rightarrow> u8 list \<Rightarrow> (int \<times> bool \<times> bloom_filter \<times> u8 list) outcome" where
  "tcp_scan_validate_packet c bf ip len is_repeat buf =
     bind_out (tcp_reply c ip len) (\<lambda>r. case r of
         None \<Rightarrow> Inr (PACKET_INVALID, is_repeat, bf, buf)
       | Some g \<Rightarrow>
           bind_out (bytes_at ip 12 (tcp_ipv46_bytes c)) (\<lambda>src.
           bind_out (note_reply (tcp_math c) bf (seg_key src g) is_repeat) (\<lambda>(is_repeat, bf).
             if tcp_flag TH_SYN g \<and> tcp_flag TH_ACK g then
               bind_out (tcp_answer c ip g (TH_FIN OR TH_ACK) buf) (\<lambda>buf. Inr (PACKET_AGAIN, is_repeat, bf, buf))
             else if tcp_flag TH_FIN g \<and> tcp_flag TH_ACK g then
               bind_out (tcp_answer c ip g TH_ACK buf) (\<lambda>buf. Inr (PACKET_AGAIN, is_repeat, bf, buf))
             else if tcp_flag TH_ACK g then Inr (PACKET_VALID, is_repeat, bf, buf)
             else Inr (PACKET_INVALID, is_repeat, bf, buf))))"

section \<open>Records\<close>

definition classify :: "segment \<Rightarrow> string \<times> bool" where
  "classify g =
     (if tcp_flag TH_RST g then (''rst'', False)
      else if tcp_flag TH_SYN g \<and> tcp_flag TH_ACK g then (''synack'', True)
      else if tcp_flag TH_FIN g \<and> tcp_flag TH_ACK g then (''finack'', True)
      else if tcp_flag TH_ACK g then (''ack'', True)
      else (''other'', False))"

definition tcp_scan_process_packet :: "u8 list \<Rightarrow> fieldset \<Rightarrow> fieldset outcome" where
  "tcp_scan_process_packet packet fs =
     (let ip = drop ETH packet in
      bind_out (ip_hl_bytes ip 0) (\<lambda>hl.
      bind_out (read_segment ip hl) (\<lambda>g.
      bind_out (u16_at ip (hl + 14)) (\<lambda>window.
        fs_add_fields fs [(''sport'', num16 (seg_dport g)), (''dport'', num16 (seg_sport g)),
          (''seqnum'', Uint (ucast (seg_seq g))), (''acknum'', Uint (ucast (seg_ack g))), (''window'', num16 window),
          (''clas'', Str (fst (classify g))), (''success'', bool_val (snd (classify g)))]))))"

definition tcp_fields :: "fielddef list" where
  "tcp_fields = [(''sport'', ''int''), (''dport'', ''int''), (''seqnum'', ''int''), (''acknum'', ''int''),
     (''window'', ''int''), (''clas'', ''string''), (''success'', ''bool'')]"

text \<open>The module as the receiver calls it.\<close>

definition tcp_module :: "tcp_conf \<Rightarrow> probe_module" where
  "tcp_module c = \<lparr>packet_length = 14 + 20 + 20,
     validate_packet = (\<lambda>bf ip len is_repeat buff n.
       bind_out (tcp_scan_validate_packet c bf ip len is_repeat buff) (\<lambda>(r, is_repeat, bf, buff).
         Inr (r, is_repeat, bf, buff, n))),
     process_packet = (\<lambda>packet len fs ts. tcp_scan_process_packet packet fs)\<rparr>"

section \<open>Reading what was written\<close>

lemma u32_at_nth:
  "u32_at mem p = (if p + 4 \<le> length mem
     then Inr (push_bit 24 (ucast (mem ! p)) OR push_bit 16 (ucast (mem ! (p + 1))) OR push_bit 8 (ucast (mem ! (p + 2)))
       OR ucast (mem ! (p + 3)))
     else Inl Out_of_bounds)"
  by (auto simp: u32_at_def bytes_at_def)

lemma byte_at_put:
  "p + length bs \<le> length buf \<Longrightarrow>
     byte_at (put_at p bs buf) q = (if p \<le> q \<and> q < p + length bs then Inr (bs ! (q - p)) else byte_at buf q)"
  by (auto simp: byte_at_def nth_put_at)

lemma bytes_at_put_other:
  assumes "p + length bs \<le> length buf" "q + n \<le> p \<or> p + length bs \<le> q"
  shows "bytes_at (put_at p bs buf) q n = bytes_at buf q n"
proof -
  have "take n (drop q (put_at p bs buf)) = take n (drop q buf)" if "q + n \<le> length buf"
    using that assms by (intro nth_equalityI) (auto simp: nth_put_at)
  then show ?thesis using assms(1) by (simp add: bytes_at_def)
qed

lemma bytes_at_put_same:
  assumes "p + length bs \<le> length buf"
  shows "bytes_at (put_at p bs buf) p (length bs) = Inr bs"
proof -
  have "take (length bs) (drop p (put_at p bs buf)) = bs"
    using assms by (intro nth_equalityI) (auto simp: nth_put_at)
  then show ?thesis using assms by (simp add: bytes_at_def)
qed

lemma u32_at_put_other:
  "\<lbrakk>p + length bs \<le> length buf; q + 4 \<le> p \<or> p + length bs \<le> q\<rbrakk> \<Longrightarrow> u32_at (put_at p bs buf) q = u32_at buf q"
  unfolding u32_at_def by (subst bytes_at_put_other) auto

lemma length_word_bytes [simp]: "length (host32_bytes w) = 4" "length (net32_bytes w) = 4"
  by (simp_all add: host32_bytes_def net32_bytes_def)

lemma u32_at_put_host:
  assumes "p + 4 \<le> length buf"
  shows "u32_at (put_at p (host32_bytes w) buf) p = Inr (htonl w)"
  using bytes_at_put_same [of p "host32_bytes w" buf] assms by (simp add: u32_at_def) (simp add: host32_bytes_def htonl_def)

lemma u32_at_put_net:
  assumes "p + 4 \<le> length buf"
  shows "u32_at (put_at p (net32_bytes w) buf) p = Inr w"
proof -
  have "push_bit 24 (ucast (ucast (drop_bit 24 w) :: u8)) OR push_bit 16 (ucast (ucast (drop_bit 16 w) :: u8))
     OR push_bit 8 (ucast (ucast (drop_bit 8 w) :: u8)) OR ucast (ucast w :: u8) = (w :: u32)"
  proof (rule bit_word_eqI)
    fix n assume n: "n < LENGTH(32)"
    consider "n < 8" | "8 \<le> n" "n < 16" | "16 \<le> n" "n < 24" | "24 \<le> n" by linarith
    then show "bit (push_bit 24 (ucast (ucast (drop_bit 24 w) :: u8)) OR push_bit 16 (ucast (ucast (drop_bit 16 w) :: u8))
     OR push_bit 8 (ucast (ucast (drop_bit 8 w) :: u8)) OR ucast (ucast w :: u8) :: u32) n \<longleftrightarrow> bit w n"
      by cases (use n in \<open>auto simp: bit_simps\<close>)
  qed
  then show ?thesis
    using bytes_at_put_same [of p "net32_bytes w" buf] assms by (simp add: u32_at_def) (simp add: net32_bytes_def)
qed

lemma at_drop:
  assumes "n \<le> length mem"
  shows "byte_at (drop n mem) p = byte_at mem (n + p)" "bytes_at (drop n mem) p k = bytes_at mem (n + p) k"
    "u16_at (drop n mem) p = u16_at mem (n + p)" "u32_at (drop n mem) p = u32_at mem (n + p)"
  using assms by (auto simp: byte_at_def bytes_at_def u16_at_def u32_at_def add.commute)

lemma drop_put_at:
  "p \<le> q \<Longrightarrow> q \<le> length buf \<Longrightarrow> drop p (put_at q bs buf) = put_at (q - p) bs (drop p buf)"
  "q + length bs \<le> p \<Longrightarrow> q + length bs \<le> length buf \<Longrightarrow> drop p (put_at q bs buf) = drop p buf"
  by (auto simp: put_at_def drop_take min_def)

lemma put_host_bytes: "q + 2 \<le> length w \<Longrightarrow> put_at q (host_bytes s) w = store_sum q s w"
  by (rule nth_equalityI) (auto simp: nth_put_at store_sum_def host_bytes_def nth_list_update less_Suc_eq nth_Cons')

lemmas put_reads = u16_at_put_other u16_at_put_same u32_at_put_other u32_at_put_host u32_at_put_net byte_at_put
  bytes_at_put_other

section \<open>Checksums\<close>

lemma put_tcp_sum_spec:
  assumes "length src = 4" "length dst = 4" "IP_END + 20 \<le> length buf"
  obtains s where "put_tcp_sum src dst buf = Inr (put_at (IP_END + 16) (host_bytes s) (put_at (IP_END + 16) [0, 0] buf))"
    "tcp_checksum 20 src dst (drop IP_END (put_at (IP_END + 16) (host_bytes s) (put_at (IP_END + 16) [0, 0] buf))) = Inr 0"
proof -
  let ?b = "put_at (IP_END + 16) [0, 0] buf"
  let ?w = "drop IP_END ?b"
  let ?x = "pseudo_sum src dst (net16 20) IPPROTO_TCP"
  have l: "20 \<le> length ?w" "IP_END + 20 \<le> length ?b" using assms(3) by simp_all
  then have wi: "words_in 20 ?w" by (simp add: words_in_def)
  define s where "s = fold_sum (sum_words ?w 20 + ?x)"
  have c: "tcp_checksum 20 src dst ?w = Inr s" using wi by (simp add: tcp_checksum_def s_def Let_def)
  have z: "?w ! 16 = 0" "?w ! 17 = 0" using assms(3) by (simp_all add: nth_put_at)
  have "fold_sum (sum_words (store_sum 16 s ?w) 20 + ?x) = 0"
    by (rule fold_sum_store) (use wi z pseudo_sum_bound [of src dst "net16 20" IPPROTO_TCP] net16_less assms(1,2) in \<open>simp_all add: s_def\<close>)
  then have "tcp_checksum 20 src dst (store_sum 16 s ?w) = Inr 0" using wi by (simp add: tcp_checksum_def Let_def)
  moreover have "drop IP_END (put_at (IP_END + 16) (host_bytes s) ?b) = store_sum 16 s ?w"
    using l by (subst drop_put_at(1)) (simp_all add: put_host_bytes)
  moreover have "put_tcp_sum src dst buf = Inr (put_at (IP_END + 16) (host_bytes s) ?b)"
    using c assms(1,2) by (simp add: put_tcp_sum_def Let_def SIZEOF_TCPHDR_def)
  ultimately show thesis using that by simp
qed

lemma put_ip_sum_spec:
  assumes "ETH + 20 \<le> length buf"
  obtains s where "put_ip_sum buf = Inr (put_at (ETH + 10) (host_bytes s) (put_at (ETH + 10) [0, 0] buf))"
    "ip_checksum' (drop ETH (put_at (ETH + 10) (host_bytes s) (put_at (ETH + 10) [0, 0] buf))) = Inr 0"
proof -
  let ?b = "put_at (ETH + 10) [0, 0] buf"
  let ?w = "drop ETH ?b"
  have l: "20 \<le> length ?w" "ETH + 20 \<le> length ?b" using assms by simp_all
  define s where "s = fold_sum (sum_words ?w 20 + 0)"
  have c: "ip_checksum' ?w = Inr s" using l by (simp add: ip_checksum'_def in_checksum_def s_def)
  have "fold_sum (sum_words (store_sum 10 s ?w) 20 + 0) = 0"
    by (rule fold_sum_store) (use l assms in \<open>simp_all add: s_def words_in_def nth_put_at\<close>)
  then have "ip_checksum' (store_sum 10 s ?w) = Inr 0" using l by (simp add: ip_checksum'_def in_checksum_def)
  moreover have "drop ETH (put_at (ETH + 10) (host_bytes s) ?b) = store_sum 10 s ?w"
    using l by (subst drop_put_at(1)) (simp_all add: put_host_bytes)
  moreover have "put_ip_sum buf = Inr (put_at (ETH + 10) (host_bytes s) ?b)" using c by (simp add: put_ip_sum_def Let_def)
  ultimately show thesis using that by simp
qed

section \<open>Segments and answers\<close>

text \<open>A packet with the addresses and the segment. For one that comes in, the first port is the scanned one.\<close>

definition segment_in :: "u8 list \<Rightarrow> u8 list \<Rightarrow> u8 list \<Rightarrow> segment \<Rightarrow> bool" where
  "segment_in ip src dst g \<longleftrightarrow> ip_p ip 0 = Inr IPPROTO_TCP \<and> ip_src ip 0 = Inr src \<and> ip_dst ip 0 = Inr dst
     \<and> (\<exists>hl. ip_hl_bytes ip 0 = Inr hl \<and> read_segment ip hl = Inr g)"

text \<open>The send buffer: the headers that the module writes once for a thread.\<close>

definition answer_ready :: "u8 list \<Rightarrow> bool" where
  "answer_ready buf \<longleftrightarrow> length buf = MAX_PACKET_SIZE \<and> byte_at buf ETH = Inr 0x45 \<and> byte_at buf (ETH + 9) = Inr IPPROTO_TCP
     \<and> byte_at buf (IP_END + 12) = Inr 0x50"

lemma thread_init_ready: "answer_ready (tcp_scan_thread_init rand src gw)"
proof -
  note pos = ETH_def IP_END_def MAX_PACKET_SIZE_def
  let ?e = "make_eth_header 0 src gw (replicate MAX_PACKET_SIZE 0)"
  let ?i = "make_ip_header ETH IPPROTO_TCP (of_nat (sizeof_ip + SIZEOF_TCPHDR)) ?e"
  have "length ?e = 4096" by (simp add: make_eth_header_def make_eth_header_ethertype_def pos)
  then have i: "length ?i = 4096" "?i ! 14 = 0x45" "?i ! 23 = IPPROTO_TCP"
    by (simp_all add: make_ip_header_def pos nth_put_at htons_bytes_def)
  then show ?thesis
    unfolding answer_ready_def tcp_scan_thread_init_def make_tcp_header_def
    by (simp add: pos byte_at_put htons_bytes_def) (simp add: byte_at_def i pos)
qed

text \<open>An answer goes back to where the segment came from, with the numbers continued and sums that verify.\<close>

lemma tcp_answer_spec:
  assumes "answer_ready buf" "ip_dst ip 0 = Inr own" "ip_src ip 0 = Inr target"
  obtains buf' where "tcp_answer c ip g flags buf = Inr buf'" "answer_ready buf'"
    "segment_in (drop ETH buf') own target \<lparr>seg_dport = seg_sport g, seg_sport = seg_dport g, seg_seq = seg_ack g,
       seg_ack = seg_seq g + 1, seg_flags = flags\<rparr>"
    "tcp_checksum 20 own target (drop IP_END buf') = Inr 0" "ip_checksum' (drop ETH buf') = Inr 0"
proof -
  note pos = ETH_def IP_END_def MAX_PACKET_SIZE_def
  have l: "length own = 4" "length target = 4"
    using assms(2,3) by (auto simp: ip_dst_def ip_src_def bytes_at_def split: if_splits)
  have lb: "length buf = 4096" using assms(1) by (simp add: answer_ready_def pos)
  let ?a = "put_addresses own target (tcp_ttl c) buf"
  let ?p = "put_ports (seg_sport g) (seg_dport g) ?a"
  let ?b = "put_at (IP_END + 13) [flags] (put_at (IP_END + 8) (net32_bytes (seg_seq g + 1))
      (put_at (IP_END + 4) (net32_bytes (seg_ack g)) ?p))"
  have la: "length ?a = 4096" using l lb by (simp add: put_addresses_def pos)
  have lp: "length ?p = 4096" using la by (simp add: put_ports_def pos)
  have lbb: "length ?b = 4096" using lp by (simp add: pos)
  have ge: "IP_END + 20 \<le> length ?b" unfolding lbb by (simp add: pos)
  obtain s where s: "put_tcp_sum own target ?b = Inr (put_at (IP_END + 16) (host_bytes s) (put_at (IP_END + 16) [0, 0] ?b))"
    "tcp_checksum 20 own target (drop IP_END (put_at (IP_END + 16) (host_bytes s) (put_at (IP_END + 16) [0, 0] ?b))) = Inr 0"
    by (rule put_tcp_sum_spec [OF l ge])
  let ?t = "put_at (IP_END + 16) (host_bytes s) (put_at (IP_END + 16) [0, 0] ?b)"
  have lt: "length ?t = 4096" using lbb by (simp add: pos)
  have ge': "ETH + 20 \<le> length ?t" unfolding lt by (simp add: pos)
  obtain x where x: "put_ip_sum ?t = Inr (put_at (ETH + 10) (host_bytes x) (put_at (ETH + 10) [0, 0] ?t))"
    "ip_checksum' (drop ETH (put_at (ETH + 10) (host_bytes x) (put_at (ETH + 10) [0, 0] ?t))) = Inr 0"
    by (rule put_ip_sum_spec [OF ge'])
  let ?r = "put_at (ETH + 10) (host_bytes x) (put_at (ETH + 10) [0, 0] ?t)"
  have lr: "length ?r = 4096" using lt by (simp add: pos)
  have A: "bytes_at ?a (ETH + 12) 4 = Inr own" "bytes_at ?a (ETH + 16) 4 = Inr target"
    "byte_at ?a ETH = Inr 0x45" "byte_at ?a (ETH + 9) = Inr IPPROTO_TCP" "byte_at ?a (IP_END + 12) = Inr 0x50"
    using l lb assms(1) bytes_at_put_same [of 26 own buf] bytes_at_put_same [of 30 target "put_at 26 own buf"]
    by (simp_all add: put_addresses_def answer_ready_def pos bytes_at_put_other byte_at_put)
  have B: "bytes_at ?b q n = bytes_at ?a q n" "byte_at ?b k = byte_at ?a k" if "q + n \<le> IP_END" "k < IP_END \<or> k = IP_END + 12" for q n k
    using that la lp by (simp_all add: put_ports_def pos bytes_at_put_other byte_at_put) arith+
  have R: "bytes_at ?r q n = bytes_at ?b q n" "byte_at ?r k = byte_at ?b k"
    if "q + n \<le> ETH + 10 \<or> (ETH + 12 \<le> q \<and> q + n \<le> IP_END + 16)" "k \<noteq> ETH + 10" "k \<noteq> ETH + 11" "k < IP_END + 16" for q n k
    using that lbb lt by (auto simp add: pos bytes_at_put_other byte_at_put less_Suc_eq)
  have P: "u16_at ?b IP_END = Inr (seg_sport g)" "u16_at ?b (IP_END + 2) = Inr (seg_dport g)" "u32_at ?b (IP_END + 4) = Inr (seg_ack g)"
    "u32_at ?b (IP_END + 8) = Inr (seg_seq g + 1)" "byte_at ?b (IP_END + 13) = Inr flags"
    using la lp by (simp_all add: put_ports_def pos put_reads)
  have W: "IP_END \<le> q \<Longrightarrow> q + 2 \<le> IP_END + 16 \<Longrightarrow> u16_at ?r q = u16_at ?b q"
    "IP_END \<le> q \<Longrightarrow> q + 4 \<le> IP_END + 16 \<Longrightarrow> u32_at ?r q = u32_at ?b q" for q
    using R(1) [of q 2 0] R(1) [of q 4 0] unfolding u16_at_def u32_at_def by (simp_all add: pos)
  have Q: "u16_at ?r IP_END = Inr (seg_sport g)" "u16_at ?r (IP_END + 2) = Inr (seg_dport g)" "u32_at ?r (IP_END + 4) = Inr (seg_ack g)"
    "u32_at ?r (IP_END + 8) = Inr (seg_seq g + 1)" "byte_at ?r (IP_END + 13) = Inr flags"
    using P R(2) [of 0 0 "IP_END + 13"] W [of IP_END] W [of "IP_END + 2"] W [of "IP_END + 4"] W [of "IP_END + 8"]
    by (simp_all add: pos)
  have H: "byte_at ?r ETH = Inr 0x45" "byte_at ?r (ETH + 9) = Inr IPPROTO_TCP" "byte_at ?r (IP_END + 12) = Inr 0x50"
    "bytes_at ?r (ETH + 12) 4 = Inr own" "bytes_at ?r (ETH + 16) 4 = Inr target"
    using R(2) [of 0 0] R(1) [of _ _ 0] B(2) [of 0 0] B(1) [of _ _ 0] A by (simp_all add: pos)
  have "tcp_answer c ip g flags buf = Inr ?r"
    using assms(2,3) by (simp add: tcp_answer_def Let_def s(1) x(1) del: bind_out_eq_Inr)
  moreover have "answer_ready ?r" using H lr by (simp add: answer_ready_def pos)
  moreover have "segment_in (drop ETH ?r) own target \<lparr>seg_dport = seg_sport g, seg_sport = seg_dport g, seg_seq = seg_ack g,
       seg_ack = seg_seq g + 1, seg_flags = flags\<rparr>"
  proof -
    have "ETH \<le> length ?r" using lr by (simp add: pos)
    note D = at_drop [OF this]
    have "ip_hl_bytes (drop ETH ?r) 0 = Inr 20" using H(1) by (simp add: ip_hl_bytes_def D del: bind_out_eq_Inr)
    moreover have E: "ETH + 20 = IP_END" "ETH + (20 + 2) = IP_END + 2" "ETH + (20 + 4) = IP_END + 4"
      "ETH + (20 + 8) = IP_END + 8" "ETH + (20 + 13) = IP_END + 13" by (simp_all add: pos)
    have "read_segment (drop ETH ?r) 20 = Inr \<lparr>seg_dport = seg_sport g, seg_sport = seg_dport g, seg_seq = seg_ack g,
       seg_ack = seg_seq g + 1, seg_flags = flags\<rparr>"
      unfolding read_segment_def D E Q bind_out_simps ..
    ultimately show ?thesis using H by (simp add: segment_in_def ip_p_def ip_src_def ip_dst_def D)
  qed
  moreover have "drop IP_END ?r = drop IP_END ?t" using lt by (simp add: drop_put_at(2) pos)
  then have "tcp_checksum 20 own target (drop IP_END ?r) = Inr 0" using s(2) by simp
  ultimately show thesis using x(2) that by blast
qed

section \<open>Which segments are accepted\<close>

lemma tcp_make_packet_parts:
  assumes "tcp_scan_make_packet c buf src_ip dst_ip dst_port ttl k = Inr packet" "length buf = MAX_PACKET_SIZE"
    "length src_ip = 4" "length dst_ip = 4"
  obtains v where "validate_gen (tcp_validate c) (tcp_ipv46_bytes c) src_ip dst_ip dst_port = Inr v"
    "u16_at packet IP_END = Inr (get_src_port (tcp_ports c) (tcp_num_sports c) (int k) v)"
    "u16_at packet (IP_END + 2) = Inr dst_port" "u32_at packet (IP_END + 4) = Inr (htonl (get_tcp_seqnum v))"
proof -
  note pos = ETH_def IP_END_def MAX_PACKET_SIZE_def
  let ?b = "\<lambda>v. put_at (IP_END + 4) (host32_bytes (get_tcp_seqnum v))
      (put_ports (get_src_port (tcp_ports c) (tcp_num_sports c) (int k) v) dst_port (put_addresses src_ip dst_ip ttl buf))"
  obtain v t where v: "validate_gen (tcp_validate c) (tcp_ipv46_bytes c) src_ip dst_ip dst_port = Inr v"
    "put_tcp_sum src_ip dst_ip (?b v) = Inr t" "put_ip_sum t = Inr packet"
    using assms(1) by (auto simp: tcp_scan_make_packet_def Let_def)
  have lb: "length (put_addresses src_ip dst_ip ttl buf) = 4096" "length (?b v) = 4096"
    using assms(2-4) by (simp_all add: put_addresses_def put_ports_def pos)
  obtain s where t: "t = put_at (IP_END + 16) (host_bytes s) (put_at (IP_END + 16) [0, 0] (?b v))"
    using v(2) by (auto simp: put_tcp_sum_def Let_def)
  obtain x where r: "packet = put_at (ETH + 10) (host_bytes x) (put_at (ETH + 10) [0, 0] t)"
    using v(3) by (auto simp: put_ip_sum_def Let_def)
  have lt: "length t = 4096" using lb(2) by (simp add: t pos)
  have "u16_at packet q = u16_at (?b v) q" "u32_at packet (IP_END + 4) = u32_at (?b v) (IP_END + 4)"
    if "q = IP_END \<or> q = IP_END + 2" for q
    using that lt lb(2) unfolding r t by (auto simp: pos u16_at_put_other u32_at_put_other)
  moreover have "u16_at (?b v) IP_END = Inr (get_src_port (tcp_ports c) (tcp_num_sports c) (int k) v)"
    "u16_at (?b v) (IP_END + 2) = Inr dst_port" "u32_at (?b v) (IP_END + 4) = Inr (htonl (get_tcp_seqnum v))"
    using lb(1) by (simp_all add: put_ports_def pos put_reads)
  ultimately show thesis using v(1) by (intro that) auto
qed

text \<open>The acknowledgement of the number after \<open>s\<close> fits, unless \<open>s\<close> is one of the last three numbers.\<close>

lemma ack_fits_next:
  assumes "seg_ack g = s + 1" "\<not> tcp_flag TH_RST g"
  shows "ack_fits s g \<longleftrightarrow> s < - 3"
proof -
  have u: "uint s < 2 ^ 32" "0 \<le> uint s" using unsigned_less [of s, where ?'a = int] by simp_all
  have m: "uint (- 3 :: u32) = 2 ^ 32 - 3" by simp
  have w: "uint (s + 1) = (uint s + 1) mod 2 ^ 32" "uint (s + 3) = (uint s + 3) mod 2 ^ 32"
    by (simp_all add: uint_word_ariths)
  consider "uint s < 2 ^ 32 - 3" | "uint s = 2 ^ 32 - 3" | "uint s = 2 ^ 32 - 2" | "uint s = 2 ^ 32 - 1"
    using u by linarith
  then show ?thesis
  proof cases
    case 1
    then have "uint (s + 1) = uint s + 1" "uint (s + 3) = uint s + 3" using u w by simp_all
    then show ?thesis using assms 1 by (simp add: ack_fits_def word_less_def word_le_def m)
  qed (use assms w in \<open>simp_all add: ack_fits_def word_less_def word_le_def m\<close>)
qed

text \<open>
  What a segment that is accepted shows. That its source is an allowed target is not checked, only that the
  validation bytes fit it.
\<close>

definition own_segment :: "tcp_conf \<Rightarrow> u8 list \<Rightarrow> u8 list \<Rightarrow> segment \<Rightarrow> bool" where
  "own_segment c own target g \<longleftrightarrow> tcp_port_flag c (seg_dport g)
     \<and> (\<exists>v. validate_gen (tcp_validate c) (tcp_ipv46_bytes c) own target (seg_dport g) = Inr v
           \<and> source_port_first (tcp_ports c) \<le> seg_sport g
           \<and> seg_sport g \<le> get_src_port (tcp_ports c) (tcp_num_sports c) (packet_streams (tcp_ports c) - 1) v
           \<and> (let s = htonl (get_tcp_seqnum v) in
              if tcp_flag TH_RST g then seg_ack g \<in> {s, s + 1} else seg_ack g \<in> {s + 1, s + 2, s + 3}))"

lemma ack_fits_range:
  assumes "ack_fits s g"
  shows "if tcp_flag TH_RST g then seg_ack g \<in> {s, s + 1} else seg_ack g \<in> {s + 1, s + 2, s + 3}"
proof (cases "tcp_flag TH_RST g")
  case False
  let ?a = "seg_ack g"
  have lt: "uint s < uint ?a" "uint ?a \<le> uint (s + 3)"
    using assms False by (simp_all add: ack_fits_def word_less_def word_le_def not_le not_less)
  have "uint (s + 3) = (uint s + 3) mod 2 ^ 32" by (simp add: uint_word_ariths)
  moreover have "(uint s + 3) mod 2 ^ 32 \<le> uint s + 3" by (rule zmod_le_nonneg_dividend) simp
  ultimately have "uint ?a = uint s + 1 \<or> uint ?a = uint s + 2 \<or> uint ?a = uint s + 3" using lt by linarith
  then have "?a = word_of_int (uint s + 1) \<or> ?a = word_of_int (uint s + 2) \<or> ?a = word_of_int (uint s + 3)"
    by (metis word_of_int_uint)
  then show ?thesis using False by simp
qed (use assms in \<open>auto simp: ack_fits_def\<close>)

lemma tcp_reply_Some:
  assumes "tcp_reply c ip len = Inr (Some g)"
    "ports_ok (tcp_ports c) (tcp_num_sports c)"
  shows "\<exists>own target. segment_in ip target own g \<and> own_segment c own target g"
proof -
  obtain hl own target v where r: "ip_p ip 0 = Inr IPPROTO_TCP" "ip_hl_bytes ip 0 = Inr hl" "read_segment ip hl = Inr g"
    "tcp_port_flag c (seg_dport g)" "ip_dst ip 0 = Inr own" "ip_src ip 0 = Inr target"
    "validate_gen (tcp_validate c) (tcp_ipv46_bytes c) own target (seg_dport g) = Inr v"
    "check_src_port (tcp_ports c) (seg_sport g) (tcp_num_sports c) v" "ack_fits (htonl (get_tcp_seqnum v)) g"
    using assms(1) by (auto simp: tcp_reply_def split: if_splits)
  note r(8) [unfolded check_src_port_up_to [OF assms(2) [unfolded ports_ok_def, THEN conjunct1]
      assms(2) [unfolded ports_ok_def, THEN conjunct2, THEN conjunct1]
      assms(2) [unfolded ports_ok_def, THEN conjunct2, THEN conjunct2]]]
  then show ?thesis using r ack_fits_range [OF r(9)]
    by (intro exI [of _ own] exI [of _ target]) (auto simp: segment_in_def own_segment_def Let_def simp del: insert_iff)
qed

lemma tcp_validate_accepts:
  assumes "tcp_scan_validate_packet c bf ip len rep buf = Inr (r, rep', bf', buf')" "r \<noteq> PACKET_INVALID"
    "ports_ok (tcp_ports c) (tcp_num_sports c)"
  shows "\<exists>own target g. segment_in ip target own g \<and> own_segment c own target g \<and> tcp_flag TH_ACK g"
proof -
  obtain g where g: "tcp_reply c ip len = Inr (Some g)"
    using assms(1,2) by (auto simp: tcp_scan_validate_packet_def split: option.splits)
  have "tcp_flag TH_ACK g"
    using assms(1,2) g by (auto simp: tcp_scan_validate_packet_def split: if_splits)
  with tcp_reply_Some [OF g assms(3)] show ?thesis by blast
qed

text \<open>
  A segment that is recorded or answered comes from a scanned port, goes to a port of the range of source
  ports that is not above the one the last probe to its source is sent from, has its acknowledgement flag set, and acknowledges
  one of the three numbers after the sequence number of that probe, or with a reset the number itself or the
  next. So a sender who has not seen the probe must guess its validation bytes.
\<close>

lemma tcp_accept_sound:
  assumes "tcp_scan_validate_packet c bf ip len rep buf = Inr (r, rep', bf', buf')" "r \<noteq> PACKET_INVALID"
    "ports_ok (tcp_ports c) (tcp_num_sports c)"
  shows "\<exists>own target g. segment_in ip target own g \<and> own_segment c own target g \<and> tcp_flag TH_ACK g"
  by (rule tcp_validate_accepts [OF assms])

section \<open>The handshake with an answering host\<close>

lemma tcp_num_sports_value:
  assumes "source_port_first (tcp_ports c) \<le> source_port_last (tcp_ports c)"
  shows "tcp_num_sports c = uint (source_port_last (tcp_ports c)) - uint (source_port_first (tcp_ports c)) + 1"
    "0 < tcp_num_sports c"
proof -
  let ?a = "source_port_first (tcp_ports c)" and ?b = "source_port_last (tcp_ports c)"
  have u: "uint ?a \<le> uint ?b" "uint ?b < 2 ^ 16" "0 \<le> uint ?a"
    using assms unsigned_less [of ?b, where ?'a = int] by (simp_all add: word_le_def)
  then have b: "uint ?b - uint ?a < 2 ^ 16" "0 \<le> uint ?b - uint ?a" by linarith+
  have up: "uint (ucast w :: u32) = uint w" for w :: u16
    using unsigned_less [of w, where ?'a = int] by (simp add: unsigned_ucast_eq take_bit_int_eq_self)
  have d: "uint (ucast ?b - ucast ?a :: u32) = uint ?b - uint ?a"
    unfolding uint_word_ariths up by (rule mod_pos_pos_trivial) (use b in simp_all)
  have n: "uint (tcp_scan_global_init (tcp_ports c)) = uint ?b - uint ?a + 1"
    unfolding tcp_scan_global_init_def uint_word_ariths(1) d
    by (subst mod_pos_pos_trivial) (use b in simp_all)
  have "sint (tcp_scan_global_init (tcp_ports c)) = uint (tcp_scan_global_init (tcp_ports c))"
    unfolding sint_uint by (rule signed_take_bit_int_eq_self) (use b n in simp_all)
  then show "tcp_num_sports c = uint ?b - uint ?a + 1" using n by (simp add: tcp_num_sports_def)
  then show "0 < tcp_num_sports c" using u by linarith
qed

lemma tcp_reply_value:
  assumes "segment_in ip target own g" "ip_hl_bytes ip 0 = Inr hl" "hl + SIZEOF_TCPHDR \<le> len" "tcp_port_flag c (seg_dport g)"
    "validate_gen (tcp_validate c) (tcp_ipv46_bytes c) own target (seg_dport g) = Inr v"
  shows "tcp_reply c ip len = Inr (if check_src_port (tcp_ports c) (seg_sport g) (tcp_num_sports c) v
      \<and> ack_fits (htonl (get_tcp_seqnum v)) g then Some g else None)"
  using assms by (auto simp: tcp_reply_def segment_in_def simp del: bind_out_eq_Inr)

lemma tcp_validate_reply:
  assumes "tcp_scan_make_packet c buf0 src_ip dst_ip dst_port ttl k = Inr packet" "length buf0 = MAX_PACKET_SIZE"
    "length src_ip = 4" "length dst_ip = 4" "tcp_ipv46_bytes c = 4" "filter_ok bf" "answer_ready buf"
    "source_port_first (tcp_ports c) \<le> source_port_last (tcp_ports c)"
    "int k < packet_streams (tcp_ports c)" "packet_streams (tcp_ports c) \<le> tcp_num_sports c"
    "u16_at packet IP_END = Inr sport" "u32_at packet (IP_END + 4) = Inr s"
    "segment_in ip dst_ip src_ip \<lparr>seg_dport = dst_port, seg_sport = sport, seg_seq = q, seg_ack = s + 1, seg_flags = TH_SYN OR TH_ACK\<rparr>"
    "ip_hl_bytes ip 0 = Inr hl" "hl + SIZEOF_TCPHDR \<le> len" "tcp_port_flag c dst_port"
  defines "g \<equiv> \<lparr>seg_dport = dst_port, seg_sport = sport, seg_seq = q, seg_ack = s + 1, seg_flags = TH_SYN OR TH_ACK\<rparr>"
  defines "key \<equiv> seg_key dst_ip g"
  shows "\<exists>v. validate_gen (tcp_validate c) 4 src_ip dst_ip dst_port = Inr v
    \<and> (if (val16 v mod tcp_num_sports c + packet_streams (tcp_ports c) - 1 < tcp_num_sports c
             \<or> tcp_num_sports c \<le> val16 v mod tcp_num_sports c + int k) \<and> s < - 3
       then \<exists>buf'. tcp_scan_validate_packet c bf ip len rep buf
            = Inr (PACKET_AGAIN, bloom_seen (tcp_math c) bf key \<and> rep,
                if bloom_seen (tcp_math c) bf key then bf else bloom_put (tcp_math c) bf key, buf')
          \<and> answer_ready buf'
          \<and> segment_in (drop ETH buf') src_ip dst_ip
              \<lparr>seg_dport = sport, seg_sport = dst_port, seg_seq = s + 1, seg_ack = q + 1, seg_flags = TH_FIN OR TH_ACK\<rparr>
          \<and> tcp_checksum 20 src_ip dst_ip (drop IP_END buf') = Inr 0 \<and> ip_checksum' (drop ETH buf') = Inr 0
       else tcp_scan_validate_packet c bf ip len rep buf = Inr (PACKET_INVALID, rep, bf, buf))"
proof -
  obtain v where v: "validate_gen (tcp_validate c) (tcp_ipv46_bytes c) src_ip dst_ip dst_port = Inr v"
    "u16_at packet IP_END = Inr (get_src_port (tcp_ports c) (tcp_num_sports c) (int k) v)"
    "u32_at packet (IP_END + 4) = Inr (htonl (get_tcp_seqnum v))"
    using tcp_make_packet_parts [OF assms(1-4)] by metis
  have sp: "sport = get_src_port (tcp_ports c) (tcp_num_sports c) (int k) v" "s = htonl (get_tcp_seqnum v)"
    using v(2,3) assms(11,12) by simp_all
  let ?w = "val16 v mod tcp_num_sports c + packet_streams (tcp_ports c) - 1 < tcp_num_sports c
             \<or> tcp_num_sports c \<le> val16 v mod tcp_num_sports c + int k"
  have o: "check_src_port (tcp_ports c) sport (tcp_num_sports c) v \<longleftrightarrow> ?w"
    unfolding sp(1) by (rule check_get_src_port) (use tcp_num_sports_value [OF assms(8)] assms(9,10) in simp_all)
  have fl: "\<not> tcp_flag TH_RST g" "tcp_flag TH_SYN g" "tcp_flag TH_ACK g"
    by (simp_all add: tcp_flag_def g_def TH_RST_def TH_SYN_def TH_ACK_def)
  have ack: "ack_fits (htonl (get_tcp_seqnum v)) g \<longleftrightarrow> s < - 3"
    using ack_fits_next [of g s] fl(1) by (simp add: g_def sp(2))
  have in': "segment_in ip dst_ip src_ip g" using assms(13) by (simp add: g_def)
  have r: "tcp_reply c ip len = Inr (if ?w \<and> s < - 3 then Some g else None)"
    using tcp_reply_value [OF in' assms(14,15), of c v] v(1) assms(16) o ack by (simp add: g_def)
  show ?thesis
  proof (cases "?w \<and> s < - 3")
    case False
    have "tcp_scan_validate_packet c bf ip len rep buf = Inr (PACKET_INVALID, rep, bf, buf)"
      unfolding tcp_scan_validate_packet_def r if_not_P [OF False] by simp
    then show ?thesis using v(1) unfolding assms(5)
      by (intro exI [of _ v]) (simp only: False if_False simp_thms)
  next
    case True
    have src: "ip_src ip 0 = Inr dst_ip" "ip_dst ip 0 = Inr src_ip" using in' by (simp_all add: segment_in_def)
    obtain buf' where a: "tcp_answer c ip g (TH_FIN OR TH_ACK) buf = Inr buf'" "answer_ready buf'"
      "segment_in (drop ETH buf') src_ip dst_ip \<lparr>seg_dport = seg_sport g, seg_sport = seg_dport g, seg_seq = seg_ack g,
         seg_ack = seg_seq g + 1, seg_flags = TH_FIN OR TH_ACK\<rparr>"
      "tcp_checksum 20 src_ip dst_ip (drop IP_END buf') = Inr 0" "ip_checksum' (drop ETH buf') = Inr 0"
      using tcp_answer_spec [OF assms(7) src(2,1), of c g "TH_FIN OR TH_ACK"] by metis
    have "length key \<le> 32" using assms(4) by (simp add: key_def seg_key_def)
    note n = note_reply_spec [OF assms(6) this, of "tcp_math c" rep]
    have "bytes_at ip 12 (tcp_ipv46_bytes c) = Inr dst_ip" using src(1) assms(5) by (simp add: ip_src_def)
    then have "tcp_scan_validate_packet c bf ip len rep buf
            = Inr (PACKET_AGAIN, bloom_seen (tcp_math c) bf key \<and> rep,
                if bloom_seen (tcp_math c) bf key then bf else bloom_put (tcp_math c) bf key, buf')"
      using n fl(2,3) a(1) unfolding key_def tcp_scan_validate_packet_def r if_P [OF True]
      by (cases "bloom_seen (tcp_math c) bf (seg_key dst_ip g)") (simp_all add: key_def del: bind_out_eq_Inr)
    then show ?thesis using True v(1) assms(5) a(2-5) by (intro exI [of _ v]) (auto simp: g_def)
  qed
qed

text \<open>
  C32: A host that answers the \<open>k\<close>-th probe with a segment that has the flags SYN and ACK and
  acknowledges its sequence number gets an answer exactly when the sequence number is not one of the last
  three 32-bit numbers, and unless the source ports of the streams of this target wrap around the end of
  the port range and the probe's port lies before it. The answer goes back with both flags FIN and ACK,
  continues the numbers of both sides, and has valid checksums; the send buffer is ready for the next one. The
  reply is flagged as new if the filter has not seen the target with this port and the low byte of the
  sequence number.
\<close>

theorem tcp_handshake:
  assumes "tcp_scan_make_packet c buf0 src_ip dst_ip dst_port ttl k = Inr packet" "length buf0 = MAX_PACKET_SIZE"
    "length src_ip = 4" "length dst_ip = 4" "tcp_ipv46_bytes c = 4" "filter_ok bf" "answer_ready buf"
    "source_port_first (tcp_ports c) \<le> source_port_last (tcp_ports c)"
    "int k < packet_streams (tcp_ports c)" "packet_streams (tcp_ports c) \<le> tcp_num_sports c"
    "u16_at packet IP_END = Inr sport" "u32_at packet (IP_END + 4) = Inr s"
    "segment_in ip dst_ip src_ip \<lparr>seg_dport = dst_port, seg_sport = sport, seg_seq = q, seg_ack = s + 1, seg_flags = TH_SYN OR TH_ACK\<rparr>"
    "ip_hl_bytes ip 0 = Inr hl" "hl + SIZEOF_TCPHDR \<le> len" "tcp_port_flag c dst_port"
    "key = dst_ip @ net_bytes dst_port @ [ucast q]"
  shows "\<exists>v. validate_gen (tcp_validate c) 4 src_ip dst_ip dst_port = Inr v
    \<and> (if (val16 v mod tcp_num_sports c + packet_streams (tcp_ports c) - 1 < tcp_num_sports c
             \<or> tcp_num_sports c \<le> val16 v mod tcp_num_sports c + int k) \<and> s < - 3
       then \<exists>buf'. tcp_scan_validate_packet c bf ip len rep buf
            = Inr (PACKET_AGAIN, bloom_seen (tcp_math c) bf key \<and> rep,
                if bloom_seen (tcp_math c) bf key then bf else bloom_put (tcp_math c) bf key, buf')
          \<and> answer_ready buf'
          \<and> segment_in (drop ETH buf') src_ip dst_ip
              \<lparr>seg_dport = sport, seg_sport = dst_port, seg_seq = s + 1, seg_ack = q + 1, seg_flags = TH_FIN OR TH_ACK\<rparr>
          \<and> tcp_checksum 20 src_ip dst_ip (drop IP_END buf') = Inr 0 \<and> ip_checksum' (drop ETH buf') = Inr 0
       else tcp_scan_validate_packet c bf ip len rep buf = Inr (PACKET_INVALID, rep, bf, buf))"
  using tcp_validate_reply [OF assms(1-16), of rep] unfolding assms(17) by (simp only: seg_key_def net_bytes_def segment.select_convs append.simps)

section \<open>An example\<close>

definition ex_tcp :: tcp_conf where
  "ex_tcp = \<lparr>tcp_port_flag = (\<lambda>p. p = 80),
     tcp_ports = \<lparr>source_port_first = 32768, source_port_last = 32777, packet_streams = 1\<rparr>,
     tcp_validate = \<lparr>inited = True, val_sched = replicate 44 0\<rparr>, tcp_ipv46_bytes = 4, tcp_math = ex_math, tcp_ttl = 64\<rparr>"

text \<open>A host answers the probe to its port 80.\<close>

definition ex_syn_ack :: "u8 list" where
  "ex_syn_ack = [0x45, 0, 0, 0, 0, 0, 0, 0, 0, 6, 0, 0, 10, 2, 0, 1, 192, 168, 0, 1]
     @ [0, 80, 0x80, 5, 0, 0, 0, 7, 0x93, 0x07, 0x17, 0xF8, 0x50, 0x12, 0, 0, 0, 0, 0, 0]"

lemma ex_tcp_validation:
  "validate_gen (tcp_validate ex_tcp) (tcp_ipv46_bytes ex_tcp) [192, 168, 0, 1] [10, 2, 0, 1] 80
     = Inr [247, 23, 7, 147, 184, 238, 123, 12, 229, 121, 162, 143, 68, 52, 127, 35]"
  by code_simp

lemma ex_tcp_segment:
  "segment_in ex_syn_ack [10, 2, 0, 1] [192, 168, 0, 1]
     \<lparr>seg_dport = 80, seg_sport = 32773, seg_seq = 7, seg_ack = 0x930717F7 + 1, seg_flags = TH_SYN OR TH_ACK\<rparr>"
  "ip_hl_bytes ex_syn_ack 0 = Inr 20"
  by (simp_all add: segment_in_def ex_syn_ack_def ip_p_def ip_src_def ip_dst_def ip_hl_bytes_def byte_at_def bytes_at_def
      read_segment_def u16_at_def u32_at_def IPPROTO_TCP_def TH_SYN_def TH_ACK_def)

lemma ex_tcp_probe:
  obtains packet where "tcp_scan_make_packet ex_tcp (replicate MAX_PACKET_SIZE 0) [192, 168, 0, 1] [10, 2, 0, 1] 80 64 0 = Inr packet"
    "u16_at packet IP_END = Inr 32773" "u32_at packet (IP_END + 4) = Inr 0x930717F7"
proof -
  note pos = ETH_def IP_END_def MAX_PACKET_SIZE_def
  let ?v = "[247, 23, 7, 147, 184, 238, 123, 12, 229, 121, 162, 143, 68, 52, 127, 35] :: u8 list"
  let ?b = "put_at (IP_END + 4) (host32_bytes (get_tcp_seqnum ?v))
      (put_ports (get_src_port (tcp_ports ex_tcp) (tcp_num_sports ex_tcp) (int 0) ?v) 80
        (put_addresses [192, 168, 0, 1] [10, 2, 0, 1] 64 (replicate MAX_PACKET_SIZE 0)))"
  have lb: "length ?b = 4096" by (simp add: put_addresses_def put_ports_def pos)
  have ge: "IP_END + 20 \<le> length ?b" unfolding lb by (simp add: pos)
  obtain s where s: "put_tcp_sum [192, 168, 0, 1] [10, 2, 0, 1] ?b
      = Inr (put_at (IP_END + 16) (host_bytes s) (put_at (IP_END + 16) [0, 0] ?b))"
    by (rule put_tcp_sum_spec [OF _ _ ge, of "[192, 168, 0, 1]" "[10, 2, 0, 1]"]) simp_all
  have "ETH + 20 \<le> length (put_at (IP_END + 16) (host_bytes s) (put_at (IP_END + 16) [0, 0] ?b))"
    using lb by (simp add: pos)
  from put_ip_sum_spec [OF this] obtain packet where
    "put_ip_sum (put_at (IP_END + 16) (host_bytes s) (put_at (IP_END + 16) [0, 0] ?b)) = Inr packet" by metis
  then have p: "tcp_scan_make_packet ex_tcp (replicate MAX_PACKET_SIZE 0) [192, 168, 0, 1] [10, 2, 0, 1] 80 64 0 = Inr packet"
    unfolding tcp_scan_make_packet_def ex_tcp_validation bind_out_simps Let_def s by simp
  from tcp_make_packet_parts [OF this] obtain v where
    "validate_gen (tcp_validate ex_tcp) (tcp_ipv46_bytes ex_tcp) [192, 168, 0, 1] [10, 2, 0, 1] 80 = Inr v"
    "u16_at packet IP_END = Inr (get_src_port (tcp_ports ex_tcp) (tcp_num_sports ex_tcp) (int 0) v)"
    "u32_at packet (IP_END + 4) = Inr (htonl (get_tcp_seqnum v))" by auto
  moreover have "get_src_port (tcp_ports ex_tcp) (tcp_num_sports ex_tcp) (int 0) ?v = 32773"
    "htonl (get_tcp_seqnum ?v) = 0x930717F7" by code_simp+
  ultimately show thesis using that [OF p] ex_tcp_validation by simp
qed

lemma ex_tcp_new: "\<not> bloom_seen ex_math ex_bloom [10, 2, 0, 1, 0, 80, 7]"
proof -
  have "bloom ex_bloom = replicate 3 0" unfolding replicate_Suc [of 2, simplified]
    by (simp add: ex_bloom_def bloom_filter_init_alt_def calculate_optimal_hashes_def ex_math_def
        bloom_filter_set_hash_function_def Let_def)
  from bloom_seen_zero [OF ex_bloom_ok _ this] show ?thesis by simp
qed

theorem tcp_handshake_witness:
  "\<exists>buf bf. tcp_scan_validate_packet ex_tcp ex_bloom ex_syn_ack 40 True (tcp_scan_thread_init 0 (replicate 6 0) (replicate 6 0))
       = Inr (PACKET_AGAIN, False, bf, buf) \<and> answer_ready buf
    \<and> segment_in (drop ETH buf) [192, 168, 0, 1] [10, 2, 0, 1]
        \<lparr>seg_dport = 32773, seg_sport = 80, seg_seq = 0x930717F8, seg_ack = 8, seg_flags = TH_FIN OR TH_ACK\<rparr>"
proof -
  obtain packet where p: "tcp_scan_make_packet ex_tcp (replicate MAX_PACKET_SIZE 0) [192, 168, 0, 1] [10, 2, 0, 1] 80 64 0 = Inr packet"
    "u16_at packet IP_END = Inr 32773" "u32_at packet (IP_END + 4) = Inr 0x930717F7" by (rule ex_tcp_probe)
  have n: "tcp_num_sports ex_tcp = 10" by code_simp
  have k: "[10, 2, 0, 1, 0, 80, 7] = [10, 2, 0, 1] @ net_bytes 80 @ [ucast (7 :: u32) :: u8]" by (simp add: net_bytes_def)
  have m: "val16 v mod 10 < 10" "(0x930717F7 :: u32) < - 3" for v by simp_all
  note H = tcp_handshake [OF p(1) _ _ _ _ ex_bloom_ok thread_init_ready [of 0 "replicate 6 0" "replicate 6 0"] _ _ _ p(2,3)
      ex_tcp_segment(1,2) _ _ k, of 40 True]
  show ?thesis using H n m ex_tcp_new by (auto simp: ex_tcp_def SIZEOF_TCPHDR_def)
qed

lemma ex_tcp_accepted:
  assumes "filter_ok bf" "answer_ready buf"
  shows "\<exists>buf'. tcp_scan_validate_packet ex_tcp bf ex_syn_ack 40 True buf
       = Inr (PACKET_AGAIN, bloom_seen ex_math bf [10, 2, 0, 1, 0, 80, 7],
           if bloom_seen ex_math bf [10, 2, 0, 1, 0, 80, 7] then bf else bloom_put ex_math bf [10, 2, 0, 1, 0, 80, 7], buf')
    \<and> answer_ready buf'"
proof -
  obtain packet where p: "tcp_scan_make_packet ex_tcp (replicate MAX_PACKET_SIZE 0) [192, 168, 0, 1] [10, 2, 0, 1] 80 64 0 = Inr packet"
    "u16_at packet IP_END = Inr 32773" "u32_at packet (IP_END + 4) = Inr 0x930717F7" by (rule ex_tcp_probe)
  have n: "tcp_num_sports ex_tcp = 10" by code_simp
  have m: "val16 v mod 10 < 10" "(0x930717F7 :: u32) < - 3" for v by simp_all
  note H = tcp_validate_reply [OF p(1) _ _ _ _ assms _ _ _ p(2,3) ex_tcp_segment(1,2), of 40 True]
  show ?thesis using H n m by (auto simp: ex_tcp_def SIZEOF_TCPHDR_def seg_key_def)
qed

lemma tcp_accept_sound_example:
  "\<exists>own target g. segment_in ex_syn_ack target own g \<and> own_segment ex_tcp own target g \<and> tcp_flag TH_ACK g"
proof -
  obtain buf bf where "tcp_scan_validate_packet ex_tcp ex_bloom ex_syn_ack 40 True
      (tcp_scan_thread_init 0 (replicate 6 0) (replicate 6 0)) = Inr (PACKET_AGAIN, False, bf, buf)"
    using ex_tcp_accepted [OF ex_bloom_ok thread_init_ready [of 0 "replicate 6 0" "replicate 6 0"]] ex_tcp_new by auto
  from tcp_accept_sound [OF this] show ?thesis
    using tcp_num_sports_value [of ex_tcp] by (simp add: PACKET_AGAIN_def PACKET_INVALID_def ports_ok_def ex_tcp_def)
qed

section \<open>Answers of the receiver\<close>

text \<open>The key of a captured packet, if it is a segment that validation accepts or could accept.\<close>

definition tcp_key :: "tcp_conf \<Rightarrow> u8 list \<Rightarrow> nat \<Rightarrow> u8 list option" where
  "tcp_key c ip len = (case (tcp_reply c ip len, bytes_at ip 12 (tcp_ipv46_bytes c)) of
     (Inr (Some g), Inr src) \<Rightarrow> Some (seg_key src g) | _ \<Rightarrow> None)"

definition capture_tcp_key :: "recv_conf \<Rightarrow> tcp_conf \<Rightarrow> capture \<Rightarrow> u8 list option" where
  "capture_tcp_key rc c cap =
     tcp_key c (drop (data_link_size rc) (cap_bytes cap)) (cap_len cap - (if send_ip_pkts rc then 0 else ETH))"

lemma length_tcp_key: "\<lbrakk>tcp_key c ip len = Some k; tcp_ipv46_bytes c \<le> 29\<rbrakk> \<Longrightarrow> length k \<le> 32"
  by (auto simp: tcp_key_def seg_key_def bytes_at_def split: sum.splits option.splits if_splits)

lemma tcp_validate_note:
  assumes "tcp_scan_validate_packet c bf ip len True buf = Inr (r, rep, bf', buf')" "filter_ok bf" "tcp_ipv46_bytes c \<le> 29"
  shows "(bf' = bf \<and> (rep \<or> r = PACKET_INVALID))
    \<or> (\<exists>k. tcp_key c ip len = Some k \<and> \<not> bloom_seen (tcp_math c) bf k \<and> bf' = bloom_put (tcp_math c) bf k)"
proof -
  obtain x where x: "tcp_reply c ip len = Inr x" using assms(1) by (auto simp: tcp_scan_validate_packet_def)
  show ?thesis
  proof (cases x)
    case None
    then show ?thesis using assms(1) x by (simp add: tcp_scan_validate_packet_def)
  next
    case (Some g)
    then obtain src rep1 bf1 where n: "bytes_at ip 12 (tcp_ipv46_bytes c) = Inr src"
      "note_reply (tcp_math c) bf (seg_key src g) True = Inr (rep1, bf1)" "rep = rep1" "bf' = bf1"
      using assms(1) x by (auto simp: tcp_scan_validate_packet_def split: if_splits)
    have k: "tcp_key c ip len = Some (seg_key src g)" using x Some n(1) by (simp add: tcp_key_def)
    from note_reply_spec [OF assms(2) length_tcp_key [OF k assms(3)], of "tcp_math c" True] n(2)
    show ?thesis using k n(3,4) by (auto split: if_splits)
  qed
qed

text \<open>
  What is sent for a captured packet: the answer that validation writes, when it asks for one and the packet
  is no repetition.
\<close>

definition answer_to :: "recv_conf \<Rightarrow> tcp_conf \<Rightarrow> u8 list \<Rightarrow> nat \<Rightarrow> u8 list \<Rightarrow> bool" where
  "answer_to rc c ip n p \<longleftrightarrow> (\<exists>bf buf bf' buf'.
     tcp_scan_validate_packet c bf ip (n - (if send_ip_pkts rc then 0 else ETH)) True buf
       = Inr (PACKET_AGAIN, False, bf', buf') \<and> again_contents rc buf' (14 + 20 + 20) = Inr p)"

definition capture_answer :: "recv_conf \<Rightarrow> tcp_conf \<Rightarrow> capture \<Rightarrow> u8 list \<Rightarrow> bool" where
  "capture_answer rc c cap p \<longleftrightarrow> answer_to rc c (drop (data_link_size rc) (cap_bytes cap)) (cap_len cap) p"

lemma count_validation_tcp:
  assumes "count_validation rc (tcp_module c) ip n s = Inr (v, t)" "filter_ok (seen_replies s)" "tcp_ipv46_bytes c \<le> 29"
  shows "(seen_replies t = seen_replies s \<and> resent t = resent s)
    \<or> (\<exists>k. tcp_key c ip (n - (if send_ip_pkts rc then 0 else ETH)) = Some k \<and> \<not> bloom_seen (tcp_math c) (seen_replies s) k
         \<and> seen_replies t = bloom_put (tcp_math c) (seen_replies s) k
         \<and> (resent t = resent s \<or> (\<exists>p. resent t = resent s @ [p] \<and> answer_to rc c ip n p)))"
proof -
  obtain r rep bf buf where d: "tcp_scan_validate_packet c (seen_replies s) ip (n - (if send_ip_pkts rc then 0 else ETH)) True
      (send_buff s) = Inr (r, rep, bf, buf)"
    using assms(1) by (auto simp: count_validation_def tcp_module_def)
  have "seen_replies t = bf \<and> (rep \<or> r = PACKET_INVALID \<longrightarrow> resent t = resent s)
    \<and> (resent t = resent s \<or> (\<exists>p. resent t = resent s @ [p] \<and> r = PACKET_AGAIN \<and> \<not> rep
         \<and> again_contents rc buf (14 + 20 + 20) = Inr p))"
  proof -
    let ?s = "s\<lparr>seen_replies := bf, send_buff := buf\<rparr>"
    have e: "(if r = PACKET_VALID then Inr (Some rep, ?s\<lparr>validation_passed := validation_passed ?s + 1\<rparr>)
       else if r = PACKET_AGAIN then
         if rep then Inr (None, ?s)
         else bind_out (again_contents rc buf (14 + 20 + 20)) (\<lambda>p.
           Inr (Some rep, ?s\<lparr>resent := resent ?s @ [p], validation_again := validation_again ?s + 1\<rparr>))
       else Inr (None, ?s\<lparr>validation_failed := validation_failed ?s + 1\<rparr>)) = Inr (v, t)"
      using assms(1) unfolding count_validation_def tcp_module_def probe_module.select_convs d bind_out_simps prod.case Let_def .
    have diff: "PACKET_AGAIN \<noteq> PACKET_INVALID" by (simp add: PACKET_AGAIN_def PACKET_INVALID_def)
    consider "r = PACKET_VALID" | "r \<noteq> PACKET_VALID" "r = PACKET_AGAIN" "rep"
      | "r \<noteq> PACKET_VALID" "r = PACKET_AGAIN" "\<not> rep" | "r \<noteq> PACKET_VALID" "r \<noteq> PACKET_AGAIN" by blast
    then show ?thesis
    proof cases
      case 3
      then obtain p where "again_contents rc buf (14 + 20 + 20) = Inr p"
        "t = ?s\<lparr>resent := resent ?s @ [p], validation_again := validation_again ?s + 1\<rparr>" using e by auto
      then show ?thesis using 3 diff by simp
    qed (use e in auto)
  qed
  moreover have "answer_to rc c ip n p" if "r = PACKET_AGAIN" "\<not> rep" "again_contents rc buf (14 + 20 + 20) = Inr p" for p
  proof -
    have "rep = False" using that(2) by simp
    then show ?thesis unfolding answer_to_def using d [unfolded that(1)] that(3) by blast
  qed
  ultimately show ?thesis using tcp_validate_note [OF d assms(2,3)] by blast
qed

lemma handle_packet_tcp:
  assumes "handle_packet rc (tcp_module c) cap s = Inr t" "filter_ok (seen_replies s)" "tcp_ipv46_bytes c \<le> 29"
  shows "(seen_replies t = seen_replies s \<and> resent t = resent s)
    \<or> (\<exists>k. capture_tcp_key rc c cap = Some k \<and> \<not> bloom_seen (tcp_math c) (seen_replies s) k
         \<and> seen_replies t = bloom_put (tcp_math c) (seen_replies s) k
         \<and> (resent t = resent s \<or> (\<exists>p. resent t = resent s @ [p] \<and> capture_answer rc c cap p)))"
proof (cases "(if ipv6_scan rc then 40 else sizeof_ip) + data_link_size rc > cap_len cap")
  case True
  then show ?thesis using assms(1) by (simp add: handle_packet_def)
next
  case False
  let ?ip = "drop (data_link_size rc) (cap_bytes cap)"
  obtain v s1 where v: "count_validation rc (tcp_module c) ?ip (cap_len cap) s = Inr (v, s1)"
    using assms(1) False by (auto simp: handle_packet_def Let_def)
  note V = count_validation_tcp [OF v assms(2,3), folded capture_tcp_key_def capture_answer_def]
  have "seen_replies t = seen_replies s1 \<and> resent t = resent s1"
  proof (cases v)
    case None
    then show ?thesis using assms(1) False v by (simp add: handle_packet_def Let_def)
  next
    case (Some rep)
    obtain s2 fs s3 success s4 s5 where st: "count_fragment rc ?ip s1 = Inr s2"
      "packet_record rc (tcp_module c) cap rep s2 = Inr (fs, s3)"
      "count_app_success rc fs rep (count_success success rep (cap_complete cap) s3) = Inr s4"
      "output_record rc fs success rep s4 = Inr s5" "update_output rc s5 = Inr t"
      using assms(1) v False Some by (auto simp: handle_packet_def Let_def)
    obtain frag where s2: "s2 = s1\<lparr>ip_fragments := tick frag (ip_fragments s1)\<rparr>" using count_fragment_tick [OF st(1)] .
    obtain f where s3: "s3 = s2\<lparr>fake_eth_hdr := f\<rparr>" using record_keeps [OF st(2)] by blast
    obtain app where s4: "s4 = (count_success success rep (cap_complete cap) s3)\<lparr>
        app_success_total := tick app (app_success_total (count_success success rep (cap_complete cap) s3)),
        app_success_unique := tick (app \<and> \<not> rep) (app_success_unique (count_success success rep (cap_complete cap) s3))\<rparr>"
      using count_app_tick [OF st(3)] .
    obtain out p where s5: "s5 = s4\<lparr>filter_success := tick out (filter_success s4), printed := p\<rparr>"
      using output_tick [OF st(4)] .
    obtain u where "t = s5\<lparr>updates := u\<rparr>" using update_keeps [OF st(5)] .
    then show ?thesis unfolding s5 s4 s3 s2 count_success_eq by simp
  qed
  with V show ?thesis by auto
qed

text \<open>Each answer that was sent has a key of its own, which was seen.\<close>

definition answered_for :: "recv_conf \<Rightarrow> tcp_conf \<Rightarrow> capture set \<Rightarrow> u8 list list \<Rightarrow> state_recv \<Rightarrow> bool" where
  "answered_for rc c caps ks s \<longleftrightarrow> filter_ok (seen_replies s) \<and> distinct ks
     \<and> list_all2 (\<lambda>k p. \<exists>cap \<in> caps. capture_tcp_key rc c cap = Some k \<and> capture_answer rc c cap p) ks (resent s)
     \<and> (\<forall>k \<in> set ks. length k \<le> 32 \<and> bloom_seen (tcp_math c) (seen_replies s) k)"

lemma answered_for_mono: "\<lbrakk>answered_for rc c caps ks s; caps \<subseteq> caps'\<rbrakk> \<Longrightarrow> answered_for rc c caps' ks s"
  by (auto simp: answered_for_def elim!: list_all2_mono)

lemma answered_for_put:
  assumes "answered_for rc c caps ks s" "seen_replies t = bloom_put (tcp_math c) (seen_replies s) k" "resent t = resent s"
    "length k \<le> 32"
  shows "answered_for rc c caps ks t"
proof -
  have ok: "filter_ok (seen_replies s)" using assms(1) by (simp add: answered_for_def)
  show ?thesis using assms bloom.add_inv [OF ok] bloom.add_keeps [OF ok] by (simp add: answered_for_def)
qed

lemma reach_tcp:
  assumes "reach rc (tcp_module c) s0 caps out s" "answered_for rc c {} [] s0" "tcp_ipv46_bytes c \<le> 29"
  shows "\<exists>ks. answered_for rc c (set caps) ks s"
  using assms
proof (induction rule: reach.induct)
  case (packet caps out s cap t)
  obtain ks where "answered_for rc c (set caps) ks s" using packet by blast
  then have ks: "answered_for rc c (set (caps @ [cap])) ks s" by (rule answered_for_mono) auto
  have ok: "filter_ok (seen_replies s)" using ks by (simp add: answered_for_def)
  have "t = s \<or> handle_packet rc (tcp_module c) cap s = Inr t"
    using packet.hyps(2) by (auto simp: packet_cb_def split: if_splits)
  then consider "seen_replies t = seen_replies s" "resent t = resent s"
    | k where "capture_tcp_key rc c cap = Some k" "\<not> bloom_seen (tcp_math c) (seen_replies s) k"
      "seen_replies t = bloom_put (tcp_math c) (seen_replies s) k"
      "resent t = resent s \<or> (\<exists>p. resent t = resent s @ [p] \<and> capture_answer rc c cap p)"
    using handle_packet_tcp [OF _ ok packet.prems(2)] by blast
  then show ?case
  proof cases
    case 1
    then have "answered_for rc c (set (caps @ [cap])) ks t" using ks by (simp add: answered_for_def)
    then show ?thesis by blast
  next
    case (2 k)
    have l: "length k \<le> 32" using 2(1) length_tcp_key packet.prems(2) by (auto simp: capture_tcp_key_def)
    show ?thesis
    proof (cases "resent t = resent s")
      case True
      from answered_for_put [OF ks 2(3) this l] show ?thesis by blast
    next
      case False
      then obtain p where p: "resent t = resent s @ [p]" "capture_answer rc c cap p" using 2(4) by blast
      have "answered_for rc c (set (caps @ [cap])) (ks @ [k]) t"
        using ks 2(1,2) l p bloom.add_inv [OF ok] bloom.add_seen [OF ok] bloom.add_keeps [OF ok]
        by (auto simp: answered_for_def 2(3) intro!: list_all2_appendI)
      then show ?thesis by blast
    qed
  qed
qed auto

lemma recv_answers_keys:
  assumes "recv_run rc (tcp_module c) thread_init True (Inr (link, bpf)) rounds (recv_start bf) = Inr (r, t)" "\<not> dryrun rc"
    "filter_ok bf" "tcp_ipv46_bytes c \<le> 29"
  shows "\<exists>ks. distinct ks \<and> list_all2 (\<lambda>k p. \<exists>cap \<in> set (all_packets rounds).
      capture_tcp_key (loop_conf rc link) c cap = Some k \<and> capture_answer (loop_conf rc link) c cap p) ks (resent t)"
proof -
  obtain buff f caps out rest s where
    s: "reach (loop_conf rc link) (tcp_module c) ((recv_start bf)\<lparr>send_buff := buff, fake_eth_hdr := f\<rparr>) caps out s"
    "all_packets rounds = caps @ rest" "t = s \<or> t = s\<lparr>complete := True\<rparr>" "r = 0"
    using recv_run_reach [OF assms(1,2)] by metis
  have "answered_for (loop_conf rc link) c {} [] ((recv_start bf)\<lparr>send_buff := buff, fake_eth_hdr := f\<rparr>)"
    using assms(3) by (simp add: answered_for_def recv_start_def)
  from reach_tcp [OF s(1) this assms(4)] obtain ks where "answered_for (loop_conf rc link) c (set caps) ks s" by blast
  then have "answered_for (loop_conf rc link) c (set (all_packets rounds)) ks s"
    by (rule answered_for_mono) (simp add: s(2))
  moreover have "resent t = resent s" using s(3) by auto
  ultimately show ?thesis by (auto simp: answered_for_def)
qed

text \<open>
  C33: However often segments are captured, replayed or forged, each answer that the receiver
  with the TCP module sends is the answer to a captured segment, and no two of them are for the same triple of
  source, scanned port and low byte of the sequence number: the answers can be numbered with distinct
  triples, each that of a captured segment that the answer was written for. So the receiver cannot be drawn into an endless
  exchange with a host that repeats itself.
\<close>

theorem recv_answers_once:
  assumes "recv_run rc (tcp_module c) thread_init True (Inr (link, bpf)) rounds (recv_start bf) = Inr (r, t)" "\<not> dryrun rc"
    "filter_ok bf" "tcp_ipv46_bytes c \<le> 29"
  shows "\<exists>ks. distinct ks \<and> list_all2 (\<lambda>k p. \<exists>cap \<in> set (all_packets rounds).
      capture_tcp_key (loop_conf rc link) c cap = Some k \<and> capture_answer (loop_conf rc link) c cap p) ks (resent t)"
  by (rule recv_answers_keys [OF assms])

text \<open>The segment of the example arrives twice; it is recorded and answered once.\<close>

definition ex_segment :: capture where
  "ex_segment = \<lparr>cap_bytes = replicate 14 0 @ ex_syn_ack, cap_len = 54, cap_sec = 0, cap_usec = 0,
     cap_complete = False, cap_clock = ([], 0, 0)\<rparr>"

definition ex_tcp_recv :: recv_conf where
  "ex_tcp_recv = ex_recv_conf\<lparr>success_index := 10\<rparr>"

definition ex_tcp_init :: "u8 list \<Rightarrow> u8 list outcome" where
  "ex_tcp_init buf = Inr (tcp_scan_thread_init 0 (replicate 6 0) (replicate 6 0))"

lemma ex_tcp_record:
  obtains fs0 fs1 fs out where "fs_add_ip_fields fs_new_fieldset ex_syn_ack = Inr fs0"
    "tcp_scan_process_packet (replicate 14 0 @ ex_syn_ack) fs0 = Inr fs1"
    "fs_add_system_fields fs1 False False ([], 0, 0) = Inr fs" "10 < length (fs_fields fs)" "flag_at fs 10 = Inr True"
    "translate_fieldset fs [0, 4] = Inr out"
proof -
  let ?e = "bind_out (fs_add_ip_fields fs_new_fieldset ex_syn_ack) (\<lambda>fs0.
    bind_out (tcp_scan_process_packet (replicate 14 0 @ ex_syn_ack) fs0) (\<lambda>fs1.
    bind_out (fs_add_system_fields fs1 False False ([], 0, 0)) (\<lambda>fs.
    bind_out (flag_at fs 10) (\<lambda>b. bind_out (translate_fieldset fs [0, 4]) (\<lambda>out. Inr (10 < length (fs_fields fs), b))))))"
  have "?e = Inr (True, True)" by code_simp
  then show thesis using that by (auto simp: One_nat_def)
qed

lemma ex_segment_handled:
  assumes "filter_ok (seen_replies s)" "answer_ready (send_buff s)"
  shows "\<exists>t. handle_packet (loop_conf ex_tcp_recv ETH) (tcp_module ex_tcp) ex_segment s = Inr t
    \<and> filter_ok (seen_replies t) \<and> answer_ready (send_buff t) \<and> bloom_seen ex_math (seen_replies t) [10, 2, 0, 1, 0, 80, 7]
    \<and> length (resent t) = (if bloom_seen ex_math (seen_replies s) [10, 2, 0, 1, 0, 80, 7] then 0 else 1) + length (resent s)
    \<and> filter_success t = (if bloom_seen ex_math (seen_replies s) [10, 2, 0, 1, 0, 80, 7] then 0 else 1) + filter_success s"
proof -
  let ?c = "loop_conf ex_tcp_recv ETH" and ?m = "tcp_module ex_tcp" and ?k = "[10, 2, 0, 1, 0, 80, 7] :: u8 list"
  let ?rep = "bloom_seen ex_math (seen_replies s) ?k"
  let ?bf = "if ?rep then seen_replies s else bloom_put ex_math (seen_replies s) ?k"
  note C = loop_conf_def ex_tcp_recv_def ex_recv_conf_def
  obtain buf where buf: "tcp_scan_validate_packet ex_tcp (seen_replies s) ex_syn_ack 40 True (send_buff s)
      = Inr (PACKET_AGAIN, ?rep, ?bf, buf)" "answer_ready buf"
    using ex_tcp_accepted [OF assms] by blast
  have ok: "filter_ok ?bf" "bloom_seen ex_math ?bf ?k"
    using assms(1) bloom.add_inv [of "seen_replies s" ?k ex_math] bloom.add_seen [of "seen_replies s" ?k ex_math] by simp_all
  have ip: "drop (data_link_size ?c) (cap_bytes ex_segment) = ex_syn_ack" "cap_len ex_segment = 54"
    "54 - (if send_ip_pkts ?c then 0 else ETH) = 40" "cap_complete ex_segment = False"
    "\<not> (if ipv6_scan ?c then 40 else sizeof_ip) + data_link_size ?c > 54"
    by (simp_all add: C ex_segment_def ETH_def sizeof_ip_def)
  let ?s = "s\<lparr>seen_replies := ?bf, send_buff := buf\<rparr>"
  show ?thesis
  proof (cases ?rep)
    case True
    then have v: "count_validation ?c ?m ex_syn_ack 54 s = Inr (None, ?s)"
      unfolding count_validation_def ip tcp_module_def probe_module.select_convs buf(1) bind_out_simps prod.case Let_def
      by (simp add: PACKET_AGAIN_def PACKET_VALID_def)
    have "handle_packet ?c ?m ex_segment s = Inr ?s"
      unfolding handle_packet_def Let_def ip if_not_P [OF ip(5)] v bind_out_simps prod.case option.case ..
    then show ?thesis using True ok buf(2) by auto
  next
    case False
    have len: "54 \<le> length buf" using buf(2) by (simp add: answer_ready_def MAX_PACKET_SIZE_def)
    let ?t = "?s\<lparr>resent := resent s @ [take 54 buf], validation_again := validation_again s + 1\<rparr>"
    have "again_contents ?c buf 54 = Inr (take 54 buf)"
      using len by (simp add: again_contents_def C bytes_at_def Let_def)
    then have v: "count_validation ?c ?m ex_syn_ack 54 s = Inr (Some False, ?t)"
      using False unfolding count_validation_def ip tcp_module_def probe_module.select_convs buf(1) bind_out_simps prod.case Let_def
      by (simp add: PACKET_AGAIN_def PACKET_VALID_def del: bind_out_eq_Inr)
    have f: "count_fragment ?c ex_syn_ack ?t = Inr ?t"
      by (simp add: count_fragment_def C byte_at_def ex_syn_ack_def Let_def)
    obtain fs0 fs1 fs out where r: "fs_add_ip_fields fs_new_fieldset ex_syn_ack = Inr fs0"
      "tcp_scan_process_packet (replicate 14 0 @ ex_syn_ack) fs0 = Inr fs1"
      "fs_add_system_fields fs1 False False ([], 0, 0) = Inr fs" "10 < length (fs_fields fs)" "flag_at fs 10 = Inr True"
      "translate_fieldset fs [0, 4] = Inr out" by (rule ex_tcp_record)
    have p: "packet_record ?c ?m ex_segment False ?t = Inr (fs, ?t)"
      using r(1-3) ip(1) by (simp add: packet_record_def probe_frame_def C tcp_module_def ex_segment_def Let_def del: bind_out_eq_Inr)
    have ok': "record_success ?c fs = Inr True" using r(4,5) by (simp add: record_success_def C)
    define s2 where "s2 = count_success True False False ?t"
    have a: "count_app_success ?c fs False s2 = Inr s2" by (simp add: count_app_success_def C)
    let ?o = "s2\<lparr>filter_success := filter_success s2 + 1, printed := printed s2 @ [out]\<rparr>"
    have o: "output_record ?c fs True False s2 = Inr ?o" using r(6) by (simp add: output_record_def C)
    have u: "update_output ?c ?o = Inr ?o" by (simp add: update_output_def C)
    have "handle_packet ?c ?m ex_segment s = Inr ?o"
      unfolding handle_packet_def Let_def ip if_not_P [OF ip(5)] v bind_out_simps prod.case option.case f p ok' s2_def [symmetric] a o u ..
    then show ?thesis using False ok buf(2) by (auto simp: s2_def count_success_def)
  qed
qed

theorem recv_answers_once_witness:
  "\<exists>t. recv_run ex_tcp_recv (tcp_module ex_tcp) ex_tcp_init True (Inr (ETH, None)) [([ex_segment, ex_segment], True)]
       (recv_start ex_bloom) = Inr (0, t) \<and> length (resent t) = 1
    \<and> (\<exists>k p. resent t = [p] \<and> capture_tcp_key (loop_conf ex_tcp_recv ETH) ex_tcp ex_segment = Some k
         \<and> capture_answer (loop_conf ex_tcp_recv ETH) ex_tcp ex_segment p)"
proof -
  let ?c = "loop_conf ex_tcp_recv ETH" and ?m = "tcp_module ex_tcp"
  let ?b = "tcp_scan_thread_init 0 (replicate 6 0) (replicate 6 0)"
  let ?s0 = "(recv_start ex_bloom)\<lparr>send_buff := ?b\<rparr>"
  have s0: "filter_ok (seen_replies ?s0)" "answer_ready (send_buff ?s0)" "resent ?s0 = []" "filter_success ?s0 = 0"
    "seen_replies ?s0 = ex_bloom" using ex_bloom_ok thread_init_ready by (simp_all add: recv_start_def)
  obtain s1 where s1: "handle_packet ?c ?m ex_segment ?s0 = Inr s1" "filter_ok (seen_replies s1)" "answer_ready (send_buff s1)"
    "bloom_seen ex_math (seen_replies s1) [10, 2, 0, 1, 0, 80, 7]" "length (resent s1) = 1" "filter_success s1 = 1"
    using ex_segment_handled [OF s0(1,2)] s0(3-5) ex_tcp_new by auto
  obtain t where t: "handle_packet ?c ?m ex_segment s1 = Inr t" "length (resent t) = 1"
    using ex_segment_handled [OF s1(2,3)] s1(4,5) by auto
  have "max_results ?c = - 1" by (simp add: loop_conf_def ex_tcp_recv_def ex_recv_conf_def)
  moreover have "\<not> (- 1 :: u64) \<le> 0" "\<not> (- 1 :: u64) \<le> 1" by code_simp+
  ultimately have "packet_cb ?c ?m ex_segment ?s0 = Inr s1" "packet_cb ?c ?m ex_segment s1 = Inr t"
    using s0(4) s1(1,6) t(1) unfolding packet_cb_def by simp_all
  then have "recv_packets ?c ?m [ex_segment, ex_segment] ?s0 = Inr t" by simp
  moreover have "\<not> dryrun ?c" "\<not> send_ip_pkts ex_tcp_recv" by (simp_all add: loop_conf_def ex_tcp_recv_def ex_recv_conf_def)
  ultimately have "recv_loop ?c ?m [([ex_segment, ex_segment], True)] ?s0 = Inr (True, t)" "\<not> send_ip_pkts ex_tcp_recv"
    by (simp_all del: recv_packets.simps)
  then have r: "recv_run ex_tcp_recv ?m ex_tcp_init True (Inr (ETH, None)) [([ex_segment, ex_segment], True)] (recv_start ex_bloom)
      = Inr (0, t\<lparr>complete := True\<rparr>)"
    unfolding recv_run_def ex_tcp_init_def bind_out_simps prod.case Let_def loop_conf_def [symmetric]
    by (simp del: recv_loop.simps bind_out_eq_Inr)
  have "\<exists>ks. distinct ks \<and> list_all2 (\<lambda>k p. \<exists>cap \<in> set (all_packets [([ex_segment, ex_segment], True)]).
      capture_tcp_key ?c ex_tcp cap = Some k \<and> capture_answer ?c ex_tcp cap p) ks (resent (t\<lparr>complete := True\<rparr>))"
    by (rule recv_answers_once [OF r _ ex_bloom_ok]) (simp_all add: ex_tcp_recv_def ex_recv_conf_def ex_tcp_def)
  then obtain ks where ks: "list_all2 (\<lambda>k p. capture_tcp_key ?c ex_tcp ex_segment = Some k \<and> capture_answer ?c ex_tcp ex_segment p)
      ks (resent t)" by (auto simp: all_packets_def)
  obtain p where "resent t = [p]" using t(2) by (auto simp: length_Suc_conv)
  moreover from this obtain k where "ks = [k]" using ks by (auto simp: list_all2_Cons2)
  ultimately show ?thesis using r ks t(2) by (intro exI [of _ "t\<lparr>complete := True\<rparr>"]) simp
qed

section \<open>Deviations\<close>

text \<open>
  A segment with the flag RST alone that fits a probe is entered into the filter and then rejected, so
  what follows with the same key is taken for a repetition.
\<close>

lemma tcp_reset_noted:
  assumes "tcp_reply c ip len = Inr (Some g)" "seg_flags g = TH_RST" "bytes_at ip 12 (tcp_ipv46_bytes c) = Inr src"
    "filter_ok bf" "tcp_ipv46_bytes c \<le> 29" "\<not> bloom_seen (tcp_math c) bf (seg_key src g)"
  shows "tcp_scan_validate_packet c bf ip len rep buf = Inr (PACKET_INVALID, False, bloom_put (tcp_math c) bf (seg_key src g), buf)"
proof -
  have "\<not> tcp_flag TH_ACK g" using assms(2) by (simp add: tcp_flag_def TH_RST_def TH_ACK_def)
  moreover have "tcp_key c ip len = Some (seg_key src g)" using assms(1,3) by (simp add: tcp_key_def)
  note note_reply_spec [OF assms(4) length_tcp_key [OF this assms(5)], of "tcp_math c" rep]
  ultimately show ?thesis using assms(1,3,6) by (simp add: tcp_scan_validate_packet_def del: bind_out_eq_Inr)
qed

text \<open>An acknowledgement of two numbers too many is accepted.\<close>

lemma ack_range: "ack_fits 5 \<lparr>seg_dport = d, seg_sport = p, seg_seq = q, seg_ack = 8, seg_flags = TH_SYN OR TH_ACK\<rparr>"
  by (simp add: ack_fits_def tcp_flag_def TH_SYN_def TH_ACK_def TH_RST_def)

end
