(* ===== verification/Udp_Template.thy ===== *)
theory Udp_Template
  imports Dns_Probe Hex_Text
begin

text \<open>
  The payload templates of \<open>src/probe_modules/module_udp.c\<close>: a file with fields like \<open>${SADDR}\<close> or
  \<open>${RAND_DIGIT=9}\<close> is loaded into a list of fields, from which the payload of every probe is built.
  The file and the payload are bytes; a position in the file is a number.
\<close>

section \<open>Fields\<close>

datatype udp_payload_field_type =
  UDP_DATA | UDP_SADDR_N | UDP_SADDR_A | UDP_DADDR_N | UDP_DADDR_A | UDP_SPORT_N | UDP_SPORT_A
  | UDP_DPORT_N | UDP_DPORT_A | UDP_RAND_BYTE | UDP_RAND_DIGIT | UDP_RAND_ALPHA | UDP_RAND_ALPHANUM

record udp_payload_field =
  ftype :: udp_payload_field_type
  flength :: u32
  fdata :: "u8 list option"

definition udp_payload_template_fields :: "(string \<times> udp_payload_field_type) list" where
  "udp_payload_template_fields =
     [(''SADDR_N'', UDP_SADDR_N), (''SADDR'', UDP_SADDR_A), (''DADDR_N'', UDP_DADDR_N), (''DADDR'', UDP_DADDR_A),
      (''SPORT_N'', UDP_SPORT_N), (''SPORT'', UDP_SPORT_A), (''DPORT_N'', UDP_DPORT_N), (''DPORT'', UDP_DPORT_A),
      (''RAND_BYTE'', UDP_RAND_BYTE), (''RAND_DIGIT'', UDP_RAND_DIGIT), (''RAND_ALPHA'', UDP_RAND_ALPHA),
      (''RAND_ALPHANUM'', UDP_RAND_ALPHANUM)]"

definition charset_digit :: string where "charset_digit = ''0123456789''"
definition charset_alpha :: string where
  "charset_alpha = ''abcdefghijklmnopqrstuvwxyzABCDEFGHIJKLMNOPQRSTUVWXYZ''"
definition charset_alphanum :: string where
  "charset_alphanum = ''abcdefghijklmnopqrstuvwxyzABCDEFGHIJKLMNOPQRSTUVWXYZ0123456789''"
definition charset_all :: "u8 list" where
  "charset_all = map of_nat [1 ..< 256] @ [0]"

section \<open>Loading a template\<close>

definition udp_template_add_field ::
    "udp_payload_field list \<Rightarrow> udp_payload_field_type \<Rightarrow> u32 \<Rightarrow> u8 list option \<Rightarrow> udp_payload_field list" where
  "udp_template_add_field t ty len data = t @ [\<lparr>ftype = ty, flength = len, fdata = data\<rparr>]"

fun find_field_type :: "string \<Rightarrow> (string \<times> udp_payload_field_type) list \<Rightarrow> udp_payload_field_type option" where
  "find_field_type vname [] = None"
| "find_field_type vname ((name, ty) # fs) = (if vname = name then Some ty else find_field_type vname fs)"

text \<open>\<open>NAME\<close> or \<open>NAME=length\<close>; \<open>atoi\<close> is \<open>strtol\<close> cut to an \<open>int\<close>.\<close>

definition udp_template_lookup_field :: "string \<Rightarrow> udp_payload_field option" where
  "udp_template_lookup_field vname =
     (let param = strchr (CHR ''='') vname;
          name = (case param of None \<Rightarrow> vname | Some i \<Rightarrow> take i vname);
          olen = (case param of None \<Rightarrow> 0 | Some i \<Rightarrow> word_of_int (to_int32 (fst (strtol10 (drop (i + 1) vname)))))
      in case find_field_type name udp_payload_template_fields of
           None \<Rightarrow> None
         | Some ty \<Rightarrow> Some \<lparr>ftype = ty, flength = olen, fdata = None\<rparr>)"

definition bytes_between :: "u8 list \<Rightarrow> nat \<Rightarrow> nat \<Rightarrow> u8 list" where
  "bytes_between buf a b = take (b - a) (drop a buf)"

definition add_data :: "u8 list \<Rightarrow> nat \<Rightarrow> nat \<Rightarrow> udp_payload_field list \<Rightarrow> udp_payload_field list" where
  "add_data buf a b t =
     (if a < b then udp_template_add_field t UDP_DATA (of_nat (b - a)) (Some (bytes_between buf a b)) else t)"

text \<open>
  The loop over the file: \<open>p\<close> is the position, \<open>s\<close> the start of the bytes that are not in a field yet,
  \<open>dollar\<close> and \<open>lbrack\<close> the last \<open>$\<close> and \<open>{\<close>. The text of a variable ends at a zero byte.
\<close>

function load_loop ::
    "u8 list \<Rightarrow> nat \<Rightarrow> nat \<Rightarrow> nat option \<Rightarrow> nat option \<Rightarrow> udp_payload_field list \<Rightarrow> udp_payload_field list" where
  "load_loop buf p s dollar lbrack t =
     (if p < length buf then
        if buf ! p = 36 then
          load_loop buf (p + 1) s (if (dollar \<noteq> None \<and> lbrack = None) \<or> dollar = None then Some p else dollar) lbrack t
        else if buf ! p = 123 then
          load_loop buf (p + 1) s dollar (if dollar \<noteq> None \<and> lbrack = None then Some p else lbrack) t
        else if buf ! p = 125 then
          (case (dollar, lbrack) of
             (Some d, Some l) \<Rightarrow>
               (let t = add_data buf s d t;
                    tmp = chars (takeWhile (\<lambda>b. b \<noteq> 0) (bytes_between buf (l + 1) p))
                in case udp_template_lookup_field tmp of
                     Some c \<Rightarrow> load_loop buf (p + 1) (p + 1) None None (udp_template_add_field t (ftype c) (flength c) (fdata c))
                   | None \<Rightarrow> load_loop buf (p + 1) d None None t)
           | _ \<Rightarrow> load_loop buf (p + 1) s dollar lbrack t)
        else if dollar \<noteq> None \<and> lbrack \<noteq> None then load_loop buf (p + 1) s dollar lbrack t
        else load_loop buf (p + 1) s None None t
      else add_data buf s p t)"
  by pat_completeness auto
termination by (relation "measure (\<lambda>(buf, p, s, d, l, t). length buf - p)") auto

declare load_loop.simps [simp del]

definition udp_template_load :: "u8 list \<Rightarrow> udp_payload_field list" where
  "udp_template_load buf = load_loop buf 0 0 None None []"

section \<open>Building a payload\<close>

text \<open>What the fields read of the headers of the probe, as they are in memory.\<close>

record probe_ctx =
  ctx_src :: "u8 list"
  ctx_dst :: "u8 list"
  ctx_sport :: u16

text \<open>Random bytes; an index beyond the characters cannot happen.\<close>

fun udp_random_bytes :: "nat \<Rightarrow> u8 list \<Rightarrow> nat \<Rightarrow> aesrand \<Rightarrow> (u8 list \<times> aesrand) outcome" where
  "udp_random_bytes 0 charset charset_len aes = Inr ([], aes)"
| "udp_random_bytes (Suc len) charset charset_len aes =
     bind_out (aesrand_getword aes) (\<lambda>(w, aes).
     bind_out (byte_at charset (unat (w AND 0xFFFFFFFF) mod charset_len)) (\<lambda>b.
     bind_out (udp_random_bytes len charset charset_len aes) (\<lambda>(bs, aes). Inr (b # bs, aes))))"

text \<open>The charset of a type of random field and how much of it is used.\<close>

definition charset_of :: "udp_payload_field_type \<Rightarrow> (u8 list \<times> nat) option" where
  "charset_of ty = (case ty of
     UDP_RAND_DIGIT \<Rightarrow> Some (bytes_of charset_digit, 10)
   | UDP_RAND_ALPHA \<Rightarrow> Some (bytes_of charset_alpha, 52)
   | UDP_RAND_ALPHANUM \<Rightarrow> Some (bytes_of charset_alphanum, 62)
   | UDP_RAND_BYTE \<Rightarrow> Some (charset_all, 256)
   | _ \<Rightarrow> None)"

text \<open>
  The fields with a size of their own: the room that is asked for and the bytes. Both forms of the
  destination port write the source port.
\<close>

definition header_bytes :: "probe_ctx \<Rightarrow> udp_payload_field_type \<Rightarrow> (nat \<times> u8 list) option" where
  "header_bytes ctx ty = (case ty of
     UDP_SADDR_A \<Rightarrow> Some (15, bytes_of (inet_ntoa (ctx_src ctx)))
   | UDP_DADDR_A \<Rightarrow> Some (15, bytes_of (inet_ntoa (ctx_dst ctx)))
   | UDP_SADDR_N \<Rightarrow> Some (4, ctx_src ctx)
   | UDP_DADDR_N \<Rightarrow> Some (4, ctx_dst ctx)
   | UDP_SPORT_N \<Rightarrow> Some (2, htons_bytes (ctx_sport ctx))
   | UDP_DPORT_N \<Rightarrow> Some (2, htons_bytes (ctx_sport ctx))
   | UDP_SPORT_A \<Rightarrow> Some (5, bytes_of (show_dec (unat (ctx_sport ctx))))
   | UDP_DPORT_A \<Rightarrow> Some (5, bytes_of (show_dec (unat (ctx_sport ctx))))
   | _ \<Rightarrow> None)"

text \<open>
  One field after the bytes \<open>out\<close> that are written, in a buffer of \<open>len\<close> bytes; \<open>None\<close> is the end with a
  full buffer.
\<close>

definition build_field ::
    "probe_ctx \<Rightarrow> nat \<Rightarrow> udp_payload_field \<Rightarrow> u8 list \<Rightarrow> aesrand \<Rightarrow> (u8 list option \<times> aesrand) outcome" where
  "build_field ctx len c out aes =
     (if length out + unat (flength c) \<ge> len then Inr (None, aes)
      else case charset_of (ftype c) of
        Some (charset, n) \<Rightarrow>
          bind_out (udp_random_bytes (unat (flength c)) charset n aes) (\<lambda>(bs, aes). Inr (Some (out @ bs), aes))
      | None \<Rightarrow>
          (case header_bytes ctx (ftype c) of
             Some (room, bs) \<Rightarrow>
               if length out + room \<ge> len then Inr (None, aes) else Inr (Some (out @ bs), aes)
           | None \<Rightarrow>
               (case fdata c of
                  None \<Rightarrow> Inr (Some out, aes)
                | Some data \<Rightarrow>
                    if flength c = 0 then Inr (Some out, aes)
                    else bind_out (bytes_at data 0 (unat (flength c))) (\<lambda>bs. Inr (Some (out @ bs), aes)))))"

fun build_fields ::
    "probe_ctx \<Rightarrow> nat \<Rightarrow> udp_payload_field list \<Rightarrow> u8 list \<Rightarrow> aesrand \<Rightarrow> (u8 list option \<times> aesrand) outcome" where
  "build_fields ctx len [] out aes = Inr (Some out, aes)"
| "build_fields ctx len (c # t) out aes =
     bind_out (build_field ctx len c out aes) (\<lambda>(r, aes). case r of
         None \<Rightarrow> Inr (None, aes)
       | Some out \<Rightarrow> build_fields ctx len t out aes)"

text \<open>The length and the bytes of the payload; the length is 0 when it does not fit.\<close>

definition udp_template_build ::
    "udp_payload_field list \<Rightarrow> nat \<Rightarrow> probe_ctx \<Rightarrow> aesrand \<Rightarrow> (nat \<times> u8 list \<times> aesrand) outcome" where
  "udp_template_build t len ctx aes =
     bind_out (build_fields ctx len t [] aes) (\<lambda>(r, aes). case r of
         None \<Rightarrow> Inr (0, [], aes)
       | Some out \<Rightarrow> Inr (length out, out, aes))"

section \<open>What is built\<close>

definition field_ok :: "udp_payload_field \<Rightarrow> bool" where
  "field_ok c \<longleftrightarrow> (ftype c = UDP_DATA \<longrightarrow> (\<exists>d. fdata c = Some d \<and> length d = unat (flength c)))"

text \<open>A value of a field: the data, a text of the headers, or any bytes of the charset.\<close>

definition field_value :: "probe_ctx \<Rightarrow> udp_payload_field \<Rightarrow> u8 list \<Rightarrow> bool" where
  "field_value ctx c v \<longleftrightarrow> (case charset_of (ftype c) of
     Some (charset, n) \<Rightarrow> length v = unat (flength c) \<and> set v \<subseteq> set (take n charset)
   | None \<Rightarrow> (case header_bytes ctx (ftype c) of Some (room, bs) \<Rightarrow> v = bs | None \<Rightarrow> Some v = fdata c))"

text \<open>The room that is asked for before a field is written.\<close>

definition field_room :: "probe_ctx \<Rightarrow> udp_payload_field \<Rightarrow> nat" where
  "field_room ctx c = max (unat (flength c)) (case header_bytes ctx (ftype c) of Some (room, bs) \<Rightarrow> room | None \<Rightarrow> 0)"

lemma aesrand_getword_ok: "aes_ok aes \<Longrightarrow> \<exists>w aes'. aesrand_getword aes = Inr (w, aes') \<and> aes_ok aes'"
  using aesrand_next_ok [of aes] by (auto simp: aesrand_getword_def)

lemma random_bytes_spec:
  "\<lbrakk>aes_ok aes; 0 < n; n \<le> length cs\<rbrakk> \<Longrightarrow>
   \<exists>bs aes'. udp_random_bytes k cs n aes = Inr (bs, aes') \<and> aes_ok aes' \<and> length bs = k \<and> set bs \<subseteq> set (take n cs)"
proof (induction k arbitrary: aes)
  case (Suc k)
  obtain w a1 where w: "aesrand_getword aes = Inr (w, a1)" "aes_ok a1"
    using aesrand_getword_ok [OF Suc.prems(1)] by blast
  let ?i = "unat (w AND 0xFFFFFFFF) mod n"
  have i: "?i < n" using Suc.prems(2) by simp
  have b: "byte_at cs ?i = Inr (cs ! ?i)" "cs ! ?i \<in> set (take n cs)"
    using i Suc.prems(3) by (auto simp: byte_at_def in_set_conv_nth intro!: exI [of _ ?i])
  obtain bs a2 where "udp_random_bytes k cs n a1 = Inr (bs, a2)" "aes_ok a2" "length bs = k" "set bs \<subseteq> set (take n cs)"
    using Suc.IH [OF w(2)] Suc.prems(2,3) by blast
  then show ?case using w(1) b by simp
qed simp

lemma charset_sizes: "charset_of ty = Some (cs, n) \<Longrightarrow> 0 < n \<and> n = length cs"
proof -
  have "length (bytes_of charset_digit) = 10" "length (bytes_of charset_alpha) = 52"
    "length (bytes_of charset_alphanum) = 62" "length charset_all = 256"
    by (simp_all add: bytes_of_def charset_digit_def charset_alpha_def charset_alphanum_def charset_all_def)
  then show "charset_of ty = Some (cs, n) \<Longrightarrow> 0 < n \<and> n = length cs"
    by (auto simp: charset_of_def split: udp_payload_field_type.splits)
qed

lemma show_dec_length_le: "n < 10 ^ k \<Longrightarrow> 0 < k \<Longrightarrow> length (show_dec n) \<le> k"
proof (induction k arbitrary: n)
  case (Suc k)
  show ?case
  proof (cases "n < 10")
    case False
    have "n < 10 ^ k * 10" using Suc.prems(1) by (simp add: mult.commute)
    then have "n div 10 < 10 ^ k" by (rule less_mult_imp_div_less)
    moreover have "0 < k" using False Suc.prems(1) by (cases k) simp_all
    ultimately show ?thesis using Suc.IH [of "n div 10"] False by (simp add: show_dec.simps [of n])
  qed (simp add: show_dec.simps [of n])
qed simp

lemma header_bytes_room:
  assumes "header_bytes ctx ty = Some (room, bs)" "length (ctx_src ctx) = 4" "length (ctx_dst ctx) = 4"
  shows "length bs \<le> room"
proof -
  have b: "length (show_dec (unat (b :: u8))) \<le> 3" for b
    using unat_u8_less [of b] by (intro show_dec_length_le) simp_all
  have "length (inet_ntoa a) \<le> 15" for a
    using b [of "a ! 0"] b [of "a ! 1"] b [of "a ! 2"] b [of "a ! 3"] by (simp add: inet_ntoa_def)
  moreover have "length (show_dec (unat (p :: u16))) \<le> 5" for p
    using unsigned_less [of p, where ?'a = nat] by (intro show_dec_length_le) simp_all
  ultimately show ?thesis using assms
    by (auto simp: header_bytes_def bytes_of_def htons_bytes_def split: udp_payload_field_type.splits)
qed

lemma data_type: "charset_of ty = None \<Longrightarrow> header_bytes ctx ty = None \<longleftrightarrow> ty = UDP_DATA"
  by (cases ty) (simp_all add: charset_of_def header_bytes_def)

text \<open>One field: it is full only if the room is missing, and the value never goes past the buffer.\<close>

lemma build_field_spec:
  assumes "aes_ok aes" "field_ok c" "length (ctx_src ctx) = 4" "length (ctx_dst ctx) = 4" "length out < len"
  shows "\<exists>r aes'. build_field ctx len c out aes = Inr (r, aes') \<and> aes_ok aes'
    \<and> (r = None \<longleftrightarrow> len \<le> length out + field_room ctx c)
    \<and> (\<forall>out'. r = Some out' \<longrightarrow> (\<exists>v. out' = out @ v \<and> field_value ctx c v \<and> length v \<le> field_room ctx c
          \<and> length out' < len))"
proof (cases "length out + unat (flength c) \<ge> len")
  case True
  then show ?thesis using assms(1) by (auto simp: build_field_def field_room_def)
next
  case fits: False
  show ?thesis
  proof (cases "charset_of (ftype c)")
    case (Some x)
    then obtain cs n where cs: "charset_of (ftype c) = Some (cs, n)" by (cases x) simp
    from charset_sizes [OF this] obtain bs aes' where r: "udp_random_bytes (unat (flength c)) cs n aes = Inr (bs, aes')"
      "aes_ok aes'" "length bs = unat (flength c)" "set bs \<subseteq> set (take n cs)"
      using random_bytes_spec [OF assms(1), of n cs "unat (flength c)"] by auto
    have h: "header_bytes ctx (ftype c) = None"
      using cs by (cases "ftype c") (simp_all add: charset_of_def header_bytes_def)
    have "build_field ctx len c out aes = Inr (Some (out @ bs), aes')"
      using fits cs r(1) by (simp add: build_field_def)
    then show ?thesis using fits r h cs by (simp add: field_room_def field_value_def)
  next
    case None
    show ?thesis
    proof (cases "header_bytes ctx (ftype c)")
      case (Some x)
      then obtain room bs where h: "header_bytes ctx (ftype c) = Some (room, bs)" by (cases x) simp
      have "length bs \<le> room" by (rule header_bytes_room [OF h assms(3,4)])
      moreover have "field_room ctx c = max (unat (flength c)) room" using h by (simp add: field_room_def)
      moreover have "field_value ctx c bs" using None h by (simp add: field_value_def)
      ultimately show ?thesis
        using fits None h assms(1) by (cases "len \<le> length out + room") (simp_all add: build_field_def, linarith)
    next
      case h: None
      then have "ftype c = UDP_DATA" using data_type None by blast
      then obtain d where d: "fdata c = Some d" "length d = unat (flength c)" using assms(2) by (auto simp: field_ok_def)
      have "build_field ctx len c out aes = Inr (Some (out @ d), aes)"
      proof (cases "flength c = 0")
        case True
        then have "d = []" using d(2) by simp
        then show ?thesis using fits None h d True by (simp add: build_field_def)
      next
        case False
        then show ?thesis using fits None h d by (simp add: build_field_def bytes_at_def)
      qed
      moreover have "field_value ctx c d" "field_room ctx c = unat (flength c)"
        using None h d(1) by (simp_all add: field_value_def field_room_def)
      ultimately show ?thesis using fits d(2) assms(1) by auto
    qed
  qed
qed

lemma build_fields_spec:
  "\<lbrakk>aes_ok aes; \<forall>c \<in> set t. field_ok c; length (ctx_src ctx) = 4; length (ctx_dst ctx) = 4; length out < len\<rbrakk> \<Longrightarrow>
   \<exists>r aes'. build_fields ctx len t out aes = Inr (r, aes') \<and> aes_ok aes'
     \<and> (length out + (\<Sum>c\<leftarrow>t. field_room ctx c) < len \<longrightarrow> r \<noteq> None)
     \<and> (\<forall>out'. r = Some out' \<longrightarrow> (\<exists>vs. out' = out @ concat vs \<and> list_all2 (field_value ctx) t vs \<and> length out' < len))"
proof (induction t arbitrary: out aes)
  case (Cons c t)
  have "field_ok c" using Cons.prems(2) by simp
  from build_field_spec [OF Cons.prems(1) this Cons.prems(3,4,5)] obtain r a1 where
    r: "build_field ctx len c out aes = Inr (r, a1)" "aes_ok a1"
      "r = None \<longleftrightarrow> len \<le> length out + field_room ctx c"
      "\<And>out'. r = Some out' \<Longrightarrow> \<exists>v. out' = out @ v \<and> field_value ctx c v \<and> length v \<le> field_room ctx c \<and> length out' < len"
    by blast
  show ?case
  proof (cases r)
    case None
    then show ?thesis using r by auto
  next
    case (Some o1)
    then obtain v where v: "o1 = out @ v" "field_value ctx c v" "length v \<le> field_room ctx c" "length o1 < len"
      using r(4) by blast
    from Cons.IH [OF r(2) _ Cons.prems(3,4) v(4)] Cons.prems(2) obtain r' a2 where
      r': "build_fields ctx len t o1 a1 = Inr (r', a2)" "aes_ok a2"
        "length o1 + (\<Sum>c\<leftarrow>t. field_room ctx c) < len \<longrightarrow> r' \<noteq> None"
        "\<And>out'. r' = Some out' \<Longrightarrow> \<exists>vs. out' = o1 @ concat vs \<and> list_all2 (field_value ctx) t vs \<and> length out' < len"
      by auto
    have b: "build_fields ctx len (c # t) out aes = Inr (r', a2)" using r(1) r'(1) Some by simp
    have n: "length out + (\<Sum>c\<leftarrow>c # t. field_room ctx c) < len \<longrightarrow> r' \<noteq> None"
      using r'(3) v(1,3) by auto
    have "\<exists>vs. out' = out @ concat vs \<and> list_all2 (field_value ctx) (c # t) vs \<and> length out' < len" if "r' = Some out'" for out'
    proof -
      from r'(4) [OF that] obtain vs where "out' = o1 @ concat vs" "list_all2 (field_value ctx) t vs" "length out' < len" by blast
      then show ?thesis using v by (intro exI [of _ "v # vs"]) simp
    qed
    then show ?thesis using b n r'(2) by blast
  qed
qed auto

text \<open>
  Building a payload never fails and never writes past the buffer: the result is
  one value for each field, in their order and shorter than the buffer, or nothing; and it is not
  nothing when the room that the fields ask for is less than the buffer.
\<close>

lemma template_build_fits:
  assumes "aes_ok aes" "\<forall>c \<in> set t. field_ok c" "length (ctx_src ctx) = 4" "length (ctx_dst ctx) = 4" "0 < len"
  shows "\<exists>n out aes'. udp_template_build t len ctx aes = Inr (n, out, aes') \<and> n = length out \<and> n < len
    \<and> (out = [] \<or> (\<exists>vs. out = concat vs \<and> list_all2 (field_value ctx) t vs))
    \<and> ((\<Sum>c\<leftarrow>t. field_room ctx c) < len \<longrightarrow> (\<exists>vs. out = concat vs \<and> list_all2 (field_value ctx) t vs))"
proof -
  have l: "length [] < len" using assms(5) by simp
  from build_fields_spec [OF assms(1-4) l] obtain r aes' where
    r: "build_fields ctx len t [] aes = Inr (r, aes')" "(\<Sum>c\<leftarrow>t. field_room ctx c) < len \<longrightarrow> r \<noteq> None"
      "\<And>out. r = Some out \<Longrightarrow> \<exists>vs. out = concat vs \<and> list_all2 (field_value ctx) t vs \<and> length out < len"
    by auto
  show ?thesis
  proof (cases r)
    case None
    then show ?thesis using r assms(5) by (simp add: udp_template_build_def)
  next
    case (Some out)
    then show ?thesis using r by (auto simp: udp_template_build_def)
  qed
qed

section \<open>What is loaded\<close>

text \<open>The text of a variable without its brackets, and the source of a field.\<close>

definition type_name :: "udp_payload_field_type \<Rightarrow> string" where
  "type_name ty = (case find (\<lambda>(n, t). t = ty) udp_payload_template_fields of None \<Rightarrow> [] | Some (n, t) \<Rightarrow> n)"

definition variable_text :: "udp_payload_field \<Rightarrow> string" where
  "variable_text c = type_name (ftype c) @ (if flength c = 0 then [] else CHR ''='' # show_dec (unat (flength c)))"

definition field_source :: "udp_payload_field \<Rightarrow> u8 list" where
  "field_source c =
     (if ftype c = UDP_DATA then (case fdata c of Some d \<Rightarrow> d | None \<Rightarrow> [])
      else bytes_of (''${'' @ variable_text c @ ''}''))"

definition plain_field :: "udp_payload_field \<Rightarrow> bool" where
  "plain_field c \<longleftrightarrow>
     (if ftype c = UDP_DATA
      then \<exists>d. fdata c = Some d \<and> d \<noteq> [] \<and> 36 \<notin> set d \<and> length d < 2 ^ 32 \<and> flength c = of_nat (length d)
      else fdata c = None \<and> unat (flength c) < 2 ^ 31)"

text \<open>No two pieces of data next to each other.\<close>

fun separated :: "udp_payload_field list \<Rightarrow> bool" where
  "separated (c # d # t) \<longleftrightarrow> \<not> (ftype c = UDP_DATA \<and> ftype d = UDP_DATA) \<and> separated (d # t)"
| "separated _ \<longleftrightarrow> True"

lemma skip_text:
  "\<lbrakk>p \<le> q; q \<le> length buf; \<forall>i. p \<le> i \<and> i < q \<longrightarrow> buf ! i \<noteq> 36\<rbrakk> \<Longrightarrow>
   load_loop buf p s None None t = load_loop buf q s None None t"
proof (induction "q - p" arbitrary: p)
  case (Suc n)
  have "buf ! p \<noteq> 36" "p < length buf" using Suc.hyps(2) Suc.prems by simp_all
  then have "load_loop buf p s None None t = load_loop buf (p + 1) s None None t"
    by (subst load_loop.simps) simp
  then show ?case using Suc.hyps(1) [of "p + 1"] Suc.hyps(2) Suc.prems by simp
qed simp

lemma skip_variable:
  "\<lbrakk>p \<le> q; q \<le> length buf; \<forall>i. p \<le> i \<and> i < q \<longrightarrow> buf ! i \<noteq> 125\<rbrakk> \<Longrightarrow>
   load_loop buf p s (Some d) (Some l) t = load_loop buf q s (Some d) (Some l) t"
proof (induction "q - p" arbitrary: p)
  case (Suc n)
  have "buf ! p \<noteq> 125" "p < length buf" using Suc.hyps(2) Suc.prems by simp_all
  then have "load_loop buf p s (Some d) (Some l) t = load_loop buf (p + 1) s (Some d) (Some l) t"
    by (subst load_loop.simps) simp
  then show ?case using Suc.hyps(1) [of "p + 1"] Suc.hyps(2) Suc.prems by simp
qed simp

text \<open>A variable: its fields are added and the loop goes on behind the bracket.\<close>

lemma load_variable:
  assumes "buf = pre @ [36, 123] @ txt @ [125] @ rest" "125 \<notin> set txt" "0 \<notin> set txt"
    "udp_template_lookup_field (chars txt) = Some c"
  shows "load_loop buf (length pre) s None None t
    = load_loop buf (length pre + length txt + 3) (length pre + length txt + 3) None None
        (add_data buf s (length pre) t @ [c])"
proof -
  let ?p = "length pre"
  define q where "q = ?p + 2 + length txt"
  have at: "buf ! ?p = 36" "buf ! (?p + 1) = 123" "buf ! q = 125" "q < length buf"
    "?p < length buf" "?p + 1 < length buf"
    using assms(1) by (simp_all add: nth_append q_def)
  have in_txt: "\<forall>i. ?p + 2 \<le> i \<and> i < q \<longrightarrow> buf ! i \<noteq> 125"
  proof (intro allI impI)
    fix i assume i: "?p + 2 \<le> i \<and> i < q"
    then obtain j where j: "i = ?p + 2 + j" "j < length txt" by (metis add_less_cancel_left le_Suc_ex q_def)
    then have "buf ! i = txt ! j" using assms(1) by (simp add: nth_append)
    with j(2) show "buf ! i \<noteq> 125" using assms(2) nth_mem by metis
  qed
  have sl: "bytes_between buf (?p + 1 + 1) q = txt" using assms(1) by (simp add: bytes_between_def q_def)
  have tw: "takeWhile (\<lambda>b. b \<noteq> 0) txt = txt" using assms(3) by (auto simp: takeWhile_eq_all_conv)
  have "load_loop buf ?p s None None t = load_loop buf (?p + 1) s (Some ?p) None t"
    using at by (subst load_loop.simps) simp
  also have "\<dots> = load_loop buf (?p + 2) s (Some ?p) (Some (?p + 1)) t"
    using at by (subst load_loop.simps) simp
  also have "\<dots> = load_loop buf q s (Some ?p) (Some (?p + 1)) t"
    using at(4) by (intro skip_variable [OF _ _ in_txt]) (simp_all add: q_def)
  also have "\<dots> = load_loop buf (q + 1) (q + 1) None None
      (udp_template_add_field (add_data buf s ?p t) (ftype c) (flength c) (fdata c))"
    using at(3,4) assms(4) by (subst load_loop.simps) (simp add: sl [simplified] tw Let_def)
  finally show ?thesis by (cases c) (simp add: udp_template_add_field_def q_def numeral_eq_Suc)
qed

lemma type_names:
  "ty \<noteq> UDP_DATA \<Longrightarrow> find_field_type (type_name ty) udp_payload_template_fields = Some ty
     \<and> strchr (CHR ''='') (type_name ty @ CHR ''='' # s) = Some (length (type_name ty))
     \<and> strchr (CHR ''='') (type_name ty) = None
     \<and> CHR ''}'' \<notin> set (type_name ty) \<and> nul \<notin> set (type_name ty)"
  by (cases ty) (simp_all add: type_name_def udp_payload_template_fields_def nul_def char_of_def)

lemma show_dec_chars:
  assumes "c \<in> set (show_dec n)"
  shows "c \<noteq> CHR ''}''" "c \<noteq> nul"
proof -
  have "c_isdigit c" using show_dec_digits [of n] assms by (auto simp: list_all_iff)
  moreover have "\<not> c_isdigit (CHR ''}'')" "\<not> c_isdigit nul" by code_simp+
  ultimately show "c \<noteq> CHR ''}''" "c \<noteq> nul" by auto
qed

lemma lookup_variable:
  assumes "plain_field c" "ftype c \<noteq> UDP_DATA"
  shows "udp_template_lookup_field (variable_text c) = Some c"
proof -
  have ty: "find_field_type (type_name (ftype c)) udp_payload_template_fields = Some (ftype c)"
    "strchr (CHR ''='') (type_name (ftype c) @ CHR ''='' # s) = Some (length (type_name (ftype c)))"
    "strchr (CHR ''='') (type_name (ftype c)) = None" for s
    using type_names [OF assms(2)] by blast+
  have c: "fdata c = None" "unat (flength c) < 2 ^ 31" using assms by (simp_all add: plain_field_def)
  show ?thesis
  proof (cases "flength c = 0")
    case True
    then show ?thesis using ty c(1) by (simp add: udp_template_lookup_field_def variable_text_def)
  next
    case False
    have "strtol10 (show_dec (unat (flength c))) = (int (unat (flength c)), False, False, [])"
      using c(2) by (intro strtol10_show_dec) (simp add: long_max_def del: of_nat_unat)
    moreover have "to_int32 (int (unat (flength c))) = int (unat (flength c))"
      using c(2) by (intro to_int32_id) (simp_all del: of_nat_unat)
    moreover have "word_of_int (int (unat (flength c))) = flength c" by simp
    ultimately show ?thesis using False ty c(1)
      by (simp add: udp_template_lookup_field_def variable_text_def del: of_nat_unat)
  qed
qed

lemma variable_chars:
  assumes "ftype c \<noteq> UDP_DATA"
  shows "125 \<notin> set (bytes_of (variable_text c))" "0 \<notin> set (bytes_of (variable_text c))"
proof -
  have "CHR ''='' \<noteq> nul" by code_simp
  then have no: "CHR ''}'' \<notin> set (variable_text c)" "nul \<notin> set (variable_text c)"
    using type_names [OF assms] show_dec_chars(1) [of "CHR ''}''"] show_dec_chars(2) [of nul]
    by (auto simp: variable_text_def)
  have conv: "char_of (unat (of_nat (of_char x) :: u8)) = x" for x
    using chars_bytes_of [of "[x]"] by (simp add: chars_def bytes_of_def)
  have "char_of (unat (125 :: u8)) = CHR ''}''" "char_of (unat (0 :: u8)) = nul" by code_simp+
  moreover have "char_of (unat b) \<in> set (variable_text c)" if "b \<in> set (bytes_of (variable_text c))" for b
    using that conv by (auto simp: bytes_of_def)
  ultimately show "125 \<notin> set (bytes_of (variable_text c))" "0 \<notin> set (bytes_of (variable_text c))"
    using no by metis+
qed

lemma add_data_between:
  assumes "buf = pre @ d @ rest" "length d < 2 ^ 32"
  shows "add_data buf (length pre) (length pre + length d) t
    = (if d = [] then t else t @ [\<lparr>ftype = UDP_DATA, flength = of_nat (length d), fdata = Some d\<rparr>])"
  using assms by (simp add: add_data_def bytes_between_def udp_template_add_field_def)

text \<open>The loop from the start of a field, with bytes \<open>d\<close> before it that are not in a field yet.\<close>

lemma load_sources:
  "\<lbrakk>buf = pre @ d @ concat (map field_source t); \<forall>c \<in> set t. plain_field c; separated t;
    length d < 2 ^ 32; d \<noteq> [] \<longrightarrow> t = [] \<or> ftype (hd t) \<noteq> UDP_DATA\<rbrakk> \<Longrightarrow>
   load_loop buf (length pre + length d) (length pre) None None acc
   = (if d = [] then acc else acc @ [\<lparr>ftype = UDP_DATA, flength = of_nat (length d), fdata = Some d\<rparr>]) @ t"
proof (induction t arbitrary: pre d acc)
  case Nil
  have "load_loop buf (length pre + length d) (length pre) None None acc
      = add_data buf (length pre) (length pre + length d) acc"
    using Nil.prems(1) by (subst load_loop.simps) simp
  then show ?case using add_data_between [of buf pre d "[]"] Nil.prems by simp
next
  case (Cons c t)
  have sep: "separated t" using Cons.prems(3) by (cases t) auto
  show ?case
  proof (cases "ftype c = UDP_DATA")
    case True
    then obtain e where e: "fdata c = Some e" "e \<noteq> []" "36 \<notin> set e" "length e < 2 ^ 32" "flength c = of_nat (length e)"
      using Cons.prems(2) by (auto simp: plain_field_def)
    have c: "c = \<lparr>ftype = UDP_DATA, flength = of_nat (length e), fdata = Some e\<rparr>" using True e(1,5) by simp
    have d: "d = []" using Cons.prems(5) True by auto
    have "field_source c = e" using True e(1) by (simp add: field_source_def)
    then have buf: "buf = pre @ e @ concat (map field_source t)" using Cons.prems(1) d by simp
    have no: "\<forall>i. length pre \<le> i \<and> i < length pre + length e \<longrightarrow> buf ! i \<noteq> 36"
    proof (intro allI impI)
      fix i assume "length pre \<le> i \<and> i < length pre + length e"
      then obtain j where j: "i = length pre + j" "j < length e" by (metis add_less_cancel_left le_Suc_ex)
      then have "buf ! i = e ! j" using buf by (simp add: nth_append)
      with j(2) show "buf ! i \<noteq> 36" using e(3) nth_mem by metis
    qed
    have "load_loop buf (length pre) (length pre) None None acc
        = load_loop buf (length pre + length e) (length pre) None None acc"
      using buf by (intro skip_text [OF _ _ no]) simp_all
    moreover have "t = [] \<or> ftype (hd t) \<noteq> UDP_DATA" using Cons.prems(3) True by (cases t) auto
    ultimately show ?thesis using Cons.IH [OF buf _ sep e(4), of acc] Cons.prems(2) d e(2) c by simp
  next
    case False
    let ?txt = "bytes_of (variable_text c)"
    have src: "field_source c = [36, 123] @ ?txt @ [125]"
      using False by (simp add: field_source_def) (simp add: bytes_of_def)
    have buf: "buf = (pre @ d) @ [36, 123] @ ?txt @ [125] @ concat (map field_source t)"
      using Cons.prems(1) src by simp
    have look: "udp_template_lookup_field (chars ?txt) = Some c"
      using lookup_variable [of c] Cons.prems(2) False by simp
    let ?acc = "add_data buf (length pre) (length (pre @ d)) acc @ [c]"
    let ?pre = "pre @ d @ field_source c"
    have "load_loop buf (length pre + length d) (length pre) None None acc
        = load_loop buf (length ?pre) (length ?pre) None None ?acc"
      using load_variable [OF buf variable_chars [OF False] look, of "length pre" acc] src
      by (simp add: add.assoc numeral_eq_Suc)
    also have "\<dots> = ?acc @ t"
      using Cons.IH [of ?pre "[]" ?acc] Cons.prems(1,2) sep by simp
    also have "?acc = (if d = [] then acc else acc @ [\<lparr>ftype = UDP_DATA, flength = of_nat (length d), fdata = Some d\<rparr>]) @ [c]"
      using add_data_between [of buf pre d "field_source c @ concat (map field_source t)" acc] Cons.prems(1,4) by simp
    finally show ?thesis by simp
  qed
qed

text \<open>Whatever the file is, a loaded piece of data has the length that its field says.\<close>

lemma lookup_field_ok: "udp_template_lookup_field vname = Some c \<Longrightarrow> field_ok c"
proof -
  have "find_field_type name fs = Some UDP_DATA \<Longrightarrow> UDP_DATA \<in> snd ` set fs" for name fs
    by (induction name fs rule: find_field_type.induct) (auto split: if_splits)
  then have "find_field_type name udp_payload_template_fields \<noteq> Some UDP_DATA" for name
    by (fastforce simp: udp_payload_template_fields_def)
  then show "udp_template_lookup_field vname = Some c \<Longrightarrow> field_ok c"
    by (auto simp: udp_template_lookup_field_def field_ok_def Let_def split: option.splits)
qed

lemma add_data_ok:
  assumes "\<forall>c \<in> set t. field_ok c" "b \<le> length buf" "length buf < 2 ^ 32"
  shows "\<forall>c \<in> set (add_data buf a b t). field_ok c"
  using assms by (auto simp: add_data_def udp_template_add_field_def field_ok_def bytes_between_def
      unat_of_nat take_bit_nat_eq_self simp del: of_nat_diff)

lemma load_loop_ok:
  "\<lbrakk>length buf < 2 ^ 32; p \<le> length buf; \<forall>d. dollar = Some d \<longrightarrow> d \<le> length buf; \<forall>c \<in> set t. field_ok c\<rbrakk> \<Longrightarrow>
   \<forall>c \<in> set (load_loop buf p s dollar lbrack t). field_ok c"
proof (induction "length buf - p" arbitrary: p s dollar lbrack t rule: less_induct)
  case less
  show ?case
  proof (cases "p < length buf")
    case False
    then show ?thesis using less.prems add_data_ok [of t p buf s] by (subst load_loop.simps) simp
  next
    case True
    have next_ok: "\<forall>c \<in> set (load_loop buf (p + 1) s' dollar' lbrack' t'). field_ok c"
      if "\<forall>d. dollar' = Some d \<longrightarrow> d \<le> length buf" "\<forall>c \<in> set t'. field_ok c" for s' dollar' lbrack' t'
      using less.hyps [of "p + 1" dollar' t' s' lbrack'] less.prems(1) True that by simp
    have data: "\<forall>c \<in> set (add_data buf s d t). field_ok c" if "dollar = Some d" for d
      using add_data_ok [of t d buf s] less.prems that by simp
    have var: "\<forall>c \<in> set (udp_template_add_field t' (ftype c) (flength c) (fdata c)). field_ok c"
      if "udp_template_lookup_field name = Some c" "\<forall>c \<in> set t'. field_ok c" for name c t'
      using lookup_field_ok [OF that(1)] that(2) by (cases c) (auto simp: udp_template_add_field_def)
    show ?thesis
    proof (cases "buf ! p = 125 \<and> dollar \<noteq> None \<and> lbrack \<noteq> None")
      case False
      have "field_ok x" if "x \<in> set (load_loop buf (Suc p) s dollar' lbrack' t)"
        "\<forall>d. dollar' = Some d \<longrightarrow> d \<le> length buf" for x dollar' lbrack'
        using next_ok [OF that(2) less.prems(4)] that(1) by auto
      with False show ?thesis
        using less.prems True by (subst load_loop.simps) (auto split: option.splits)
    next
      case close: True
      then obtain d l where dl: "dollar = Some d" "lbrack = Some l" by blast
      define name where "name = chars (takeWhile (\<lambda>b. b \<noteq> 0) (bytes_between buf (l + 1) p))"
      have "load_loop buf p s dollar lbrack t = (case udp_template_lookup_field name of
            Some c \<Rightarrow> load_loop buf (p + 1) (p + 1) None None
              (udp_template_add_field (add_data buf s d t) (ftype c) (flength c) (fdata c))
          | None \<Rightarrow> load_loop buf (p + 1) d None None (add_data buf s d t))"
        using True close dl by (subst load_loop.simps) (simp add: name_def Let_def)
      moreover have "\<forall>c \<in> set (load_loop buf (p + 1) (p + 1) None None
          (udp_template_add_field (add_data buf s d t) (ftype c) (flength c) (fdata c))). field_ok c"
        if "udp_template_lookup_field name = Some c" for c
        using next_ok [of None, OF _ var [OF that data [OF dl(1)]]] by simp
      moreover have "\<forall>c \<in> set (load_loop buf (p + 1) d None None (add_data buf s d t)). field_ok c"
        using next_ok [of None, OF _ data [OF dl(1)]] by simp
      ultimately show ?thesis by (cases "udp_template_lookup_field name") simp_all
    qed
  qed
qed

lemma template_load_ok: "length buf < 2 ^ 32 \<Longrightarrow> \<forall>c \<in> set (udp_template_load buf). field_ok c"
  unfolding udp_template_load_def by (rule load_loop_ok) simp_all

text \<open>
  C36: Loading the text of a template gives its fields: variables with or
  without a length, and pieces of data without a dollar sign between them.
\<close>

theorem template_load_roundtrip:
  assumes "\<forall>c \<in> set t. plain_field c" "separated t"
  shows "udp_template_load (concat (map field_source t)) = t"
  using load_sources [of "concat (map field_source t)" "[]" "[]" t "[]"] assms by (simp add: udp_template_load_def)

definition ex_template :: "udp_payload_field list" where
  "ex_template = [\<lparr>ftype = UDP_DATA, flength = 4, fdata = Some (bytes_of ''GET '')\<rparr>,
     \<lparr>ftype = UDP_SADDR_A, flength = 0, fdata = None\<rparr>, \<lparr>ftype = UDP_DATA, flength = 1, fdata = Some (bytes_of '' '')\<rparr>,
     \<lparr>ftype = UDP_RAND_DIGIT, flength = 9, fdata = None\<rparr>]"

lemma ex_template_source:
  "\<forall>c \<in> set ex_template. plain_field c" "separated ex_template"
  "concat (map field_source ex_template) = bytes_of ''GET ${SADDR} ${RAND_DIGIT=9}''"
proof -
  show "\<forall>c \<in> set ex_template. plain_field c" by (simp add: ex_template_def plain_field_def bytes_of_def)
  show "separated ex_template" by (simp add: ex_template_def)
  have "show_dec 9 = ''9''" by (simp add: show_dec.simps) code_simp
  then show "concat (map field_source ex_template) = bytes_of ''GET ${SADDR} ${RAND_DIGIT=9}''"
    by (simp add: ex_template_def field_source_def variable_text_def type_name_def udp_payload_template_fields_def
        del: bytes_of_append) (simp add: bytes_of_def)
qed

theorem template_load_roundtrip_witness:
  "udp_template_load (bytes_of ''GET ${SADDR} ${RAND_DIGIT=9}'') = ex_template"
  using template_load_roundtrip [of ex_template] ex_template_source by simp

lemma ex_template_loaded: "udp_template_load (bytes_of ''GET ${SADDR} ${RAND_DIGIT=9}'') = ex_template"
  using load_sources [of "concat (map field_source ex_template)" "[]" "[]" ex_template "[]"] ex_template_source
  by (simp add: udp_template_load_def)

lemma ex_template_room:
  "\<forall>c \<in> set ex_template. field_ok c" "(\<Sum>c\<leftarrow>ex_template. field_room ctx c) < 1472"
  by (simp_all add: ex_template_def field_ok_def bytes_of_def field_room_def header_bytes_def)

lemma ex_template_value:
  assumes "list_all2 (field_value ctx) ex_template vs" "ctx_src ctx = [10, 0, 0, 1]"
  shows "length (concat vs) = 22 \<and> take 13 (concat vs) = bytes_of ''GET 10.0.0.1 ''"
proof -
  have ip: "inet_ntoa [10, 0, 0, 1] = ''10.0.0.1''" by (simp add: inet_ntoa_def) code_simp
  obtain v where "vs = [bytes_of ''GET '', bytes_of ''10.0.0.1'', bytes_of '' '', v]" "length v = 9"
    using assms by (auto simp: ex_template_def list_all2_Cons1 field_value_def charset_of_def header_bytes_def ip)
  then show ?thesis by (simp, simp add: bytes_of_def)
qed

text \<open>The fields for the destination port write the source port.\<close>

lemma dport_writes_sport:
  "udp_template_build [\<lparr>ftype = UDP_DPORT_N, flength = 0, fdata = None\<rparr>] 100 ctx aes
     = Inr (2, htons_bytes (ctx_sport ctx), aes)"
  by (simp add: udp_template_build_def build_field_def charset_of_def header_bytes_def htons_bytes_def)

text \<open>
  A length below zero becomes a length of more than \<open>2 ^ 31\<close> bytes, so every probe ends the program with
  an empty payload.
\<close>

lemma negative_length_empty:
  assumes "udp_template_lookup_field ''RAND_BYTE=-1'' = Some c" "len \<le> 1472"
  shows "udp_template_build [c] len ctx aes = Inr (0, [], aes)"
proof -
  have "strtol10 ''-1'' = (- 1, False, False, [])" by code_simp
  then have "flength c = - 1"
    using assms(1) by (auto simp: udp_template_lookup_field_def udp_payload_template_fields_def to_int32_def)
  then show ?thesis using assms(2) by (simp add: udp_template_build_def build_field_def unsigned_minus_1_eq_mask mask_eq_exp_minus_1)
qed

end
