(* ===== verification/Udp_Probe.thy ===== *)
theory Udp_Probe
  imports Tcp_Scan Udp_Template
begin

text \<open>
  The UDP probe module \<open>src/probe_modules/module_udp.c\<close> around its validation (theory \<open>Udp\<close>) and its
  templates (theory \<open>Udp_Template\<close>): the payload of the options, the packets of a probe and the record
  of a reply. A message is the memory that the module holds for it.
\<close>

section \<open>Initialisation\<close>

text \<open>The macro is not in brackets: twice it is \<open>1500 - 20 - 8 * 2\<close>.\<close>

definition MAX_UDP_PAYLOAD_LEN :: nat where "MAX_UDP_PAYLOAD_LEN = 1500 - 20 - 8"

record udp_state =
  udp_send_msg :: "u8 list"
  udp_send_msg_len :: nat
  udp_send_substitutions :: bool
  udp_template :: "udp_payload_field list"
  udp_packet_length :: nat

text \<open>Initialisation succeeds, fails, or prints a list and ends the program.\<close>

datatype udp_init = Init_ok udp_state | Init_failure | Init_exit

definition udp_send_msg_default :: string where
  "udp_send_msg_default = ''GET / HTTP/1.1'' @ [CHR 0x0D, CHR 0x0A] @ ''Host: ida.'' @ [CHR 0x0D, CHR 0x0A, CHR 0x0D, CHR 0x0A]"

definition udp_default :: udp_state where
  "udp_default = \<lparr>udp_send_msg = bytes_of udp_send_msg_default @ [0], udp_send_msg_len = 30,
     udp_send_substitutions = False, udp_template = [], udp_packet_length = 14 + 20 + 8 + 30\<rparr>"

text \<open>Pairs of hexadecimal digits, \<open>n\<close> of them.\<close>

fun hex_pairs :: "nat \<Rightarrow> string \<Rightarrow> u8 list option" where
  "hex_pairs 0 c = Some []"
| "hex_pairs (Suc n) c =
     (case sscanf_hex 2 c of
        None \<Rightarrow> None
      | Some v \<Rightarrow> map_option (\<lambda>bs. ucast (v AND 0xFF) # bs) (hex_pairs n (drop 2 c)))"

text \<open>The length is cut to what fits on the wire.\<close>

definition set_length :: "udp_state \<Rightarrow> udp_init outcome" where
  "set_length st =
     (let n = min (udp_send_msg_len st) MAX_UDP_PAYLOAD_LEN; len = 14 + 20 + 8 + n
      in if MAX_PACKET_SIZE < len then Inl Assert_failed
         else Inr (Init_ok (st\<lparr>udp_send_msg_len := n, udp_packet_length := len\<rparr>)))"

text \<open>
  \<open>args\<close> is \<open>--probe-args\<close>, \<open>files\<close> the contents of the files that can be opened and \<open>dirs\<close> the directories.
  The name of a directory is copied without its terminator and then read as a string.
\<close>

definition udp_global_init ::
    "string option \<Rightarrow> (string \<Rightarrow> u8 list option) \<Rightarrow> (string \<Rightarrow> bool) \<Rightarrow> udp_init outcome" where
  "udp_global_init args files dirs = (case args of
     None \<Rightarrow> Inr (Init_ok udp_default)
   | Some args \<Rightarrow>
       if args = [] then Inr (Init_ok udp_default)
       else if args = ''icmp-type-code-str'' \<or> args = ''template-fields'' then Inr Init_exit
       else (case strchr (CHR '':'') args of
           None \<Rightarrow> Inr Init_failure
         | Some i \<Rightarrow>
             let kind = take i args; c = drop (i + 1) args in
             if kind = ''text'' then
               set_length (udp_default\<lparr>udp_send_msg := bytes_of c @ [0], udp_send_msg_len := length c\<rparr>)
             else if kind = ''file'' \<or> kind = ''template'' then
               (case files c of
                  None \<Rightarrow> Inr Init_failure
                | Some content \<Rightarrow>
                    let msg = take MAX_UDP_PAYLOAD_LEN content;
                        st = udp_default\<lparr>udp_send_msg := msg, udp_send_msg_len := length msg\<rparr>
                    in set_length (if kind = ''template''
                         then st\<lparr>udp_send_substitutions := True, udp_template := udp_template_load msg\<rparr> else st))
             else if kind = ''hex'' then
               (case hex_pairs (length c div 2) c of
                  None \<Rightarrow> Inr Init_failure
                | Some msg \<Rightarrow> set_length (udp_default\<lparr>udp_send_msg := msg, udp_send_msg_len := length msg\<rparr>))
             else if kind = ''dir'' then (if dirs c then Inl Undefined_value else Inr Init_failure)
             else Inr Init_failure))"

section \<open>Probes\<close>

definition put_udp_lengths :: "nat \<Rightarrow> u8 list \<Rightarrow> u8 list" where
  "put_udp_lengths payload_len buf =
     put_at (IP_END + 4) (htons_bytes (of_nat (sizeof_udphdr + payload_len)))
       (put_at (ETH + 2) (htons_bytes (of_nat (sizeof_ip + sizeof_udphdr + payload_len))) buf)"

text \<open>The buffer of a thread and its random numbers, seeded with 32 bits of the global ones.\<close>

definition udp_thread_init ::
    "udp_state \<Rightarrow> u8 list \<Rightarrow> u8 list \<Rightarrow> aesrand \<Rightarrow> (u8 list \<times> aesrand \<times> aesrand) outcome" where
  "udp_thread_init st src gw aes =
     (let n = udp_send_msg_len st;
          buf = make_eth_header 0 src gw (replicate MAX_PACKET_SIZE 0);
          buf = make_ip_header ETH IPPROTO_UDP (of_nat (sizeof_ip + sizeof_udphdr + n)) buf;
          buf = make_udp_header IP_END (of_nat (sizeof_udphdr + n)) buf
      in bind_out (bytes_at (udp_send_msg st) 0 n) (\<lambda>msg.
         bind_out (aesrand_getword aes) (\<lambda>(w, aes).
         bind_out (aesrand_init_from_seed (w AND 0xFFFFFFFF)) (\<lambda>thread_aes.
           Inr (put_at PAYLOAD msg buf, thread_aes, aes)))))"

text \<open>The payload of a template, in a cleared buffer.\<close>

definition put_template ::
    "udp_state \<Rightarrow> probe_ctx \<Rightarrow> u8 list \<Rightarrow> aesrand \<Rightarrow> (u8 list \<times> nat \<times> aesrand) outcome" where
  "put_template st ctx buf aes =
     bind_out (udp_template_build (udp_template st) MAX_UDP_PAYLOAD_LEN ctx aes) (\<lambda>(n, out, aes).
       if n \<le> 0 then Inl Log_fatal
       else Inr (put_udp_lengths n (put_at PAYLOAD out (put_at PAYLOAD (replicate MAX_UDP_PAYLOAD_LEN 0) buf)), n, aes))"

text \<open>
  The packet, its length, and the length that the module announces. No state of the model sends the
  payloads of a directory, since initialising them is undefined.
\<close>

definition udp_make_packet ::
    "udp_conf \<Rightarrow> udp_state \<Rightarrow> u8 list \<Rightarrow> nat \<Rightarrow> u8 list \<Rightarrow> u8 list \<Rightarrow> u16 \<Rightarrow> u8 \<Rightarrow> nat \<Rightarrow> aesrand
     \<Rightarrow> (u8 list \<times> nat \<times> nat \<times> aesrand) outcome" where
  "udp_make_packet c st buf buf_len src_ip dst_ip dst_port ttl probe_num aes =
     (let buf = put_at (ETH + 8) [ttl] (put_at (ETH + 16) (take 4 dst_ip) (put_at (ETH + 12) (take 4 src_ip) buf))
      in bind_out (validate_gen (udp_validate c) (udp_ipv46_bytes c) src_ip dst_ip dst_port) (\<lambda>validation.
      let sport = get_src_port (udp_ports c) (udp_num_sports c) (int probe_num) validation;
          buf = put_at (IP_END + 2) (htons_bytes dst_port) (put_at IP_END (htons_bytes sport) buf);
          ctx = \<lparr>ctx_src = take 4 src_ip, ctx_dst = take 4 dst_ip, ctx_sport = sport\<rparr>
      in bind_out (if udp_send_substitutions st
           then bind_out (put_template st ctx buf aes) (\<lambda>(buf, n, aes). Inr (buf, PAYLOAD + n, PAYLOAD + n, aes))
           else Inr (buf, buf_len, udp_packet_length st, aes)) (\<lambda>(buf, buf_len, packet_len, aes).
         bind_out (put_udp_sum (take 4 src_ip) (take 4 dst_ip) buf) (\<lambda>buf.
         bind_out (put_ip_sum buf) (\<lambda>buf. Inr (buf, buf_len, packet_len, aes))))))"

section \<open>Records\<close>

definition swap16 :: "u16 \<Rightarrow> u16" where
  "swap16 w = push_bit 8 w OR drop_bit 8 w"

text \<open>
  The length of the payload: 8 is taken off the length as it is in memory, and the difference is
  brought into the order of the host. Then it is cut to what was captured and to the IP packet.
\<close>

definition udp_payload_len :: "u16 \<Rightarrow> u16" where
  "udp_payload_len ulen = swap16 (swap16 ulen - 8)"

definition udp_data_len :: "nat \<Rightarrow> u16 \<Rightarrow> nat \<Rightarrow> u16 \<Rightarrow> nat" where
  "udp_data_len len ip_len hl ulen =
     (let max_rlen = unat (of_nat len - of_nat ETH - of_nat hl - 8 :: u32);
          max_ilen = unat (ucast ip_len - of_nat hl - 8 :: u32);
          n = unat (udp_payload_len ulen);
          n = (if max_rlen < n then max_rlen else n)
      in if max_ilen < n then max_ilen else n)"

definition udp_process_udp :: "u8 list \<Rightarrow> nat \<Rightarrow> nat \<Rightarrow> fieldset \<Rightarrow> fieldset outcome" where
  "udp_process_udp ip hl len fs =
     bind_out (u16_at ip hl) (\<lambda>sport.
     bind_out (u16_at ip (hl + 2)) (\<lambda>dport.
     bind_out (u16_at ip (hl + 4)) (\<lambda>ulen.
     bind_out (u16_at ip 2) (\<lambda>ip_len.
     bind_out (fs_add_fields fs [(''success'', bool_val True), (''clas'', Str ''udp''), (''sport'', num16 sport),
        (''dport'', num16 dport), (''icmp_responder'', Null), (''icmp_type'', Null), (''icmp_code'', Null),
        (''icmp_str'', Null), (''udp_pkt_size'', num16 ulen)]) (\<lambda>fs.
       if udp_payload_len ulen = 0 then fs_add_null fs ''data''
       else bind_out (bytes_at ip (hl + sizeof_udphdr) (udp_data_len len ip_len hl ulen)) (\<lambda>data.
         fs_add_binary fs ''data'' data))))))"

text \<open>The probe in an ICMP error is looked for after a header of 20 bytes.\<close>

definition udp_process_icmp :: "u8 list \<Rightarrow> nat \<Rightarrow> fieldset \<Rightarrow> fieldset outcome" where
  "udp_process_icmp ip hl fs =
     (let inner = hl + ICMP_UNREACH_HEADER_SIZE; udp = inner + sizeof_ip in
     bind_out (ip_dst ip inner) (\<lambda>target.
     bind_out (fs_modify_string fs ''saddr'' (inet_ntoa target)) (\<lambda>fs.
     bind_out (byte_at ip hl) (\<lambda>type.
     bind_out (byte_at ip (hl + 1)) (\<lambda>code.
     bind_out (get_icmp_type_str (uint type)) (\<lambda>clas.
     bind_out (u16_at ip (udp + 2)) (\<lambda>dport.
     bind_out (u16_at ip udp) (\<lambda>sport.
     bind_out (ip_src ip 0) (\<lambda>responder.
     bind_out (get_icmp_type_code_str (uint type) (uint code)) (\<lambda>icmp_str.
       fs_add_fields fs [(''success'', bool_val False), (''clas'', Str clas), (''sport'', num16 dport),
         (''dport'', num16 sport), (''icmp_responder'', Str (inet_ntoa responder)), (''icmp_type'', Uint (ucast type)),
         (''icmp_code'', Uint (ucast code)), (''icmp_str'', Str icmp_str), (''udp_pkt_size'', Null),
         (''data'', Null)]))))))))))"

definition udp_process_packet :: "u8 list \<Rightarrow> nat \<Rightarrow> fieldset \<Rightarrow> fieldset outcome" where
  "udp_process_packet packet len fs =
     (let ip = drop ETH packet in
     bind_out (ip_hl_bytes ip 0) (\<lambda>hl.
     bind_out (ip_p ip 0) (\<lambda>proto.
       if proto = IPPROTO_UDP then udp_process_udp ip hl len fs
       else if proto = IPPROTO_ICMP then udp_process_icmp ip hl fs
       else fs_add_fields fs ([(''success'', bool_val False), (''clas'', Str ''other'')]
         @ map (\<lambda>n. (n, Null)) [''sport'', ''dport'', ''icmp_responder'', ''icmp_type'', ''icmp_code'', ''icmp_str'',
             ''udp_pkt_size'', ''data'']))))"

definition udp_fields :: "fielddef list" where
  "udp_fields = [(''success'', ''bool''), (''clas'', ''string''), (''sport'', ''int''), (''dport'', ''int''),
     (''icmp_responder'', ''string''), (''icmp_type'', ''int''), (''icmp_code'', ''int''), (''icmp_str'', ''string''),
     (''udp_pkt_size'', ''int''), (''data'', ''binary'')]"

text \<open>The module as the receiver calls it.\<close>

definition udp_module :: "udp_conf \<Rightarrow> nat \<Rightarrow> probe_module" where
  "udp_module c n = \<lparr>packet_length = n,
     validate_packet = (\<lambda>bf ip len is_repeat buff n.
       bind_out (udp_validate_packet c bf ip len is_repeat) (\<lambda>(r, is_repeat, bf). Inr (r, is_repeat, bf, buff, n))),
     process_packet = (\<lambda>packet len fs ts. udp_process_packet packet len fs)\<rparr>"

section \<open>Payloads of the options\<close>

definition hex2 :: "u8 \<Rightarrow> string" where
  "hex2 b = [hex_char (unat b div 16), hex_char (unat b mod 16)]"

lemma sscanf_hex_take:
  "s \<noteq> [] \<Longrightarrow> \<not> c_isspace (hd s) \<Longrightarrow> \<not> c_isspace (hd (take w s)) \<Longrightarrow> sscanf_hex w s = sscanf_hex w (take w s)"
  by (cases s; cases w) (simp_all add: sscanf_hex_def)

lemma hex_chars_length: "length hex_chars = 16"
  by (simp add: hex_chars_def)

lemma sscanf_hex2: "sscanf_hex 2 (hex2 b @ rest) = Some (ucast b)"
proof -
  have d: "unat b div 16 < 16" "unat b mod 16 < 16" using unat_u8_less [of b] by simp_all
  have "sscanf_hex 2 (hex2 b @ rest) = sscanf_hex 2 (hex2 b)"
    using sscanf_hex_take [of "hex2 b @ rest" 2] hex_char_cases(4) [OF d(1)] by (simp add: hex2_def)
  also have "\<dots> = Some (of_nat (hex_number 0 (hex2 b)))"
  proof -
    have "hex_char (unat b div 16) \<in> set hex_chars" "hex_char (unat b mod 16) \<in> set hex_chars"
      using d hex_char_cases(1) nth_mem [of _ hex_chars] by (simp_all add: hex_chars_length)
    then have "\<forall>c \<in> set (hex2 b). c \<in> set hex_chars" by (simp add: hex2_def)
    moreover have "hex_number 0 (hex2 b) = unat b"
      using hex_char_cases(2) [OF d(1)] hex_char_cases(2) [OF d(2)] by (simp add: hex2_def)
    ultimately show ?thesis using sscanf_hex_text [of "hex2 b" 2] unat_u8_less [of b] by (simp add: hex2_def)
  qed
  also have "of_nat (hex_number 0 (hex2 b)) = (ucast b :: u32)"
    using hex_char_cases(2) [OF d(1)] hex_char_cases(2) [OF d(2)] by (simp add: hex2_def)
  finally show ?thesis .
qed

lemma hex_pairs_text: "hex_pairs (length bs) (concat (map hex2 bs)) = Some bs"
proof (induction bs)
  case (Cons b bs)
  have "(0xFF :: u32) = mask 8" by (simp add: mask_eq_exp_minus_1)
  then have "(ucast b :: u32) AND 0xFF = take_bit 8 (ucast b)" by (simp only: take_bit_eq_mask)
  then have "ucast ((ucast b :: u32) AND 0xFF) = b"
    by (auto intro!: bit_word_eqI simp: bit_simps)
  moreover have "drop 2 (hex2 b @ s) = s" for s by (simp add: hex2_def)
  ultimately show ?case using Cons sscanf_hex2 [of b "concat (map hex2 bs)"] by simp
qed simp

text \<open>The bytes that are given in hexadecimal are the payload.\<close>

lemma udp_hex_payload:
  assumes "length bs \<le> MAX_UDP_PAYLOAD_LEN"
  shows "udp_global_init (Some (''hex:'' @ concat (map hex2 bs))) files dirs
    = Inr (Init_ok (udp_default\<lparr>udp_send_msg := bs, udp_send_msg_len := length bs, udp_packet_length := PAYLOAD + length bs\<rparr>))"
proof -
  have "length (concat (map hex2 bs)) div 2 = length bs" by (simp add: length_concat comp_def hex2_def sum_list_triv)
  then have "hex_pairs (length (concat (map hex2 bs)) div 2) (concat (map hex2 bs)) = Some bs"
    using hex_pairs_text [of bs] by simp
  then show ?thesis using assms
    by (simp add: udp_global_init_def set_length_def MAX_UDP_PAYLOAD_LEN_def MAX_PACKET_SIZE_def PAYLOAD_def min_def Let_def)
qed

section \<open>Probes from a template\<close>

lemma length_put_udp_lengths [simp]:
  "length buf = MAX_PACKET_SIZE \<Longrightarrow> length (put_udp_lengths n buf) = MAX_PACKET_SIZE"
  by (simp add: put_udp_lengths_def MAX_PACKET_SIZE_def ETH_def IP_END_def)

lemma put_udp_sum_spec:
  assumes "length src = 4" "length dst = 4" "length buf = MAX_PACKET_SIZE" "u16_at buf (IP_END + 4) = Inr w"
    "8 \<le> unat w" "unat w \<le> 4060"
  obtains s where "put_udp_sum src dst buf = Inr (put_at (IP_END + 6) (host_bytes s) (put_at (IP_END + 6) [0, 0] buf))"
    "udp_checksum src dst (drop IP_END (put_at (IP_END + 6) (host_bytes s) (put_at (IP_END + 6) [0, 0] buf))) = Inr 0"
proof -
  note pos = IP_END_def MAX_PACKET_SIZE_def
  let ?b = "put_at (IP_END + 6) [0, 0] buf"
  let ?w = "drop IP_END ?b"
  let ?x = "pseudo_sum src dst (host16 (?w ! 4) (?w ! 5)) IPPROTO_UDP"
  let ?n = "unat w"
  have l: "length ?b = 4096" "length ?w = 4062" using assms(3) by (simp_all add: pos)
  have nt: "ntohs_at ?w 4 = w"
  proof -
    have "u16_at ?b (IP_END + 4) = Inr w" using assms(3,4) by (simp add: u16_at_put_other pos)
    then show ?thesis using l by (simp add: u16_at_nth ntohs_at_def pos)
  qed
  have wi: "words_in ?n ?w" using assms(6) l by (simp add: words_in_def)
  define s where "s = fold_sum (sum_words ?w ?n + ?x)"
  have c: "udp_checksum src dst ?w = Inr s" using wi nt l by (simp add: udp_checksum_def s_def Let_def)
  have z: "?w ! 6 = 0" "?w ! 7 = 0" using assms(3) by (simp_all add: nth_put_at pos)
  have "fold_sum (sum_words (store_sum 6 s ?w) ?n + ?x) = 0"
    by (rule fold_sum_store)
      (use wi z assms(1,2,5,6) pseudo_sum_bound [of src dst "host16 (?w ! 4) (?w ! 5)" IPPROTO_UDP] host16_less
        in \<open>simp_all add: s_def\<close>)
  then have "udp_checksum src dst (store_sum 6 s ?w) = Inr 0"
    using wi nt l by (simp add: udp_checksum_def Let_def ntohs_at_store_sum nth_store_sum)
  moreover have "drop IP_END (put_at (IP_END + 6) (host_bytes s) ?b) = store_sum 6 s ?w"
    using l by (subst drop_put_at(1)) (simp_all add: put_host_bytes pos)
  moreover have "put_udp_sum src dst buf = Inr (put_at (IP_END + 6) (host_bytes s) ?b)"
    using c by (simp add: put_udp_sum_def Let_def)
  ultimately show thesis using that by simp
qed

lemma udp_template_packet:
  assumes "udp_send_substitutions st" "length src_ip = 4" "length dst_ip = 4" "length buf = MAX_PACKET_SIZE"
    "validate_gen (udp_validate c) (udp_ipv46_bytes c) src_ip dst_ip dst_port = Inr v"
    "sport = get_src_port (udp_ports c) (udp_num_sports c) (int k) v"
    "udp_template_build (udp_template st) MAX_UDP_PAYLOAD_LEN \<lparr>ctx_src = src_ip, ctx_dst = dst_ip, ctx_sport = sport\<rparr> aes
      = Inr (n, out, aes')" "n = length out" "0 < n" "n < MAX_UDP_PAYLOAD_LEN"
  shows "\<exists>packet. udp_make_packet c st buf m src_ip dst_ip dst_port ttl k aes = Inr (packet, PAYLOAD + n, PAYLOAD + n, aes')
    \<and> bytes_at packet PAYLOAD n = Inr out \<and> u16_at packet (ETH + 2) = Inr (of_nat (28 + n))
    \<and> u16_at packet (IP_END + 4) = Inr (of_nat (8 + n)) \<and> u16_at packet IP_END = Inr sport
    \<and> u16_at packet (IP_END + 2) = Inr dst_port
    \<and> udp_checksum src_ip dst_ip (drop IP_END packet) = Inr 0 \<and> ip_checksum' (drop ETH packet) = Inr 0"
proof -
  note pos = ETH_def IP_END_def PAYLOAD_def MAX_PACKET_SIZE_def MAX_UDP_PAYLOAD_LEN_def
  note rd = u16_at_put_other u16_at_put_same bytes_at_put_other
  let ?a = "put_at (ETH + 8) [ttl] (put_at (ETH + 16) dst_ip (put_at (ETH + 12) src_ip buf))"
  let ?p = "put_at (IP_END + 2) (htons_bytes dst_port) (put_at IP_END (htons_bytes sport) ?a)"
  let ?z = "put_at PAYLOAD (replicate MAX_UDP_PAYLOAD_LEN 0) ?p"
  let ?o = "put_at PAYLOAD out ?z"
  let ?l = "put_udp_lengths n ?o"
  have n: "length out = n" "n < 1472" using assms(8,10) by (simp_all add: pos)
  have lp: "length ?p = 4096" using assms(2-4) by (simp add: pos)
  have lz: "length ?z = 4096" using lp by (simp add: pos)
  have lo: "length ?o = 4096" using lz n by (simp add: pos)
  have ll: "length ?l = 4096" using lo by (simp add: put_udp_lengths_def pos)
  have r_out: "bytes_at ?l PAYLOAD n = Inr out"
    using bytes_at_put_same [of PAYLOAD out ?z] lz lo n
    by (simp add: put_udp_lengths_def bytes_at_put_other pos)
  have r_len: "u16_at ?l (ETH + 2) = Inr (of_nat (28 + n))" "u16_at ?l (IP_END + 4) = Inr (of_nat (8 + n))"
    using lo by (simp_all add: put_udp_lengths_def rd sizeof_ip_def sizeof_udphdr_def pos)
  have r_port: "u16_at ?l IP_END = Inr sport" "u16_at ?l (IP_END + 2) = Inr dst_port"
    using lo lz lp n assms(2-4) by (simp_all add: put_udp_lengths_def rd pos)
  have w: "unat (of_nat (8 + n) :: u16) = 8 + n" using n(2)
    by (simp add: unat_of_nat take_bit_nat_eq_self del: of_nat_add)
  obtain s where s: "put_udp_sum src_ip dst_ip ?l = Inr (put_at (IP_END + 6) (host_bytes s) (put_at (IP_END + 6) [0, 0] ?l))"
    "udp_checksum src_ip dst_ip (drop IP_END (put_at (IP_END + 6) (host_bytes s) (put_at (IP_END + 6) [0, 0] ?l))) = Inr 0"
    by (rule put_udp_sum_spec [OF assms(2,3) _ r_len(2)]) (use ll w n in \<open>simp_all add: pos\<close>)
  define u where "u = put_at (IP_END + 6) (host_bytes s) (put_at (IP_END + 6) [0, 0] ?l)"
  have lu: "length u = 4096" using ll by (simp add: u_def pos)
  obtain t where t: "put_ip_sum u = Inr (put_at (ETH + 10) (host_bytes t) (put_at (ETH + 10) [0, 0] u))"
    "ip_checksum' (drop ETH (put_at (ETH + 10) (host_bytes t) (put_at (ETH + 10) [0, 0] u))) = Inr 0"
    by (rule put_ip_sum_spec [of u]) (use lu in \<open>simp_all add: pos\<close>)
  define packet where "packet = put_at (ETH + 10) (host_bytes t) (put_at (ETH + 10) [0, 0] u)"
  have "drop IP_END packet = drop IP_END u"
    unfolding packet_def using lu by (subst drop_put_at(2); (subst drop_put_at(2))?) (simp_all add: pos)
  then have sum: "udp_checksum src_ip dst_ip (drop IP_END packet) = Inr 0" using s(2) by (simp add: u_def)
  have rp: "u16_at packet q = u16_at ?l q" if "q \<in> {ETH + 2, IP_END + 4, IP_END, IP_END + 2}" for q
    unfolding packet_def u_def using that lu ll by (auto simp: u16_at_put_other pos u_def)
  have rb: "bytes_at packet PAYLOAD n = bytes_at ?l PAYLOAD n"
    unfolding packet_def u_def using lu ll by (simp add: bytes_at_put_other pos u_def)
  have "udp_make_packet c st buf m src_ip dst_ip dst_port ttl k aes = Inr (packet, PAYLOAD + n, PAYLOAD + n, aes')"
    using assms(1-3,5-7,9) s(1) t(1)
    by (simp add: udp_make_packet_def put_template_def Let_def u_def packet_def del: bind_out_eq_Inr)
  then show ?thesis using rb r_out rp r_len r_port sum t(2) by (intro exI [of _ packet]) (simp add: packet_def [symmetric])
qed

text \<open>
  C37: A probe whose payload is made from the template in a file of any bytes is either
  refused, since the payload is empty or does not fit, or its payload is one value for each field of
  the template, in order and shorter than the buffer. Then both length fields are those of the payload, the ports are those of the probe and
  both checksums verify. It is not refused when the fields ask for less room than the buffer has and
  one of them has a value that is not empty.
\<close>

theorem udp_template_probe:
  assumes "udp_send_substitutions st" "udp_template st = udp_template_load msg" "length msg < 2 ^ 32" "aes_ok aes"
    "length src_ip = 4" "length dst_ip = 4" "length buf = MAX_PACKET_SIZE"
    "validate_gen (udp_validate c) (udp_ipv46_bytes c) src_ip dst_ip dst_port = Inr v"
    "ctx = \<lparr>ctx_src = src_ip, ctx_dst = dst_ip, ctx_sport = get_src_port (udp_ports c) (udp_num_sports c) (int k) v\<rparr>"
  shows "(udp_make_packet c st buf m src_ip dst_ip dst_port ttl k aes = Inl Log_fatal
      \<and> ((\<Sum>f\<leftarrow>udp_template st. field_room ctx f) < MAX_UDP_PAYLOAD_LEN
          \<longrightarrow> list_all2 (field_value ctx) (udp_template st) (replicate (length (udp_template st)) [])))
    \<or> (\<exists>packet n vs aes'. udp_make_packet c st buf m src_ip dst_ip dst_port ttl k aes
          = Inr (packet, PAYLOAD + n, PAYLOAD + n, aes')
        \<and> list_all2 (field_value ctx) (udp_template st) vs \<and> n = length (concat vs) \<and> 0 < n \<and> n < MAX_UDP_PAYLOAD_LEN
        \<and> bytes_at packet PAYLOAD n = Inr (concat vs) \<and> u16_at packet (ETH + 2) = Inr (of_nat (28 + n))
        \<and> u16_at packet (IP_END + 4) = Inr (of_nat (8 + n)) \<and> u16_at packet IP_END = Inr (ctx_sport ctx)
        \<and> u16_at packet (IP_END + 2) = Inr dst_port
        \<and> udp_checksum src_ip dst_ip (drop IP_END packet) = Inr 0 \<and> ip_checksum' (drop ETH packet) = Inr 0)"
proof -
  have room: "length (ctx_src ctx) = 4" "length (ctx_dst ctx) = 4" "0 < MAX_UDP_PAYLOAD_LEN"
    using assms(5,6,9) by (simp_all add: MAX_UDP_PAYLOAD_LEN_def)
  have loaded: "\<forall>f \<in> set (udp_template st). field_ok f" using template_load_ok [OF assms(3)] assms(2) by simp
  obtain n out aes' where b: "udp_template_build (udp_template st) MAX_UDP_PAYLOAD_LEN ctx aes = Inr (n, out, aes')"
    "n = length out" "n < MAX_UDP_PAYLOAD_LEN" "out = [] \<or> (\<exists>vs. out = concat vs \<and> list_all2 (field_value ctx) (udp_template st) vs)"
    "(\<Sum>f\<leftarrow>udp_template st. field_room ctx f) < MAX_UDP_PAYLOAD_LEN
       \<longrightarrow> (\<exists>vs. out = concat vs \<and> list_all2 (field_value ctx) (udp_template st) vs)"
    using template_build_fits [OF assms(4) loaded room] by blast
  show ?thesis
  proof (cases "n = 0")
    case True
    have "list_all2 (field_value ctx) (udp_template st) (replicate (length (udp_template st)) [])"
      if "list_all2 (field_value ctx) (udp_template st) vs" "out = concat vs" for vs
    proof -
      have "\<forall>v \<in> set vs. v = []" using True b(2) that(2) by simp
      then have "vs = replicate (length (udp_template st)) []"
        using list_all2_lengthD [OF that(1)] by (simp add: replicate_eqI)
      then show ?thesis using that(1) by simp
    qed
    moreover have "udp_make_packet c st buf m src_ip dst_ip dst_port ttl k aes = Inl Log_fatal"
      using assms(1,5,6,8,9) b(1) True by (simp add: udp_make_packet_def put_template_def Let_def del: bind_out_eq_Inr)
    ultimately show ?thesis using b(5) by blast
  next
    case False
    then obtain vs where vs: "out = concat vs" "list_all2 (field_value ctx) (udp_template st) vs" using b(2,4) by auto
    have pos: "0 < n" using False by simp
    have sp: "get_src_port (udp_ports c) (udp_num_sports c) (int k) v = ctx_sport ctx" using assms(9) by simp
    have b1: "udp_template_build (udp_template st) MAX_UDP_PAYLOAD_LEN
        \<lparr>ctx_src = src_ip, ctx_dst = dst_ip, ctx_sport = ctx_sport ctx\<rparr> aes = Inr (n, out, aes')"
      using b(1) assms(9) by simp
    have n: "n = length (concat vs)" using b(2) vs(1) by simp
    show ?thesis
      using udp_template_packet [OF assms(1,5-8) sp [symmetric] b1 b(2) pos b(3), of m ttl] vs(2) n pos b(3)
      unfolding vs(1) by blast
  qed
qed

definition ex_udp :: udp_state where
  "ex_udp = udp_default\<lparr>udp_send_substitutions := True,
     udp_template := udp_template_load (bytes_of ''GET ${SADDR} ${RAND_DIGIT=9}'')\<rparr>"

theorem udp_template_probe_witness:
  "\<exists>aes packet aes'. udp_make_packet (ex_dns_conf initial_blocklist) ex_udp (replicate MAX_PACKET_SIZE 0) 0 [10, 0, 0, 1]
      [192, 0, 2, 1] 53 64 0 aes = Inr (packet, PAYLOAD + 22, PAYLOAD + 22, aes')
    \<and> bytes_at packet PAYLOAD 13 = Inr (bytes_of ''GET 10.0.0.1 '') \<and> ip_checksum' (drop ETH packet) = Inr 0"
proof -
  let ?c = "ex_dns_conf initial_blocklist"
  obtain aes where aes: "aes_ok aes" using aesrand_init_ok [of "replicate 16 0"] by auto
  obtain v where v: "validate_gen (udp_validate ?c) (udp_ipv46_bytes ?c) [10, 0, 0, 1] [192, 0, 2, 1] 53 = Inr v"
    using rijndaelEncrypt_total [of "validate_input 4 [10, 0, 0, 1] [192, 0, 2, 1] 53" 10 "val_sched (udp_validate ?c)"]
    by (auto simp: validate_gen_def ex_dns_conf_def AES_KEY_BYTES_def AES_ROUNDS_def validate_input_def Let_def)
  let ?ctx = "\<lparr>ctx_src = [10, 0, 0, 1], ctx_dst = [192, 0, 2, 1],
      ctx_sport = get_src_port (udp_ports ?c) (udp_num_sports ?c) (int 0) v\<rparr>"
  have st: "udp_send_substitutions ex_udp" "udp_template ex_udp = ex_template" by (simp_all add: ex_udp_def ex_template_loaded)
  have val: "length (concat vs) = 22 \<and> take 13 (concat vs) = bytes_of ''GET 10.0.0.1 ''"
    if "list_all2 (field_value ?ctx) ex_template vs" for vs
    by (rule ex_template_value [OF that]) simp_all
  have "\<not> list_all2 (field_value ?ctx) ex_template (replicate (length ex_template) [])"
    using val [of "replicate (length ex_template) []"] by auto
  moreover have "(\<Sum>f\<leftarrow>ex_template. field_room ?ctx f) < MAX_UDP_PAYLOAD_LEN"
    using ex_template_room(2) by (simp add: MAX_UDP_PAYLOAD_LEN_def)
  moreover have "ex_template = udp_template_load (bytes_of ''GET ${SADDR} ${RAND_DIGIT=9}'')"
    "length (bytes_of ''GET ${SADDR} ${RAND_DIGIT=9}'') < 2 ^ 32"
    by (simp_all only: ex_template_loaded) (simp add: bytes_of_def)
  moreover have "length [10, 0, 0, 1 :: u8] = 4" "length [192, 0, 2, 1 :: u8] = 4"
    "length (replicate MAX_PACKET_SIZE (0 :: u8)) = MAX_PACKET_SIZE" by simp_all
  ultimately obtain packet vs aes' where p: "udp_make_packet ?c ex_udp (replicate MAX_PACKET_SIZE 0) 0 [10, 0, 0, 1]
      [192, 0, 2, 1] 53 64 0 aes = Inr (packet, PAYLOAD + length (concat vs), PAYLOAD + length (concat vs), aes')"
    "list_all2 (field_value ?ctx) ex_template vs" "bytes_at packet PAYLOAD (length (concat vs)) = Inr (concat vs)"
    "ip_checksum' (drop ETH packet) = Inr 0"
    using udp_template_probe [OF st(1) _ _ aes _ _ _ v refl, of "bytes_of ''GET ${SADDR} ${RAND_DIGIT=9}''" "replicate MAX_PACKET_SIZE 0" 0 64] unfolding st(2) by blast
  have n: "length (concat vs) = 22" "take 13 (concat vs) = bytes_of ''GET 10.0.0.1 ''" using val [OF p(2)] by simp_all
  have "bytes_at packet PAYLOAD 13 = Inr (take 13 (concat vs))"
  proof -
    have "PAYLOAD + 22 \<le> length packet" "take 22 (drop PAYLOAD packet) = concat vs"
      using p(3) n(1) by (auto simp: bytes_at_def split: if_splits)
    moreover have "take 13 (take 22 (drop PAYLOAD packet)) = take 13 (drop PAYLOAD packet)" by simp
    ultimately show ?thesis by (simp add: bytes_at_def)
  qed
  then show ?thesis using p(1,4) n by metis
qed

section \<open>What is recorded\<close>

lemma unat_swap16: "unat (swap16 w) = 256 * (unat w mod 256) + unat w div 256"
proof -
  have "swap16 w = push_bit 8 w + drop_bit 8 w"
    unfolding swap16_def by (rule disjunctive_add [symmetric]) (auto simp: bit_simps dest: bit_imp_le_length)
  moreover have "unat (push_bit 8 w) = 256 * (unat w mod 256)"
  proof -
    have "unat (push_bit 8 w) = take_bit 16 (push_bit 8 (unat w))" by (simp only: unsigned_push_bit_eq) simp
    then show ?thesis by (simp only: push_bit_eq_mult take_bit_eq_mod) (simp add: mult_mod_right mult.commute)
  qed
  moreover have "unat (drop_bit 8 w) = unat w div 256"
  proof -
    have "take_bit 16 (unat w) = unat w"
      by (rule take_bit_nat_eq_self) (use unsigned_less [of w, where ?'a = nat] in simp)
    moreover have "unat (drop_bit 8 w) = drop_bit 8 (take_bit 16 (unat w))" by (simp only: unsigned_drop_bit_eq) simp
    ultimately show ?thesis by (simp add: drop_bit_eq_div)
  qed
  moreover have "256 * (unat w mod 256) + unat w div 256 < 65536"
    using unsigned_less [of w, where ?'a = nat] by simp
  ultimately show ?thesis by (simp add: unat_word_ariths(1))
qed

text \<open>
  Since 8 is taken off the length in the wrong order, a length below 2048 gives at least 63488 bytes, and
  one above loses 2048 bytes.
\<close>

lemma swapped_difference:
  fixes h l :: nat
  assumes "h < 256" "l < 256" "y = (256 * l + h + 65528) mod 65536"
  shows "256 * (y mod 256) + y div 256
    = (if h < 8 then 63488 + 256 * h + (l + 255) mod 256 else 256 * h + l - 2048)"
proof -
  have g: "(a + b * 256) div 256 = b" "(a + b * 256) mod 256 = a" if "a < 256" for a b :: nat
    using that by simp_all
  consider "8 \<le> h" | "h < 8" "l = 0" | "h < 8" "0 < l" by linarith
  then show ?thesis
  proof cases
    case 1
    then have "256 * l + h + 65528 = 65536 + (256 * l + (h - 8))" by simp
    moreover have "256 * l + (h - 8) < 65536" using assms(1,2) by linarith
    ultimately have "y = (h - 8) + l * 256" using assms(3) by (metis add.commute mod_add_self1 mod_less mult.commute)
    then show ?thesis using 1 assms(1) g [of "h - 8" l] by simp
  next
    case 2
    then have "y = (248 + h) + 255 * 256" using assms by simp
    then have "y div 256 = 255" "y mod 256 = 248 + h" using 2 g [of "248 + h" 255] by simp_all
    then show ?thesis using 2 by simp
  next
    case 3
    then have "256 * l + h + 65528 = 65536 + ((248 + h) + (l - 1) * 256)" by (simp add: algebra_simps)
    moreover have "(248 + h) + (l - 1) * 256 < 65536" using assms(2) 3 by linarith
    ultimately have "y = (248 + h) + (l - 1) * 256" using assms(3) by (metis mod_add_self1 mod_less)
    then have "y div 256 = l - 1" "y mod 256 = 248 + h" using 3 g [of "248 + h" "l - 1"] by simp_all
    moreover have "(l + 255) mod 256 = l - 1"
    proof -
      have "l + 255 = 256 + (l - 1)" using 3 by simp
      moreover have "l - 1 < 256" using assms(2) by simp
      ultimately show ?thesis by (metis mod_add_self1 mod_less)
    qed
    ultimately show ?thesis using 3 by simp
  qed
qed

lemma udp_payload_len_value:
  "unat (udp_payload_len w) = (if unat w < 2048
     then 63488 + 256 * (unat w div 256) + (unat w mod 256 + 255) mod 256 else unat w - 2048)"
proof -
  let ?h = "unat w div 256" and ?l = "unat w mod 256"
  define y where "y = unat (swap16 w - 8)"
  have "swap16 w - 8 = swap16 w + 65528" by simp
  then have "y = (256 * ?l + ?h + 65528) mod 65536"
    unfolding y_def by (simp only: unat_word_ariths(1)) (simp add: unat_swap16)
  moreover have "?h < 256" "?l < 256" using unsigned_less [of w, where ?'a = nat] by simp_all
  moreover have "256 * ?h + ?l = unat w" by simp
  moreover have "?h < 8 \<longleftrightarrow> unat w < 2048" by linarith
  ultimately show ?thesis using swapped_difference [of ?h ?l y]
    by (simp add: udp_payload_len_def unat_swap16 y_def)
qed

lemma udp_payload_len_zero: "udp_payload_len w = 0 \<longleftrightarrow> unat w = 2048"
proof -
  have "udp_payload_len w = 0 \<longleftrightarrow> unat (udp_payload_len w) = 0" by (simp add: unat_eq_0)
  then show ?thesis using udp_payload_len_value [of w] by (simp split: if_splits)
qed

lemma udp_data_len_bound:
  assumes "ETH + hl + 8 \<le> len" "len < 63488"
  shows "ETH + hl + 8 + udp_data_len len ip_len hl ulen \<le> len"
    "hl + 8 \<le> unat ip_len \<Longrightarrow> unat ulen < 2048 \<Longrightarrow> ETH + unat ip_len \<le> len
       \<Longrightarrow> udp_data_len len ip_len hl ulen = unat ip_len - (hl + 8)"
proof -
  have r: "unat (of_nat len - of_nat ETH - of_nat hl - 8 :: u32) = len - (ETH + hl + 8)"
  proof -
    have "(of_nat len - of_nat ETH - of_nat hl - 8 :: u32) = of_nat (len - (ETH + hl + 8))"
      using assms(1) by (simp add: of_nat_diff algebra_simps)
    then show ?thesis using assms(2) by (simp add: unat_of_nat take_bit_nat_eq_self del: of_nat_diff)
  qed
  then show "ETH + hl + 8 + udp_data_len len ip_len hl ulen \<le> len"
    using assms(1) by (auto simp: udp_data_len_def Let_def r)
  assume h: "hl + 8 \<le> unat ip_len" "unat ulen < 2048" "ETH + unat ip_len \<le> len"
  have i: "unat (ucast ip_len - of_nat hl - 8 :: u32) = unat ip_len - (hl + 8)"
  proof -
    have "(ucast ip_len - of_nat hl - 8 :: u32) = of_nat (unat ip_len - (hl + 8))"
      using h(1) by (simp add: of_nat_diff algebra_simps)
    then show ?thesis using assms(2) h by (simp add: unat_of_nat take_bit_nat_eq_self del: of_nat_diff)
  qed
  have "63488 \<le> unat (udp_payload_len ulen)" using h(2) udp_payload_len_value [of ulen] by simp
  then show "udp_data_len len ip_len hl ulen = unat ip_len - (hl + 8)"
    using i h assms(2) r by (auto simp: udp_data_len_def Let_def ETH_def)
qed

text \<open>
  For a captured UDP reply of less than 63488 bytes, the record is made without a failure, whatever its
  lengths say: the declared fields in the declared order, with data that never goes past the captured
  bytes. The data is missing exactly when the UDP length is 2048, and for a length below 2048 it is
  all that the IP packet holds, whatever the UDP length is.
\<close>

lemma udp_record:
  assumes "ip_p (drop ETH packet) 0 = Inr IPPROTO_UDP" "ip_hl_bytes (drop ETH packet) 0 = Inr hl"
    "u16_at (drop ETH packet) 2 = Inr ip_len" "u16_at (drop ETH packet) (hl + 4) = Inr ulen"
    "ETH + hl + 8 \<le> length packet" "length packet < 63488"
    "fs_inner fs = None" "length (fs_fields fs) + 10 < MAX_FIELDS"
  shows "\<exists>fs' d. udp_process_packet packet (length packet) fs = Inr fs'
    \<and> map fst (fs_fields fs') = map fst (fs_fields fs) @ map (Some \<circ> fst) udp_fields
    \<and> fs_fields fs' ! length (fs_fields fs) = (Some ''success'', bool_val True)
    \<and> last (fs_fields fs') = (Some ''data'', d)
    \<and> (d = Null \<longleftrightarrow> unat ulen = 2048)
    \<and> (unat ulen \<noteq> 2048 \<longrightarrow> (\<exists>n. d = Binary (take n (drop (ETH + hl + 8) packet)) \<and> ETH + hl + 8 + n \<le> length packet
          \<and> (hl + 8 \<le> unat ip_len \<and> unat ulen < 2048 \<and> ETH + unat ip_len \<le> length packet
              \<longrightarrow> n = unat ip_len - (hl + 8))))"
proof -
  let ?ip = "drop ETH packet" and ?n = "udp_data_len (length packet) ip_len hl ulen"
  have len: "hl + 2 \<le> length ?ip" "hl + 2 + 2 \<le> length ?ip" using assms(5) by simp_all
  obtain sport dport where p: "u16_at ?ip hl = Inr sport" "u16_at ?ip (hl + 2) = Inr dport"
    using u16_at_returns [OF len(1)] u16_at_returns [OF len(2)] by blast
  note bound = udp_data_len_bound [OF assms(5,6), of ip_len ulen]
  let ?f = "[(''success'', bool_val True), (''clas'', Str ''udp''), (''sport'', num16 sport),
        (''dport'', num16 dport), (''icmp_responder'', Null), (''icmp_type'', Null), (''icmp_code'', Null),
        (''icmp_str'', Null), (''udp_pkt_size'', num16 ulen)]"
  let ?fs1 = "Fieldset None (fs_fields fs @ map (\<lambda>(n, v). (Some n, v)) ?f)"
  have f1: "fs_add_fields fs ?f = Inr ?fs1" using assms(7,8) by (intro fs_add_fields_room) simp_all
  have f2: "fs_add_word ?fs1 (Some ''data'') d = Inr (Fieldset None (fs_fields ?fs1 @ [(Some ''data'', d)]))" for d
    using assms(8) fs_add_word_room [of ?fs1] by simp
  define d where "d = (if unat ulen = 2048 then Null else Binary (take ?n (drop (ETH + hl + 8) packet)))"
  have data: "bytes_at ?ip (hl + sizeof_udphdr) ?n = Inr (take ?n (drop (ETH + hl + 8) packet))"
  proof -
    have "drop (hl + sizeof_udphdr) ?ip = drop (ETH + hl + 8) packet" "hl + sizeof_udphdr + ?n \<le> length ?ip"
      using bound(1) by (simp_all add: sizeof_udphdr_def add.commute add.left_commute add.assoc)
    then show ?thesis by (simp add: bytes_at_def)
  qed
  have "udp_process_udp ?ip hl (length packet) fs = Inr (Fieldset None (fs_fields ?fs1 @ [(Some ''data'', d)]))"
    unfolding udp_process_udp_def p assms(3,4) bind_out_simps f1 udp_payload_len_zero data fs_add_null_def fs_add_binary_def f2 d_def
    by simp
  then have "udp_process_packet packet (length packet) fs = Inr (Fieldset None (fs_fields ?fs1 @ [(Some ''data'', d)]))"
    using assms(1,2) by (simp add: udp_process_packet_def Let_def del: bind_out_eq_Inr)
  then show ?thesis using bound
    by (intro exI [of _ "Fieldset None (fs_fields ?fs1 @ [(Some ''data'', d)])"] exI [of _ d] conjI)
      (auto simp: udp_fields_def d_def nth_append intro!: exI [of _ ?n])
qed

text \<open>A reply of four bytes whose UDP length is 12, and one whose length is 2048.\<close>

definition ex_udp_reply :: "u8 \<Rightarrow> u8 list" where
  "ex_udp_reply h = replicate 14 0 @ [0x45, 0, 0, 32, 0, 0, 0, 0, 0, 17, 0, 0, 10, 2, 0, 1, 192, 168, 0, 1]
     @ [0, 53, 0x80, 0, h, if h = 0 then 12 else 0, 0, 0] @ [1, 2, 3, 4]"

lemma ex_udp_reply_parts:
  assumes "h \<in> {0, 8}"
  shows "ip_p (drop ETH (ex_udp_reply h)) 0 = Inr IPPROTO_UDP" "ip_hl_bytes (drop ETH (ex_udp_reply h)) 0 = Inr 20"
    "u16_at (drop ETH (ex_udp_reply h)) 2 = Inr 32"
    "u16_at (drop ETH (ex_udp_reply h)) (20 + 4) = Inr (if h = 0 then 12 else 2048)"
    "length (ex_udp_reply h) = 46"
proof -
  have "\<forall>h \<in> {0, 8}. ip_p (drop ETH (ex_udp_reply h)) 0 = Inr IPPROTO_UDP"
    "\<forall>h \<in> {0, 8}. ip_hl_bytes (drop ETH (ex_udp_reply h)) 0 = Inr 20"
    "\<forall>h \<in> {0, 8}. u16_at (drop ETH (ex_udp_reply h)) 2 = Inr 32"
    "\<forall>h \<in> {0, 8}. u16_at (drop ETH (ex_udp_reply h)) (20 + 4) = Inr (if h = 0 then 12 else 2048)"
    "\<forall>h \<in> {0, 8}. length (ex_udp_reply h) = 46"
    by code_simp+
  then show "ip_p (drop ETH (ex_udp_reply h)) 0 = Inr IPPROTO_UDP" "ip_hl_bytes (drop ETH (ex_udp_reply h)) 0 = Inr 20"
    "u16_at (drop ETH (ex_udp_reply h)) 2 = Inr 32"
    "u16_at (drop ETH (ex_udp_reply h)) (20 + 4) = Inr (if h = 0 then 12 else 2048)"
    "length (ex_udp_reply h) = 46"
    using assms by blast+
qed

lemma udp_record_example:
  "\<exists>fs1 fs2. udp_process_packet (ex_udp_reply 0) 46 fs_new_fieldset = Inr fs1
    \<and> last (fs_fields fs1) = (Some ''data'', Binary [1, 2, 3, 4])
    \<and> udp_process_packet (ex_udp_reply 8) 46 fs_new_fieldset = Inr fs2 \<and> last (fs_fields fs2) = (Some ''data'', Null)"
proof -
  have fs: "fs_inner fs_new_fieldset = None" "length (fs_fields fs_new_fieldset) + 10 < MAX_FIELDS"
    by (simp_all add: fs_new_fieldset_def MAX_FIELDS_def)
  have r: "\<exists>fs' d. udp_process_packet (ex_udp_reply h) 46 fs_new_fieldset = Inr fs' \<and> last (fs_fields fs') = (Some ''data'', d)
      \<and> (if h = 0 then d = Binary (take 4 (drop 42 (ex_udp_reply h))) else d = Null)" if h: "h \<in> {0, 8}" for h
  proof -
    have l: "ETH + 20 + 8 \<le> length (ex_udp_reply h)" "length (ex_udp_reply h) < 63488"
      by (simp_all add: ex_udp_reply_parts(5) [OF h] ETH_def)
    have n: "unat (32 :: u16) = 32" "unat (12 :: u16) = 12" "unat (2048 :: u16) = 2048" by simp_all
    show ?thesis
      using udp_record [OF ex_udp_reply_parts(1-4) [OF h] l fs] ex_udp_reply_parts(5) [OF h] h n
      by (cases "h = 0") (auto simp: ETH_def)
  qed
  have "take 4 (drop 42 (ex_udp_reply 0)) = [1, 2, 3, 4]" by code_simp
  then show ?thesis using r [of 0] r [of 8] by auto
qed

end
