(* ===== verification/Spec2Isabelle.thy ===== *)
theory Spec2Isabelle
  imports Iterator Aes_Inverse Sender Tga Udp_Probe
begin

text \<open>
  HMap scans a prefix space of IPv4 or IPv6: every combination of an allowed prefix, a port and an
  index is one target, and targets are visited in the order of a walk around a cyclic group. This
  development models the C code under \<open>src/HMapc\<close> that decides which targets exist, in which order
  and by which thread they are visited, which packets are sent to them, which replies are accepted,
  and what is recorded of them. Properties carry an identifier \<open>C\<close> and a number in the text before them.

  Foundations. \<open>HMap_Prelude\<close> has the fixed-width types, the outcomes of a call (a value, or an
  assertion, a fatal message, a read out of bounds, an undefined value) and of a run (\<open>None\<close> is a run
  that does not end), and lemmas on bits and lists. \<open>C_Lib\<close> and \<open>Hex_Text\<close> have the functions of the C
  library that the code parses and prints with. \<open>Interfaces\<close> states four contracts as locales:
  \<open>painted_space\<close>, addresses with values that can be set by prefix, counted and enumerated;
  \<open>cyclic_walk\<close>, a walk that meets every unit once in consecutive blocks; \<open>seen_filter\<close>, a filter that
  never forgets a string; \<open>key_set\<close>, a set of keys listed without repetition.

  Which targets. \<open>Constraint\<close> (\<open>lib/constraint.c\<close>) is the tree of addresses and interprets
  \<open>painted_space\<close>; \<open>Gmp_Ext\<close> is \<open>lib/gmp-ext.c\<close>. \<open>Blocklist\<close> is \<open>lib/blocklist.c\<close>: its state is a record of
  the file's static variables, an entry is a string, and the resolver is a parameter. \<open>Tga\<close>
  (\<open>lib/tga.c\<close> and its use in \<open>src/hmap.c\<close>) generates targets from seeds: vectors of hexadecimal digits
  are sorted and clustered into subspaces, a hash set, which interprets \<open>key_set\<close>, removes repetitions,
  and every subspace is expanded. \<open>Ip_Target_File\<close> (\<open>src/ip_target_file.c\<close>) reads targets from a list.

  Which order. \<open>Cyclic\<close> (\<open>src/cyclic.c\<close>) interprets \<open>cyclic_walk\<close>; \<open>Primitive_Root\<close> and
  \<open>Group_Certificates\<close> prove the primes and primitive roots of its table. \<open>Rijndael\<close>
  (\<open>lib/rijndael-alg-fst.c\<close>) and \<open>Aesrand\<close> (\<open>src/aesrand.c\<close>, \<open>src/validate.c\<close>) give the random numbers
  and the validation bytes; \<open>Aes_Tables\<close> shows what the tables hold and \<open>Aes_Inverse\<close> that decryption
  undoes encryption. \<open>Shard\<close> is \<open>src/shard.c\<close>, \<open>Iterator\<close> \<open>src/iterator.c\<close>.

  Packets. \<open>Packet\<close> (\<open>packet.c\<close>, \<open>packet.h\<close>) has headers, checksums and the fields derived from the
  validation bytes, \<open>Packet_Icmp\<close> the names of ICMP messages. \<open>Dns_Name\<close>, \<open>Dns\<close> and \<open>Dns_Probe\<close> are
  \<open>module_dns.c\<close>: names and pointers, options, queries and the sections of a reply, probes, validation
  and records. \<open>Udp\<close> is the validation of \<open>module_udp.c\<close>, which the DNS module uses too, \<open>Udp_Template\<close>
  its payload templates, \<open>Udp_Probe\<close> its options, probes and records. \<open>Tcp_Scan\<close> is
  \<open>module_tcp_scan.c\<close>, which answers a SYN-ACK. A packet is the list of the bytes from its first header
  on; reading past them is an outcome.

  Sending and receiving. \<open>Sender\<close> (\<open>src/send.c\<close>) is a sending thread: the probe module is a parameter,
  and so are the answers of the receiver, the clock and the network. \<open>Recv\<close> (\<open>src/recv.c\<close>,
  \<open>src/recv-pcap.c\<close>) handles captured packets with the callbacks of a probe module, for which the DNS,
  UDP and TCP modules are put in. \<open>Bloom\<close> (\<open>lib/bloom.c\<close>), the filter of repeated replies, interprets
  \<open>seen_filter\<close>. \<open>Fieldset\<close> (\<open>src/fieldset.c\<close>) has the records and \<open>Output_Filter\<close> (\<open>src/expression.c\<close>,
  \<open>src/filter.c\<close>) the expressions that choose among them.

  How they interact. \<open>blocklist_init\<close> paints the constraint tree and \<open>iterator_init\<close> counts it, takes
  the first group above the count, makes a cycle from the random numbers and sets up one shard for
  each thread. A shard steps through its block of the cycle, drops group elements above the count,
  turns the others into the address of that index in the tree and splits it into prefix, port and
  index. A sending thread takes these targets, joins each with interface identifiers, makes the
  packets of a stream and reports to the iterator when it ends. The probe module derives ports and
  sequence numbers from the validation bytes of a target, and recognises a reply by them without a
  table of probes. The receiver counts accepted replies, drops or marks repeated ones with the filter,
  sends the answer that a module writes, and translates the record for the output.

  What the lemmas show. The tree behaves as a function from addresses to values, its minimal shape is
  kept, its counts are cardinalities, and looking up the indices enumerates the addresses of a value.
  The lists paint what their entries say and never allow the all-zero address, which marks the end of
  a scan. The groups below the bound are cyclic with the listed roots, making a cycle ends, and the
  shards of all threads of all machines partition the walk: \<open>scan_exactly_once\<close> below puts this together,
  and \<open>send_run_probes\<close> adds that a thread makes exactly the probes of its targets. Target generation
  stays within three digits of a seed and finds every seed with a close successor. Checksums verify; a payload from a
  template fits and has the lengths of its packet; the TCP handshake is continued; replies that are accepted
  have the source, ports and numbers of a probe as far as the code compares them. Names and sections
  of DNS replies are read inside the memory they are given. The receiver's counters fit together,
  printed records are for distinct sources, and answers are for distinct segments.

  Bounds. The table of groups has 41 entries; the first 13 are certified here, which covers scans of
  fewer than \<open>2 ^ 52\<close> targets. A group is read as it is in memory, so the literal of the last one, which
  fills its array of 50 characters, is read on into the next array; the lemmas on the 13 groups are
  not affected. Target generation is followed for up to 244140 seeds, so that \<open>16 ^ 3\<close> targets for each
  stay below the capacity. The filter remembers strings of up to 32 bytes, and the counters of the receiver are
  exact below \<open>2 ^ 64\<close> packets. The copy in \<open>sanitize_utf8\<close> overlaps itself when more than two bytes
  follow an error; this is the outcome of an undefined value, and the properties of records say so.
  Loops whose end depends on arithmetic are \<open>partial_function\<close>s and their termination is part of the
  theorems. Machine integers are words; sums of \<open>int\<close> and \<open>size_t\<close> that cannot overflow at the
  asserted bounds are numbers.

  Not modelled. The pauses between packets and the two signal handlers that change the rate, which
  depend on floating point measurements of time; logging, printing and deallocation; sockets, libpcap
  and Redis, whose results are parameters; command line parsing (\<open>src/hopt.c\<close> is generated), the
  parsing of option strings and the start-up in \<open>src/hmap.c\<close> but for target generation; the ICMP, IPv6
  and further DNS modules, which repeat the structure of the modelled ones; the payload directories of
  the UDP module, whose initialisation is undefined; output and IID modules; progress reports and
  summaries, which format floating point numbers; floating point in the set-up of the filter, whose
  results are parameters; the code outside \<open>src/HMapc\<close>.
\<close>

section \<open>The whole enumeration\<close>

text \<open>
  C1: Allow and block lists are read, and \<open>N\<close> machines with the same seed start \<open>T\<close>
  threads each. Every machine's iterator is set up, with one shard per thread, and some thread has a
  target. If no thread is left without one, then the threads of all the machines together take every
  pair of an allowed IP and a scanned port and index exactly once, and nothing else.
\<close>

theorem scan_exactly_once:
  assumes "fresh st0" "parses_zero net"
    "blocklist_init net st0 af bf ae be ign il pl flag xl = Inr (ret, bl)"
    "blocklist_count_allowed_ip_port_index bl = Inr n" "n < 2 ^ 52"
    "conf_matches conf bl" "ports_distinct conf bl"
    "max_probe_port_index_len ic = il + pl + xl" "max_targets ic = 0" "max_packets_total ic = 0"
    "list_of_ip_count ic = 0" "\<not> iid_module_tga ic" "\<not> list_of_ips_given ic"
    "aes_ok aes" "0 < N" "0 < T" "int (unat N * unat T) < n"
  shows "\<exists>its aes'. (\<forall>k < unat N. iterator_init conf ic tlist bl aes T (of_nat k) N
        = Some (Inr (its k, conf\<lparr>send_max_index := n\<rparr>, bl, aes'))
        \<and> length (it_thread_shards (its k)) = unat T)
    \<and> (\<exists>k < unat N. \<exists>sh \<in> set (it_thread_shards (its k)). current sh \<noteq> PMAP_SHARD_DONE)
    \<and> ((\<forall>k < unat N. \<forall>sh \<in> set (it_thread_shards (its k)). current sh \<noteq> PMAP_SHARD_DONE) \<longrightarrow>
       (\<exists>tgs. (\<forall>k < unat N. scan_shards (conf\<lparr>send_max_index := n\<rparr>) bl (it_thread_shards (its k))
            = Some (Inr (tgs k)))
          \<and> distinct (concat (map tgs [0 ..< unat N]))
          \<and> set (concat (map tgs [0 ..< unat N])) = scan_set conf bl))"
proof -
  note I = blocklist_init_inv [OF assms(3,1,2)]
  then have "lengths_ok bl" by (auto simp: bl_inv_def)
  then have "IPVX_PORT_INDEX_MAX_BITS bl = il + pl + xl" using I by (simp add: lengths_ok_def)
  then have "scan_ready conf ic bl n" using I assms(4-13) by (simp add: scan_ready_def)
  then show ?thesis using assms(14-17) by (intro scan_all_shards) (simp_all add: sub_count_def)
qed

text \<open>A scan of the 16-bit prefixes of the example list by one thread, of port 80 only.\<close>

definition ex_scan_conf :: scan_conf where
  "ex_scan_conf = \<lparr>send_max_index = 0, max_probe_len = 16, ipv46_bytes = 4, max_port_index_len = 0,
     target_index_bits = 0, target_port_num = 0, target_index_num = 0,
     target_port_list = (\<lambda>_. 80), list_of_ips_readable = False\<rparr>"

definition ex_iter_conf :: iter_conf where
  "ex_iter_conf = \<lparr>max_probe_port_index_len = 16, max_targets = 0, max_packets_total = 0,
     list_of_ip_count = 0, iid_module_tga = False, list_of_ips_given = False\<rparr>"

theorem scan_exactly_once_witness:
  "\<exists>bl n it aes' tgs. (prefix_bytes ex_scan_conf 2562, 80, 0) \<in> set tgs \<and> distinct tgs
    \<and> iterator_init ex_scan_conf ex_iter_conf no_list bl ex_aes 1 0 1
        = Some (Inr (it, ex_scan_conf\<lparr>send_max_index := n\<rparr>, bl, aes'))
    \<and> scan_shards (ex_scan_conf\<lparr>send_max_index := n\<rparr>) bl (it_thread_shards it) = Some (Inr tgs)"
proof -
  obtain ret bl where r: "blocklist_init ex_net initial_blocklist None None (Some (map cidr_text ex_allow))
      (Some (map cidr_text ex_block)) False 16 0 4 0 = Inr (ret, bl)"
    "blocklist_is_allowed_ipvx bl 2562 = Inr True" "blocklist_is_allowed_ipvx bl 2563 = Inr True"
    by (rule ex_policy_run) (use ex_cidrs_meaning ex_cidrs_next in force)
  note I = blocklist_init_inv [OF r(1) fresh_initial ex_net_zero]
  then have inv: "bl_inv bl" and L: "lengths_ok bl" by (auto simp: bl_inv_def)
  let ?A = "{x \<in> Blocklist.ips bl. ip_allowed bl x}"
  have A: "?A \<subseteq> {0 ..< 2 ^ 16}" "2562 \<in> ?A" "2563 \<in> ?A"
    using I r(2,3) allowed_lookup [OF inv] by (auto simp: Blocklist.ips_def)
  have "card {2562, 2563 :: int} \<le> card ?A" using A by (intro card_mono) (auto intro: finite_subset)
  moreover have "card ?A \<le> card {0 ..< (2::int) ^ 16}" using A(1) by (intro card_mono) auto
  ultimately have card: "1 < int (card ?A)" "int (card ?A) < 2 ^ 52" by simp_all
  have count: "blocklist_count_allowed_ip_port_index bl = Inr (int (card ?A))"
    using count_of_card [OF inv, of 1] I L
    by (simp add: blocklist_count_allowed_ip_port_index_def ADDR_ALLOWED_def lengths_ok_def)
  have conf: "conf_matches ex_scan_conf bl" using I L by (auto simp: conf_matches_def ex_scan_conf_def lengths_ok_def)
  have one: "port_numbers ex_scan_conf bl = {0}" "index_numbers ex_scan_conf bl = {0}"
    using I by (auto simp: port_numbers_def index_numbers_def scanned_port_def scanned_index_def ex_scan_conf_def)
  have dist: "ports_distinct ex_scan_conf bl" by (simp add: ports_distinct_def one)
  let ?conf = "ex_scan_conf\<lparr>send_max_index := int (card ?A)\<rparr>"
  have ic: "max_probe_port_index_len ex_iter_conf = 16 + 0 + 0" "max_targets ex_iter_conf = 0"
    "max_packets_total ex_iter_conf = 0" "list_of_ip_count ex_iter_conf = 0" "\<not> iid_module_tga ex_iter_conf"
    "\<not> list_of_ips_given ex_iter_conf" by (simp_all add: ex_iter_conf_def)
  have "0 < (1 :: u16)" "0 < (1 :: u8)" "int (unat (1 :: u16) * unat (1 :: u8)) < int (card ?A)"
    using card(1) by simp_all
  from scan_exactly_once [OF fresh_initial ex_net_zero r(1) count card(2) conf dist ic ex_aes_ok this, of no_list]
  obtain its aes' where S: "(\<forall>k < unat (1 :: u16). iterator_init ex_scan_conf ex_iter_conf no_list bl ex_aes 1 (of_nat k) 1
        = Some (Inr (its k, ?conf, bl, aes')) \<and> length (it_thread_shards (its k)) = unat (1 :: u8))
      \<and> (\<exists>k < unat (1 :: u16). \<exists>sh \<in> set (it_thread_shards (its k)). current sh \<noteq> PMAP_SHARD_DONE)
      \<and> ((\<forall>k < unat (1 :: u16). \<forall>sh \<in> set (it_thread_shards (its k)). current sh \<noteq> PMAP_SHARD_DONE) \<longrightarrow>
       (\<exists>tgs. (\<forall>k < unat (1 :: u16). scan_shards ?conf bl (it_thread_shards (its k)) = Some (Inr (tgs k)))
          \<and> distinct (concat (map tgs [0 ..< unat (1 :: u16)]))
          \<and> set (concat (map tgs [0 ..< unat (1 :: u16)])) = scan_set ex_scan_conf bl))"
    by (elim exE) (rule that)
  note s = conjunct1 [OF S] conjunct1 [OF conjunct2 [OF S]] conjunct2 [OF conjunct2 [OF S]]
  obtain sh where sh: "it_thread_shards (its 0) = [sh]" using s(1) by (auto simp: length_Suc_conv)
  then have "current sh \<noteq> PMAP_SHARD_DONE" using s(2) by simp
  then obtain tgs where t: "scan_shards ?conf bl (it_thread_shards (its 0)) = Some (Inr (tgs 0))"
      "distinct (tgs 0)" "set (tgs 0) = scan_set ex_scan_conf bl"
    using s(3) sh by (auto simp del: scan_shards.simps)
  have it: "iterator_init ex_scan_conf ex_iter_conf no_list bl ex_aes 1 0 1 = Some (Inr (its 0, ?conf, bl, aes'))"
    using s(1) by simp
  have "(prefix_bytes ex_scan_conf 2562, 80, 0) \<in> scan_set ex_scan_conf bl"
    unfolding scan_set_def one using A(2) r(2) by (auto simp: ex_scan_conf_def)
  with t it show ?thesis by blast
qed

end
